(* ===== verification/FDB_Prelude.thy ===== *)
theory FDB_Prelude
  imports Main "HOL-Library.List_Lexorder" "HOL-Library.Char_ord"
begin

text \<open>
  What every component of the development shares: the errors the code throws and the result
  type that carries them, the ordered dictionary that stands for \<open>std::map\<close> (its iteration
  order is visible in several encodings, so it is a sorted association list), the sequence of
  values that goes through an \<open>eckit::Stream\<close>, and decimal output. The two interfaces
  \<open>ordered_map\<close> and \<open>codec\<close> are locales: the first is the contract of \<open>std::map\<close>, the
  second the contract of a pair of stream operators, and the lemmas proved inside them are
  reused by every component that stores in a map or writes itself to a stream.
\<close>

section \<open>Errors and results\<close>

text \<open>
  One constructor per kind of exception: \<open>eckit::SeriousBug\<close>, \<open>eckit::UserError\<close>, a failed
  \<open>ASSERT\<close>, \<open>NOTIMP\<close>, \<open>eckit::BadValue\<close>, a failing read of a stream, an exception
  that comes out of a library call, \<open>eckit::UnexpectedState\<close>, \<open>eckit::BadParameter\<close>, and a file or
  system call that fails (\<open>CantOpenFile\<close>, \<open>ReadError\<close>, \<open>WriteError\<close>, \<open>FailedSystemCall\<close>), the
  \<open>DistributionError\<close> of \<open>api/DistFDB.cc\<close>, and the exceptions of the remote protocol. The last one is not an exception: it marks a step that C++ leaves undefined. The string names the place.
\<close>

datatype error =
    SeriousBug string
  | UserError string
  | AssertFailed string
  | NotImplemented string
  | BadValue string
  | StreamError string
  | LibraryError string
  | UnexpectedState string
  | BadParameter string
  | IOError string
  | DistributionError string
  | RemoteError string
  | UndefinedBehaviour string

type_synonym 'a res = "error + 'a"

fun bindE :: "'a res \<Rightarrow> ('a \<Rightarrow> 'b res) \<Rightarrow> 'b res" where
  "bindE (Inl e) f = Inl e"
| "bindE (Inr x) f = f x"

definition assertE :: "bool \<Rightarrow> string \<Rightarrow> unit res" where
  "assertE b msg = (if b then Inr () else Inl (AssertFailed msg))"

fun mapE :: "('a \<Rightarrow> 'b res) \<Rightarrow> 'a list \<Rightarrow> 'b list res" where
  "mapE f [] = Inr []"
| "mapE f (x # xs) = bindE (f x) (\<lambda>y. bindE (mapE f xs) (\<lambda>ys. Inr (y # ys)))"

fun foldE :: "('a \<Rightarrow> 's \<Rightarrow> 's res) \<Rightarrow> 'a list \<Rightarrow> 's \<Rightarrow> 's res" where
  "foldE f [] s = Inr s"
| "foldE f (x # xs) s = bindE (f x s) (foldE f xs)"

text \<open>
  A computation over a state that survives an exception: what was done before the throw stays done.
\<close>

type_synonym ('s, 'a) step = "'s \<Rightarrow> 'a res \<times> 's"

definition retS :: "'a \<Rightarrow> ('s, 'a) step" where
  "retS x = (\<lambda>s. (Inr x, s))"

definition failS :: "error \<Rightarrow> ('s, 'a) step" where
  "failS e = (\<lambda>s. (Inl e, s))"

definition liftS :: "'a res \<Rightarrow> ('s, 'a) step" where
  "liftS r = (\<lambda>s. (r, s))"

definition bindS :: "('s, 'a) step \<Rightarrow> ('a \<Rightarrow> ('s, 'b) step) \<Rightarrow> ('s, 'b) step" where
  "bindS m f = (\<lambda>s. case m s of (Inl e, s') \<Rightarrow> (Inl e, s') | (Inr x, s') \<Rightarrow> f x s')"

fun foldS :: "('a \<Rightarrow> 'b \<Rightarrow> ('s, 'b) step) \<Rightarrow> 'a list \<Rightarrow> 'b \<Rightarrow> ('s, 'b) step" where
  "foldS f [] x = retS x"
| "foldS f (a # as) x = bindS (f a x) (foldS f as)"

named_theorems res_simps "how results of composed computations split"

lemma bindE_cong [fundef_cong]:
  "m = m' \<Longrightarrow> (\<And>x. m' = Inr x \<Longrightarrow> f x = f' x) \<Longrightarrow> bindE m f = bindE m' f'"
  by (cases m') simp_all

lemma bindE_eq_Inr [res_simps]: "bindE m f = Inr y \<longleftrightarrow> (\<exists>x. m = Inr x \<and> f x = Inr y)"
  by (cases m) simp_all

lemma bindE_eq_Inl [res_simps]:
  "bindE m f = Inl e \<longleftrightarrow> m = Inl e \<or> (\<exists>x. m = Inr x \<and> f x = Inl e)"
  by (cases m) simp_all

lemma bindS_eq_Inr [res_simps]:
  "bindS m f s = (Inr y, s') \<longleftrightarrow> (\<exists>x s1. m s = (Inr x, s1) \<and> f x s1 = (Inr y, s'))"
  by (auto simp: bindS_def split: prod.splits sum.splits)

lemma stepS_simps [simp]: "retS x s = (Inr x, s)" "failS e s = (Inl e, s)" "liftS r s = (r, s)"
  by (simp_all add: retS_def failS_def liftS_def)

lemma bindS_step [simp]:
  "m s = (Inl e, s1) \<Longrightarrow> bindS m f s = (Inl e, s1)"
  "m s = (Inr x, s1) \<Longrightarrow> bindS m f s = f x s1"
  by (simp_all add: bindS_def)

lemma bindE_assoc: "bindE (bindE m f) g = bindE m (\<lambda>x. bindE (f x) g)"
  by (cases m) simp_all

lemma bindE_Inr_right [simp]: "bindE m Inr = m"
  by (cases m) simp_all

lemma assertE_eq_Inr [res_simps]: "assertE b msg = Inr u \<longleftrightarrow> b"
  by (simp add: assertE_def)

lemma assertE_eq_Inl [res_simps]: "assertE b msg = Inl e \<longleftrightarrow> \<not> b \<and> e = AssertFailed msg"
  by (auto simp: assertE_def)

lemma assertE_True [simp]: "assertE True msg = Inr ()"
  by (simp add: assertE_def)

lemma assertE_False [simp]: "assertE False msg = Inl (AssertFailed msg)"
  by (simp add: assertE_def)

lemma mapE_eq_Inr [res_simps]: "mapE f xs = Inr ys \<longleftrightarrow> list_all2 (\<lambda>x y. f x = Inr y) xs ys"
proof (induction xs arbitrary: ys)
  case Nil
  then show ?case by auto
next
  case (Cons x xs)
  then show ?case by (cases ys) (auto simp: bindE_eq_Inr)
qed

lemma mapE_length: "mapE f xs = Inr ys \<Longrightarrow> length ys = length xs"
  by (auto simp: mapE_eq_Inr dest: list_all2_lengthD)

lemma mapE_total: "(\<And>x. x \<in> set xs \<Longrightarrow> f x = Inr (g x)) \<Longrightarrow> mapE f xs = Inr (map g xs)"
  by (induction xs) auto

lemma mapE_cong [fundef_cong]:
  "xs = ys \<Longrightarrow> (\<And>x. x \<in> set ys \<Longrightarrow> f x = g x) \<Longrightarrow> mapE f xs = mapE g ys"
proof (induction ys arbitrary: xs)
  case Nil
  then show ?case by simp
next
  case (Cons y ys)
  then have "mapE f ys = mapE g ys" by auto
  with Cons.prems show ?case by simp
qed

lemma foldE_append: "foldE f (xs @ ys) s = bindE (foldE f xs s) (foldE f ys)"
proof (induction xs arbitrary: s)
  case (Cons x xs)
  then have "foldE f (xs @ ys) = (\<lambda>s. bindE (foldE f xs s) (foldE f ys))" by auto
  then show ?case by (simp add: bindE_assoc)
qed simp

lemma foldE_total:
  "(\<And>x s. x \<in> set xs \<Longrightarrow> f x s = Inr (g x s)) \<Longrightarrow> foldE f xs s = Inr (fold g xs s)"
  by (induction xs arbitrary: s) auto

lemma foldE_invariant:
  assumes "\<And>x s s'. x \<in> set xs \<Longrightarrow> P s \<Longrightarrow> f x s = Inr s' \<Longrightarrow> P s'"
    and "P s" and "foldE f xs s = Inr s'"
  shows "P s'"
  using assms by (induction xs arbitrary: s) (auto simp: bindE_eq_Inr)

text \<open>A fold over a detailed state follows a fold over an abstract one.\<close>

lemma foldE_simulation:
  assumes "\<And>x i v. x \<in> set xs \<Longrightarrow> \<exists>j. f x (S i v) = bindE (w x v) (\<lambda>v'. Inr (S j v'))"
  shows "\<exists>j. foldE f xs (S i v) = bindE (foldE w xs v) (\<lambda>v'. Inr (S j v'))"
  using assms
proof (induction xs arbitrary: i v)
  case (Cons x xs)
  from Cons.prems [of x i v] obtain j where j: "f x (S i v) = bindE (w x v) (\<lambda>v'. Inr (S j v'))"
    by auto
  show ?case
  proof (cases "w x v")
    case (Inr v1)
    from Cons.IH [of j v1] Cons.prems show ?thesis by (auto simp: j Inr)
  qed (simp add: j)
qed auto

lemma distinct_map_head: "distinct (map f (x # xs)) \<Longrightarrow> y \<in> set xs \<Longrightarrow> f y \<noteq> f x"
  by (metis distinct.simps(2) image_eqI list.set_map list.simps(9))

section \<open>Ordered dictionaries: \<open>std::map\<close>\<close>

text \<open>
  The interface of \<open>std::map\<close> as the code uses it: \<open>find\<close>, assignment through
  \<open>operator[]\<close>, \<open>erase\<close>, and iteration in key order.
\<close>

locale ordered_map =
  fixes lookup :: "'m \<Rightarrow> 'k::linorder \<Rightarrow> 'v option"
    and assign :: "'k \<Rightarrow> 'v \<Rightarrow> 'm \<Rightarrow> 'm"
    and erase :: "'k \<Rightarrow> 'm \<Rightarrow> 'm"
    and entries :: "'m \<Rightarrow> ('k \<times> 'v) list"
    and nil :: "'m"
    and inv :: "'m \<Rightarrow> bool"
  assumes lookup_nil: "lookup nil k = None"
    and lookup_assign: "lookup (assign k v m) k' = (if k' = k then Some v else lookup m k')"
    and lookup_erase: "lookup (erase k m) k' = (if k' = k then None else lookup m k')"
    and inv_nil: "inv nil"
    and inv_assign: "inv m \<Longrightarrow> inv (assign k v m)"
    and inv_erase: "inv m \<Longrightarrow> inv (erase k m)"
    and entries_lookup: "inv m \<Longrightarrow> (k, v) \<in> set (entries m) \<longleftrightarrow> lookup m k = Some v"
    and entries_sorted: "inv m \<Longrightarrow> sorted_wrt (<) (map fst (entries m))"
    and entries_ext: "inv m \<Longrightarrow> inv n \<Longrightarrow> entries m = entries n \<Longrightarrow> m = n"
begin

lemma keys_entries:
  assumes "inv m"
  shows "fst ` set (entries m) = {k. lookup m k \<noteq> None}"
  by (force simp: image_iff entries_lookup [OF assms] intro: bexI [where x = "(k, v)" for k v])

lemma distinct_entries: "inv m \<Longrightarrow> distinct (map fst (entries m))"
  using entries_sorted strict_sorted_iff by blast

text \<open>Filling a map from a list of pairs, later pairs winning: the loop of every decoder.\<close>

lemma lookup_fold_assign:
  "lookup (fold (\<lambda>(k, v). assign k v) kvs m) k =
     (case map_of (rev kvs) k of None \<Rightarrow> lookup m k | Some v \<Rightarrow> Some v)"
  by (induction kvs arbitrary: m)
    (auto simp: lookup_assign map_add_def split: option.splits)

lemma inv_fold_assign: "inv m \<Longrightarrow> inv (fold (\<lambda>(k, v). assign k v) kvs m)"
  by (induction kvs arbitrary: m) (auto simp: inv_assign)

text \<open>A map is determined by its lookups: iteration order is not extra information.\<close>

lemma lookup_ext:
  assumes "inv m" and "inv n" and "\<And>k. lookup m k = lookup n k"
  shows "m = n"
proof -
  have eq: "set (entries m) = set (entries n)"
    using entries_lookup [OF assms(1)] entries_lookup [OF assms(2)] assms(3) by auto
  have "entries m = entries n"
  proof (rule map_sorted_distinct_set_unique [where f = fst])
    show "inj_on fst (set (entries m) \<union> set (entries n))"
      using distinct_entries [OF assms(1)] eq by (simp add: distinct_map)
  qed (use entries_sorted [OF assms(1)] entries_sorted [OF assms(2)] eq in
      \<open>auto simp: strict_sorted_iff\<close>)
  then show ?thesis by (rule entries_ext [OF assms(1,2)])
qed

text \<open>Writing a map out entry by entry and reading it back gives the same map.\<close>

lemma rebuild: "inv m \<Longrightarrow> fold (\<lambda>(k, v). assign k v) (entries m) nil = m"
proof (rule lookup_ext)
  fix k
  assume m: "inv m"
  have "map_of (rev (entries m)) = map_of (entries m)"
    using distinct_entries [OF m] by (intro map_of_inject_set [THEN iffD2]) (auto simp: rev_map [symmetric])
  moreover have "map_of (entries m) k = lookup m k"
    using distinct_entries [OF m] entries_lookup [OF m]
    by (cases "lookup m k") (auto simp: map_of_eq_None_iff)
  ultimately show "lookup (fold (\<lambda>(k, v). assign k v) (entries m) nil) k = lookup m k"
    by (simp add: lookup_fold_assign lookup_nil split: option.splits)
qed (auto intro: inv_fold_assign inv_nil)

end

type_synonym ('k, 'v) dict = "('k \<times> 'v) list"

fun dict_put :: "'k::linorder \<Rightarrow> 'v \<Rightarrow> ('k, 'v) dict \<Rightarrow> ('k, 'v) dict" where
  "dict_put k v [] = [(k, v)]"
| "dict_put k v ((k', v') # d) =
     (if k < k' then (k, v) # (k', v') # d
      else if k = k' then (k, v) # d
      else (k', v') # dict_put k v d)"

definition dict_erase :: "'k \<Rightarrow> ('k, 'v) dict \<Rightarrow> ('k, 'v) dict" where
  "dict_erase k d = filter (\<lambda>kv. fst kv \<noteq> k) d"

abbreviation dict_keys :: "('k, 'v) dict \<Rightarrow> 'k list" where
  "dict_keys d \<equiv> map fst d"

definition dict_ok :: "('k::linorder, 'v) dict \<Rightarrow> bool" where
  "dict_ok d \<longleftrightarrow> sorted_wrt (<) (dict_keys d)"

lemma map_of_dict_put [simp]: "map_of (dict_put k v d) = (map_of d)(k \<mapsto> v)"
  by (induction k v d rule: dict_put.induct) (auto simp: fun_eq_iff)

lemma dict_put_twice [simp]: "dict_put k w (dict_put k v d) = dict_put k w d"
  by (induction k v d rule: dict_put.induct) auto

lemma map_of_dict_erase [simp]: "map_of (dict_erase k d) = (map_of d)(k := None)"
  by (induction d) (auto simp: dict_erase_def fun_eq_iff)

lemma set_dict_keys_put [simp]: "set (dict_keys (dict_put k v d)) = insert k (set (dict_keys d))"
  by (induction k v d rule: dict_put.induct) auto

lemma fst_set_dict_put [simp]: "fst ` set (dict_put k v d) = insert k (fst ` set d)"
  using set_dict_keys_put by (metis set_map)

lemma dict_ok_Nil [simp]: "dict_ok []"
  by (simp add: dict_ok_def)

lemma dict_ok_put [simp]: "dict_ok d \<Longrightarrow> dict_ok (dict_put k v d)"
  unfolding dict_ok_def
  by (induction k v d rule: dict_put.induct) (auto simp: less_imp_not_less neq_iff dest: order_less_trans)

lemma dict_ok_filter: "dict_ok d \<Longrightarrow> dict_ok (filter P d)"
  unfolding dict_ok_def by (induction d) auto

lemma dict_ok_erase [simp]: "dict_ok d \<Longrightarrow> dict_ok (dict_erase k d)"
  by (simp add: dict_erase_def dict_ok_filter)

lemma dict_ok_distinct: "dict_ok d \<Longrightarrow> distinct (dict_keys d)"
  by (simp add: dict_ok_def strict_sorted_iff)

lemma dict_ok_sorted: "dict_ok d \<Longrightarrow> sorted_wrt (<) (dict_keys d)"
  by (simp add: dict_ok_def)

lemma dict_ok_in_set: "dict_ok d \<Longrightarrow> (k, v) \<in> set d \<longleftrightarrow> map_of d k = Some v"
  by (auto simp: dict_ok_distinct dest: map_of_SomeD)

interpretation dict: ordered_map map_of dict_put dict_erase "\<lambda>d. d" "[]" dict_ok
proof unfold_locales
  show "dict_ok d \<Longrightarrow> dict_ok (dict_put k v d)" for d :: "('a, 'b) dict" and k v
    by (rule dict_ok_put)
  show "dict_ok d \<Longrightarrow> dict_ok (dict_erase k d)" for d :: "('a, 'b) dict" and k
    by (rule dict_ok_erase)
qed (simp_all add: dict_ok_in_set dict_ok_sorted)

lemma length_dict_put_fresh: "map_of d k = None \<Longrightarrow> length (dict_put k v d) = Suc (length d)"
  by (induction k v d rule: dict_put.induct) (auto split: if_splits)

lemma length_dict_put_present:
  "dict_ok d \<Longrightarrow> map_of d k \<noteq> None \<Longrightarrow> length (dict_put k v d) = length d"
proof -
  assume ok: "dict_ok d" and k: "map_of d k \<noteq> None"
  have "length (dict_put k v d) = card (set (dict_keys (dict_put k v d)))"
    using dict_ok_distinct [OF dict_ok_put [OF ok]] by (metis distinct_card length_map)
  also have "\<dots> = card (set (dict_keys d))"
    using k by (simp only: set_dict_keys_put) (auto simp: map_of_eq_None_iff insert_absorb)
  finally show ?thesis
    using dict_ok_distinct [OF ok] by (metis distinct_card length_map)
qed

lemma dict_erase_put_fresh:
  "dict_ok d \<Longrightarrow> map_of d k = None \<Longrightarrow> dict_erase k (dict_put k v d) = d"
  by (rule dict.lookup_ext) auto

section \<open>Streams\<close>

text \<open>
  A stream is the sequence of the values that the code hands to \<open>operator<<\<close>, in order; a
  read takes the first value and fails when it is not of the type that is read. The layout of
  the bytes is the business of the library.
\<close>

datatype item =
    IStr string
  | INum nat
  | IInt int
  | IBool bool
  | IObject
  | IEnd

type_synonym 'a reader = "item list \<Rightarrow> ('a \<times> item list) res"

fun read_str :: "string reader" where
  "read_str (IStr s # is) = Inr (s, is)"
| "read_str _ = Inl (StreamError ''string expected'')"

fun read_num :: "nat reader" where
  "read_num (INum n # is) = Inr (n, is)"
| "read_num _ = Inl (StreamError ''number expected'')"

fun read_int :: "int reader" where
  "read_int (IInt n # is) = Inr (n, is)"
| "read_int _ = Inl (StreamError ''signed number expected'')"

fun read_bool :: "bool reader" where
  "read_bool (IBool b # is) = Inr (b, is)"
| "read_bool _ = Inl (StreamError ''boolean expected'')"

fun read_many :: "'a reader \<Rightarrow> nat \<Rightarrow> 'a list reader" where
  "read_many r 0 is = Inr ([], is)"
| "read_many r (Suc n) is =
     bindE (r is) (\<lambda>(x, is'). bindE (read_many r n is') (\<lambda>(xs, is''). Inr (x # xs, is'')))"

text \<open>
  The contract of a pair of stream operators: reading what was written gives the value back
  and leaves the rest of the stream.
\<close>

locale codec =
  fixes enc :: "'a \<Rightarrow> item list"
    and dec :: "'a reader"
    and ok :: "'a \<Rightarrow> bool"
  assumes dec_enc: "ok x \<Longrightarrow> dec (enc x @ rest) = Inr (x, rest)"
begin

lemma read_many_enc:
  "list_all ok xs \<Longrightarrow> read_many dec (length xs) (concat (map enc xs) @ rest) = Inr (xs, rest)"
  by (induction xs) (simp_all add: dec_enc)

lemma enc_prefix_inject:
  assumes "ok x" and "ok y" and "enc x @ r = enc y @ s"
  shows "x = y \<and> r = s"
proof -
  have "Inr (x, r) = dec (enc y @ s)"
    using dec_enc [OF assms(1), of r] by (simp only: assms(3))
  then show ?thesis
    by (simp add: dec_enc [OF assms(2)])
qed

end

interpretation str_codec: codec "\<lambda>s. [IStr s]" read_str "\<lambda>_. True"
  by unfold_locales simp

interpretation num_codec: codec "\<lambda>n. [INum n]" read_num "\<lambda>_. True"
  by unfold_locales simp

section \<open>Text\<close>

definition digit_char :: "nat \<Rightarrow> char" where
  "digit_char d = ''0123456789'' ! d"

fun show_nat :: "nat \<Rightarrow> string" where
  "show_nat n =
     (if n < 10 then [digit_char n] else show_nat (n div 10) @ [digit_char (n mod 10)])"

declare show_nat.simps [simp del]

definition show_int :: "int \<Rightarrow> string" where
  "show_int i = (if i < 0 then CHR ''-'' # show_nat (nat (- i)) else show_nat (nat i))"

text \<open>\<open>std::setfill(c) << std::setw(w)\<close>: fill on the left up to the width.\<close>

definition pad_left :: "char \<Rightarrow> nat \<Rightarrow> string \<Rightarrow> string" where
  "pad_left c w s = replicate (w - length s) c @ s"

fun join_with :: "string \<Rightarrow> string list \<Rightarrow> string" where
  "join_with sep [] = []"
| "join_with sep [x] = x"
| "join_with sep (x # y # xs) = x @ sep @ join_with sep (y # xs)"

lemma join_with_nonempty: "x \<noteq> [] \<Longrightarrow> join_with sep (x # xs) \<noteq> []"
  by (cases xs) simp_all

lemma pad_left_idem [simp]: "pad_left c w (pad_left c w s) = pad_left c w s"
  by (simp add: pad_left_def)

lemma length_pad_left: "length (pad_left c w s) = max w (length s)"
  by (simp add: pad_left_def)

lemma show_nat_nonempty [simp]: "show_nat n \<noteq> []"
  by (subst show_nat.simps) simp

end
