(* ===== verification/FDB_External.thy ===== *)
theory FDB_External
  imports FDB_Prelude
begin

text \<open>
  What the code takes from eckit and metkit. None of it is under \<open>src/\<close>, so none of it is
  defined here: the library calls are the fields of the record \<open>ext\<close>, which every definition
  that makes such a call takes as its first argument, and a MARS request is the record of the
  answers its methods give. Each law the code relies on is a named predicate on \<open>ext\<close>,
  stating documented behaviour; a property that needs one has it as a hypothesis.
\<close>

section \<open>Values of library types, as the code observes them\<close>

text \<open>\<open>eckit::Date\<close>, \<open>eckit::Time\<close>, a \<open>double\<close> and \<open>metkit::Param\<close>: the observations made of them.\<close>

record cal_date =
  date_year :: int
  date_month :: int
  date_day :: int
  date_yyyymmdd :: int
  date_text :: string

record clock =
  clock_hours :: int
  clock_minutes :: int

record dbl =
  dbl_trunc :: int
  dbl_whole :: bool
  dbl_text :: string

record param_id =
  param_value :: int
  param_table :: int
  param_text :: string

text \<open>
  \<open>metkit::mars::MarsRequest\<close>: \<open>params()\<close>, \<open>has(k)\<close>, \<open>values(k)\<close>, \<open>values(k, true)\<close> (an
  absent parameter allowed), and \<open>getValues(k, v, true)\<close> at the types dates, longs and doubles.
\<close>

record mars_request =
  rq_params :: "string list"
  rq_has :: "string \<Rightarrow> bool"
  rq_values :: "string \<Rightarrow> string list res"
  rq_values_ok :: "string \<Rightarrow> string list"
  rq_dates :: "string \<Rightarrow> cal_date list res"
  rq_longs :: "string \<Rightarrow> int list res"
  rq_dbls :: "string \<Rightarrow> dbl list res"

text \<open>The coherence of the answers, as the class documents it.\<close>

definition request_ok :: "mars_request \<Rightarrow> bool" where
  "request_ok rq \<longleftrightarrow>
     (\<forall>k. rq_has rq k = (k \<in> set (rq_params rq))) \<and>
     (\<forall>k. rq_has rq k \<longrightarrow> rq_values rq k = Inr (rq_values_ok rq k)) \<and>
     (\<forall>k. \<not> rq_has rq k \<longrightarrow> rq_values_ok rq k = [])"

section \<open>Library calls\<close>

text \<open>
  In order: \<open>StringTools::trim\<close>, \<open>StringTools::join\<close>, \<open>Tokenizer(sep, keepEmpty)\<close>,
  \<open>Translator<string,long>\<close>, \<open>Translator<long,string>\<close>, \<open>Date(string)\<close>, \<open>Date(long)\<close>,
  \<open>Time(string)\<close>, \<open>Translator<string,double>\<close>, \<open>StepRange(string)\<close> (a step range is
  represented by its canonical text), its \<open>operator<\<close>, \<open>StepRangeNormalise::normalise\<close>,
  \<open>Param(string)\<close>, its \<open>operator<\<close>, and \<open>ParamID::normalise\<close>.
\<close>

record ext =
  x_trim :: "string \<Rightarrow> string"
  x_join :: "string \<Rightarrow> string list \<Rightarrow> string"
  x_tokenize :: "char \<Rightarrow> bool \<Rightarrow> string \<Rightarrow> string list"
  x_long :: "string \<Rightarrow> int res"
  x_show_long :: "int \<Rightarrow> string"
  x_date :: "string \<Rightarrow> cal_date res"
  x_date_offset :: "int \<Rightarrow> cal_date"
  x_time :: "string \<Rightarrow> clock res"
  x_double :: "string \<Rightarrow> dbl res"
  x_step :: "string \<Rightarrow> string res"
  x_step_less :: "string \<Rightarrow> string \<Rightarrow> bool"
  x_step_normalise :: "string list \<Rightarrow> string list \<Rightarrow> string list res"
  x_param :: "string \<Rightarrow> param_id res"
  x_param_less :: "param_id \<Rightarrow> param_id \<Rightarrow> bool"
  x_param_normalise :: "mars_request \<Rightarrow> param_id list \<Rightarrow> param_id list \<Rightarrow>
     (param_id list \<times> param_id list \<times> bool) res"

subsection \<open>Documented laws\<close>

text \<open>
  A decimal numeral, with any zeros in front, is read back as the number it shows; a
  numeral never starts with a blank and trimming leaves text without blanks at its ends alone;
  a relative date is printed without a leading zero or sign; a tokenizer that keeps empty
  tokens splits exactly at the separators.
\<close>

definition long_law :: "ext \<Rightarrow> bool" where
  "long_law e \<longleftrightarrow> (\<forall>w n. x_long e (pad_left CHR ''0'' w (show_nat n)) = Inr (int n))"

definition trim_law :: "ext \<Rightarrow> bool" where
  "trim_law e \<longleftrightarrow> (\<forall>n s. x_trim e (replicate n CHR ''0'' @ x_trim e s) = replicate n CHR ''0'' @ x_trim e s)"

definition date_text_law :: "ext \<Rightarrow> bool" where
  "date_text_law e \<longleftrightarrow>
     (\<forall>n. let t = x_show_long e (date_yyyymmdd (x_date_offset e n))
          in t \<noteq> [] \<and> hd t \<noteq> CHR ''0'' \<and> hd t \<noteq> CHR ''-'')"

fun split_at :: "char \<Rightarrow> string \<Rightarrow> string list" where
  "split_at c [] = [[]]"
| "split_at c (x # xs) =
     (if x = c then [] # split_at c xs
      else (case split_at c xs of [] \<Rightarrow> [[x]] | t # ts \<Rightarrow> (x # t) # ts))"

definition tokenize_keep_law :: "ext \<Rightarrow> bool" where
  "tokenize_keep_law e \<longleftrightarrow> (\<forall>c s. x_tokenize e c True s = split_at c s)"

definition tokenize_law :: "ext \<Rightarrow> bool" where
  "tokenize_law e \<longleftrightarrow> (\<forall>c s. x_tokenize e c False s = filter (\<lambda>t. t \<noteq> []) (split_at c s))"

lemma split_at_not_Nil [simp]: "split_at c s \<noteq> []"
  by (induction s) (auto split: list.splits)

lemma split_at_plain: "c \<notin> set s \<Longrightarrow> split_at c s = [s]"
  by (induction s) auto

lemma split_at_append: "c \<notin> set s \<Longrightarrow> split_at c (s @ c # t) = s # split_at c t"
  by (induction s) auto

lemma split_at_join:
  "vs \<noteq> [] \<Longrightarrow> \<forall>v \<in> set vs. c \<notin> set v \<Longrightarrow> split_at c (join_with [c] vs) = vs"
  by (induction "[c]" vs rule: join_with.induct) (auto simp: split_at_plain split_at_append)

section \<open>A reference instance\<close>

text \<open>
  A concrete instance of the library, used only where a property is exercised at a concrete
  input: decimal numerals, texts without blanks, dates and times written in full.
\<close>

definition digit_value :: "char \<Rightarrow> nat option" where
  "digit_value c = (let n = of_char c :: nat in if 48 \<le> n \<and> n < 58 then Some (n - 48) else None)"

fun parse_digits :: "nat \<Rightarrow> string \<Rightarrow> nat option" where
  "parse_digits acc [] = Some acc"
| "parse_digits acc (c # cs) =
     (case digit_value c of None \<Rightarrow> None | Some d \<Rightarrow> parse_digits (10 * acc + d) cs)"

definition parse_long :: "string \<Rightarrow> int res" where
  "parse_long s =
     (let bad = Inl (LibraryError ''Translator'')
      in case s of
           [] \<Rightarrow> bad
         | c # cs \<Rightarrow>
             (if c = CHR ''-'' then
                (if cs = [] then bad else case parse_digits 0 cs of None \<Rightarrow> bad | Some n \<Rightarrow> Inr (- int n))
              else case parse_digits 0 s of None \<Rightarrow> bad | Some n \<Rightarrow> Inr (int n)))"

definition ref_date :: "int \<Rightarrow> cal_date" where
  "ref_date n = \<lparr>date_year = n div 10000, date_month = n div 100 mod 100, date_day = n mod 100,
     date_yyyymmdd = n, date_text = show_int n\<rparr>"

definition ref_ext :: ext where
  "ref_ext = \<lparr>
     x_trim = (\<lambda>s. dropWhile (\<lambda>c. c = CHR '' '') s),
     x_join = join_with,
     x_tokenize = (\<lambda>c keep s. if keep then split_at c s else filter (\<lambda>t. t \<noteq> []) (split_at c s)),
     x_long = parse_long,
     x_show_long = show_int,
     x_date = (\<lambda>s. bindE (parse_long s) (\<lambda>n. Inr (ref_date n))),
     x_date_offset = (\<lambda>_. ref_date 20240101),
     x_time = (\<lambda>s. bindE (parse_long s) (\<lambda>n. Inr \<lparr>clock_hours = n div 100, clock_minutes = n mod 100\<rparr>)),
     x_double = (\<lambda>s. bindE (parse_long s) (\<lambda>n. Inr \<lparr>dbl_trunc = n, dbl_whole = True, dbl_text = s\<rparr>)),
     x_step = (\<lambda>s. Inr s),
     x_step_less = (\<lambda>s t. s < t),
     x_step_normalise = (\<lambda>rs ax. Inr rs),
     x_param = (\<lambda>s. bindE (parse_long s) (\<lambda>n. Inr \<lparr>param_value = n, param_table = 0, param_text = s\<rparr>)),
     x_param_less = (\<lambda>p q. param_value p < param_value q),
     x_param_normalise = (\<lambda>rq us ax. Inr (us, ax, False))\<rparr>"

lemma ref_ext_simps [simp]:
  "x_tokenize ref_ext c keep s = (if keep then split_at c s else filter (\<lambda>t. t \<noteq> []) (split_at c s))"
  "x_long ref_ext s = parse_long s"
  "x_show_long ref_ext n = show_int n"
  "x_step ref_ext s = Inr s"
  "x_join ref_ext = join_with"
  by (simp_all add: ref_ext_def)

lemma parse_digits_append:
  "parse_digits acc (s @ t) =
     (case parse_digits acc s of None \<Rightarrow> None | Some n \<Rightarrow> parse_digits n t)"
  by (induction s arbitrary: acc) (auto split: option.splits)

lemma digit_char_cases:
  "n < 10 \<Longrightarrow> digit_value (digit_char n) = Some n \<and> digit_char n \<noteq> CHR ''-''"
  by (auto simp: numeral_eq_Suc less_Suc_eq digit_value_def digit_char_def)

lemma digit_value_char [simp]: "n < 10 \<Longrightarrow> digit_value (digit_char n) = Some n"
  by (simp add: digit_char_cases)

lemma parse_show_nat: "parse_digits 0 (show_nat n) = Some n"
proof (induction n rule: show_nat.induct)
  case (1 n)
  show ?case
  proof (cases "n < 10")
    case True
    then show ?thesis by (subst show_nat.simps) simp
  next
    case False
    with "1.IH" have "parse_digits 0 (show_nat (n div 10)) = Some (n div 10)" by simp
    with False show ?thesis
      by (subst show_nat.simps) (simp add: parse_digits_append)
  qed
qed

lemma parse_zeros: "parse_digits 0 (replicate k CHR ''0'' @ s) = parse_digits 0 s"
  by (induction k) (simp_all add: digit_value_def)

lemma show_nat_head: "hd (show_nat n) \<noteq> CHR ''-''"
proof (induction n rule: show_nat.induct)
  case (1 n)
  show ?case
  proof (cases "n < 10")
    case True
    then show ?thesis by (subst show_nat.simps) (simp add: digit_char_cases)
  next
    case False
    with "1.IH" show ?thesis by (subst show_nat.simps) simp
  qed
qed

lemma ref_long_law: "long_law ref_ext"
proof -
  have "parse_long (pad_left CHR ''0'' w (show_nat n)) = Inr (int n)" for w n
  proof -
    let ?s = "pad_left CHR ''0'' w (show_nat n)"
    have "?s \<noteq> []" and "hd ?s \<noteq> CHR ''-''"
      using show_nat_head [of n] by (cases "w - length (show_nat n)"; simp add: pad_left_def)+
    moreover have "parse_digits 0 ?s = Some n"
      by (simp add: pad_left_def parse_zeros parse_show_nat)
    ultimately show ?thesis by (cases ?s) (simp_all add: parse_long_def)
  qed
  then show ?thesis by (simp add: long_law_def ref_ext_def)
qed

lemma ref_trim_law: "trim_law ref_ext"
proof -
  have "dropWhile (\<lambda>c. c = CHR '' '') (replicate n CHR ''0'' @ dropWhile (\<lambda>c. c = CHR '' '') s)
      = replicate n CHR ''0'' @ dropWhile (\<lambda>c. c = CHR '' '') s" for n s
    by (cases n) (simp_all add: dropWhile_idem)
  then show ?thesis by (simp add: trim_law_def ref_ext_def)
qed

lemma ref_date_text_law: "date_text_law ref_ext"
proof -
  have "show_int 20240101 = ''20240101''" 
    by (simp add: show_int_def show_nat.simps digit_char_def)
  then show ?thesis by (simp add: date_text_law_def ref_ext_def ref_date_def)
qed

lemma ref_tokenize_keep_law: "tokenize_keep_law ref_ext"
  by (simp add: tokenize_keep_law_def ref_ext_def)

lemma ref_tokenize_law: "tokenize_law ref_ext"
  by (simp add: tokenize_law_def ref_ext_def)

text \<open>A request given by the values of its keywords.\<close>

definition sample_request :: "(string \<times> string list) list \<Rightarrow> mars_request" where
  "sample_request kvs = \<lparr>rq_params = map fst kvs, rq_has = (\<lambda>k. k \<in> set (map fst kvs)),
     rq_values = (\<lambda>k. case map_of kvs k of None \<Rightarrow> Inl (UserError k) | Some vs \<Rightarrow> Inr vs),
     rq_values_ok = (\<lambda>k. case map_of kvs k of None \<Rightarrow> [] | Some vs \<Rightarrow> vs),
     rq_dates = (\<lambda>k. Inr []), rq_longs = (\<lambda>k. Inr []), rq_dbls = (\<lambda>k. Inr [])\<rparr>"

lemma sample_request_ok: "request_ok (sample_request kvs)"
proof -
  have "map_of kvs k = None \<longleftrightarrow> k \<notin> set (map fst kvs)" for k by (simp add: map_of_eq_None_iff)
  then show ?thesis by (force simp: request_ok_def sample_request_def split: option.splits dest: map_of_SomeD)
qed

end
