(* ===== verification/FDB_Types.thy ===== *)
theory FDB_Types
  imports FDB_External
begin

text \<open>
  The value types of the metadata keywords (\<open>src/fdb5/types\<close>): the subclasses of \<open>Type\<close> as
  one datatype, their virtual methods \<open>tidy\<close>, \<open>toKey\<close>, \<open>match\<close> and \<open>getValues\<close> by cases on
  it, the factory, and the registry of types with its parent chain and its cache. The locale
  \<open>tidy_method\<close> states what the users of \<open>tidy\<close> rely on: tidying twice is tidying once.
\<close>

section \<open>The types and the factory\<close>

datatype ftype =
    TDefault
  | TAbbreviation nat
  | TClimateDaily
  | TClimateMonthly
  | TDate
  | TDouble
  | TExpver
  | TGrid
  | TIgnore
  | TInteger
  | TMonth
  | TParam
  | TStep
  | TTime

text \<open>
  \<open>TypeAbbreviation\<close> takes its length from the last character of the name it is registered
  under; \<open>First3\<close> is the only one.
\<close>

definition abbreviation_count :: "string \<Rightarrow> nat" where
  "abbreviation_count type = of_char (last type) - of_char CHR ''0''"

definition build_type :: "string \<Rightarrow> ftype res" where
  "build_type name =
     (if name = ''Default'' then Inr TDefault
      else if name = ''First3'' then Inr (TAbbreviation (abbreviation_count name))
      else if name = ''ClimateDaily'' then Inr TClimateDaily
      else if name = ''ClimateMonthly'' then Inr TClimateMonthly
      else if name = ''Date'' then Inr TDate
      else if name = ''Double'' then Inr TDouble
      else if name = ''Expver'' then Inr TExpver
      else if name = ''Grid'' then Inr TGrid
      else if name = ''Ignore'' then Inr TIgnore
      else if name = ''Integer'' then Inr TInteger
      else if name = ''Month'' then Inr TMonth
      else if name = ''Param'' then Inr TParam
      else if name = ''Step'' then Inr TStep
      else if name = ''Time'' then Inr TTime
      else Inl (SeriousBug ''No TypesFactory called''))"

text \<open>\<open>type()\<close>: the name the type was built under.\<close>

fun type_name :: "ftype \<Rightarrow> string" where
  "type_name TDefault = ''Default''"
| "type_name (TAbbreviation n) = ''First3''"
| "type_name TClimateDaily = ''ClimateDaily''"
| "type_name TClimateMonthly = ''ClimateMonthly''"
| "type_name TDate = ''Date''"
| "type_name TDouble = ''Double''"
| "type_name TExpver = ''Expver''"
| "type_name TGrid = ''Grid''"
| "type_name TIgnore = ''Ignore''"
| "type_name TInteger = ''Integer''"
| "type_name TMonth = ''Month''"
| "type_name TParam = ''Param''"
| "type_name TStep = ''Step''"
| "type_name TTime = ''Time''"

lemma type_name_build: "build_type name = Inr t \<Longrightarrow> type_name t = name"
  by (auto simp: build_type_def split: if_splits)

section \<open>\<open>tidy\<close>\<close>

definition tidy_date :: "ext \<Rightarrow> string \<Rightarrow> string res" where
  "tidy_date e value =
     (if value \<noteq> [] \<and> (hd value = CHR ''0'' \<or> hd value = CHR ''-'') then
        bindE (x_long e value) (\<lambda>n.
          if n \<le> 0 then Inr (x_show_long e (date_yyyymmdd (x_date_offset e n))) else Inr value)
      else Inr value)"

definition tidy_expver :: "ext \<Rightarrow> string \<Rightarrow> string res" where
  "tidy_expver e value = Inr (pad_left CHR ''0'' 4 (x_trim e value))"

definition tidy_time :: "ext \<Rightarrow> string \<Rightarrow> string res" where
  "tidy_time e value =
     bindE (x_long e value) (\<lambda>n.
       Inr (pad_left CHR ''0'' 4 (show_int (if n < 100 then n * 100 else n))))"

fun tidy :: "ext \<Rightarrow> ftype \<Rightarrow> string \<Rightarrow> string \<Rightarrow> string res" where
  "tidy e TDate k value = tidy_date e value"
| "tidy e TExpver k value = tidy_expver e value"
| "tidy e TTime k value = tidy_time e value"
| "tidy e _ k value = Inr value"

section \<open>\<open>toKey\<close>\<close>

definition months :: "string list" where
  "months = [''jan'', ''feb'', ''mar'', ''apr'', ''may'', ''jun'',
             ''jul'', ''aug'', ''sep'', ''oct'', ''nov'', ''dec'']"

text \<open>The loop over the month names: the position of the first one that equals \<open>s\<close>.\<close>

fun month_position :: "string list \<Rightarrow> string \<Rightarrow> int \<Rightarrow> int option" where
  "month_position [] s i = None"
| "month_position (m # ms) s i = (if s = m then Some i else month_position ms s (i + 1))"

definition isdigit :: "char \<Rightarrow> bool" where
  "isdigit c \<longleftrightarrow> digit_value c \<noteq> None"

definition starts_with_digit :: "string \<Rightarrow> bool" where
  "starts_with_digit s = (case s of [] \<Rightarrow> False | c # _ \<Rightarrow> isdigit c)"

definition climate_daily_month :: "ext \<Rightarrow> string \<Rightarrow> int res" where
  "climate_daily_month e value =
     (if starts_with_digit value then
        bindE (x_date e value) (\<lambda>d. Inr (date_month d * 100 + date_day d))
      else
        (let v = x_tokenize e CHR ''-'' False value in
         case v of
           [m, d] \<Rightarrow>
             (case month_position months m 0 of
                Some i \<Rightarrow> bindE (x_long e d) (\<lambda>n. Inr ((i + 1) * 100 + n))
              | None \<Rightarrow> Inl (SeriousBug ''TypeClimateDaily: invalid date''))
         | _ \<Rightarrow> Inl (AssertFailed ''v.size() == 2'')))"

definition climate_monthly_month :: "ext \<Rightarrow> string \<Rightarrow> int res" where
  "climate_monthly_month e value =
     (if starts_with_digit value then bindE (x_date e value) (\<lambda>d. Inr (date_month d))
      else (case month_position months value 0 of
              Some i \<Rightarrow> Inr (i + 1)
            | None \<Rightarrow> Inl (SeriousBug ''TypeClimateMonthly: invalid date'')))"

definition to_key_double :: "ext \<Rightarrow> string \<Rightarrow> string res" where
  "to_key_double e value =
     bindE (x_double e value) (\<lambda>v.
       if dbl_whole v then Inr (x_show_long e (dbl_trunc v)) else Inr (dbl_text v))"

definition to_key_time :: "ext \<Rightarrow> string \<Rightarrow> string res" where
  "to_key_time e value =
     (let t = (if length value < 2 then CHR ''0'' # value else value)
      in bindE (x_time e t) (\<lambda>time.
           Inr (pad_left CHR ''0'' 2 (show_int (clock_hours time)) @
                pad_left CHR ''0'' 2 (show_int (clock_minutes time)))))"

definition to_key_grid :: "string \<Rightarrow> string" where
  "to_key_grid value = map (\<lambda>c. if c = CHR ''/'' then CHR ''+'' else c) value"

definition to_key_month :: "ext \<Rightarrow> string \<Rightarrow> string res" where
  "to_key_month e value =
     bindE (x_date e value) (\<lambda>d. Inr (show_int (date_year d * 100 + date_month d)))"

definition to_key_abbreviation :: "nat \<Rightarrow> string \<Rightarrow> string" where
  "to_key_abbreviation count value = take count value"

definition to_key_climate_daily :: "ext \<Rightarrow> string \<Rightarrow> string res" where
  "to_key_climate_daily e value =
     bindE (climate_daily_month e value) (\<lambda>m. Inr (pad_left CHR ''0'' 4 (show_int m)))"

definition to_key_climate_monthly :: "ext \<Rightarrow> string \<Rightarrow> string res" where
  "to_key_climate_monthly e value = bindE (climate_monthly_month e value) (\<lambda>m. Inr (show_int m))"

definition to_key_ignore :: "string \<Rightarrow> string" where
  "to_key_ignore value = []"

definition to_key_step :: "ext \<Rightarrow> string \<Rightarrow> string res" where
  "to_key_step e value = x_step e value"

fun toKey :: "ext \<Rightarrow> ftype \<Rightarrow> string \<Rightarrow> string \<Rightarrow> string res" where
  "toKey e (TAbbreviation n) k value = Inr (to_key_abbreviation n value)"
| "toKey e TClimateDaily k value = to_key_climate_daily e value"
| "toKey e TClimateMonthly k value = to_key_climate_monthly e value"
| "toKey e TDouble k value = to_key_double e value"
| "toKey e TGrid k value = Inr (to_key_grid value)"
| "toKey e TIgnore k value = Inr (to_key_ignore value)"
| "toKey e TMonth k value = to_key_month e value"
| "toKey e TStep k value = to_key_step e value"
| "toKey e TTime k value = to_key_time e value"
| "toKey e _ k value = Inr value"

section \<open>\<open>match\<close>\<close>

definition match_param :: "ext \<Rightarrow> string \<Rightarrow> string \<Rightarrow> bool res" where
  "match_param e v1 v2 =
     (if v1 = v2 then Inr True
      else bindE (x_param e v1) (\<lambda>p1. bindE (x_param e v2) (\<lambda>p2.
        if param_value p1 = param_value p2 \<and> (param_table p1 = 0 \<or> param_table p2 = 0) then Inr True
        else if param_table p1 * 1000 + param_value p1 = param_value p2 then Inr True
        else if param_table p2 * 1000 + param_value p2 = param_value p1 then Inr True
        else Inr False)))"

definition match_step :: "string \<Rightarrow> string \<Rightarrow> bool" where
  "match_step v1 v2 =
     (if v1 = v2 then True
      else if ''0-'' @ v1 = v2 then True
      else if ''0-'' @ v2 = v1 then True
      else False)"

definition match_climate_daily :: "ext \<Rightarrow> string \<Rightarrow> string \<Rightarrow> bool res" where
  "match_climate_daily e v1 v2 =
     bindE (climate_daily_month e v1) (\<lambda>m1. bindE (climate_daily_month e v2) (\<lambda>m2. Inr (m1 = m2)))"

fun type_match :: "ext \<Rightarrow> ftype \<Rightarrow> string \<Rightarrow> string \<Rightarrow> string \<Rightarrow> bool res" where
  "type_match e TClimateDaily k v1 v2 = match_climate_daily e v1 v2"
| "type_match e TParam k v1 v2 = match_param e v1 v2"
| "type_match e TStep k v1 v2 = Inr (match_step v1 v2)"
| "type_match e _ k v1 v2 = Inr (v1 = v2)"

section \<open>\<open>getValues\<close>\<close>

text \<open>\<open>std::sort\<close> with a given order.\<close>

fun insert_by :: "('a \<Rightarrow> 'a \<Rightarrow> bool) \<Rightarrow> 'a \<Rightarrow> 'a list \<Rightarrow> 'a list" where
  "insert_by lt x [] = [x]"
| "insert_by lt x (y # ys) = (if lt y x then y # insert_by lt x ys else x # y # ys)"

definition sort_by :: "('a \<Rightarrow> 'a \<Rightarrow> bool) \<Rightarrow> 'a list \<Rightarrow> 'a list" where
  "sort_by lt xs = foldr (insert_by lt) xs []"

text \<open>
  Parameters are compared by the operators of the library: \<open>x_param_less\<close> sorts them, and membership in the set of
  the axis is equality of value and table.
  The database, where there is one, is its \<open>axis\<close> method: the sorted set of the values of a
  keyword. The second component of the result tells whether \<open>notifyWind\<close> was called.
\<close>

definition get_values_step ::
    "ext \<Rightarrow> mars_request \<Rightarrow> string \<Rightarrow> (string \<Rightarrow> string list) option \<Rightarrow> string list res" where
  "get_values_step e rq k db =
     bindE (mapE (x_step e) (rq_values_ok rq k)) (\<lambda>ranges.
       case db of
         None \<Rightarrow> Inr ranges
       | Some ax \<Rightarrow>
           bindE (mapE (x_step e) (filter (\<lambda>s. s \<noteq> []) (ax ''step''))) (\<lambda>axis.
             x_step_normalise e ranges (sort_by (x_step_less e) axis)))"

definition get_values_param ::
    "ext \<Rightarrow> mars_request \<Rightarrow> string \<Rightarrow> (string \<Rightarrow> string list) option \<Rightarrow> (string list \<times> bool) res" where
  "get_values_param e rq k db =
     (case db of
        None \<Rightarrow> Inl (AssertFailed ''db'')
      | Some ax \<Rightarrow>
          bindE (mapE (x_param e) (rq_values_ok rq k)) (\<lambda>us.
          bindE (mapE (x_param e) (ax k)) (\<lambda>axis0.
          bindE (x_param_normalise e rq us (sort_by (x_param_less e) axis0)) (\<lambda>(user, axis, wind).
            Inr (map param_text (filter (\<lambda>u. u \<in> set axis) user), wind)))))"

definition month_name :: "int \<Rightarrow> string res" where
  "month_name i =
     (if 1 \<le> i \<and> i \<le> 12 then Inr (months ! nat (i - 1))
      else Inl (LibraryError ''months: index out of range''))"

definition get_values_plain :: "mars_request \<Rightarrow> string \<Rightarrow> string list" where
  "get_values_plain rq k = rq_values_ok rq k"

definition get_values_abbreviation :: "nat \<Rightarrow> mars_request \<Rightarrow> string \<Rightarrow> string list" where
  "get_values_abbreviation count rq k = map (take count) (rq_values_ok rq k)"

definition get_values_climate_daily :: "mars_request \<Rightarrow> string \<Rightarrow> string list res" where
  "get_values_climate_daily rq k = bindE (rq_dates rq k) (\<lambda>ds. Inr (map date_text ds))"

definition get_values_climate_monthly :: "ext \<Rightarrow> mars_request \<Rightarrow> string \<Rightarrow> string list res" where
  "get_values_climate_monthly e rq k =
     mapE (\<lambda>v. bindE (climate_monthly_month e v) month_name) (rq_values_ok rq k)"

definition get_values_date :: "ext \<Rightarrow> mars_request \<Rightarrow> string \<Rightarrow> string list res" where
  "get_values_date e rq k =
     bindE (rq_dates rq k) (\<lambda>ds. Inr (map (\<lambda>d. x_show_long e (date_yyyymmdd d)) ds))"

definition get_values_double :: "mars_request \<Rightarrow> string \<Rightarrow> string list res" where
  "get_values_double rq k = bindE (rq_dbls rq k) (\<lambda>ds. Inr (map dbl_text ds))"

definition get_values_grid :: "ext \<Rightarrow> mars_request \<Rightarrow> string \<Rightarrow> string list" where
  "get_values_grid e rq k = [x_join e ''+'' (rq_values_ok rq k)]"

definition get_values_ignore :: "mars_request \<Rightarrow> string \<Rightarrow> string list" where
  "get_values_ignore rq k = []"

definition get_values_integer :: "ext \<Rightarrow> mars_request \<Rightarrow> string \<Rightarrow> string list res" where
  "get_values_integer e rq k = bindE (rq_longs rq k) (\<lambda>ns. Inr (map (x_show_long e) ns))"

definition get_values_month :: "mars_request \<Rightarrow> string \<Rightarrow> string list res" where
  "get_values_month rq k = bindE (rq_dates rq k) (\<lambda>ds. Inr (map date_text ds))"

text \<open>Only \<open>TypeParam\<close> may call \<open>notifyWind\<close>.\<close>

definition no_wind :: "string list res \<Rightarrow> (string list \<times> bool) res" where
  "no_wind r = bindE r (\<lambda>vs. Inr (vs, False))"

fun getValues ::
    "ext \<Rightarrow> ftype \<Rightarrow> mars_request \<Rightarrow> string \<Rightarrow> (string \<Rightarrow> string list) option \<Rightarrow> (string list \<times> bool) res"
where
  "getValues e (TAbbreviation n) rq k db = no_wind (Inr (get_values_abbreviation n rq k))"
| "getValues e TClimateDaily rq k db = no_wind (get_values_climate_daily rq k)"
| "getValues e TClimateMonthly rq k db = no_wind (get_values_climate_monthly e rq k)"
| "getValues e TDate rq k db = no_wind (get_values_date e rq k)"
| "getValues e TDouble rq k db = no_wind (get_values_double rq k)"
| "getValues e TGrid rq k db = no_wind (Inr (get_values_grid e rq k))"
| "getValues e TIgnore rq k db = no_wind (Inr (get_values_ignore rq k))"
| "getValues e TInteger rq k db = no_wind (get_values_integer e rq k)"
| "getValues e TMonth rq k db = no_wind (get_values_month rq k)"
| "getValues e TParam rq k db = get_values_param e rq k db"
| "getValues e TStep rq k db = no_wind (get_values_step e rq k db)"
| "getValues e _ rq k db = no_wind (Inr (get_values_plain rq k))"

section \<open>The registry of types\<close>

text \<open>
  A registry maps keywords to names of types and has a parent, asked for the keywords it does
  not know; a keyword no registry of the chain knows has the default type.
\<close>

datatype registry = Registry (reg_types: "(string, string) dict") (reg_parent: "registry option")

definition new_registry :: registry where
  "new_registry = Registry [] None"

fun updateParent :: "registry \<Rightarrow> registry option \<Rightarrow> registry" where
  "updateParent (Registry ts p) parent = Registry ts parent"

fun addType :: "registry \<Rightarrow> string \<Rightarrow> string \<Rightarrow> registry res" where
  "addType (Registry ts p) keyword type =
     (if map_of ts keyword = None then Inr (Registry (dict_put keyword type ts) p)
      else Inl (AssertFailed ''types_.find(keyword) == types_.end()''))"

fun lookupType :: "registry \<Rightarrow> string \<Rightarrow> ftype res" where
  "lookupType (Registry ts None) k =
     build_type (case map_of ts k of Some t \<Rightarrow> t | None \<Rightarrow> ''Default'')"
| "lookupType (Registry ts (Some p)) k =
     (case map_of ts k of Some t \<Rightarrow> build_type t | None \<Rightarrow> lookupType p k)"

text \<open>\<open>dump(out, keyword)\<close>: the keyword, with its type where this registry itself has one.\<close>

definition dump_keyword :: "(string, string) dict \<Rightarrow> string \<Rightarrow> string" where
  "dump_keyword ts k = k @ (case map_of ts k of None \<Rightarrow> [] | Some t \<Rightarrow> '':'' @ t)"

definition dump_types :: "(string, string) dict \<Rightarrow> string" where
  "dump_types ts = concat (map (\<lambda>(k, t). k @ '':'' @ t @ '';\<newline>'') ts)"

text \<open>
  The registry as the code runs it, with the cache \<open>cache_\<close> of the types already built, which
  \<open>lookupType\<close> fills. An exception leaves the cache as it was.
\<close>

datatype cached_registry =
  Cached (cr_types: "(string, string) dict") (cr_cache: "(string, ftype) dict")
    (cr_parent: "cached_registry option")

fun lookup_cached :: "cached_registry \<Rightarrow> string \<Rightarrow> ftype res \<times> cached_registry" where
  "lookup_cached (Cached ts c None) k =
     (case map_of c k of
        Some t \<Rightarrow> (Inr t, Cached ts c None)
      | None \<Rightarrow>
          (case build_type (case map_of ts k of Some t \<Rightarrow> t | None \<Rightarrow> ''Default'') of
             Inl e \<Rightarrow> (Inl e, Cached ts c None)
           | Inr t \<Rightarrow> (Inr t, Cached ts (dict_put k t c) None)))"
| "lookup_cached (Cached ts c (Some p)) k =
     (case map_of c k of
        Some t \<Rightarrow> (Inr t, Cached ts c (Some p))
      | None \<Rightarrow>
          (case map_of ts k of
             Some name \<Rightarrow>
               (case build_type name of
                  Inl e \<Rightarrow> (Inl e, Cached ts c (Some p))
                | Inr t \<Rightarrow> (Inr t, Cached ts (dict_put k t c) (Some p)))
           | None \<Rightarrow> (case lookup_cached p k of (r, p') \<Rightarrow> (r, Cached ts c (Some p')))))"

fun strip_cache :: "cached_registry \<Rightarrow> registry" where
  "strip_cache (Cached ts c None) = Registry ts None"
| "strip_cache (Cached ts c (Some p)) = Registry ts (Some (strip_cache p))"

text \<open>Every cached type is the one the chain gives.\<close>

fun cache_coherent :: "cached_registry \<Rightarrow> bool" where
  "cache_coherent (Cached ts c None) \<longleftrightarrow>
     (\<forall>(k, t) \<in> set c. lookupType (Registry ts None) k = Inr t)"
| "cache_coherent (Cached ts c (Some p)) \<longleftrightarrow>
     (\<forall>(k, t) \<in> set c. lookupType (Registry ts (Some (strip_cache p))) k = Inr t) \<and>
     cache_coherent p"

section \<open>Facts about values\<close>

text \<open>What the callers of \<open>tidy\<close> rely on, and what follows from it for them.\<close>

locale tidy_method =
  fixes laws :: "ext \<Rightarrow> bool"
    and domain :: "ext \<Rightarrow> string \<Rightarrow> bool"
    and tidy_fn :: "ext \<Rightarrow> string \<Rightarrow> string res"
  assumes tidy_again: "laws e \<Longrightarrow> domain e v \<Longrightarrow> tidy_fn e v = Inr w \<Longrightarrow> tidy_fn e w = Inr w"
    and tidy_domain: "laws e \<Longrightarrow> domain e v \<Longrightarrow> tidy_fn e v = Inr w \<Longrightarrow> domain e w"
begin

lemma tidy_canonical_iff:
  assumes "laws e" and "domain e v"
  shows "tidy_fn e v = Inr w \<Longrightarrow> (w = v \<longleftrightarrow> tidy_fn e v = Inr v)"
  by auto

lemma tidy_mapE_canonical:
  assumes "laws e" and "\<forall>v \<in> set vs. domain e v" and "mapE (tidy_fn e) vs = Inr ws"
  shows "mapE (tidy_fn e) ws = Inr ws"
  using assms(2,3)
proof (induction vs arbitrary: ws)
  case (Cons v vs)
  then show ?case using tidy_again [OF assms(1)] by (auto simp: bindE_eq_Inr)
qed simp

end

lemma tidy_expver_again:
  assumes "trim_law e" and "tidy_expver e v = Inr w"
  shows "tidy_expver e w = Inr w"
proof -
  have w: "w = pad_left CHR ''0'' 4 (x_trim e v)"
    using assms(2) by (simp add: tidy_expver_def)
  have "x_trim e w = w"
    using assms(1) by (simp add: w trim_law_def pad_left_def)
  then show ?thesis by (simp add: tidy_expver_def) (simp add: w)
qed

definition time_domain :: "ext \<Rightarrow> string \<Rightarrow> bool" where
  "time_domain e v \<longleftrightarrow> (\<forall>n. x_long e v = Inr n \<longrightarrow> 0 \<le> n)"

lemma long_padded:
  "long_law e \<Longrightarrow> 0 \<le> n \<Longrightarrow> x_long e (pad_left CHR ''0'' w (show_int n)) = Inr n"
  by (simp add: long_law_def show_int_def)

lemma tidy_time_value:
  assumes "time_domain e v" and "tidy_time e v = Inr w"
  obtains m where "w = pad_left CHR ''0'' 4 (show_int m)" and "0 \<le> m" and "m = 0 \<or> 100 \<le> m"
proof -
  from assms(2) obtain n where n: "x_long e v = Inr n"
    and w: "w = pad_left CHR ''0'' 4 (show_int (if n < 100 then n * 100 else n))"
    by (auto simp: tidy_time_def bindE_eq_Inr)
  from n assms(1) have "0 \<le> n" by (simp add: time_domain_def)
  then show thesis
    by (intro that [of "if n < 100 then n * 100 else n"]) (auto simp: w)
qed

lemma tidy_time_again:
  assumes "long_law e" and "time_domain e v" and "tidy_time e v = Inr w"
  shows "tidy_time e w = Inr w"
proof -
  obtain m where w: "w = pad_left CHR ''0'' 4 (show_int m)" and m: "0 \<le> m" "m = 0 \<or> 100 \<le> m"
    by (rule tidy_time_value [OF assms(2,3)])
  have "x_long e w = Inr m"
    using long_padded [OF assms(1) m(1)] by (simp add: w)
  with m show ?thesis by (auto simp: tidy_time_def) (simp_all add: w)
qed

lemma tidy_time_domain:
  assumes "long_law e" and "time_domain e v" and "tidy_time e v = Inr w"
  shows "time_domain e w"
proof -
  obtain m where "w = pad_left CHR ''0'' 4 (show_int m)" and "0 \<le> m"
    by (rule tidy_time_value [OF assms(2,3)])
  then show ?thesis using long_padded [OF assms(1)] by (simp add: time_domain_def)
qed

lemma tidy_date_again:
  assumes "date_text_law e" and "tidy_date e v = Inr w"
  shows "tidy_date e w = Inr w"
proof (cases "w = v")
  case False
  then obtain n where "w = x_show_long e (date_yyyymmdd (x_date_offset e n))"
    using assms(2) by (auto simp: tidy_date_def bindE_eq_Inr split: if_splits)
  then show ?thesis using assms(1) by (simp add: date_text_law_def Let_def tidy_date_def)
qed (use assms(2) in simp)

interpretation expver: tidy_method trim_law "\<lambda>_ _. True" tidy_expver
  by unfold_locales (auto intro: tidy_expver_again)

interpretation time: tidy_method long_law time_domain tidy_time
  by unfold_locales (auto intro: tidy_time_again tidy_time_domain)

interpretation date: tidy_method date_text_law "\<lambda>_ _. True" tidy_date
  by unfold_locales (auto intro: tidy_date_again)

definition tidy_laws :: "ext \<Rightarrow> bool" where
  "tidy_laws e \<longleftrightarrow> trim_law e \<and> long_law e \<and> date_text_law e"

definition type_domain :: "ftype \<Rightarrow> ext \<Rightarrow> string \<Rightarrow> bool" where
  "type_domain t e v \<longleftrightarrow> (t = TTime \<longrightarrow> time_domain e v)"

lemma tidy_plain:
  "t \<noteq> TDate \<Longrightarrow> t \<noteq> TExpver \<Longrightarrow> t \<noteq> TTime \<Longrightarrow> tidy e t k v = Inr v"
  by (cases t) simp_all

lemma tidy_stable:
  assumes laws: "tidy_laws e" and dom: "type_domain t e v" and v: "tidy e t k v = Inr w"
  shows "tidy e t k w = Inr w \<and> type_domain t e w"
proof -
  consider "t = TDate" | "t = TExpver" | "t = TTime" | "t \<noteq> TDate" "t \<noteq> TExpver" "t \<noteq> TTime"
    by blast
  then show ?thesis
  proof cases
    case 1
    with laws v date.tidy_again [of e v w] show ?thesis by (simp add: tidy_laws_def type_domain_def)
  next
    case 2
    with laws v expver.tidy_again [of e v w] show ?thesis by (simp add: tidy_laws_def type_domain_def)
  next
    case 3
    with laws v dom time.tidy_again [of e v w] time.tidy_domain [of e v w] show ?thesis
      by (simp add: tidy_laws_def type_domain_def)
  next
    case 4
    with v dom show ?thesis by (simp add: tidy_plain)
  qed
qed

interpretation any_type: tidy_method tidy_laws "type_domain t" "\<lambda>e. tidy e t k" for t k
  by unfold_locales
    (erule (2) tidy_stable [THEN conjunct1], erule (2) tidy_stable [THEN conjunct2])

section \<open>Facts about the registry\<close>

lemma lookupType_own:
  "map_of ts k = Some name \<Longrightarrow> lookupType (Registry ts p) k = build_type name"
  by (cases p) simp_all

lemma lookupType_other:
  "map_of ts k = None \<Longrightarrow>
   lookupType (Registry ts p) k = (case p of None \<Rightarrow> Inr TDefault | Some q \<Rightarrow> lookupType q k)"
  by (cases p) (simp_all add: build_type_def)

lemma lookup_addType:
  "addType (Registry ts p) k name = Inr r \<Longrightarrow>
   lookupType r k' = (if k' = k then build_type name else lookupType (Registry ts p) k')"
  by (cases p) (auto split: if_splits option.splits)

lemma strip_lookup_cached: "strip_cache (snd (lookup_cached r k)) = strip_cache r"
  by (induction r k rule: lookup_cached.induct) (auto split: option.splits sum.splits prod.splits)

lemma cached_hit:
  "cache_coherent r \<Longrightarrow> map_of (cr_cache r) k = Some t \<Longrightarrow> lookupType (strip_cache r) k = Inr t"
  by (cases r rule: strip_cache.cases) (auto dest!: map_of_SomeD)


section \<open>Properties\<close>

text \<open>
  Tidying is idempotent: on a type's domain, the value that \<open>tidy\<close> returns is one that
  \<open>tidy\<close> leaves unchanged. \<open>Rule::check\<close> rests on it: a key whose values have been tidied passes.
\<close>
lemma tidy_idempotent:
  assumes "tidy_laws e" and "type_domain t e v" and "tidy e t k v = Inr w"
  shows "tidy e t k w = Inr w"
  using assms by (rule any_type.tidy_again)

lemma ref_tidy_laws: "tidy_laws ref_ext"
  by (simp add: tidy_laws_def ref_trim_law ref_long_law ref_date_text_law)

lemma tidy_idempotent_witness: "tidy ref_ext TExpver ''expver'' ''0001'' = Inr ''0001''"
proof -
  have "tidy ref_ext TExpver ''expver'' '' 1'' = Inr ''0001''"
    by (simp add: tidy_expver_def ref_ext_def pad_left_def numeral_eq_Suc)
  then show ?thesis
    by (rule tidy_idempotent [OF ref_tidy_laws, rotated]) (simp add: type_domain_def)
qed

text \<open>
  C38: The cache of the registry is transparent: whatever has been looked up before,
  \<open>lookupType\<close> with its cache returns what the chain of registries gives, leaves the types as
  they are, and keeps the cache coherent, also when the name of a type is unknown.
\<close>
theorem lookup_cached_transparent:
  assumes "cache_coherent r"
  shows "fst (lookup_cached r k) = lookupType (strip_cache r) k \<and>
    strip_cache (snd (lookup_cached r k)) = strip_cache r \<and> cache_coherent (snd (lookup_cached r k))"
  using assms
proof (induction r k rule: lookup_cached.induct)
  case (1 ts c k)
  show ?case
  proof (cases "map_of c k")
    case (Some t)
    then show ?thesis using cached_hit [OF "1.prems", of k t] "1.prems" by simp
  next
    case None
    have "\<And>k' t'. (k', t') \<in> set (dict_put k t c) \<Longrightarrow> (k', t') \<in> set c \<or> k' = k \<and> t' = t" for t
      by (induction k t c rule: dict_put.induct) (auto split: if_splits)
    then show ?thesis using None "1.prems" by (fastforce split: sum.splits)
  qed
next
  case (2 ts c p k)
  show ?case
  proof (cases "map_of c k")
    case (Some t)
    then show ?thesis using cached_hit [OF "2.prems", of k t] "2.prems" by simp
  next
    case None
    have put: "\<And>k' t'. (k', t') \<in> set (dict_put k t c) \<Longrightarrow> (k', t') \<in> set c \<or> k' = k \<and> t' = t" for t
      by (induction k t c rule: dict_put.induct) (auto split: if_splits)
    show ?thesis
    proof (cases "map_of ts k")
      case (Some name)
      then show ?thesis using None put "2.prems" by (fastforce split: sum.splits)
    next
      case own: None
      obtain res p' where p': "lookup_cached p k = (res, p')" by (cases "lookup_cached p k")
      with "2.IH" None own "2.prems" show ?thesis by auto
    qed
  qed
qed

lemma lookup_cached_transparent_witness:
  "fst (lookup_cached (Cached [(''step'', ''Step'')] [(''step'', TStep)] None) ''step'') = Inr TStep"
  using lookup_cached_transparent [of "Cached [(''step'', ''Step'')] [(''step'', TStep)] None" "''step''"]
  by (simp add: build_type_def)

end
