(* ===== verification/FDB_Key.thy ===== *)
theory FDB_Key
  imports FDB_Types
begin

text \<open>
  The metadata key (\<open>src/fdb5/database/Key.{h,cc}\<close>): a dictionary of values, the names in
  the order they were pushed, the registry that gives the types of the values, and the flag
  that marks values already in canonical form. The class invariant is \<open>key_ok\<close>: the names
  are the keys of the dictionary, each once. It is kept by every operation except \<open>unset\<close>.
\<close>

record key =
  key_dict :: "(string, string) dict"
  key_names :: "string list"
  key_registry :: "registry option"
  key_canonical :: bool

section \<open>Constructors\<close>

definition new_key :: "registry option \<Rightarrow> key" where
  "new_key reg = \<lparr>key_dict = [], key_names = [], key_registry = reg, key_canonical = False\<rparr>"

definition key_of_dict :: "(string, string) dict \<Rightarrow> registry option \<Rightarrow> key" where
  "key_of_dict keys reg =
     \<lparr>key_dict = keys, key_names = dict_keys keys, key_registry = reg, key_canonical = False\<rparr>"

text \<open>\<open>std::map\<close> from a list of pairs, and \<open>emplace\<close>: the first pair of a keyword stays.\<close>

definition dict_emplace :: "string \<Rightarrow> string \<Rightarrow> (string, string) dict \<Rightarrow> (string, string) dict" where
  "dict_emplace k v d = (if map_of d k = None then dict_put k v d else d)"

definition key_of_list :: "(string \<times> string) list \<Rightarrow> registry option \<Rightarrow> key" where
  "key_of_list kvs reg =
     (let d = fold (\<lambda>(k, v). dict_emplace k v) kvs []
      in \<lparr>key_dict = d, key_names = dict_keys d, key_registry = reg, key_canonical = (reg = None)\<rparr>)"

section \<open>Access and update\<close>

definition key_find :: "key \<Rightarrow> string \<Rightarrow> string option" where
  "key_find k s = map_of (key_dict k) s"

definition key_keys :: "key \<Rightarrow> string set" where
  "key_keys k = set (dict_keys (key_dict k))"

definition key_empty :: "key \<Rightarrow> bool" where
  "key_empty k \<longleftrightarrow> key_dict k = []"

definition key_size :: "key \<Rightarrow> nat" where
  "key_size k = length (key_dict k)"

text \<open>\<open>operator==\<close> and \<open>operator!=\<close> compare the dictionaries alone.\<close>

definition key_eq :: "key \<Rightarrow> key \<Rightarrow> bool" where
  "key_eq a b \<longleftrightarrow> key_dict a = key_dict b"

definition clear_key :: "key \<Rightarrow> key" where
  "clear_key k = k\<lparr>key_registry := None, key_dict := [], key_names := []\<rparr>"

definition set_key :: "string \<Rightarrow> string \<Rightarrow> key \<Rightarrow> key" where
  "set_key k v key =
     (case key_find key k of
        None \<Rightarrow> key\<lparr>key_names := key_names key @ [k], key_dict := dict_put k v (key_dict key)\<rparr>
      | Some _ \<Rightarrow> key\<lparr>key_dict := dict_put k v (key_dict key)\<rparr>)"

definition unset_key :: "string \<Rightarrow> key \<Rightarrow> key" where
  "unset_key k key = key\<lparr>key_dict := dict_erase k (key_dict key)\<rparr>"

definition push_key :: "string \<Rightarrow> string \<Rightarrow> key \<Rightarrow> key" where
  "push_key k v key = key\<lparr>key_dict := dict_put k v (key_dict key), key_names := key_names key @ [k]\<rparr>"

definition pop_key :: "string \<Rightarrow> key \<Rightarrow> key res" where
  "pop_key k key =
     (let key' = key\<lparr>key_dict := dict_erase k (key_dict key)\<rparr>
      in if key_names key' \<noteq> [] \<and> last (key_names key') = k
         then Inr (key'\<lparr>key_names := butlast (key_names key')\<rparr>)
         else Inl (AssertFailed ''names_.back() == k''))"

definition get_key :: "key \<Rightarrow> string \<Rightarrow> string res" where
  "get_key key k =
     (case key_find key k of Some v \<Rightarrow> Inr v | None \<Rightarrow> Inl (SeriousBug ''Key::get() failed''))"

definition key_value :: "key \<Rightarrow> string \<Rightarrow> string res" where
  "key_value key k =
     (case key_find key k of Some v \<Rightarrow> Inr v | None \<Rightarrow> Inl (AssertFailed ''it != keys_.end()''))"

definition set_registry :: "registry \<Rightarrow> key \<Rightarrow> key" where
  "set_registry reg key = key\<lparr>key_registry := Some reg\<rparr>"

definition get_registry :: "key \<Rightarrow> registry res" where
  "get_registry key =
     (case key_registry key of
        Some reg \<Rightarrow> Inr reg
      | None \<Rightarrow> Inl (SeriousBug ''TypesRegistry has not been set for Key''))"

section \<open>Canonical values\<close>

definition canonicalise :: "ext \<Rightarrow> key \<Rightarrow> string \<Rightarrow> string \<Rightarrow> string res" where
  "canonicalise e key keyword value =
     (if value = [] \<or> key_canonical key then Inr value
      else bindE (get_registry key) (\<lambda>reg.
             bindE (lookupType reg keyword) (\<lambda>t. toKey e t keyword value)))"

definition canonicalValue :: "ext \<Rightarrow> key \<Rightarrow> string \<Rightarrow> string res" where
  "canonicalValue e key keyword = bindE (key_value key keyword) (canonicalise e key keyword)"

definition valuesToString :: "ext \<Rightarrow> key \<Rightarrow> string res" where
  "valuesToString e key =
     bindE (assertE (length (key_names key) = length (key_dict key)) ''names_.size() == keys_.size()'') (\<lambda>_.
       bindE (mapE (canonicalValue e key) (key_names key)) (\<lambda>vs. Inr (join_with '':'' vs)))"

section \<open>Matching\<close>

definition match_key :: "key \<Rightarrow> key \<Rightarrow> bool" where
  "match_key key other =
     list_all (\<lambda>(k, v). case key_find key k of None \<Rightarrow> False | Some w \<Rightarrow> w = v \<or> v = []) (key_dict other)"

definition match_ignoring :: "key \<Rightarrow> key \<Rightarrow> string list \<Rightarrow> bool" where
  "match_ignoring key other ignore =
     list_all (\<lambda>(k, v). k \<in> set ignore \<or>
       (case key_find key k of None \<Rightarrow> False | Some w \<Rightarrow> w = v)) (key_dict other)"

text \<open>The loop stops, with the exception of \<open>values()\<close> if there is one, at the first failure.\<close>

fun match_params :: "key \<Rightarrow> mars_request \<Rightarrow> string list \<Rightarrow> bool res" where
  "match_params key rq [] = Inr True"
| "match_params key rq (k # ks) =
     (case key_find key k of
        None \<Rightarrow> Inr False
      | Some v \<Rightarrow> bindE (rq_values rq k) (\<lambda>vs. if v \<in> set vs then match_params key rq ks else Inr False))"

definition match_request :: "key \<Rightarrow> mars_request \<Rightarrow> bool res" where
  "match_request key rq = match_params key rq (rq_params rq)"

definition match_set :: "ext \<Rightarrow> key \<Rightarrow> string \<Rightarrow> string set \<Rightarrow> bool res" where
  "match_set e key k values =
     (case key_find key k of
        None \<Rightarrow> Inr False
      | Some v \<Rightarrow> bindE (canonicalise e key k v) (\<lambda>c. Inr (c \<in> values)))"

text \<open>The variant for an axis tries the value as it is first.\<close>

definition match_dense :: "ext \<Rightarrow> key \<Rightarrow> string \<Rightarrow> string set \<Rightarrow> bool res" where
  "match_dense e key k values =
     (case key_find key k of
        None \<Rightarrow> Inr False
      | Some v \<Rightarrow> if v \<in> values then Inr True
                  else bindE (canonicalise e key k v) (\<lambda>c. Inr (c \<in> values)))"

definition partialMatch :: "key \<Rightarrow> mars_request \<Rightarrow> bool" where
  "partialMatch key rq =
     list_all (\<lambda>(k, v). rq_values_ok rq k = [] \<or> v \<in> set (rq_values_ok rq k)) (key_dict key)"

definition validateKeysOf :: "ext \<Rightarrow> key \<Rightarrow> key \<Rightarrow> bool \<Rightarrow> unit res" where
  "validateKeysOf e key other checkAlsoValues =
     bindE (if key_canonical key then Inr None else bindE (get_registry key) (\<lambda>r. Inr (Some r))) (\<lambda>reg.
     bindE (mapE (\<lambda>(k, v).
              case key_find other k of
                None \<Rightarrow> Inr False
              | Some w \<Rightarrow>
                  (case reg of
                     Some r \<Rightarrow> if checkAlsoValues
                               then bindE (lookupType r k) (\<lambda>t. type_match e t k w v)
                               else Inr True
                   | None \<Rightarrow> Inr True)) (key_dict key)) (\<lambda>oks.
       if list_all (\<lambda>b. b) oks then Inr () else Inl (SeriousBug ''Keywords not used'')))"

section \<open>Text, dictionaries and streams\<close>

definition key_toString :: "key \<Rightarrow> string res" where
  "key_toString key =
     bindE (mapE (\<lambda>n. bindE (key_value key n) (\<lambda>v. Inr (n, v))) (key_names key)) (\<lambda>kvs.
       Inr (join_with '','' (map (\<lambda>(k, v). k @ ''='' @ v) (filter (\<lambda>(k, v). v \<noteq> []) kvs))))"

definition key_as_string :: "key \<Rightarrow> string res" where
  "key_as_string key =
     bindE (assertE (length (key_names key) = length (key_dict key)) ''names_.size() == keys_.size()'')
       (\<lambda>_. key_toString key)"

definition key_as_dict :: "ext \<Rightarrow> key \<Rightarrow> (string, string) dict res" where
  "key_as_dict e key =
     bindE (assertE (length (key_names key) = length (key_dict key)) ''names_.size() == keys_.size()'') (\<lambda>_.
     bindE (if key_canonical key then Inr None else bindE (get_registry key) (\<lambda>r. Inr (Some r))) (\<lambda>reg.
       foldE (\<lambda>n d.
         bindE (key_value key n) (\<lambda>v.
         bindE (assertE (v \<noteq> []) ''!(*i).second.empty()'') (\<lambda>_.
         bindE (case reg of
                  None \<Rightarrow> Inr v
                | Some r \<Rightarrow> bindE (lookupType r n) (\<lambda>t. tidy e t n v)) (\<lambda>w.
           Inr (dict_put n w d))))) (key_names key) []))"

definition key_request :: "key \<Rightarrow> (string \<times> string) list" where
  "key_request key = key_dict key"

definition encode_pair :: "string \<times> string \<Rightarrow> item list" where
  "encode_pair kv = [IStr (fst kv), IStr (snd kv)]"

definition read_pair :: "(string \<times> string) reader" where
  "read_pair is = bindE (read_str is) (\<lambda>(k, is'). bindE (read_str is') (\<lambda>(v, is''). Inr ((k, v), is'')))"

definition encode_key :: "ext \<Rightarrow> key \<Rightarrow> item list res" where
  "encode_key e key =
     bindE (if key_canonical key then Inr None else bindE (get_registry key) (\<lambda>r. Inr (Some r))) (\<lambda>reg.
     bindE (mapE (\<lambda>(k, v).
              bindE (case reg of None \<Rightarrow> Inr v | Some _ \<Rightarrow> canonicalise e key k v) (\<lambda>c. Inr (k, c)))
              (key_dict key)) (\<lambda>kvs.
     bindE (mapE (\<lambda>n.
              bindE (case reg of
                       None \<Rightarrow> Inr []
                     | Some r \<Rightarrow> bindE (lookupType r n) (\<lambda>t. Inr (type_name t))) (\<lambda>t. Inr (n, t)))
              (key_names key)) (\<lambda>nts.
       Inr (INum (length kvs) # concat (map encode_pair kvs) @
            INum (length nts) # concat (map encode_pair nts)))))"

definition decode_key :: "key reader" where
  "decode_key is =
     bindE (read_num is) (\<lambda>(n, is1).
     bindE (read_many read_pair n is1) (\<lambda>(kvs, is2).
     bindE (read_num is2) (\<lambda>(m, is3).
     bindE (read_many read_pair m is3) (\<lambda>(nts, is4).
       Inr (\<lparr>key_dict = fold (\<lambda>(k, v). dict_put k v) kvs [], key_names = map fst nts,
             key_registry = None, key_canonical = True\<rparr>, is4)))))"

section \<open>Parsing\<close>

text \<open>\<open>class=od,expver=1\<close>: split at the commas, then each part at the equals sign.\<close>

definition parse_binding :: "ext \<Rightarrow> string \<Rightarrow> (string \<times> string) res" where
  "parse_binding e part =
     (case x_tokenize e CHR ''='' False part of
        [k, v] \<Rightarrow> Inr (k, v)
      | _ \<Rightarrow> Inl (AssertFailed ''kv.size() == 2''))"

definition parseStringUntyped :: "ext \<Rightarrow> string \<Rightarrow> key res" where
  "parseStringUntyped e s =
     bindE (foldE (\<lambda>part d. bindE (parse_binding e part) (\<lambda>(k, v). Inr (dict_emplace k v d)))
              (x_tokenize e CHR '','' False s) []) (\<lambda>keys.
       Inr (key_of_dict keys None))"

definition parseString :: "ext \<Rightarrow> string \<Rightarrow> registry \<Rightarrow> key res" where
  "parseString e s registry =
     foldE (\<lambda>part ret.
         bindE (parse_binding e part) (\<lambda>(k, v0).
         bindE (lookupType registry k) (\<lambda>t.
         bindE (tidy e t k v0) (\<lambda>v.
           Inr (if key_find ret k = None then push_key k v ret else set_key k v ret)))))
       (x_tokenize e CHR '','' False s) (new_key (Some registry))"

section \<open>The invariant\<close>

definition key_ok :: "key \<Rightarrow> bool" where
  "key_ok k \<longleftrightarrow> dict_ok (key_dict k) \<and> distinct (key_names k) \<and>
     set (key_names k) = set (dict_keys (key_dict k))"

lemmas key_defs = key_find_def key_keys_def key_empty_def key_eq_def

lemma key_ok_new [simp]: "key_ok (new_key reg)"
  by (simp add: key_ok_def new_key_def)

lemma key_ok_of_dict: "dict_ok d \<Longrightarrow> key_ok (key_of_dict d reg)"
  by (simp add: key_ok_def key_of_dict_def dict_ok_distinct)

lemma dict_ok_emplace [simp]: "dict_ok d \<Longrightarrow> dict_ok (dict_emplace k v d)"
  by (simp add: dict_emplace_def)

lemma dict_ok_fold_emplace: "dict_ok d \<Longrightarrow> dict_ok (fold (\<lambda>(k, v). dict_emplace k v) kvs d)"
  by (induction kvs arbitrary: d) auto

lemma key_ok_of_list: "key_ok (key_of_list kvs reg)"
  by (simp add: key_ok_def key_of_list_def Let_def dict_ok_distinct dict_ok_fold_emplace)

lemma find_eq_None: "key_find k s = None \<longleftrightarrow> s \<notin> set (dict_keys (key_dict k))"
  by (simp add: key_find_def map_of_eq_None_iff)

lemma key_ok_names_find: "key_ok k \<Longrightarrow> s \<in> set (key_names k) \<longleftrightarrow> key_find k s \<noteq> None"
  by (simp add: find_eq_None key_ok_def)

lemma name_has_value: "key_ok k \<Longrightarrow> n \<in> set (key_names k) \<Longrightarrow> \<exists>v. key_find k n = Some v"
  by (simp add: key_ok_names_find)

lemma key_ok_set [simp]:
  assumes "key_ok key"
  shows "key_ok (set_key k v key)"
proof (cases "key_find key k")
  case None
  then have "k \<notin> set (dict_keys (key_dict key))" by (simp add: find_eq_None)
  with None assms show ?thesis by (auto simp: set_key_def key_ok_def)
next
  case (Some w)
  then have "k \<in> set (dict_keys (key_dict key))" by (metis find_eq_None option.discI)
  with Some assms show ?thesis by (simp add: set_key_def key_ok_def insert_absorb)
qed

lemma key_ok_push: "key_ok key \<Longrightarrow> key_find key k = None \<Longrightarrow> key_ok (push_key k v key)"
  by (auto simp: push_key_def key_ok_def find_eq_None)

lemma key_ok_size: "key_ok key \<Longrightarrow> length (key_names key) = length (key_dict key)"
  unfolding key_ok_def by (metis dict_ok_distinct distinct_card length_map)

lemma find_set [simp]: "key_find (set_key k v key) s = (if s = k then Some v else key_find key s)"
  by (auto simp: set_key_def key_find_def split: option.splits)

lemma find_push [simp]: "key_find (push_key k v key) s = (if s = k then Some v else key_find key s)"
  by (simp add: push_key_def key_find_def)

lemma names_push [simp]: "key_names (push_key k v key) = key_names key @ [k]"
  by (simp add: push_key_def)

lemma registry_push [simp]: "key_registry (push_key k v key) = key_registry key"
  by (simp add: push_key_def)

lemma canonical_push [simp]: "key_canonical (push_key k v key) = key_canonical key"
  by (simp add: push_key_def)

text \<open>A pushed keyword that was not there is popped without a trace.\<close>

lemma pop_push [simp]:
  "dict_ok (key_dict key) \<Longrightarrow> key_find key k = None \<Longrightarrow> pop_key k (push_key k v key) = Inr key"
  by (simp add: pop_key_def push_key_def Let_def key_find_def dict_erase_put_fresh)

lemma key_value_find: "key_value key k = Inr v \<longleftrightarrow> key_find key k = Some v"
  by (auto simp: key_value_def split: option.splits)

lemma get_key_find: "get_key key k = Inr v \<longleftrightarrow> key_find key k = Some v"
  by (auto simp: get_key_def split: option.splits)


section \<open>Streams and text\<close>

definition writable :: "ext \<Rightarrow> key \<Rightarrow> bool" where
  "writable e key \<longleftrightarrow> (\<exists>out. encode_key e key = Inr out)"

text \<open>A key in canonical form is written value by value; the types are not written.\<close>

definition plain_items :: "key \<Rightarrow> item list" where
  "plain_items key =
     INum (key_size key) # concat (map encode_pair (key_dict key)) @
     INum (length (key_names key)) # concat (map encode_pair (map (\<lambda>n. (n, [])) (key_names key)))"

interpretation pair_codec: codec encode_pair read_pair "\<lambda>_. True"
  by unfold_locales (simp add: encode_pair_def read_pair_def)

lemma encode_canonical:
  assumes "key_canonical key"
  shows "encode_key e key = Inr (plain_items key)"
proof -
  have "mapE (\<lambda>(k, v). bindE (Inr v) (\<lambda>c. Inr (k, c))) (key_dict key) = Inr (key_dict key)"
    using mapE_total [of "key_dict key" "\<lambda>(k, v). bindE (Inr v) (\<lambda>c. Inr (k, c))" id] by auto
  moreover have "mapE (\<lambda>n. Inr (n, [] :: string)) (key_names key) = Inr (map (\<lambda>n. (n, [])) (key_names key))"
    by (rule mapE_total) simp
  ultimately show ?thesis
    using assms by (simp add: encode_key_def plain_items_def key_size_def)
qed

lemma decode_items:
  assumes "dict_ok d" and "map fst nts = ns"
  shows "decode_key (INum (length d) # concat (map encode_pair d) @
           INum (length nts) # concat (map encode_pair nts) @ rest) =
         Inr (\<lparr>key_dict = d, key_names = ns, key_registry = None, key_canonical = True\<rparr>, rest)"
proof -
  have all: "list_all (\<lambda>_. True) xs" for xs :: "(string \<times> string) list"
    by (simp add: list_all_iff)
  show ?thesis
    unfolding decode_key_def
    by (simp add: pair_codec.read_many_enc [OF all] dict.rebuild [OF assms(1)] assms(2))
qed

definition stream_key :: "key \<Rightarrow> bool" where
  "stream_key key \<longleftrightarrow> key_canonical key \<and> key_registry key = None \<and> dict_ok (key_dict key)"

interpretation key_codec: codec plain_items decode_key stream_key
proof
  fix x :: key and rest
  assume "stream_key x"
  then show "decode_key (plain_items x @ rest) = Inr (x, rest)"
    using decode_items [of "key_dict x" "map (\<lambda>n. (n, [])) (key_names x)" "key_names x" rest]
    by (cases x) (simp add: stream_key_def plain_items_def key_size_def comp_def)
qed


lemma map_of_emplace:
  "map_of (dict_emplace k v d) x =
     (case map_of d x of Some y \<Rightarrow> Some y | None \<Rightarrow> if x = k then Some v else None)"
  by (auto simp: dict_emplace_def split: option.splits)

lemma lookup_fold_emplace:
  "map_of (fold (\<lambda>(k, v). dict_emplace k v) kvs d) k =
     (case map_of d k of Some v \<Rightarrow> Some v | None \<Rightarrow> map_of kvs k)"
proof (induction kvs arbitrary: d)
  case (Cons kv kvs)
  then show ?case
    by (cases kv) (auto simp: map_of_emplace split: option.splits)
qed (simp split: option.splits)

text \<open>\<open>{k1=v1,k2=v2}\<close> is split at the commas into the texts of the bindings.\<close>

definition plain_text :: "string \<Rightarrow> bool" where
  "plain_text s \<longleftrightarrow> s \<noteq> [] \<and> CHR '','' \<notin> set s \<and> CHR ''='' \<notin> set s"

definition binding_text :: "string \<times> string \<Rightarrow> string" where
  "binding_text kv = fst kv @ ''='' @ snd kv"

lemma parse_binding_text:
  assumes "tokenize_law e" and "plain_text k" and "plain_text v"
  shows "parse_binding e (binding_text (k, v)) = Inr (k, v)"
  using assms split_at_append [of "CHR ''=''" k v] split_at_plain [of "CHR ''=''" v]
  by (simp add: parse_binding_def tokenize_law_def binding_text_def plain_text_def)

lemma tokenize_bindings:
  assumes "tokenize_law e" and "\<forall>(k, v) \<in> set kvs. plain_text k \<and> plain_text v"
  shows "x_tokenize e CHR '','' False (join_with '','' (map binding_text kvs)) = map binding_text kvs"
proof (cases "kvs = []")
  case True
  with assms show ?thesis by (simp add: tokenize_law_def)
next
  case False
  have "\<forall>t \<in> set (map binding_text kvs). CHR '','' \<notin> set t \<and> t \<noteq> []"
    using assms(2) by (auto simp: binding_text_def plain_text_def)
  moreover from this False have "split_at CHR '','' (join_with '','' (map binding_text kvs)) = map binding_text kvs"
    by (intro split_at_join) auto
  ultimately show ?thesis
    using assms(1) by (simp add: tokenize_law_def filter_id_conv)
qed

lemma parse_bindings:
  assumes "tokenize_law e" and "\<forall>(k, v) \<in> set kvs. plain_text k \<and> plain_text v"
  shows "parseStringUntyped e (join_with '','' (map binding_text kvs)) =
     Inr (key_of_dict (fold (\<lambda>(k, v). dict_emplace k v) kvs []) None)"
proof -
  have "foldE (\<lambda>part d. bindE (parse_binding e part) (\<lambda>(k, v). Inr (dict_emplace k v d)))
      (map binding_text kvs) d = Inr (fold (\<lambda>(k, v). dict_emplace k v) kvs d)" for d
    using assms(2)
    by (induction kvs arbitrary: d) (auto simp: parse_binding_text [OF assms(1)])
  then show ?thesis
    by (simp add: parseStringUntyped_def tokenize_bindings [OF assms])
qed

text \<open>The values of a key in the order of its names.\<close>

lemma names_values:
  assumes "key_ok key"
  shows "mapE (\<lambda>n. bindE (key_value key n) (\<lambda>v. Inr (n, v))) (key_names key) =
     Inr (map (\<lambda>n. (n, the (key_find key n))) (key_names key))"
proof (rule mapE_total)
  fix n
  assume "n \<in> set (key_names key)"
  then obtain v where "key_find key n = Some v"
    using name_has_value [OF assms] by blast
  then show "bindE (key_value key n) (\<lambda>v. Inr (n, v)) = Inr (n, the (key_find key n))"
    by (simp add: key_value_def)
qed

lemma map_of_names:
  "map_of (map (\<lambda>n. (n, f n)) ns) k = (if k \<in> set ns then Some (f k) else None)"
  by (induction ns) auto

lemma key_toString_ok:
  assumes "key_ok key" and "\<forall>(k, v) \<in> set (key_dict key). v \<noteq> []"
  shows "key_toString key =
     Inr (join_with '','' (map binding_text (map (\<lambda>n. (n, the (key_find key n))) (key_names key))))"
proof -
  have "the (key_find key n) \<noteq> []" if n: "n \<in> set (key_names key)" for n
  proof -
    obtain v where v: "key_find key n = Some v"
      using name_has_value [OF assms(1) n] by blast
    then have "(n, v) \<in> set (key_dict key)" unfolding key_find_def by (rule map_of_SomeD)
    with assms(2) have "v \<noteq> []" by blast
    then show ?thesis by (simp add: v)
  qed
  then have "filter (\<lambda>(k, v). v \<noteq> []) (map (\<lambda>n. (n, the (key_find key n))) (key_names key)) =
      map (\<lambda>n. (n, the (key_find key n))) (key_names key)"
    by (simp add: filter_id_conv)
  then show ?thesis
    by (simp add: key_toString_def names_values [OF assms(1)] binding_text_def comp_def case_prod_beta)
qed

text \<open>The dictionary of a key, rebuilt from its names.\<close>

lemma dict_from_names:
  assumes "key_ok key"
  shows "fold (\<lambda>(k, v). dict_emplace k v) (map (\<lambda>n. (n, the (key_find key n))) (key_names key)) [] = key_dict key"
proof (rule dict.lookup_ext)
  show "map_of (fold (\<lambda>(k, v). dict_emplace k v) (map (\<lambda>n. (n, the (key_find key n))) (key_names key)) []) k =
      map_of (key_dict key) k" for k
  proof (cases "k \<in> set (key_names key)")
    case True
    then obtain v where "key_find key k = Some v"
      using name_has_value [OF assms] by blast
    with True show ?thesis by (simp add: lookup_fold_emplace map_of_names key_find_def)
  next
    case False
    then have "key_find key k = None" using key_ok_names_find [OF assms, of k] by simp
    with False show ?thesis by (simp add: lookup_fold_emplace map_of_names key_find_def)
  qed
qed (use assms in \<open>auto simp: key_ok_def intro: dict_ok_fold_emplace\<close>)


section \<open>Properties\<close>

subsection \<open>Streams\<close>

lemma mapE_pairs:
  "mapE (\<lambda>(k, v). bindE (f k v) (\<lambda>c. Inr (k, c))) kvs = Inr out \<Longrightarrow>
   dict_keys out = dict_keys kvs \<and> length out = length kvs \<and>
   (\<forall>k. rel_option (\<lambda>v c. f k v = Inr c) (map_of kvs k) (map_of out k))"
  by (induction kvs arbitrary: out) (auto simp: bindE_eq_Inr)

lemma mapE_tags:
  "mapE (\<lambda>n. bindE (f n) (\<lambda>t. Inr (n, t))) ns = Inr out \<Longrightarrow> map fst out = ns"
  by (induction ns arbitrary: out) (auto simp: bindE_eq_Inr)

lemma encode_key_shape:
  assumes "encode_key e key = Inr out"
  obtains kvs nts where
    "out = INum (length kvs) # concat (map encode_pair kvs) @ INum (length nts) # concat (map encode_pair nts)"
    and "dict_keys kvs = dict_keys (key_dict key)" and "map fst nts = key_names key"
    and "\<forall>k. rel_option (\<lambda>v c. canonicalise e key k v = Inr c) (map_of (key_dict key) k) (map_of kvs k)"
proof -
  let ?reg = "if key_canonical key then Inr None else bindE (get_registry key) (\<lambda>r. Inr (Some r))"
  obtain reg where r: "?reg = Inr reg"
    using assms by (cases ?reg) (simp_all add: encode_key_def)
  then have reg: "reg = None \<longrightarrow> key_canonical key"
    by (auto simp: bindE_eq_Inr split: if_splits)
  from assms obtain kvs nts where
    kvs: "mapE (\<lambda>(k, v). bindE (case reg of None \<Rightarrow> Inr v | Some _ \<Rightarrow> canonicalise e key k v)
            (\<lambda>c. Inr (k, c))) (key_dict key) = Inr kvs"
    and nts: "mapE (\<lambda>n. bindE (case reg of None \<Rightarrow> Inr []
                     | Some r \<Rightarrow> bindE (lookupType r n) (\<lambda>t. Inr (type_name t))) (\<lambda>t. Inr (n, t)))
              (key_names key) = Inr nts"
    and out: "out = INum (length kvs) # concat (map encode_pair kvs) @
            INum (length nts) # concat (map encode_pair nts)"
    unfolding encode_key_def r bindE.simps bindE_eq_Inr by blast
  have same: "(case reg of None \<Rightarrow> Inr v | Some _ \<Rightarrow> canonicalise e key k v) = canonicalise e key k v" for k v
    using reg by (simp add: canonicalise_def split: option.splits)
  show thesis
    using mapE_pairs [OF kvs[unfolded same]] mapE_tags [OF nts] by (intro that [OF out]) auto
qed

lemma key_stream:
  assumes "key_ok key" and "encode_key e key = Inr out"
  shows "\<exists>key'. decode_key (out @ rest) = Inr (key', rest) \<and> key_ok key' \<and> key_canonical key' \<and>
    key_names key' = key_names key \<and>
    (\<forall>k v. key_find key k = Some v \<longrightarrow> (\<exists>c. canonicalise e key k v = Inr c \<and> key_find key' k = Some c)) \<and>
    valuesToString e key' = valuesToString e key"
proof -
  from assms(2) obtain kvs nts where
    out: "out = INum (length kvs) # concat (map encode_pair kvs) @ INum (length nts) # concat (map encode_pair nts)"
    and keys: "dict_keys kvs = dict_keys (key_dict key)" and names: "map fst nts = key_names key"
    and vals: "\<forall>k. rel_option (\<lambda>v c. canonicalise e key k v = Inr c) (map_of (key_dict key) k) (map_of kvs k)"
    by (rule encode_key_shape)
  define key' where "key' = \<lparr>key_dict = kvs, key_names = key_names key, key_registry = None, key_canonical = True\<rparr>"
  have ok: "dict_ok kvs" using assms(1) keys by (simp add: key_ok_def dict_ok_def)
  have ok': "key_ok key'" using assms(1) keys ok by (simp add: key_ok_def key'_def flip: set_map)
  have found: "\<exists>c. canonicalise e key k v = Inr c \<and> key_find key' k = Some c" if "key_find key k = Some v" for k v
    using vals[rule_format, of k] that by (cases "map_of kvs k") (auto simp: key_find_def key'_def)
  have "canonicalValue e key' n = canonicalValue e key n" if n: "n \<in> set (key_names key)" for n
  proof -
    obtain v where v: "key_find key n = Some v" using name_has_value [OF assms(1) n] by blast
    with found obtain c where "canonicalise e key n v = Inr c" and "key_find key' n = Some c" by blast
    with v show ?thesis
      by (simp add: canonicalValue_def key_value_def) (simp add: canonicalise_def key'_def)
  qed
  then have "mapE (canonicalValue e key') (key_names key) = mapE (canonicalValue e key) (key_names key)"
    by (intro mapE_cong) simp_all
  moreover have "length (key_dict key') = length (key_dict key)"
    using keys by (metis key'_def key.select_convs(1) length_map)
  ultimately have "valuesToString e key' = valuesToString e key"
    by (simp add: valuesToString_def) (simp add: key'_def)
  moreover have "decode_key (out @ rest) = Inr (key', rest)"
    using decode_items [OF ok names] by (simp add: out key'_def)
  ultimately show ?thesis using ok' found by (intro exI [of _ key']) (auto simp: key'_def)
qed

text \<open>
  C27: A key survives a stream: whatever key of the invariant is encoded, decoding the stream gives
  a key with the same names in the same order, marked canonical, that holds the canonical form of
  every value, and the rest of the stream is untouched. In particular the two keys have the same
  \<open>valuesToString\<close>, which is what indexes and catalogues are searched by.
\<close>
theorem key_stream_roundtrip:
  assumes "key_ok key" and "encode_key e key = Inr out"
  shows "\<exists>key'. decode_key (out @ rest) = Inr (key', rest) \<and> key_ok key' \<and> key_canonical key' \<and>
    key_names key' = key_names key \<and>
    (\<forall>k v. key_find key k = Some v \<longrightarrow> (\<exists>c. canonicalise e key k v = Inr c \<and> key_find key' k = Some c)) \<and>
    valuesToString e key' = valuesToString e key"
  using assms by (rule key_stream)

definition sample_key :: key where
  "sample_key = push_key ''class'' ''od'' (push_key ''step'' ''12'' (new_key (Some (Registry [(''step'', ''Step'')] None))))"

lemma sample_key_ok: "key_ok sample_key"
  by code_simp

lemma sample_key_encode:
  "encode_key ref_ext sample_key = Inr [INum 2, IStr ''class'', IStr ''od'', IStr ''step'', IStr ''12'',
     INum 2, IStr ''step'', IStr ''Step'', IStr ''class'', IStr ''Default'']"
  by (simp add: encode_key_def sample_key_def push_key_def new_key_def get_registry_def canonicalise_def
      build_type_def encode_pair_def to_key_step_def)

lemma key_stream_roundtrip_witness:
  "\<exists>key'. decode_key [INum 2, IStr ''class'', IStr ''od'', IStr ''step'', IStr ''12'',
     INum 2, IStr ''step'', IStr ''Step'', IStr ''class'', IStr ''Default'', IEnd] = Inr (key', [IEnd]) \<and>
     valuesToString ref_ext key' = valuesToString ref_ext sample_key"
  using key_stream_roundtrip [OF sample_key_ok sample_key_encode, of "[IEnd]"] by auto


subsection \<open>Text\<close>

lemma key_text:
  assumes "tokenize_law e" and "key_ok key"
    and "\<forall>(k, v) \<in> set (key_dict key). plain_text k \<and> plain_text v"
  shows "\<exists>s key'. key_as_string key = Inr s \<and> parseStringUntyped e s = Inr key' \<and>
    key_ok key' \<and> key_eq key' key \<and> (key_dict key \<noteq> [] \<longrightarrow> s \<noteq> [])"
proof -
  let ?kvs = "map (\<lambda>n. (n, the (key_find key n))) (key_names key)"
  have "\<forall>(k, v) \<in> set ?kvs. plain_text k \<and> plain_text v"
  proof clarify
    fix k v
    assume "(k, v) \<in> set ?kvs"
    then have n: "k \<in> set (key_names key)" and v: "v = the (key_find key k)" by auto
    from name_has_value [OF assms(2) n] v have "map_of (key_dict key) k = Some v"
      by (auto simp: key_find_def)
    then have "(k, v) \<in> set (key_dict key)" by (rule map_of_SomeD)
    with assms(3) show "plain_text k \<and> plain_text v" by blast
  qed
  note parsed = parse_bindings [OF assms(1) this]
  have "\<forall>(k, v) \<in> set (key_dict key). v \<noteq> []"
    using assms(3) by (auto simp: plain_text_def)
  from key_toString_ok [OF assms(2) this] key_ok_size [OF assms(2)]
  have shown: "key_as_string key = Inr (join_with '','' (map binding_text ?kvs))"
    by (simp add: key_as_string_def)
  have "dict_ok (key_dict key)" using assms(2) by (simp add: key_ok_def)
  moreover have "key_dict key \<noteq> [] \<longrightarrow> join_with '','' (map binding_text ?kvs) \<noteq> []"
  proof
    assume "key_dict key \<noteq> []"
    then have "key_names key \<noteq> []" using assms(2) by (auto simp: key_ok_def)
    then show "join_with '','' (map binding_text ?kvs) \<noteq> []"
      using join_with_nonempty by (cases "key_names key") (simp_all add: binding_text_def)
  qed
  moreover have "key_eq (key_of_dict (key_dict key) None) key"
    by (simp add: key_eq_def key_of_dict_def)
  ultimately show ?thesis
    using parsed shown key_ok_of_dict [of "key_dict key" None]
    unfolding dict_from_names [OF assms(2)] by blast
qed

text \<open>
  A key survives its text: for a key of the invariant whose keywords and values are not empty
  and hold neither a comma nor an equals sign, \<open>parseStringUntyped\<close> reads the text that
  \<open>operator std::string\<close> prints back as an equal key.
\<close>
lemma key_text_roundtrip:
  assumes "tokenize_law e" and "key_ok key"
    and "\<forall>(k, v) \<in> set (key_dict key). plain_text k \<and> plain_text v"
  shows "\<exists>s key'. key_as_string key = Inr s \<and> parseStringUntyped e s = Inr key' \<and>
    key_ok key' \<and> key_eq key' key"
  using key_text [OF assms] by blast

lemma key_text_roundtrip_witness:
  "\<exists>s key'. key_as_string sample_key = Inr s \<and> parseStringUntyped ref_ext s = Inr key' \<and>
    key_ok key' \<and> key_eq key' sample_key"
  by (rule key_text_roundtrip [OF ref_tokenize_law sample_key_ok])
    (simp add: sample_key_def push_key_def new_key_def plain_text_def)

text \<open>
  C39: A key read by \<open>parseString\<close> satisfies the invariant, carries the registry it was read with,
  and each of its values is the result of the type's \<open>tidy\<close>, also for a keyword given twice.
\<close>
theorem parseString_tidied:
  assumes "parseString e s reg = Inr key"
  shows "key_ok key \<and> key_registry key = Some reg \<and>
    (\<forall>k v. key_find key k = Some v \<longrightarrow>
      (\<exists>t v0. lookupType reg k = Inr t \<and> tidy e t k v0 = Inr v))"
proof -
  let ?P = "\<lambda>key. key_ok key \<and> key_registry key = Some reg \<and>
    (\<forall>k v. key_find key k = Some v \<longrightarrow> (\<exists>t v0. lookupType reg k = Inr t \<and> tidy e t k v0 = Inr v))"
  let ?f = "\<lambda>part ret. bindE (parse_binding e part) (\<lambda>(k, v0).
         bindE (lookupType reg k) (\<lambda>t. bindE (tidy e t k v0) (\<lambda>v.
           Inr (if key_find ret k = None then push_key k v ret else set_key k v ret))))"
  have set_reg: "key_registry (set_key k v ret) = key_registry ret" for k v ret
    by (simp add: set_key_def split: option.splits)
  have kept: "?P ret'" if P: "?P ret" and step: "?f part ret = Inr ret'" for part ret ret'
  proof -
    from step obtain k v0 t v where t: "lookupType reg k = Inr t" and v: "tidy e t k v0 = Inr v"
      and ret': "ret' = (if key_find ret k = None then push_key k v ret else set_key k v ret)"
      by (auto simp: bindE_eq_Inr)
    have "key_find ret' x = (if x = k then Some v else key_find ret x)" for x
      by (simp add: ret')
    moreover have "key_ok ret'" using P by (simp add: ret' key_ok_push)
    moreover have "key_registry ret' = Some reg" using P by (simp add: ret' set_reg)
    ultimately show ?thesis using P t v by auto
  qed
  have start: "?P (new_key (Some reg))" by (simp add: new_key_def key_find_def key_ok_def)
  show ?thesis
    by (rule foldE_invariant [where P = ?P and f = ?f, OF _ start assms[unfolded parseString_def]])
      (erule (1) kept)
qed

lemma parseString_tidied_witness:
  "\<exists>key. parseString ref_ext ''step=12,expver=1,step=24'' (Registry [(''expver'', ''Expver'')] None) = Inr key \<and>
     key_ok key \<and> key_find key ''expver'' = Some ''0001'' \<and> key_find key ''step'' = Some ''24''"
proof -
  let ?reg = "Registry [(''expver'', ''Expver'')] None"
  have "x_trim ref_ext ''1'' = ''1''" by (simp add: ref_ext_def)
  then have "tidy ref_ext TExpver ''expver'' ''1'' = Inr ''0001''"
    by (simp add: tidy_expver_def pad_left_def numeral_eq_Suc)
  then obtain key where key: "parseString ref_ext ''step=12,expver=1,step=24'' ?reg = Inr key"
    and vals: "key_find key ''expver'' = Some ''0001''" "key_find key ''step'' = Some ''24''"
    by (simp add: parseString_def parse_binding_def build_type_def new_key_def push_key_def set_key_def key_find_def)
  from parseString_tidied [OF key] key vals show ?thesis by blast
qed

subsection \<open>Keeping and breaking the invariant\<close>

text \<open>
  The loops of the rules rely on this: a keyword that is not in a key is pushed and popped
  without a trace, the key in between satisfies the invariant and finds the value, and every
  other keyword is found as before.
\<close>
lemma push_pop_inverse:
  assumes "key_ok key" and "k \<notin> set (key_names key)"
  shows "pop_key k (push_key k v key) = Inr key \<and> key_ok (push_key k v key) \<and>
    key_find (push_key k v key) k = Some v \<and>
    (\<forall>k'. k' \<noteq> k \<longrightarrow> key_find (push_key k v key) k' = key_find key k')"
proof -
  from assms have "key_find key k = None" and "dict_ok (key_dict key)"
    using key_ok_names_find [OF assms(1), of k] by (simp_all add: key_ok_def)
  with assms(1) show ?thesis by (simp add: key_ok_push)
qed

lemma push_pop_inverse_witness:
  "pop_key ''levtype'' (push_key ''levtype'' ''sfc'' sample_key) = Inr sample_key"
  using push_pop_inverse [OF sample_key_ok, of "''levtype''" "''sfc''"]
  by (simp add: sample_key_def push_key_def new_key_def)

text \<open>
  C35: \<open>unset\<close> leaves the keyword in the list of names: after it, a key that satisfied the
  invariant has neither a string of values nor a text, both end in a failed assertion.
\<close>
theorem unset_breaks_values:
  assumes "key_ok key" and "k \<in> set (key_names key)"
  shows "valuesToString e (unset_key k key) = Inl (AssertFailed ''names_.size() == keys_.size()'') \<and>
    key_as_string (unset_key k key) = Inl (AssertFailed ''names_.size() == keys_.size()'')"
proof -
  obtain v where "key_find key k = Some v" using name_has_value [OF assms] by blast
  then have "(k, v) \<in> set (key_dict key)" unfolding key_find_def by (rule map_of_SomeD)
  then have "length (dict_erase k (key_dict key)) < length (key_dict key)"
    unfolding dict_erase_def by (rule length_filter_less) simp
  then have "length (key_names (unset_key k key)) \<noteq> length (key_dict (unset_key k key))"
    using key_ok_size [OF assms(1)] by (simp add: unset_key_def)
  then show ?thesis by (simp add: valuesToString_def key_as_string_def)
qed

lemma unset_breaks_values_witness:
  "key_as_string (unset_key ''step'' sample_key) = Inl (AssertFailed ''names_.size() == keys_.size()'')"
  using unset_breaks_values [OF sample_key_ok, of "''step''" ref_ext]
  by (simp add: sample_key_def push_key_def new_key_def)

end
