(* ===== verification/FDB_Matcher.thy ===== *)
theory FDB_Matcher
  imports FDB_Key
begin

text \<open>
  Matchers and predicates (\<open>src/fdb5/rules/Matcher.cc\<close>, \<open>MatchAlways\<close>, \<open>MatchAny\<close>,
  \<open>MatchValue\<close>, \<open>MatchOptional\<close>, \<open>MatchHidden\<close>, \<open>Predicate.cc\<close>): the subclasses of \<open>Matcher\<close> are the
  constructors of one datatype, the virtual methods are functions by cases on it, and a
  predicate is a keyword with its matcher. \<open>push_level\<close> and \<open>pop_level\<close> are the loops of a rule
  over its predicates, which the first-level and the full expansion share.
\<close>

section \<open>Matchers\<close>

text \<open>The values of \<open>MatchAny\<close> are a \<open>std::set\<close>: an increasing list.\<close>

datatype matcher =
    MatchAlways
  | MatchAny "string list"
  | MatchValue string
  | MatchOptional string
  | MatchHidden string

fun matcher_match :: "matcher \<Rightarrow> string \<Rightarrow> key \<Rightarrow> bool" where
  "matcher_match (MatchAny values) keyword key =
     (case key_find key keyword of None \<Rightarrow> False | Some v \<Rightarrow> v \<in> set values)"
| "matcher_match (MatchValue value) keyword key =
     (case key_find key keyword of None \<Rightarrow> False | Some v \<Rightarrow> v = value)"
| "matcher_match _ keyword key = True"

fun matcher_optional :: "matcher \<Rightarrow> bool" where
  "matcher_optional (MatchOptional _) = True"
| "matcher_optional (MatchHidden _) = True"
| "matcher_optional _ = False"

fun matcher_value :: "matcher \<Rightarrow> key \<Rightarrow> string \<Rightarrow> string res" where
  "matcher_value (MatchOptional def) key keyword =
     (case key_find key keyword of None \<Rightarrow> Inr def | Some _ \<Rightarrow> get_key key keyword)"
| "matcher_value (MatchHidden def) key keyword = Inr def"
| "matcher_value _ key keyword = get_key key keyword"

fun matcher_values :: "matcher \<Rightarrow> mars_request \<Rightarrow> string \<Rightarrow> string list res" where
  "matcher_values (MatchOptional def) rq keyword =
     (if rq_has rq keyword then rq_values rq keyword else Inr [def])"
| "matcher_values (MatchHidden def) rq keyword = Inr [def]"
| "matcher_values _ rq keyword = rq_values rq keyword"

fun matcher_default :: "matcher \<Rightarrow> string res" where
  "matcher_default (MatchOptional def) = Inr def"
| "matcher_default (MatchHidden def) = Inr def"
| "matcher_default _ = Inl (NotImplemented ''Matcher::defaultValue'')"

fun matcher_fill :: "matcher \<Rightarrow> key \<Rightarrow> string \<Rightarrow> string \<Rightarrow> key" where
  "matcher_fill (MatchOptional def) key keyword value =
     (if value \<noteq> [] then push_key keyword value key else key)"
| "matcher_fill _ key keyword value = push_key keyword value key"

fun matcher_dump :: "matcher \<Rightarrow> string \<Rightarrow> (string, string) dict \<Rightarrow> string" where
  "matcher_dump MatchAlways keyword types = dump_keyword types keyword"
| "matcher_dump (MatchAny values) keyword types =
     dump_keyword types keyword @ ''='' @ join_with ''/'' values"
| "matcher_dump (MatchValue value) keyword types = dump_keyword types keyword @ ''='' @ value"
| "matcher_dump (MatchOptional def) keyword types = dump_keyword types keyword @ ''?'' @ def"
| "matcher_dump (MatchHidden def) keyword types = dump_keyword types keyword @ ''-'' @ def"

section \<open>Predicates\<close>

record predicate =
  pred_keyword :: string
  pred_matcher :: matcher

definition pred_match :: "predicate \<Rightarrow> key \<Rightarrow> bool" where
  "pred_match p key = matcher_match (pred_matcher p) (pred_keyword p) key"

definition pred_optional :: "predicate \<Rightarrow> bool" where
  "pred_optional p = matcher_optional (pred_matcher p)"

definition pred_value :: "predicate \<Rightarrow> key \<Rightarrow> string res" where
  "pred_value p key = matcher_value (pred_matcher p) key (pred_keyword p)"

definition pred_values :: "predicate \<Rightarrow> mars_request \<Rightarrow> string list res" where
  "pred_values p rq = matcher_values (pred_matcher p) rq (pred_keyword p)"

definition pred_default :: "predicate \<Rightarrow> string res" where
  "pred_default p = matcher_default (pred_matcher p)"

definition pred_fill :: "predicate \<Rightarrow> key \<Rightarrow> string \<Rightarrow> key" where
  "pred_fill p key value = matcher_fill (pred_matcher p) key (pred_keyword p) value"

definition pred_dump :: "predicate \<Rightarrow> (string, string) dict \<Rightarrow> string" where
  "pred_dump p types = matcher_dump (pred_matcher p) (pred_keyword p) types"

lemmas pred_defs = pred_match_def pred_optional_def pred_value_def pred_values_def pred_default_def
  pred_fill_def pred_dump_def

section \<open>What a value means to a predicate\<close>

text \<open>Whether a value of the keyword is accepted: the matcher looks at nothing else of the key.\<close>

fun accepts :: "matcher \<Rightarrow> string \<Rightarrow> bool" where
  "accepts (MatchAny values) v = (v \<in> set values)"
| "accepts (MatchValue value) v = (v = value)"
| "accepts _ v = True"

lemma match_pushed [simp]:
  "pred_match p (push_key (pred_keyword p) v key) = accepts (pred_matcher p) v"
  by (cases "pred_matcher p") (simp_all add: pred_match_def)

lemma match_found:
  "key_find key (pred_keyword p) = Some v \<Longrightarrow> pred_match p key = accepts (pred_matcher p) v"
  by (cases "pred_matcher p") (simp_all add: pred_match_def)

lemma optional_accepts: "pred_optional p \<Longrightarrow> accepts (pred_matcher p) v"
  by (cases "pred_matcher p") (simp_all add: pred_optional_def)

lemma default_optional: "pred_optional p \<longleftrightarrow> (\<exists>d. pred_default p = Inr d)"
  by (cases "pred_matcher p") (simp_all add: pred_optional_def pred_default_def)

text \<open>A predicate that is not optional fails on a key without its keyword; no other does.\<close>

lemma value_error_iff:
  "(\<exists>err. pred_value p key = Inl err) \<longleftrightarrow> \<not> pred_optional p \<and> key_find key (pred_keyword p) = None"
  by (cases "pred_matcher p")
    (auto simp: pred_value_def pred_optional_def get_key_def split: option.splits)

lemma value_found:
  "key_find key (pred_keyword p) = Some v \<Longrightarrow>
   pred_value p key = Inr (case pred_matcher p of MatchHidden d \<Rightarrow> d | _ \<Rightarrow> v)"
  by (cases "pred_matcher p") (simp_all add: pred_value_def get_key_def)

section \<open>The predicates of a rule, one after the other\<close>

text \<open>
  The keywords and values a key gives to a list of predicates, when all of them accept: what
  the recursion over the predicates adds to the key of a level.
\<close>

fun level_values :: "key \<Rightarrow> predicate list \<Rightarrow> (string \<times> string) list option res" where
  "level_values field [] = Inr (Some [])"
| "level_values field (p # ps) =
     bindE (pred_value p field) (\<lambda>v.
       if accepts (pred_matcher p) v
       then bindE (level_values field ps) (\<lambda>r. Inr (map_option ((#) (pred_keyword p, v)) r))
       else Inr None)"

definition push_all :: "(string \<times> string) list \<Rightarrow> key \<Rightarrow> key" where
  "push_all kvs key = fold (\<lambda>(k, v). push_key k v) kvs key"

lemma push_all_simps [simp]:
  "push_all [] key = key"
  "push_all ((k, v) # kvs) key = push_all kvs (push_key k v key)"
  by (simp_all add: push_all_def)

lemma level_values_keywords:
  "level_values field ps = Inr (Some kvs) \<Longrightarrow> map fst kvs = map pred_keyword ps"
  by (induction ps arbitrary: kvs) (auto simp: bindE_eq_Inr split: if_splits)

lemma level_values_total:
  assumes "\<forall>p \<in> set ps. pred_optional p \<or> key_find field (pred_keyword p) \<noteq> None"
  shows "\<exists>r. level_values field ps = Inr r"
  using assms
proof (induction ps)
  case (Cons p ps)
  then obtain v where "pred_value p field = Inr v"
    using value_error_iff [of p field] by (metis list.set_intros(1) sum.exhaust)
  with Cons show ?case by auto
qed simp

lemma push_all_find:
  "key_find (push_all kvs key) k =
     (case map_of (rev kvs) k of None \<Rightarrow> key_find key k | Some v \<Rightarrow> Some v)"
  by (induction kvs arbitrary: key) (auto simp: map_add_def split: option.splits)

lemma push_all_names: "key_names (push_all kvs key) = key_names key @ map fst kvs"
  by (induction kvs arbitrary: key) auto

lemma push_all_registry [simp]: "key_registry (push_all kvs key) = key_registry key"
  by (induction kvs arbitrary: key) auto

lemma push_all_ok:
  "key_ok key \<Longrightarrow> distinct (map fst kvs) \<Longrightarrow> set (map fst kvs) \<inter> set (key_names key) = {} \<Longrightarrow>
   key_ok (push_all kvs key)"
proof (induction kvs arbitrary: key)
  case (Cons kv kvs)
  obtain k v where kv: "kv = (k, v)" by (cases kv)
  from Cons.prems have "key_find key k = None"
    by (auto simp: kv find_eq_None key_ok_def)
  then have "key_ok (push_key k v key)"
    using Cons.prems(1) by (rule key_ok_push [rotated])
  then show ?case using Cons by (auto simp: kv)
qed simp

text \<open>Every value a level gives is accepted by the predicate of its keyword.\<close>

lemma level_values_match:
  assumes "level_values field ps = Inr (Some kvs)" and "distinct (map pred_keyword ps)"
    and "p \<in> set ps"
  shows "pred_match p (push_all kvs key)"
  using assms
proof (induction ps arbitrary: kvs key)
  case (Cons q ps)
  from Cons.prems(1) obtain v kvs' where v: "accepts (pred_matcher q) v"
    and rest: "level_values field ps = Inr (Some kvs')" and kvs: "kvs = (pred_keyword q, v) # kvs'"
    by (auto simp: bindE_eq_Inr split: if_splits)
  show ?case
  proof (cases "p = q")
    case True
    have "map_of (rev kvs') (pred_keyword q) = None"
      using arg_cong [OF level_values_keywords [OF rest], of set] Cons.prems(2)
      by (simp add: map_of_eq_None_iff)
    then have "key_find (push_all kvs key) (pred_keyword q) = Some v"
      by (simp add: kvs push_all_find)
    with True v show ?thesis by (simp add: match_found)
  next
    case False
    with Cons rest show ?thesis by (auto simp: kvs)
  qed
qed simp

end
