(* ===== verification/FDB_Rules.thy ===== *)
theory FDB_Rules
  imports FDB_Matcher "HOL-Library.Product_Lexorder"
begin

text \<open>
  Rules and schemas (\<open>src/fdb5/rules/Rule.{h,cc}\<close>, \<open>src/fdb5/rules/Schema.{h,cc}\<close>), all but
  the full expansion: the tree of rules, matching, \<open>ruleFor\<close>, \<open>fill\<close> and the constructor of
  \<open>Key\<close> that uses it, \<open>check\<close>, \<open>depth\<close>, \<open>dump\<close>, and the expansion and matching of the first
  level for keys and for requests.

  A rule does not hold a pointer to its parent here. Where the code follows \<open>parent_\<close>, the
  definitions take a \<^emph>\<open>located\<close> rule: the rule and its ancestors, innermost first, as
  \<open>updateParent\<close> links them. The types of a located rule are looked up along the list and then
  in the schema.
\<close>

section \<open>Rules\<close>

datatype rule =
  Rule (rule_line: nat) (rule_preds: "predicate list") (rule_rules: "rule list")
    (rule_types: "(string, string) dict")

type_synonym located = "rule list"

record schema =
  sch_types :: "(string, string) dict"
  sch_rules :: "rule list"

definition schema_registry :: "schema \<Rightarrow> registry" where
  "schema_registry sch = Registry (sch_types sch) None"

definition schema_lookupType :: "schema \<Rightarrow> string \<Rightarrow> ftype res" where
  "schema_lookupType sch keyword = lookupType (schema_registry sch) keyword"

text \<open>\<open>registry()\<close> of a located rule: its own types first, then those of its parents.\<close>

fun rule_registry :: "schema \<Rightarrow> located \<Rightarrow> registry" where
  "rule_registry sch [] = schema_registry sch"
| "rule_registry sch (r # parents) = Registry (rule_types r) (Some (rule_registry sch parents))"

definition top_rule :: "located \<Rightarrow> rule" where
  "top_rule path = last path"

fun rule_depth :: "rule \<Rightarrow> nat" and rules_depth :: "rule list \<Rightarrow> nat" where
  "rule_depth (Rule line preds rules types) = rules_depth rules + 1"
| "rules_depth [] = 0"
| "rules_depth (r # rs) = max (rule_depth r) (rules_depth rs)"

definition rule_match :: "rule \<Rightarrow> key \<Rightarrow> bool" where
  "rule_match r key = list_all (\<lambda>p. pred_match p key) (rule_preds r)"

fun ruleFor :: "located \<Rightarrow> rule \<Rightarrow> key list \<Rightarrow> nat \<Rightarrow> located option"
  and ruleFor_any :: "located \<Rightarrow> rule list \<Rightarrow> key list \<Rightarrow> nat \<Rightarrow> located option" where
  "ruleFor parents (Rule line preds rules types) keys depth =
     (let this = Rule line preds rules types
      in if depth = length keys then Some (this # parents)
         else if rule_match this (keys ! depth) then ruleFor_any (this # parents) rules keys (depth + 1)
         else None)"
| "ruleFor_any parents [] keys depth = None"
| "ruleFor_any parents (r # rs) keys depth =
     (case ruleFor parents r keys depth of
        Some path \<Rightarrow> Some path
      | None \<Rightarrow> ruleFor_any parents rs keys depth)"

definition schema_ruleFor :: "schema \<Rightarrow> key \<Rightarrow> key \<Rightarrow> located option" where
  "schema_ruleFor sch dbKey idxKey = ruleFor_any [] (sch_rules sch) [dbKey, idxKey] 0"

fun rule_dump :: "rule \<Rightarrow> string" and rules_dump :: "rule list \<Rightarrow> string" where
  "rule_dump (Rule line preds rules types) =
     ''['' @ join_with '','' (map (\<lambda>p. pred_dump p types) preds) @ rules_dump rules @ '']''"
| "rules_dump [] = []"
| "rules_dump (r # rs) = rule_dump r @ rules_dump rs"

definition schema_dump :: "schema \<Rightarrow> string" where
  "schema_dump sch =
     dump_types (sch_types sch) @ concat (map (\<lambda>r. rule_dump r @ ''\<newline>'') (sch_rules sch))"

text \<open>\<open>Schema::check\<close> after a load: every rule of the schema has three levels.\<close>

definition schema_check :: "schema \<Rightarrow> unit res" where
  "schema_check sch =
     assertE (list_all (\<lambda>r. rule_depth r = 3) (sch_rules sch)) ''(*i)->depth() == 3''"

section \<open>\<open>fill\<close>, \<open>check\<close>, and keys read from an index\<close>

fun fill_loop :: "bool \<Rightarrow> predicate list \<Rightarrow> string list \<Rightarrow> key \<Rightarrow> key res" where
  "fill_loop extra (p # ps) (v # vs) key =
     (if extra \<and> pred_keyword p = ''quantile'' then
        (case vs of
           [] \<Rightarrow> Inl (AssertFailed ''it_value != values.end()'')
         | w # ws \<Rightarrow> fill_loop extra ps ws (pred_fill p key (v @ '':'' @ w)))
      else fill_loop extra ps vs (pred_fill p key v))"
| "fill_loop extra [] [] key = Inr key"
| "fill_loop extra [] (v # vs) key = Inl (AssertFailed ''it_value == values.end()'')"
| "fill_loop extra (p # ps) [] key = Inl (AssertFailed ''it_pred == predicates_.end()'')"

definition rule_fill :: "rule \<Rightarrow> key \<Rightarrow> string list \<Rightarrow> key res" where
  "rule_fill r key values =
     bindE (assertE (length (rule_preds r) \<le> length values) ''values.size() >= predicates_.size()'') (\<lambda>_.
     bindE (assertE (length values \<le> length (rule_preds r) + 1) ''values.size() <= predicates_.size() + 1'') (\<lambda>_.
       fill_loop (length values = length (rule_preds r) + 1) (rule_preds r) values key))"

text \<open>\<open>Key(const std::string&, const Rule*)\<close>: the values of an index entry, split at the colons.\<close>

definition key_of_string :: "ext \<Rightarrow> schema \<Rightarrow> string \<Rightarrow> located option \<Rightarrow> key res" where
  "key_of_string e sch s rule =
     (case rule of
        None \<Rightarrow> Inl (AssertFailed ''rule'')
      | Some [] \<Rightarrow> Inl (AssertFailed ''rule'')
      | Some (r # parents) \<Rightarrow>
          rule_fill r (new_key (Some (rule_registry sch (r # parents)))) (x_tokenize e CHR '':'' True s))"

fun rule_check :: "ext \<Rightarrow> schema \<Rightarrow> located \<Rightarrow> key \<Rightarrow> unit res" where
  "rule_check e sch [] key = Inr ()"
| "rule_check e sch (r # parents) key =
     bindE (mapE (\<lambda>p.
              case key_find key (pred_keyword p) of
                None \<Rightarrow> Inr ()
              | Some v \<Rightarrow>
                  bindE (lookupType (rule_registry sch (r # parents)) (pred_keyword p)) (\<lambda>t.
                  bindE (tidy e t (pred_keyword p) v) (\<lambda>w.
                    if v \<noteq> w then Inl (UserError ''Rule check - metadata not valid'') else Inr ())))
              (rule_preds r)) (\<lambda>_.
       rule_check e sch parents key)"

section \<open>The first level\<close>

text \<open>\<open>expandFirstLevel\<close> for a key; the result key and \<open>found\<close> are passed through.\<close>

fun expandFirstLevel_key :: "key \<Rightarrow> predicate list \<Rightarrow> key \<Rightarrow> bool \<Rightarrow> (key \<times> bool) res" where
  "expandFirstLevel_key dbKey [] result found = Inr (result, True)"
| "expandFirstLevel_key dbKey (p # ps) result found =
     bindE (pred_value p dbKey) (\<lambda>value.
       (let result = push_key (pred_keyword p) value result
        in bindE (if pred_match p result then expandFirstLevel_key dbKey ps result found
                  else Inr (result, found)) (\<lambda>(result, found).
             if \<not> found then bindE (pop_key (pred_keyword p) result) (\<lambda>result. Inr (result, found))
             else Inr (result, found))))"

fun schema_first_key :: "key \<Rightarrow> rule list \<Rightarrow> key \<Rightarrow> bool \<Rightarrow> (key \<times> bool) res" where
  "schema_first_key dbKey [] result found = Inr (result, found)"
| "schema_first_key dbKey (r # rs) result found =
     (if found then Inr (result, found)
      else bindE (expandFirstLevel_key dbKey (rule_preds r) result found) (\<lambda>(result, found).
             schema_first_key dbKey rs result found))"

definition schema_expandFirstLevel :: "schema \<Rightarrow> key \<Rightarrow> key \<Rightarrow> (key \<times> bool) res" where
  "schema_expandFirstLevel sch dbKey result = schema_first_key dbKey (sch_rules sch) result False"

text \<open>
  \<open>expandFirstLevel\<close> for a request: the loop over the values of a predicate stops at the
  first that leads to a complete expansion.
\<close>

function expandFirstLevel_rq :: "mars_request \<Rightarrow> predicate list \<Rightarrow> key \<Rightarrow> bool \<Rightarrow> (key \<times> bool) res"
  and try_values :: "mars_request \<Rightarrow> predicate \<Rightarrow> predicate list \<Rightarrow> string list \<Rightarrow> key \<Rightarrow> bool \<Rightarrow>
    (key \<times> bool) res" where
  "expandFirstLevel_rq rq [] result found = Inr (result, True)"
| "expandFirstLevel_rq rq (p # ps) result found =
     bindE (pred_values p rq) (\<lambda>values. try_values rq p ps values result found)"
| "try_values rq p ps [] result found = Inr (result, found)"
| "try_values rq p ps (value # values) result found =
     (let result = push_key (pred_keyword p) value result
      in bindE (if pred_match p result then expandFirstLevel_rq rq ps result found
                else Inr (result, found)) (\<lambda>(result, found).
           if \<not> found then bindE (pop_key (pred_keyword p) result) (\<lambda>result.
             try_values rq p ps values result found)
           else Inr (result, found)))"
  by pat_completeness auto

termination
  by (relation "measures [\<lambda>x. case x of Inl (_, ps, _) \<Rightarrow> 2 * length ps
                                       | Inr (_, _, ps, _) \<Rightarrow> 2 * length ps + 1,
                          \<lambda>x. case x of Inl _ \<Rightarrow> 0 | Inr (_, _, _, vs, _) \<Rightarrow> length vs]") auto

fun schema_first_rq :: "schema \<Rightarrow> mars_request \<Rightarrow> rule list \<Rightarrow> key \<Rightarrow> bool \<Rightarrow> (key \<times> bool) res" where
  "schema_first_rq sch rq [] result found = Inr (result, found)"
| "schema_first_rq sch rq (r # rs) result found =
     bindE (expandFirstLevel_rq rq (rule_preds r) result found) (\<lambda>(result, found).
       if found then Inr (set_registry (rule_registry sch [r]) result, found)
       else schema_first_rq sch rq rs result found)"

definition schema_expandFirstLevel_rq :: "schema \<Rightarrow> mars_request \<Rightarrow> key \<Rightarrow> (key \<times> bool) res" where
  "schema_expandFirstLevel_rq sch rq result = schema_first_rq sch rq (sch_rules sch) result False"

text \<open>
  A \<open>std::set<Key>\<close>: keys ordered by their dictionaries, an insertion of a key that is equal
  to a member does nothing.
\<close>

type_synonym keyset = "((string, string) dict, key) dict"

definition keyset_insert :: "key \<Rightarrow> keyset \<Rightarrow> keyset" where
  "keyset_insert k s = (if map_of s (key_dict k) = None then dict_put (key_dict k) k s else s)"

fun matchFirstLevel_key ::
    "key \<Rightarrow> predicate list \<Rightarrow> key \<Rightarrow> keyset \<Rightarrow> string \<Rightarrow> (key \<times> keyset) res" where
  "matchFirstLevel_key dbKey [] tmp result missing =
     Inr (tmp, if match_key tmp dbKey then keyset_insert tmp result else result)"
| "matchFirstLevel_key dbKey (p # ps) tmp result missing =
     bindE (if key_find dbKey (pred_keyword p) = None
            then matchFirstLevel_key dbKey ps (push_key (pred_keyword p) missing tmp) result missing
            else bindE (pred_value p dbKey) (\<lambda>value.
                   (let tmp = push_key (pred_keyword p) value tmp
                    in if pred_match p tmp then matchFirstLevel_key dbKey ps tmp result missing
                       else Inr (tmp, result)))) (\<lambda>(tmp, result).
       bindE (pop_key (pred_keyword p) tmp) (\<lambda>tmp. Inr (tmp, result)))"

definition rule_matchFirstLevel :: "rule \<Rightarrow> key \<Rightarrow> string \<Rightarrow> keyset \<Rightarrow> keyset res" where
  "rule_matchFirstLevel r dbKey missing result =
     bindE (matchFirstLevel_key dbKey (rule_preds r) (new_key None) result missing)
       (\<lambda>(tmp, result). Inr result)"

definition schema_matchFirstLevel :: "schema \<Rightarrow> key \<Rightarrow> keyset \<Rightarrow> string \<Rightarrow> keyset res" where
  "schema_matchFirstLevel sch dbKey result missing =
     foldE (\<lambda>r. rule_matchFirstLevel r dbKey missing) (sch_rules sch) result"

fun matchFirstLevel_rq ::
    "mars_request \<Rightarrow> predicate list \<Rightarrow> key \<Rightarrow> keyset \<Rightarrow> string \<Rightarrow> (key \<times> keyset) res" where
  "matchFirstLevel_rq rq [] tmp result missing = Inr (tmp, keyset_insert tmp result)"
| "matchFirstLevel_rq rq (p # ps) tmp result missing =
     (if rq_has rq (pred_keyword p) then
        bindE (pred_values p rq) (\<lambda>values.
          foldE (\<lambda>value (tmp, result).
            (let tmp = push_key (pred_keyword p) value tmp
             in bindE (if pred_match p tmp then matchFirstLevel_rq rq ps tmp result missing
                       else Inr (tmp, result)) (\<lambda>(tmp, result).
                  bindE (pop_key (pred_keyword p) tmp) (\<lambda>tmp. Inr (tmp, result)))))
            values (tmp, result))
      else
        bindE (matchFirstLevel_rq rq ps (push_key (pred_keyword p) missing tmp) result missing)
          (\<lambda>(tmp, result). bindE (pop_key (pred_keyword p) tmp) (\<lambda>tmp. Inr (tmp, result))))"

definition rule_matchFirstLevel_rq :: "schema \<Rightarrow> rule \<Rightarrow> mars_request \<Rightarrow> string \<Rightarrow> keyset \<Rightarrow> keyset res" where
  "rule_matchFirstLevel_rq sch r rq missing result =
     bindE (matchFirstLevel_rq rq (rule_preds r) (new_key (Some (rule_registry sch [r]))) result missing)
       (\<lambda>(tmp, result). Inr result)"

definition schema_matchFirstLevel_rq :: "schema \<Rightarrow> mars_request \<Rightarrow> keyset \<Rightarrow> string \<Rightarrow> keyset res" where
  "schema_matchFirstLevel_rq sch rq result missing =
     foldE (\<lambda>r. rule_matchFirstLevel_rq sch r rq missing) (sch_rules sch) result"


section \<open>Well-formed schemas\<close>

text \<open>No keyword occurs twice on a path from the top of the schema to a leaf.\<close>

fun rule_wf :: "string set \<Rightarrow> rule \<Rightarrow> bool" and rules_wf :: "string set \<Rightarrow> rule list \<Rightarrow> bool" where
  "rule_wf seen (Rule line preds rules types) \<longleftrightarrow>
     distinct (map pred_keyword preds) \<and> set (map pred_keyword preds) \<inter> seen = {} \<and>
     rules_wf (seen \<union> set (map pred_keyword preds)) rules"
| "rules_wf seen [] \<longleftrightarrow> True"
| "rules_wf seen (r # rs) \<longleftrightarrow> rule_wf seen r \<and> rules_wf seen rs"

lemma rules_wf_all: "rules_wf seen rs \<longleftrightarrow> (\<forall>r \<in> set rs. rule_wf seen r)"
  by (induction rs) auto

lemma rule_wf_preds: "rule_wf seen r \<Longrightarrow> distinct (map pred_keyword (rule_preds r))"
  by (cases r) simp

lemma rule_wf_fresh: "rule_wf seen r \<Longrightarrow> pred_keyword ` set (rule_preds r) \<inter> seen = {}"
  by (cases r) simp

lemma rule_wf_children:
  "rule_wf seen r \<Longrightarrow> rules_wf (seen \<union> pred_keyword ` set (rule_preds r)) (rule_rules r)"
  by (cases r) simp

definition schema_wf :: "schema \<Rightarrow> bool" where
  "schema_wf sch \<longleftrightarrow> rules_wf {} (sch_rules sch)"

section \<open>The loop over the predicates\<close>

definition fresh_for :: "string list \<Rightarrow> key \<Rightarrow> bool" where
  "fresh_for ks key \<longleftrightarrow> key_ok key \<and> distinct ks \<and> set ks \<inter> set (key_names key) = {}"

lemma fresh_Nil [simp]: "fresh_for [] key \<longleftrightarrow> key_ok key"
  by (simp add: fresh_for_def)

lemma fresh_new [simp]: "fresh_for ks (new_key reg) \<longleftrightarrow> distinct ks"
  by (simp add: fresh_for_def) (simp add: new_key_def)

lemma fresh_find: "fresh_for (k # ks) key \<Longrightarrow> key_find key k = None"
  by (auto simp: fresh_for_def find_eq_None key_ok_def)

lemma fresh_push: "fresh_for (k # ks) key \<Longrightarrow> fresh_for ks (push_key k v key)"
  by (frule fresh_find) (auto simp: fresh_for_def key_ok_push)

lemma fresh_pop: "fresh_for (k # ks) key \<Longrightarrow> pop_key k (push_key k v key) = Inr key"
  by (frule fresh_find) (simp add: fresh_for_def key_ok_def)

lemma fresh_push_all: "fresh_for (map fst kvs) key \<Longrightarrow> key_ok (push_all kvs key)"
  unfolding fresh_for_def by (blast intro: push_all_ok)

text \<open>
  All combinations of accepted values for a list of predicates, in the order of the nested
  loops of the code: the first predicate varies slowest.
\<close>

fun combos :: "(predicate \<Rightarrow> string list) \<Rightarrow> predicate list \<Rightarrow> (string \<times> string) list list" where
  "combos vals [] = [[]]"
| "combos vals (p # ps) =
     concat (map (\<lambda>v. map ((#) (pred_keyword p, v)) (combos vals ps)) (vals p))"

lemma combos_keywords: "kvs \<in> set (combos vals ps) \<Longrightarrow> map fst kvs = map pred_keyword ps"
  by (induction ps arbitrary: kvs) auto

lemma combos_iff:
  "kvs \<in> set (combos vals ps) \<longleftrightarrow>
   list_all2 (\<lambda>p (k, v). k = pred_keyword p \<and> v \<in> set (vals p)) ps kvs"
proof (induction ps arbitrary: kvs)
  case (Cons p ps)
  then show ?case by (cases kvs) auto
qed simp

section \<open>First level: the loops compute their specification\<close>

lemma expandFirstLevel_key_eq:
  "fresh_for (map pred_keyword ps) result \<Longrightarrow>
   expandFirstLevel_key dbKey ps result False =
     bindE (level_values dbKey ps) (\<lambda>r.
       Inr (case r of None \<Rightarrow> (result, False) | Some kvs \<Rightarrow> (push_all kvs result, True)))"
proof (induction ps arbitrary: result)
  case (Cons p ps)
  note fresh = Cons.prems[simplified]
  have IH: "expandFirstLevel_key dbKey ps (push_key (pred_keyword p) v result) False =
     bindE (level_values dbKey ps) (\<lambda>r. Inr (case r of None \<Rightarrow> (push_key (pred_keyword p) v result, False)
       | Some kvs \<Rightarrow> (push_all kvs (push_key (pred_keyword p) v result), True)))" for v
    by (rule Cons.IH) (rule fresh_push [OF fresh])
  show ?case
  proof (cases "pred_value p dbKey")
    case (Inr v)
    then show ?thesis
      using fresh_pop [OF fresh]
      by (cases "level_values dbKey ps") (auto simp: IH Let_def split: option.splits)
  qed simp
qed simp

text \<open>The first rule that takes the key.\<close>

fun first_level :: "key \<Rightarrow> rule list \<Rightarrow> (string \<times> string) list option res" where
  "first_level dbKey [] = Inr None"
| "first_level dbKey (r # rs) =
     bindE (level_values dbKey (rule_preds r)) (\<lambda>kvs.
       case kvs of Some _ \<Rightarrow> Inr kvs | None \<Rightarrow> first_level dbKey rs)"

lemma schema_first_key_found: "schema_first_key dbKey rs result True = Inr (result, True)"
  by (cases rs) simp_all

lemma schema_first_key_eq:
  assumes "\<forall>r \<in> set rs. fresh_for (map pred_keyword (rule_preds r)) result"
  shows "schema_first_key dbKey rs result False =
     bindE (first_level dbKey rs) (\<lambda>r.
       Inr (case r of None \<Rightarrow> (result, False) | Some kvs \<Rightarrow> (push_all kvs result, True)))"
  using assms
proof (induction rs)
  case (Cons r rs)
  then show ?case
    by (cases "level_values dbKey (rule_preds r)")
      (auto simp: expandFirstLevel_key_eq schema_first_key_found split: option.splits)
qed simp

lemma schema_wf_fresh:
  "schema_wf sch \<Longrightarrow> \<forall>r \<in> set (sch_rules sch). fresh_for (map pred_keyword (rule_preds r)) (new_key reg)"
  by (auto simp: schema_wf_def rules_wf_all rule_wf_preds)

lemma first_level_Some:
  "first_level dbKey rs = Inr (Some kvs) \<Longrightarrow>
   \<exists>pre r post. rs = pre @ r # post \<and> level_values dbKey (rule_preds r) = Inr (Some kvs) \<and>
     (\<forall>r' \<in> set pre. level_values dbKey (rule_preds r') = Inr None)"
proof (induction rs)
  case (Cons r rs)
  from Cons.prems consider "level_values dbKey (rule_preds r) = Inr (Some kvs)"
    | "level_values dbKey (rule_preds r) = Inr None" "first_level dbKey rs = Inr (Some kvs)"
    by (auto simp: bindE_eq_Inr split: option.splits)
  then show ?case
  proof cases
    case 1
    then show ?thesis by (intro exI [of _ "[]"]) auto
  next
    case 2
    with Cons.IH obtain pre r' post where "rs = pre @ r' # post"
      and "level_values dbKey (rule_preds r') = Inr (Some kvs)"
      and "\<forall>r' \<in> set pre. level_values dbKey (rule_preds r') = Inr None" by blast
    with 2 show ?thesis by (intro exI [of _ "r # pre"]) auto
  qed
qed simp

lemma first_level_None:
  "first_level dbKey rs = Inr None \<longleftrightarrow> (\<forall>r \<in> set rs. level_values dbKey (rule_preds r) = Inr None)"
  by (induction rs) (auto simp: bindE_eq_Inr split: option.splits)


text \<open>What a rule searches for when it is given part of a first-level key.\<close>

fun pattern_values :: "key \<Rightarrow> string \<Rightarrow> predicate list \<Rightarrow> (string \<times> string) list option" where
  "pattern_values dbKey missing [] = Some []"
| "pattern_values dbKey missing (p # ps) =
     (case key_find dbKey (pred_keyword p) of
        None \<Rightarrow> map_option ((#) (pred_keyword p, missing)) (pattern_values dbKey missing ps)
      | Some v \<Rightarrow>
          (let w = (case pred_matcher p of MatchHidden d \<Rightarrow> d | _ \<Rightarrow> v)
           in if accepts (pred_matcher p) w
              then map_option ((#) (pred_keyword p, w)) (pattern_values dbKey missing ps)
              else None))"

lemma matchFirstLevel_key_eq:
  "fresh_for (map pred_keyword ps) tmp \<Longrightarrow>
   matchFirstLevel_key dbKey ps tmp result missing =
     Inr (tmp, case pattern_values dbKey missing ps of
                 None \<Rightarrow> result
               | Some kvs \<Rightarrow> if match_key (push_all kvs tmp) dbKey
                             then keyset_insert (push_all kvs tmp) result else result)"
proof (induction ps arbitrary: tmp)
  case (Cons p ps)
  note fresh = Cons.prems[simplified]
  have IH: "matchFirstLevel_key dbKey ps (push_key (pred_keyword p) v tmp) result missing =
     Inr (push_key (pred_keyword p) v tmp, case pattern_values dbKey missing ps of
                 None \<Rightarrow> result
               | Some kvs \<Rightarrow> if match_key (push_all kvs (push_key (pred_keyword p) v tmp)) dbKey
                             then keyset_insert (push_all kvs (push_key (pred_keyword p) v tmp)) result
                             else result)" for v
    by (rule Cons.IH) (rule fresh_push [OF fresh])
  show ?case
  proof (cases "key_find dbKey (pred_keyword p)")
    case None
    then show ?thesis
      using fresh_pop [OF fresh] by (simp add: IH split: option.splits)
  next
    case (Some v)
    then show ?thesis
      using fresh_pop [OF fresh]
      by (simp add: value_found [OF Some] IH Let_def split: option.splits)
  qed
qed simp

lemma pattern_keywords:
  "pattern_values dbKey missing ps = Some kvs \<Longrightarrow> map fst kvs = map pred_keyword ps"
  by (induction ps arbitrary: kvs) (auto simp: Let_def split: option.splits if_splits)

lemma rule_matchFirstLevel_eq:
  assumes "distinct (map pred_keyword (rule_preds r))"
  shows "rule_matchFirstLevel r dbKey missing result =
     Inr (case pattern_values dbKey missing (rule_preds r) of
            None \<Rightarrow> result
          | Some kvs \<Rightarrow> if match_key (push_all kvs (new_key None)) dbKey
                        then keyset_insert (push_all kvs (new_key None)) result else result)"
  using assms by (simp add: rule_matchFirstLevel_def matchFirstLevel_key_eq)

section \<open>Sets of keys\<close>

definition keyset_dicts :: "keyset \<Rightarrow> (string, string) dict set" where
  "keyset_dicts s = key_dict ` snd ` set s"

definition keyset_ok :: "keyset \<Rightarrow> bool" where
  "keyset_ok s \<longleftrightarrow> dict_ok s \<and> (\<forall>(d, k) \<in> set s. d = key_dict k)"

lemma keyset_ok_Nil [simp]: "keyset_ok []"
  by (simp add: keyset_ok_def)

lemma keyset_member:
  assumes "keyset_ok s"
  shows "d \<in> keyset_dicts s \<longleftrightarrow> map_of s d \<noteq> None"
proof -
  have "keyset_dicts s = fst ` set s"
    using assms by (force simp: keyset_dicts_def keyset_ok_def image_iff)
  then show ?thesis by (simp add: map_of_eq_None_iff)
qed

lemma keyset_ok_insert:
  assumes "keyset_ok s"
  shows "keyset_ok (keyset_insert k s)"
proof -
  have "\<forall>(d, k') \<in> set (dict_put (key_dict k) k s). d = key_dict k'"
    using assms dict_ok_put [of s "key_dict k" k]
    by (auto simp: keyset_ok_def dict_ok_in_set split: if_splits)
  with assms show ?thesis by (simp add: keyset_insert_def keyset_ok_def)
qed

lemma keyset_dicts_insert:
  assumes "keyset_ok s"
  shows "keyset_dicts (keyset_insert k s) = insert (key_dict k) (keyset_dicts s)"
proof -
  have "d \<in> keyset_dicts (keyset_insert k s) \<longleftrightarrow> d \<in> insert (key_dict k) (keyset_dicts s)" for d
    unfolding keyset_member [OF keyset_ok_insert [OF assms]] insert_iff keyset_member [OF assms]
    by (simp add: keyset_insert_def)
  then show ?thesis by blast
qed

lemma keyset_fold_insert:
  "keyset_ok s \<Longrightarrow> keyset_ok (fold keyset_insert ks s) \<and>
   keyset_dicts (fold keyset_insert ks s) = key_dict ` set ks \<union> keyset_dicts s"
  by (induction ks arbitrary: s) (auto simp: keyset_ok_insert keyset_dicts_insert)

text \<open>The patterns of a schema for a partial key, rule by rule.\<close>

definition schema_patterns :: "schema \<Rightarrow> key \<Rightarrow> string \<Rightarrow> key list" where
  "schema_patterns sch dbKey missing =
     filter (\<lambda>k. match_key k dbKey)
       (map (\<lambda>kvs. push_all kvs (new_key None))
         (List.map_filter (\<lambda>r. pattern_values dbKey missing (rule_preds r)) (sch_rules sch)))"

lemma schema_matchFirstLevel_fold:
  assumes "schema_wf sch"
  shows "schema_matchFirstLevel sch dbKey result missing =
     Inr (fold keyset_insert (schema_patterns sch dbKey missing) result)"
proof -
  have "foldE (\<lambda>r. rule_matchFirstLevel r dbKey missing) rs result =
     Inr (fold keyset_insert (filter (\<lambda>k. match_key k dbKey)
       (map (\<lambda>kvs. push_all kvs (new_key None))
         (List.map_filter (\<lambda>r. pattern_values dbKey missing (rule_preds r)) rs))) result)"
    if "\<forall>r \<in> set rs. distinct (map pred_keyword (rule_preds r))" for rs
    using that
    by (induction rs arbitrary: result)
      (auto simp: rule_matchFirstLevel_eq map_filter_simps split: option.splits)
  moreover have "\<forall>r \<in> set (sch_rules sch). distinct (map pred_keyword (rule_preds r))"
    using assms by (auto simp: schema_wf_def rules_wf_all dest: rule_wf_preds)
  ultimately show ?thesis
    by (simp add: schema_matchFirstLevel_def schema_patterns_def)
qed


section \<open>First level of a request\<close>

lemma try_values_stop: "try_values rq p ps [] result found = Inr (result, found)"
  by simp

lemma expandFirstLevel_rq_eq:
  assumes "fresh_for (map pred_keyword ps) result"
    and "\<forall>p \<in> set ps. pred_values p rq = Inr (vals p)"
  shows "expandFirstLevel_rq rq ps result False =
     Inr (case combos (\<lambda>p. filter (accepts (pred_matcher p)) (vals p)) ps of
            [] \<Rightarrow> (result, False)
          | kvs # _ \<Rightarrow> (push_all kvs result, True))"
  using assms
proof (induction ps arbitrary: result)
  case (Cons p ps)
  let ?cs = "combos (\<lambda>p. filter (accepts (pred_matcher p)) (vals p)) ps"
  note fresh = Cons.prems(1)[simplified]
  have IH: "expandFirstLevel_rq rq ps (push_key (pred_keyword p) v result) False =
     Inr (case ?cs of [] \<Rightarrow> (push_key (pred_keyword p) v result, False)
          | kvs # _ \<Rightarrow> (push_all kvs (push_key (pred_keyword p) v result), True))" for v
    by (rule Cons.IH) (use fresh_push [OF fresh] Cons.prems(2) in auto)
  have "try_values rq p ps vs result False =
     Inr (case concat (map (\<lambda>v. map ((#) (pred_keyword p, v)) ?cs) (filter (accepts (pred_matcher p)) vs)) of
            [] \<Rightarrow> (result, False)
          | kvs # _ \<Rightarrow> (push_all kvs result, True))" for vs
  proof (induction vs)
    case (Cons v vs)
    then show ?case
      using fresh_pop [OF fresh] by (cases ?cs) (simp_all add: IH Let_def)
  qed simp
  with Cons.prems(2) show ?case by simp
qed simp

text \<open>What the predicates contribute to the search for a request.\<close>

definition request_values :: "mars_request \<Rightarrow> string \<Rightarrow> (predicate \<Rightarrow> string list) \<Rightarrow> predicate \<Rightarrow> string list"
where
  "request_values rq missing vals p =
     (if rq_has rq (pred_keyword p) then filter (accepts (pred_matcher p)) (vals p) else [missing])"

lemma matchFirstLevel_rq_eq:
  assumes "fresh_for (map pred_keyword ps) tmp"
    and "\<forall>p \<in> set ps. rq_has rq (pred_keyword p) \<longrightarrow> pred_values p rq = Inr (vals p)"
  shows "matchFirstLevel_rq rq ps tmp result missing =
     Inr (tmp, fold keyset_insert (map (\<lambda>kvs. push_all kvs tmp) (combos (request_values rq missing vals) ps)) result)"
  using assms
proof (induction ps arbitrary: tmp result)
  case (Cons p ps)
  let ?cs = "combos (request_values rq missing vals) ps"
  note fresh = Cons.prems(1)[simplified]
  have IH: "matchFirstLevel_rq rq ps (push_key (pred_keyword p) v tmp) result missing =
     Inr (push_key (pred_keyword p) v tmp,
       fold keyset_insert (map (\<lambda>kvs. push_all kvs (push_key (pred_keyword p) v tmp)) ?cs) result)" for v result
    by (rule Cons.IH) (use fresh_push [OF fresh] Cons.prems(2) in auto)
  show ?case
  proof (cases "rq_has rq (pred_keyword p)")
    case True
    have "foldE (\<lambda>value (tmp, result).
            (let tmp = push_key (pred_keyword p) value tmp
             in bindE (if pred_match p tmp then matchFirstLevel_rq rq ps tmp result missing
                       else Inr (tmp, result)) (\<lambda>(tmp, result).
                  bindE (pop_key (pred_keyword p) tmp) (\<lambda>tmp. Inr (tmp, result))))) vs (tmp, result) =
       Inr (tmp, fold keyset_insert (map (\<lambda>kvs. push_all kvs tmp)
         (concat (map (\<lambda>v. map ((#) (pred_keyword p, v)) ?cs) (filter (accepts (pred_matcher p)) vs)))) result)" for vs
      by (induction vs arbitrary: result) (simp_all add: IH Let_def fresh_pop [OF fresh] comp_def)
    moreover have "request_values rq missing vals p = filter (accepts (pred_matcher p)) (vals p)"
      using True by (simp add: request_values_def)
    ultimately show ?thesis using True Cons.prems(2) by simp
  next
    case False
    then have "request_values rq missing vals p = [missing]"
      by (simp add: request_values_def)
    with False show ?thesis by (simp add: IH fresh_pop [OF fresh] comp_def)
  qed
qed simp

lemma request_ok_values:
  "request_ok rq \<Longrightarrow> rq_has rq (pred_keyword p) \<Longrightarrow>
   pred_values p rq = Inr (case pred_matcher p of MatchHidden d \<Rightarrow> [d] | _ \<Rightarrow> rq_values_ok rq (pred_keyword p))"
  by (cases "pred_matcher p") (auto simp: pred_values_def request_ok_def)

section \<open>Finding the rule of a database and an index\<close>

text \<open>A located rule matches a list of keys when each of its ancestors matches the key of its level.\<close>

lemma rule_match_defs: "rule_match r key \<longleftrightarrow> (\<forall>p \<in> set (rule_preds r). pred_match p key)"
  by (simp add: rule_match_def list_all_iff)


definition first_of :: "'a list \<Rightarrow> 'a option" where
  "first_of xs = (case xs of [] \<Rightarrow> None | x # _ \<Rightarrow> Some x)"

lemma first_of_simps [simp]: "first_of [] = None" "first_of (x # xs) = Some x"
  by (simp_all add: first_of_def)

lemma first_of_append:
  "first_of (xs @ ys) = (case first_of xs of None \<Rightarrow> first_of ys | Some x \<Rightarrow> Some x)"
  by (cases xs) simp_all

definition index_rules :: "schema \<Rightarrow> key \<Rightarrow> key \<Rightarrow> located list" where
  "index_rules sch dbKey idxKey =
     concat (map (\<lambda>r0. if rule_match r0 dbKey then
       concat (map (\<lambda>r1. if rule_match r1 idxKey then
         map (\<lambda>r2. [r2, r1, r0]) (rule_rules r1) else []) (rule_rules r0)) else []) (sch_rules sch))"

lemma ruleFor_any_leaf:
  "depth = length keys \<Longrightarrow>
   ruleFor_any parents rs keys depth = first_of (map (\<lambda>r. r # parents) rs)"
proof (cases rs)
  case (Cons r rs')
  assume "depth = length keys"
  with Cons show ?thesis by (cases r) simp
qed simp

lemma ruleFor_any_inner:
  assumes "depth \<noteq> length keys"
  shows "ruleFor_any parents rs keys depth =
     first_of (concat (map (\<lambda>r. if rule_match r (keys ! depth) then
       (case ruleFor_any (r # parents) (rule_rules r) keys (depth + 1) of
          None \<Rightarrow> [] | Some path \<Rightarrow> [path]) else []) rs))"
proof (induction rs)
  case (Cons r rs)
  with assms show ?case
    by (cases r) (simp add: Let_def first_of_append split: option.splits)
qed simp

lemma first_of_concat:
  "first_of (concat (map (\<lambda>x. if P x then (case first_of (f x) of None \<Rightarrow> [] | Some y \<Rightarrow> [y]) else []) xs)) =
   first_of (concat (map (\<lambda>x. if P x then f x else []) xs))"
  by (induction xs) (auto simp: first_of_append split: option.splits)

section \<open>The values of an index entry\<close>

lemma split_at_append_gen: "split_at c (s @ c # t) = split_at c s @ split_at c t"
proof (induction s)
  case (Cons x s)
  then show ?case by (cases "split_at c s") auto
qed simp

lemma split_at_join_concat:
  "vs \<noteq> [] \<Longrightarrow> split_at c (join_with [c] vs) = concat (map (split_at c) vs)"
  by (induction "[c]" vs rule: join_with.induct) (auto simp: split_at_append_gen)

definition fill_all :: "predicate list \<Rightarrow> string list \<Rightarrow> key \<Rightarrow> key" where
  "fill_all ps vs key = fold (\<lambda>(p, v) key. pred_fill p key v) (zip ps vs) key"

text \<open>The tokens a value has in the text of an entry: two for a quantile written as \<open>a:b\<close>.\<close>

definition value_tokens :: "bool \<Rightarrow> predicate \<Rightarrow> string \<Rightarrow> bool" where
  "value_tokens extra p v \<longleftrightarrow>
     (if extra \<and> pred_keyword p = ''quantile''
      then \<exists>a b. split_at CHR '':'' v = [a, b] \<and> v = a @ '':'' @ b
      else split_at CHR '':'' v = [v])"

lemma fill_loop_tokens:
  "list_all2 (value_tokens extra) ps vs \<Longrightarrow>
   fill_loop extra ps (concat (map (split_at CHR '':'') vs)) key = Inr (fill_all ps vs key)"
proof (induction ps arbitrary: vs key)
  case Nil
  then show ?case by (simp add: fill_all_def)
next
  case (Cons p ps)
  then obtain v vs' where vs: "vs = v # vs'" and v: "value_tokens extra p v"
    and rest: "list_all2 (value_tokens extra) ps vs'" by (cases vs) auto
  have "fill_loop extra (p # ps) (concat (map (split_at CHR '':'') (v # vs'))) key =
      fill_loop extra ps (concat (map (split_at CHR '':'') vs')) (pred_fill p key v)"
    using v by (auto simp: value_tokens_def split: if_splits)
  also have "\<dots> = Inr (fill_all ps vs' (pred_fill p key v))"
    by (rule Cons.IH [OF rest])
  finally show ?case by (simp add: vs fill_all_def)
qed

definition plain_value :: "predicate \<Rightarrow> string \<Rightarrow> bool" where
  "plain_value p v \<longleftrightarrow> CHR '':'' \<notin> set v \<or>
     (pred_keyword p = ''quantile'' \<and>
      (\<exists>a b. v = a @ '':'' @ b \<and> CHR '':'' \<notin> set a \<and> CHR '':'' \<notin> set b))"

lemma all_single: "\<forall>v \<in> set vs. split_at c v = [v] \<Longrightarrow> concat (map (split_at c) vs) = vs"
  by (induction vs) auto

lemma length_tokens:
  assumes "list_all2 (value_tokens extra) ps vs" and "distinct (map pred_keyword ps)"
    and "extra \<longleftrightarrow> (\<exists>v \<in> set vs. split_at CHR '':'' v \<noteq> [v])"
  shows "length (concat (map (split_at CHR '':'') vs)) = length ps + (if extra then 1 else 0)"
proof (cases extra)
  case False
  with assms(3) have "\<forall>v \<in> set vs. split_at CHR '':'' v = [v]" by auto
  from all_single [OF this] False assms(1) show ?thesis by (simp add: list_all2_lengthD)
next
  case True
  with assms(3) obtain v where "v \<in> set vs" and v: "split_at CHR '':'' v \<noteq> [v]" by auto
  then obtain vs1 vs2 where vs: "vs = vs1 @ v # vs2" by (auto simp: in_set_conv_decomp)
  with assms(1) obtain ps1 p ps2 where ps: "ps = ps1 @ p # ps2"
    and 1: "list_all2 (value_tokens extra) ps1 vs1" and p: "value_tokens extra p v"
    and 2: "list_all2 (value_tokens extra) ps2 vs2"
    by (auto simp: list_all2_append2 list_all2_Cons2)
  from p v True have q: "pred_keyword p = ''quantile''" and two: "length (split_at CHR '':'' v) = 2"
    by (auto simp: value_tokens_def split: if_splits)
  have single: "list_all2 (value_tokens extra) qs us \<Longrightarrow> ''quantile'' \<notin> pred_keyword ` set qs \<Longrightarrow>
      concat (map (split_at CHR '':'') us) = us" for qs us
    by (induction rule: list_all2_induct) (auto simp: value_tokens_def)
  have "''quantile'' \<notin> pred_keyword ` set ps1" and "''quantile'' \<notin> pred_keyword ` set ps2"
    using assms(2) q by (auto simp: ps)
  then have "concat (map (split_at CHR '':'') vs1) = vs1" and "concat (map (split_at CHR '':'') vs2) = vs2"
    using single [OF 1] single [OF 2] by auto
  then show ?thesis
    using True two 1 2 by (simp add: vs ps list_all2_lengthD)
qed

text \<open>What \<open>fill\<close> stores for a value: an empty value of an optional keyword is not stored.\<close>

definition stored :: "predicate \<Rightarrow> string \<Rightarrow> string option" where
  "stored p v =
     (case pred_matcher p of MatchOptional _ \<Rightarrow> if v = [] then None else Some v | _ \<Rightarrow> Some v)"

lemma find_pred_fill:
  "key_find key (pred_keyword p) = None \<Longrightarrow>
   key_find (pred_fill p key v) k = (if k = pred_keyword p then stored p v else key_find key k)"
  by (cases "pred_matcher p") (auto simp: pred_fill_def stored_def)

lemma fill_all_find:
  assumes "distinct (map pred_keyword ps)" and "length vs = length ps" and "i < length ps"
    and "\<And>p. p \<in> set ps \<Longrightarrow> key_find key (pred_keyword p) = None"
  shows "key_find (fill_all ps vs key) (pred_keyword (ps ! i)) = stored (ps ! i) (vs ! i)"
  using assms
proof (induction ps arbitrary: vs key i)
  case (Cons p ps)
  then obtain v vs' where vs: "vs = v # vs'" by (cases vs) auto
  have fill: "key_find (pred_fill p key v) k = (if k = pred_keyword p then stored p v else key_find key k)" for k
    by (rule find_pred_fill) (simp add: Cons.prems(4))
  have later: "key_find (fill_all ps vs' (pred_fill p key v)) (pred_keyword p) = key_find (pred_fill p key v) (pred_keyword p)"
  proof -
    have "pred_keyword p \<notin> pred_keyword ` set ps \<Longrightarrow>
        key_find (fill_all ps us k) (pred_keyword p) = key_find k (pred_keyword p)" for us k
    proof (induction ps arbitrary: us k)
      case (Cons q ps)
      then show ?case
        by (cases us; cases "pred_matcher q") (auto simp: fill_all_def pred_fill_def)
    qed (simp add: fill_all_def)
    then show ?thesis using Cons.prems(1) by simp
  qed
  show ?case
  proof (cases i)
    case 0
    with later show ?thesis by (simp add: vs fill_all_def fill)
  next
    case (Suc j)
    have "key_find (fill_all ps vs' (pred_fill p key v)) (pred_keyword (ps ! j)) = stored (ps ! j) (vs' ! j)"
    proof (rule Cons.IH)
      show "key_find (pred_fill p key v) (pred_keyword q) = None" if "q \<in> set ps" for q
      proof -
        have "pred_keyword q \<noteq> pred_keyword p"
          using distinct_map_head [OF Cons.prems(1) that] .
        then show ?thesis using Cons.prems(4) [of q] that by (simp add: fill)
      qed
    qed (use Cons.prems vs Suc in auto)
    then show ?thesis by (simp add: vs Suc fill_all_def)
  qed
qed simp


section \<open>Properties\<close>

lemma push_all_new_find:
  assumes "distinct (map fst kvs)"
  shows "key_find (push_all kvs (new_key reg)) k = map_of kvs k"
proof -
  have "map_of (rev kvs) = map_of kvs"
    using assms by (intro map_of_inject_set [THEN iffD2]) (auto simp: rev_map [symmetric])
  then show ?thesis
    by (simp add: push_all_find) (simp add: key_find_def new_key_def split: option.splits)
qed

lemma push_all_new_ok: "distinct (map fst kvs) \<Longrightarrow> key_ok (push_all kvs (new_key reg))"
  by (rule fresh_push_all) simp

lemma names_new [simp]: "key_names (new_key reg) = []"
  by (simp add: new_key_def)

subsection \<open>The first level for a key\<close>

text \<open>
  \<open>expandFirstLevel\<close> picks the first rule that takes the key. When it reports success, the
  result has exactly the keywords of the predicates of one rule of the schema, in their order,
  satisfies every predicate of it, and no earlier rule took the key; when it reports failure, no
  rule takes the key and the result is as empty as it was.
\<close>
lemma expandFirstLevel_first_rule:
  assumes "schema_wf sch" and "schema_expandFirstLevel sch dbKey (new_key reg) = Inr (result, found)"
  shows "if found
    then key_ok result \<and> (\<exists>pre r post kvs. sch_rules sch = pre @ r # post \<and>
      level_values dbKey (rule_preds r) = Inr (Some kvs) \<and> result = push_all kvs (new_key reg) \<and>
      key_names result = map pred_keyword (rule_preds r) \<and> rule_match r result \<and>
      (\<forall>r' \<in> set pre. level_values dbKey (rule_preds r') = Inr None))
    else result = new_key reg \<and>
      (\<forall>r \<in> set (sch_rules sch). level_values dbKey (rule_preds r) = Inr None)"
proof -
  note eq = schema_first_key_eq [OF schema_wf_fresh [OF assms(1)], of dbKey reg]
  show ?thesis
  proof (cases found)
    case True
    with assms(2) obtain kvs where first: "first_level dbKey (sch_rules sch) = Inr (Some kvs)"
      and result: "result = push_all kvs (new_key reg)"
      by (auto simp: schema_expandFirstLevel_def eq bindE_eq_Inr split: option.splits)
    obtain pre r post where split: "sch_rules sch = pre @ r # post"
      and r: "level_values dbKey (rule_preds r) = Inr (Some kvs)"
      and pre: "\<forall>r' \<in> set pre. level_values dbKey (rule_preds r') = Inr None"
      using first_level_Some [OF first] by blast
    have "rule_wf {} r" using assms(1) split by (auto simp: schema_wf_def rules_wf_all)
    then have dist: "distinct (map pred_keyword (rule_preds r))" by (rule rule_wf_preds)
    note keys = level_values_keywords [OF r]
    have "rule_match r result"
      using level_values_match [OF r dist] by (simp add: rule_match_defs result)
    moreover have "key_ok result"
      unfolding result by (rule push_all_new_ok) (use dist keys in simp)
    moreover have "key_names result = map pred_keyword (rule_preds r)"
      using keys by (simp add: result push_all_names)
    ultimately show ?thesis
      using True split r pre result by (simp only: if_True) blast
  next
    case False
    with assms(2) have "first_level dbKey (sch_rules sch) = Inr None" and "result = new_key reg"
      by (auto simp: schema_expandFirstLevel_def eq bindE_eq_Inr split: option.splits)
    with False show ?thesis by (simp add: first_level_None)
  qed
qed

definition sample_schema :: schema where
  "sample_schema = \<lparr>sch_types = [],
     sch_rules =
       [Rule 1 [\<lparr>pred_keyword = ''class'', pred_matcher = MatchValue ''rd''\<rparr>,
                \<lparr>pred_keyword = ''expver'', pred_matcher = MatchAlways\<rparr>]
          [Rule 1 [\<lparr>pred_keyword = ''type'', pred_matcher = MatchAlways\<rparr>]
             [Rule 1 [\<lparr>pred_keyword = ''step'', pred_matcher = MatchAlways\<rparr>] [] []] []] [],
        Rule 5 [\<lparr>pred_keyword = ''class'', pred_matcher = MatchAny [''ea'', ''od'']\<rparr>,
                \<lparr>pred_keyword = ''domain'', pred_matcher = MatchOptional ''g''\<rparr>]
          [Rule 5 [\<lparr>pred_keyword = ''type'', pred_matcher = MatchAlways\<rparr>]
             [Rule 5 [\<lparr>pred_keyword = ''step'', pred_matcher = MatchAlways\<rparr>,
                      \<lparr>pred_keyword = ''quantile'', pred_matcher = MatchOptional []\<rparr>] [] []] []] []]\<rparr>"

lemma sample_schema_wf: "schema_wf sample_schema"
  by (simp add: schema_wf_def sample_schema_def)

definition od_key :: key where
  "od_key = key_of_dict [(''class'', ''od''), (''step'', ''12''), (''type'', ''fc'')] None"

lemma expandFirstLevel_first_rule_witness:
  "\<exists>result. schema_expandFirstLevel sample_schema od_key (new_key None) = Inr (result, True) \<and>
     key_ok result \<and> key_names result = [''class'', ''domain'']"
proof -
  obtain result where result: "schema_expandFirstLevel sample_schema od_key (new_key None) = Inr (result, True)"
    and "key_names result = [''class'', ''domain'']"
    by (simp add: schema_expandFirstLevel_def sample_schema_def od_key_def key_of_dict_def pred_value_def
        pred_match_def get_key_def key_find_def push_key_def pop_key_def new_key_def dict_erase_def)
  then show ?thesis using expandFirstLevel_first_rule [OF sample_schema_wf result] by auto
qed

text \<open>
  A keyword that the first rule demands and the key does not have is an error of the whole
  expansion: the exception of \<open>Key::get\<close> leaves \<open>expandFirstLevel\<close>, and the later rules, whatever
  they are, are not tried. In the sample schema the second rule would take the key.
\<close>
lemma expandFirstLevel_missing_throws:
  assumes "sch_rules sch = r # rs" and "rule_preds r = p # ps"
    and "\<not> pred_optional p" and "key_find dbKey (pred_keyword p) = None"
  shows "schema_expandFirstLevel sch dbKey result = Inl (SeriousBug ''Key::get() failed'')"
proof -
  have "pred_value p dbKey = Inl (SeriousBug ''Key::get() failed'')"
    using assms(3,4) by (cases "pred_matcher p") (simp_all add: pred_value_def pred_optional_def get_key_def)
  with assms(1,2) show ?thesis by (simp add: schema_expandFirstLevel_def)
qed

lemma expandFirstLevel_missing_throws_witness:
  "schema_expandFirstLevel
     \<lparr>sch_types = [], sch_rules =
        [Rule 1 [\<lparr>pred_keyword = ''expver'', pred_matcher = MatchAlways\<rparr>] [] [],
         Rule 2 [\<lparr>pred_keyword = ''class'', pred_matcher = MatchAlways\<rparr>] [] []]\<rparr> od_key (new_key None) =
     Inl (SeriousBug ''Key::get() failed'')"
  by (rule expandFirstLevel_missing_throws
        [where r = "Rule 1 [\<lparr>pred_keyword = ''expver'', pred_matcher = MatchAlways\<rparr>] [] []"
          and rs = "[Rule 2 [\<lparr>pred_keyword = ''class'', pred_matcher = MatchAlways\<rparr>] [] []]"
          and p = "\<lparr>pred_keyword = ''expver'', pred_matcher = MatchAlways\<rparr>" and ps = "[]"])
    (simp_all add: od_key_def key_of_dict_def key_find_def pred_optional_def)


subsection \<open>Searching with part of a key\<close>

lemma map_of_map_value: "map_of (map (\<lambda>(k, v). (k, f k v)) kvs) k = map_option (f k) (map_of kvs k)"
  by (induction kvs) auto

lemma pattern_of_level:
  assumes "level_values field ps = Inr (Some kvs)" and "distinct (map pred_keyword ps)"
    and "\<forall>p \<in> set ps. \<forall>v. key_find dbKey (pred_keyword p) = Some v \<longrightarrow> map_of kvs (pred_keyword p) = Some v"
  shows "pattern_values dbKey missing ps =
     Some (map (\<lambda>(k, v). (k, if key_find dbKey k = None then missing else v)) kvs)"
  using assms
proof (induction ps arbitrary: kvs)
  case (Cons p ps)
  from Cons.prems(1) obtain v kvs' where v: "pred_value p field = Inr v"
    and acc: "accepts (pred_matcher p) v" and rest: "level_values field ps = Inr (Some kvs')"
    and kvs: "kvs = (pred_keyword p, v) # kvs'"
    by (auto simp: bindE_eq_Inr split: if_splits)
  have "pattern_values dbKey missing ps =
     Some (map (\<lambda>(k, v). (k, if key_find dbKey k = None then missing else v)) kvs')"
  proof (rule Cons.IH [OF rest])
    show "\<forall>q \<in> set ps. \<forall>w. key_find dbKey (pred_keyword q) = Some w \<longrightarrow> map_of kvs' (pred_keyword q) = Some w"
    proof (intro ballI allI impI)
      fix q w
      assume q: "q \<in> set ps" and w: "key_find dbKey (pred_keyword q) = Some w"
      have "pred_keyword q \<noteq> pred_keyword p" using distinct_map_head [OF Cons.prems(2) q] .
      with Cons.prems(3) q w show "map_of kvs' (pred_keyword q) = Some w" by (auto simp: kvs)
    qed
  qed (use Cons.prems(2) in simp)
  moreover have "w = v" if "key_find dbKey (pred_keyword p) = Some w" for w
    using Cons.prems(3) that by (auto simp: kvs)
  moreover have "(case pred_matcher p of MatchHidden d \<Rightarrow> d | _ \<Rightarrow> v) = v"
    using v by (cases "pred_matcher p") (simp_all add: pred_value_def)
  ultimately show ?case
    using acc by (cases "key_find dbKey (pred_keyword p)") (simp_all add: kvs)
qed simp

text \<open>
  C22: No database is lost in a search by part of its key. If some field expands to a first-level
  key of the schema, and the search key gives values of that key for some of its keywords, then
  \<open>matchFirstLevel\<close> succeeds and its result holds a pattern with the same keywords that has the
  value of the database's key for each keyword the search gives, and the wildcard for the others.
\<close>
theorem matchFirstLevel_complete:
  assumes "schema_wf sch" and "r \<in> set (sch_rules sch)"
    and "level_values field (rule_preds r) = Inr (Some kvs)"
    and "\<forall>k v. key_find dbKey k = Some v \<longrightarrow> key_find (push_all kvs (new_key reg)) k = Some v"
    and "key_ok dbKey"
  shows "\<exists>res pat. schema_matchFirstLevel sch dbKey [] missing = Inr res \<and>
    key_dict pat \<in> keyset_dicts res \<and> key_names pat = map pred_keyword (rule_preds r) \<and>
    (\<forall>k v. key_find (push_all kvs (new_key reg)) k = Some v \<longrightarrow>
       key_find pat k = Some (if key_find dbKey k = None then missing else v))"
proof -
  have wf: "rule_wf {} r" using assms(1,2) by (auto simp: schema_wf_def rules_wf_all)
  note keys = level_values_keywords [OF assms(3)]
  have dist: "distinct (map fst kvs)" unfolding keys by (rule rule_wf_preds [OF wf])
  let ?pat_kvs = "map (\<lambda>(k, v). (k, if key_find dbKey k = None then missing else v)) kvs"
  let ?pat = "push_all ?pat_kvs (new_key None)"
  have fst_pat: "map fst ?pat_kvs = map fst kvs" by (simp add: comp_def case_prod_beta)
  have full: "key_find (push_all kvs (new_key reg)) k = map_of kvs k" for k
    by (rule push_all_new_find [OF dist])
  have pat: "key_find ?pat k = map_option (\<lambda>v. if key_find dbKey k = None then missing else v) (map_of kvs k)" for k
    using push_all_new_find [of ?pat_kvs None k, unfolded fst_pat, OF dist] by (simp only: map_of_map_value)
  have "pattern_values dbKey missing (rule_preds r) = Some ?pat_kvs"
    by (rule pattern_of_level [OF assms(3) rule_wf_preds [OF wf]]) (use assms(4) full in simp)
  moreover have "match_key ?pat dbKey"
  proof -
    have "case key_find ?pat k of None \<Rightarrow> False | Some w \<Rightarrow> w = v \<or> v = []" if "(k, v) \<in> set (key_dict dbKey)" for k v
    proof -
      from that assms(5) have v: "key_find dbKey k = Some v"
        by (simp add: key_find_def key_ok_def dict_ok_in_set)
      with assms(4) full pat have "key_find ?pat k = Some v" by simp
      then show ?thesis by simp
    qed
    then show ?thesis by (auto simp: match_key_def list_all_iff)
  qed
  ultimately have "?pat \<in> set (schema_patterns sch dbKey missing)"
    using assms(2) by (force simp: schema_patterns_def map_filter_def)
  then have "key_dict ?pat \<in> keyset_dicts (fold keyset_insert (schema_patterns sch dbKey missing) [])"
    using keyset_fold_insert [OF keyset_ok_Nil] by simp
  moreover have "key_names ?pat = map pred_keyword (rule_preds r)"
    by (simp only: push_all_names fst_pat keys names_new append_Nil)
  ultimately show ?thesis
    using pat full by (intro exI [of _ "fold keyset_insert (schema_patterns sch dbKey missing) []"] exI [of _ ?pat])
      (simp add: schema_matchFirstLevel_fold [OF assms(1)])
qed


lemma matchFirstLevel_complete_witness:
  "\<exists>res pat. schema_matchFirstLevel sample_schema (key_of_dict [(''class'', ''od'')] None) [] ''*'' = Inr res \<and>
     key_dict pat \<in> keyset_dicts res \<and> key_find pat ''class'' = Some ''od'' \<and> key_find pat ''domain'' = Some ''*''"
proof -
  let ?r = "sch_rules sample_schema ! 1" and ?kvs = "[(''class'', ''od''), (''domain'', ''g'')]"
  let ?search = "key_of_dict [(''class'', ''od'')] None"
  have r: "?r \<in> set (sch_rules sample_schema)" by (simp add: sample_schema_def)
  have lev: "level_values od_key (rule_preds ?r) = Inr (Some ?kvs)"
    by (simp add: sample_schema_def od_key_def key_of_dict_def pred_value_def get_key_def key_find_def)
  have full: "key_find (push_all ?kvs (new_key None)) k = map_of ?kvs k" for k
    by (rule push_all_new_find) simp
  have sub: "\<forall>k v. key_find ?search k = Some v \<longrightarrow> key_find (push_all ?kvs (new_key None)) k = Some v"
    unfolding full by (simp add: key_of_dict_def key_find_def)
  have ok: "key_ok ?search" by (simp add: key_ok_def key_of_dict_def dict_ok_def)
  obtain res pat where "schema_matchFirstLevel sample_schema ?search [] ''*'' = Inr res"
    and "key_dict pat \<in> keyset_dicts res"
    and pat: "\<forall>k v. key_find (push_all ?kvs (new_key None)) k = Some v \<longrightarrow>
       key_find pat k = Some (if key_find ?search k = None then ''*'' else v)"
    using matchFirstLevel_complete [OF sample_schema_wf r lev sub ok, of "''*''"] by blast
  moreover have "key_find pat ''class'' = Some ''od'' \<and> key_find pat ''domain'' = Some ''*''"
    using pat unfolding full by (simp add: key_of_dict_def key_find_def)
  ultimately show ?thesis by blast
qed

text \<open>
  \<open>matchFirstLevel\<close> never fails on a well-formed schema and returns nothing else: every pattern
  of its result has the keywords of one rule, holds the wildcard for each keyword the search key
  does not give, and agrees with the search key on the others.
\<close>
lemma matchFirstLevel_sound:
  assumes "schema_wf sch"
  shows "\<exists>res. schema_matchFirstLevel sch dbKey [] missing = Inr res \<and>
    (\<forall>d \<in> keyset_dicts res. \<exists>r \<in> set (sch_rules sch). \<exists>pat. key_dict pat = d \<and> match_key pat dbKey \<and>
      key_names pat = map pred_keyword (rule_preds r) \<and>
      (\<forall>p \<in> set (rule_preds r). key_find dbKey (pred_keyword p) = None \<longrightarrow>
         key_find pat (pred_keyword p) = Some missing))"
proof -
  let ?res = "fold keyset_insert (schema_patterns sch dbKey missing) []"
  have missing: "map_of kvs (pred_keyword p) = Some missing"
    if "pattern_values dbKey missing ps = Some kvs" and "p \<in> set ps" and "key_find dbKey (pred_keyword p) = None"
    for ps kvs p
    using that by (induction ps arbitrary: kvs) (auto simp: Let_def split: option.splits if_splits)
  have "\<exists>r \<in> set (sch_rules sch). \<exists>pat. key_dict pat = d \<and> match_key pat dbKey \<and>
      key_names pat = map pred_keyword (rule_preds r) \<and>
      (\<forall>p \<in> set (rule_preds r). key_find dbKey (pred_keyword p) = None \<longrightarrow>
         key_find pat (pred_keyword p) = Some missing)" if "d \<in> keyset_dicts ?res" for d
  proof -
    from that obtain pat where pat: "pat \<in> set (schema_patterns sch dbKey missing)" and d: "key_dict pat = d"
      using keyset_fold_insert [OF keyset_ok_Nil, of "schema_patterns sch dbKey missing"]
      by (auto simp: keyset_dicts_def)
    then obtain r kvs where r: "r \<in> set (sch_rules sch)"
      and kvs: "pattern_values dbKey missing (rule_preds r) = Some kvs"
      and pat_eq: "pat = push_all kvs (new_key None)" and "match_key pat dbKey"
      by (auto simp: schema_patterns_def map_filter_def)
    have "distinct (map pred_keyword (rule_preds r))"
      using assms r by (auto simp: schema_wf_def rules_wf_all dest: rule_wf_preds)
    then have "distinct (map fst kvs)" by (simp only: pattern_keywords [OF kvs])
    then have "key_find pat k = map_of kvs k" for k
      unfolding pat_eq by (rule push_all_new_find)
    then show ?thesis
      using r d \<open>match_key pat dbKey\<close> missing [OF kvs] pattern_keywords [OF kvs]
      by (intro bexI [OF _ r] exI [of _ pat]) (simp add: pat_eq push_all_names)
  qed
  then show ?thesis by (simp add: schema_matchFirstLevel_fold [OF assms])
qed

lemma matchFirstLevel_sound_witness:
  "\<exists>res. schema_matchFirstLevel sample_schema od_key [] ''*'' = Inr res"
  using matchFirstLevel_sound [OF sample_schema_wf, of od_key "''*''"] by blast

subsection \<open>The first level for a request\<close>

text \<open>The values a request gives to a predicate, when it gives some.\<close>

definition request_choices :: "mars_request \<Rightarrow> predicate \<Rightarrow> string list" where
  "request_choices rq p =
     (case pred_matcher p of
        MatchHidden d \<Rightarrow> [d]
      | MatchOptional d \<Rightarrow> if rq_has rq (pred_keyword p) then rq_values_ok rq (pred_keyword p) else [d]
      | _ \<Rightarrow> rq_values_ok rq (pred_keyword p))"

lemma request_choices_values:
  "request_ok rq \<Longrightarrow> pred_optional p \<or> rq_has rq (pred_keyword p) \<Longrightarrow>
   pred_values p rq = Inr (request_choices rq p)"
  by (cases "pred_matcher p")
    (auto simp: pred_values_def request_choices_def request_ok_def pred_optional_def)

definition request_expansions :: "mars_request \<Rightarrow> rule \<Rightarrow> (string \<times> string) list list" where
  "request_expansions rq r =
     combos (\<lambda>p. filter (accepts (pred_matcher p)) (request_choices rq p)) (rule_preds r)"

text \<open>
  For a request that gives values to every keyword the first level demands,
  \<open>expandFirstLevel\<close> returns the first combination of accepted values of the first rule that has
  one, in the order of the nested loops, with the registry of that rule; if there is none the
  result key is unchanged.
\<close>
lemma expandFirstLevel_rq_first:
  assumes "schema_wf sch" and "request_ok rq"
    and "\<forall>r \<in> set (sch_rules sch). \<forall>p \<in> set (rule_preds r). pred_optional p \<or> rq_has rq (pred_keyword p)"
  shows "schema_expandFirstLevel_rq sch rq (new_key reg) =
     Inr (case first_of (concat (map (\<lambda>r. map (\<lambda>kvs. (r, kvs)) (request_expansions rq r)) (sch_rules sch))) of
            None \<Rightarrow> (new_key reg, False)
          | Some (r, kvs) \<Rightarrow> (set_registry (rule_registry sch [r]) (push_all kvs (new_key reg)), True))"
proof -
  have "schema_first_rq sch rq rs (new_key reg) False =
     Inr (case first_of (concat (map (\<lambda>r. map (\<lambda>kvs. (r, kvs)) (request_expansions rq r)) rs)) of
            None \<Rightarrow> (new_key reg, False)
          | Some (r, kvs) \<Rightarrow> (set_registry (rule_registry sch [r]) (push_all kvs (new_key reg)), True))"
    if "set rs \<subseteq> set (sch_rules sch)" for rs
    using that
  proof (induction rs)
    case (Cons r rs)
    have "distinct (map pred_keyword (rule_preds r))"
      using assms(1) Cons.prems by (auto simp: schema_wf_def rules_wf_all dest: rule_wf_preds)
    then have r: "expandFirstLevel_rq rq (rule_preds r) (new_key reg) False =
       Inr (case request_expansions rq r of [] \<Rightarrow> (new_key reg, False)
            | kvs # _ \<Rightarrow> (push_all kvs (new_key reg), True))"
      unfolding request_expansions_def
      by (intro expandFirstLevel_rq_eq) (use assms(2,3) Cons.prems in \<open>auto intro!: request_choices_values\<close>)
    show ?case
      using Cons by (cases "request_expansions rq r") (simp_all add: r first_of_append)
  qed simp
  then show ?thesis by (simp add: schema_expandFirstLevel_rq_def)
qed

lemma expandFirstLevel_rq_first_witness:
  "\<exists>result. schema_expandFirstLevel_rq sample_schema
     (sample_request [(''class'', [''xx'', ''od'']), (''expver'', [''0001''])]) (new_key None) = Inr (result, True) \<and>
     key_find result ''class'' = Some ''od''"
  by (subst expandFirstLevel_rq_first [OF sample_schema_wf sample_request_ok])
    (simp_all add: sample_schema_def pred_optional_def sample_request_def request_expansions_def
      request_choices_def set_registry_def push_key_def new_key_def key_find_def)

text \<open>
  For any request, \<open>matchFirstLevel\<close> collects one pattern for each combination of accepted values
  of each rule, with the wildcard for the keywords the request does not have, and nothing else.
\<close>
lemma matchFirstLevel_rq_all:
  assumes "schema_wf sch" and "request_ok rq"
  shows "\<exists>res. schema_matchFirstLevel_rq sch rq [] missing = Inr res \<and>
    keyset_dicts res = {key_dict (push_all kvs (new_key None)) | r kvs. r \<in> set (sch_rules sch) \<and>
      kvs \<in> set (combos (request_values rq missing (request_choices rq)) (rule_preds r))}"
proof -
  let ?pats = "\<lambda>r. map (\<lambda>kvs. push_all kvs (new_key (Some (rule_registry sch [r]))))
     (combos (request_values rq missing (request_choices rq)) (rule_preds r))"
  have rule: "rule_matchFirstLevel_rq sch r rq missing result = Inr (fold keyset_insert (?pats r) result)"
    if "r \<in> set (sch_rules sch)" for r result
  proof -
    have "distinct (map pred_keyword (rule_preds r))"
      using assms(1) that by (auto simp: schema_wf_def rules_wf_all dest: rule_wf_preds)
    then show ?thesis
      unfolding rule_matchFirstLevel_rq_def
      by (subst matchFirstLevel_rq_eq [where vals = "request_choices rq"])
        (use assms(2) in \<open>auto intro!: request_choices_values\<close>)
  qed
  have "foldE (\<lambda>r. rule_matchFirstLevel_rq sch r rq missing) rs result =
     Inr (fold keyset_insert (concat (map ?pats rs)) result)" if "set rs \<subseteq> set (sch_rules sch)" for rs result
    using that by (induction rs arbitrary: result) (simp_all add: rule)
  then have res: "schema_matchFirstLevel_rq sch rq [] missing = Inr (fold keyset_insert (concat (map ?pats (sch_rules sch))) [])"
    by (simp add: schema_matchFirstLevel_rq_def)
  have same: "key_dict (push_all kvs (new_key a)) = key_dict (push_all kvs (new_key b))" for kvs a b
  proof -
    have "key_dict k = key_dict k' \<Longrightarrow> key_dict (push_all kvs k) = key_dict (push_all kvs k')" for k k'
      by (induction kvs arbitrary: k k') (auto simp: push_key_def)
    then show ?thesis by (simp add: new_key_def)
  qed
  have "keyset_dicts (fold keyset_insert (concat (map ?pats (sch_rules sch))) []) =
      key_dict ` set (concat (map ?pats (sch_rules sch)))"
    using keyset_fold_insert [OF keyset_ok_Nil, of "concat (map ?pats (sch_rules sch))"]
    by (simp add: keyset_dicts_def)
  also have "\<dots> = {key_dict (push_all kvs (new_key None)) | r kvs. r \<in> set (sch_rules sch) \<and>
      kvs \<in> set (combos (request_values rq missing (request_choices rq)) (rule_preds r))}"
  proof -
    have "key_dict ` set (?pats r) = (\<lambda>kvs. key_dict (push_all kvs (new_key None))) `
        set (combos (request_values rq missing (request_choices rq)) (rule_preds r))" for r
      unfolding set_map image_image by (rule image_cong [OF refl]) (rule same)
    then show ?thesis unfolding set_concat set_map image_UN by auto
  qed
  finally show ?thesis using res by blast
qed

lemma matchFirstLevel_rq_all_witness:
  "\<exists>res. schema_matchFirstLevel_rq sample_schema (sample_request [(''class'', [''od''])]) [] ''*'' = Inr res"
  using matchFirstLevel_rq_all [OF sample_schema_wf sample_request_ok, of "[(''class'', [''od''])]" "''*''"]
  by blast


subsection \<open>The rule of an index\<close>

text \<open>
  \<open>ruleFor\<close> returns the first third-level rule, in schema order, whose first-level ancestor
  matches the database key and whose second-level ancestor matches the index key, and null exactly
  when there is none: a branch that matches the database and not the index is left for the next one.
\<close>
lemma schema_ruleFor_first:
  "schema_ruleFor sch dbKey idxKey = first_of (index_rules sch dbKey idxKey)"
proof -
  let ?keys = "[dbKey, idxKey]"
  have one: "ruleFor_any [r0] rs ?keys 1 =
     first_of (concat (map (\<lambda>r1. if rule_match r1 idxKey then map (\<lambda>r2. [r2, r1, r0]) (rule_rules r1) else []) rs))"
    for r0 rs
  proof -
    have "ruleFor_any [r1, r0] rs' ?keys (1 + 1) = first_of (map (\<lambda>r2. [r2, r1, r0]) rs')" for r1 rs'
      by (rule ruleFor_any_leaf) simp
    moreover have "?keys ! 1 = idxKey" by simp
    ultimately show ?thesis
      by (subst ruleFor_any_inner) (simp_all only: first_of_concat, simp)
  qed
  have "ruleFor_any [] (sch_rules sch) ?keys 0 = first_of (index_rules sch dbKey idxKey)"
    unfolding index_rules_def
    by (subst ruleFor_any_inner) (simp_all only: add_0 one first_of_concat nth_Cons_0, simp)
  then show ?thesis by (simp only: schema_ruleFor_def)
qed

subsection \<open>Keys of index entries\<close>

lemma fill_all_ok:
  "fresh_for (map pred_keyword ps) key \<Longrightarrow>
     key_ok (fill_all ps vs key) \<and> set (key_names (fill_all ps vs key)) \<subseteq> set (key_names key) \<union> pred_keyword ` set ps"
proof (induction ps arbitrary: vs key)
  case (Cons p ps)
  show ?case
  proof (cases vs)
    case Nil
    with Cons.prems show ?thesis by (auto simp: fill_all_def fresh_for_def)
  next
    case (Cons v us)
    let ?k = "pred_fill p key v"
    have none: "key_find key (pred_keyword p) = None"
      using Cons.prems by (auto simp: fresh_for_def find_eq_None key_ok_def)
    have fill: "?k = key \<or> ?k = push_key (pred_keyword p) v key"
      by (cases "pred_matcher p") (auto simp: pred_fill_def)
    then have "fresh_for (map pred_keyword ps) ?k"
    proof
      assume "?k = key"
      with Cons.prems show ?thesis by (auto simp: fresh_for_def)
    next
      assume k: "?k = push_key (pred_keyword p) v key"
      have "key_ok ?k" unfolding k by (rule key_ok_push [OF _ none]) (use Cons.prems in \<open>simp add: fresh_for_def\<close>)
      moreover have "set (key_names ?k) = insert (pred_keyword p) (set (key_names key))" by (auto simp: k push_key_def)
      ultimately show ?thesis using Cons.prems by (auto simp: fresh_for_def)
    qed
    from Cons.IH [OF this, of us] fill show ?thesis
      by (auto simp: local.Cons fill_all_def push_key_def)
  qed
qed (auto simp: fill_all_def fresh_for_def)

text \<open>Only the value of the quantile may be split in two, and it is one value.\<close>

lemma plain_tokens:
  assumes plain: "list_all2 plain_value ps vs" and distinct: "distinct (map pred_keyword ps)"
    and extra: "extra \<longleftrightarrow> (\<exists>v \<in> set vs. split_at CHR '':'' v \<noteq> [v])"
  shows "list_all2 (value_tokens extra) ps vs"
proof (cases extra)
  case False
  then have "\<forall>v \<in> set vs. split_at CHR '':'' v = [v]" by (simp add: extra)
  with list_all2_lengthD [OF plain] False show ?thesis by (auto simp: list_all2_conv_all_nth value_tokens_def)
next
  case True
  have len: "length vs = length ps" using plain by (simp add: list_all2_lengthD)
  have two: "split_at CHR '':'' v = [a, b]" if "v = a @ '':'' @ b" and "CHR '':'' \<notin> set a" and "CHR '':'' \<notin> set b" for v a b
    using that by (simp add: split_at_append split_at_plain)
  from True obtain i where i: "i < length vs" and split: "split_at CHR '':'' (vs ! i) \<noteq> [vs ! i]"
    by (auto simp: extra in_set_conv_nth)
  have q: "pred_keyword (ps ! i) = ''quantile''"
    using plain i split len by (auto simp: list_all2_conv_all_nth plain_value_def split_at_plain)
  have "value_tokens extra (ps ! j) (vs ! j)" if j: "j < length ps" for j
  proof (cases "j = i")
    case same: True
    from plain j split obtain a b where "vs ! j = a @ '':'' @ b" and "CHR '':'' \<notin> set a" and "CHR '':'' \<notin> set b"
      by (auto simp: list_all2_conv_all_nth plain_value_def split_at_plain same)
    with q True same two [OF this] show ?thesis by (auto simp: value_tokens_def)
  next
    case False
    have "pred_keyword (ps ! j) \<noteq> ''quantile''"
      using distinct q False i j len nth_eq_iff_index_eq [of "map pred_keyword ps" i j] by auto
    with plain j show ?thesis by (auto simp: list_all2_conv_all_nth plain_value_def value_tokens_def split_at_plain)
  qed
  then show ?thesis by (simp add: list_all2_conv_all_nth len)
qed

text \<open>
  C26: An index entry gives its key back. Let a key hold exactly the keywords of a rule, in the
  rule's order, with at least one predicate in the rule and no keyword twice, and let no canonical value of it
  contain a colon, except that a quantile may be written \<open>a:b\<close>. Then \<open>Key(key.valuesToString(), rule)\<close> is a key
  of the invariant that has no keyword but those of the rule, and holds the canonical value of every keyword; the
  keywords left out are the optional ones with empty values. (Empty tokens are kept by the tokenizer.)
\<close>
theorem index_entry_roundtrip:
  assumes "tokenize_keep_law e" and "rule_preds r \<noteq> []"
    and "distinct (map pred_keyword (rule_preds r))"
    and "key_names key = map pred_keyword (rule_preds r)" and "valuesToString e key = Inr s"
    and "\<forall>p \<in> set (rule_preds r). \<forall>v. canonicalValue e key (pred_keyword p) = Inr v \<longrightarrow> plain_value p v"
  shows "\<exists>key'. key_of_string e sch s (Some (r # parents)) = Inr key' \<and>
    key_ok key' \<and> set (key_names key') \<subseteq> pred_keyword ` set (rule_preds r) \<and>
    (\<forall>p \<in> set (rule_preds r). \<exists>v. canonicalValue e key (pred_keyword p) = Inr v \<and>
       key_find key' (pred_keyword p) = stored p v)"
proof -
  let ?ps = "rule_preds r"
  from assms(5) obtain vs where vs: "mapE (canonicalValue e key) (map pred_keyword ?ps) = Inr vs"
    and s: "s = join_with '':'' vs"
    by (auto simp: valuesToString_def bindE_eq_Inr assms(4))
  then have vals: "list_all2 (\<lambda>p v. canonicalValue e key (pred_keyword p) = Inr v) ?ps vs"
    by (simp add: mapE_eq_Inr list_all2_map1)
  then have len: "length vs = length ?ps" by (simp add: list_all2_lengthD)
  with assms(2) have "vs \<noteq> []" by auto
  then have toks: "x_tokenize e CHR '':'' True s = concat (map (split_at CHR '':'') vs)"
    using assms(1) by (simp add: s tokenize_keep_law_def split_at_join_concat)
  define extra where "extra \<longleftrightarrow> (\<exists>v \<in> set vs. split_at CHR '':'' v \<noteq> [v])"
  have plain: "list_all2 plain_value ?ps vs"
    using vals assms(6) by (auto simp: list_all2_conv_all_nth)
  have tok: "list_all2 (value_tokens extra) ?ps vs"
    by (rule plain_tokens [OF plain assms(3) extra_def])
  have n: "length (concat (map (split_at CHR '':'') vs)) = length ?ps + (if extra then 1 else 0)"
    by (rule length_tokens [OF tok assms(3) extra_def])
  let ?key = "new_key (Some (rule_registry sch (r # parents)))"
  have "key_of_string e sch s (Some (r # parents)) = Inr (fill_all ?ps vs ?key)"
    using n fill_loop_tokens [OF tok, of ?key]
    by (cases extra) (simp_all add: key_of_string_def rule_fill_def toks)
  moreover have "\<exists>v. canonicalValue e key (pred_keyword p) = Inr v \<and>
      key_find (fill_all ?ps vs ?key) (pred_keyword p) = stored p v" if "p \<in> set ?ps" for p
  proof -
    from that obtain i where i: "i < length ?ps" and p: "p = ?ps ! i" by (auto simp: in_set_conv_nth)
    have "key_find (fill_all ?ps vs ?key) (pred_keyword p) = stored p (vs ! i)"
      unfolding p by (rule fill_all_find [OF assms(3) len i]) (simp add: new_key_def key_find_def)
    with vals i p show ?thesis by (auto simp: list_all2_conv_all_nth)
  qed
  moreover have "key_ok (fill_all ?ps vs ?key) \<and> set (key_names (fill_all ?ps vs ?key)) \<subseteq> pred_keyword ` set ?ps"
  proof -
    have "fresh_for (map pred_keyword ?ps) ?key" using assms(3) by (simp add: fresh_for_def new_key_def key_ok_def dict_ok_def)
    from fill_all_ok [OF this, of vs] show ?thesis by (simp add: new_key_def)
  qed
  ultimately show ?thesis by blast
qed

definition leaf_key :: key where
  "leaf_key = push_key ''quantile'' ''1:3'' (push_key ''step'' ''12'' (new_key (Some new_registry)))"

definition leaf_rule :: rule where
  "leaf_rule = Rule 5 [\<lparr>pred_keyword = ''step'', pred_matcher = MatchAlways\<rparr>,
                      \<lparr>pred_keyword = ''quantile'', pred_matcher = MatchOptional []\<rparr>] [] []"

lemma leaf_key_values: "canonicalValue e leaf_key ''step'' = Inr ''12'' \<and> canonicalValue e leaf_key ''quantile'' = Inr ''1:3''"
  by (simp add: leaf_key_def canonicalValue_def key_value_def push_key_def new_key_def key_find_def canonicalise_def
      get_registry_def new_registry_def build_type_def)

lemma index_entry_roundtrip_witness:
  "\<exists>key'. key_of_string ref_ext sample_schema ''12:1:3'' (Some [leaf_rule]) = Inr key' \<and>
     key_find key' ''quantile'' = Some ''1:3''"
proof -
  have vals: "valuesToString ref_ext leaf_key = Inr ''12:1:3''"
    using leaf_key_values by (simp add: valuesToString_def) (simp add: leaf_key_def push_key_def new_key_def)
  have "\<exists>a b. ''1:3'' = a @ '':'' @ b \<and> CHR '':'' \<notin> set a \<and> CHR '':'' \<notin> set b"
    by (intro exI [of _ "''1''"] exI [of _ "''3''"]) simp
  then have "plain_value p v" if "p \<in> set (rule_preds leaf_rule)" and "canonicalValue ref_ext leaf_key (pred_keyword p) = Inr v" for p v
    using that leaf_key_values [of ref_ext]
    by (auto simp: leaf_rule_def plain_value_def) blast
  then obtain key' where "key_of_string ref_ext sample_schema ''12:1:3'' (Some [leaf_rule]) = Inr key'"
    and all: "\<forall>p \<in> set (rule_preds leaf_rule). \<exists>v. canonicalValue ref_ext leaf_key (pred_keyword p) = Inr v \<and>
       key_find key' (pred_keyword p) = stored p v"
    using index_entry_roundtrip [OF ref_tokenize_keep_law, of leaf_rule leaf_key "''12:1:3''" sample_schema "[]"] vals
    by (auto simp: leaf_rule_def leaf_key_def push_key_def new_key_def)
  moreover have "key_find key' ''quantile'' = Some ''1:3''"
    using all leaf_key_values [of ref_ext] by (simp add: leaf_rule_def stored_def)
  ultimately show ?thesis by blast
qed

text \<open>
  The exception for quantiles takes a second colon on trust: when a rule has a quantile and the
  number of texts is one more than the number of predicates, it is the quantile that takes two of
  them, wherever the extra colon was. A value with a colon in front of a plain quantile is split,
  its second half becomes the start of the quantile, and no error is reported.
\<close>
lemma quantile_takes_foreign_colon:
  assumes "rule_preds r = [p, q]" and "pred_keyword p \<noteq> ''quantile''" and "pred_keyword q = ''quantile''"
    and "pred_matcher p = MatchAlways" and "pred_matcher q = MatchAlways"
    and "tokenize_keep_law e" and "CHR '':'' \<notin> set a" and "CHR '':'' \<notin> set b" and "CHR '':'' \<notin> set c"
  shows "\<exists>key'. key_of_string e sch (join_with '':'' [a @ '':'' @ b, c]) (Some (r # parents)) = Inr key' \<and>
    key_find key' (pred_keyword p) = Some a \<and> key_find key' ''quantile'' = Some (b @ '':'' @ c)"
proof -
  have "x_tokenize e CHR '':'' True (join_with '':'' [a @ '':'' @ b, c]) = [a, b, c]"
    using assms(6-9) by (simp add: tokenize_keep_law_def split_at_append split_at_plain)
  then show ?thesis
    using assms(1-5) by (auto simp: key_of_string_def rule_fill_def pred_fill_def)
qed

lemma quantile_takes_foreign_colon_witness:
  "\<exists>key'. key_of_string ref_ext sample_schema ''00:30:5''
     (Some [Rule 1 [\<lparr>pred_keyword = ''time'', pred_matcher = MatchAlways\<rparr>,
                    \<lparr>pred_keyword = ''quantile'', pred_matcher = MatchAlways\<rparr>] [] []]) = Inr key' \<and>
     key_find key' ''time'' = Some ''00'' \<and> key_find key' ''quantile'' = Some ''30:5''"
  using quantile_takes_foreign_colon [of "Rule 1 [\<lparr>pred_keyword = ''time'', pred_matcher = MatchAlways\<rparr>,
       \<lparr>pred_keyword = ''quantile'', pred_matcher = MatchAlways\<rparr>] [] []"
     "\<lparr>pred_keyword = ''time'', pred_matcher = MatchAlways\<rparr>"
     "\<lparr>pred_keyword = ''quantile'', pred_matcher = MatchAlways\<rparr>" ref_ext "''00''" "''30''" "''5''" sample_schema "[]"]
  by (simp add: ref_tokenize_keep_law)

subsection \<open>\<open>check\<close>\<close>

text \<open>
  \<open>check\<close> accepts what tidying produced: if every value a key has for a keyword of the rule or of
  one of its parents is the tidied form of some value, by the type that rule gives the keyword, the
  check of the whole chain of rules passes.
\<close>
lemma rule_check_tidied:
  assumes "tidy_laws e"
    and "\<forall>pre r parents p v. path = pre @ r # parents \<and> p \<in> set (rule_preds r) \<and>
      key_find key (pred_keyword p) = Some v \<longrightarrow>
      (\<exists>t v0. lookupType (rule_registry sch (r # parents)) (pred_keyword p) = Inr t \<and>
        type_domain t e v0 \<and> tidy e t (pred_keyword p) v0 = Inr v)"
  shows "rule_check e sch path key = Inr ()"
  using assms(2)
proof (induction path)
  case (Cons r parents)
  have "rule_check e sch parents key = Inr ()"
    by (rule Cons.IH) (use Cons.prems in \<open>metis append_Cons\<close>)
  moreover have "(case key_find key (pred_keyword p) of
                None \<Rightarrow> Inr ()
              | Some v \<Rightarrow>
                  bindE (lookupType (rule_registry sch (r # parents)) (pred_keyword p)) (\<lambda>t.
                  bindE (tidy e t (pred_keyword p) v) (\<lambda>w.
                    if v \<noteq> w then Inl (UserError ''Rule check - metadata not valid'') else Inr ()))) = Inr ()"
    if "p \<in> set (rule_preds r)" for p
  proof (cases "key_find key (pred_keyword p)")
    case (Some v)
    with Cons.prems that obtain t v0 where "lookupType (rule_registry sch (r # parents)) (pred_keyword p) = Inr t"
      and "type_domain t e v0" and "tidy e t (pred_keyword p) v0 = Inr v"
      by (metis append_Nil)
    moreover from any_type.tidy_again [OF assms(1) this(2,3)] have "tidy e t (pred_keyword p) v = Inr v" .
    ultimately show ?thesis by (simp add: Some)
  qed simp
  then have "\<exists>us. mapE (\<lambda>p. case key_find key (pred_keyword p) of
                None \<Rightarrow> Inr ()
              | Some v \<Rightarrow>
                  bindE (lookupType (rule_registry sch (r # parents)) (pred_keyword p)) (\<lambda>t.
                  bindE (tidy e t (pred_keyword p) v) (\<lambda>w.
                    if v \<noteq> w then Inl (UserError ''Rule check - metadata not valid'') else Inr ())))
              (rule_preds r) = Inr us"
    by (intro exI [of _ "map (\<lambda>_. ()) (rule_preds r)"] mapE_total) blast
  ultimately show ?case by (auto simp del: rule_registry.simps)
qed simp

lemma rule_check_tidied_witness: "rule_check ref_ext sample_schema [leaf_rule] leaf_key = Inr ()"
proof (rule rule_check_tidied [OF ref_tidy_laws], intro allI impI, elim conjE)
  fix pre r parents p v
  assume "[leaf_rule] = pre @ r # parents" and p: "p \<in> set (rule_preds r)"
    and v: "key_find leaf_key (pred_keyword p) = Some v"
  then have "r = leaf_rule" and "parents = []" by (simp_all add: Cons_eq_append_conv)
  with p v show "\<exists>t v0. lookupType (rule_registry sample_schema (r # parents)) (pred_keyword p) = Inr t \<and>
        type_domain t ref_ext v0 \<and> tidy ref_ext t (pred_keyword p) v0 = Inr v"
    by (auto simp: leaf_rule_def schema_registry_def sample_schema_def build_type_def type_domain_def)
qed

end
