(* ===== verification/FDB_Expand.thy ===== *)
theory FDB_Expand
  imports FDB_Rules
begin

text \<open>
  The full expansion of a schema: \<open>Rule::expand\<close> and \<open>Schema::expand\<close>, \<open>expandSecond\<close>, for a field
  that is written (\<open>WriteVisitor\<close>) and for a request that is read (\<open>ReadVisitor\<close>). A visitor is the
  record of its virtual methods over a state of its own; the keys of the three levels, the full
  key, and the visitor are passed through as the code passes them by reference.
\<close>

section \<open>Visitors\<close>

text \<open>
  The virtual methods of a \<open>WriteVisitor\<close>; what \<open>select\<close> returns is not used when writing.
  \<open>wo_selectDatum\<close> gets the rule that the visitor holds at that moment.
\<close>

record 's write_ops =
  wo_selectDatabase :: "key \<Rightarrow> key \<Rightarrow> 's \<Rightarrow> 's res"
  wo_selectIndex :: "key \<Rightarrow> key \<Rightarrow> 's \<Rightarrow> 's res"
  wo_selectDatum :: "located \<Rightarrow> key \<Rightarrow> key \<Rightarrow> 's \<Rightarrow> 's res"
  wo_databaseSchema :: "'s \<Rightarrow> schema res"

text \<open>The members \<open>rule_\<close> and \<open>prev_\<close> of a \<open>WriteVisitor\<close>, and the state of the subclass.\<close>

record 's wvisitor =
  wv_rule :: "located option"
  wv_prev0 :: key
  wv_prev1 :: key
  wv_state :: 's

definition new_wvisitor :: "key \<Rightarrow> key \<Rightarrow> 's \<Rightarrow> 's wvisitor" where
  "new_wvisitor prev0 prev1 s = \<lparr>wv_rule = None, wv_prev0 = prev0, wv_prev1 = prev1, wv_state = s\<rparr>"

text \<open>The virtual methods of a \<open>ReadVisitor\<close>: here \<open>select\<close> decides whether to go on.\<close>

record 's read_ops =
  ro_selectDatabase :: "key \<Rightarrow> key \<Rightarrow> 's \<Rightarrow> (bool \<times> 's) res"
  ro_selectIndex :: "key \<Rightarrow> key \<Rightarrow> 's \<Rightarrow> (bool \<times> 's) res"
  ro_selectDatum :: "key \<Rightarrow> key \<Rightarrow> 's \<Rightarrow> (bool \<times> 's) res"
  ro_databaseSchema :: "'s \<Rightarrow> schema res"
  ro_values :: "mars_request \<Rightarrow> string \<Rightarrow> registry \<Rightarrow> 's \<Rightarrow> (string list \<times> 's) res"

section \<open>Writing\<close>

lemma foldE_cong [fundef_cong]:
  "xs = ys \<Longrightarrow> (\<And>x s. x \<in> set ys \<Longrightarrow> f x s = g x s) \<Longrightarrow> s = t \<Longrightarrow> foldE f xs s = foldE g ys t"
proof (induction ys arbitrary: xs s t)
  case (Cons y ys)
  have "foldE f ys u = foldE g ys u" for u
    by (rule Cons.IH) (use Cons.prems(2) in auto)
  then have "foldE f ys = foldE g ys" by blast
  with Cons.prems show ?case by simp
qed simp

text \<open>The state of an expansion: the keys of the three levels, the full key, the visitor.\<close>

record 'v expansion =
  ex_keys :: "key list"
  ex_full :: key
  ex_visitor :: 'v

definition set_level :: "nat \<Rightarrow> (key \<Rightarrow> key) \<Rightarrow> 'v expansion \<Rightarrow> 'v expansion" where
  "set_level d f st = st\<lparr>ex_keys := (ex_keys st)[d := f (ex_keys st ! d)]\<rparr>"

definition push_level :: "nat \<Rightarrow> string \<Rightarrow> string \<Rightarrow> 'v expansion \<Rightarrow> 'v expansion" where
  "push_level d k v st = (set_level d (push_key k v) st)\<lparr>ex_full := push_key k v (ex_full st)\<rparr>"

text \<open>\<open>full.pop(keyword); k.pop(keyword);\<close>\<close>

definition pop_level :: "nat \<Rightarrow> string \<Rightarrow> 'v expansion \<Rightarrow> 'v expansion res" where
  "pop_level d k st =
     bindE (pop_key k (ex_full st)) (\<lambda>full.
     bindE (pop_key k (ex_keys st ! d)) (\<lambda>key.
       Inr (st\<lparr>ex_full := full, ex_keys := (ex_keys st)[d := key]\<rparr>)))"

definition start_second :: "schema \<Rightarrow> key \<Rightarrow> 'v \<Rightarrow> 'v expansion" where
  "start_second sch dbKey v =
     \<lparr>ex_keys = [dbKey, new_key (Some (schema_registry sch)), new_key (Some (schema_registry sch))],
      ex_full = dbKey, ex_visitor = v\<rparr>"

text \<open>The first rule of the database's schema that matches the database key.\<close>

definition database_rule :: "schema \<Rightarrow> key \<Rightarrow> rule res" where
  "database_rule sch dbKey =
     (case filter (\<lambda>r. rule_match r dbKey) (sch_rules sch) of
        [] \<Rightarrow> Inl (AssertFailed ''dbRule'')
      | r # _ \<Rightarrow> Inr r)"

definition select_database_write :: "'s write_ops \<Rightarrow> 's wvisitor expansion \<Rightarrow> 's wvisitor res" where
  "select_database_write ops st =
     (let v = ex_visitor st; k = ex_keys st ! 0
      in if \<not> key_eq k (wv_prev0 v) then
           bindE (wo_selectDatabase ops k (ex_full st) (wv_state v)) (\<lambda>s.
             Inr (v\<lparr>wv_state := s, wv_prev0 := k, wv_prev1 := new_key None\<rparr>))
         else Inr v)"

definition select_index_write :: "'s write_ops \<Rightarrow> 's wvisitor expansion \<Rightarrow> 's wvisitor res" where
  "select_index_write ops st =
     (let v = ex_visitor st; k = ex_keys st ! 1
      in if \<not> key_eq k (wv_prev1 v) then
           bindE (wo_selectIndex ops k (ex_full st) (wv_state v)) (\<lambda>s.
             Inr (v\<lparr>wv_state := s, wv_prev1 := k\<rparr>))
         else Inr v)"

definition select_datum_write :: "'s write_ops \<Rightarrow> located \<Rightarrow> 's wvisitor expansion \<Rightarrow> 's wvisitor res" where
  "select_datum_write ops path st =
     (let v = ex_visitor st
      in if wv_rule v \<noteq> None then Inl (SeriousBug ''More than one rule matching'')
         else bindE (wo_selectDatum ops path (ex_keys st ! 2) (ex_full st) (wv_state v)) (\<lambda>s.
                Inr (v\<lparr>wv_rule := Some path, wv_state := s\<rparr>)))"

text \<open>
  \<open>Rule::expand(field, cur, depth, keys, full, visitor)\<close> for the rule at the head of \<open>path\<close>, with
  \<open>cur\<close> the predicates that are left. The recursion ends because a call either has fewer
  predicates left or is one level deeper, and \<open>ASSERT(depth < 3)\<close> bounds the levels. \<open>expandSecond\<close>
  is the part of the case of depth 0 that calls the rules of the database's schema.
\<close>

function expand_write ::
    "'s write_ops \<Rightarrow> bool \<Rightarrow> schema \<Rightarrow> key \<Rightarrow> located \<Rightarrow> predicate list \<Rightarrow> nat \<Rightarrow> 's wvisitor expansion \<Rightarrow>
     's wvisitor expansion res" where
  "expand_write ops matchFirst sch field path [] depth st =
     (if matchFirst \<and> wv_rule (ex_visitor st) \<noteq> None then Inr st
      else bindE (assertE (depth < 3) ''depth < 3'') (\<lambda>_.
        let st = set_level depth (set_registry (rule_registry sch path)) st;
            rules = rule_rules (hd path)
        in if rules = [] then
             bindE (assertE (depth = 2) ''depth == 2'') (\<lambda>_.
             bindE (select_datum_write ops path st) (\<lambda>v. Inr (st\<lparr>ex_visitor := v\<rparr>)))
           else if depth = 0 then
             bindE (select_database_write ops st) (\<lambda>v.
             bindE (wo_databaseSchema ops (wv_state v)) (\<lambda>dbSchema.
             bindE (database_rule dbSchema (ex_keys st ! 0)) (\<lambda>dbRule.
             bindE (foldE (\<lambda>r. expand_write ops matchFirst dbSchema field [r, dbRule] (rule_preds r) (depth + 1))
                      (rule_rules dbRule) (start_second dbSchema (ex_keys st ! 0) v)) (\<lambda>st2.
               Inr (st\<lparr>ex_visitor := ex_visitor st2\<rparr>)))))
           else
             bindE (assertE (depth = 1) ''depth == 0 || depth == 1'') (\<lambda>_.
             bindE (select_index_write ops st) (\<lambda>v.
               foldE (\<lambda>r. expand_write ops matchFirst sch field (r # path) (rule_preds r) (depth + 1))
                 rules (st\<lparr>ex_visitor := v\<rparr>)))))"
| "expand_write ops matchFirst sch field path (p # ps) depth st =
     (if matchFirst \<and> wv_rule (ex_visitor st) \<noteq> None then Inr st
      else bindE (assertE (depth < 3) ''depth < 3'') (\<lambda>_.
        bindE (pred_value p field) (\<lambda>value.
        let st = push_level depth (pred_keyword p) value st
        in bindE (if pred_match p (ex_keys st ! depth)
                  then expand_write ops matchFirst sch field path ps depth st else Inr st) (\<lambda>st.
           pop_level depth (pred_keyword p) st))))"
  by pat_completeness auto

termination
  by (relation "measures [\<lambda>(ops, mf, sch, field, path, ps, depth, st). 3 - depth,
                          \<lambda>(ops, mf, sch, field, path, ps, depth, st). length ps]")
    (auto simp: assertE_eq_Inr)

text \<open>\<open>Schema::expand(field, visitor)\<close>.\<close>

definition start_expansion :: "schema \<Rightarrow> 'v \<Rightarrow> 'v expansion" where
  "start_expansion sch v =
     \<lparr>ex_keys = replicate 3 (new_key (Some (schema_registry sch))),
      ex_full = new_key (Some (schema_registry sch)), ex_visitor = v\<rparr>"

definition schema_expand_write ::
    "'s write_ops \<Rightarrow> bool \<Rightarrow> schema \<Rightarrow> key \<Rightarrow> 's wvisitor \<Rightarrow> 's wvisitor res" where
  "schema_expand_write ops matchFirst sch field v =
     bindE (foldE (\<lambda>r. expand_write ops matchFirst sch field [r] (rule_preds r) 0)
              (sch_rules sch) (start_expansion sch (v\<lparr>wv_rule := None\<rparr>))) (\<lambda>st.
       Inr (ex_visitor st))"

text \<open>\<open>Schema::expandSecond(field, visitor, dbKey)\<close>, as the case of depth 0 calls it.\<close>

definition schema_expandSecond_write ::
    "'s write_ops \<Rightarrow> bool \<Rightarrow> schema \<Rightarrow> key \<Rightarrow> 's wvisitor \<Rightarrow> key \<Rightarrow> 's wvisitor res" where
  "schema_expandSecond_write ops matchFirst dbSchema field v dbKey =
     bindE (database_rule dbSchema dbKey) (\<lambda>dbRule.
     bindE (foldE (\<lambda>r. expand_write ops matchFirst dbSchema field [r, dbRule] (rule_preds r) 1)
              (rule_rules dbRule) (start_second dbSchema dbKey v)) (\<lambda>st.
       Inr (ex_visitor st)))"

section \<open>Reading\<close>

text \<open>
  \<open>Rule::expand(request, cur, depth, keys, full, visitor)\<close>: the visitor supplies the values of a
  keyword, an optional keyword without values takes its default, and the loop tries every value.
\<close>

function expand_read ::
    "'s read_ops \<Rightarrow> schema \<Rightarrow> mars_request \<Rightarrow> located \<Rightarrow> predicate list \<Rightarrow> nat \<Rightarrow> 's expansion \<Rightarrow> 's expansion res"
where
  "expand_read ops sch rq path [] depth st =
     bindE (assertE (depth < 3) ''depth < 3'') (\<lambda>_.
       let st = set_level depth (set_registry (rule_registry sch path)) st;
           rules = rule_rules (hd path); k = ex_keys st ! depth
       in if rules = [] then
            bindE (assertE (depth = 2) ''depth == 2'') (\<lambda>_.
            bindE (ro_selectDatum ops (ex_keys st ! 2) (ex_full st) (ex_visitor st)) (\<lambda>(_, s).
              Inr (st\<lparr>ex_visitor := s\<rparr>)))
          else if depth = 0 then
            bindE (ro_selectDatabase ops k (ex_full st) (ex_visitor st)) (\<lambda>(ok, s).
              if \<not> ok then Inr (st\<lparr>ex_visitor := s\<rparr>)
              else
                bindE (assertE (key_eq k (ex_full st)) ''keys[0] == full'') (\<lambda>_.
                bindE (ro_databaseSchema ops s) (\<lambda>dbSchema.
                bindE (database_rule dbSchema k) (\<lambda>dbRule.
                bindE (foldE (\<lambda>r. expand_read ops dbSchema rq [r, dbRule] (rule_preds r) (depth + 1))
                         (rule_rules dbRule) (start_second dbSchema k s)) (\<lambda>st2.
                  Inr (st\<lparr>ex_visitor := ex_visitor st2\<rparr>))))))
          else
            bindE (assertE (depth = 1) ''depth == 0 || depth == 1'') (\<lambda>_.
            bindE (ro_selectIndex ops k (ex_full st) (ex_visitor st)) (\<lambda>(ok, s).
              if \<not> ok then Inr (st\<lparr>ex_visitor := s\<rparr>)
              else foldE (\<lambda>r. expand_read ops sch rq (r # path) (rule_preds r) (depth + 1))
                     rules (st\<lparr>ex_visitor := s\<rparr>))))"
| "expand_read ops sch rq path (p # ps) depth st =
     bindE (assertE (depth < 3) ''depth < 3'') (\<lambda>_.
     bindE (ro_values ops rq (pred_keyword p) (rule_registry sch path) (ex_visitor st)) (\<lambda>(values, s).
     bindE (if values = [] \<and> pred_optional p then bindE (pred_default p) (\<lambda>d. Inr [d]) else Inr values) (\<lambda>values.
       foldE (\<lambda>value st.
         let st = push_level depth (pred_keyword p) value st
         in bindE (if pred_match p (ex_keys st ! depth) then expand_read ops sch rq path ps depth st
                   else Inr st) (\<lambda>st.
            pop_level depth (pred_keyword p) st)) values (st\<lparr>ex_visitor := s\<rparr>))))"
  by pat_completeness auto

termination
  by (relation "measures [\<lambda>(ops, sch, rq, path, ps, depth, st). 3 - depth,
                          \<lambda>(ops, sch, rq, path, ps, depth, st). length ps]")
    (auto simp: assertE_eq_Inr)

definition schema_expand_read :: "'s read_ops \<Rightarrow> schema \<Rightarrow> mars_request \<Rightarrow> 's \<Rightarrow> 's res" where
  "schema_expand_read ops sch rq s =
     bindE (foldE (\<lambda>r. expand_read ops sch rq [r] (rule_preds r) 0) (sch_rules sch) (start_expansion sch s))
       (\<lambda>st. Inr (ex_visitor st))"


section \<open>The expansion as a search without mutable keys\<close>

text \<open>
  The specification of writing: three nested searches that build their keys from scratch. Every
  step is skipped once a rule has been found.
\<close>

definition write_datum ::
    "'s write_ops \<Rightarrow> schema \<Rightarrow> key \<Rightarrow> located \<Rightarrow> key \<Rightarrow> rule \<Rightarrow> 's wvisitor \<Rightarrow> 's wvisitor res" where
  "write_datum ops sch field path full r v =
     (if wv_rule v \<noteq> None then Inr v
      else bindE (level_values field (rule_preds r)) (\<lambda>found.
        case found of
          None \<Rightarrow> Inr v
        | Some kvs \<Rightarrow>
            bindE (wo_selectDatum ops (r # path)
                     (push_all kvs (new_key (Some (rule_registry sch (r # path))))) (push_all kvs full) (wv_state v))
              (\<lambda>s. Inr (v\<lparr>wv_rule := Some (r # path), wv_state := s\<rparr>))))"

definition write_index ::
    "'s write_ops \<Rightarrow> schema \<Rightarrow> key \<Rightarrow> located \<Rightarrow> key \<Rightarrow> rule \<Rightarrow> 's wvisitor \<Rightarrow> 's wvisitor res" where
  "write_index ops sch field path full r v =
     (if wv_rule v \<noteq> None then Inr v
      else bindE (level_values field (rule_preds r)) (\<lambda>found.
        case found of
          None \<Rightarrow> Inr v
        | Some kvs \<Rightarrow>
            (let k = push_all kvs (new_key (Some (rule_registry sch (r # path)))); full = push_all kvs full
             in bindE (if \<not> key_eq k (wv_prev1 v)
                       then bindE (wo_selectIndex ops k full (wv_state v)) (\<lambda>s.
                              Inr (v\<lparr>wv_state := s, wv_prev1 := k\<rparr>))
                       else Inr v) (\<lambda>v.
                foldE (write_datum ops sch field (r # path) full) (rule_rules r) v))))"

definition write_database ::
    "'s write_ops \<Rightarrow> schema \<Rightarrow> key \<Rightarrow> rule \<Rightarrow> 's wvisitor \<Rightarrow> 's wvisitor res" where
  "write_database ops sch field r v =
     (if wv_rule v \<noteq> None then Inr v
      else bindE (level_values field (rule_preds r)) (\<lambda>found.
        case found of
          None \<Rightarrow> Inr v
        | Some kvs \<Rightarrow>
            (let k = push_all kvs (new_key (Some (rule_registry sch [r])));
                 full = push_all kvs (new_key (Some (schema_registry sch)))
             in bindE (if \<not> key_eq k (wv_prev0 v)
                       then bindE (wo_selectDatabase ops k full (wv_state v)) (\<lambda>s.
                              Inr (v\<lparr>wv_state := s, wv_prev0 := k, wv_prev1 := new_key None\<rparr>))
                       else Inr v) (\<lambda>v.
                bindE (wo_databaseSchema ops (wv_state v)) (\<lambda>dbSchema.
                bindE (database_rule dbSchema k) (\<lambda>dbRule.
                  foldE (write_index ops dbSchema field [dbRule] k) (rule_rules dbRule) v))))))"

subsection \<open>Levels\<close>

definition level_ok :: "string list \<Rightarrow> nat \<Rightarrow> 'v expansion \<Rightarrow> bool" where
  "level_ok ks d st \<longleftrightarrow> d < length (ex_keys st) \<and> fresh_for ks (ex_keys st ! d) \<and> fresh_for ks (ex_full st)"

definition push_levels :: "nat \<Rightarrow> (string \<times> string) list \<Rightarrow> 'v expansion \<Rightarrow> 'v expansion" where
  "push_levels d kvs st = fold (\<lambda>(k, v). push_level d k v) kvs st"

lemma push_levels_simps [simp]:
  "push_levels d [] st = st"
  "push_levels d ((k, v) # kvs) st = push_levels d kvs (push_level d k v st)"
  by (simp_all add: push_levels_def)

lemma push_level_sel [simp]:
  "ex_full (push_level d k v st) = push_key k v (ex_full st)"
  "ex_visitor (push_level d k v st) = ex_visitor st"
  "length (ex_keys (push_level d k v st)) = length (ex_keys st)"
  "d < length (ex_keys st) \<Longrightarrow> ex_keys (push_level d k v st) ! d = push_key k v (ex_keys st ! d)"
  by (simp_all add: push_level_def set_level_def)

lemma push_levels_eq:
  "d < length (ex_keys st) \<Longrightarrow>
   push_levels d kvs st = st\<lparr>ex_keys := (ex_keys st)[d := push_all kvs (ex_keys st ! d)],
     ex_full := push_all kvs (ex_full st)\<rparr>"
  by (induction kvs arbitrary: st) (auto simp: push_level_def set_level_def)

lemma level_ok_push: "level_ok (k # ks) d st \<Longrightarrow> level_ok ks d (push_level d k v st)"
  by (auto simp: level_ok_def intro: fresh_push)

lemma pop_push_level:
  "level_ok (k # ks) d st \<Longrightarrow> pop_level d k (push_level d k v st) = Inr st"
proof -
  assume ok: "level_ok (k # ks) d st"
  then have "fresh_for (k # ks) (ex_full st)" and "fresh_for (k # ks) (ex_keys st ! d)"
    and "d < length (ex_keys st)" by (simp_all add: level_ok_def)
  then show ?thesis
    by (simp add: pop_level_def fresh_pop [of k ks]) (simp add: push_level_def set_level_def)
qed

fun pop_levels :: "nat \<Rightarrow> string list \<Rightarrow> 'v expansion \<Rightarrow> 'v expansion res" where
  "pop_levels d [] st = Inr st"
| "pop_levels d (k # ks) st = bindE (pop_levels d ks st) (pop_level d k)"

lemma pop_levels_Nil: "pop_levels d [] = Inr"
  by (rule ext) simp

lemma pop_levels_Cons: "pop_levels d (k # ks) = (\<lambda>st. bindE (pop_levels d ks st) (pop_level d k))"
  by (rule ext) simp

text \<open>The recursion over the predicates is the computation of the level's values.\<close>

lemma expand_write_level:
  assumes "level_ok (map pred_keyword ps) d st" and "d < 3"
    and "\<not> (mf \<and> wv_rule (ex_visitor st) \<noteq> None)"
  shows "expand_write ops mf sch field path ps d st =
     bindE (level_values field ps) (\<lambda>r. case r of
       None \<Rightarrow> Inr st
     | Some kvs \<Rightarrow> bindE (expand_write ops mf sch field path [] d (push_levels d kvs st)) (pop_levels d (map fst kvs)))"
  using assms(1,3)
proof (induction ps arbitrary: st)
  case Nil
  show ?case by (simp add: pop_levels_Nil del: expand_write.simps pop_levels.simps)
next
  case (Cons p ps)
  note ok = Cons.prems(1)[simplified]
  have IH: "expand_write ops mf sch field path ps d (push_level d (pred_keyword p) v st) =
     bindE (level_values field ps) (\<lambda>r. case r of
       None \<Rightarrow> Inr (push_level d (pred_keyword p) v st)
     | Some kvs \<Rightarrow> bindE (expand_write ops mf sch field path [] d (push_levels d kvs (push_level d (pred_keyword p) v st)))
         (pop_levels d (map fst kvs)))" for v
    by (rule Cons.IH) (use level_ok_push [OF ok] Cons.prems(2) in auto)
  have d: "d < length (ex_keys st)" using ok by (simp add: level_ok_def)
  show ?case
  proof (cases "pred_value p field")
    case (Inr v)
    then show ?thesis
      using assms(2) Cons.prems(2) d pop_push_level [OF ok]
      by (cases "level_values field ps")
        (auto simp: Inr IH bindE_assoc pop_levels_Cons simp del: expand_write.simps(1) pop_levels.simps split: option.splits)
  qed (use assms(2) Cons.prems(2) in simp)
qed


lemma pop_push_levels:
  "level_ok (map fst kvs) d st \<Longrightarrow> pop_levels d (map fst kvs) (push_levels d kvs st) = Inr st"
proof (induction kvs arbitrary: st)
  case (Cons kv kvs)
  then show ?case
    using level_ok_push [of "fst kv" "map fst kvs" d st] pop_push_level [of "fst kv" "map fst kvs" d st]
    by (cases kv) simp
qed simp

lemma set_registry_push: "set_registry reg (push_key a b k) = push_key a b (set_registry reg k)"
  by (cases k) (simp add: set_registry_def push_key_def)

lemma set_registry_push_all [simp]:
  "set_registry reg (push_all kvs (new_key g)) = push_all kvs (new_key (Some reg))"
proof -
  have "set_registry reg (push_all kvs k) = push_all kvs (set_registry reg k)" for k
    by (induction kvs arbitrary: k) (auto simp: set_registry_push)
  then show ?thesis by (simp add: set_registry_def new_key_def)
qed

definition full_ok :: "string set \<Rightarrow> key \<Rightarrow> bool" where
  "full_ok seen full \<longleftrightarrow> key_ok full \<and> set (key_names full) \<subseteq> seen"

lemma full_fresh: "full_ok seen full \<Longrightarrow> rule_wf seen r \<Longrightarrow> fresh_for (map pred_keyword (rule_preds r)) full"
  using rule_wf_preds [of seen r] rule_wf_fresh [of seen r] by (auto simp: full_ok_def fresh_for_def)

lemma full_ok_push:
  assumes "full_ok seen full" and "rule_wf seen r" and "level_values field (rule_preds r) = Inr (Some kvs)"
  shows "full_ok (seen \<union> pred_keyword ` set (rule_preds r)) (push_all kvs full)"
proof -
  note keys = level_values_keywords [OF assms(3)]
  have "fresh_for (map fst kvs) full" using full_fresh [OF assms(1,2)] by (simp only: keys)
  then have "key_ok (push_all kvs full)" by (rule fresh_push_all)
  then show ?thesis using assms(1) keys by (auto simp: full_ok_def push_all_names)
qed

lemma three_levels_length: "length [a, b, c] = 3" by simp

text \<open>Depth 2: one leaf of the database's schema.\<close>

lemma expand_write_datum:
  assumes full: "full_ok seen full" and wf: "rule_wf seen r" and leaf: "rule_rules r = []"
  shows "\<exists>g'. expand_write ops True sch field (r # path) (rule_preds r) 2
       \<lparr>ex_keys = [k0, k1, new_key g], ex_full = full, ex_visitor = v\<rparr> =
     bindE (write_datum ops sch field path full r v)
       (\<lambda>v'. Inr \<lparr>ex_keys = [k0, k1, new_key g'], ex_full = full, ex_visitor = v'\<rparr>)"
proof (cases "wv_rule v")
  case (Some path')
  then show ?thesis
    by (cases "rule_preds r") (auto simp: write_datum_def intro: exI [of _ g])
next
  case None
  let ?st = "\<lambda>g v. \<lparr>ex_keys = [k0, k1, new_key g], ex_full = full, ex_visitor = v\<rparr>"
  have ok: "level_ok (map pred_keyword (rule_preds r)) 2 (?st g v)" for g v
    using full_fresh [OF full wf] rule_wf_preds [OF wf] by (simp add: level_ok_def)
  note eq = expand_write_level [OF ok, of True, simplified, OF None]
  show ?thesis
  proof (cases "level_values field (rule_preds r)")
    case (Inl err)
    then show ?thesis by (simp add: eq write_datum_def None)
  next
    case (Inr found)
    show ?thesis
    proof (cases found)
      case none: None
      show ?thesis by (rule exI [of _ g]) (simp add: eq write_datum_def None Inr none)
    next
      case (Some kvs)
      let ?reg = "rule_registry sch (r # path)"
      note keys = level_values_keywords [OF Inr[unfolded Some]]
      have popped: "pop_levels 2 (map fst kvs)
          \<lparr>ex_keys = [k0, k1, push_all kvs (new_key (Some ?reg))], ex_full = push_all kvs full, ex_visitor = v'\<rparr> =
          Inr (?st (Some ?reg) v')" for v'
        using pop_push_levels [of kvs 2 "?st (Some ?reg) v'"] ok [of "Some ?reg" v']
        by (simp add: keys push_levels_eq)
      show ?thesis
        by (rule exI [of _ "Some ?reg"])
          (simp add: eq write_datum_def None Inr Some push_levels_eq set_level_def leaf select_datum_write_def
            bindE_assoc popped del: rule_registry.simps)
    qed
  qed
qed

text \<open>Depth 1: one second-level rule of the database's schema, with its leaves.\<close>

lemma expand_write_index:
  assumes full: "full_ok seen full" and wf: "rule_wf seen r"
    and inner: "rule_rules r \<noteq> []" and leaves: "\<forall>l \<in> set (rule_rules r). rule_rules l = []"
  shows "\<exists>g'. expand_write ops True sch field (r # path) (rule_preds r) 1
       \<lparr>ex_keys = [k0, new_key (fst g), new_key (snd g)], ex_full = full, ex_visitor = v\<rparr> =
     bindE (write_index ops sch field path full r v)
       (\<lambda>v'. Inr \<lparr>ex_keys = [k0, new_key (fst g'), new_key (snd g')], ex_full = full, ex_visitor = v'\<rparr>)"
proof (cases "wv_rule v")
  case (Some path')
  then show ?thesis
    by (cases "rule_preds r") (auto simp: write_index_def intro: exI [of _ g])
next
  case None
  let ?st = "\<lambda>g v. \<lparr>ex_keys = [k0, new_key (fst g), new_key (snd g)], ex_full = full, ex_visitor = v\<rparr>"
  have ok: "level_ok (map pred_keyword (rule_preds r)) 1 (?st g v)" for g v
    using full_fresh [OF full wf] rule_wf_preds [OF wf] by (simp add: level_ok_def)
  note eq = expand_write_level [OF ok, of True, simplified, OF None]
  show ?thesis
  proof (cases "level_values field (rule_preds r)")
    case (Inl err)
    then show ?thesis by (simp add: eq write_index_def None)
  next
    case (Inr found)
    show ?thesis
    proof (cases found)
      case none: None
      show ?thesis by (rule exI [of _ g]) (simp add: eq write_index_def None Inr none)
    next
      case (Some kvs)
      let ?reg = "rule_registry sch (r # path)"
      let ?k = "push_all kvs (new_key (Some ?reg))" and ?full = "push_all kvs full"
      note lev = Inr[unfolded Some]
      note keys = level_values_keywords [OF lev]
      let ?in = "\<lambda>g v. \<lparr>ex_keys = [k0, ?k, new_key g], ex_full = ?full, ex_visitor = v\<rparr>"
      have fold: "\<exists>g'. foldE (\<lambda>l. expand_write ops True sch field (l # r # path) (rule_preds l) 2) (rule_rules r) (?in g v1) =
          bindE (foldE (write_datum ops sch field (r # path) ?full) (rule_rules r) v1) (\<lambda>v'. Inr (?in g' v'))" for g v1
      proof (rule foldE_simulation [where S = ?in])
        fix l g v1
        assume l: "l \<in> set (rule_rules r)"
        have "rule_wf (seen \<union> pred_keyword ` set (rule_preds r)) l"
          using rule_wf_children [OF wf] l by (simp add: rules_wf_all)
        then show "\<exists>g'. expand_write ops True sch field (l # r # path) (rule_preds l) 2 (?in g v1) =
            bindE (write_datum ops sch field (r # path) ?full l v1) (\<lambda>v'. Inr (?in g' v'))"
          by (rule expand_write_datum [OF full_ok_push [OF full wf lev]]) (use leaves l in blast)
      qed
      have popped: "pop_levels 1 (map fst kvs) (?in g' v') = Inr (?st (Some ?reg, g') v')" for g' v'
        using pop_push_levels [of kvs 1 "?st (Some ?reg, g') v'"] ok [of "(Some ?reg, g')" v']
        by (simp add: keys push_levels_eq)
      define sel where "sel = (if \<not> key_eq ?k (wv_prev1 v)
                  then bindE (wo_selectIndex ops ?k ?full (wv_state v)) (\<lambda>s. Inr (v\<lparr>wv_state := s, wv_prev1 := ?k\<rparr>))
                  else Inr v)"
      have step: "expand_write ops True sch field (r # path) (rule_preds r) 1 (?st g v) =
          bindE (bindE sel (\<lambda>v1. foldE (\<lambda>l. expand_write ops True sch field (l # r # path) (rule_preds l) 2) (rule_rules r) (?in (snd g) v1)))
            (pop_levels 1 (map fst kvs))"
        by (simp add: eq None Inr Some push_levels_eq set_level_def inner select_index_write_def Let_def
            numeral_2_eq_2 sel_def del: rule_registry.simps)
      have spec: "write_index ops sch field path full r v =
          bindE sel (foldE (write_datum ops sch field (r # path) ?full) (rule_rules r))"
        by (simp add: write_index_def None Inr Some Let_def sel_def del: rule_registry.simps)
      show ?thesis
      proof (cases sel)
        case (Inl err)
        show ?thesis unfolding step spec by (simp add: Inl)
      next
        case sel: (Inr v1)
        obtain g' where g': "foldE (\<lambda>l. expand_write ops True sch field (l # r # path) (rule_preds l) 2) (rule_rules r) (?in (snd g) v1) =
          bindE (foldE (write_datum ops sch field (r # path) ?full) (rule_rules r) v1) (\<lambda>v'. Inr (?in g' v'))"
          using fold by blast
        show ?thesis
          unfolding step spec
          by (rule exI [of _ "(Some ?reg, g')"])
            (simp add: sel g' bindE_assoc popped [unfolded One_nat_def] del: rule_registry.simps)
      qed
    qed
  qed
qed


text \<open>Depth 0: one rule of the schema, and the rules of the database's schema below it.\<close>

definition three_levels :: "rule \<Rightarrow> bool" where
  "three_levels r \<longleftrightarrow> rule_rules r \<noteq> [] \<and>
     list_all (\<lambda>r1. rule_rules r1 \<noteq> [] \<and> list_all (\<lambda>r2. rule_rules r2 = []) (rule_rules r1)) (rule_rules r)"

text \<open>
  The schema of a database fits the schema of the configuration: its rules have three levels,
  and the keywords of the lower levels do not occur twice, nor on the first level of either.
\<close>

definition schema_fits :: "schema \<Rightarrow> schema \<Rightarrow> bool" where
  "schema_fits sch dbs \<longleftrightarrow> list_all three_levels (sch_rules dbs) \<and>
     list_all (\<lambda>r. list_all (\<lambda>d. rules_wf (pred_keyword ` set (rule_preds r)) (rule_rules d)) (sch_rules dbs))
       (sch_rules sch)"

lemma database_rule_Inr: "database_rule dbs k = Inr d \<Longrightarrow> d \<in> set (sch_rules dbs) \<and> rule_match d k"
proof -
  assume "database_rule dbs k = Inr d"
  then obtain rest where "filter (\<lambda>r. rule_match r k) (sch_rules dbs) = d # rest"
    by (auto simp: database_rule_def split: list.splits)
  then have "d \<in> set (filter (\<lambda>r. rule_match r k) (sch_rules dbs))" by simp
  then show ?thesis by simp
qed

lemma expand_write_database:
  assumes wf: "rule_wf {} r" and inner: "rule_rules r \<noteq> []" and r: "r \<in> set (sch_rules sch)"
    and fits: "\<And>s dbs. wo_databaseSchema ops s = Inr dbs \<Longrightarrow> schema_fits sch dbs"
  shows "\<exists>g'. expand_write ops True sch field [r] (rule_preds r) 0
       \<lparr>ex_keys = [new_key g, k1, k2], ex_full = new_key (Some (schema_registry sch)), ex_visitor = v\<rparr> =
     bindE (write_database ops sch field r v)
       (\<lambda>v'. Inr \<lparr>ex_keys = [new_key g', k1, k2], ex_full = new_key (Some (schema_registry sch)), ex_visitor = v'\<rparr>)"
proof (cases "wv_rule v")
  case (Some path')
  then show ?thesis
    by (cases "rule_preds r") (auto simp: write_database_def intro: exI [of _ g])
next
  case None
  let ?full = "new_key (Some (schema_registry sch))"
  let ?st = "\<lambda>g v. \<lparr>ex_keys = [new_key g, k1, k2], ex_full = ?full, ex_visitor = v\<rparr>"
  have ok: "level_ok (map pred_keyword (rule_preds r)) 0 (?st g v)" for g v
    using rule_wf_preds [OF wf] by (simp add: level_ok_def)
  note eq = expand_write_level [OF ok, of True, simplified, OF None]
  show ?thesis
  proof (cases "level_values field (rule_preds r)")
    case (Inl err)
    then show ?thesis by (simp add: eq write_database_def None)
  next
    case (Inr found)
    show ?thesis
    proof (cases found)
      case none: None
      show ?thesis by (rule exI [of _ g]) (simp add: eq write_database_def None Inr none)
    next
      case (Some kvs)
      let ?reg = "rule_registry sch [r]"
      let ?k = "push_all kvs (new_key (Some ?reg))"
      let ?in = "\<lambda>v. \<lparr>ex_keys = [?k, k1, k2], ex_full = push_all kvs ?full, ex_visitor = v\<rparr>"
      note lev = Inr[unfolded Some]
      note keys = level_values_keywords [OF lev]
      have kwf: "full_ok (pred_keyword ` set (rule_preds r)) ?k"
        using full_ok_push [of "{}" "new_key (Some ?reg)", OF _ wf lev] by (simp add: full_ok_def)
      have popped: "pop_levels 0 (map fst kvs) (?in v') = Inr (?st (Some ?reg) v')" for v'
        using pop_push_levels [of kvs 0 "?st (Some ?reg) v'"] ok [of "Some ?reg" v']
        by (simp add: keys push_levels_eq)
      have second: "\<exists>g2. foldE (\<lambda>l. expand_write ops True dbs field [l, d] (rule_preds l) 1) (rule_rules d) (start_second dbs ?k v1) =
          bindE (foldE (write_index ops dbs field [d] ?k) (rule_rules d) v1)
            (\<lambda>v'. Inr \<lparr>ex_keys = [?k, new_key (fst g2), new_key (snd g2)], ex_full = ?k, ex_visitor = v'\<rparr>)"
        if d: "d \<in> set (sch_rules dbs)" and fit: "schema_fits sch dbs" for dbs d v1
      proof -
        let ?S = "\<lambda>g v. \<lparr>ex_keys = [?k, new_key (fst g), new_key (snd g)], ex_full = ?k, ex_visitor = v\<rparr>"
        let ?g = "(Some (schema_registry dbs), Some (schema_registry dbs))"
        have three: "three_levels d" and wfs: "rules_wf (pred_keyword ` set (rule_preds r)) (rule_rules d)"
          using d fit r by (auto simp: schema_fits_def list_all_iff)
        have "\<exists>g2. foldE (\<lambda>l. expand_write ops True dbs field [l, d] (rule_preds l) 1) (rule_rules d) (?S ?g v1) =
          bindE (foldE (write_index ops dbs field [d] ?k) (rule_rules d) v1) (\<lambda>v'. Inr (?S g2 v'))"
        proof (rule foldE_simulation [where S = ?S])
          fix l g v1
          assume l: "l \<in> set (rule_rules d)"
          show "\<exists>g2. expand_write ops True dbs field [l, d] (rule_preds l) 1 (?S g v1) =
            bindE (write_index ops dbs field [d] ?k l v1) (\<lambda>v'. Inr (?S g2 v'))"
          proof (rule expand_write_index [OF kwf])
            show "rule_wf (pred_keyword ` set (rule_preds r)) l" using wfs l by (simp add: rules_wf_all)
            show "rule_rules l \<noteq> []" and "\<forall>l' \<in> set (rule_rules l). rule_rules l' = []"
              using three l unfolding three_levels_def list_all_iff by blast+
          qed
        qed
        moreover have "start_second dbs ?k v1 = ?S ?g v1" unfolding start_second_def by (simp only: fst_conv snd_conv)
        ultimately show ?thesis by (simp only:)
      qed
      define sel where "sel = (if \<not> key_eq ?k (wv_prev0 v)
           then bindE (wo_selectDatabase ops ?k (push_all kvs ?full) (wv_state v)) (\<lambda>s.
             Inr (v\<lparr>wv_state := s, wv_prev0 := ?k, wv_prev1 := new_key None\<rparr>))
           else Inr v)"
      have step: "expand_write ops True sch field [r] (rule_preds r) 0 (?st g v) =
          bindE (bindE sel (\<lambda>v. bindE (wo_databaseSchema ops (wv_state v)) (\<lambda>dbs. bindE (database_rule dbs ?k) (\<lambda>d.
            bindE (foldE (\<lambda>l. expand_write ops True dbs field [l, d] (rule_preds l) 1) (rule_rules d) (start_second dbs ?k v))
              (\<lambda>st2. Inr (?in (ex_visitor st2)))))))
            (pop_levels 0 (map fst kvs))"
        by (simp add: eq None Inr Some push_levels_eq set_level_def inner select_database_write_def Let_def sel_def
            del: rule_registry.simps)
      have spec: "write_database ops sch field r v =
          bindE sel (\<lambda>v. bindE (wo_databaseSchema ops (wv_state v)) (\<lambda>dbs. bindE (database_rule dbs ?k) (\<lambda>d.
            foldE (write_index ops dbs field [d] ?k) (rule_rules d) v)))"
        by (simp add: write_database_def None Inr Some Let_def sel_def del: rule_registry.simps)
      show ?thesis
      proof (rule exI [of _ "Some ?reg"], cases sel)
        case (Inl err)
        show "expand_write ops True sch field [r] (rule_preds r) 0 (?st g v) =
          bindE (write_database ops sch field r v) (\<lambda>v'. Inr (?st (Some ?reg) v'))"
          unfolding step spec by (simp add: Inl)
      next
        case v1: (Inr v1)
        show "expand_write ops True sch field [r] (rule_preds r) 0 (?st g v) =
          bindE (write_database ops sch field r v) (\<lambda>v'. Inr (?st (Some ?reg) v'))"
        proof (cases "wo_databaseSchema ops (wv_state v1)")
          case (Inl err)
          then show ?thesis unfolding step spec by (simp add: v1)
        next
          case dbs: (Inr dbs)
          show ?thesis
          proof (cases "database_rule dbs ?k")
            case (Inl err)
            then show ?thesis unfolding step spec by (simp add: v1 dbs)
          next
            case d: (Inr d)
            obtain g2 where g2: "foldE (\<lambda>l. expand_write ops True dbs field [l, d] (rule_preds l) 1) (rule_rules d) (start_second dbs ?k v1) =
              bindE (foldE (write_index ops dbs field [d] ?k) (rule_rules d) v1)
                (\<lambda>v'. Inr \<lparr>ex_keys = [?k, new_key (fst g2), new_key (snd g2)], ex_full = ?k, ex_visitor = v'\<rparr>)"
              using second fits [OF dbs] database_rule_Inr [OF d] by blast
            show ?thesis
              unfolding step spec
              by (simp add: v1 dbs d g2 [unfolded One_nat_def] bindE_assoc popped del: rule_registry.simps)
          qed
        qed
      qed
    qed
  qed
qed

lemma expand_write_search:
  assumes "schema_wf sch" and "\<forall>r \<in> set (sch_rules sch). rule_rules r \<noteq> []"
    and "\<forall>s dbs. wo_databaseSchema ops s = Inr dbs \<longrightarrow> schema_fits sch dbs"
  shows "schema_expand_write ops True sch field v =
    foldE (write_database ops sch field) (sch_rules sch) (v\<lparr>wv_rule := None\<rparr>)"
proof -
  let ?g = "Some (schema_registry sch)"
  let ?S = "\<lambda>g v. \<lparr>ex_keys = [new_key g, new_key ?g, new_key ?g], ex_full = new_key ?g, ex_visitor = v\<rparr>"
  have "\<exists>g'. foldE (\<lambda>r. expand_write ops True sch field [r] (rule_preds r) 0) (sch_rules sch) (?S ?g (v\<lparr>wv_rule := None\<rparr>)) =
     bindE (foldE (write_database ops sch field) (sch_rules sch) (v\<lparr>wv_rule := None\<rparr>)) (\<lambda>v'. Inr (?S g' v'))"
    by (rule foldE_simulation [where S = ?S], rule expand_write_database)
      (use assms in \<open>auto simp: schema_wf_def rules_wf_all\<close>)
  then show ?thesis
    by (auto simp: schema_expand_write_def start_expansion_def numeral_3_eq_3 bindE_assoc)
qed

section \<open>What is selected\<close>

text \<open>A visitor that writes down what it is told to select.\<close>

datatype event =
    SelDatabase key key
  | SelIndex key key
  | SelDatum located key key

definition log_ops :: "schema \<Rightarrow> event list write_ops" where
  "log_ops dbs = \<lparr>
     wo_selectDatabase = (\<lambda>k full s. Inr (s @ [SelDatabase k full])),
     wo_selectIndex = (\<lambda>k full s. Inr (s @ [SelIndex k full])),
     wo_selectDatum = (\<lambda>path k full s. Inr (s @ [SelDatum path k full])),
     wo_databaseSchema = (\<lambda>s. Inr dbs)\<rparr>"

fun datums :: "event list \<Rightarrow> (located \<times> key \<times> key) list" where
  "datums [] = []"
| "datums (SelDatum path k full # es) = (path, k, full) # datums es"
| "datums (_ # es) = datums es"

lemma datums_append [simp]: "datums (es @ fs) = datums es @ datums fs"
  by (induction es rule: datums.induct) simp_all

text \<open>All leaves of the schemas whose three levels take the field, in the order of the files.\<close>

definition datum_leaves :: "schema \<Rightarrow> key \<Rightarrow> located \<Rightarrow> key \<Rightarrow> rule \<Rightarrow> (located \<times> key \<times> key) list" where
  "datum_leaves sch field path full r =
     (case level_values field (rule_preds r) of
        Inr (Some kvs) \<Rightarrow> [(r # path, push_all kvs (new_key (Some (rule_registry sch (r # path)))), push_all kvs full)]
      | _ \<Rightarrow> [])"

definition index_leaves :: "schema \<Rightarrow> key \<Rightarrow> located \<Rightarrow> key \<Rightarrow> rule \<Rightarrow> (located \<times> key \<times> key) list" where
  "index_leaves sch field path full r =
     (case level_values field (rule_preds r) of
        Inr (Some kvs) \<Rightarrow> concat (map (datum_leaves sch field (r # path) (push_all kvs full)) (rule_rules r))
      | _ \<Rightarrow> [])"

definition database_leaves :: "schema \<Rightarrow> schema \<Rightarrow> key \<Rightarrow> rule \<Rightarrow> (located \<times> key \<times> key) list" where
  "database_leaves dbs sch field r =
     (case level_values field (rule_preds r) of
        Inr (Some kvs) \<Rightarrow>
          (let k = push_all kvs (new_key (Some (rule_registry sch [r])))
           in case database_rule dbs k of
                Inr d \<Rightarrow> concat (map (index_leaves dbs field [d] k) (rule_rules d))
              | _ \<Rightarrow> [])
      | _ \<Rightarrow> [])"

definition write_leaves :: "schema \<Rightarrow> schema \<Rightarrow> key \<Rightarrow> (located \<times> key \<times> key) list" where
  "write_leaves dbs sch field = concat (map (database_leaves dbs sch field) (sch_rules sch))"

text \<open>The visitor has selected the first of the leaves seen so far, and nothing else.\<close>

definition selected :: "event list wvisitor \<Rightarrow> (located \<times> key \<times> key) list \<Rightarrow> bool" where
  "selected v leaves \<longleftrightarrow> wv_rule v = map_option fst (first_of leaves) \<and>
     datums (wv_state v) = (case first_of leaves of None \<Rightarrow> [] | Some l \<Rightarrow> [l])"

lemma selected_more: "selected v leaves \<Longrightarrow> wv_rule v \<noteq> None \<Longrightarrow> selected v (leaves @ others)"
  by (auto simp: selected_def first_of_append split: option.splits)

lemma selected_none: "selected v leaves \<Longrightarrow> wv_rule v = None \<Longrightarrow> leaves = []"
  by (cases leaves) (simp_all add: selected_def)

lemma foldE_collect:
  assumes "\<And>x v v' acc. x \<in> set xs \<Longrightarrow> P v acc \<Longrightarrow> f x v = Inr v' \<Longrightarrow> P v' (acc @ g x)"
    and "P v acc" and "foldE f xs v = Inr v'"
  shows "P v' (acc @ concat (map g xs))"
  using assms
proof (induction xs arbitrary: v acc)
  case (Cons x xs)
  from Cons.prems(3) obtain v1 where v1: "f x v = Inr v1" and rest: "foldE f xs v1 = Inr v'"
    by (auto simp: bindE_eq_Inr)
  have "P v' ((acc @ g x) @ concat (map g xs))"
    by (rule Cons.IH [OF _ _ rest]) (use Cons.prems(1,2) v1 in auto)
  then show ?case by simp
qed simp

lemma selected_datum:
  assumes "selected v acc" and "write_datum (log_ops dbs) sch field path full r v = Inr v'"
  shows "selected v' (acc @ datum_leaves sch field path full r)"
proof (cases "wv_rule v")
  case None
  from assms(2) None obtain found where found: "level_values field (rule_preds r) = Inr found"
    by (auto simp: write_datum_def bindE_eq_Inr)
  note acc = selected_none [OF assms(1) None]
  show ?thesis
  proof (cases found)
    case none: None
    with assms found None show ?thesis by (simp add: write_datum_def datum_leaves_def)
  next
    case (Some kvs)
    with assms(2) None found have "v' = v\<lparr>wv_rule := Some (r # path), wv_state := wv_state v @
        [SelDatum (r # path) (push_all kvs (new_key (Some (rule_registry sch (r # path))))) (push_all kvs full)]\<rparr>"
      by (simp add: write_datum_def log_ops_def del: rule_registry.simps)
    with assms(1) found Some show ?thesis
      by (simp add: selected_def datum_leaves_def acc del: rule_registry.simps)
  qed
next
  case (Some p)
  with assms selected_more [OF assms(1)] show ?thesis by (simp add: write_datum_def)
qed

lemma selected_index:
  assumes "selected v acc" and "write_index (log_ops dbs) sch field path full r v = Inr v'"
  shows "selected v' (acc @ index_leaves sch field path full r)"
proof (cases "wv_rule v")
  case None
  from assms(2) None obtain found where found: "level_values field (rule_preds r) = Inr found"
    by (auto simp: write_index_def bindE_eq_Inr)
  show ?thesis
  proof (cases found)
    case none: None
    with assms found None show ?thesis by (simp add: write_index_def index_leaves_def)
  next
    case (Some kvs)
    let ?k = "push_all kvs (new_key (Some (rule_registry sch (r # path))))"
    define v1 where "v1 = (if \<not> key_eq ?k (wv_prev1 v)
      then v\<lparr>wv_state := wv_state v @ [SelIndex ?k (push_all kvs full)], wv_prev1 := ?k\<rparr> else v)"
    have "selected v1 acc" using assms(1) by (simp add: v1_def selected_def)
    moreover have "foldE (write_datum (log_ops dbs) sch field (r # path) (push_all kvs full)) (rule_rules r) v1 = Inr v'"
      using assms(2) None found Some
      by (simp add: write_index_def v1_def Let_def log_ops_def del: rule_registry.simps split: if_splits)
    ultimately have "selected v' (acc @ concat (map (datum_leaves sch field (r # path) (push_all kvs full)) (rule_rules r)))"
      by (rule foldE_collect [where P = selected, rotated]) (erule (1) selected_datum)
    with found Some show ?thesis by (simp add: index_leaves_def)
  qed
next
  case (Some p)
  with assms selected_more [OF assms(1)] show ?thesis by (simp add: write_index_def)
qed

lemma selected_database:
  assumes "selected v acc" and "write_database (log_ops dbs) sch field r v = Inr v'"
  shows "selected v' (acc @ database_leaves dbs sch field r)"
proof (cases "wv_rule v")
  case None
  from assms(2) None obtain found where found: "level_values field (rule_preds r) = Inr found"
    by (auto simp: write_database_def bindE_eq_Inr)
  show ?thesis
  proof (cases found)
    case none: None
    with assms found None show ?thesis by (simp add: write_database_def database_leaves_def)
  next
    case (Some kvs)
    let ?k = "push_all kvs (new_key (Some (rule_registry sch [r])))"
    let ?full = "push_all kvs (new_key (Some (schema_registry sch)))"
    define v1 where "v1 = (if \<not> key_eq ?k (wv_prev0 v)
      then v\<lparr>wv_state := wv_state v @ [SelDatabase ?k ?full], wv_prev0 := ?k, wv_prev1 := new_key None\<rparr> else v)"
    have sel: "selected v1 acc" using assms(1) by (simp add: v1_def selected_def)
    have "bindE (database_rule dbs ?k) (\<lambda>d. foldE (write_index (log_ops dbs) dbs field [d] ?k) (rule_rules d) v1) = Inr v'"
      using assms(2) None found Some
      by (simp add: write_database_def v1_def Let_def log_ops_def del: rule_registry.simps split: if_splits)
    then obtain d where d: "database_rule dbs ?k = Inr d"
      and fold: "foldE (write_index (log_ops dbs) dbs field [d] ?k) (rule_rules d) v1 = Inr v'"
      by (auto simp: bindE_eq_Inr)
    have "selected v' (acc @ concat (map (index_leaves dbs field [d] ?k) (rule_rules d)))"
      by (rule foldE_collect [where P = selected, OF _ sel fold]) (erule (1) selected_index)
    with found Some d show ?thesis by (simp add: database_leaves_def Let_def del: rule_registry.simps)
  qed
next
  case (Some p)
  with assms selected_more [OF assms(1)] show ?thesis by (simp add: write_database_def)
qed

section \<open>Properties\<close>

text \<open>
  C9: Archiving a field is a search without side effects on the keys. On a well-formed schema whose
  database schemas fit it, \<open>Schema::expand\<close> with its keys pushed and popped in place does exactly
  what three nested searches with freshly built keys do: it calls the visitor with the same
  databases, indexes and datum, in the same order, leaves the same visitor, and fails with the same
  errors; no push is left behind by a branch that did not match.
\<close>
theorem expand_write_refines:
  assumes "schema_wf sch" and "\<forall>r \<in> set (sch_rules sch). rule_rules r \<noteq> []"
    and "\<forall>s dbs. wo_databaseSchema ops s = Inr dbs \<longrightarrow> schema_fits sch dbs"
  shows "schema_expand_write ops True sch field v =
    foldE (write_database ops sch field) (sch_rules sch) (v\<lparr>wv_rule := None\<rparr>)"
  using assms by (rule expand_write_search)

definition trivial_schema :: schema where
  "trivial_schema = \<lparr>sch_types = [], sch_rules =
     [Rule 1 [\<lparr>pred_keyword = ''class'', pred_matcher = MatchAlways\<rparr>]
       [Rule 1 [\<lparr>pred_keyword = ''type'', pred_matcher = MatchValue ''an''\<rparr>]
          [Rule 1 [\<lparr>pred_keyword = ''step'', pred_matcher = MatchAlways\<rparr>] [] []] [],
        Rule 2 [\<lparr>pred_keyword = ''type'', pred_matcher = MatchAlways\<rparr>]
          [Rule 2 [\<lparr>pred_keyword = ''step'', pred_matcher = MatchAlways\<rparr>] [] []] []] []]\<rparr>"

lemma trivial_schema_ok:
  "schema_wf trivial_schema" "\<forall>r \<in> set (sch_rules trivial_schema). rule_rules r \<noteq> []"
  "schema_fits trivial_schema trivial_schema"
  by (simp_all add: schema_wf_def trivial_schema_def schema_fits_def three_levels_def)

lemma expand_write_refines_witness:
  "schema_expand_write (log_ops trivial_schema) True trivial_schema od_key (new_wvisitor od_key od_key []) =
    foldE (write_database (log_ops trivial_schema) trivial_schema od_key) (sch_rules trivial_schema)
      (new_wvisitor od_key od_key [])"
  by (subst expand_write_refines) (auto simp: trivial_schema_ok log_ops_def new_wvisitor_def)


text \<open>
  C25: Each field is archived at most once, and by the first rule. When the expansion of a field
  succeeds, the visitor has been told to archive exactly one datum if some leaf of the schemas takes
  the field, and none otherwise; the datum is that of the first such leaf in the order of the
  schema files, its key and the full key have exactly the values that the levels give, and the
  visitor holds the rule of that leaf.
\<close>
theorem expand_write_first_leaf:
  assumes "schema_wf sch" and "\<forall>r \<in> set (sch_rules sch). rule_rules r \<noteq> []" and "schema_fits sch dbs"
    and "schema_expand_write (log_ops dbs) True sch field (new_wvisitor prev0 prev1 []) = Inr v"
  shows "wv_rule v = map_option fst (first_of (write_leaves dbs sch field)) \<and>
    datums (wv_state v) = (case first_of (write_leaves dbs sch field) of None \<Rightarrow> [] | Some leaf \<Rightarrow> [leaf])"
proof -
  have "schema_expand_write (log_ops dbs) True sch field (new_wvisitor prev0 prev1 []) =
      foldE (write_database (log_ops dbs) sch field) (sch_rules sch) (new_wvisitor prev0 prev1 [])"
    by (subst expand_write_search [OF assms(1,2)]) (use assms(3) in \<open>auto simp: log_ops_def new_wvisitor_def\<close>)
  with assms(4) have fold: "foldE (write_database (log_ops dbs) sch field) (sch_rules sch) (new_wvisitor prev0 prev1 []) = Inr v"
    by simp
  have "selected v ([] @ concat (map (database_leaves dbs sch field) (sch_rules sch)))"
    by (rule foldE_collect [where P = selected, OF _ _ fold])
      (erule (1) selected_database, simp add: selected_def new_wvisitor_def)
  then show ?thesis by (simp add: selected_def write_leaves_def)
qed

lemma expand_write_first_leaf_witness:
  "\<exists>v path. schema_expand_write (log_ops trivial_schema) True trivial_schema od_key
       (new_wvisitor (new_key None) (new_key None) []) = Inr v \<and>
     wv_rule v = Some path \<and> rule_line (hd path) = 2"
proof -
  have sel: "schema_expand_write (log_ops trivial_schema) True trivial_schema od_key
       (new_wvisitor (new_key None) (new_key None) []) =
     foldE (write_database (log_ops trivial_schema) trivial_schema od_key) (sch_rules trivial_schema)
      (new_wvisitor (new_key None) (new_key None) [])"
    by (subst expand_write_search) (auto simp: trivial_schema_ok log_ops_def new_wvisitor_def)
  have "\<exists>v. schema_expand_write (log_ops trivial_schema) True trivial_schema od_key
       (new_wvisitor (new_key None) (new_key None) []) = Inr v"
    unfolding sel
    by (simp add: trivial_schema_def write_database_def write_index_def write_datum_def new_wvisitor_def
      pred_value_def od_key_def key_of_dict_def get_key_def key_find_def log_ops_def database_rule_def
      rule_match_def pred_match_def key_eq_def Let_def push_key_def new_key_def)
  then obtain v where v: "schema_expand_write (log_ops trivial_schema) True trivial_schema od_key
       (new_wvisitor (new_key None) (new_key None) []) = Inr v" by blast
  have "first_of (write_leaves trivial_schema trivial_schema od_key) \<noteq> None \<and>
     rule_line (hd (fst (the (first_of (write_leaves trivial_schema trivial_schema od_key))))) = 2"
    by (simp add: write_leaves_def database_leaves_def index_leaves_def datum_leaves_def trivial_schema_def
      pred_value_def od_key_def key_of_dict_def get_key_def key_find_def database_rule_def
      rule_match_def pred_match_def Let_def push_key_def new_key_def)
  with expand_write_first_leaf [OF trivial_schema_ok v] v show ?thesis by auto
qed

end
