(* ===== verification/FDB_SchemaParser.thy ===== *)
theory FDB_SchemaParser
  imports FDB_Rules
begin

text \<open>
  The parser of schema files (\<open>src/fdb5/rules/SchemaParser.cc\<close>) and \<open>Schema::load\<close>. The base class
  \<open>eckit::StreamParser\<close> delivers the characters of the file without white space and comments, so
  the input is the list of the delivered characters, with \<open>peek\<close> giving 0 at its end; \<open>lines\<close> is the
  line the stream has reached when a number of characters is left to deliver. The main property is
  that the dump of a schema parses back to the schema.
\<close>

section \<open>Characters\<close>

definition peek :: "string \<Rightarrow> char" where
  "peek src = (case src of [] \<Rightarrow> CHR 0x00 | c # _ \<Rightarrow> c)"

definition consume :: "char \<Rightarrow> string \<Rightarrow> string res" where
  "consume c src =
     (case src of
        [] \<Rightarrow> Inl (StreamError ''unexpected end of file'')
      | c' # rest \<Rightarrow> if c = c' then Inr rest else Inl (StreamError ''unexpected character''))"

definition ident_stops :: "char list" where
  "ident_stops = [CHR 0x00, CHR ''/'', CHR ''='', CHR '','', CHR '';'', CHR '':'', CHR ''['', CHR '']'', CHR ''?'']"

text \<open>The loop of \<open>parseIdent(value, emptyOK)\<close>, with the text read so far.\<close>

fun ident_loop :: "bool \<Rightarrow> bool \<Rightarrow> string \<Rightarrow> string \<Rightarrow> (string \<times> string) res" where
  "ident_loop value emptyOK s [] =
     (if s = [] \<and> \<not> emptyOK then Inl (StreamError ''Syntax error: found 0'') else Inr (s, []))"
| "ident_loop value emptyOK s (c # src) =
     (if c \<in> set ident_stops then
        (if s = [] \<and> \<not> emptyOK then Inl (StreamError ''Syntax error: found character'') else Inr (s, c # src))
      else if c = CHR ''-'' \<and> s = [] \<and> \<not> emptyOK then Inl (StreamError ''Syntax error: found -'')
      else if c = CHR ''-'' \<and> \<not> value then Inr (s, c # src)
      else ident_loop value emptyOK (s @ [c]) src)"

definition parseIdent :: "bool \<Rightarrow> bool \<Rightarrow> string \<Rightarrow> (string \<times> string) res" where
  "parseIdent value emptyOK src = ident_loop value emptyOK [] src"

section \<open>Predicates and types\<close>

text \<open>\<open>values.insert(...)\<close> on a \<open>std::set\<close>.\<close>

fun set_insert :: "'a::linorder \<Rightarrow> 'a list \<Rightarrow> 'a list" where
  "set_insert x [] = [x]"
| "set_insert x (y # ys) = (if x < y then x # y # ys else if x = y then y # ys else y # set_insert x ys)"

fun more_values :: "nat \<Rightarrow> string list \<Rightarrow> string \<Rightarrow> (string list \<times> string) res" where
  "more_values 0 values src = Inl (LibraryError ''fuel'')"
| "more_values (Suc n) values src =
     (if peek src = CHR ''/'' then
        bindE (consume (CHR ''/'') src) (\<lambda>src.
        bindE (parseIdent True False src) (\<lambda>(v, src). more_values n (set_insert v values) src))
      else Inr (values, src))"

definition matcher_of_values :: "string list \<Rightarrow> matcher" where
  "matcher_of_values values =
     (case values of [] \<Rightarrow> MatchAlways | [v] \<Rightarrow> MatchValue v | _ \<Rightarrow> MatchAny values)"

type_synonym types = "(string, string) dict"

definition parse_type :: "string \<Rightarrow> types \<Rightarrow> string \<Rightarrow> (types \<times> string) res" where
  "parse_type k types src =
     (if peek src = CHR '':'' then
        bindE (consume (CHR '':'') src) (\<lambda>src.
        bindE (assertE (map_of types k = None) ''types.find(k) == types.end()'') (\<lambda>_.
        bindE (parseIdent False False src) (\<lambda>(t, src). Inr (dict_put k t types, src))))
      else Inr (types, src))"

definition parse_matcher :: "string \<Rightarrow> types \<Rightarrow> string \<Rightarrow> (predicate \<times> types \<times> string) res" where
  "parse_matcher k types src =
     (let c = peek src
      in if c = CHR ''?'' then
           bindE (consume c src) (\<lambda>src.
           bindE (parseIdent True True src) (\<lambda>(def, src).
             Inr (\<lparr>pred_keyword = k, pred_matcher = MatchOptional def\<rparr>, types, src)))
         else if c = CHR ''-'' then
           bindE (consume c src) (\<lambda>src.
           bindE (parseIdent True True src) (\<lambda>(def, src).
             Inr (\<lparr>pred_keyword = k, pred_matcher = MatchHidden def\<rparr>,
                  if map_of types k = None then dict_put k ''Ignore'' types else types, src)))
         else if c \<noteq> CHR '','' \<and> c \<noteq> CHR ''['' \<and> c \<noteq> CHR '']'' then
           bindE (consume (CHR ''='') src) (\<lambda>src.
           bindE (parseIdent True False src) (\<lambda>(v, src).
           bindE (more_values (Suc (length src)) [v] src) (\<lambda>(values, src).
             Inr (\<lparr>pred_keyword = k, pred_matcher = matcher_of_values values\<rparr>, types, src))))
         else Inr (\<lparr>pred_keyword = k, pred_matcher = MatchAlways\<rparr>, types, src))"

definition parsePredicate :: "types \<Rightarrow> string \<Rightarrow> (predicate \<times> types \<times> string) res" where
  "parsePredicate types src =
     bindE (parseIdent False False src) (\<lambda>(k, src).
     bindE (parse_type k types src) (\<lambda>(types, src).
       parse_matcher k types src))"

fun parseTypes :: "nat \<Rightarrow> types \<Rightarrow> string \<Rightarrow> (types \<times> string) res" where
  "parseTypes 0 types src = Inl (LibraryError ''fuel'')"
| "parseTypes (Suc n) types src =
     bindE (parseIdent False True src) (\<lambda>(name, src).
       if name = [] then Inr (types, src)
       else bindE (consume (CHR '':'') src) (\<lambda>src.
            bindE (parseIdent False False src) (\<lambda>(type, src).
            bindE (consume (CHR '';'') src) (\<lambda>src.
            bindE (assertE (map_of types name = None) ''types.find(name) == types.end()'') (\<lambda>_.
              parseTypes n (dict_put name type types) src)))))"

section \<open>Rules\<close>

fun more_predicates ::
    "nat \<Rightarrow> predicate list \<Rightarrow> types \<Rightarrow> string \<Rightarrow> (predicate list \<times> types \<times> string) res" where
  "more_predicates 0 ps types src = Inl (LibraryError ''fuel'')"
| "more_predicates (Suc n) ps types src =
     (if peek src = CHR '','' then
        bindE (consume (CHR '','') src) (\<lambda>src.
        bindE (parsePredicate types src) (\<lambda>(p, types, src). more_predicates n (ps @ [p]) types src))
      else Inr (ps, types, src))"

text \<open>
  \<open>parseRule\<close> and its two loops, over the rules of a level and over the alternation of rules and
  predicates. The fuel bounds the depth of the calls; \<open>parse_schema\<close> gives three units for each
  character, and every third call at the latest has consumed one.
\<close>

fun parseRule :: "(nat \<Rightarrow> nat) \<Rightarrow> nat \<Rightarrow> string \<Rightarrow> (rule \<times> string) res"
  and more_rules :: "(nat \<Rightarrow> nat) \<Rightarrow> nat \<Rightarrow> rule list \<Rightarrow> string \<Rightarrow> (rule list \<times> string) res"
  and rule_loop :: "(nat \<Rightarrow> nat) \<Rightarrow> nat \<Rightarrow> nat \<Rightarrow> predicate list \<Rightarrow> rule list \<Rightarrow> types \<Rightarrow> string \<Rightarrow> (rule \<times> string) res"
where
  "parseRule lines 0 src = Inl (LibraryError ''fuel'')"
| "parseRule lines (Suc n) src =
     bindE (consume (CHR ''['') src) (\<lambda>src.
       (let line = lines (length src) + 1
        in if peek src = CHR '']'' then bindE (consume (CHR '']'') src) (\<lambda>src. Inr (Rule line [] [] [], src))
           else rule_loop lines n line [] [] [] src))"
| "more_rules lines 0 rs src = Inl (LibraryError ''fuel'')"
| "more_rules lines (Suc n) rs src =
     (if peek src = CHR ''['' then
        bindE (parseRule lines n src) (\<lambda>(r, src). more_rules lines n (rs @ [r]) src)
      else Inr (rs, src))"
| "rule_loop lines 0 line ps rs types src = Inl (LibraryError ''fuel'')"
| "rule_loop lines (Suc n) line ps rs types src =
     bindE (if peek src = CHR ''['' then
              bindE (more_rules lines n rs src) (\<lambda>(rs, src). Inr (ps, rs, types, src))
            else
              bindE (parsePredicate types src) (\<lambda>(p, types, src).
              bindE (more_predicates (Suc (length src)) (ps @ [p]) types src) (\<lambda>(ps, types, src).
                Inr (ps, rs, types, src)))) (\<lambda>(ps, rs, types, src).
       if peek src = CHR '']'' then
         bindE (consume (CHR '']'') src) (\<lambda>src. Inr (Rule line ps rs types, src))
       else rule_loop lines n line ps rs types src)"

section \<open>Schemas\<close>

text \<open>\<open>registry.addType\<close> for every type of the file, on the types the schema already has.\<close>

definition add_types :: "types \<Rightarrow> types \<Rightarrow> types res" where
  "add_types new old =
     foldE (\<lambda>(k, t) ts.
       if map_of ts k = None then Inr (dict_put k t ts)
       else Inl (AssertFailed ''types_.find(keyword) == types_.end()'')) new old"

definition parse_schema :: "(nat \<Rightarrow> nat) \<Rightarrow> schema \<Rightarrow> string \<Rightarrow> schema res" where
  "parse_schema lines sch src =
     bindE (parseTypes (Suc (length src)) [] src) (\<lambda>(types, src).
     bindE (add_types types (sch_types sch)) (\<lambda>all_types.
     bindE (more_rules lines (3 * length src + 3) (sch_rules sch) src) (\<lambda>(rules, src).
       if peek src \<noteq> CHR 0x00 then Inl (StreamError ''Error parsing rules: remaining char'')
       else Inr \<lparr>sch_types = all_types, sch_rules = rules\<rparr>)))"

text \<open>\<open>Schema::load(stream)\<close>: parse, then \<open>check\<close>.\<close>

definition load_schema :: "(nat \<Rightarrow> nat) \<Rightarrow> schema \<Rightarrow> string \<Rightarrow> schema res" where
  "load_schema lines sch src =
     bindE (parse_schema lines sch src) (\<lambda>sch. bindE (schema_check sch) (\<lambda>_. Inr sch))"

section \<open>Consumption\<close>

text \<open>Every parser leaves a suffix of its input; the ones that must read something leave less.\<close>

lemma ident_loop_length:
  "ident_loop v e s src = Inr (t, rest) \<Longrightarrow> length t + length rest = length s + length src"
  by (induction v e s src rule: ident_loop.induct) (auto split: if_splits)

lemma ident_loop_nonempty:
  "ident_loop v e s src = Inr (t, rest) \<Longrightarrow> \<not> e \<Longrightarrow> t \<noteq> []"
  by (induction v e s src rule: ident_loop.induct) (auto split: if_splits)

lemma parseIdent_le: "parseIdent value emptyOK src = Inr (t, rest) \<Longrightarrow> length rest \<le> length src"
  unfolding parseIdent_def by (drule ident_loop_length) simp

lemma parseIdent_less:
  assumes "parseIdent value False src = Inr (t, rest)"
  shows "length rest < length src"
proof -
  from assms have "t \<noteq> []" and "length t + length rest = length src"
    unfolding parseIdent_def by (auto dest: ident_loop_nonempty ident_loop_length)
  then show ?thesis by (cases t) simp_all
qed

lemma consume_less: "consume c src = Inr rest \<Longrightarrow> length rest < length src"
  by (auto simp: consume_def split: list.splits if_splits)

text \<open>
  \<open>eats p k src r\<close>: the run \<open>r\<close> on \<open>src\<close> does not end for lack of fuel, and if it returns, what it
  leaves of the input (found by \<open>p\<close> in the result) is at least \<open>k\<close> characters shorter than \<open>src\<close>.
\<close>

definition eats :: "('a \<Rightarrow> string) \<Rightarrow> nat \<Rightarrow> string \<Rightarrow> 'a res \<Rightarrow> bool" where
  "eats p k src r \<longleftrightarrow> r \<noteq> Inl (LibraryError ''fuel'') \<and> (\<forall>x. r = Inr x \<longrightarrow> length (p x) + k \<le> length src)"

lemma eats_Inr [simp]: "eats p k src (Inr x) \<longleftrightarrow> length (p x) + k \<le> length src"
  by (auto simp: eats_def)

lemma eats_bind:
  assumes "eats p k src' m" and "\<And>x. length (p x) + k \<le> length src' \<Longrightarrow> eats q j src (f x)"
  shows "eats q j src (bindE m f)"
  using assms by (cases m) (auto simp: eats_def)

lemma eats_error: "err \<noteq> LibraryError ''fuel'' \<Longrightarrow> eats p k src (Inl err)"
  by (simp add: eats_def)

lemma eats_if:
  "(b \<Longrightarrow> eats p k src r) \<Longrightarrow> (\<not> b \<Longrightarrow> eats p k src r') \<Longrightarrow> eats p k src (if b then r else r')"
  by simp

lemma eats_consume:
  assumes "\<And>rest. length rest < length src' \<Longrightarrow> eats q j src (f rest)"
  shows "eats q j src (bindE (consume c src') f)"
  using assms by (cases src') (auto simp: consume_def eats_error)

lemma ident_no_fuel: "parseIdent v e src \<noteq> Inl (LibraryError ''fuel'')"
proof -
  have "ident_loop v e s src \<noteq> Inl (LibraryError ''fuel'')" for s
    by (induction v e s src rule: ident_loop.induct) auto
  then show ?thesis by (simp add: parseIdent_def)
qed

lemma eats_ident:
  assumes "\<And>t rest. length rest \<le> length src' \<Longrightarrow> eats q j src (f (t, rest))"
  shows "eats q j src (bindE (parseIdent v e src') f)"
  using assms parseIdent_le [of v e src'] ident_no_fuel [of v e src']
  by (cases "parseIdent v e src'") (auto simp: eats_def)

lemma eats_ident_some:
  assumes "\<And>t rest. length rest < length src' \<Longrightarrow> eats q j src (f (t, rest))"
  shows "eats q j src (bindE (parseIdent v False src') f)"
  using assms parseIdent_less [of v src'] ident_no_fuel [of v False src']
  by (cases "parseIdent v False src'") (auto simp: eats_def)

lemma eats_assert: "eats q j src r \<Longrightarrow> eats q j src (bindE (assertE b msg) (\<lambda>_. r))"
  by (cases b) (simp_all add: eats_error)

lemma eats_weaken: "eats q i src' r \<Longrightarrow> j + length src' \<le> i + length src \<Longrightarrow> eats q j src r"
  by (auto simp: eats_def)

lemmas eats_intros = eats_if eats_consume eats_ident_some eats_ident eats_assert eats_error

lemma eats_more_values: "length src < n \<Longrightarrow> eats snd 0 src (more_values n vs src)"
proof (induction n arbitrary: vs src)
  case (Suc n)
  show ?case
    by (auto intro!: eats_intros intro: eats_weaken [OF Suc.IH] simp: Suc.prems less_trans)
      (use Suc.prems in \<open>auto intro!: eats_weaken [OF Suc.IH]\<close>)
qed simp

abbreviation rest3 :: "'a \<times> 'b \<times> string \<Rightarrow> string" where
  "rest3 x \<equiv> snd (snd x)"

lemma eats_parse_type: "eats snd 0 src (parse_type k types src)"
  unfolding parse_type_def by (auto intro!: eats_intros)

lemma eats_parse_matcher: "eats rest3 0 src (parse_matcher k types src)"
  unfolding parse_matcher_def Let_def
  by (auto intro!: eats_intros eats_bind [OF eats_more_values] simp del: more_values.simps)

lemma eats_parsePredicate: "eats rest3 1 src (parsePredicate types src)"
  unfolding parsePredicate_def
  by (auto intro!: eats_ident_some eats_bind [OF eats_parse_type] eats_weaken [OF eats_parse_matcher])

lemma eats_more_predicates: "length src < n \<Longrightarrow> eats rest3 0 src (more_predicates n ps types src)"
proof (induction n arbitrary: ps types src)
  case (Suc n)
  show ?case
    using Suc.prems
    by (auto intro!: eats_intros eats_bind [OF eats_parsePredicate] eats_weaken [OF Suc.IH])
qed simp

lemma eats_parseTypes: "length src < n \<Longrightarrow> eats snd 0 src (parseTypes n types src)"
proof (induction n arbitrary: types src)
  case (Suc n)
  show ?case
    using Suc.prems
    by (auto intro!: eats_intros eats_weaken [OF Suc.IH])
qed simp

lemma eats_rules:
  "(3 * length src + 1 \<le> n \<longrightarrow> eats snd 1 src (parseRule lines n src)) \<and>
   (3 * length src + 2 \<le> n \<longrightarrow> eats snd (if peek src = CHR ''['' then 1 else 0) src (more_rules lines n rs src)) \<and>
   (3 * length src + 3 \<le> n \<longrightarrow> eats snd 1 src (rule_loop lines n line ps rs types src))"
proof (induction n arbitrary: src rs line ps types)
  case (Suc n)
  have rule: "eats snd 1 src (parseRule lines n src)" if "3 * length src + 1 \<le> n" for src
    using Suc.IH that by blast
  have rules: "eats snd (if peek src = CHR ''['' then 1 else 0) src (more_rules lines n rs src)"
    if "3 * length src + 2 \<le> n" for src rs
    using Suc.IH that by blast
  have rules0: "eats snd 0 src (more_rules lines n rs src)" if "3 * length src + 2 \<le> n" for src rs
    using rules [OF that, of rs] by (rule eats_weaken) simp
  have loop: "eats snd 1 src (rule_loop lines n line ps rs types src)"
    if "3 * length src + 3 \<le> n" for src line ps rs types
    using Suc.IH that by blast
  show ?case
  proof (intro conjI impI)
    assume n: "3 * length src + 1 \<le> Suc n"
    show "eats snd 1 src (parseRule lines (Suc n) src)"
      unfolding parseRule.simps Let_def
      by (intro eats_intros eats_weaken [OF loop]) (use n in \<open>simp_all\<close>)
  next
    assume n: "3 * length src + 2 \<le> Suc n"
    show "eats snd (if peek src = CHR ''['' then 1 else 0) src (more_rules lines (Suc n) rs src)"
      unfolding more_rules.simps
      by (rule eats_if, rule eats_bind [OF rule])
        (use n in \<open>auto intro!: eats_weaken [OF rules0]\<close>)
  next
    assume n: "3 * length src + 3 \<le> Suc n"
    have "eats (\<lambda>x. snd (snd (snd x))) 1 src
       (if peek src = CHR ''['' then
              bindE (more_rules lines n rs src) (\<lambda>(rs, src). Inr (ps, rs, types, src))
            else
              bindE (parsePredicate types src) (\<lambda>(p, types, src).
              bindE (more_predicates (Suc (length src)) (ps @ [p]) types src) (\<lambda>(ps, types, src).
                Inr (ps, rs, types, src))))"
      by (rule eats_if)
        (use n in \<open>auto intro!: eats_bind [OF rules] eats_bind [OF eats_parsePredicate]
          eats_bind [OF eats_more_predicates] simp del: more_rules.simps more_predicates.simps\<close>)
    then show "eats snd 1 src (rule_loop lines (Suc n) line ps rs types src)"
      unfolding rule_loop.simps
      by (rule eats_bind) (use n in \<open>auto intro!: eats_intros eats_weaken [OF loop]\<close>)
  qed
qed simp

lemma parse_schema_no_fuel: "parse_schema lines sch src \<noteq> Inl (LibraryError ''fuel'')"
proof -
  have types: "add_types new old \<noteq> Inl (LibraryError ''fuel'')" for new old
    unfolding add_types_def by (induction new arbitrary: old) (auto simp: bindE_eq_Inl split: if_splits)
  have "eats snd 0 src (parseTypes (Suc (length src)) [] src)" by (rule eats_parseTypes) simp
  moreover have "eats snd 0 rest (more_rules lines (3 * length rest + 3) (sch_rules sch) rest)" for rest
  proof -
    have "eats snd (if peek rest = CHR ''['' then 1 else 0) rest (more_rules lines (3 * length rest + 3) (sch_rules sch) rest)"
      using eats_rules by simp
    then show ?thesis by (rule eats_weaken) simp
  qed
  ultimately show ?thesis
    using types by (auto simp: parse_schema_def bindE_eq_Inl eats_def split: if_splits)
qed


section \<open>Reading back a dump\<close>

definition blank :: "char \<Rightarrow> bool" where
  "blank c \<longleftrightarrow> c \<in> {CHR '' '', CHR ''\<newline>'', CHR 0x09, CHR 0x0D}"

text \<open>What the base class delivers of a text without comments.\<close>

definition delivered :: "string \<Rightarrow> string" where
  "delivered s = filter (\<lambda>c. \<not> blank c) s"

definition plain_char :: "char \<Rightarrow> bool" where
  "plain_char c \<longleftrightarrow> c \<notin> set ident_stops \<and> \<not> blank c \<and> c \<noteq> CHR ''#''"

definition ident_text :: "string \<Rightarrow> bool" where
  "ident_text s \<longleftrightarrow> s \<noteq> [] \<and> list_all (\<lambda>c. plain_char c \<and> c \<noteq> CHR ''-'') s"

definition value_text :: "string \<Rightarrow> bool" where
  "value_text s \<longleftrightarrow> s \<noteq> [] \<and> hd s \<noteq> CHR ''-'' \<and> list_all plain_char s"

lemma ident_loop_text:
  assumes "\<forall>c \<in> set t. c \<notin> set ident_stops \<and> (c = CHR ''-'' \<longrightarrow> v)"
    and "s \<noteq> [] \<or> e \<or> (t \<noteq> [] \<and> hd t \<noteq> CHR ''-'')"
    and "peek rest \<in> set ident_stops \<or> (\<not> v \<and> peek rest = CHR ''-'')"
  shows "ident_loop v e s (t @ rest) = Inr (s @ t, rest)"
  using assms(1,2)
proof (induction t arbitrary: s)
  case Nil
  with assms(3) show ?case by (cases rest) (auto simp: peek_def ident_stops_def)
next
  case (Cons c t)
  then show ?case using Cons.IH [of "s @ [c]"] by auto
qed

lemma parse_ident_text:
  assumes "ident_text t" and "peek rest \<in> set ident_stops \<or> peek rest = CHR ''-''"
  shows "parseIdent False e (t @ rest) = Inr (t, rest)"
proof -
  have "hd t \<noteq> CHR ''-''" using assms(1) by (cases t) (auto simp: ident_text_def)
  then show ?thesis
    using ident_loop_text [of t False "[]" e rest] assms
    by (auto simp: parseIdent_def ident_text_def plain_char_def list_all_iff)
qed

lemma parse_value_text:
  assumes "value_text t" and "peek rest \<in> set ident_stops"
  shows "parseIdent True e (t @ rest) = Inr (t, rest)"
  using ident_loop_text [of t True "[]" e rest] assms
  by (auto simp: parseIdent_def value_text_def plain_char_def list_all_iff)

lemma parse_default_text:
  assumes "list_all plain_char t" and "peek rest \<in> set ident_stops"
  shows "parseIdent True True (t @ rest) = Inr (t, rest)"
  using ident_loop_text [of t True "[]" True rest] assms
  by (auto simp: parseIdent_def plain_char_def list_all_iff)

lemma peek_Cons [simp]: "peek (c # s) = c"
  by (simp add: peek_def)

lemma consume_Cons [simp]: "consume c (c # s) = Inr s"
  by (simp add: consume_def)

text \<open>\<open>v1/v2/v3\<close> after the first value.\<close>

definition slashed :: "string list \<Rightarrow> string" where
  "slashed vs = concat (map (\<lambda>v. CHR ''/'' # v) vs)"

lemma join_slashed: "vs \<noteq> [] \<Longrightarrow> join_with ''/'' vs = hd vs @ slashed (tl vs)"
  by (induction "''/''" vs rule: join_with.induct) (auto simp: slashed_def)

lemma set_insert_last: "sorted_wrt (<) (vs @ [v]) \<Longrightarrow> set_insert v vs = vs @ [v]"
  for v :: "'a::linorder"
  by (induction vs) (auto simp: less_imp_not_less)

lemma more_values_text:
  assumes "list_all value_text vs" and "peek rest \<in> set ident_stops" and "peek rest \<noteq> CHR ''/''"
    and "sorted_wrt (<) (acc @ vs)" and "length vs < n"
  shows "more_values n acc (slashed vs @ rest) = Inr (acc @ vs, rest)"
  using assms(1,4,5)
proof (induction vs arbitrary: acc n)
  case Nil
  with assms(3) show ?case by (cases n) (simp_all add: slashed_def)
next
  case (Cons v vs)
  then obtain m where n: "n = Suc m" by (cases n) auto
  have sl: "slashed (v # vs) @ rest = CHR ''/'' # v @ slashed vs @ rest" by (simp add: slashed_def)
  have "peek (slashed vs @ rest) \<in> set ident_stops"
    using assms(2) by (cases vs) (simp_all add: slashed_def ident_stops_def)
  with Cons.prems have v: "parseIdent True False (v @ slashed vs @ rest) = Inr (v, slashed vs @ rest)"
    by (intro parse_value_text) simp_all
  have sorted: "sorted_wrt (<) (acc @ [v])" using Cons.prems(2) by (simp add: sorted_wrt_append)
  have "more_values m (acc @ [v]) (slashed vs @ rest) = Inr ((acc @ [v]) @ vs, rest)"
    by (rule Cons.IH) (use Cons.prems n in auto)
  then show ?case by (simp add: n sl v set_insert_last [OF sorted])
qed

definition pred_ok :: "types \<Rightarrow> predicate \<Rightarrow> bool" where
  "pred_ok types p \<longleftrightarrow> ident_text (pred_keyword p) \<and>
     (case pred_matcher p of
        MatchAlways \<Rightarrow> True
      | MatchValue v \<Rightarrow> value_text v
      | MatchAny vs \<Rightarrow> 2 \<le> length vs \<and> sorted_wrt (<) vs \<and> list_all value_text vs
      | MatchOptional d \<Rightarrow> list_all plain_char d
      | MatchHidden d \<Rightarrow> list_all plain_char d \<and> map_of types (pred_keyword p) \<noteq> None) \<and>
     (case map_of types (pred_keyword p) of None \<Rightarrow> True | Some t \<Rightarrow> ident_text t)"

definition put_type :: "types \<Rightarrow> predicate \<Rightarrow> types \<Rightarrow> types" where
  "put_type types p acc =
     (case map_of types (pred_keyword p) of None \<Rightarrow> acc | Some t \<Rightarrow> dict_put (pred_keyword p) t acc)"

definition pred_end :: "string \<Rightarrow> bool" where
  "pred_end rest \<longleftrightarrow> peek rest \<in> {CHR '','', CHR ''['', CHR '']''}"

lemma pred_end_stop: "pred_end rest \<Longrightarrow> peek rest \<in> set ident_stops"
  by (auto simp: pred_end_def ident_stops_def)

text \<open>The text of a matcher, after the keyword and its type.\<close>

fun matcher_text :: "matcher \<Rightarrow> string" where
  "matcher_text MatchAlways = []"
| "matcher_text (MatchValue v) = CHR ''='' # v"
| "matcher_text (MatchAny vs) = CHR ''='' # join_with ''/'' vs"
| "matcher_text (MatchOptional d) = CHR ''?'' # d"
| "matcher_text (MatchHidden d) = CHR ''-'' # d"

lemma pred_dump_text: "pred_dump p types = dump_keyword types (pred_keyword p) @ matcher_text (pred_matcher p)"
  by (cases "pred_matcher p") (simp_all add: pred_dump_def)

lemma parse_matcher_text:
  assumes ok: "pred_ok types p" and rest: "pred_end rest"
    and k: "pred_keyword p = k" and acc: "map_of types k \<noteq> None \<longrightarrow> map_of acc k \<noteq> None"
  shows "parse_matcher k acc (matcher_text (pred_matcher p) @ rest) = Inr (p, acc, rest)"
proof -
  note stop = pred_end_stop [OF rest]
  have p: "p = \<lparr>pred_keyword = k, pred_matcher = pred_matcher p\<rparr>" using k by (cases p) simp
  have noslash: "peek rest \<noteq> CHR ''/''" using rest by (auto simp: pred_end_def)
  show ?thesis
  proof (cases "pred_matcher p")
    case MatchAlways
    with rest p show ?thesis by (auto simp: parse_matcher_def pred_end_def)
  next
    case (MatchValue v)
    then have "parseIdent True False (v @ rest) = Inr (v, rest)"
      using ok stop by (intro parse_value_text) (simp_all add: pred_ok_def)
    with MatchValue p noslash show ?thesis
      by (simp add: parse_matcher_def matcher_of_values_def)
  next
    case (MatchAny vs)
    with ok obtain v w us where vs: "vs = v # w # us" and all: "list_all value_text vs"
      and sorted: "sorted_wrt (<) vs"
      by (cases vs; cases "tl vs") (auto simp: pred_ok_def)
    have "peek (slashed (w # us) @ rest) \<in> set ident_stops" by (simp add: slashed_def ident_stops_def)
    then have "parseIdent True False (v @ slashed (w # us) @ rest) = Inr (v, slashed (w # us) @ rest)"
      using all vs by (intro parse_value_text) simp_all
    moreover have "more_values (Suc (length (slashed (w # us) @ rest))) [v] (slashed (w # us) @ rest) =
        Inr ([v] @ w # us, rest)"
    proof (rule more_values_text [OF _ stop noslash])
      have "length xs \<le> length (slashed xs)" for xs by (induction xs) (auto simp: slashed_def)
      from this [of "w # us"] show "length (w # us) < Suc (length (slashed (w # us) @ rest))" by simp
    qed (use all sorted vs in simp_all)
    moreover have "join_with ''/'' vs = v @ slashed (w # us)"
      using join_slashed [of vs] by (simp add: vs)
    ultimately show ?thesis
      using MatchAny p vs by (simp add: parse_matcher_def matcher_of_values_def del: more_values.simps)
  next
    case (MatchOptional d)
    then have "parseIdent True True (d @ rest) = Inr (d, rest)"
      using ok stop by (intro parse_default_text) (simp_all add: pred_ok_def)
    with MatchOptional p show ?thesis by (simp add: parse_matcher_def)
  next
    case (MatchHidden d)
    then have "parseIdent True True (d @ rest) = Inr (d, rest)" and "map_of acc k \<noteq> None"
      using ok stop acc k by (auto intro!: parse_default_text simp: pred_ok_def)
    with MatchHidden p show ?thesis by (auto simp: parse_matcher_def)
  qed
qed

lemma parsePredicate_text:
  assumes ok: "pred_ok types p" and rest: "pred_end rest" and acc: "map_of acc (pred_keyword p) = None"
  shows "parsePredicate acc (pred_dump p types @ rest) = Inr (p, put_type types p acc, rest)"
proof -
  let ?k = "pred_keyword p" and ?m = "matcher_text (pred_matcher p) @ rest"
  have k: "ident_text ?k" using ok by (simp add: pred_ok_def)
  have m: "peek ?m \<in> set ident_stops \<or> peek ?m = CHR ''-''" "peek ?m \<noteq> CHR '':''"
    using pred_end_stop [OF rest] rest by (cases "pred_matcher p"; auto simp: ident_stops_def pred_end_def)+
  show ?thesis
  proof (cases "map_of types ?k")
    case None
    have "parseIdent False False (?k @ ?m) = Inr (?k, ?m)" by (rule parse_ident_text [OF k m(1)])
    with None m(2) parse_matcher_text [OF ok rest refl, of acc] show ?thesis
      by (simp add: parsePredicate_def parse_type_def pred_dump_text dump_keyword_def put_type_def)
  next
    case (Some t)
    then have t: "ident_text t" using ok by (simp add: pred_ok_def)
    have "parseIdent False False (?k @ CHR '':'' # t @ ?m) = Inr (?k, CHR '':'' # t @ ?m)"
      by (rule parse_ident_text [OF k]) (simp add: ident_stops_def)
    moreover have "parseIdent False False (t @ ?m) = Inr (t, ?m)" by (rule parse_ident_text [OF t m(1)])
    ultimately show ?thesis
      using Some acc parse_matcher_text [OF ok rest refl, of "dict_put ?k t acc"]
      by (simp add: parsePredicate_def parse_type_def pred_dump_text dump_keyword_def put_type_def)
  qed
qed


definition put_types :: "types \<Rightarrow> predicate list \<Rightarrow> types \<Rightarrow> types" where
  "put_types types ps acc = fold (put_type types) ps acc"

lemma map_of_put_type:
  "map_of (put_type types p acc) k =
     (if k = pred_keyword p \<and> map_of types k \<noteq> None then map_of types k else map_of acc k)"
  by (auto simp: put_type_def split: option.splits)

lemma map_of_put_types:
  "map_of (put_types types ps acc) k =
     (if k \<in> pred_keyword ` set ps \<and> map_of types k \<noteq> None then map_of types k else map_of acc k)"
  unfolding put_types_def by (induction ps arbitrary: acc) (auto simp: map_of_put_type)

lemma dict_ok_put_types: "dict_ok acc \<Longrightarrow> dict_ok (put_types types ps acc)"
  unfolding put_types_def
  by (induction ps arbitrary: acc) (auto simp: put_type_def split: option.splits)

definition comma_dumps :: "types \<Rightarrow> predicate list \<Rightarrow> string" where
  "comma_dumps types ps = concat (map (\<lambda>p. CHR '','' # pred_dump p types) ps)"

lemma join_dumps:
  "ps \<noteq> [] \<Longrightarrow> join_with '','' (map (\<lambda>p. pred_dump p types) ps) =
     pred_dump (hd ps) types @ comma_dumps types (tl ps)"
proof (induction ps)
  case (Cons p ps)
  then show ?case by (cases ps) (auto simp: comma_dumps_def)
qed simp

lemma more_predicates_text:
  assumes "list_all (pred_ok types) ps" and "peek rest \<in> {CHR ''['', CHR '']''}"
    and "distinct (map pred_keyword ps)" and "\<forall>p \<in> set ps. map_of acc (pred_keyword p) = None"
    and "length ps < n"
  shows "more_predicates n qs acc (comma_dumps types ps @ rest) = Inr (qs @ ps, put_types types ps acc, rest)"
  using assms(1,3-5)
proof (induction ps arbitrary: qs acc n)
  case Nil
  with assms(2) show ?case by (cases n) (auto simp: comma_dumps_def put_types_def)
next
  case (Cons p ps)
  then obtain m where n: "n = Suc m" by (cases n) auto
  have cd: "comma_dumps types (p # ps) @ rest = CHR '','' # pred_dump p types @ comma_dumps types ps @ rest"
    by (simp add: comma_dumps_def)
  have "pred_end (comma_dumps types ps @ rest)"
    using assms(2) by (cases ps) (auto simp: comma_dumps_def pred_end_def)
  then have p: "parsePredicate acc (pred_dump p types @ comma_dumps types ps @ rest) =
      Inr (p, put_type types p acc, comma_dumps types ps @ rest)"
    by (rule parsePredicate_text [rotated]) (use Cons.prems in simp_all)
  have "more_predicates m (qs @ [p]) (put_type types p acc) (comma_dumps types ps @ rest) =
      Inr ((qs @ [p]) @ ps, put_types types ps (put_type types p acc), rest)"
  proof (rule Cons.IH)
    show "\<forall>q \<in> set ps. map_of (put_type types p acc) (pred_keyword q) = None"
    proof
      fix q
      assume q: "q \<in> set ps"
      then have "pred_keyword q \<noteq> pred_keyword p" using Cons.prems(2) distinct_map_head by metis
      with Cons.prems(3) q show "map_of (put_type types p acc) (pred_keyword q) = None"
        by (simp add: map_of_put_type)
    qed
  qed (use Cons.prems n in simp_all)
  then show ?case by (simp add: n cd p) (simp add: put_types_def)
qed

text \<open>Which rules the notation can express, and equality of rules up to line numbers.\<close>

fun rule_ok :: "rule \<Rightarrow> bool" and rules_ok :: "rule list \<Rightarrow> bool" where
  "rule_ok (Rule line ps rs types) \<longleftrightarrow>
     list_all (pred_ok types) ps \<and> distinct (map pred_keyword ps) \<and>
     dict_ok types \<and> set (dict_keys types) \<subseteq> pred_keyword ` set ps \<and> rules_ok rs"
| "rules_ok [] \<longleftrightarrow> True"
| "rules_ok (r # rs) \<longleftrightarrow> rule_ok r \<and> rules_ok rs"

fun erase_lines :: "rule \<Rightarrow> rule" where
  "erase_lines (Rule line ps rs types) = Rule 0 ps (map erase_lines rs) types"

lemma types_rebuilt:
  assumes "dict_ok types" and "set (dict_keys types) \<subseteq> pred_keyword ` set ps"
  shows "put_types types ps [] = types"
proof (rule dict.lookup_ext)
  fix k
  have "k \<notin> pred_keyword ` set ps \<Longrightarrow> map_of types k = None"
    using assms(2) by (metis map_of_eq_None_iff set_map subsetD)
  then show "map_of (put_types types ps []) k = map_of types k" by (auto simp: map_of_put_types)
qed (use assms(1) in \<open>simp_all add: dict_ok_put_types\<close>)

lemma length_comma: "length ps \<le> length (comma_dumps types ps)"
  by (induction ps) (auto simp: comma_dumps_def)

lemma peek_rules_dump: "rs \<noteq> [] \<Longrightarrow> peek (rules_dump rs @ rest) = CHR ''[''"
  by (cases rs rule: list.exhaust; cases "hd rs") auto

definition parses :: "(rule \<times> string) res \<Rightarrow> rule \<Rightarrow> string \<Rightarrow> bool" where
  "parses m r rest \<longleftrightarrow> (\<exists>r'. m = Inr (r', rest) \<and> erase_lines r' = erase_lines r)"

definition parses_all :: "(rule list \<times> string) res \<Rightarrow> rule list \<Rightarrow> rule list \<Rightarrow> string \<Rightarrow> bool" where
  "parses_all m acc rs rest \<longleftrightarrow> (\<exists>rs'. m = Inr (acc @ rs', rest) \<and> map erase_lines rs' = map erase_lines rs)"

text \<open>The end of a rule: the rules of the next level and the closing bracket.\<close>

lemma rule_loop_rules:
  assumes rules: "\<And>n acc rest. peek rest \<noteq> CHR ''['' \<Longrightarrow> 3 * length (rules_dump rs @ rest) + 2 \<le> n \<Longrightarrow>
      parses_all (more_rules lines n acc (rules_dump rs @ rest)) acc rs rest"
    and "rs \<noteq> []" and n: "3 * length (rules_dump rs @ CHR '']'' # rest) + 3 \<le> n"
  shows "parses (rule_loop lines n line ps [] types (rules_dump rs @ CHR '']'' # rest)) (Rule line ps rs types) rest"
proof -
  from n obtain m where m: "n = Suc m" by (cases n) auto
  obtain rs' where "more_rules lines m [] (rules_dump rs @ CHR '']'' # rest) = Inr (rs', CHR '']'' # rest)"
    and "map erase_lines rs' = map erase_lines rs"
    using rules [of "CHR '']'' # rest" m "[]"] n m by (auto simp: parses_all_def)
  with assms(2) show ?thesis
    by (simp add: m peek_rules_dump parses_def)
qed

lemma parse_dump:
  "rule_ok r \<Longrightarrow> 3 * length (rule_dump r @ rest) + 1 \<le> n \<Longrightarrow> parses (parseRule lines n (rule_dump r @ rest)) r rest"
  "rules_ok rs \<Longrightarrow> peek rest \<noteq> CHR ''['' \<Longrightarrow> 3 * length (rules_dump rs @ rest) + 2 \<le> n \<Longrightarrow>
     parses_all (more_rules lines n acc (rules_dump rs @ rest)) acc rs rest"
proof (induction r and rs arbitrary: n rest and n acc rest rule: rule_dump_rules_dump.induct)
  case (1 line ps rs types)
  from "1.prems"(2) obtain m where n: "n = Suc m" by (cases n) auto
  note ok = "1.prems"(1)[simplified]
  have rules: "\<And>n acc rest. peek rest \<noteq> CHR ''['' \<Longrightarrow> 3 * length (rules_dump rs @ rest) + 2 \<le> n \<Longrightarrow>
      parses_all (more_rules lines n acc (rules_dump rs @ rest)) acc rs rest"
    using "1.IH" ok by blast
  let ?body = "join_with '','' (map (\<lambda>p. pred_dump p types) ps)"
  let ?tail = "rules_dump rs @ CHR '']'' # rest"
  let ?line = "lines (length (?body @ ?tail)) + 1"
  have src: "rule_dump (Rule line ps rs types) @ rest = CHR ''['' # ?body @ ?tail" by simp
  have m: "3 * length (?body @ ?tail) + 3 \<le> m" using "1.prems"(2) n by simp
  show ?case
  proof (cases ps)
    case Nil
    then have t: "types = []" using ok by auto
    show ?thesis
    proof (cases "rs = []")
      case True
      with Nil t show ?thesis by (simp add: n parses_def)
    next
      case False
      from rule_loop_rules [OF rules False, of rest m ?line "[]" "[]"] m
      have "parses (rule_loop lines m ?line [] [] [] ?tail) (Rule ?line [] rs []) rest"
        by (simp add: Nil)
      then show ?thesis
        using peek_rules_dump [OF False, of "CHR '']'' # rest"] by (simp add: n Nil t parses_def)
    qed
  next
    case (Cons p qs)
    from m obtain m' where m': "m = Suc m'" by (cases m) auto
    have body: "?body = pred_dump p types @ comma_dumps types qs" using join_dumps [of ps types] Cons by simp
    have end_tail: "peek ?tail \<in> {CHR ''['', CHR '']''}" by (cases "rs = []") (simp_all add: peek_rules_dump)
    have "pred_end (comma_dumps types qs @ ?tail)"
      using end_tail by (cases qs) (auto simp: comma_dumps_def pred_end_def)
    then have p: "parsePredicate [] (pred_dump p types @ comma_dumps types qs @ ?tail) =
        Inr (p, put_type types p [], comma_dumps types qs @ ?tail)"
      by (rule parsePredicate_text [rotated]) (use ok Cons in simp_all)
    have "more_predicates (Suc (length (comma_dumps types qs @ ?tail))) ([] @ [p]) (put_type types p [])
        (comma_dumps types qs @ ?tail) = Inr (([] @ [p]) @ qs, put_types types qs (put_type types p []), ?tail)"
    proof (rule more_predicates_text [OF _ end_tail])
      show "\<forall>q \<in> set qs. map_of (put_type types p []) (pred_keyword q) = None"
      proof
        fix q
        assume "q \<in> set qs"
        then have "pred_keyword q \<noteq> pred_keyword p"
          by (rule distinct_map_head [rotated]) (use ok Cons in simp)
        then show "map_of (put_type types p []) (pred_keyword q) = None" by (simp add: map_of_put_type)
      qed
      show "length qs < Suc (length (comma_dumps types qs @ ?tail))"
        using length_comma [of qs types] by simp
    qed (use ok Cons in simp_all)
    moreover have "put_types types qs (put_type types p []) = types"
      using types_rebuilt [of types ps] ok Cons by (simp add: put_types_def)
    ultimately have qs: "more_predicates (Suc (length (comma_dumps types qs @ ?tail))) [p] (put_type types p [])
        (comma_dumps types qs @ ?tail) = Inr (ps, types, ?tail)"
      using Cons by simp
    have first: "peek (?body @ ?tail) \<noteq> CHR '']''" "peek (?body @ ?tail) \<noteq> CHR ''[''"
      using ok Cons body
      by (cases "pred_keyword p"; auto simp: pred_dump_text dump_keyword_def pred_ok_def ident_text_def
          plain_char_def ident_stops_def)+
    have loop: "rule_loop lines m ?line [] [] [] (?body @ ?tail) =
        (if peek ?tail = CHR '']'' then bindE (consume (CHR '']'') ?tail) (\<lambda>src. Inr (Rule ?line ps [] types, src))
         else rule_loop lines m' ?line ps [] types ?tail)"
      using first(2) p qs by (simp add: m' body del: more_predicates.simps)
    have "parses (rule_loop lines m ?line [] [] [] (?body @ ?tail)) (Rule ?line ps rs types) rest"
    proof (cases "rs = []")
      case True
      then show ?thesis unfolding loop by (simp add: parses_def)
    next
      case False
      have "1 \<le> length ?body"
        using ok Cons body by (cases "pred_keyword p") (auto simp: pred_dump_text dump_keyword_def pred_ok_def ident_text_def)
      then have "3 * length ?tail + 3 \<le> m'" using m m' by simp
      from rule_loop_rules [OF rules False this] False show ?thesis
        unfolding loop by (simp add: peek_rules_dump)
    qed
    then show ?thesis
      using first(1) by (simp add: n parses_def)
  qed
next
  case 2
  then show ?case by (cases n) (auto simp: parses_all_def)
next
  case (3 r rs)
  from "3.prems"(3) obtain m where n: "n = Suc m" by (cases n) auto
  let ?tail = "rules_dump rs @ rest"
  have src: "rules_dump (r # rs) @ rest = rule_dump r @ ?tail" by simp
  have pos: "1 \<le> length (rule_dump r)" and first: "peek (rule_dump r @ ?tail) = CHR ''[''" by (cases r; simp)+
  have "parses (parseRule lines m (rule_dump r @ ?tail)) r ?tail"
    by (rule "3.IH"(1)) (use "3.prems" n in simp_all)
  then obtain r' where r': "parseRule lines m (rule_dump r @ ?tail) = Inr (r', ?tail)"
    and er: "erase_lines r' = erase_lines r" by (auto simp: parses_def)
  have "parses_all (more_rules lines m (acc @ [r']) ?tail) (acc @ [r']) rs rest"
    by (rule "3.IH"(2)) (use "3.prems" n pos in simp_all)
  then obtain rs' where "more_rules lines m (acc @ [r']) ?tail = Inr ((acc @ [r']) @ rs', rest)"
    and "map erase_lines rs' = map erase_lines rs" by (auto simp: parses_all_def)
  then show ?case
    unfolding parses_all_def src
    by (intro exI [of _ "r' # rs'"]) (simp add: n first r' er)
qed


text \<open>The types of a schema, written \<open>keyword:type;\<close>.\<close>

definition type_lines :: "types \<Rightarrow> string" where
  "type_lines ts = concat (map (\<lambda>(k, t). k @ '':'' @ t @ '';'') ts)"

lemma parseTypes_text:
  assumes "list_all (\<lambda>(k, t). ident_text k \<and> ident_text t) ts" and "distinct (map fst ts)"
    and "\<forall>k \<in> set (map fst ts). map_of acc k = None"
    and "peek rest \<in> {CHR ''['', CHR 0x00}" and "length ts < n"
  shows "parseTypes n acc (type_lines ts @ rest) = Inr (fold (\<lambda>(k, t). dict_put k t) ts acc, rest)"
  using assms(1-3,5)
proof (induction ts arbitrary: acc n)
  case Nil
  have "parseIdent False True rest = Inr ([], rest)"
    using ident_loop_text [of "[]" False "[]" True rest] assms(4)
    by (auto simp: parseIdent_def ident_stops_def)
  with Nil show ?case by (cases n) (simp_all add: type_lines_def)
next
  case (Cons kt ts)
  obtain k t where kt: "kt = (k, t)" by (cases kt)
  from Cons.prems obtain m where n: "n = Suc m" by (cases n) auto
  let ?tail = "type_lines ts @ rest"
  have src: "type_lines ((k, t) # ts) @ rest = k @ CHR '':'' # t @ CHR '';'' # ?tail"
    by (simp add: type_lines_def)
  have "parseIdent False True (k @ CHR '':'' # t @ CHR '';'' # ?tail) = Inr (k, CHR '':'' # t @ CHR '';'' # ?tail)"
    using Cons.prems(1) kt by (intro parse_ident_text) (simp_all add: ident_stops_def)
  moreover have "parseIdent False False (t @ CHR '';'' # ?tail) = Inr (t, CHR '';'' # ?tail)"
    using Cons.prems(1) kt by (intro parse_ident_text) (simp_all add: ident_stops_def)
  moreover have "parseTypes m (dict_put k t acc) ?tail = Inr (fold (\<lambda>(k, t). dict_put k t) ts (dict_put k t acc), rest)"
    by (rule Cons.IH) (use Cons.prems n kt in auto)
  moreover have "k \<noteq> []" using Cons.prems(1) kt by (simp add: ident_text_def)
  ultimately show ?case using Cons.prems(3) by (simp add: n src kt)
qed

lemma add_types_empty: "dict_ok ts \<Longrightarrow> add_types ts [] = Inr ts"
proof -
  assume ok: "dict_ok ts"
  have "add_types us acc = Inr (fold (\<lambda>(k, t). dict_put k t) us acc)"
    if "distinct (map fst us)" and "\<forall>k \<in> set (map fst us). map_of acc k = None" for us acc
    using that
  proof (induction us arbitrary: acc)
    case (Cons u us)
    have "map_of (dict_put (fst u) (snd u) acc) k = None" if "k \<in> set (map fst us)" for k
      using Cons.prems that by (cases "k = fst u") auto
    with Cons show ?case by (simp add: add_types_def case_prod_beta)
  qed (simp add: add_types_def)
  then show ?thesis using dict_ok_distinct [OF ok] dict.rebuild [OF ok] by simp
qed

section \<open>Properties\<close>

definition schema_ok :: "schema \<Rightarrow> bool" where
  "schema_ok sch \<longleftrightarrow> dict_ok (sch_types sch) \<and>
     list_all (\<lambda>(k, t). ident_text k \<and> ident_text t) (sch_types sch) \<and> rules_ok (sch_rules sch)"

lemma delivered_append [simp]: "delivered (s @ t) = delivered s @ delivered t"
  by (simp add: delivered_def)

lemma delivered_id: "list_all (\<lambda>c. \<not> blank c) s \<Longrightarrow> delivered s = s"
  by (simp add: delivered_def list_all_iff filter_id_conv)

definition solid :: "string \<Rightarrow> bool" where
  "solid s \<longleftrightarrow> list_all (\<lambda>c. \<not> blank c) s"

lemma solid_simps [simp]:
  "solid []" "solid (s @ t) \<longleftrightarrow> solid s \<and> solid t" "solid (c # s) \<longleftrightarrow> \<not> blank c \<and> solid s"
  by (simp_all add: solid_def)

lemma solid_plain: "list_all plain_char s \<Longrightarrow> solid s"
  by (auto simp: solid_def plain_char_def list_all_iff)

lemma solid_ident: "ident_text s \<Longrightarrow> solid s"
  by (auto simp: solid_def ident_text_def plain_char_def list_all_iff)

lemma solid_join: "solid sep \<Longrightarrow> list_all solid ts \<Longrightarrow> solid (join_with sep ts)"
  by (induction sep ts rule: join_with.induct) auto

lemma solid_pred:
  assumes "pred_ok types p"
  shows "solid (pred_dump p types)"
proof -
  have "solid (dump_keyword types (pred_keyword p))"
    using assms solid_ident by (auto simp: pred_ok_def dump_keyword_def blank_def split: option.splits)
  moreover have "solid (matcher_text (pred_matcher p))"
  proof (cases "pred_matcher p")
    case (MatchAny vs)
    with assms have "list_all solid vs"
      by (auto simp: pred_ok_def value_text_def list_all_iff solid_plain)
    then show ?thesis using MatchAny by (simp add: blank_def solid_join)
  qed (use assms solid_plain in \<open>auto simp: pred_ok_def value_text_def blank_def\<close>)
  ultimately show ?thesis by (simp add: pred_dump_text)
qed

lemma solid_rules: "rule_ok r \<Longrightarrow> solid (rule_dump r)" "rules_ok rs \<Longrightarrow> solid (rules_dump rs)"
proof (induction r and rs rule: rule_dump_rules_dump.induct)
  case (1 line ps rs types)
  then have "list_all solid (map (\<lambda>p. pred_dump p types) ps)"
    by (auto simp: list_all_iff intro: solid_pred)
  with 1 show ?case by (simp add: blank_def solid_join)
qed simp_all

lemma delivered_dump:
  assumes "schema_ok sch"
  shows "delivered (schema_dump sch) = type_lines (sch_types sch) @ rules_dump (sch_rules sch)"
proof -
  have types: "delivered (dump_types ts) = type_lines ts"
    if "list_all (\<lambda>(k, t). ident_text k \<and> ident_text t) ts" for ts
    using that
  proof (induction ts)
    case (Cons kt ts)
    obtain k t where kt: "kt = (k, t)" by (cases kt)
    with Cons.prems have "delivered k = k" and "delivered t = t"
      using solid_ident [of k] solid_ident [of t] by (simp_all add: delivered_id solid_def)
    with Cons kt show ?case
      by (simp add: dump_types_def type_lines_def) (simp add: delivered_def blank_def)
  qed (simp add: dump_types_def type_lines_def delivered_def)
  have rules: "delivered (concat (map (\<lambda>r. rule_dump r @ ''\<newline>'') rs)) = rules_dump rs" if "rules_ok rs" for rs
    using that
  proof (induction rs)
    case (Cons r rs)
    then have "delivered (rule_dump r) = rule_dump r"
      using solid_rules(1) [of r] by (simp add: delivered_id solid_def)
    with Cons show ?case by simp (simp add: delivered_def blank_def)
  qed (simp add: delivered_def)
  from assms show ?thesis by (simp add: schema_dump_def schema_ok_def types rules)
qed

text \<open>
  C24: A schema survives its dump. For every schema that the notation can express, parsing what
  \<open>Schema::dump\<close> prints, into an empty schema, succeeds and gives the same types and the same rules,
  with the same predicates, matchers and local types in the same order, up to line numbers.
\<close>
theorem schema_dump_roundtrip:
  assumes "schema_ok sch"
  shows "\<exists>sch'. parse_schema lines \<lparr>sch_types = [], sch_rules = []\<rparr> (delivered (schema_dump sch)) = Inr sch' \<and>
    sch_types sch' = sch_types sch \<and> map erase_lines (sch_rules sch') = map erase_lines (sch_rules sch)"
proof -
  let ?rules = "rules_dump (sch_rules sch)" and ?ts = "sch_types sch"
  have ok: "dict_ok ?ts" "list_all (\<lambda>(k, t). ident_text k \<and> ident_text t) ?ts" "rules_ok (sch_rules sch)"
    using assms by (simp_all add: schema_ok_def)
  have peek: "peek ?rules \<in> {CHR ''['', CHR 0x00}"
    using peek_rules_dump [of "sch_rules sch" "[]"] by (cases "sch_rules sch = []") (simp_all add: peek_def)
  have long: "length ts \<le> length (type_lines ts)" for ts
    by (induction ts) (auto simp: type_lines_def)
  have "length ?ts < Suc (length (type_lines ?ts @ ?rules))"
    using long [of ?ts] by simp
  then have types: "parseTypes (Suc (length (type_lines ?ts @ ?rules))) [] (type_lines ?ts @ ?rules) = Inr (?ts, ?rules)"
    using parseTypes_text [OF ok(2) dict_ok_distinct [OF ok(1)] _ peek, of "[]"] dict.rebuild [OF ok(1)]
    by (simp del: parseTypes.simps)
  have "parses_all (more_rules lines (3 * length ?rules + 3) [] (?rules @ [])) [] (sch_rules sch) []"
    by (rule parse_dump(2) [OF ok(3)]) (simp_all add: peek_def)
  then obtain rs where rules: "more_rules lines (3 * length ?rules + 3) [] ?rules = Inr (rs, [])"
    and "map erase_lines rs = map erase_lines (sch_rules sch)"
    by (auto simp: parses_all_def)
  then show ?thesis
    unfolding parse_schema_def delivered_dump [OF assms]
    by (simp only: types rules bindE.simps prod.case add_types_empty [OF ok(1)] schema.simps) (simp add: peek_def)
qed

lemma sample_schema_ok: "schema_ok sample_schema"
  by (simp add: schema_ok_def sample_schema_def pred_ok_def ident_text_def value_text_def plain_char_def
      ident_stops_def blank_def)

lemma schema_dump_roundtrip_witness:
  "\<exists>sch'. parse_schema (\<lambda>_. 0) \<lparr>sch_types = [], sch_rules = []\<rparr> (delivered (schema_dump sample_schema)) = Inr sch' \<and>
    sch_types sch' = sch_types sample_schema \<and> map erase_lines (sch_rules sch') = map erase_lines (sch_rules sample_schema)"
  by (rule schema_dump_roundtrip [OF sample_schema_ok])

text \<open>
  C31: Parsing always ends, and not for lack of fuel: whatever the text, \<open>parse_schema\<close> returns a
  schema or an error of the source, because every loop of the parser consumes a character in each
  turn and the fuel given is three units for each character.
\<close>
theorem parse_schema_terminates:
  "parse_schema lines sch src \<noteq> Inl (LibraryError ''fuel'')"
  by (rule parse_schema_no_fuel)

end
