(* ===== verification/FDB_Axis.thy ===== *)
theory FDB_Axis
  imports FDB_Key
begin

text \<open>
  The axes of an index (\<open>src/fdb5/database/IndexAxis.{h,cc}\<close>) and the registry that shares equal
  axes between indexes (\<open>src/fdb5/database/AxisRegistry.{h,cc}\<close>). An axis maps keywords to shared
  pointers to sets of values, and \<open>merge\<close> and \<open>deduplicate\<close> copy pointers, so the sets live in an
  explicit store, the record \<open>world\<close>, that all axes and the registry share.

  The set type itself, \<open>eckit::DenseSet<std::string>\<close>, is library code: the record \<open>dense\<close> holds its
  operations, and the laws \<open>dense_laws\<close> are what its documentation says of them.
\<close>

section \<open>The library's sets\<close>

record 'd dense =
  ds_new :: "'d"
  ds_insert :: "string \<Rightarrow> 'd \<Rightarrow> 'd"
  ds_sort :: "'d \<Rightarrow> 'd"
  ds_merge :: "'d \<Rightarrow> 'd \<Rightarrow> 'd"
  ds_values :: "'d \<Rightarrow> string list"
  ds_contains :: "'d \<Rightarrow> string \<Rightarrow> bool"
  ds_eq :: "'d \<Rightarrow> 'd \<Rightarrow> bool"

definition dense_laws :: "'d dense \<Rightarrow> bool" where
  "dense_laws D \<longleftrightarrow>
     ds_values D (ds_new D) = [] \<and>
     (\<forall>v d. set (ds_values D (ds_insert D v d)) = insert v (set (ds_values D d))) \<and>
     (\<forall>d. set (ds_values D (ds_sort D d)) = set (ds_values D d)) \<and>
     (\<forall>a b. set (ds_values D (ds_merge D a b)) = set (ds_values D a) \<union> set (ds_values D b)) \<and>
     (\<forall>d v. ds_contains D d v \<longleftrightarrow> v \<in> set (ds_values D d)) \<and>
     (\<forall>a b. ds_eq D a b \<longrightarrow> set (ds_values D a) = set (ds_values D b))"

text \<open>A reference instance, for concrete inputs: sorted lists.\<close>

definition ref_dense :: "string list dense" where
  "ref_dense = \<lparr>ds_new = [], ds_insert = insort_insert, ds_sort = (\<lambda>d. d),
     ds_merge = (\<lambda>a b. fold insort_insert b a), ds_values = (\<lambda>d. d),
     ds_contains = (\<lambda>d v. v \<in> set d), ds_eq = (\<lambda>a b. a = b)\<rparr>"

lemma ref_dense_laws: "dense_laws ref_dense"
proof -
  have "set (fold insort_insert b a) = set a \<union> set b" for a b :: "string list"
    by (induction b arbitrary: a) (auto simp: set_insort_insert)
  then show ?thesis by (simp add: dense_laws_def ref_dense_def set_insort_insert)
qed

section \<open>The store and the registry\<close>

text \<open>The sets behind the pointers, the next pointer, and \<open>axes_\<close> of the registry.\<close>

record 'd world =
  w_heap :: "nat \<Rightarrow> 'd"
  w_next :: nat
  w_axes :: "(string, nat list) dict"

definition alloc :: "'d \<Rightarrow> 'd world \<Rightarrow> nat \<times> 'd world" where
  "alloc d w = (w_next w, w\<lparr>w_heap := (w_heap w)(w_next w := d), w_next := w_next w + 1\<rparr>)"

definition write_set :: "nat \<Rightarrow> 'd \<Rightarrow> 'd world \<Rightarrow> 'd world" where
  "write_set p d w = w\<lparr>w_heap := (w_heap w)(p := d)\<rparr>"

text \<open>\<open>deduplicate\<close>: an equal set of the registry replaces the new one, or the new one is stored.\<close>

definition deduplicate :: "'d dense \<Rightarrow> string \<Rightarrow> nat \<Rightarrow> 'd world \<Rightarrow> nat \<times> 'd world" where
  "deduplicate D keyword p w =
     (let axis = (case map_of (w_axes w) keyword of None \<Rightarrow> [] | Some ps \<Rightarrow> ps)
      in case filter (\<lambda>q. ds_eq D (w_heap w q) (w_heap w p)) axis of
           q # _ \<Rightarrow> (q, w\<lparr>w_axes := dict_put keyword axis (w_axes w)\<rparr>)
         | [] \<Rightarrow> (p, w\<lparr>w_axes := dict_put keyword (axis @ [p]) (w_axes w)\<rparr>))"

text \<open>
  \<open>release\<close>, with the number of owners of the pointer that \<open>use_count()\<close> reports: the registry and
  one axis are left when it is 2.
\<close>

definition release :: "'d dense \<Rightarrow> nat \<Rightarrow> string \<Rightarrow> nat \<Rightarrow> 'd world \<Rightarrow> 'd world res" where
  "release D use_count keyword p w =
     (if use_count \<noteq> 2 then Inr w
      else
        (case map_of (w_axes w) keyword of
           None \<Rightarrow> Inl (AssertFailed ''it != axes_.end()'')
         | Some ps \<Rightarrow>
             (let rest = filter (\<lambda>q. \<not> ds_eq D (w_heap w q) (w_heap w p)) ps
              in if p \<notin> set ps \<or> p \<in> set rest then Inl (AssertFailed ''ptr.use_count() == 1'')
                 else if rest = [] then Inr (w\<lparr>w_axes := dict_erase keyword (w_axes w)\<rparr>)
                 else Inr (w\<lparr>w_axes := dict_put keyword rest (w_axes w)\<rparr>))))"

section \<open>Axes\<close>

record axis =
  ax_axis :: "(string, nat) dict"
  ax_readOnly :: bool
  ax_dirty :: bool

definition new_axis :: axis where
  "new_axis = \<lparr>ax_axis = [], ax_readOnly = False, ax_dirty = False\<rparr>"

text \<open>The destructor of a read-only axis releases each of its sets; \<open>counts\<close> is \<open>use_count()\<close>.\<close>

definition axis_destroy :: "'d dense \<Rightarrow> (nat \<Rightarrow> nat) \<Rightarrow> axis \<Rightarrow> 'd world \<Rightarrow> 'd world res" where
  "axis_destroy D counts a w =
     (if \<not> ax_readOnly a then Inr w
      else foldE (\<lambda>(k, p). release D (counts p) k p) (ax_axis a) w)"

definition axis_eq :: "'d dense \<Rightarrow> 'd world \<Rightarrow> axis \<Rightarrow> axis \<Rightarrow> bool" where
  "axis_eq D w a b \<longleftrightarrow> length (ax_axis a) = length (ax_axis b) \<and>
     list_all (\<lambda>(k, p). case map_of (ax_axis b) k of
       None \<Rightarrow> False | Some q \<Rightarrow> ds_eq D (w_heap w p) (w_heap w q)) (ax_axis a)"

definition axis_clean :: "axis \<Rightarrow> axis" where
  "axis_clean a = a\<lparr>ax_dirty := False\<rparr>"

definition axis_sort :: "'d dense \<Rightarrow> axis \<Rightarrow> 'd world \<Rightarrow> 'd world" where
  "axis_sort D a w = fold (\<lambda>(k, p) w. write_set p (ds_sort D (w_heap w p)) w) (ax_axis a) w"

definition axis_wipe :: "axis \<Rightarrow> axis res" where
  "axis_wipe a = bindE (assertE (\<not> ax_readOnly a) ''!readOnly_'') (\<lambda>_. Inr (axis_clean (a\<lparr>ax_axis := []\<rparr>)))"

definition axis_has :: "axis \<Rightarrow> string \<Rightarrow> bool" where
  "axis_has a keyword \<longleftrightarrow> map_of (ax_axis a) keyword \<noteq> None"

definition axis_values :: "'d dense \<Rightarrow> 'd world \<Rightarrow> axis \<Rightarrow> string \<Rightarrow> 'd res" where
  "axis_values D w a keyword =
     (if ax_axis a = [] then Inr (ds_new D)
      else (case map_of (ax_axis a) keyword of
              None \<Rightarrow> Inl (SeriousBug ''Cannot find Axis'')
            | Some p \<Rightarrow> Inr (w_heap w p)))"

definition axis_map :: "'d world \<Rightarrow> axis \<Rightarrow> (string, 'd) dict" where
  "axis_map w a = map (\<lambda>(k, p). (k, w_heap w p)) (ax_axis a)"

text \<open>One turn of the loop of \<open>insert\<close>: a missing set is made, then the canonical value goes in.\<close>

definition insert_value ::
    "ext \<Rightarrow> 'd dense \<Rightarrow> key \<Rightarrow> string \<Rightarrow> axis \<times> 'd world \<Rightarrow> (axis \<times> 'd world) res" where
  "insert_value e D key keyword = (\<lambda>(a, w).
     (let (p, a, w) =
        (case map_of (ax_axis a) keyword of
           Some p \<Rightarrow> (p, a, w)
         | None \<Rightarrow>
             (case alloc (ds_new D) w of (p, w) \<Rightarrow> (p, a\<lparr>ax_axis := dict_put keyword p (ax_axis a)\<rparr>, w)))
      in bindE (canonicalValue e key keyword) (\<lambda>v.
           Inr (a\<lparr>ax_dirty := True\<rparr>, write_set p (ds_insert D v (w_heap w p)) w))))"

definition axis_insert :: "ext \<Rightarrow> 'd dense \<Rightarrow> key \<Rightarrow> axis \<times> 'd world \<Rightarrow> (axis \<times> 'd world) res" where
  "axis_insert e D key aw =
     bindE (assertE (\<not> ax_readOnly (fst aw)) ''!readOnly_'') (\<lambda>_.
       foldE (insert_value e D key) (dict_keys (key_dict key)) aw)"

definition merge_value :: "'d dense \<Rightarrow> string \<times> nat \<Rightarrow> axis \<times> 'd world \<Rightarrow> axis \<times> 'd world" where
  "merge_value D kp aw =
     (case map_of (ax_axis (fst aw)) (fst kp) of
        None \<Rightarrow> ((fst aw)\<lparr>ax_axis := dict_put (fst kp) (snd kp) (ax_axis (fst aw))\<rparr>, snd aw)
      | Some p \<Rightarrow>
          (fst aw, write_set p (ds_merge D (w_heap (snd aw) p) (w_heap (snd aw) (snd kp))) (snd aw)))"

definition axis_merge :: "'d dense \<Rightarrow> axis \<Rightarrow> axis \<times> 'd world \<Rightarrow> (axis \<times> 'd world) res" where
  "axis_merge D other aw =
     bindE (assertE (\<not> ax_readOnly (fst aw)) ''!readOnly_'') (\<lambda>_.
       Inr (fold (merge_value D) (ax_axis other) aw))"

fun partial_loop :: "'d dense \<Rightarrow> 'd world \<Rightarrow> mars_request \<Rightarrow> (string \<times> nat) list \<Rightarrow> bool res" where
  "partial_loop D w rq [] = Inr True"
| "partial_loop D w rq ((k, p) # kps) =
     (if rq_has rq k then
        bindE (rq_values rq k) (\<lambda>vs.
          if list_ex (ds_contains D (w_heap w p)) vs then partial_loop D w rq kps else Inr False)
      else partial_loop D w rq kps)"

definition axis_partialMatch :: "'d dense \<Rightarrow> 'd world \<Rightarrow> axis \<Rightarrow> mars_request \<Rightarrow> bool res" where
  "axis_partialMatch D w a rq = partial_loop D w rq (ax_axis a)"

fun contains_loop :: "ext \<Rightarrow> 'd dense \<Rightarrow> 'd world \<Rightarrow> key \<Rightarrow> (string \<times> nat) list \<Rightarrow> bool res" where
  "contains_loop e D w key [] = Inr True"
| "contains_loop e D w key ((k, p) # kps) =
     bindE (match_dense e key k (set (ds_values D (w_heap w p)))) (\<lambda>b.
       if b then contains_loop e D w key kps else Inr False)"

definition axis_contains :: "ext \<Rightarrow> 'd dense \<Rightarrow> 'd world \<Rightarrow> axis \<Rightarrow> key \<Rightarrow> bool res" where
  "axis_contains e D w a key = contains_loop e D w key (ax_axis a)"

section \<open>Encoding\<close>

definition encode_values :: "'d dense \<Rightarrow> 'd \<Rightarrow> item list" where
  "encode_values D d = INum (length (ds_values D d)) # map IStr (ds_values D d)"

definition encode_entries :: "'d dense \<Rightarrow> 'd world \<Rightarrow> (string \<times> nat) list \<Rightarrow> item list" where
  "encode_entries D w kps = concat (map (\<lambda>(k, p). IStr k # encode_values D (w_heap w p)) kps)"

definition encodeCurrent :: "'d dense \<Rightarrow> 'd world \<Rightarrow> axis \<Rightarrow> nat \<Rightarrow> item list res" where
  "encodeCurrent D w a version =
     bindE (assertE (3 \<le> version) ''version >= 3'') (\<lambda>_.
       Inr ([IObject, IStr ''size'', INum (length (ax_axis a)), IStr ''axes''] @
            encode_entries D w (ax_axis a) @ [IEnd]))"

definition encodeLegacy :: "'d dense \<Rightarrow> 'd world \<Rightarrow> axis \<Rightarrow> nat \<Rightarrow> item list res" where
  "encodeLegacy D w a version =
     bindE (assertE (version \<le> 2) ''version <= 2'') (\<lambda>_.
       Inr (INum (length (ax_axis a)) # encode_entries D w (ax_axis a)))"

definition encode_axis :: "'d dense \<Rightarrow> 'd world \<Rightarrow> axis \<Rightarrow> nat \<Rightarrow> item list res" where
  "encode_axis D w a version = (if 3 \<le> version then encodeCurrent D w a version else encodeLegacy D w a version)"

text \<open>One axis: its keyword and values, sorted and shared with an equal set of the registry.\<close>

definition decode_entry ::
    "'d dense \<Rightarrow> axis \<times> 'd world \<times> item list \<Rightarrow> (axis \<times> 'd world \<times> item list) res" where
  "decode_entry D = (\<lambda>(a, w, is).
     bindE (read_str is) (\<lambda>(k, is).
     bindE (read_num is) (\<lambda>(m, is).
     bindE (read_many read_str m is) (\<lambda>(vs, is).
       (let (p, w) = alloc (ds_sort D (fold (ds_insert D) vs (ds_new D))) w;
            (p, w) = deduplicate D k p w
        in Inr (a\<lparr>ax_axis := dict_put k p (ax_axis a)\<rparr>, w, is))))))"

fun decode_entries :: "'d dense \<Rightarrow> nat \<Rightarrow> axis \<times> 'd world \<times> item list \<Rightarrow> (axis \<times> 'd world \<times> item list) res" where
  "decode_entries D 0 st = Inr st"
| "decode_entries D (Suc n) st = bindE (decode_entry D st) (decode_entries D n)"

text \<open>The loop over the fields of the object; every turn reads at least the name of a field.\<close>

fun decode_fields ::
    "nat \<Rightarrow> 'd dense \<Rightarrow> nat \<Rightarrow> axis \<times> 'd world \<times> item list \<Rightarrow> (axis \<times> 'd world \<times> item list) res" where
  "decode_fields 0 D n (a, w, is) = Inl (LibraryError ''fuel'')"
| "decode_fields (Suc f) D n (a, w, is) =
     (case is of
        IEnd # rest \<Rightarrow> Inr (a, w, rest)
      | _ \<Rightarrow>
          bindE (read_str is) (\<lambda>(k, is).
            if k = ''size'' then bindE (read_num is) (\<lambda>(n, is). decode_fields f D n (a, w, is))
            else if k = ''axes'' then
              bindE (assertE (n \<noteq> 0) ''n'') (\<lambda>_.
              bindE (decode_entries D n (a, w, is)) (decode_fields f D n))
            else Inl (SeriousBug ''IndexBase de-serialization error'')))"

definition decodeCurrent ::
    "'d dense \<Rightarrow> nat \<Rightarrow> axis \<times> 'd world \<times> item list \<Rightarrow> (axis \<times> 'd world \<times> item list) res" where
  "decodeCurrent D version = (\<lambda>(a, w, is).
     bindE (assertE (3 \<le> version) ''version >= 3'') (\<lambda>_.
     bindE (case is of IObject # rest \<Rightarrow> Inr rest | _ \<Rightarrow> Inl (AssertFailed ''s.next()'')) (\<lambda>is.
     bindE (assertE (ax_axis a = []) ''axis_.empty()'') (\<lambda>_.
     bindE (decode_fields (Suc (length is)) D 0 (a, w, is)) (\<lambda>(a, w, is).
     bindE (assertE (ax_axis a \<noteq> []) ''!axis_.empty()'') (\<lambda>_. Inr (a, w, is)))))))"

definition decodeLegacy ::
    "'d dense \<Rightarrow> nat \<Rightarrow> axis \<times> 'd world \<times> item list \<Rightarrow> (axis \<times> 'd world \<times> item list) res" where
  "decodeLegacy D version = (\<lambda>(a, w, is).
     bindE (assertE (version \<le> 2) ''version <= 2'') (\<lambda>_.
     bindE (read_num is) (\<lambda>(n, is). decode_entries D n (a, w, is))))"

definition decode_axis ::
    "'d dense \<Rightarrow> nat \<Rightarrow> axis \<times> 'd world \<times> item list \<Rightarrow> (axis \<times> 'd world \<times> item list) res" where
  "decode_axis D version st = (if 3 \<le> version then decodeCurrent D version st else decodeLegacy D version st)"

text \<open>\<open>IndexAxis(stream, version)\<close>.\<close>

definition axis_of_stream :: "'d dense \<Rightarrow> nat \<Rightarrow> 'd world \<Rightarrow> item list \<Rightarrow> (axis \<times> 'd world \<times> item list) res" where
  "axis_of_stream D version w is =
     decode_axis D version (\<lparr>ax_axis = [], ax_readOnly = True, ax_dirty = False\<rparr>, w, is)"

section \<open>The contents of an axis\<close>

definition axis_view :: "'d dense \<Rightarrow> 'd world \<Rightarrow> axis \<Rightarrow> string \<Rightarrow> string set option" where
  "axis_view D w a k = map_option (\<lambda>p. set (ds_values D (w_heap w p))) (map_of (ax_axis a) k)"

text \<open>
  The store is well formed when every pointer of the registry is allocated, and the axis is when
  its dictionary is ordered and its pointers are allocated.
\<close>

definition world_ok :: "'d world \<Rightarrow> bool" where
  "world_ok w \<longleftrightarrow> dict_ok (w_axes w) \<and> (\<forall>(k, ps) \<in> set (w_axes w). \<forall>p \<in> set ps. p < w_next w)"

definition axis_ok :: "'d world \<Rightarrow> axis \<Rightarrow> bool" where
  "axis_ok w a \<longleftrightarrow> dict_ok (ax_axis a) \<and> (\<forall>(k, p) \<in> set (ax_axis a). p < w_next w)"

section \<open>Decoding\<close>

lemma axis_view_put:
  "axis_view D w (a\<lparr>ax_axis := dict_put k p (ax_axis a)\<rparr>) k' =
     (if k' = k then Some (set (ds_values D (w_heap w p))) else axis_view D w a k')"
  by (simp add: axis_view_def)

lemma view_heap_cong:
  "axis_ok w a \<Longrightarrow> \<forall>p < w_next w. w_heap w' p = w_heap w p \<Longrightarrow> axis_view D w' a k = axis_view D w a k"
  by (cases "map_of (ax_axis a) k") (fastforce simp: axis_view_def axis_ok_def dest: map_of_SomeD)+

lemma set_fold_insert:
  assumes "dense_laws D"
  shows "set (ds_values D (fold (ds_insert D) vs d)) = set vs \<union> set (ds_values D d)"
  using assms by (induction vs arbitrary: d) (auto simp: dense_laws_def)

text \<open>Sharing keeps the values: the pointer that comes back holds the same set.\<close>

lemma deduplicate_keeps:
  assumes laws: "dense_laws D" and ok: "world_ok w" and p: "p < w_next w"
    and dd: "deduplicate D k p w = (q, w')"
  shows "world_ok w' \<and> q < w_next w' \<and> w_next w' = w_next w \<and> w_heap w' = w_heap w \<and>
    set (ds_values D (w_heap w' q)) = set (ds_values D (w_heap w p))"
proof -
  let ?axis = "case map_of (w_axes w) k of None \<Rightarrow> [] | Some ps \<Rightarrow> ps"
  have axis: "\<forall>q \<in> set ?axis. q < w_next w"
  proof (cases "map_of (w_axes w) k")
    case (Some ps)
    then have "(k, ps) \<in> set (w_axes w)" by (rule map_of_SomeD)
    with ok Some show ?thesis by (auto simp: world_ok_def)
  qed simp
  have put: "world_ok (w\<lparr>w_axes := dict_put k ps (w_axes w)\<rparr>)" if "\<forall>q \<in> set ps. q < w_next w" for ps
  proof -
    have "\<forall>q \<in> set ps'. q < w_next w" if "(k', ps') \<in> set (dict_put k ps (w_axes w))" for k' ps'
    proof -
      have d: "dict_ok (w_axes w)" using ok by (simp add: world_ok_def)
      from that d have "map_of (dict_put k ps (w_axes w)) k' = Some ps'"
        by (simp only: dict_ok_in_set [OF dict_ok_put [OF d]])
      then show ?thesis
        using \<open>\<forall>q \<in> set ps. q < w_next w\<close> ok by (fastforce simp: world_ok_def split: if_splits dest: map_of_SomeD)
    qed
    then show ?thesis using ok by (auto simp: world_ok_def)
  qed
  show ?thesis
  proof (cases "filter (\<lambda>q. ds_eq D (w_heap w q) (w_heap w p)) ?axis")
    case Nil
    then have eq: "(p, w\<lparr>w_axes := dict_put k (?axis @ [p]) (w_axes w)\<rparr>) = (q, w')"
      using dd by (simp only: deduplicate_def Let_def list.case)
    then have "q = p" and "w' = w\<lparr>w_axes := dict_put k (?axis @ [p]) (w_axes w)\<rparr>" by blast+
    then show ?thesis using put [of "?axis @ [p]"] axis p by simp
  next
    case (Cons r rs)
    then have "(r, w\<lparr>w_axes := dict_put k ?axis (w_axes w)\<rparr>) = (q, w')"
      using dd by (simp only: deduplicate_def Let_def list.case)
    then have q: "q = r" and w': "w' = w\<lparr>w_axes := dict_put k ?axis (w_axes w)\<rparr>" by blast+
    have "r \<in> set (filter (\<lambda>q. ds_eq D (w_heap w q) (w_heap w p)) ?axis)" by (simp only: Cons list.set_intros)
    then have "r \<in> set ?axis" and "ds_eq D (w_heap w r) (w_heap w p)" by simp_all
    then show ?thesis using put [OF axis] axis laws by (auto simp: q w' dense_laws_def)
  qed
qed

lemma alloc_keeps:
  assumes "world_ok w" and "alloc d w = (p, w')"
  shows "world_ok w' \<and> p < w_next w' \<and> w_next w \<le> w_next w' \<and> w_heap w' p = d \<and>
    (\<forall>q < w_next w. w_heap w' q = w_heap w q)"
  using assms by (fastforce simp: alloc_def world_ok_def)

definition entry_items :: "string \<times> string list \<Rightarrow> item list" where
  "entry_items kv = IStr (fst kv) # INum (length (snd kv)) # map IStr (snd kv)"

text \<open>What the decoder keeps: the store and the axis stay well formed, old sets are not touched.\<close>

definition extends :: "'d world \<Rightarrow> 'd world \<Rightarrow> bool" where
  "extends w w' \<longleftrightarrow> w_next w \<le> w_next w' \<and> (\<forall>p < w_next w. w_heap w' p = w_heap w p)"

lemma extends_trans: "extends w w' \<Longrightarrow> extends w' w'' \<Longrightarrow> extends w w''"
  by (auto simp: extends_def)

lemma axis_ok_extends: "axis_ok w a \<Longrightarrow> extends w w' \<Longrightarrow> axis_ok w' a"
  by (fastforce simp: axis_ok_def extends_def)

lemma axis_ok_put:
  assumes "axis_ok w a" and "p < w_next w"
  shows "axis_ok w (a\<lparr>ax_axis := dict_put k p (ax_axis a)\<rparr>)"
proof -
  have d: "dict_ok (ax_axis a)" using assms by (simp add: axis_ok_def)
  have "q < w_next w" if "(k', q) \<in> set (dict_put k p (ax_axis a))" for k' q
  proof -
    from that have "map_of (dict_put k p (ax_axis a)) k' = Some q"
      by (simp only: dict_ok_in_set [OF dict_ok_put [OF d]])
    then show ?thesis using assms by (fastforce simp: axis_ok_def split: if_splits dest: map_of_SomeD)
  qed
  with d show ?thesis by (auto simp: axis_ok_def)
qed

lemma decode_entry_step:
  assumes laws: "dense_laws D" and w: "world_ok w" and a: "axis_ok w a"
  shows "\<exists>p w'. decode_entry D (a, w, entry_items (k, vs) @ rest) =
      Inr (a\<lparr>ax_axis := dict_put k p (ax_axis a)\<rparr>, w', rest) \<and>
    world_ok w' \<and> extends w w' \<and> p < w_next w' \<and> set (ds_values D (w_heap w' p)) = set vs"
proof -
  let ?d = "ds_sort D (fold (ds_insert D) vs (ds_new D))"
  obtain p1 w1 where 1: "alloc ?d w = (p1, w1)" by (cases "alloc ?d w")
  obtain p w2 where 2: "deduplicate D k p1 w1 = (p, w2)" by (cases "deduplicate D k p1 w1")
  have vs: "read_many read_str (length vs) (map IStr vs @ rest) = Inr (vs, rest)"
    using str_codec.read_many_enc [of vs rest] by (simp add: list_all_iff)
  have d: "set (ds_values D ?d) = set vs"
    using laws set_fold_insert [OF laws, of vs "ds_new D"] by (simp add: dense_laws_def)
  note k1 = alloc_keeps [OF w 1]
  then have k2: "world_ok w2 \<and> p < w_next w2 \<and> w_next w2 = w_next w1 \<and> w_heap w2 = w_heap w1 \<and>
    set (ds_values D (w_heap w2 p)) = set (ds_values D (w_heap w1 p1))"
    by (intro deduplicate_keeps [OF laws _ _ 2]) simp_all
  have "decode_entry D (a, w, entry_items (k, vs) @ rest) = Inr (a\<lparr>ax_axis := dict_put k p (ax_axis a)\<rparr>, w2, rest)"
    using vs by (simp add: decode_entry_def entry_items_def 1 2)
  then show ?thesis using k1 k2 d by (auto simp: extends_def)
qed

lemma decode_entries_all:
  assumes laws: "dense_laws D"
  shows "world_ok w \<Longrightarrow> axis_ok w a \<Longrightarrow> distinct (map fst kvs) \<Longrightarrow>
    \<exists>a' w'. decode_entries D (length kvs) (a, w, concat (map entry_items kvs) @ rest) = Inr (a', w', rest) \<and>
      world_ok w' \<and> axis_ok w' a' \<and> extends w w' \<and> ax_readOnly a' = ax_readOnly a \<and>
      (kvs \<noteq> [] \<longrightarrow> ax_axis a' \<noteq> []) \<and>
      (\<forall>k. axis_view D w' a' k = (case map_of kvs k of None \<Rightarrow> axis_view D w a k | Some vs \<Rightarrow> Some (set vs)))"
proof (induction kvs arbitrary: a w)
  case Nil
  then show ?case by (auto simp: extends_def)
next
  case (Cons kv kvs)
  obtain k vs where kv: "kv = (k, vs)" by (cases kv)
  from decode_entry_step [OF laws Cons.prems(1,2), of k vs "concat (map entry_items kvs) @ rest"]
  obtain p w1 where step: "decode_entry D (a, w, entry_items (k, vs) @ concat (map entry_items kvs) @ rest) =
      Inr (a\<lparr>ax_axis := dict_put k p (ax_axis a)\<rparr>, w1, concat (map entry_items kvs) @ rest)"
    and w1: "world_ok w1" and ext: "extends w w1" and p: "p < w_next w1"
    and vals: "set (ds_values D (w_heap w1 p)) = set vs" by blast
  let ?a1 = "a\<lparr>ax_axis := dict_put k p (ax_axis a)\<rparr>"
  have a1: "axis_ok w1 ?a1" by (rule axis_ok_put [OF axis_ok_extends [OF Cons.prems(2) ext] p])
  from Cons.IH [OF w1 a1] Cons.prems(3) obtain a' w' where
    rec: "decode_entries D (length kvs) (?a1, w1, concat (map entry_items kvs) @ rest) = Inr (a', w', rest)"
    and w': "world_ok w'" "axis_ok w' a'" "extends w1 w'" "ax_readOnly a' = ax_readOnly a"
    and view: "\<forall>k'. axis_view D w' a' k' = (case map_of kvs k' of None \<Rightarrow> axis_view D w1 ?a1 k' | Some vs \<Rightarrow> Some (set vs))"
    by auto
  have old: "axis_view D w1 a k' = axis_view D w a k'" for k'
    by (rule view_heap_cong [OF Cons.prems(2)]) (use ext in \<open>simp add: extends_def\<close>)
  have "axis_view D w' a' k' = (case map_of (kv # kvs) k' of None \<Rightarrow> axis_view D w a k' | Some vs \<Rightarrow> Some (set vs))" for k'
    using view Cons.prems(3) old vals
    by (auto simp: kv axis_view_put map_of_eq_None_iff [symmetric] split: option.splits)
  moreover from this [of k] kv have "ax_axis a' \<noteq> []" by (auto simp: axis_view_def)
  ultimately show ?case
    using step rec w' extends_trans [OF ext] by (auto simp: kv)
qed


section \<open>Inserting only adds\<close>

text \<open>Every set of the store has at least the values it had.\<close>

definition grows :: "'d dense \<Rightarrow> 'd world \<Rightarrow> 'd world \<Rightarrow> bool" where
  "grows D w w' \<longleftrightarrow> w_next w \<le> w_next w' \<and>
     (\<forall>p < w_next w. set (ds_values D (w_heap w p)) \<subseteq> set (ds_values D (w_heap w' p)))"

lemma grows_refl [simp]: "grows D w w"
  by (simp add: grows_def)

lemma grows_trans: "grows D w w' \<Longrightarrow> grows D w' w'' \<Longrightarrow> grows D w w''"
  unfolding grows_def by (meson order_trans less_le_trans)

lemma insert_value_step:
  assumes laws: "dense_laws D" and a: "axis_ok w a" and step: "insert_value e D key k (a, w) = Inr (a', w')"
  shows "axis_ok w' a' \<and> grows D w w' \<and> ax_readOnly a' = ax_readOnly a \<and>
    set (dict_keys (ax_axis a')) = insert k (set (dict_keys (ax_axis a))) \<and>
    (\<forall>k' p. map_of (ax_axis a) k' = Some p \<longrightarrow> map_of (ax_axis a') k' = Some p) \<and>
    (\<exists>c p. canonicalValue e key k = Inr c \<and> map_of (ax_axis a') k = Some p \<and> c \<in> set (ds_values D (w_heap w' p)))"
proof (cases "map_of (ax_axis a) k")
  case (Some p)
  then have mem: "(k, p) \<in> set (ax_axis a)" by (rule map_of_SomeD)
  then have "p < w_next w" and "k \<in> set (dict_keys (ax_axis a))"
    using a by (auto simp: axis_ok_def intro: image_eqI [where x = "(k, p)"])
  moreover from step Some obtain c where "canonicalValue e key k = Inr c" and "a' = a\<lparr>ax_dirty := True\<rparr>"
    and "w' = write_set p (ds_insert D c (w_heap w p)) w"
    by (auto simp: insert_value_def bindE_eq_Inr)
  ultimately show ?thesis
    using a Some laws by (auto simp: axis_ok_def grows_def write_set_def dense_laws_def insert_absorb)
next
  case None
  with step obtain c where c: "canonicalValue e key k = Inr c"
    and a': "a' = a\<lparr>ax_axis := dict_put k (w_next w) (ax_axis a), ax_dirty := True\<rparr>"
    and w': "w' = write_set (w_next w) (ds_insert D c (ds_new D)) (snd (alloc (ds_new D) w))"
    by (auto simp: insert_value_def bindE_eq_Inr alloc_def)
  let ?w1 = "w\<lparr>w_next := Suc (w_next w)\<rparr>"
  have "axis_ok ?w1 a" using a by (fastforce simp: axis_ok_def)
  then have "axis_ok ?w1 (a\<lparr>ax_axis := dict_put k (w_next w) (ax_axis a)\<rparr>)"
    by (rule axis_ok_put) simp
  then have "axis_ok w' a'" by (simp add: axis_ok_def a' w' write_set_def alloc_def)
  then show ?thesis
    using c None laws by (auto simp: a' w' grows_def write_set_def alloc_def dense_laws_def)
qed

text \<open>What holds of the axis while the keywords of \<open>key\<close> are inserted one after the other.\<close>

definition holds_values :: "ext \<Rightarrow> 'd dense \<Rightarrow> key \<Rightarrow> string set \<Rightarrow> axis \<times> 'd world \<Rightarrow> bool" where
  "holds_values e D key ks = (\<lambda>(a, w). \<forall>k \<in> ks. \<exists>c p. canonicalValue e key k = Inr c \<and>
     map_of (ax_axis a) k = Some p \<and> c \<in> set (ds_values D (w_heap w p)))"

lemma insert_all_steps:
  assumes laws: "dense_laws D"
  shows "axis_ok w a \<Longrightarrow> holds_values e D key done_ks (a, w) \<Longrightarrow>
    foldE (insert_value e D key) ks (a, w) = Inr (a', w') \<Longrightarrow>
    axis_ok w' a' \<and> grows D w w' \<and> set (dict_keys (ax_axis a')) = set ks \<union> set (dict_keys (ax_axis a)) \<and>
    (\<forall>k' p. map_of (ax_axis a) k' = Some p \<longrightarrow> map_of (ax_axis a') k' = Some p) \<and>
    holds_values e D key (done_ks \<union> set ks) (a', w')"
proof (induction ks arbitrary: a w done_ks)
  case (Cons k ks)
  from Cons.prems(3) obtain a1 w1 where step: "insert_value e D key k (a, w) = Inr (a1, w1)"
    and rest: "foldE (insert_value e D key) ks (a1, w1) = Inr (a', w')"
    by (auto simp: bindE_eq_Inr)
  note s = insert_value_step [OF laws Cons.prems(1) step]
  have "holds_values e D key (insert k done_ks) (a1, w1)"
    unfolding holds_values_def prod.case
  proof
    fix k'
    assume "k' \<in> insert k done_ks"
    then consider "k' = k" | "k' \<in> done_ks" by blast
    then show "\<exists>c p. canonicalValue e key k' = Inr c \<and> map_of (ax_axis a1) k' = Some p \<and> c \<in> set (ds_values D (w_heap w1 p))"
    proof cases
      case 1
      with s show ?thesis by blast
    next
      case 2
      with Cons.prems(2) obtain c p where cp: "canonicalValue e key k' = Inr c" "map_of (ax_axis a) k' = Some p"
        "c \<in> set (ds_values D (w_heap w p))" by (auto simp: holds_values_def)
      then have "p < w_next w" using Cons.prems(1) by (auto simp: axis_ok_def dest: map_of_SomeD)
      with cp s show ?thesis by (auto simp: grows_def)
    qed
  qed
  from Cons.IH [OF _ this rest] s show ?case
    by (auto intro: grows_trans)
qed (auto simp: holds_values_def)

lemma contains_loop_True:
  "\<forall>(k, p) \<in> set kps. match_dense e key k (set (ds_values D (w_heap w p))) = Inr True \<Longrightarrow>
   contains_loop e D w key kps = Inr True"
  by (induction kps) auto

lemma match_dense_canonical:
  assumes "canonicalValue e key k = Inr c" and "c \<in> S"
  shows "match_dense e key k S = Inr True"
  using assms by (auto simp: canonicalValue_def key_value_def match_dense_def bindE_eq_Inr split: option.splits)

lemma fold_merge_lookup:
  "map_of (ax_axis (fst (fold (merge_value D) kps aw))) k =
     (case map_of (ax_axis (fst aw)) k of Some p \<Rightarrow> Some p | None \<Rightarrow> map_of kps k)"
proof (induction kps arbitrary: aw)
  case (Cons kp kps)
  then show ?case by (cases kp) (auto simp: merge_value_def split: option.splits)
qed (simp split: option.splits)

text \<open>An axis covers a key when the canonical value of the key is in the set of every keyword.\<close>

definition covers :: "ext \<Rightarrow> 'd dense \<Rightarrow> 'd world \<Rightarrow> axis \<Rightarrow> key \<Rightarrow> bool" where
  "covers e D w a key \<longleftrightarrow>
     (\<forall>k S. axis_view D w a k = Some S \<longrightarrow> (\<exists>c. canonicalValue e key k = Inr c \<and> c \<in> S))"

lemma covers_contains: "axis_ok w a \<Longrightarrow> covers e D w a key \<Longrightarrow> axis_contains e D w a key = Inr True"
  unfolding axis_contains_def
proof (rule contains_loop_True, clarify)
  fix k p
  assume a: "axis_ok w a" and c: "covers e D w a key" and kp: "(k, p) \<in> set (ax_axis a)"
  from a kp have "axis_view D w a k = Some (set (ds_values D (w_heap w p)))"
    by (simp add: axis_view_def axis_ok_def dict_ok_in_set)
  with c obtain v where "canonicalValue e key k = Inr v" "v \<in> set (ds_values D (w_heap w p))"
    by (auto simp: covers_def)
  then show "match_dense e key k (set (ds_values D (w_heap w p))) = Inr True"
    by (rule match_dense_canonical)
qed

lemma covers_cong: "(\<And>k. axis_view D' w' a' k = axis_view D w a k) \<Longrightarrow> covers e D' w' a' key = covers e D w a key"
  by (simp add: covers_def)

text \<open>
  Inserting a key with all keywords of the axis covers it, and what was covered stays covered when
  the axis had the keywords already.
\<close>

lemma insert_covers:
  assumes "dense_laws D" and a: "axis_ok w a" and "key_ok key"
    and sub: "set (dict_keys (ax_axis a)) \<subseteq> set (dict_keys (key_dict key))"
    and ins: "axis_insert e D key (a, w) = Inr (a', w')"
  shows "covers e D w' a' key \<and> axis_ok w' a' \<and> grows D w w' \<and> ax_readOnly a' = ax_readOnly a \<and>
    set (dict_keys (ax_axis a')) = set (dict_keys (key_dict key)) \<and>
    (\<forall>j. set (dict_keys (ax_axis a)) = set (dict_keys (key_dict key)) \<and> covers e D w a j \<longrightarrow> covers e D w' a' j)"
proof -
  from ins have f: "foldE (insert_value e D key) (dict_keys (key_dict key)) (a, w) = Inr (a', w')"
    by (auto simp: axis_insert_def bindE_eq_Inr)
  from insert_all_steps [OF assms(1) a _ f, of "{}"]
  have ok: "axis_ok w' a'" and grow: "grows D w w'"
    and keys: "set (dict_keys (ax_axis a')) = set (dict_keys (key_dict key)) \<union> set (dict_keys (ax_axis a))"
    and vals: "holds_values e D key (set (dict_keys (key_dict key))) (a', w')"
    and same: "\<forall>k p. map_of (ax_axis a) k = Some p \<longrightarrow> map_of (ax_axis a') k = Some p"
    by (auto simp: holds_values_def)
  have ro: "ax_readOnly a' = ax_readOnly a"
  proof -
    have step: "ax_readOnly (fst aw') = ax_readOnly a"
      if "ax_readOnly (fst aw) = ax_readOnly a" "insert_value e D key k aw = Inr aw'" for k aw aw'
      using that by (cases aw) (auto simp: insert_value_def bindE_eq_Inr Let_def alloc_def split: option.splits)
    have "ax_readOnly (fst (a', w')) = ax_readOnly a"
      by (rule foldE_invariant [where P = "\<lambda>aw. ax_readOnly (fst aw) = ax_readOnly a", OF _ _ f]) (simp_all add: step)
    then show ?thesis by simp
  qed
  have "covers e D w' a' key"
    unfolding covers_def
  proof (intro allI impI)
    fix k S
    assume S: "axis_view D w' a' k = Some S"
    then have "k \<in> set (dict_keys (ax_axis a'))" by (auto simp: axis_view_def dest: map_of_SomeD intro!: image_eqI)
    with keys sub have "k \<in> set (dict_keys (key_dict key))" by blast
    with vals S show "\<exists>c. canonicalValue e key k = Inr c \<and> c \<in> S" by (auto simp: holds_values_def axis_view_def)
  qed
  moreover have "covers e D w' a' j"
    if eq: "set (dict_keys (ax_axis a)) = set (dict_keys (key_dict key))" and cov: "covers e D w a j" for j
    unfolding covers_def
  proof (intro allI impI)
    fix k S
    assume S: "axis_view D w' a' k = Some S"
    then have "k \<in> set (dict_keys (ax_axis a'))" by (auto simp: axis_view_def dest: map_of_SomeD intro!: image_eqI)
    with keys eq have "k \<in> set (dict_keys (ax_axis a))" by blast
    then obtain p where p: "map_of (ax_axis a) k = Some p" by (auto simp: map_of_eq_None_iff [THEN iffD1] dest: weak_map_of_SomeI)
    then have "p < w_next w" using a by (auto simp: axis_ok_def dest: map_of_SomeD)
    moreover from cov p obtain c where "canonicalValue e j k = Inr c" "c \<in> set (ds_values D (w_heap w p))"
      by (auto simp: covers_def axis_view_def)
    ultimately show "\<exists>c. canonicalValue e j k = Inr c \<and> c \<in> S"
      using S p same grow by (auto simp: axis_view_def grows_def)
  qed
  ultimately show ?thesis using ok grow keys sub ro by blast
qed

text \<open>An insertion succeeds when every value of the key has a canonical form.\<close>

lemma insert_succeeds:
  assumes "\<not> ax_readOnly a" and "\<forall>k \<in> set (dict_keys (key_dict key)). \<exists>c. canonicalValue e key k = Inr c"
  shows "\<exists>a' w'. axis_insert e D key (a, w) = Inr (a', w')"
proof -
  have "\<exists>aw'. foldE (insert_value e D key) ks aw = Inr aw'"
    if "\<forall>k \<in> set ks. \<exists>c. canonicalValue e key k = Inr c" for ks aw
    using that
  proof (induction ks arbitrary: aw)
    case (Cons k ks)
    obtain c where "canonicalValue e key k = Inr c" using Cons.prems by auto
    then have "\<exists>aw'. insert_value e D key k aw = Inr aw'"
      by (cases aw) (auto simp: insert_value_def Let_def split: option.splits prod.splits)
    with Cons show ?case by auto
  qed simp
  with assms obtain aw' where "foldE (insert_value e D key) (dict_keys (key_dict key)) (a, w) = Inr aw'" by blast
  then show ?thesis using assms(1) by (cases aw') (simp add: axis_insert_def)
qed

text \<open>Sorting changes the order of the values only.\<close>

lemma sort_view:
  assumes "dense_laws D"
  shows "axis_view D (axis_sort D b w) a k = axis_view D w a k \<and> w_next (axis_sort D b w) = w_next w"
proof -
  let ?f = "\<lambda>(k, p) w. write_set p (ds_sort D (w_heap w p)) w"
  have step: "set (ds_values D (w_heap (?f kp w) q)) = set (ds_values D (w_heap w q)) \<and> w_next (?f kp w) = w_next w"
    for kp w q
    using assms by (cases kp) (simp add: write_set_def dense_laws_def)
  have "set (ds_values D (w_heap (fold ?f kps w) q)) = set (ds_values D (w_heap w q)) \<and>
      w_next (fold ?f kps w) = w_next w" for kps q
  proof (induction kps arbitrary: w)
    case (Cons kp kps)
    show ?case using step [of kp w q] Cons.IH [of "?f kp w"] by (simp only: fold_simps)
  qed simp
  then show ?thesis unfolding axis_sort_def axis_view_def by (cases "map_of (ax_axis a) k") auto
qed

section \<open>Properties\<close>

lemma axis_stream:
  assumes "dense_laws D" and "dict_ok (ax_axis a)" and "ax_axis a \<noteq> [] \<or> version \<le> 2" and "world_ok w'" and "ax_axis a0 = []"
    and "encode_axis D w a version = Inr out"
  shows "\<exists>a' w''. decode_axis D version (a0, w', out @ rest) = Inr (a', w'', rest) \<and> ax_readOnly a' = ax_readOnly a0 \<and>
    world_ok w'' \<and> extends w' w'' \<and> axis_ok w'' a' \<and> (\<forall>k. axis_view D w'' a' k = axis_view D w a k)"
proof -
  let ?kvs = "map (\<lambda>(k, p). (k, ds_values D (w_heap w p))) (ax_axis a)"
  have entries: "encode_entries D w (ax_axis a) = concat (map entry_items ?kvs)"
    unfolding encode_entries_def map_map
    by (rule arg_cong [where f = concat], rule map_cong [OF refl])
      (auto simp: entry_items_def encode_values_def)
  have dist: "distinct (map fst ?kvs)"
    using dict_ok_distinct [OF assms(2)] by (simp add: comp_def case_prod_beta)
  have len: "length ?kvs = length (ax_axis a)" by simp
  have new: "axis_ok w' a0" by (simp add: axis_ok_def assms(5))
  have view: "map_option set (map_of ?kvs k) = axis_view D w a k" for k
    by (simp add: axis_view_def map_of_map option.map_comp comp_def)
  have result: "\<exists>a' w''. decode_entries D (length (ax_axis a)) (a0, w', encode_entries D w (ax_axis a) @ more') =
      Inr (a', w'', more') \<and> world_ok w'' \<and> extends w' w'' \<and> axis_ok w'' a' \<and> (ax_readOnly a' \<longleftrightarrow> ax_readOnly a0) \<and>
      (ax_axis a \<noteq> [] \<longrightarrow> ax_axis a' \<noteq> []) \<and> (\<forall>k. axis_view D w'' a' k = axis_view D w a k)" for more'
  proof -
    obtain a' w'' where "decode_entries D (length ?kvs) (a0, w', concat (map entry_items ?kvs) @ more') = Inr (a', w'', more')"
      and "world_ok w''" "extends w' w''" "axis_ok w'' a'" "ax_readOnly a' \<longleftrightarrow> ax_readOnly a0" "?kvs \<noteq> [] \<longrightarrow> ax_axis a' \<noteq> []"
      and v: "\<forall>k. axis_view D w'' a' k = (case map_of ?kvs k of None \<Rightarrow> axis_view D w' a0 k | Some vs \<Rightarrow> Some (set vs))"
      using decode_entries_all [OF assms(1,4) new dist, of more'] by auto
    moreover have "axis_view D w'' a' k = axis_view D w a k" for k
      using v view [of k] assms(5) by (cases "map_of ?kvs k") (auto simp: axis_view_def)
    ultimately show ?thesis unfolding entries len by auto
  qed
  show ?thesis
  proof (cases "3 \<le> version")
    case True
    obtain a' w'' where r: "decode_entries D (length (ax_axis a)) (a0, w', encode_entries D w (ax_axis a) @ IEnd # rest) =
        Inr (a', w'', IEnd # rest)" and props: "world_ok w''" "extends w' w''" "axis_ok w'' a'" "ax_readOnly a' \<longleftrightarrow> ax_readOnly a0" "ax_axis a' \<noteq> []"
      "\<forall>k. axis_view D w'' a' k = axis_view D w a k"
      using result [of "IEnd # rest"] assms(3) True by auto
    have out: "out = [IObject, IStr ''size'', INum (length (ax_axis a)), IStr ''axes''] @ encode_entries D w (ax_axis a) @ [IEnd]"
      using assms(6) True by (simp add: encode_axis_def encodeCurrent_def)
    have "ax_axis a \<noteq> []" using assms(3) True by simp
    then show ?thesis
      using r props True by (simp add: axis_of_stream_def decode_axis_def decodeCurrent_def out assms(5))
  next
    case False
    then have out: "out = INum (length (ax_axis a)) # encode_entries D w (ax_axis a)"
      using assms(6) by (simp add: encode_axis_def encodeLegacy_def)
    from False result [of rest] show ?thesis
      by (auto simp: axis_of_stream_def decode_axis_def decodeLegacy_def out)
  qed
qed

text \<open>
  C29: The axes of an index survive being written and read, in the current format and in the legacy
  one: the axis that is read holds, for every keyword, the same set of values, whatever the
  registry already shares; reading touches no set that existed before, and leaves what follows. The one exception
  is an axis without keywords in the current format: it is written, but reading it fails an assertion.
\<close>
theorem axis_stream_roundtrip:
  assumes "dense_laws D" and "dict_ok (ax_axis a)" and "world_ok w'" and "encode_axis D w a version = Inr out"
  shows "if ax_axis a = [] \<and> 3 \<le> version then axis_of_stream D version w' (out @ rest) = Inl (AssertFailed ''n'')
    else \<exists>a' w''. axis_of_stream D version w' (out @ rest) = Inr (a', w'', rest) \<and> ax_readOnly a' \<and>
      world_ok w'' \<and> extends w' w'' \<and> (\<forall>k. axis_view D w'' a' k = axis_view D w a k)"
proof (cases "ax_axis a = [] \<and> 3 \<le> version")
  case True
  with assms(4) have out: "out = [IObject, IStr ''size'', INum 0, IStr ''axes'', IEnd]"
    by (simp add: encode_axis_def encodeCurrent_def encode_entries_def)
  show ?thesis
    using True by (simp add: out axis_of_stream_def decode_axis_def decodeCurrent_def)
next
  case False
  then have "ax_axis a \<noteq> [] \<or> version \<le> 2" by auto
  from axis_stream [OF assms(1,2) this assms(3) _ assms(4), of "\<lparr>ax_axis = [], ax_readOnly = True, ax_dirty = False\<rparr>" rest] False
  show ?thesis by (auto simp: axis_of_stream_def)
qed

definition sample_world :: "string list world" where
  "sample_world = \<lparr>w_heap = (\<lambda>p. if p = 0 then [''fc''] else []), w_next = 1, w_axes = [(''type'', [0])]\<rparr>"

definition sample_axis :: axis where
  "sample_axis = \<lparr>ax_axis = [(''type'', 0)], ax_readOnly = False, ax_dirty = True\<rparr>"

lemma sample_world_ok: "world_ok sample_world" "axis_ok sample_world sample_axis"
  by (simp_all add: world_ok_def sample_world_def axis_ok_def sample_axis_def dict_ok_def)

lemma axis_stream_roundtrip_witness:
  "\<exists>out a' w''. encode_axis ref_dense sample_world sample_axis 3 = Inr out \<and>
     axis_of_stream ref_dense 3 sample_world out = Inr (a', w'', []) \<and>
     axis_view ref_dense w'' a' ''type'' = Some {''fc''}"
proof -
  obtain out where out: "encode_axis ref_dense sample_world sample_axis 3 = Inr out"
    by (simp add: encode_axis_def encodeCurrent_def)
  have "dict_ok (ax_axis sample_axis)" and "ax_axis sample_axis \<noteq> []"
    by (simp_all add: sample_axis_def dict_ok_def)
  from axis_stream_roundtrip [OF ref_dense_laws this(1) sample_world_ok(1) out, of "[]"] this(2)
  obtain a' w'' where "axis_of_stream ref_dense 3 sample_world out = Inr (a', w'', [])"
    and "axis_view ref_dense w'' a' ''type'' = axis_view ref_dense sample_world sample_axis ''type''" by auto
  with out show ?thesis by (auto simp: axis_view_def sample_axis_def sample_world_def ref_dense_def)
qed

text \<open>
  The current format writes the axes of an empty index and does not read them: for every version
  from 3 on, encoding an axis without keywords succeeds, and decoding what was written ends in a
  failed assertion. The legacy format reads its own empty axis.
\<close>
lemma axis_empty_unreadable:
  "encode_axis D w new_axis (version + 3) = Inr [IObject, IStr ''size'', INum 0, IStr ''axes'', IEnd] \<and>
   axis_of_stream D (version + 3) w' [IObject, IStr ''size'', INum 0, IStr ''axes'', IEnd] = Inl (AssertFailed ''n'') \<and>
   encode_axis D w new_axis 2 = Inr [INum 0] \<and>
   axis_of_stream D 2 w' [INum 0] = Inr (\<lparr>ax_axis = [], ax_readOnly = True, ax_dirty = False\<rparr>, w', [])"
  by (simp add: encode_axis_def encodeCurrent_def encodeLegacy_def encode_entries_def new_axis_def
      axis_of_stream_def decode_axis_def decodeCurrent_def decodeLegacy_def numeral_eq_Suc)

text \<open>
  A key that has been inserted is found: when every keyword of the axis is one of the key,
  \<open>contains\<close> answers true after \<open>insert\<close>, and \<open>insert\<close> has only added values to the sets that existed.
\<close>
lemma axis_insert_contains:
  assumes "dense_laws D" and "axis_ok w a" and "key_ok key"
    and "set (dict_keys (ax_axis a)) \<subseteq> set (dict_keys (key_dict key))"
    and "axis_insert e D key (a, w) = Inr (a', w')"
  shows "axis_contains e D w' a' key = Inr True \<and> grows D w w' \<and> axis_ok w' a'"
  using insert_covers [OF assms] covers_contains by blast

lemma axis_insert_contains_witness:
  "\<exists>a' w'. axis_insert ref_ext ref_dense sample_key (new_axis, sample_world) = Inr (a', w') \<and>
     axis_contains ref_ext ref_dense w' a' sample_key = Inr True"
proof -
  have cv: "canonicalValue ref_ext sample_key ''class'' = Inr ''od'' \<and> canonicalValue ref_ext sample_key ''step'' = Inr ''12''"
    by (simp add: sample_key_def canonicalValue_def key_value_def key_find_def push_key_def new_key_def
        canonicalise_def get_registry_def build_type_def to_key_step_def)
  have keys: "dict_keys (key_dict sample_key) = [''class'', ''step'']"
    by (simp add: sample_key_def push_key_def new_key_def)
  obtain a' w' where ins: "axis_insert ref_ext ref_dense sample_key (new_axis, sample_world) = Inr (a', w')"
    by (simp add: axis_insert_def new_axis_def keys insert_value_def alloc_def cv)
  have "axis_ok sample_world new_axis" and "set (dict_keys (ax_axis new_axis)) \<subseteq> set (dict_keys (key_dict sample_key))"
    by (simp_all add: axis_ok_def new_axis_def)
  from axis_insert_contains [OF ref_dense_laws this(1) sample_key_ok this(2) ins] ins show ?thesis by blast
qed

text \<open>
  C28: \<open>partialMatch\<close> rejects exactly the indexes that cannot answer a request: it is true if and only
  if every keyword that both the axis and the request have takes one of the requested values.
\<close>
theorem axis_partialMatch_iff:
  assumes "dense_laws D" and "request_ok rq" and "dict_ok (ax_axis a)"
  shows "axis_partialMatch D w a rq =
    Inr (\<forall>k \<in> set (dict_keys (ax_axis a)). rq_has rq k \<longrightarrow>
      (\<exists>v \<in> set (rq_values_ok rq k). \<exists>S. axis_view D w a k = Some S \<and> v \<in> S))"
proof -
  have loop: "partial_loop D w rq kps = Inr (\<forall>(k, p) \<in> set kps. rq_has rq k \<longrightarrow>
      (\<exists>v \<in> set (rq_values_ok rq k). v \<in> set (ds_values D (w_heap w p))))" for kps
    using assms(1,2) by (induction kps) (auto simp: request_ok_def dense_laws_def list_ex_iff)
  have view: "axis_view D w a k = Some (set (ds_values D (w_heap w p)))" if "(k, p) \<in> set (ax_axis a)" for k p
    using that by (simp add: axis_view_def dict_ok_in_set [OF assms(3)])
  have "(\<forall>(k, p) \<in> set (ax_axis a). rq_has rq k \<longrightarrow> (\<exists>v \<in> set (rq_values_ok rq k). v \<in> set (ds_values D (w_heap w p)))) \<longleftrightarrow>
     (\<forall>kp \<in> set (ax_axis a). rq_has rq (fst kp) \<longrightarrow>
        (\<exists>v \<in> set (rq_values_ok rq (fst kp)). \<exists>S. axis_view D w a (fst kp) = Some S \<and> v \<in> S))"
  proof (rule ball_cong [OF refl])
    fix kp
    assume "kp \<in> set (ax_axis a)"
    with view [of "fst kp" "snd kp"] show "(case kp of (k, p) \<Rightarrow> rq_has rq k \<longrightarrow> (\<exists>v \<in> set (rq_values_ok rq k). v \<in> set (ds_values D (w_heap w p)))) \<longleftrightarrow>
       (rq_has rq (fst kp) \<longrightarrow> (\<exists>v \<in> set (rq_values_ok rq (fst kp)). \<exists>S. axis_view D w a (fst kp) = Some S \<and> v \<in> S))"
      by (simp add: case_prod_beta)
  qed
  then show ?thesis unfolding axis_partialMatch_def loop by simp
qed

lemma axis_partialMatch_iff_witness:
  "axis_partialMatch ref_dense sample_world sample_axis (sample_request [(''type'', [''an'', ''fc''])]) = Inr True"
proof -
  have "dict_ok (ax_axis sample_axis)" by (simp add: sample_axis_def dict_ok_def)
  show ?thesis
    by (subst axis_partialMatch_iff [OF ref_dense_laws sample_request_ok \<open>dict_ok (ax_axis sample_axis)\<close>])
      (simp add: sample_axis_def sample_request_def axis_view_def sample_world_def ref_dense_def)
qed

text \<open>
  \<open>merge\<close> makes the two axes share sets: a keyword that only the other axis has is taken over as a
  pointer, so that what is inserted into the merged axis afterwards appears in the other axis too,
  and in the registry's set if the other axis was read from a file.
\<close>
lemma axis_merge_aliases:
  assumes "axis_merge D other (a, w) = Inr (a1, w1)" and "map_of (ax_axis a) k = None"
    and "map_of (ax_axis other) k = Some p" and "key_dict key = [(k, v)]"
    and "canonicalValue e key k = Inr c" and "axis_insert e D key (a1, w1) = Inr (a2, w2)"
  shows "axis_view D w2 other k = Some (set (ds_values D (ds_insert D c (w_heap w1 p))))"
proof -
  from assms(1) have "(a1, w1) = fold (merge_value D) (ax_axis other) (a, w)"
    by (auto simp: axis_merge_def bindE_eq_Inr)
  then have "map_of (ax_axis a1) k = Some p"
    using fold_merge_lookup [of D "ax_axis other" "(a, w)" k] assms(2,3) by (metis fst_conv option.case(1))
  with assms(4-6) have "w2 = write_set p (ds_insert D c (w_heap w1 p)) w1"
    by (auto simp: axis_insert_def insert_value_def bindE_eq_Inr)
  with assms(3) show ?thesis by (simp add: axis_view_def write_set_def)
qed


lemma axis_merge_aliases_witness:
  "\<exists>a1 w1 a2 w2. axis_merge ref_dense sample_axis (new_axis, sample_world) = Inr (a1, w1) \<and>
     axis_insert ref_ext ref_dense (key_of_list [(''type'', ''zz'')] None) (a1, w1) = Inr (a2, w2) \<and>
     axis_view ref_dense sample_world sample_axis ''type'' = Some {''fc''} \<and>
     axis_view ref_dense w2 sample_axis ''type'' = Some {''fc'', ''zz''}"
proof -
  let ?key = "key_of_list [(''type'', ''zz'')] None"
  let ?a1 = "new_axis\<lparr>ax_axis := [(''type'', 0)]\<rparr>"
  have dict: "key_dict ?key = [(''type'', ''zz'')]" by (simp add: key_of_list_def dict_emplace_def)
  have cv: "canonicalValue ref_ext ?key ''type'' = Inr ''zz''"
    by (simp add: canonicalValue_def key_value_def key_find_def dict canonicalise_def) (simp add: key_of_list_def Let_def)
  have m: "axis_merge ref_dense sample_axis (new_axis, sample_world) = Inr (?a1, sample_world)"
    by (simp add: axis_merge_def new_axis_def sample_axis_def merge_value_def)
  obtain a2 w2 where i: "axis_insert ref_ext ref_dense ?key (?a1, sample_world) = Inr (a2, w2)"
    by (simp add: axis_insert_def dict insert_value_def cv new_axis_def)
  have "axis_view ref_dense w2 sample_axis ''type'' = Some (set (ds_values ref_dense (ds_insert ref_dense ''zz'' (w_heap sample_world 0))))"
    by (rule axis_merge_aliases [OF m _ _ dict cv i]) (simp_all add: new_axis_def sample_axis_def)
  also have "\<dots> = Some {''fc'', ''zz''}"
    by (simp add: ref_dense_def sample_world_def set_insort_insert insert_commute)
  finally show ?thesis
    using m i by (auto simp: axis_view_def sample_axis_def sample_world_def ref_dense_def)
qed

end
