(* ===== verification/FDB_UriStore.thy ===== *)
theory FDB_UriStore
  imports FDB_External
begin

text \<open>
  The store of the URIs that an index refers to (\<open>src/fdb5/database/UriStore.{h,cc}\<close>): two maps,
  from numbers to URIs and back. URIs and path names are library types; \<open>uri_ops\<close> holds what the
  code calls of \<open>eckit::URI\<close> and \<open>eckit::PathName\<close>, and \<open>uri_laws\<close> what it relies on. The locale
  \<open>id_store\<close> is what an index needs of the store: a number that was given out for a URI leads back to it.
\<close>

section \<open>URIs and path names\<close>

record 'u uri_ops =
  u_parse :: "string \<Rightarrow> 'u"
  u_scheme :: "'u \<Rightarrow> string"
  u_path :: "'u \<Rightarrow> string"
  u_file :: "string \<Rightarrow> 'u"
  u_raw :: "'u \<Rightarrow> string"
  p_dir :: "string \<Rightarrow> string"
  p_base :: "string \<Rightarrow> string"
  p_join :: "string \<Rightarrow> string \<Rightarrow> string"

text \<open>
  A text without a scheme is parsed to the path it is; a file URI is its path; the raw string of
  any other URI is parsed back to it, and its scheme is neither \<open>file\<close> nor \<open>unix\<close>; a path is its
  directory joined with its base name, which is not empty and does not start with a slash; a path
  in a URI is absolute or empty.
\<close>

definition uri_laws :: "'u uri_ops \<Rightarrow> bool" where
  "uri_laws U \<longleftrightarrow>
     (\<forall>u. u_scheme U u = ''file'' \<longrightarrow> u_file U (u_path U u) = u) \<and>
     (\<forall>u. u_scheme U u = ''file'' \<longrightarrow>
        (\<forall>q \<in> {u_path U u, p_base U (u_path U u)}.
           u_scheme U (u_parse U q) \<in> {''unix'', ''file''} \<and> u_path U (u_parse U q) = q)) \<and>
     (\<forall>u. u_scheme U u \<noteq> ''file'' \<longrightarrow> u_parse U (u_raw U u) = u) \<and>
     (\<forall>u. u_scheme U u = ''file'' \<longrightarrow>
        p_join U (p_dir U (u_path U u)) (p_base U (u_path U u)) = u_path U u \<and>
        p_base U (u_path U u) \<noteq> [] \<and> hd (p_base U (u_path U u)) \<noteq> CHR ''/'' \<and>
        (u_path U u \<noteq> [] \<longrightarrow> hd (u_path U u) = CHR ''/''))"

section \<open>The store\<close>

record 'u uri_store =
  us_next :: nat
  us_readOnly :: bool
  us_directory :: string
  us_paths :: "(nat, 'u) dict"
  us_ids :: "('u, nat) dict"

definition new_uri_store :: "string \<Rightarrow> ('u :: linorder) uri_store" where
  "new_uri_store directory =
     \<lparr>us_next = 0, us_readOnly = False, us_directory = directory, us_paths = [], us_ids = []\<rparr>"

definition uri_insert :: "'u \<Rightarrow> ('u :: linorder) uri_store \<Rightarrow> (nat \<times> 'u uri_store) res" where
  "uri_insert path s =
     bindE (assertE (\<not> us_readOnly s) ''!readOnly_'') (\<lambda>_.
       case map_of (us_ids s) path of
         Some i \<Rightarrow> Inr (i, s)
       | None \<Rightarrow>
           (let current = us_next s
            in Inr (current, s\<lparr>us_next := us_next s + 1, us_ids := dict_put path current (us_ids s),
                               us_paths := dict_put current path (us_paths s)\<rparr>)))"

definition uri_get :: "('u :: linorder) uri_store \<Rightarrow> nat \<Rightarrow> 'u res" where
  "uri_get s i =
     (case map_of (us_paths s) i of Some u \<Rightarrow> Inr u | None \<Rightarrow> Inl (AssertFailed ''itr != paths_.end()''))"

definition uri_paths :: "('u :: linorder) uri_store \<Rightarrow> 'u list" where
  "uri_paths s = map snd (us_paths s)"

text \<open>A file in the directory of the store is written by its base name.\<close>

definition encode_uri :: "'u uri_ops \<Rightarrow> string \<Rightarrow> 'u \<Rightarrow> string" where
  "encode_uri U directory u =
     (if u_scheme U u = ''file'' then
        (let path = u_path U u in if p_dir U path = directory then p_base U path else path)
      else u_raw U u)"

definition encode_uris :: "'u uri_ops \<Rightarrow> ('u :: linorder) uri_store \<Rightarrow> item list" where
  "encode_uris U s =
     INum (length (us_paths s)) #
     concat (map (\<lambda>(i, u). [INum i, IStr (encode_uri U (us_directory s) u)]) (us_paths s))"

definition decode_uri :: "'u uri_ops \<Rightarrow> string \<Rightarrow> string \<Rightarrow> 'u" where
  "decode_uri U directory p =
     (let uri = u_parse U p
      in if u_scheme U uri = ''unix'' \<or> u_scheme U uri = ''file'' then
           (let q = u_path U uri
            in u_file U (if q \<noteq> [] \<and> hd q \<noteq> CHR ''/'' then p_join U directory q else q))
         else uri)"

definition decode_uri_entry ::
    "'u uri_ops \<Rightarrow> ('u :: linorder) uri_store \<times> item list \<Rightarrow> ('u uri_store \<times> item list) res" where
  "decode_uri_entry U = (\<lambda>(s, is).
     bindE (read_num is) (\<lambda>(i, is).
     bindE (read_str is) (\<lambda>(p, is).
       let u = decode_uri U (us_directory s) p
       in Inr (s\<lparr>us_paths := dict_put i u (us_paths s), us_ids := dict_put u i (us_ids s),
                 us_next := max (i + 1) (us_next s)\<rparr>, is))))"

fun decode_uri_entries ::
    "'u uri_ops \<Rightarrow> nat \<Rightarrow> ('u :: linorder) uri_store \<times> item list \<Rightarrow> ('u uri_store \<times> item list) res" where
  "decode_uri_entries U 0 st = Inr st"
| "decode_uri_entries U (Suc n) st = bindE (decode_uri_entry U st) (decode_uri_entries U n)"

text \<open>\<open>UriStore(directory, stream)\<close>.\<close>

definition decode_uris :: "'u uri_ops \<Rightarrow> string \<Rightarrow> ('u :: linorder) uri_store reader" where
  "decode_uris U directory is =
     bindE (read_num is) (\<lambda>(n, is).
       decode_uri_entries U n ((new_uri_store directory)\<lparr>us_readOnly := True\<rparr>, is))"

section \<open>The invariant\<close>

definition uri_store_ok :: "('u :: linorder) uri_store \<Rightarrow> bool" where
  "uri_store_ok s \<longleftrightarrow> dict_ok (us_paths s) \<and> dict_ok (us_ids s) \<and>
     (\<forall>i u. map_of (us_paths s) i = Some u \<longleftrightarrow> map_of (us_ids s) u = Some i) \<and>
     (\<forall>i u. map_of (us_paths s) i = Some u \<longrightarrow> i < us_next s)"

lemma uri_store_new: "uri_store_ok (new_uri_store d)"
  by (simp add: uri_store_ok_def new_uri_store_def)

lemma uri_insert_ok:
  assumes "uri_store_ok s" and "uri_insert u s = Inr (i, s')"
  shows "uri_store_ok s' \<and> map_of (us_paths s') i = Some u \<and>
    (\<forall>j v. map_of (us_paths s) j = Some v \<longrightarrow> map_of (us_paths s') j = Some v)"
proof (cases "map_of (us_ids s) u")
  case (Some j)
  with assms show ?thesis by (auto simp: uri_insert_def bindE_eq_Inr uri_store_ok_def)
next
  case None
  with assms(2) have i: "i = us_next s" and s': "s' = s\<lparr>us_next := us_next s + 1,
      us_ids := dict_put u (us_next s) (us_ids s), us_paths := dict_put (us_next s) u (us_paths s)\<rparr>"
    by (auto simp: uri_insert_def bindE_eq_Inr Let_def)
  have ok: "dict_ok (us_paths s)" "dict_ok (us_ids s)"
    and inverse: "\<And>i u. map_of (us_paths s) i = Some u \<longleftrightarrow> map_of (us_ids s) u = Some i"
    and below: "\<And>i u. map_of (us_paths s) i = Some u \<Longrightarrow> i < us_next s"
    using assms(1) by (auto simp: uri_store_ok_def)
  have free: "map_of (us_paths s) (us_next s) = None"
    using below [of "us_next s"] by (cases "map_of (us_paths s) (us_next s)") auto
  have "(map_of (us_paths s'))  j = Some v \<longleftrightarrow> (map_of (us_ids s')) v = Some j" for j v
    using inverse [of j v] free None below [of j v] by (auto simp: s')
  moreover have "map_of (us_paths s') j = Some v \<Longrightarrow> j < us_next s'" for j v
    using below [of j v] by (auto simp: s' split: if_splits)
  moreover have "map_of (us_paths s) j = Some v \<longrightarrow> map_of (us_paths s') j = Some v" for j v
    using below [of j v] by (auto simp: s')
  ultimately show ?thesis using ok by (auto simp: uri_store_ok_def s' i)
qed

section \<open>The contract of the store\<close>

text \<open>
  What the users of the store rely on: a number that was given out leads to the URI, and stays
  valid while more URIs are inserted.
\<close>

locale id_store =
  fixes insert_id :: "'u \<Rightarrow> 's \<Rightarrow> (nat \<times> 's) res"
    and get_id :: "'s \<Rightarrow> nat \<Rightarrow> 'u res"
    and ok :: "'s \<Rightarrow> bool"
  assumes get_insert: "ok s \<Longrightarrow> insert_id u s = Inr (i, s') \<Longrightarrow> get_id s' i = Inr u"
    and get_later: "ok s \<Longrightarrow> insert_id u s = Inr (i, s') \<Longrightarrow> get_id s j = Inr v \<Longrightarrow> get_id s' j = Inr v"
    and ok_insert: "ok s \<Longrightarrow> insert_id u s = Inr (i, s') \<Longrightarrow> ok s'"
begin

fun insert_ids :: "'u list \<Rightarrow> 's \<Rightarrow> (nat list \<times> 's) res" where
  "insert_ids [] s = Inr ([], s)"
| "insert_ids (u # us) s =
     bindE (insert_id u s) (\<lambda>(i, s). bindE (insert_ids us s) (\<lambda>(is, s). Inr (i # is, s)))"

lemma get_inserted_later:
  "ok s \<Longrightarrow> insert_ids us s = Inr (is, s') \<Longrightarrow> get_id s j = Inr v \<Longrightarrow> get_id s' j = Inr v"
  by (induction us arbitrary: s "is") (auto simp: bindE_eq_Inr intro: get_later ok_insert)

lemma ok_inserted: "ok s \<Longrightarrow> insert_ids us s = Inr (is, s') \<Longrightarrow> ok s'"
  by (induction us arbitrary: s "is") (auto simp: bindE_eq_Inr intro: ok_insert)

lemma get_all_inserted:
  "ok s \<Longrightarrow> insert_ids us s = Inr (is, s') \<Longrightarrow> list_all2 (\<lambda>u i. get_id s' i = Inr u) us is"
proof (induction us arbitrary: s "is")
  case (Cons u us)
  then obtain i s1 is' where 1: "insert_id u s = Inr (i, s1)" and 2: "insert_ids us s1 = Inr (is', s')"
    and is_eq: "is = i # is'" by (auto simp: bindE_eq_Inr)
  have ok1: "ok s1" by (rule ok_insert [OF Cons.prems(1) 1])
  have "get_id s' i = Inr u"
    by (rule get_inserted_later [OF ok1 2 get_insert [OF Cons.prems(1) 1]])
  with Cons.IH [OF ok1 2] show ?case by (simp add: is_eq)
qed simp

end

interpretation uris: id_store uri_insert uri_get uri_store_ok
proof
  fix s :: "'a :: linorder uri_store" and u i s'
  assume ok: "uri_store_ok s" and ins: "uri_insert u s = Inr (i, s')"
  note props = uri_insert_ok [OF ok ins]
  then show "uri_get s' i = Inr u" and "uri_store_ok s'" by (simp_all add: uri_get_def)
  show "uri_get s j = Inr v \<Longrightarrow> uri_get s' j = Inr v" for j v
    using props by (auto simp: uri_get_def split: option.splits)
qed

section \<open>Writing and reading\<close>

lemma decode_encode_uri:
  assumes laws: "uri_laws U" and scheme: "u_scheme U u \<noteq> ''unix''"
  shows "decode_uri U d (encode_uri U d u) = u"
proof (cases "u_scheme U u = ''file''")
  case True
  let ?p = "u_path U u"
  let ?b = "p_base U ?p"
  have parse: "u_scheme U (u_parse U q) = ''unix'' \<or> u_scheme U (u_parse U q) = ''file''"
    "u_path U (u_parse U q) = q" if "q \<in> {?p, ?b}" for q
    using laws True that unfolding uri_laws_def by blast+
  have file_path: "u_file U ?p = u" and join: "p_join U (p_dir U ?p) ?b = ?p"
    and base: "?b \<noteq> []" "hd ?b \<noteq> CHR ''/''" and path: "?p \<noteq> [] \<longrightarrow> hd ?p = CHR ''/''"
    using laws True unfolding uri_laws_def by blast+
  show ?thesis
  proof (cases "p_dir U ?p = d")
    case dir: True
    then have "encode_uri U d u = ?b" using True by (simp add: encode_uri_def Let_def)
    then show ?thesis using parse [of ?b] base join dir file_path by (simp add: decode_uri_def Let_def)
  next
    case False
    then have "encode_uri U d u = ?p" using True by (simp add: encode_uri_def Let_def)
    then show ?thesis using parse [of ?p] path file_path by (auto simp: decode_uri_def Let_def)
  qed
next
  case False
  then have "u_parse U (u_raw U u) = u" using laws unfolding uri_laws_def by blast
  with False scheme show ?thesis by (simp add: encode_uri_def decode_uri_def Let_def)
qed

lemma decode_uri_entries_all:
  assumes "\<forall>(i, u) \<in> set ius. decode_uri U d (encode_uri U d u) = u"
  shows "us_directory s = d \<Longrightarrow>
    \<exists>s'. decode_uri_entries U (length ius)
       (s, concat (map (\<lambda>(i, u). [INum i, IStr (encode_uri U d u)]) ius) @ rest) = Inr (s', rest) \<and>
     us_paths s' = fold (\<lambda>(i, u). dict_put i u) ius (us_paths s) \<and>
     us_ids s' = fold (\<lambda>(i, u). dict_put u i) ius (us_ids s) \<and>
     us_next s' = fold (\<lambda>(i, u). max (i + 1)) ius (us_next s) \<and>
     us_readOnly s' = us_readOnly s \<and> us_directory s' = d"
  using assms
proof (induction ius arbitrary: s)
  case (Cons iu ius)
  obtain i u where iu: "iu = (i, u)" by (cases iu)
  let ?s = "s\<lparr>us_paths := dict_put i u (us_paths s), us_ids := dict_put u i (us_ids s), us_next := max (i + 1) (us_next s)\<rparr>"
  have "us_directory ?s = d" using Cons.prems by simp
  from Cons.IH [OF this] Cons.prems show ?case
    by (auto simp: iu decode_uri_entry_def Let_def)
qed simp

section \<open>Properties\<close>

lemma insert_ids_next: "uris.insert_ids us s = Inr (is, s') \<Longrightarrow> us_next s' \<le> us_next s + length us"
proof (induction us arbitrary: s "is")
  case (Cons u us)
  then obtain i s1 is' where 1: "uri_insert u s = Inr (i, s1)" and 2: "uris.insert_ids us s1 = Inr (is', s')"
    by (auto simp: bindE_eq_Inr)
  from 1 have "us_next s1 \<le> us_next s + 1" by (auto simp: uri_insert_def bindE_eq_Inr Let_def split: option.splits)
  with Cons.IH [OF 2] show ?case by simp
qed simp

text \<open>
  C33: Numbers stand for URIs: however many URIs are inserted, in any order and with repetitions, the
  store keeps its two maps inverse to each other, every number that was returned leads back to the
  URI it was returned for, and two URIs never get the same number. A number is below the next one, which grows
  by at most one with each URI: the natural numbers of the model stand for a \<open>size_t\<close> as long as fewer
  than 2^64 URIs are inserted.
\<close>
theorem uri_insert_get:
  assumes "uri_store_ok s" and "uris.insert_ids us s = Inr (is, s')"
  shows "(\<forall>i u. map_of (us_paths s') i = Some u \<longleftrightarrow> map_of (us_ids s') u = Some i) \<and> uri_store_ok s' \<and>
    list_all2 (\<lambda>u i. uri_get s' i = Inr u) us is \<and>
    (\<forall>a < length us. \<forall>b < length us. is ! a = is ! b \<longrightarrow> us ! a = us ! b) \<and>
    (\<forall>i \<in> set is. i < us_next s') \<and> us_next s' \<le> us_next s + length us"
proof -
  have all: "list_all2 (\<lambda>u i. uri_get s' i = Inr u) us is"
    by (rule uris.get_all_inserted [OF assms])
  moreover have "us ! a = us ! b" if "a < length us" "b < length us" "is ! a = is ! b" for a b
  proof -
    have "uri_get s' (is ! a) = Inr (us ! a)" and "uri_get s' (is ! b) = Inr (us ! b)"
      using list_all2_nthD [OF all that(1)] list_all2_nthD [OF all that(2)] by simp_all
    with that(3) show ?thesis by (metis sum.inject(2))
  qed
  moreover have ok: "uri_store_ok s'" by (rule uris.ok_inserted [OF assms])
  moreover have "i < us_next s'" if "i \<in> set is" for i
  proof -
    from that all obtain u where "uri_get s' i = Inr u" by (auto simp: list_all2_conv_all_nth in_set_conv_nth)
    then have "map_of (us_paths s') i = Some u" by (auto simp: uri_get_def split: option.splits)
    with ok show ?thesis unfolding uri_store_ok_def by blast
  qed
  ultimately show ?thesis using insert_ids_next [OF assms(2)] unfolding uri_store_ok_def by blast
qed

lemma uri_insert_get_witness:
  "\<exists>s'. uris.insert_ids [''file:/a'', ''file:/b'', ''file:/a''] (new_uri_store ''/db'') = Inr ([0, 1, 0], s') \<and>
     uri_get s' 1 = Inr ''file:/b''"
proof -
  obtain s' where s': "uris.insert_ids [''file:/a'', ''file:/b'', ''file:/a''] (new_uri_store ''/db'') = Inr ([0, 1, 0], s')"
    by (simp add: uri_insert_def new_uri_store_def)
  from uri_insert_get [OF uri_store_new s'] s' show ?thesis by simp
qed

lemma uri_store_stream:
  assumes "uri_laws U" and "uri_store_ok s" and "\<forall>u \<in> set (uri_paths s). u_scheme U u \<noteq> ''unix''"
  shows "\<exists>s'. decode_uris U (us_directory s) (encode_uris U s @ rest) = Inr (s', rest) \<and>
    us_readOnly s' \<and> us_paths s' = us_paths s \<and> us_ids s' = us_ids s \<and>
    (\<forall>i u. map_of (us_paths s') i = Some u \<longrightarrow> i < us_next s')"
proof -
  let ?new = "(new_uri_store (us_directory s))\<lparr>us_readOnly := True\<rparr>"
  have ok: "dict_ok (us_paths s)" "dict_ok (us_ids s)"
    and inverse: "\<And>i u. map_of (us_paths s) i = Some u \<longleftrightarrow> map_of (us_ids s) u = Some i"
    using assms(2) by (auto simp: uri_store_ok_def)
  have each: "\<forall>(i, u) \<in> set (us_paths s). decode_uri U (us_directory s) (encode_uri U (us_directory s) u) = u"
    using assms(3) by (auto simp: uri_paths_def intro!: decode_encode_uri [OF assms(1)])
  from decode_uri_entries_all [OF each, of ?new rest] obtain s' where
    dec: "decode_uris U (us_directory s) (encode_uris U s @ rest) = Inr (s', rest)"
    and paths: "us_paths s' = fold (\<lambda>(i, u). dict_put i u) (us_paths s) []"
    and ids: "us_ids s' = fold (\<lambda>(i, u). dict_put u i) (us_paths s) []"
    and nxt: "us_next s' = fold (\<lambda>(i, u). max (i + 1)) (us_paths s) 0" and ro: "us_readOnly s'"
    by (auto simp: decode_uris_def encode_uris_def new_uri_store_def)
  have p: "us_paths s' = us_paths s" unfolding paths by (rule dict.rebuild [OF ok(1)])
  have i: "us_ids s' = us_ids s"
  proof (rule dict.lookup_ext)
    have swap: "fold (\<lambda>(i, u). dict_put u i) (us_paths s) [] = fold (\<lambda>(u, i). dict_put u i) (map (\<lambda>(i, u). (u, i)) (us_paths s)) []"
      by (simp add: fold_map comp_def case_prod_unfold)
    have inj: "distinct (map fst (map (\<lambda>(i, u). (u, i)) (us_paths s)))"
    proof -
      have "inj_on snd (set (us_paths s))"
      proof (rule inj_onI)
        fix x y
        assume "x \<in> set (us_paths s)" and "y \<in> set (us_paths s)" and eq: "snd x = snd y"
        then have "map_of (us_paths s) (fst x) = Some (snd x)" and "map_of (us_paths s) (fst y) = Some (snd y)"
          using dict_ok_in_set [OF ok(1)] by (metis prod.collapse)+
        with inverse eq have "fst x = fst y" by (metis option.inject)
        with eq show "x = y" by (simp add: prod_eq_iff)
      qed
      moreover have "distinct (us_paths s)" using dict_ok_distinct [OF ok(1)] by (simp add: distinct_map)
      ultimately show ?thesis by (simp add: comp_def case_prod_beta distinct_map)
    qed
    show "map_of (us_ids s') u = map_of (us_ids s) u" for u
    proof -
      let ?m = "map (\<lambda>(i, u). (u, i)) (us_paths s)"
      have "map_of (rev ?m) u = map_of ?m u"
        using inj by (intro fun_cong [OF map_of_inject_set [THEN iffD2]]) (simp_all add: rev_map [symmetric] del: map_map)
      moreover have "map_of ?m u = map_of (us_ids s) u"
      proof (cases "map_of (us_ids s) u")
        case None
        then have "\<forall>i. (i, u) \<notin> set (us_paths s)" using inverse dict_ok_in_set [OF ok(1)] by fastforce
        then have "map_of ?m u = None" by (auto simp: map_of_eq_None_iff)
        with None show ?thesis by simp
      next
        case (Some i)
        then have "(i, u) \<in> set (us_paths s)" using inverse dict_ok_in_set [OF ok(1)] by blast
        then have "(u, i) \<in> set ?m" by force
        with inj Some show ?thesis by (simp add: map_of_is_SomeI)
      qed
      ultimately show ?thesis
        unfolding ids swap by (simp add: dict.lookup_fold_assign split: option.splits)
    qed
    show "dict_ok (us_ids s')"
      unfolding ids swap by (rule dict.inv_fold_assign) simp
  qed (rule ok(2))
  have max: "n \<le> fold (\<lambda>(i, u). max (i + 1)) ius n \<and>
    (\<forall>(i, u) \<in> set ius. i < fold (\<lambda>(i, u). max (i + 1)) ius n)" for ius :: "(nat \<times> 'a) list" and n :: nat
  proof (induction ius arbitrary: n)
    case (Cons iu ius)
    obtain i u where iu: "iu = (i, u)" by (cases iu)
    from Cons.IH [of "max (i + 1) n"] show ?case unfolding iu by auto
  qed simp
  have "i < us_next s'" if "map_of (us_paths s') i = Some u" for i u
    using max [of 0 "us_paths s"] map_of_SomeD [of "us_paths s" i u] that nxt unfolding p by auto
  with dec p i ro show ?thesis by blast
qed

text \<open>
  C34: The store survives being written and read in its directory: reading what \<open>encode\<close> wrote gives a
  read-only store with the same number for every URI, files of the directory included, and a
  next number above all of them. URIs of the scheme \<open>unix\<close>, which reading turns into files, are
  the only exception.
\<close>
theorem uri_store_roundtrip:
  assumes "uri_laws U" and "uri_store_ok s" and "\<forall>u \<in> set (uri_paths s). u_scheme U u \<noteq> ''unix''"
  shows "\<exists>s'. decode_uris U (us_directory s) (encode_uris U s @ rest) = Inr (s', rest) \<and>
    us_readOnly s' \<and> us_paths s' = us_paths s \<and> us_ids s' = us_ids s \<and>
    (\<forall>i u. map_of (us_paths s') i = Some u \<longrightarrow> i < us_next s')"
  using uri_store_stream [OF assms] by blast

text \<open>
  A small instance of the laws: URIs are strings, those that are absolute paths without colons are
  files, the others have a scheme when they have a colon.
\<close>

definition file_text :: "string \<Rightarrow> bool" where
  "file_text u \<longleftrightarrow> u \<noteq> [] \<and> hd u = CHR ''/'' \<and> last u \<noteq> CHR ''/'' \<and> CHR '':'' \<notin> set u"

definition ref_uri_ops :: "string uri_ops" where
  "ref_uri_ops = \<lparr>u_parse = (\<lambda>p. p),
     u_scheme = (\<lambda>u. if file_text u then ''file'' else if CHR '':'' \<in> set u then ''pmem'' else ''unix''),
     u_path = (\<lambda>u. u), u_file = (\<lambda>p. p), u_raw = (\<lambda>u. u),
     p_dir = (\<lambda>p. rev (tl (dropWhile (\<lambda>c. c \<noteq> CHR ''/'') (rev p)))),
     p_base = (\<lambda>p. rev (takeWhile (\<lambda>c. c \<noteq> CHR ''/'') (rev p))),
     p_join = (\<lambda>d b. d @ CHR ''/'' # b)\<rparr>"

lemma file_text_split:
  assumes "file_text u"
  shows "rev (tl (dropWhile (\<lambda>c. c \<noteq> CHR ''/'') (rev u))) @ CHR ''/'' #
      rev (takeWhile (\<lambda>c. c \<noteq> CHR ''/'') (rev u)) = u"
proof -
  have "CHR ''/'' \<in> set (rev u)" using assms by (cases u) (auto simp: file_text_def)
  then have "dropWhile (\<lambda>c. c \<noteq> CHR ''/'') (rev u) \<noteq> []" by auto
  moreover from this have "hd (dropWhile (\<lambda>c. c \<noteq> CHR ''/'') (rev u)) = CHR ''/''"
    using hd_dropWhile by blast
  ultimately obtain r where r: "dropWhile (\<lambda>c. c \<noteq> CHR ''/'') (rev u) = CHR ''/'' # r"
    by (metis list.collapse)
  have "rev u = takeWhile (\<lambda>c. c \<noteq> CHR ''/'') (rev u) @ CHR ''/'' # r"
    using takeWhile_dropWhile_id [of "\<lambda>c. c \<noteq> CHR ''/''" "rev u"] by (simp add: r)
  then have "u = rev (takeWhile (\<lambda>c. c \<noteq> CHR ''/'') (rev u) @ CHR ''/'' # r)"
    by (metis rev_rev_ident)
  then show ?thesis by (simp add: r)
qed

lemma file_text_base:
  assumes "file_text u"
  shows "takeWhile (\<lambda>c. c \<noteq> CHR ''/'') (rev u) \<noteq> []" and
    "hd (rev (takeWhile (\<lambda>c. c \<noteq> CHR ''/'') (rev u))) \<noteq> CHR ''/''" and
    "CHR '':'' \<notin> set (takeWhile (\<lambda>c. c \<noteq> CHR ''/'') (rev u))"
proof -
  let ?b = "takeWhile (\<lambda>c. c \<noteq> CHR ''/'') (rev u)"
  have "hd (rev u) \<noteq> CHR ''/''" and ne: "rev u \<noteq> []"
    using assms by (simp_all add: file_text_def hd_rev)
  then show b: "?b \<noteq> []" by (cases "rev u") auto
  have "last ?b \<in> set ?b" using b by simp
  then have "last ?b \<noteq> CHR ''/''" using set_takeWhileD [of "last ?b" "\<lambda>c. c \<noteq> CHR ''/''"] by blast
  then show "hd (rev ?b) \<noteq> CHR ''/''" by (simp add: hd_rev)
  show "CHR '':'' \<notin> set ?b" 
    using assms set_takeWhileD [of "CHR '':''" _ "rev u"] unfolding file_text_def by auto
qed

lemma ref_uri_laws: "uri_laws ref_uri_ops"
  unfolding uri_laws_def
  using file_text_split file_text_base
  by (auto simp: ref_uri_ops_def file_text_def split: if_splits)

lemma uri_store_roundtrip_witness:
  "let s = snd (projr (uri_insert ''/db/x'' (snd (projr (uri_insert ''pmem:1'' (new_uri_store ''/db''))))))
   in encode_uris ref_uri_ops s = [INum 2, INum 0, IStr ''pmem:1'', INum 1, IStr ''x''] \<and>
     (\<exists>s'. decode_uris ref_uri_ops ''/db'' (encode_uris ref_uri_ops s @ [IBool True]) = Inr (s', [IBool True]) \<and>
       us_paths s' = [(0, ''pmem:1''), (1, ''/db/x'')])"
proof -
  let ?s1 = "snd (projr (uri_insert ''pmem:1'' (new_uri_store ''/db'')))"
  let ?s = "snd (projr (uri_insert ''/db/x'' ?s1))"
  have ins1: "uri_insert ''pmem:1'' (new_uri_store ''/db'') = Inr (0, ?s1)"
    by (simp add: uri_insert_def new_uri_store_def)
  have ins: "uri_insert ''/db/x'' ?s1 = Inr (1, ?s)"
    by (simp add: uri_insert_def new_uri_store_def)
  have ok: "uri_store_ok ?s"
    using uri_insert_ok [OF _ ins] uri_insert_ok [OF uri_store_new ins1] by blast
  have paths: "us_paths ?s = [(0, ''pmem:1''), (1, ''/db/x'')]" and dir: "us_directory ?s = ''/db''"
    by (simp_all add: uri_insert_def new_uri_store_def)
  have "\<forall>u \<in> set (uri_paths ?s). u_scheme ref_uri_ops u \<noteq> ''unix''"
    by (simp add: uri_paths_def paths ref_uri_ops_def file_text_def)
  from uri_store_roundtrip [OF ref_uri_laws ok this, of "[IBool True]"]
  have "\<exists>s'. decode_uris ref_uri_ops ''/db'' (encode_uris ref_uri_ops ?s @ [IBool True]) = Inr (s', [IBool True]) \<and>
       us_paths s' = [(0, ''pmem:1''), (1, ''/db/x'')]"
    unfolding dir paths by blast
  moreover have "encode_uris ref_uri_ops ?s = [INum 2, INum 0, IStr ''pmem:1'', INum 1, IStr ''x'']"
    unfolding encode_uris_def paths dir by (simp add: encode_uri_def ref_uri_ops_def file_text_def)
  ultimately show ?thesis by (simp only: Let_def)
qed

end
