(* ===== verification/FDB_Field.thy ===== *)
theory FDB_Field
  imports FDB_Key FDB_UriStore
begin

text \<open>
  Fields and where they are: \<open>src/fdb5/database/{Field,FieldLocation,FieldDetails}.{h,cc}\<close>, and the
  reduced form in which an index keeps them, \<open>src/fdb5/toc/FieldRef.{h,cc}\<close>. A location is a URI with
  an offset, a length and the key that a mounted database gives it; the subclass of
  \<open>FieldLocation\<close> that it was made with is a tag of the record.
\<close>

section \<open>Numbers in a URI\<close>

text \<open>
  \<open>std::stoll\<close>: blanks, a sign, then the longest run of digits; \<open>std::invalid_argument\<close> without a
  digit, \<open>std::out_of_range\<close> outside of 64 bits.
\<close>

datatype stoll_result = Stoll int | InvalidArgument | OutOfRange

definition blank :: "char \<Rightarrow> bool" where
  "blank c \<longleftrightarrow> c = CHR '' '' \<or> (9 \<le> (of_char c :: nat) \<and> (of_char c :: nat) \<le> 13)"

fun digit_prefix :: "nat \<Rightarrow> string \<Rightarrow> nat" where
  "digit_prefix acc [] = acc"
| "digit_prefix acc (c # cs) =
     (case digit_value c of None \<Rightarrow> acc | Some d \<Rightarrow> digit_prefix (10 * acc + d) cs)"

definition stoll :: "string \<Rightarrow> stoll_result" where
  "stoll s =
     (let t = dropWhile blank s;
          neg = (t \<noteq> [] \<and> hd t = CHR ''-'');
          ds = (if t \<noteq> [] \<and> hd t \<in> {CHR ''-'', CHR ''+''} then tl t else t)
      in if ds = [] \<or> digit_value (hd ds) = None then InvalidArgument
         else
           (let i = (if neg then - int (digit_prefix 0 ds) else int (digit_prefix 0 ds))
            in if - (2 ^ 63) \<le> i \<and> i < 2 ^ 63 then Stoll i else OutOfRange))"

section \<open>Details and locations\<close>

record details =
  dt_referenceValue :: dbl
  dt_binaryScaleFactor :: int
  dt_decimalScaleFactor :: int
  dt_bitsPerValue :: nat
  dt_offsetBeforeData :: nat
  dt_offsetBeforeBitmap :: nat
  dt_numberOfValues :: nat
  dt_numberOfDataPoints :: nat
  dt_sphericalHarmonics :: int
  dt_gridMD5 :: string

definition new_details :: details where
  "new_details = \<lparr>dt_referenceValue = \<lparr>dbl_trunc = 0, dbl_whole = True, dbl_text = ''0''\<rparr>,
     dt_binaryScaleFactor = 0, dt_decimalScaleFactor = 0, dt_bitsPerValue = 0, dt_offsetBeforeData = 0,
     dt_offsetBeforeBitmap = 0, dt_numberOfValues = 0, dt_numberOfDataPoints = 0,
     dt_sphericalHarmonics = 0, dt_gridMD5 = []\<rparr>"

text \<open>\<open>operator bool\<close>.\<close>

definition details_given :: "details \<Rightarrow> bool" where
  "details_given x \<longleftrightarrow> dt_bitsPerValue x \<noteq> 0 \<and> dt_gridMD5 x \<noteq> []"

datatype location_class = TocLocation | OtherLocation string

record 'u location =
  lo_class :: location_class
  lo_uri :: 'u
  lo_offset :: int
  lo_length :: int
  lo_remapKey :: key

definition new_location :: "location_class \<Rightarrow> 'u \<Rightarrow> int \<Rightarrow> int \<Rightarrow> key \<Rightarrow> 'u location" where
  "new_location c uri offset len remapKey =
     \<lparr>lo_class = c, lo_uri = uri, lo_offset = offset, lo_length = len, lo_remapKey = remapKey\<rparr>"

text \<open>
  The parts of a URI that carry an offset, a length and a key: its fragment and its queries. Also
  how the library writes a URI to a stream.
\<close>

record 'u uri_parts =
  q_fragment :: "'u \<Rightarrow> string"
  q_set_fragment :: "string \<Rightarrow> 'u \<Rightarrow> 'u"
  q_query :: "'u \<Rightarrow> string \<Rightarrow> string"
  q_set_query :: "string \<Rightarrow> string \<Rightarrow> 'u \<Rightarrow> 'u"
  q_encode :: "'u \<Rightarrow> item list"
  q_decode :: "'u reader"

definition parts_laws :: "'u uri_parts \<Rightarrow> bool" where
  "parts_laws Q \<longleftrightarrow>
     (\<forall>s u. q_fragment Q (q_set_fragment Q s u) = s) \<and>
     (\<forall>a v u. q_fragment Q (q_set_query Q a v u) = q_fragment Q u) \<and>
     (\<forall>a s u. q_query Q (q_set_fragment Q s u) a = q_query Q u a) \<and>
     (\<forall>a b v u. q_query Q (q_set_query Q a v u) b = (if b = a then v else q_query Q u b)) \<and>
     (\<forall>u rest. q_decode Q (q_encode Q u @ rest) = Inr (u, rest))"

text \<open>\<open>FieldLocation(uri)\<close>: a fragment or a length that is no number counts as 0.\<close>

definition location_number :: "string \<Rightarrow> int res" where
  "location_number s =
     (case stoll s of Stoll i \<Rightarrow> Inr i | InvalidArgument \<Rightarrow> Inr 0 | OutOfRange \<Rightarrow> Inl (LibraryError ''stoll''))"

definition location_of_uri :: "ext \<Rightarrow> 'u uri_parts \<Rightarrow> location_class \<Rightarrow> 'u \<Rightarrow> 'u location res" where
  "location_of_uri e Q c uri =
     bindE (location_number (q_fragment Q uri)) (\<lambda>offset.
     bindE (if q_query Q uri ''length'' = [] then Inr 0 else location_number (q_query Q uri ''length'')) (\<lambda>len.
     bindE (if q_query Q uri ''remapKey'' = [] then Inr (new_key None)
            else parseStringUntyped e (q_query Q uri ''remapKey'')) (\<lambda>remapKey.
       Inr (new_location c uri offset len remapKey))))"

definition fullUri :: "'u uri_parts \<Rightarrow> 'u location \<Rightarrow> 'u res" where
  "fullUri Q l =
     (let full = q_set_query Q ''length'' (show_int (lo_length l)) (q_set_fragment Q (show_int (lo_offset l)) (lo_uri l))
      in if key_empty (lo_remapKey l) then Inr full
         else bindE (key_as_string (lo_remapKey l)) (\<lambda>s. Inr (q_set_query Q ''remapKey'' s full)))"

definition encode_location :: "ext \<Rightarrow> 'u uri_parts \<Rightarrow> 'u location \<Rightarrow> item list res" where
  "encode_location e Q l =
     bindE (encode_key e (lo_remapKey l)) (\<lambda>ks.
       Inr (q_encode Q (lo_uri l) @ [IInt (lo_offset l), IInt (lo_length l)] @ ks))"

definition decode_location :: "'u uri_parts \<Rightarrow> location_class \<Rightarrow> 'u location reader" where
  "decode_location Q c is =
     bindE (q_decode Q is) (\<lambda>(uri, is).
     bindE (read_int is) (\<lambda>(offset, is).
     bindE (read_int is) (\<lambda>(len, is).
     bindE (decode_key is) (\<lambda>(k, is). Inr (new_location c uri offset len k, is)))))"

section \<open>The factory of locations\<close>

text \<open>The builders by the scheme of the URI they make locations for.\<close>

type_synonym location_builders = "(string, location_class) dict"

definition add_builder :: "string \<Rightarrow> location_class \<Rightarrow> location_builders \<Rightarrow> location_builders res" where
  "add_builder name c bs =
     (if map_of bs name \<noteq> None then Inl (SeriousBug ''Duplicate entry in FieldLocationFactory'')
      else Inr (dict_put name c bs))"

definition remove_builder :: "string \<Rightarrow> location_builders \<Rightarrow> location_builders" where
  "remove_builder name bs = dict_erase name bs"

definition find_builder :: "location_builders \<Rightarrow> string \<Rightarrow> location_class res" where
  "find_builder bs name =
     (case map_of bs name of None \<Rightarrow> Inl (SeriousBug ''No FieldLocationBuilder called'') | Some c \<Rightarrow> Inr c)"

definition build_location :: "location_builders \<Rightarrow> string \<Rightarrow> 'u \<Rightarrow> int \<Rightarrow> int \<Rightarrow> key \<Rightarrow> 'u location res" where
  "build_location bs name uri offset len remapKey =
     bindE (assertE (len \<noteq> 0) ''length != 0'') (\<lambda>_.
     bindE (find_builder bs name) (\<lambda>c. Inr (new_location c uri offset len remapKey)))"

definition build_location_of_uri :: "ext \<Rightarrow> 'u uri_parts \<Rightarrow> location_builders \<Rightarrow> string \<Rightarrow> 'u \<Rightarrow> 'u location res" where
  "build_location_of_uri e Q bs name uri =
     bindE (find_builder bs name) (\<lambda>c. location_of_uri e Q c uri)"

section \<open>Fields and their references\<close>

record 'u field =
  fd_location :: "'u location"
  fd_timestamp :: nat
  fd_details :: details

record field_ref =
  fr_uriId :: nat
  fr_offset :: int
  fr_length :: int
  fr_details :: details

text \<open>\<open>FieldRefLocation(store, field)\<close> and \<open>FieldRef(store, field)\<close>.\<close>

definition make_ref :: "'u field \<Rightarrow> ('u :: linorder) uri_store \<Rightarrow> (field_ref \<times> 'u uri_store) res" where
  "make_ref field store =
     (let loc = fd_location field
      in if lo_class loc \<noteq> TocLocation then Inl (NotImplemented ''Field location is not of TocFieldLocation type'')
         else
           bindE (uri_insert (lo_uri loc) store) (\<lambda>(i, store).
             Inr (\<lparr>fr_uriId = i, fr_offset = lo_offset loc, fr_length = lo_length loc,
                    fr_details = fd_details field\<rparr>, store)))"

text \<open>\<open>FieldRefReduced(ref)\<close> and back again: the details are not stored.\<close>

definition reduce_ref :: "field_ref \<Rightarrow> field_ref" where
  "reduce_ref r = r\<lparr>fr_details := new_details\<rparr>"

text \<open>\<open>TocFieldLocation(store, ref)\<close>, which the visitor of an index uses: no key, no check.\<close>

definition location_of_ref :: "('u :: linorder) uri_store \<Rightarrow> field_ref \<Rightarrow> 'u location res" where
  "location_of_ref store r =
     bindE (uri_get store (fr_uriId r)) (\<lambda>uri.
       Inr (new_location TocLocation uri (fr_offset r) (fr_length r) (new_key None)))"

section \<open>Lemmas\<close>

lemma digit_char_plain:
  assumes "n < 10"
  shows "\<not> blank (digit_char n) \<and> digit_char n \<notin> {CHR ''-'', CHR ''+''}"
proof -
  have "n \<in> {0, 1, 2, 3, 4, 5, 6, 7, 8, 9}" using assms by auto
  then show ?thesis by (auto simp: digit_char_def blank_def)
qed

lemma digit_prefix_append:
  "parse_digits acc s = Some n \<Longrightarrow> digit_prefix acc (s @ t) = digit_prefix n t"
  by (induction s arbitrary: acc) (auto split: option.splits)

lemma digit_prefix_show: "digit_prefix 0 (show_nat n) = n"
  using digit_prefix_append [OF parse_show_nat, of n "[]"] by simp

lemma show_nat_first: "\<exists>d < 10. hd (show_nat n) = digit_char d"
proof (induction n rule: show_nat.induct)
  case (1 n)
  show ?case
  proof (cases "n < 10")
    case False
    with 1 show ?thesis by (simp add: show_nat.simps [of n])
  qed (auto simp: show_nat.simps [of n])
qed

lemma stoll_show_int:
  assumes "- (2 ^ 63) \<le> i" and "i < 2 ^ 63"
  shows "stoll (show_int i) = Stoll i"
proof -
  obtain d where d: "d < 10" "hd (show_nat (nat \<bar>i\<bar>)) = digit_char d" using show_nat_first by blast
  then have first: "digit_char d \<notin> {CHR ''-'', CHR ''+''}" "\<not> blank (digit_char d)"
    "digit_value (digit_char d) = Some d"
    using digit_char_plain [OF d(1)] d(1) by simp_all
  obtain cs where cs: "show_nat (nat \<bar>i\<bar>) = digit_char d # cs"
    using d(2) by (metis list.collapse show_nat_nonempty)
  have val: "digit_prefix 0 (digit_char d # cs) = nat \<bar>i\<bar>" by (metis cs digit_prefix_show)
  show ?thesis
  proof (cases "i < 0")
    case True
    then have "show_int i = CHR ''-'' # digit_char d # cs" using cs by (simp add: show_int_def)
    moreover have "\<not> blank (CHR ''-'')" by (simp add: blank_def)
    ultimately show ?thesis using True assms first val by (simp add: stoll_def Let_def)
  next
    case False
    then have "show_int i = digit_char d # cs" using cs by (simp add: show_int_def)
    then show ?thesis using False assms first val by (simp add: stoll_def Let_def)
  qed
qed

lemma show_int_nonempty [simp]: "show_int i \<noteq> []"
  by (simp add: show_int_def)


section \<open>Properties\<close>

text \<open>
  A location survives its full URI: for an offset and a length of 64 bits, and a remapping key
  whose text is well formed, the location that is made from \<open>fullUri\<close> has the same offset, length
  and remapping key, an empty key included.
\<close>
lemma fullUri_roundtrip:
  assumes "parts_laws Q" and "tokenize_law e" and "key_ok (lo_remapKey l)"
    and "\<forall>(k, v) \<in> set (key_dict (lo_remapKey l)). plain_text k \<and> plain_text v"
    and "q_query Q (lo_uri l) ''remapKey'' = []"
    and "\<forall>i \<in> {lo_offset l, lo_length l}. - (2 ^ 63) \<le> i \<and> i < 2 ^ 63"
  shows "\<exists>full l'. fullUri Q l = Inr full \<and> location_of_uri e Q c full = Inr l' \<and>
    lo_uri l' = full \<and> lo_offset l' = lo_offset l \<and> lo_length l' = lo_length l \<and>
    key_eq (lo_remapKey l') (lo_remapKey l)"
proof -
  let ?u = "q_set_query Q ''length'' (show_int (lo_length l)) (q_set_fragment Q (show_int (lo_offset l)) (lo_uri l))"
  obtain s key' where s: "key_as_string (lo_remapKey l) = Inr s" "parseStringUntyped e s = Inr key'"
    "key_eq key' (lo_remapKey l)" "key_dict (lo_remapKey l) \<noteq> [] \<longrightarrow> s \<noteq> []"
    using key_text [OF assms(2-4)] by blast
  have numbers: "location_number (show_int (lo_offset l)) = Inr (lo_offset l)"
    "location_number (show_int (lo_length l)) = Inr (lo_length l)"
    using assms(6) by (simp_all add: location_number_def stoll_show_int)
  have frag: "q_fragment Q (q_set_query Q a v w) = q_fragment Q w"
    "q_fragment Q (q_set_fragment Q v w) = v" "q_query Q (q_set_fragment Q v w) a = q_query Q w a"
    "q_query Q (q_set_query Q a v w) b = (if b = a then v else q_query Q w b)" for a b v w
    using assms(1) by (simp_all add: parts_laws_def)
  have eq_empty: "key_eq (new_key None) k" if "key_dict k = []" for k
    using that by (simp add: key_eq_def new_key_def)
  show ?thesis
  proof (cases "key_empty (lo_remapKey l)")
    case True
    then show ?thesis
      using assms(5) eq_empty
      by (simp add: fullUri_def location_of_uri_def frag numbers new_location_def key_empty_def)
  next
    case False
    then show ?thesis
      using s by (simp add: fullUri_def location_of_uri_def frag numbers new_location_def key_empty_def)
  qed
qed

text \<open>A small library of URIs: a base, a fragment, and queries.\<close>

definition ref_parts :: "(string \<times> string \<times> (string, string) dict) uri_parts" where
  "ref_parts = \<lparr>q_fragment = (\<lambda>(b, f, qs). f), q_set_fragment = (\<lambda>f (b, _, qs). (b, f, qs)),
     q_query = (\<lambda>(b, f, qs) a. case map_of qs a of None \<Rightarrow> [] | Some v \<Rightarrow> v),
     q_set_query = (\<lambda>a v (b, f, qs). (b, f, dict_put a v qs)),
     q_encode = (\<lambda>(b, f, qs). IStr b # IStr f # INum (length qs) # concat (map encode_pair qs)),
     q_decode = (\<lambda>is. bindE (read_str is) (\<lambda>(b, is). bindE (read_str is) (\<lambda>(f, is).
       bindE (read_num is) (\<lambda>(n, is). bindE (read_many read_pair n is) (\<lambda>(qs, is). Inr ((b, f, qs), is))))))\<rparr>"

lemma ref_parts_laws: "parts_laws ref_parts"
proof -
  have "list_all (\<lambda>_. True) qs" for qs :: "(string, string) dict" by (simp add: list_all_iff)
  then show ?thesis
    using pair_codec.read_many_enc by (simp add: parts_laws_def ref_parts_def split_beta)
qed

definition sample_location :: "(string \<times> string \<times> (string, string) dict) location" where
  "sample_location = new_location TocLocation (''file:/db/a.data'', [], []) 40 (-2) sample_key"

lemma fullUri_roundtrip_witness:
  "\<exists>l'. fullUri ref_parts sample_location =
      Inr (''file:/db/a.data'', ''40'', [(''length'', ''-2''), (''remapKey'', ''step=12,class=od'')]) \<and>
    location_of_uri ref_ext ref_parts TocLocation
      (''file:/db/a.data'', ''40'', [(''length'', ''-2''), (''remapKey'', ''step=12,class=od'')]) = Inr l' \<and>
    lo_offset l' = 40 \<and> lo_length l' = -2 \<and> key_eq (lo_remapKey l') sample_key"
proof -
  have full: "fullUri ref_parts sample_location =
      Inr (''file:/db/a.data'', ''40'', [(''length'', ''-2''), (''remapKey'', ''step=12,class=od'')])"
    by (simp add: fullUri_def sample_location_def new_location_def ref_parts_def sample_key_def push_key_def
        new_key_def key_empty_def key_as_string_def key_toString_def key_value_def key_find_def show_int_def
        show_nat.simps digit_char_def)
  have loc: "lo_remapKey sample_location = sample_key" "lo_offset sample_location = 40"
    "lo_length sample_location = -2" "lo_uri sample_location = (''file:/db/a.data'', [], [])"
    by (simp_all add: sample_location_def new_location_def)
  have plain: "\<forall>(k, v) \<in> set (key_dict sample_key). plain_text k \<and> plain_text v"
    by (simp add: sample_key_def push_key_def new_key_def plain_text_def)
  show ?thesis
    using fullUri_roundtrip [OF ref_parts_laws ref_tokenize_law, of sample_location TocLocation]
    sample_key_ok plain full by (auto simp: loc ref_parts_def)
qed

text \<open>
  A location survives a stream when its remapping key can be written: the URI, the offset and the
  length come back, and the remapping key with the same values.
\<close>
lemma location_stream_roundtrip:
  assumes "parts_laws Q" and "key_ok (lo_remapKey l)" and "encode_location e Q l = Inr out"
  shows "\<exists>l'. decode_location Q (lo_class l) (out @ rest) = Inr (l', rest) \<and> lo_class l' = lo_class l \<and>
    lo_uri l' = lo_uri l \<and> lo_offset l' = lo_offset l \<and> lo_length l' = lo_length l \<and>
    key_canonical (lo_remapKey l') \<and> valuesToString e (lo_remapKey l') = valuesToString e (lo_remapKey l)"
proof -
  obtain ks where ks: "encode_key e (lo_remapKey l) = Inr ks"
    and out: "out = q_encode Q (lo_uri l) @ [IInt (lo_offset l), IInt (lo_length l)] @ ks"
    using assms(3) by (auto simp: encode_location_def bindE_eq_Inr)
  have "q_decode Q (q_encode Q u @ r) = Inr (u, r)" for u r
    using assms(1) by (simp add: parts_laws_def)
  with key_stream [OF assms(2) ks, of rest] show ?thesis
    by (auto simp: decode_location_def out new_location_def)
qed

lemma location_stream_roundtrip_witness:
  "\<exists>out l'. encode_location ref_ext ref_parts sample_location = Inr out \<and>
     decode_location ref_parts TocLocation (out @ [IEnd]) = Inr (l', [IEnd]) \<and> lo_length l' = -2"
proof -
  have loc: "lo_remapKey sample_location = sample_key" "lo_length sample_location = -2"
    "lo_class sample_location = TocLocation"
    by (simp_all add: sample_location_def new_location_def)
  obtain out where out: "encode_location ref_ext ref_parts sample_location = Inr out"
    by (simp add: encode_location_def loc sample_key_encode)
  from location_stream_roundtrip [OF ref_parts_laws _ out, of "[IEnd]"] out show ?thesis
    using sample_key_ok by (auto simp: loc)
qed

text \<open>
  The location of a stored field cannot be written to a stream: the key that stands for no
  remapping, as \<open>TocStore::archive\<close>, the visitor of an index and a reader without a mounted database
  pass it, is \<open>Key()\<close>, which is not canonical and has no registry, so that \<open>encode\<close> throws.
\<close>
lemma plain_location_unwritable:
  "encode_location e Q (new_location c uri offset len (new_key None)) =
     Inl (SeriousBug ''TypesRegistry has not been set for Key'')"
  by (simp add: encode_location_def new_location_def encode_key_def new_key_def get_registry_def)

end
