(* ===== verification/FDB_Control.thy ===== *)
theory FDB_Control
  imports FDB_Key "HOL-Library.Word"
begin

text \<open>
  The control identifiers of a database (\<open>src/fdb5/api/helpers/ControlIterator.{h,cc}\<close>): the set
  of operations that are disabled, kept as 16 bits, its iterator, and the element that is sent to
  clients. The iterator shifts a 16-bit mask in a loop that would never end on a wrong state, so
  the loop is a partial function: that it returns is proved, not assumed.
\<close>

unbundle bit_operations_syntax

section \<open>Identifiers\<close>

datatype control_id = IdNone | IdList | IdRetrieve | IdArchive | IdWipe | IdUniqueRoot

fun id_value :: "control_id \<Rightarrow> 16 word" where
  "id_value IdNone = 0"
| "id_value IdList = 1"
| "id_value IdRetrieve = push_bit 1 1"
| "id_value IdArchive = push_bit 2 1"
| "id_value IdWipe = push_bit 3 1"
| "id_value IdUniqueRoot = push_bit 4 1"

definition control_id_list :: "control_id list" where
  "control_id_list = [IdList, IdRetrieve, IdArchive, IdWipe, IdUniqueRoot]"

text \<open>\<open>ControlIdentifiers\<close> is its one member \<open>value_\<close>.\<close>

type_synonym control_ids = "16 word"

definition ids_of :: "control_id \<Rightarrow> control_ids" where
  "ids_of i = id_value i"

definition ids_add :: "control_ids \<Rightarrow> control_id \<Rightarrow> control_ids" where
  "ids_add v i = v OR id_value i"

text \<open>A set bit stands for a disabled operation.\<close>

definition ids_enabled :: "control_ids \<Rightarrow> control_id \<Rightarrow> bool" where
  "ids_enabled v i \<longleftrightarrow> v AND id_value i = 0"

section \<open>The iterator\<close>

record control_iterator =
  it_value :: "16 word"
  it_remaining :: "16 word"

text \<open>\<open>while ((remaining_ & value_) == 0) { value_ <<= 1; ASSERT(remaining_ >= value_); }\<close>\<close>

partial_function (option) next_loop :: "16 word \<Rightarrow> 16 word \<Rightarrow> 16 word res option" where
  "next_loop remaining v =
     (if remaining AND v = 0 then
        (let v = push_bit 1 v
         in if v \<le> remaining then next_loop remaining v else Some (Inl (AssertFailed ''remaining_ >= value_'')))
      else Some (Inr v))"

definition next_value :: "control_iterator \<Rightarrow> control_iterator res option" where
  "next_value it =
     (if it_remaining it = 0 then Some (Inr (it\<lparr>it_value := 0\<rparr>))
      else
        (case next_loop (it_remaining it) (if it_value it = 0 then 1 else it_value it) of
           None \<Rightarrow> None
         | Some (Inl e) \<Rightarrow> Some (Inl e)
         | Some (Inr v) \<Rightarrow> Some (Inr \<lparr>it_value = v, it_remaining = it_remaining it XOR v\<rparr>)))"

definition ids_begin :: "control_ids \<Rightarrow> control_iterator res option" where
  "ids_begin v =
     (let it = \<lparr>it_value = 0, it_remaining = v\<rparr>
      in if v \<noteq> 0 then next_value it else Some (Inr it))"

definition iterator_eq :: "control_iterator \<Rightarrow> control_iterator \<Rightarrow> bool" where
  "iterator_eq a b \<longleftrightarrow> it_value a = it_value b"

text \<open>\<open>for (auto id : identifiers)\<close>, stopping when the iterator equals \<open>end()\<close>, whose value is 0.\<close>

fun collect_ids :: "nat \<Rightarrow> control_iterator \<Rightarrow> 16 word list res option" where
  "collect_ids 0 it = None"
| "collect_ids (Suc n) it =
     (if iterator_eq it \<lparr>it_value = 0, it_remaining = 0\<rparr> then Some (Inr [])
      else
        (case next_value it of
           None \<Rightarrow> None
         | Some (Inl e) \<Rightarrow> Some (Inl e)
         | Some (Inr it') \<Rightarrow>
             (case collect_ids n it' of
                None \<Rightarrow> None
              | Some (Inl e) \<Rightarrow> Some (Inl e)
              | Some (Inr vs) \<Rightarrow> Some (Inr (it_value it # vs)))))"

definition iterate_ids :: "nat \<Rightarrow> control_ids \<Rightarrow> 16 word list res option" where
  "iterate_ids n v =
     (case ids_begin v of
        None \<Rightarrow> None
      | Some (Inl e) \<Rightarrow> Some (Inl e)
      | Some (Inr it) \<Rightarrow> collect_ids n it)"

text \<open>\<open>ControlIdentifiers[1,4]\<close>\<close>

definition ids_print :: "nat \<Rightarrow> control_ids \<Rightarrow> string res option" where
  "ids_print n v =
     (case iterate_ids n v of
        None \<Rightarrow> None
      | Some (Inl e) \<Rightarrow> Some (Inl e)
      | Some (Inr vs) \<Rightarrow>
          Some (Inr (''ControlIdentifiers['' @ join_with '','' (map (\<lambda>w. show_nat (unat w)) vs) @ '']'')))"

section \<open>Elements\<close>

text \<open>
  A \<open>ControlElement\<close>: the database key, its location (the text of a URI), and the identifiers, which
  are those of the listed operations that the catalogue reports as not enabled.
\<close>

record control_element =
  ce_key :: key
  ce_location :: string
  ce_identifiers :: control_ids

definition element_of_catalogue :: "key \<Rightarrow> string \<Rightarrow> (control_id \<Rightarrow> bool) \<Rightarrow> control_element" where
  "element_of_catalogue key uri enabled =
     \<lparr>ce_key = key, ce_location = uri,
      ce_identifiers = fold (\<lambda>i v. if \<not> enabled i then ids_add v i else v) control_id_list (ids_of IdNone)\<rparr>"

definition encode_element :: "ext \<Rightarrow> control_element \<Rightarrow> item list res" where
  "encode_element e el =
     bindE (encode_key e (ce_key el)) (\<lambda>ks.
       Inr (ks @ [IStr (ce_location el), INum (unat (ce_identifiers el))]))"

definition decode_element :: "control_element reader" where
  "decode_element is =
     bindE (decode_key is) (\<lambda>(k, is).
     bindE (read_str is) (\<lambda>(u, is).
     bindE (read_num is) (\<lambda>(v, is).
       Inr (\<lparr>ce_key = k, ce_location = u, ce_identifiers = of_nat v\<rparr>, is))))"

section \<open>Masks\<close>

definition mask_at :: "nat \<Rightarrow> 16 word" where
  "mask_at i = push_bit i 1"

text \<open>The bits of \<open>v\<close> from position \<open>i\<close> on.\<close>

definition above :: "nat \<Rightarrow> 16 word \<Rightarrow> 16 word" where
  "above i v = push_bit i (drop_bit i v)"

lemma bit_mask_at: "bit (mask_at i) j \<longleftrightarrow> j = i \<and> i < 16"
  by (auto simp: mask_at_def push_bit_of_1 bit_exp_iff possible_bit_word)

lemma bit_above: "bit (above i v) j \<longleftrightarrow> i \<le> j \<and> bit v j"
  by (auto simp: above_def bit_push_bit_iff bit_drop_bit_eq dest: bit_imp_le_length)

lemma bit_16: "bit (v :: 16 word) j \<Longrightarrow> j < 16"
  using bit_imp_le_length [of v j] by simp

lemma mask_at_nonzero: "i < 16 \<Longrightarrow> mask_at i \<noteq> 0"
  using bit_mask_at [of i i] by auto

lemma mask_at_Suc: "mask_at i * 2 = mask_at (Suc i)"
  by (simp add: mask_at_def push_bit_of_1)

lemma and_mask_at: "v AND mask_at i = (if bit v i then mask_at i else 0)"
  by (rule bit_eqI) (auto simp: bit_and_iff bit_mask_at)

lemma and_mask_zero: "i < 16 \<Longrightarrow> (v AND mask_at i = 0) \<longleftrightarrow> \<not> bit v i"
  using mask_at_nonzero [of i] by (auto simp: and_mask_at)

lemma mask_le:
  assumes "bit v j" and "i \<le> j"
  shows "mask_at i \<le> v"
proof -
  have j: "j < 16" by (rule bit_16 [OF assms(1)])
  have unat: "unat (mask_at k) = 2 ^ k" if "k < 16" for k
  proof -
    have "mask_at k = of_nat (2 ^ k)"
      by (simp add: mask_at_def push_bit_of_1)
    then have "unat (mask_at k) = take_bit 16 (2 ^ k)"
      by (simp only: unsigned_of_nat) simp
    also have "\<dots> = 2 ^ k" using that by (simp add: take_bit_nat_eq_self)
    finally show ?thesis .
  qed
  have "mask_at i \<le> mask_at j"
    using assms(2) j unat [of i] unat [of j] by (simp add: word_le_nat_alt power_increasing)
  also have "mask_at j = v AND mask_at j"
    using assms(1) by (simp add: and_mask_at)
  also have "\<dots> \<le> v" by (rule word_and_le2)
  finally show ?thesis .
qed

lemma above_0 [simp]: "above 0 v = v"
  by (simp add: above_def)

lemma above_zero_iff: "above i v = 0 \<longleftrightarrow> (\<forall>j \<ge> i. \<not> bit v j)"
proof -
  have "bit v j \<Longrightarrow> j < 16" for j by (rule bit_16)
  then show ?thesis by (auto simp: bit_eq_iff bit_above)
qed

lemma above_step: "bit v i \<Longrightarrow> above i v XOR mask_at i = above (Suc i) v"
  by (rule bit_eqI) (auto simp: bit_xor_iff bit_above bit_mask_at dest: bit_16)

section \<open>The loop finds the next bit\<close>

lemma next_loop_finds:
  assumes "bit w j" and "i \<le> j" and "\<forall>k. i \<le> k \<and> k < j \<longrightarrow> \<not> bit w k"
  shows "next_loop w (mask_at i) = Some (Inr (mask_at j))"
  using assms(2,3)
proof (induction "j - i" arbitrary: i)
  case 0
  then have "i = j" and "j < 16" using bit_16 [OF assms(1)] by simp_all
  then show ?case using assms(1) by (subst next_loop.simps) (simp add: and_mask_zero)
next
  case (Suc d)
  then have "i < j" by simp
  then have i: "i < 16" using bit_16 [OF assms(1)] by simp
  have "\<not> bit w i" using Suc.prems(2) \<open>i < j\<close> by simp
  moreover have "mask_at (Suc i) \<le> w"
    by (rule mask_le [OF assms(1)]) (use \<open>i < j\<close> in simp)
  moreover have "next_loop w (mask_at (Suc i)) = Some (Inr (mask_at j))"
    by (rule Suc.hyps(1)) (use Suc.hyps(2) Suc.prems \<open>i < j\<close> in auto)
  ultimately show ?case
    using i by (subst next_loop.simps) (simp add: and_mask_zero mask_at_Suc)
qed

text \<open>The positions of the set bits from \<open>i\<close> on.\<close>

definition bits_from :: "nat \<Rightarrow> 16 word \<Rightarrow> nat list" where
  "bits_from i v = filter (bit v) [i..<16]"

lemma bits_from_Nil: "bits_from i v = [] \<longleftrightarrow> above i v = 0"
proof -
  have "bit v j \<Longrightarrow> j < 16" for j by (rule bit_16)
  then show ?thesis by (fastforce simp: bits_from_def above_zero_iff filter_empty_conv)
qed

lemma bits_from_Cons:
  assumes "bits_from i v = j # js"
  shows "bit v j \<and> i \<le> j \<and> j < 16 \<and> (\<forall>k. i \<le> k \<and> k < j \<longrightarrow> \<not> bit v k) \<and> js = bits_from (Suc j) v"
proof -
  have "\<exists>us vs. [i..<16] = us @ j # vs \<and> (\<forall>u \<in> set us. \<not> bit v u) \<and> bit v j \<and> js = filter (bit v) vs"
    using assms unfolding bits_from_def by (rule filter_eq_ConsD)
  then obtain us vs where split: "[i..<16] = us @ j # vs" and us: "\<forall>u \<in> set us. \<not> bit v u"
    and j: "bit v j" and js: "js = filter (bit v) vs" by blast
  have le: "i \<le> 16" using split by (cases "i \<le> 16") simp_all
  have nth: "[i..<16] ! length us = j" and lt: "length us < length [i..<16]"
    using split by (auto simp: nth_append)
  then have ij: "j = i + length us" and j16: "j < 16" by (auto simp del: upt_rec_numeral)
  have us_eq: "us = [i..<j]" and vs_eq: "vs = [Suc j..<16]"
  proof -
    have whole: "[i..<16] = [i..<j] @ j # [Suc j..<16]"
      using ij j16 upt_add_eq_append [of i j "16 - j"] upt_conv_Cons [of j 16] by simp
    with split have "us @ j # vs = [i..<j] @ j # [Suc j..<16]" by simp
    moreover have "length us = length [i..<j]" using ij by simp
    ultimately show "us = [i..<j]" and "vs = [Suc j..<16]" by simp_all
  qed
  have "\<not> bit v k" if "i \<le> k" and "k < j" for k
    using us that by (simp add: us_eq)
  then show ?thesis using j js ij j16 by (simp add: bits_from_def vs_eq)
qed

text \<open>
  The states of a running iterator: before the first value the mask is 0 and everything remains,
  after the value at \<open>l\<close> what remains is above \<open>l\<close>.
\<close>

definition iterator_at :: "nat \<Rightarrow> control_ids \<Rightarrow> control_iterator \<Rightarrow> bool" where
  "iterator_at i v it \<longleftrightarrow> it_remaining it = above i v \<and>
     (i = 0 \<and> it_value it = 0 \<or> (\<exists>l < 16. i = Suc l \<and> it_value it = mask_at l))"

lemma next_value_finds:
  assumes "bits_from i v = j # js" and "iterator_at i v it"
  shows "next_value it = Some (Inr \<lparr>it_value = mask_at j, it_remaining = above (Suc j) v\<rparr>)"
proof -
  from bits_from_Cons [OF assms(1)] have j: "bit v j" "i \<le> j" "j < 16"
    and none: "\<forall>k. i \<le> k \<and> k < j \<longrightarrow> \<not> bit v k" by auto
  have w: "bit (above i v) j" using j by (simp add: bit_above)
  have rem: "it_remaining it = above i v" using assms(2) by (simp add: iterator_at_def)
  have "next_loop (above i v) (if it_value it = 0 then 1 else it_value it) = Some (Inr (mask_at j))"
  proof (cases "i = 0 \<and> it_value it = 0")
    case True
    moreover have "mask_at 0 = 1" by (simp add: mask_at_def)
    ultimately show ?thesis using next_loop_finds [OF w, of 0] none by (auto simp: bit_above)
  next
    case False
    with assms(2) obtain l where l: "l < 16" "i = Suc l" "it_value it = mask_at l"
      by (auto simp: iterator_at_def)
    with mask_at_nonzero [of l] next_loop_finds [OF w, of l] none j show ?thesis
      by (auto simp: bit_above)
  qed
  moreover have "above i v XOR mask_at j = above (Suc j) v"
    by (rule bit_eqI) (use j none in \<open>auto simp: bit_xor_iff bit_above bit_mask_at not_less_eq_eq le_less Suc_le_eq\<close>)
  moreover have "above i v \<noteq> 0" using w by auto
  ultimately show ?thesis by (simp add: next_value_def rem)
qed

lemma next_value_ends:
  "bits_from i v = [] \<Longrightarrow> iterator_at i v it \<Longrightarrow> next_value it = Some (Inr \<lparr>it_value = 0, it_remaining = 0\<rparr>)"
  by (cases it) (simp add: iterator_at_def bits_from_Nil next_value_def)

lemma collect_from:
  "length (bits_from (Suc l) v) + 2 \<le> n \<Longrightarrow> l < 16 \<Longrightarrow>
   collect_ids n \<lparr>it_value = mask_at l, it_remaining = above (Suc l) v\<rparr> =
     Some (Inr (map mask_at (l # bits_from (Suc l) v)))"
proof (induction n arbitrary: l)
  case (Suc n)
  let ?it = "\<lparr>it_value = mask_at l, it_remaining = above (Suc l) v\<rparr>"
  have at: "iterator_at (Suc l) v ?it" using Suc.prems by (simp add: iterator_at_def)
  have nz: "mask_at l \<noteq> 0" using Suc.prems by (simp add: mask_at_nonzero)
  show ?case
  proof (cases "bits_from (Suc l) v")
    case Nil
    from Suc.prems obtain m where "n = Suc m" by (cases n) auto
    with Nil nz next_value_ends [OF Nil at] show ?thesis by (simp add: iterator_eq_def)
  next
    case (Cons j js)
    from bits_from_Cons [OF Cons] have j: "j < 16" and js: "js = bits_from (Suc j) v" by auto
    have "collect_ids n \<lparr>it_value = mask_at j, it_remaining = above (Suc j) v\<rparr> =
        Some (Inr (map mask_at (j # bits_from (Suc j) v)))"
      by (rule Suc.IH) (use Suc.prems Cons j js in auto)
    with Cons js nz next_value_finds [OF Cons at] show ?thesis by (simp add: iterator_eq_def)
  qed
qed simp

section \<open>Identifiers as bits\<close>

fun id_position :: "control_id \<Rightarrow> nat" where
  "id_position IdRetrieve = 1"
| "id_position IdArchive = 2"
| "id_position IdWipe = 3"
| "id_position IdUniqueRoot = 4"
| "id_position _ = 0"

lemma id_value_mask: "i \<noteq> IdNone \<Longrightarrow> id_value i = mask_at (id_position i)"
  by (cases i) (simp_all add: mask_at_def)

lemma id_position_less: "id_position i < 16"
  by (cases i) simp_all

lemma ids_enabled_bit: "i \<noteq> IdNone \<Longrightarrow> ids_enabled v i \<longleftrightarrow> \<not> bit v (id_position i)"
  by (simp add: ids_enabled_def id_value_mask and_mask_zero id_position_less)

lemma bit_collected:
  "bit (fold (\<lambda>i v. if P i then ids_add v i else v) is v) n \<longleftrightarrow>
   bit v n \<or> (\<exists>i \<in> set is. P i \<and> bit (id_value i) n)"
  by (induction "is" arbitrary: v) (auto simp: ids_add_def bit_or_iff)

section \<open>Properties\<close>

lemma iterate_all_bits:
  "iterate_ids 17 v = Some (Inr (map mask_at (filter (bit v) [0..<16])))"
proof (cases "bits_from 0 v")
  case Nil
  then have "v = 0" using bits_from_Nil [of 0 v] by simp
  then show ?thesis
    by (simp add: iterate_ids_def ids_begin_def iterator_eq_def numeral_eq_Suc)
next
  case (Cons j js)
  have v: "v \<noteq> 0" using Cons bits_from_Nil [of 0 v] by auto
  from bits_from_Cons [OF Cons] have j: "j < 16" and js: "js = bits_from (Suc j) v" by auto
  have "ids_begin v = Some (Inr \<lparr>it_value = mask_at j, it_remaining = above (Suc j) v\<rparr>)"
    using next_value_finds [OF Cons, of "\<lparr>it_value = 0, it_remaining = v\<rparr>"] v
    by (simp add: ids_begin_def iterator_at_def)
  moreover have "length (bits_from (Suc j) v) + 2 \<le> 17"
  proof -
    have "length (bits_from (Suc j) v) \<le> length [Suc j..<16]" unfolding bits_from_def by (rule length_filter_le)
    then show ?thesis by simp
  qed
  ultimately have "iterate_ids 17 v = Some (Inr (map mask_at (j # js)))"
    using collect_from [of j v 17] j js by (simp add: iterate_ids_def del: collect_ids.simps)
  then show ?thesis using Cons by (simp add: bits_from_def)
qed

text \<open>
  C30: Iterating over control identifiers always returns, raises no assertion, and yields exactly
  the bits that are set, each once, in ascending order: for every 16-bit value, including those
  with bits that no identifier has, the loop \<open>for (auto id : identifiers)\<close> gives the list of the
  powers of two of the value.
\<close>
theorem iterate_ids_bits:
  "iterate_ids 17 v = Some (Inr (map mask_at (filter (bit v) [0..<16])))"
  by (rule iterate_all_bits)

text \<open>
  A control element built from a catalogue says of every operation what the catalogue says: the
  operation is enabled in the identifiers exactly when the catalogue has it enabled, and each bit
  is independent of the others.
\<close>
lemma element_reports_catalogue:
  assumes "i \<in> set control_id_list"
  shows "ids_enabled (ce_identifiers (element_of_catalogue key uri enabled)) i \<longleftrightarrow> enabled i"
proof -
  have "i \<noteq> IdNone" using assms by (auto simp: control_id_list_def)
  then have "ids_enabled (ce_identifiers (element_of_catalogue key uri enabled)) i \<longleftrightarrow>
      \<not> (\<exists>i' \<in> set control_id_list. \<not> enabled i' \<and> bit (id_value i') (id_position i))"
    by (simp add: ids_enabled_bit element_of_catalogue_def bit_collected ids_of_def)
  also have "\<dots> \<longleftrightarrow> enabled i"
    using assms by (auto simp: control_id_list_def id_value_mask bit_mask_at simp del: id_value.simps)
  finally show ?thesis .
qed

lemma element_reports_catalogue_witness:
  "ids_enabled (ce_identifiers (element_of_catalogue sample_key ''file:/fdb'' (\<lambda>i. i = IdList))) IdList"
  by (subst element_reports_catalogue) (simp_all add: control_id_list_def)

text \<open>
  A control element survives the stream between server and client: the decoded element has the
  location and the identifiers that were sent, and a key with the same names and the same string
  of values.
\<close>
lemma control_element_roundtrip:
  assumes "key_ok (ce_key el)" and "encode_element e el = Inr out"
  shows "\<exists>el'. decode_element (out @ rest) = Inr (el', rest) \<and>
    ce_location el' = ce_location el \<and> ce_identifiers el' = ce_identifiers el \<and>
    key_names (ce_key el') = key_names (ce_key el) \<and>
    valuesToString e (ce_key el') = valuesToString e (ce_key el)"
proof -
  from assms(2) obtain ks where ks: "encode_key e (ce_key el) = Inr ks"
    and out: "out = ks @ [IStr (ce_location el), INum (unat (ce_identifiers el))]"
    by (auto simp: encode_element_def bindE_eq_Inr)
  obtain key' where "decode_key (ks @ IStr (ce_location el) # INum (unat (ce_identifiers el)) # rest) =
      Inr (key', IStr (ce_location el) # INum (unat (ce_identifiers el)) # rest)"
    and "key_names key' = key_names (ce_key el)" and "valuesToString e key' = valuesToString e (ce_key el)"
    using key_stream [OF assms(1) ks] by blast
  then show ?thesis by (auto simp: decode_element_def out)
qed

definition sample_element :: control_element where
  "sample_element = \<lparr>ce_key = sample_key, ce_location = ''file:/fdb'', ce_identifiers = 3\<rparr>"

lemma control_element_roundtrip_witness:
  "\<exists>out el'. encode_element ref_ext sample_element = Inr out \<and> decode_element out = Inr (el', []) \<and>
     ce_identifiers el' = 3"
proof -
  obtain out where out: "encode_element ref_ext sample_element = Inr out"
    by (simp add: encode_element_def sample_element_def sample_key_encode)
  have "key_ok (ce_key sample_element)" by (simp add: sample_element_def sample_key_ok)
  from control_element_roundtrip [OF this out, of "[]"] out show ?thesis
    by (auto simp: sample_element_def)
qed

end
