(* ===== verification/FDB_Toc.thy ===== *)
theory FDB_Toc
  imports FDB_Control FDB_UriStore
begin

text \<open>
  The table of contents of a database: the log of records in the file \<open>toc\<close>
  (\<open>src/fdb5/toc/TocRecord.{h,cc}\<close>, \<open>TocSerialisationVersion.cc\<close>, \<open>TocCommon.cc\<close>) and the reading of
  it (\<open>src/fdb5/toc/TocHandler.cc\<close>). A file is the list of its records, in the order they were
  appended; the code reads whole records only, so a position in the file is the number of records
  before it. A record that points to a sub toc makes the reader descend into another file: the
  chain of the pointers \<open>subTocRead_\<close> is a list of handlers, the outermost one first.
\<close>

section \<open>Records\<close>

text \<open>The tags, and the part of the header that the code reads. The rest of it is only printed.\<close>

abbreviation TOC_INIT :: char where "TOC_INIT \<equiv> CHR ''t''"
abbreviation TOC_INDEX :: char where "TOC_INDEX \<equiv> CHR ''i''"
abbreviation TOC_CLEAR :: char where "TOC_CLEAR \<equiv> CHR ''c''"
abbreviation TOC_SUB_TOC :: char where "TOC_SUB_TOC \<equiv> CHR ''s''"

record toc_record =
  tr_tag :: char
  tr_version :: nat
  tr_uid :: nat
  tr_size :: nat
  tr_payload :: "item list"

definition supported_versions :: "nat list" where
  "supported_versions = [3, 2, 1]"

definition version_check :: "nat \<Rightarrow> unit res" where
  "version_check v =
     (if v \<in> set supported_versions then Inr () else Inl (SeriousBug ''Record version mismatch''))"

text \<open>
  The version a handler writes: the environment's one, or the configured one when it is neither
  zero nor the default; zero stands for not given.
\<close>

definition defaulted_version :: nat where
  "defaulted_version = 2"

definition used_version :: "nat \<Rightarrow> nat \<Rightarrow> nat res" where
  "used_version env config =
     (let used = (if env \<noteq> 0 then env
                  else if config \<noteq> 0 \<and> config \<noteq> defaulted_version then config else defaulted_version)
      in if used \<in> set supported_versions then Inr used
         else Inl (BadValue ''Unsupported FDB5 toc serialisation version''))"

section \<open>Paths and files\<close>

text \<open>
  What the code calls of \<open>eckit::PathName\<close>, the size in bytes of what goes into a payload, the size
  of a header, the resource \<open>fdbRoundTocRecords\<close>, \<open>eckit::round\<close>, and the files there are: the tables of contents
  with their records, and the other paths that exist.
\<close>

record path_ops =
  po_base :: "string \<Rightarrow> string"
  po_dir :: "string \<Rightarrow> string"
  po_join :: "string \<Rightarrow> string \<Rightarrow> string"
  po_real :: "string \<Rightarrow> string"
  po_bytes :: "item list \<Rightarrow> nat"
  po_header :: nat
  po_round :: nat
  po_roundUp :: "nat \<Rightarrow> nat \<Rightarrow> nat"

record disk =
  dk_tocs :: "(string, toc_record list) dict"
  dk_files :: "string list"

definition path_exists :: "disk \<Rightarrow> string \<Rightarrow> bool" where
  "path_exists d p \<longleftrightarrow> map_of (dk_tocs d) p \<noteq> None \<or> p \<in> set (dk_files d)"

text \<open>
  \<open>findRealPath\<close>: up to the first directory that exists; each turn shortens the path, so its length
  bounds the turns.
\<close>

fun real_path_loop :: "path_ops \<Rightarrow> disk \<Rightarrow> nat \<Rightarrow> string \<Rightarrow> string res" where
  "real_path_loop P d 0 path = Inl (LibraryError ''fuel'')"
| "real_path_loop P d (Suc n) path =
     (if path_exists d path then Inr (po_real P path)
      else bindE (real_path_loop P d n (po_dir P path)) (\<lambda>q. Inr (po_join P q (po_base P path))))"

definition findRealPath :: "path_ops \<Rightarrow> disk \<Rightarrow> string \<Rightarrow> string res" where
  "findRealPath P d path = real_path_loop P d (Suc (length path)) path"

section \<open>Handlers\<close>

text \<open>
  One handler: its members, with \<open>cachedToc_\<close> as the records it holds. \<open>th_position\<close> is the position
  in the cached file.
\<close>

record toc_handler =
  th_directory :: string
  th_tocPath :: string
  th_parentKey :: key
  th_remapKey :: key
  th_version :: nat
  th_useSubToc :: bool
  th_isSubToc :: bool
  th_cache :: "toc_record list option"
  th_position :: nat
  th_count :: nat
  th_masked :: "(string \<times> nat) set"
  th_enumerated :: bool
  th_dbUID :: "nat option"

text \<open>\<open>TocHandler(directory, config)\<close>.\<close>

definition new_handler :: "path_ops \<Rightarrow> disk \<Rightarrow> nat \<Rightarrow> bool \<Rightarrow> string \<Rightarrow> toc_handler res" where
  "new_handler P d version useSubToc directory =
     bindE (findRealPath P d directory) (\<lambda>dir.
       Inr \<lparr>th_directory = dir, th_tocPath = po_join P dir ''toc'', th_parentKey = new_key None,
            th_remapKey = new_key None, th_version = version, th_useSubToc = useSubToc,
            th_isSubToc = False, th_cache = None, th_position = 0, th_count = 0, th_masked = {},
            th_enumerated = False, th_dbUID = None\<rparr>)"

definition openForRead :: "disk \<Rightarrow> toc_handler \<Rightarrow> toc_handler res" where
  "openForRead d h =
     (case th_cache h of
        Some rs \<Rightarrow> Inr (h\<lparr>th_position := 0\<rparr>)
      | None \<Rightarrow>
          (case map_of (dk_tocs d) (th_tocPath h) of
             None \<Rightarrow> Inl (LibraryError ''open'')
           | Some rs \<Rightarrow> Inr (h\<lparr>th_cache := Some rs, th_position := 0, th_masked := {}, th_enumerated := False\<rparr>)))"

text \<open>The records from the current position on; the call needs an open file.\<close>

definition unread :: "toc_handler \<Rightarrow> toc_record list res" where
  "unread h =
     (case th_cache h of
        None \<Rightarrow> Inl (AssertFailed ''(fd != -1) != (!!cached)'')
      | Some rs \<Rightarrow> Inr (drop (th_position h) rs))"

definition readNextInternal :: "toc_handler \<Rightarrow> (toc_record option \<times> toc_handler) res" where
  "readNextInternal h =
     bindE (unread h) (\<lambda>rs.
       case rs of
         [] \<Rightarrow> Inr (None, h)
       | r # _ \<Rightarrow> bindE (version_check (tr_version r)) (\<lambda>_. Inr (Some r, h\<lparr>th_position := th_position h + 1\<rparr>)))"

definition read_path :: "toc_record \<Rightarrow> string res" where
  "read_path r = bindE (read_str (tr_payload r)) (\<lambda>(path, _). Inr path)"

definition read_path_offset :: "toc_record \<Rightarrow> (string \<times> nat) res" where
  "read_path_offset r =
     bindE (read_str (tr_payload r)) (\<lambda>(path, is). bindE (read_num is) (\<lambda>(offset, _). Inr (path, offset)))"

section \<open>Masked entries\<close>

text \<open>\<open>allMaskableEntries\<close>: the entries of the records between two positions.\<close>

definition maskable_entry :: "path_ops \<Rightarrow> toc_record \<Rightarrow> (string \<times> nat) set \<Rightarrow> (string \<times> nat) set res" where
  "maskable_entry P r masked =
     bindE (version_check (tr_version r)) (\<lambda>_.
       if tr_tag r = TOC_SUB_TOC then
         bindE (read_path r) (\<lambda>path. Inr (insert (po_base P path, 0) masked))
       else if tr_tag r = TOC_INDEX then
         bindE (read_path_offset r) (\<lambda>entry. Inr (insert entry masked))
       else Inr masked)"

definition allMaskableEntries ::
    "path_ops \<Rightarrow> toc_record list \<Rightarrow> nat \<Rightarrow> nat \<Rightarrow> (string \<times> nat) set \<Rightarrow> (string \<times> nat) set res" where
  "allMaskableEntries P rs start end_pos masked =
     foldE (maskable_entry P) (take (end_pos - start) (drop start rs)) masked"

text \<open>
  The loop of \<open>populateMaskedEntriesList\<close> over the records that are left, with the position after
  the one at hand: a record \<open>*\<close> masks all that was read before it.
\<close>

definition mask_step ::
    "path_ops \<Rightarrow> toc_record list \<Rightarrow> nat \<Rightarrow> nat \<Rightarrow> toc_record \<Rightarrow> (string \<times> nat) set \<Rightarrow> (string \<times> nat) set res" where
  "mask_step P rs start pos r masked =
     (if tr_tag r = TOC_CLEAR then
        bindE (read_path_offset r) (\<lambda>(path, offset).
          if path = ''*'' then allMaskableEntries P rs start pos masked
          else Inr (insert (po_base P path, offset) masked))
      else Inr masked)"

fun mask_loop ::
    "path_ops \<Rightarrow> toc_record list \<Rightarrow> nat \<Rightarrow> nat \<Rightarrow> toc_record list \<Rightarrow> (string \<times> nat) set \<Rightarrow> (string \<times> nat) set res" where
  "mask_loop P rs start pos [] masked = Inr masked"
| "mask_loop P rs start pos (r # rest) masked =
     bindE (version_check (tr_version r)) (\<lambda>_.
     bindE (mask_step P rs start (Suc pos) r masked) (mask_loop P rs start (Suc pos) rest))"

definition populateMaskedEntriesList :: "path_ops \<Rightarrow> toc_handler \<Rightarrow> toc_handler res" where
  "populateMaskedEntriesList P h =
     bindE (unread h) (\<lambda>rest.
     bindE (mask_loop P (case th_cache h of None \<Rightarrow> [] | Some rs \<Rightarrow> rs) (th_position h) (th_position h) rest {}) (\<lambda>masked.
       Inr (h\<lparr>th_masked := masked, th_enumerated := True\<rparr>)))"

section \<open>Reading the next record\<close>

text \<open>The arguments of \<open>readNext\<close>, and their defaults.\<close>

record read_flags =
  rf_walkSubTocs :: bool
  rf_hideSubTocEntries :: bool
  rf_hideClearEntries :: bool
  rf_readMasked :: bool

definition default_flags :: read_flags where
  "default_flags = \<lparr>rf_walkSubTocs = True, rf_hideSubTocEntries = True, rf_hideClearEntries = True,
     rf_readMasked = False\<rparr>"

type_synonym chain = "toc_handler list"
type_synonym next_record = "chain \<Rightarrow> (toc_record option \<times> chain) res"

definition currentDirectory :: "chain \<Rightarrow> string" where
  "currentDirectory hs = th_directory (last hs)"

definition currentTocPath :: "chain \<Rightarrow> string" where
  "currentTocPath hs = th_tocPath (last hs)"

definition currentRemapKey :: "chain \<Rightarrow> key" where
  "currentRemapKey hs = th_remapKey (last hs)"

text \<open>\<open>close()\<close> gives up the handlers of sub tocs; the file itself is closed once it is cached.\<close>

definition close_chain :: "chain \<Rightarrow> toc_handler" where
  "close_chain hs = hd hs"

text \<open>
  \<open>databaseKey()\<close>: the key of the first \<open>TOC_INIT\<close> record that \<open>readNext\<close> returns. The function that
  reads is an argument, because the constructor that \<open>readNext\<close> calls needs \<open>databaseKey\<close>.
\<close>

fun key_loop :: "next_record \<Rightarrow> nat \<Rightarrow> chain \<Rightarrow> (key \<times> nat \<times> chain) res" where
  "key_loop next 0 hs = Inl (LibraryError ''fuel'')"
| "key_loop next (Suc n) hs =
     bindE (next hs) (\<lambda>(r, hs).
       case r of
         None \<Rightarrow> Inl (SeriousBug ''Cannot find a TOC_INIT record'')
       | Some r \<Rightarrow>
           if tr_tag r = TOC_INIT then
             bindE (decode_key (tr_payload r)) (\<lambda>(key, _). Inr (key, tr_uid r, hs))
           else key_loop next n hs)"

definition database_key_with :: "next_record \<Rightarrow> nat \<Rightarrow> disk \<Rightarrow> toc_handler \<Rightarrow> (key \<times> toc_handler) res" where
  "database_key_with next n d h =
     bindE (openForRead d h) (\<lambda>h.
     bindE (key_loop next n [h]) (\<lambda>(key, uid, hs).
       Inr (key, (close_chain hs)\<lparr>th_dbUID := Some uid\<rparr>)))"

text \<open>The difference between the key of a mounted database and the key it is mounted under.\<close>

definition remap_step :: "key \<Rightarrow> string \<times> string \<Rightarrow> key \<Rightarrow> key res" where
  "remap_step key = (\<lambda>(k, v) remap.
     case key_find key k of
       None \<Rightarrow> Inl (UserError ''Keys insufficiently matching for mount'')
     | Some w \<Rightarrow> Inr (if v \<noteq> w then set_key k v remap else remap))"

definition remap_key :: "key \<Rightarrow> key \<Rightarrow> key res" where
  "remap_key parentKey key =
     (if \<not> key_empty parentKey \<and> \<not> key_eq parentKey key then
        (if key_size parentKey \<noteq> key_size key then
           Inl (UserError ''Keys insufficiently matching for mount'')
         else foldE (remap_step key) (key_dict parentKey) (new_key None))
      else Inr (new_key None))"

text \<open>\<open>TocHandler(path, parentKey)\<close>.\<close>

definition sub_handler :: "next_record \<Rightarrow> nat \<Rightarrow> path_ops \<Rightarrow> disk \<Rightarrow> nat \<Rightarrow> string \<Rightarrow> key \<Rightarrow> toc_handler res" where
  "sub_handler next n P d version path parentKey =
     bindE (findRealPath P d (po_dir P path)) (\<lambda>dir.
     bindE (findRealPath P d path) (\<lambda>tocPath.
       let h = \<lparr>th_directory = dir, th_tocPath = tocPath, th_parentKey = parentKey,
                th_remapKey = new_key None, th_version = version, th_useSubToc = False,
                th_isSubToc = True, th_cache = None, th_position = 0, th_count = 0, th_masked = {},
                th_enumerated = False, th_dbUID = None\<rparr>
       in if path_exists d tocPath then
            bindE (database_key_with next n d h) (\<lambda>(key, h).
            bindE (remap_key parentKey key) (\<lambda>remap. Inr (h\<lparr>th_remapKey := remap\<rparr>)))
          else Inr h))"

text \<open>The path of a sub toc record: absolute, as it is or in this directory, or relative to it.\<close>

definition sub_toc_path :: "path_ops \<Rightarrow> disk \<Rightarrow> string \<Rightarrow> toc_record \<Rightarrow> string res" where
  "sub_toc_path P d directory r =
     bindE (read_path r) (\<lambda>path.
     bindE (assertE (path \<noteq> []) ''path.path().size() > 0'') (\<lambda>_.
       if hd path = CHR ''/'' then
         bindE (findRealPath P d path) (\<lambda>absPath.
           Inr (if path_exists d absPath then absPath else po_join P directory (po_base P path)))
       else Inr (po_join P directory path)))"

text \<open>
  \<open>readNext\<close> on the chain whose first handler is the one called. Each unit of fuel is a call or a
  turn of the loop: a toc that points to itself makes the code recurse for ever.
\<close>

fun readNext :: "path_ops \<Rightarrow> disk \<Rightarrow> nat \<Rightarrow> read_flags \<Rightarrow> next_record" where
  "readNext P d 0 flags hs = Inl (LibraryError ''fuel'')"
| "readNext P d (Suc n) flags [] = Inl (LibraryError ''no handler'')"
| "readNext P d (Suc n) flags (h # subs) =
     bindE (if th_enumerated h then Inr h else populateMaskedEntriesList P h) (\<lambda>h.
     if \<not> rf_walkSubTocs flags then
       bindE (readNextInternal h) (\<lambda>(r, h). Inr (r, h # subs))
     else if subs \<noteq> [] then
       bindE (readNext P d n flags subs) (\<lambda>(r, subs).
         case r of
           None \<Rightarrow> readNext P d n flags [h]
         | Some r \<Rightarrow>
             bindE (assertE (tr_tag r \<noteq> TOC_SUB_TOC) ''r.header_.tag_ != TocRecord::TOC_SUB_TOC'') (\<lambda>_.
               Inr (Some r, h # subs)))
     else
       bindE (readNextInternal h) (\<lambda>(r, h).
         case r of
           None \<Rightarrow> Inr (None, [h])
         | Some r \<Rightarrow>
             if tr_tag r = TOC_INIT then
               (if key_empty (th_parentKey h) then
                  bindE (decode_key (tr_payload r)) (\<lambda>(key, _). Inr (Some r, [h\<lparr>th_parentKey := key\<rparr>]))
                else Inr (Some r, [h]))
             else if tr_tag r = TOC_SUB_TOC then
               bindE (sub_toc_path P d (th_directory h) r) (\<lambda>absPath.
                 if (po_base P absPath, 0) \<in> th_masked h \<and> (\<not> rf_readMasked flags \<or> \<not> path_exists d absPath)
                 then readNext P d n flags [h]
                 else
                   bindE (sub_handler (readNext P d n default_flags) n P d (th_version h) absPath (th_parentKey h)) (\<lambda>sub.
                   bindE (openForRead d sub) (\<lambda>sub.
                     if rf_hideSubTocEntries flags then
                       bindE (readNext P d n flags [sub]) (\<lambda>(first, subs).
                       bindE (assertE (case first of None \<Rightarrow> False | Some first \<Rightarrow> tr_tag first = TOC_INIT)
                                ''r.header_.tag_ == TocRecord::TOC_INIT'') (\<lambda>_.
                         readNext P d n flags (h # subs)))
                     else Inr (Some r, [h, sub]))))
             else if tr_tag r = TOC_INDEX then
               bindE (read_path_offset r) (\<lambda>(path, offset).
                 let absPath = po_join P (th_directory h) path
                 in if (po_base P absPath, offset) \<in> th_masked h \<and> (\<not> rf_readMasked flags \<or> \<not> path_exists d absPath)
                    then readNext P d n flags [h]
                    else Inr (Some r, [h]))
             else if tr_tag r = TOC_CLEAR \<and> rf_hideClearEntries flags then readNext P d n flags [h]
             else Inr (Some r, [h])))"

declare readNext.simps(3) [simp del]

lemma default_flags_simps [simp]:
  "rf_walkSubTocs default_flags" "rf_hideSubTocEntries default_flags"
  "rf_hideClearEntries default_flags" "\<not> rf_readMasked default_flags"
  by (simp_all add: default_flags_def)

section \<open>What the readers return\<close>

text \<open>The loop \<open>while (readNext(*r))\<close> with a body that works on a state.\<close>

fun scan :: "next_record \<Rightarrow> (toc_record \<Rightarrow> chain \<Rightarrow> 's \<Rightarrow> 's res) \<Rightarrow> nat \<Rightarrow> chain \<Rightarrow> 's \<Rightarrow> ('s \<times> chain) res" where
  "scan next step 0 hs s = Inl (LibraryError ''fuel'')"
| "scan next step (Suc n) hs s =
     bindE (next hs) (\<lambda>(r, hs).
       case r of
         None \<Rightarrow> Inr (s, hs)
       | Some r \<Rightarrow> bindE (step r hs s) (scan next step n hs))"

definition databaseKey :: "nat \<Rightarrow> path_ops \<Rightarrow> disk \<Rightarrow> toc_handler \<Rightarrow> (key \<times> toc_handler) res" where
  "databaseKey n P d h = database_key_with (readNext P d n default_flags) n d h"

definition dbUID :: "nat \<Rightarrow> path_ops \<Rightarrow> disk \<Rightarrow> toc_handler \<Rightarrow> (nat \<times> toc_handler) res" where
  "dbUID n P d h =
     (case th_dbUID h of
        Some uid \<Rightarrow> Inr (uid, h)
      | None \<Rightarrow>
          bindE (openForRead d h) (\<lambda>h.
          bindE (key_loop (readNext P d n default_flags) n [h]) (\<lambda>(_, uid, hs).
            Inr (uid, (close_chain hs)\<lparr>th_dbUID := Some uid\<rparr>))))"

text \<open>\<open>numberOfRecords\<close> counts once, or takes what \<open>loadIndexes\<close> counted.\<close>

definition numberOfRecords :: "nat \<Rightarrow> path_ops \<Rightarrow> disk \<Rightarrow> toc_handler \<Rightarrow> (nat \<times> toc_handler) res" where
  "numberOfRecords n P d h =
     (if th_count h \<noteq> 0 then Inr (th_count h, h)
      else
        bindE (openForRead d h) (\<lambda>h.
        bindE (scan (readNext P d n (default_flags\<lparr>rf_hideSubTocEntries := False, rf_hideClearEntries := False\<rparr>))
                 (\<lambda>r hs count. Inr (count + 1)) n [h] 0) (\<lambda>(count, hs).
          Inr (count, (close_chain hs)\<lparr>th_count := count\<rparr>))))"

definition subTocPaths :: "nat \<Rightarrow> path_ops \<Rightarrow> disk \<Rightarrow> toc_handler \<Rightarrow> (string list \<times> toc_handler) res" where
  "subTocPaths n P d h =
     bindE (openForRead d h) (\<lambda>h.
     bindE (scan (readNext P d n (default_flags\<lparr>rf_hideSubTocEntries := False\<rparr>))
              (\<lambda>r hs paths.
                 if tr_tag r = TOC_SUB_TOC then
                   bindE (assertE (tl hs \<noteq> []) ''subTocRead_'') (\<lambda>_. Inr (paths @ [currentTocPath hs]))
                 else if tr_tag r = TOC_CLEAR then
                   Inl (AssertFailed ''r->header_.tag_ != TocRecord::TOC_CLEAR'')
                 else Inr paths) n [h] []) (\<lambda>(paths, hs).
       Inr (paths, close_chain hs)))"

text \<open>
  \<open>loadIndexes\<close>: the members of the handler it sets, the indexes in file order with, for each, whether
  it came from a sub toc and the key to remap it with, and the sub tocs that were read. The
  constructor of an index from the stream, with the version, the directory, the path and the offset,
  is an argument: it works on the state \<open>'w\<close> of the registry of axes.
\<close>

record 'i loaded =
  ld_index :: 'i
  ld_inSubtoc :: bool
  ld_remapKey :: key

record ('i, 'w) load_state =
  ls_indexes :: "'i loaded list"
  ls_subTocs :: "string set"
  ls_count :: nat
  ls_uid :: "nat option"
  ls_world :: 'w

type_synonym ('i, 'w) index_loader = "nat \<Rightarrow> string \<Rightarrow> string \<Rightarrow> nat \<Rightarrow> item list \<Rightarrow> 'w \<Rightarrow> ('i \<times> 'w) res"

definition load_index ::
    "path_ops \<Rightarrow> ('i, 'w) index_loader \<Rightarrow> toc_record \<Rightarrow> chain \<Rightarrow> ('i, 'w) load_state \<Rightarrow> ('i, 'w) load_state res"
where
  "load_index P load r hs s =
     bindE (read_str (tr_payload r)) (\<lambda>(path, is).
     bindE (read_num is) (\<lambda>(offset, is).
     bindE (read_str is) (\<lambda>(type, is).
     bindE (load (tr_version r) (currentDirectory hs) (po_join P (currentDirectory hs) path) offset is (ls_world s)) (\<lambda>(index, w).
       Inr (s\<lparr>ls_indexes := ls_indexes s @ [\<lparr>ld_index = index, ld_inSubtoc = (tl hs \<noteq> []), ld_remapKey = currentRemapKey hs\<rparr>],
              ls_subTocs := (if tl hs \<noteq> [] then insert (th_tocPath (hd (tl hs))) (ls_subTocs s) else ls_subTocs s),
              ls_world := w\<rparr>)))))"

definition load_step ::
    "path_ops \<Rightarrow> ('i, 'w) index_loader \<Rightarrow> toc_record \<Rightarrow> chain \<Rightarrow> ('i, 'w) load_state \<Rightarrow> ('i, 'w) load_state res"
where
  "load_step P load r hs s =
     (let s = s\<lparr>ls_count := ls_count s + 1\<rparr>
      in if tr_tag r = TOC_INIT then Inr (s\<lparr>ls_uid := Some (tr_uid r)\<rparr>)
         else if tr_tag r = TOC_INDEX then load_index P load r hs s
         else if tr_tag r = TOC_CLEAR then Inl (AssertFailed ''r->header_.tag_ != TocRecord::TOC_CLEAR'')
         else if tr_tag r = TOC_SUB_TOC then Inl (SeriousBug ''TOC_SUB_TOC entry should be handled inside readNext'')
         else Inl (SeriousBug ''Unknown tag in TocRecord''))"

definition loadIndexes ::
    "nat \<Rightarrow> path_ops \<Rightarrow> disk \<Rightarrow> ('i, 'w) index_loader \<Rightarrow> toc_handler \<Rightarrow> 'w \<Rightarrow>
     ('i loaded list \<times> string set \<times> toc_handler \<times> 'w) res" where
  "loadIndexes n P d load h w =
     (if \<not> path_exists d (th_tocPath h) then Inr ([], {}, h, w)
      else
        bindE (openForRead d h) (\<lambda>h.
        bindE (scan (readNext P d n default_flags) (load_step P load) n [h]
                 \<lparr>ls_indexes = [], ls_subTocs = {}, ls_count = 0, ls_uid = th_dbUID h, ls_world = w\<rparr>) (\<lambda>(s, hs).
          Inr (rev (ls_indexes s), ls_subTocs s,
               (close_chain hs)\<lparr>th_count := ls_count s, th_dbUID := ls_uid s\<rparr>, ls_world s))))"

section \<open>Writing records\<close>

text \<open>
  Who may write: the resources \<open>fdbOnlyCreatorCanWrite\<close> and \<open>fdbSuperUsers\<close>, the user of the process,
  and the names of users.
\<close>

record toc_env =
  te_onlyCreator :: bool
  te_superUsers :: "string list"
  te_uid :: nat
  te_userName :: "nat \<Rightarrow> string"

definition checkUID :: "nat \<Rightarrow> path_ops \<Rightarrow> toc_env \<Rightarrow> disk \<Rightarrow> toc_handler \<Rightarrow> toc_handler res" where
  "checkUID n P v d h =
     (if \<not> te_onlyCreator v then Inr h
      else bindE (dbUID n P d h) (\<lambda>(uid, h).
        if uid \<noteq> te_uid v \<and> te_userName v (te_uid v) \<notin> set (te_superUsers v)
        then Inl (UserError ''Only the owner can write to FDB'') else Inr h))"

definition openForAppend :: "nat \<Rightarrow> path_ops \<Rightarrow> toc_env \<Rightarrow> disk \<Rightarrow> toc_handler \<Rightarrow> toc_handler res" where
  "openForAppend n P v d h =
     bindE (checkUID n P v d h) (\<lambda>h.
       if map_of (dk_tocs d) (th_tocPath h) = None then Inl (LibraryError ''open'')
       else Inr (h\<lparr>th_cache := None\<rparr>))"

text \<open>\<open>TocRecord(version, tag)\<close> with its payload written, and the size that \<open>roundRecord\<close> gives it.\<close>

definition roundRecord :: "path_ops \<Rightarrow> nat \<Rightarrow> nat" where
  "roundRecord P payloadSize = po_roundUp P (po_header P + payloadSize) (po_round P)"

text \<open>What \<open>eckit::round\<close> documents: the next multiple, which is not below.\<close>

definition round_law :: "path_ops \<Rightarrow> bool" where
  "round_law P \<longleftrightarrow> (\<forall>x. x \<le> po_roundUp P x (po_round P) \<and> po_roundUp P x (po_round P) mod po_round P = 0)"

definition make_record :: "path_ops \<Rightarrow> toc_env \<Rightarrow> nat \<Rightarrow> char \<Rightarrow> item list \<Rightarrow> toc_record" where
  "make_record P v version tag payload =
     \<lparr>tr_tag = tag, tr_version = version, tr_uid = te_uid v,
      tr_size = roundRecord P (po_bytes P payload), tr_payload = payload\<rparr>"

text \<open>\<open>append\<close>, and \<open>appendBlock\<close> with a block of several records: one \<open>write\<close>.\<close>

definition append_records :: "toc_handler \<Rightarrow> toc_record list \<Rightarrow> disk \<Rightarrow> disk" where
  "append_records h rs d =
     d\<lparr>dk_tocs := dict_put (th_tocPath h)
        ((case map_of (dk_tocs d) (th_tocPath h) of None \<Rightarrow> [] | Some old \<Rightarrow> old) @ rs) (dk_tocs d)\<rparr>"

definition appendBlock ::
    "nat \<Rightarrow> path_ops \<Rightarrow> toc_env \<Rightarrow> toc_record list \<Rightarrow> toc_handler \<Rightarrow> disk \<Rightarrow> (toc_handler \<times> disk) res" where
  "appendBlock n P v rs h d =
     bindE (openForAppend n P v d h) (\<lambda>h.
     bindE (assertE (sum_list (map tr_size rs) mod po_round P = 0) ''size % recordRoundSize() == 0'') (\<lambda>_.
       Inr (h, append_records h rs d)))"

text \<open>
  \<open>writeInitRecord\<close>: an empty file gets the schema and the first record, another one must hold the same
  key. The file is read through its descriptor, which the proxy of the reads refuses when the handler has
  the file in its cache.
\<close>

definition writeInitRecord ::
    "nat \<Rightarrow> path_ops \<Rightarrow> toc_env \<Rightarrow> ext \<Rightarrow> key \<Rightarrow> toc_handler \<Rightarrow> disk \<Rightarrow> (toc_handler \<times> disk) res" where
  "writeInitRecord n P v e key h d =
     (let d = (if path_exists d (th_directory h) then d else d\<lparr>dk_files := th_directory h # dk_files d\<rparr>);
          rs = (case map_of (dk_tocs d) (th_tocPath h) of None \<Rightarrow> [] | Some rs \<Rightarrow> rs);
          d = d\<lparr>dk_tocs := dict_put (th_tocPath h) rs (dk_tocs d)\<rparr>
      in bindE (assertE (th_cache h = None) ''(fd != -1) != (!!cached)'') (\<lambda>_.
         bindE (readNext P d n default_flags [h\<lparr>th_cache := Some rs, th_position := 0\<rparr>]) (\<lambda>(r, hs).
           let h = (close_chain hs)\<lparr>th_cache := None\<rparr>
           in case r of
                None \<Rightarrow>
                  (let d = (if th_isSubToc h then d
                            else d\<lparr>dk_files := po_join P (th_directory h) ''schema'' # dk_files d\<rparr>)
                   in bindE (encode_key e key) (\<lambda>payload.
                        Inr (h\<lparr>th_dbUID := Some (te_uid v)\<rparr>,
                             append_records h
                               [make_record P v (th_version h) TOC_INIT (payload @ [IBool (th_isSubToc h)])] d)))
              | Some r \<Rightarrow>
                  bindE (assertE (tr_tag r = TOC_INIT) ''r->header_.tag_ == TocRecord::TOC_INIT'') (\<lambda>_.
                  bindE (decode_key (tr_payload r)) (\<lambda>(key', _).
                  bindE (assertE (key_eq key key') ''key == Key(s)'') (\<lambda>_.
                    Inr (h\<lparr>th_dbUID := Some (tr_uid r)\<rparr>, d)))))))"

text \<open>Records that mask: an index by its file and offset, everything, or a sub toc.\<close>

definition clear_record :: "path_ops \<Rightarrow> toc_env \<Rightarrow> nat \<Rightarrow> string \<Rightarrow> nat \<Rightarrow> toc_record" where
  "clear_record P v version path offset =
     make_record P v version TOC_CLEAR [IStr path, INum offset]"

definition writeClearRecord ::
    "nat \<Rightarrow> path_ops \<Rightarrow> toc_env \<Rightarrow> string \<Rightarrow> nat \<Rightarrow> toc_handler \<Rightarrow> disk \<Rightarrow> (toc_handler \<times> disk) res" where
  "writeClearRecord n P v indexPath offset h d =
     appendBlock n P v [clear_record P v (th_version h) (po_base P indexPath) offset] h d"

definition writeClearAllRecord ::
    "nat \<Rightarrow> path_ops \<Rightarrow> toc_env \<Rightarrow> toc_handler \<Rightarrow> disk \<Rightarrow> (toc_handler \<times> disk) res" where
  "writeClearAllRecord n P v h d = appendBlock n P v [clear_record P v (th_version h) ''*'' 0] h d"

text \<open>The path of a sub toc: relative when it is in this directory.\<close>

definition sub_toc_name :: "path_ops \<Rightarrow> toc_handler \<Rightarrow> toc_handler \<Rightarrow> string" where
  "sub_toc_name P h sub =
     (if po_real P (po_dir P (th_tocPath sub)) = po_real P (th_directory h)
      then po_base P (th_tocPath sub) else th_tocPath sub)"

definition writeSubTocMaskRecord ::
    "nat \<Rightarrow> path_ops \<Rightarrow> toc_env \<Rightarrow> toc_handler \<Rightarrow> toc_handler \<Rightarrow> disk \<Rightarrow> (toc_handler \<times> disk) res" where
  "writeSubTocMaskRecord n P v sub h d =
     appendBlock n P v [clear_record P v (th_version h) (sub_toc_name P h sub) 0] h d"

definition writeSubTocRecord ::
    "nat \<Rightarrow> path_ops \<Rightarrow> toc_env \<Rightarrow> toc_handler \<Rightarrow> toc_handler \<Rightarrow> disk \<Rightarrow> (toc_handler \<times> disk) res" where
  "writeSubTocRecord n P v sub h d =
     bindE (openForAppend n P v d h) (\<lambda>h.
       Inr (h, append_records h
         [make_record P v (th_version h) TOC_SUB_TOC [IStr (sub_toc_name P h sub), INum 0]] d))"

text \<open>
  \<open>writeIndexRecord\<close> of an index given by its file, its offset, its type and what its \<open>encode\<close> writes for
  a version. With sub tocs, the first index makes one under a name that \<open>unique\<close> gives, and every index
  goes there.
\<close>

record index_record =
  ir_path :: string
  ir_offset :: nat
  ir_type :: string
  ir_encode :: "nat \<Rightarrow> item list res"

definition build_index_record :: "path_ops \<Rightarrow> toc_env \<Rightarrow> nat \<Rightarrow> index_record \<Rightarrow> toc_record res" where
  "build_index_record P v version i =
     bindE (ir_encode i version) (\<lambda>is.
       Inr (make_record P v version TOC_INDEX
              ([IStr (po_base P (ir_path i)), INum (ir_offset i), IStr (ir_type i)] @ is)))"

definition write_index_here ::
    "nat \<Rightarrow> path_ops \<Rightarrow> toc_env \<Rightarrow> index_record \<Rightarrow> toc_handler \<Rightarrow> disk \<Rightarrow> (toc_handler \<times> disk) res" where
  "write_index_here n P v i h d =
     bindE (openForAppend n P v d h) (\<lambda>h.
     bindE (build_index_record P v (th_version h) i) (\<lambda>r. Inr (h, append_records h [r] d)))"

definition writeIndexRecord ::
    "nat \<Rightarrow> path_ops \<Rightarrow> toc_env \<Rightarrow> ext \<Rightarrow> string \<Rightarrow> index_record \<Rightarrow>
     toc_handler \<times> toc_handler option \<Rightarrow> disk \<Rightarrow> ((toc_handler \<times> toc_handler option) \<times> disk) res" where
  "writeIndexRecord n P v e unique i hsub d =
     (let (h, sub) = hsub in
      if th_useSubToc h then
        bindE (case sub of
                 Some sub \<Rightarrow> Inr (h, sub, d)
               | None \<Rightarrow>
                   bindE (sub_handler (readNext P d n default_flags) n P d (th_version h)
                            (po_join P (th_directory h) unique) (new_key None)) (\<lambda>sub.
                   bindE (databaseKey n P d h) (\<lambda>(key, h).
                   bindE (writeInitRecord n P v e key sub d) (\<lambda>(sub, d).
                   bindE (writeSubTocRecord n P v sub h d) (\<lambda>(h, d). Inr (h, sub, d)))))) (\<lambda>(h, sub, d).
        bindE (write_index_here n P v i sub d) (\<lambda>(sub, d). Inr ((h, Some sub), d)))
      else bindE (write_index_here n P v i h d) (\<lambda>(h, d). Inr ((h, sub), d)))"

section \<open>What a table of contents stands for\<close>

text \<open>
  The specification: the records of a well-formed file, the set of entries its clear records mask
  (a record \<open>*\<close> masks the entries before it, every other one masks its entry wherever it is), and the
  index records that are visible, those of the unmasked sub tocs in the place of their record.
\<close>

fun record_path :: "item list \<Rightarrow> string" where
  "record_path (IStr p # _) = p"
| "record_path _ = []"

fun record_offset :: "item list \<Rightarrow> nat" where
  "record_offset (IStr p # INum n # _) = n"
| "record_offset _ = 0"

fun has_path :: "item list \<Rightarrow> bool" where
  "has_path (IStr p # _) \<longleftrightarrow> p \<noteq> []"
| "has_path _ \<longleftrightarrow> False"

fun has_entry :: "item list \<Rightarrow> bool" where
  "has_entry (IStr p # INum n # _) \<longleftrightarrow> True"
| "has_entry _ \<longleftrightarrow> False"

definition record_ok :: "toc_record \<Rightarrow> bool" where
  "record_ok r \<longleftrightarrow> tr_version r \<in> set supported_versions \<and>
     (tr_tag r = TOC_SUB_TOC \<and> has_path (tr_payload r) \<or>
      tr_tag r \<in> {TOC_INDEX, TOC_CLEAR} \<and> has_entry (tr_payload r))"

definition init_ok :: "toc_record \<Rightarrow> bool" where
  "init_ok r \<longleftrightarrow> tr_version r \<in> set supported_versions \<and> tr_tag r = TOC_INIT \<and>
     (case decode_key (tr_payload r) of Inl _ \<Rightarrow> False | Inr _ \<Rightarrow> True)"

definition init_key :: "toc_record \<Rightarrow> key" where
  "init_key r = (case decode_key (tr_payload r) of Inl _ \<Rightarrow> new_key None | Inr (k, _) \<Rightarrow> k)"

definition entries_of :: "path_ops \<Rightarrow> toc_record \<Rightarrow> (string \<times> nat) set" where
  "entries_of P r =
     (if tr_tag r = TOC_SUB_TOC then {(po_base P (record_path (tr_payload r)), 0)}
      else if tr_tag r = TOC_INDEX then {(record_path (tr_payload r), record_offset (tr_payload r))}
      else {})"

definition clears :: "path_ops \<Rightarrow> (string \<times> nat) set \<Rightarrow> toc_record \<Rightarrow> (string \<times> nat) set" where
  "clears P seen r =
     (if tr_tag r \<noteq> TOC_CLEAR then {}
      else if record_path (tr_payload r) = ''*'' then seen
      else {(po_base P (record_path (tr_payload r)), record_offset (tr_payload r))})"

fun masked_set :: "path_ops \<Rightarrow> (string \<times> nat) set \<Rightarrow> toc_record list \<Rightarrow> (string \<times> nat) set" where
  "masked_set P seen [] = {}"
| "masked_set P seen (r # rs) = clears P seen r \<union> masked_set P (seen \<union> entries_of P r) rs"

text \<open>
  One visible index record, and where it was found: \<open>tv_subToc\<close> is the sub toc of the outermost file
  that led to it.
\<close>

record toc_view =
  tv_record :: toc_record
  tv_directory :: string
  tv_tocPath :: string
  tv_remapKey :: key
  tv_subToc :: "string option"

definition toc_content :: "disk \<Rightarrow> string \<Rightarrow> toc_record list" where
  "toc_content d p = (case map_of (dk_tocs d) p of None \<Rightarrow> [] | Some rs \<Rightarrow> rs)"

definition sub_remap :: "disk \<Rightarrow> key \<Rightarrow> string \<Rightarrow> key res" where
  "sub_remap d parent tocPath =
     (case toc_content d tocPath of
        [] \<Rightarrow> Inl (LibraryError ''empty'')
      | r # _ \<Rightarrow> remap_key parent (init_key r))"

definition in_sub :: "string \<Rightarrow> toc_view \<Rightarrow> toc_view" where
  "in_sub spath v = v\<lparr>tv_subToc := Some spath\<rparr>"

definition index_view :: "path_ops \<Rightarrow> (string \<times> nat) set \<Rightarrow> string \<Rightarrow> string \<Rightarrow> key \<Rightarrow> toc_record \<Rightarrow> toc_view list" where
  "index_view P masked dir tocPath remap r =
     (if (po_base P (po_join P dir (record_path (tr_payload r))), record_offset (tr_payload r)) \<in> masked then []
      else [\<lparr>tv_record = r, tv_directory = dir, tv_tocPath = tocPath, tv_remapKey = remap, tv_subToc = None\<rparr>])"

fun toc_views :: "path_ops \<Rightarrow> disk \<Rightarrow> key \<Rightarrow> nat \<Rightarrow> string \<Rightarrow> string \<Rightarrow> key \<Rightarrow> toc_view list" where
  "toc_views P d parent 0 dir tocPath remap = []"
| "toc_views P d parent (Suc k) dir tocPath remap =
     (let rs = toc_content d tocPath; masked = masked_set P {} rs
      in concat (map (\<lambda>r.
           if tr_tag r = TOC_INDEX then index_view P masked dir tocPath remap r
           else if tr_tag r = TOC_SUB_TOC then
             (case sub_toc_path P d dir r of
                Inl _ \<Rightarrow> []
              | Inr p \<Rightarrow>
                  if (po_base P p, 0) \<in> masked then []
                  else
                    (case (findRealPath P d (po_dir P p), findRealPath P d p) of
                       (Inr sdir, Inr spath) \<Rightarrow>
                         (case sub_remap d parent spath of
                            Inr sremap \<Rightarrow> map (in_sub spath) (toc_views P d parent k sdir spath sremap)
                          | Inl _ \<Rightarrow> [])
                     | _ \<Rightarrow> []))
           else []) (tl rs)))"

text \<open>
  A file that can be read down to the depth \<open>k\<close>: it starts with its only initial record, every record
  is one this version can read, and every unmasked sub toc is such a file, of a depth less.
\<close>

fun toc_wf :: "path_ops \<Rightarrow> disk \<Rightarrow> key \<Rightarrow> nat \<Rightarrow> string \<Rightarrow> string \<Rightarrow> bool" where
  "toc_wf P d parent 0 dir tocPath \<longleftrightarrow> False"
| "toc_wf P d parent (Suc k) dir tocPath \<longleftrightarrow>
     (case map_of (dk_tocs d) tocPath of
        Some (r0 # rs) \<Rightarrow>
          init_ok r0 \<and> list_all record_ok rs \<and>
          list_all (\<lambda>r. tr_tag r = TOC_SUB_TOC \<longrightarrow>
            (case sub_toc_path P d dir r of
               Inl _ \<Rightarrow> False
             | Inr p \<Rightarrow>
                 (po_base P p, 0) \<in> masked_set P {} (r0 # rs) \<or>
                 (case (findRealPath P d (po_dir P p), findRealPath P d p) of
                    (Inr sdir, Inr spath) \<Rightarrow>
                      (case sub_remap d parent spath of Inl _ \<Rightarrow> False | Inr _ \<Rightarrow> True) \<and>
                      toc_wf P d parent k sdir spath
                  | _ \<Rightarrow> False))) rs
      | _ \<Rightarrow> False)"

section \<open>Reading a well-formed file\<close>

lemma version_ok: "tr_version r \<in> set supported_versions \<Longrightarrow> version_check (tr_version r) = Inr ()"
  by (simp add: version_check_def)

lemma read_path_ok: "has_path (tr_payload r) \<Longrightarrow> read_path r = Inr (record_path (tr_payload r))"
  by (cases "tr_payload r" rule: has_path.cases) (simp_all add: read_path_def)

lemma read_entry_ok:
  "has_entry (tr_payload r) \<Longrightarrow> read_path_offset r = Inr (record_path (tr_payload r), record_offset (tr_payload r))"
  by (cases "tr_payload r" rule: has_entry.cases) (simp_all add: read_path_offset_def)

lemma maskable_entry_ok:
  "record_ok r \<or> init_ok r \<Longrightarrow> maskable_entry P r masked = Inr (masked \<union> entries_of P r)"
  by (auto simp: record_ok_def init_ok_def maskable_entry_def entries_of_def version_ok read_path_ok read_entry_ok)

lemma foldE_union:
  assumes "\<And>x s. x \<in> set xs \<Longrightarrow> f x s = Inr (s \<union> g x)"
  shows "foldE f xs s = Inr (s \<union> \<Union> (g ` set xs))"
proof -
  have "foldE f xs s = Inr (fold (\<lambda>x s. s \<union> g x) xs s)"
    by (rule foldE_total) (rule assms)
  moreover have "fold (\<lambda>x s. s \<union> g x) xs s = s \<union> \<Union> (g ` set xs)"
    by (induction xs arbitrary: s) auto
  ultimately show ?thesis by simp
qed

lemma mask_loop_masked_set:
  assumes "\<forall>r \<in> set (seen @ rest). record_ok r \<or> init_ok r"
  shows "mask_loop P (seen @ rest) 0 (length seen) rest masked =
    Inr (masked \<union> masked_set P (\<Union> (entries_of P ` set seen)) rest)"
  using assms
proof (induction rest arbitrary: seen masked)
  case (Cons r rest)
  let ?m = "masked \<union> clears P (\<Union> (entries_of P ` set seen)) r"
  have r: "record_ok r \<or> init_ok r" using Cons.prems by simp
  then have version: "version_check (tr_version r) = Inr ()"
    by (auto simp: record_ok_def init_ok_def version_ok)
  have star: "allMaskableEntries P (seen @ r # rest) 0 (Suc (length seen)) masked =
      Inr (masked \<union> \<Union> (entries_of P ` set seen))" if "tr_tag r = TOC_CLEAR"
  proof -
    have "foldE (maskable_entry P) (seen @ [r]) masked =
        Inr (masked \<union> \<Union> (entries_of P ` set (seen @ [r])))"
      by (rule foldE_union) (use Cons.prems in \<open>auto intro: maskable_entry_ok\<close>)
    with that show ?thesis by (simp add: allMaskableEntries_def entries_of_def)
  qed
  have "mask_step P (seen @ r # rest) 0 (Suc (length seen)) r masked = Inr ?m"
    using r star by (auto simp: mask_step_def clears_def read_entry_ok record_ok_def init_ok_def)
  moreover have "mask_loop P ((seen @ [r]) @ rest) 0 (length (seen @ [r])) rest ?m =
      Inr (?m \<union> masked_set P (\<Union> (entries_of P ` set (seen @ [r]))) rest)"
    by (rule Cons.IH) (use Cons.prems in simp)
  ultimately show ?case using version by (simp add: Un_ac)
qed simp

text \<open>A handler whose file is cached, with what a reader keeps of its state.\<close>

definition opened :: "path_ops \<Rightarrow> toc_record list \<Rightarrow> toc_handler \<Rightarrow> bool" where
  "opened P rs h \<longleftrightarrow> th_cache h = Some rs \<and> th_enumerated h \<and> th_masked h = masked_set P {} rs"

definition at_start :: "path_ops \<Rightarrow> toc_record list \<Rightarrow> toc_handler \<Rightarrow> bool" where
  "at_start P rs h \<longleftrightarrow> th_cache h = Some rs \<and> th_position h = 0 \<and>
     (th_enumerated h \<longrightarrow> th_masked h = masked_set P {} rs)"

definition records_ok :: "toc_record list \<Rightarrow> bool" where
  "records_ok rs \<longleftrightarrow> (\<exists>r0 rest. rs = r0 # rest \<and> init_ok r0 \<and> list_all record_ok rest)"

definition enumerate :: "path_ops \<Rightarrow> toc_record list \<Rightarrow> toc_handler \<Rightarrow> toc_handler" where
  "enumerate P rs h = h\<lparr>th_masked := masked_set P {} rs, th_enumerated := True\<rparr>"

lemma populate_start:
  assumes "records_ok rs" and "at_start P rs h"
  shows "(if th_enumerated h then Inr h else populateMaskedEntriesList P h) = Inr (enumerate P rs h)"
proof -
  have "\<forall>r \<in> set ([] @ rs). record_ok r \<or> init_ok r"
    using assms(1) by (auto simp: records_ok_def list_all_iff)
  from mask_loop_masked_set [OF this, of P "{}"] assms(2) show ?thesis
    by (auto simp: populateMaskedEntriesList_def unread_def at_start_def enumerate_def)
qed

text \<open>The first record, for a handler that knows the key of the outermost file, and for one that does not.\<close>

definition first_state :: "path_ops \<Rightarrow> toc_record list \<Rightarrow> toc_handler \<Rightarrow> toc_handler" where
  "first_state P rs h =
     (enumerate P rs h)\<lparr>th_position := 1,
        th_parentKey := (if key_empty (th_parentKey h) then init_key (hd rs) else th_parentKey h)\<rparr>"

lemma readNext_first:
  assumes rs: "records_ok rs" and h: "at_start P rs h"
  shows "readNext P d (Suc n) default_flags [h] = Inr (Some (hd rs), [first_state P rs h])"
proof -
  obtain r0 rest where split: "rs = r0 # rest" "init_ok r0" using rs by (auto simp: records_ok_def)
  then obtain k left where k: "decode_key (tr_payload r0) = Inr (k, left)"
    by (auto simp: init_ok_def split: sum.splits)
  have tag: "tr_tag r0 = TOC_INIT" and version: "version_check (tr_version r0) = Inr ()"
    using split by (simp_all add: init_ok_def version_ok)
  show ?thesis
    using h split(1) k
    by (simp add: readNext.simps(3) populate_start [OF rs h])
      (simp add: readNextInternal_def unread_def at_start_def enumerate_def version
        tag first_state_def init_key_def)
qed

lemma opened_first: "at_start P rs h \<Longrightarrow> opened P rs (first_state P rs h)"
  by (simp add: opened_def at_start_def first_state_def enumerate_def)

text \<open>The following records, in a handler whose masks are known.\<close>

definition advance :: "toc_handler \<Rightarrow> toc_handler" where
  "advance h = h\<lparr>th_position := th_position h + 1\<rparr>"

lemma opened_advance: "opened P rs h \<Longrightarrow> opened P rs (advance h)"
  by (simp add: opened_def advance_def)

lemma readNextInternal_at:
  assumes "opened P rs h" and "drop (th_position h) rs = r # rest" and "record_ok r"
  shows "readNextInternal h = Inr (Some r, advance h)"
  using assms by (simp add: readNextInternal_def unread_def opened_def record_ok_def version_ok advance_def)

lemma readNext_end:
  assumes "opened P rs h" and "drop (th_position h) rs = []"
  shows "readNext P d (Suc n) default_flags [h] = Inr (None, [h])"
  using assms
  by (simp add: readNext.simps(3) opened_def readNextInternal_def unread_def)

lemma readNext_clear:
  assumes "opened P rs h" and "drop (th_position h) rs = r # rest" and "record_ok r" and "tr_tag r = TOC_CLEAR"
  shows "readNext P d (Suc n) default_flags [h] = readNext P d n default_flags [advance h]"
proof -
  have "th_enumerated h" using assms(1) by (simp add: opened_def)
  with assms(4) show ?thesis
    by (simp add: readNext.simps(3) readNextInternal_at [OF assms(1-3)])
qed

lemma readNext_index:
  assumes "opened P rs h" and "drop (th_position h) rs = r # rest" and "record_ok r" and "tr_tag r = TOC_INDEX"
  shows "readNext P d (Suc n) default_flags [h] =
    (if (po_base P (po_join P (th_directory h) (record_path (tr_payload r))), record_offset (tr_payload r))
          \<in> masked_set P {} rs
     then readNext P d n default_flags [advance h] else Inr (Some r, [advance h]))"
proof -
  have "th_enumerated h" "th_masked h = masked_set P {} rs" using assms(1) by (simp_all add: opened_def)
  moreover have "read_path_offset r = Inr (record_path (tr_payload r), record_offset (tr_payload r))"
    using assms(3,4) by (simp add: record_ok_def read_entry_ok)
  ultimately show ?thesis using assms(4)
    by (simp add: readNext.simps(3) readNextInternal_at [OF assms(1-3)] Let_def)
      (simp add: advance_def)
qed

lemma readNext_sub_masked:
  assumes "opened P rs h" and "drop (th_position h) rs = r # rest" and "record_ok r" and "tr_tag r = TOC_SUB_TOC"
    and "sub_toc_path P d (th_directory h) r = Inr p" and "(po_base P p, 0) \<in> masked_set P {} rs"
  shows "readNext P d (Suc n) default_flags [h] = readNext P d n default_flags [advance h]"
proof -
  have "th_enumerated h" "th_masked h = masked_set P {} rs" using assms(1) by (simp_all add: opened_def)
  with assms(4-6) show ?thesis
    by (simp add: readNext.simps(3) readNextInternal_at [OF assms(1-3)])
      (simp add: advance_def)
qed

text \<open>An unmasked sub toc: its handler is made, its initial record read, and the reading goes on in it.\<close>

lemma sub_handler_ok:
  assumes "findRealPath P d (po_dir P p) = Inr sdir" and "findRealPath P d p = Inr spath"
    and toc: "map_of (dk_tocs d) spath = Some rs" and rs: "records_ok rs"
    and "remap_key parent (init_key (hd rs)) = Inr remap"
  shows "\<exists>sub. (\<forall>n. sub_handler (readNext P d (Suc n) default_flags) (Suc n) P d v p parent = Inr sub \<and>
      openForRead d sub = Inr (sub\<lparr>th_position := 0\<rparr>)) \<and>
    at_start P rs (sub\<lparr>th_position := 0\<rparr>) \<and> th_directory sub = sdir \<and> th_tocPath sub = spath \<and>
    th_remapKey sub = remap \<and> th_parentKey sub = (if key_empty parent then init_key (hd rs) else parent)"
proof -
  let ?h = "\<lparr>th_directory = sdir, th_tocPath = spath, th_parentKey = parent,
      th_remapKey = new_key None, th_version = v, th_useSubToc = False,
      th_isSubToc = True, th_cache = Some rs, th_position = 0, th_count = 0, th_masked = {},
      th_enumerated = False, th_dbUID = None\<rparr>"
  let ?sub = "(first_state P rs ?h)\<lparr>th_dbUID := Some (tr_uid (hd rs)), th_remapKey := remap\<rparr>"
  have start: "at_start P rs ?h" by (simp add: at_start_def)
  have "init_ok (hd rs)" using rs by (auto simp: records_ok_def)
  then obtain left where k: "decode_key (tr_payload (hd rs)) = Inr (init_key (hd rs), left)"
    and tag: "tr_tag (hd rs) = TOC_INIT"
    by (auto simp: init_ok_def init_key_def split: sum.splits)
  have "sub_handler (readNext P d (Suc n) default_flags) (Suc n) P d v p parent = Inr ?sub" for n
    using assms(1,2,5) toc k tag
    by (simp add: sub_handler_def path_exists_def database_key_with_def openForRead_def Let_def
        readNext_first [OF rs start] close_chain_def)
  moreover have "openForRead d ?sub = Inr (?sub\<lparr>th_position := 0\<rparr>)"
    by (simp add: openForRead_def first_state_def enumerate_def)
  moreover have "at_start P rs (?sub\<lparr>th_position := 0\<rparr>)"
    by (simp add: at_start_def first_state_def enumerate_def)
  ultimately show ?thesis
    by (intro exI [where x = ?sub]) (simp add: first_state_def enumerate_def)
qed

lemma readNext_sub:
  assumes h: "opened P rs h" "drop (th_position h) rs = r # rest" "record_ok r" "tr_tag r = TOC_SUB_TOC"
    and path: "sub_toc_path P d (th_directory h) r = Inr p" "(po_base P p, 0) \<notin> masked_set P {} rs"
    and sub: "findRealPath P d (po_dir P p) = Inr sdir" "findRealPath P d p = Inr spath"
      "map_of (dk_tocs d) spath = Some srs" "records_ok srs"
      "remap_key (th_parentKey h) (init_key (hd srs)) = Inr remap"
    and parent: "\<not> key_empty (th_parentKey h)"
  shows "\<exists>sub. opened P srs sub \<and> th_position sub = 1 \<and> th_directory sub = sdir \<and> th_tocPath sub = spath \<and>
    th_remapKey sub = remap \<and> th_parentKey sub = th_parentKey h \<and>
    (\<forall>n. readNext P d (Suc (Suc n)) default_flags [h] = readNext P d (Suc n) default_flags [advance h, sub])"
proof -
  obtain sub where made: "\<And>n. sub_handler (readNext P d (Suc n) default_flags) (Suc n) P d (th_version h) p (th_parentKey h) = Inr sub"
      "openForRead d sub = Inr (sub\<lparr>th_position := 0\<rparr>)"
    and start: "at_start P srs (sub\<lparr>th_position := 0\<rparr>)"
    and fields: "th_directory sub = sdir" "th_tocPath sub = spath" "th_remapKey sub = remap"
      "th_parentKey sub = th_parentKey h"
    using sub_handler_ok [OF sub, of "th_version h"] parent by auto
  let ?sub = "first_state P srs (sub\<lparr>th_position := 0\<rparr>)"
  have init: "tr_tag (hd srs) = TOC_INIT" using sub(4) by (auto simp: records_ok_def init_ok_def)
  have "th_enumerated h" "th_masked h = masked_set P {} rs" using h(1) by (simp_all add: opened_def)
  then have "readNext P d (Suc (Suc n)) default_flags [h] = readNext P d (Suc n) default_flags [advance h, ?sub]" for n
    using h(4) path made readNext_first [OF sub(4) start, of d n] init
    by (simp add: readNext.simps(3) [of P d "Suc n"] readNextInternal_at [OF h(1-3)])
      (simp add: advance_def)
  moreover have "opened P srs ?sub" by (rule opened_first [OF start])
  ultimately show ?thesis
    using fields parent by (intro exI [where x = ?sub]) (simp add: first_state_def enumerate_def)
qed

section \<open>The sequence of records that \<open>readNext\<close> returns\<close>

text \<open>What a call returns with all sufficient fuel, and the sequence of the calls up to the end.\<close>

definition reads :: "path_ops \<Rightarrow> disk \<Rightarrow> chain \<Rightarrow> toc_record option \<Rightarrow> chain \<Rightarrow> bool" where
  "reads P d hs r hs' \<longleftrightarrow> (\<exists>N. \<forall>n \<ge> N. readNext P d n default_flags hs = Inr (r, hs'))"

inductive emits :: "path_ops \<Rightarrow> disk \<Rightarrow> chain \<Rightarrow> (toc_record \<times> chain) list \<Rightarrow> chain \<Rightarrow> bool"
  for P d where
  emits_end: "reads P d hs None hs' \<Longrightarrow> hs' \<noteq> [] \<Longrightarrow> emits P d hs [] hs'"
| emits_next: "reads P d hs (Some r) hs1 \<Longrightarrow> hs1 \<noteq> [] \<Longrightarrow> emits P d hs1 xs hs' \<Longrightarrow> emits P d hs ((r, hs1) # xs) hs'"

inductive_cases emits_NilE: "emits P d hs [] hs'"
inductive_cases emits_ConsE: "emits P d hs ((r, hs1) # xs) hs'"

lemma readsI:
  assumes "\<And>n. readNext P d (Suc n) default_flags hs = Inr (r, hs')"
  shows "reads P d hs r hs'"
  unfolding reads_def
proof (intro exI [where x = 1] allI impI)
  fix n :: nat
  assume "1 \<le> n"
  then show "readNext P d n default_flags hs = Inr (r, hs')" using assms by (cases n) auto
qed

lemma reads_skip:
  assumes "\<And>n. readNext P d (Suc (Suc n)) default_flags hs = readNext P d (Suc n) default_flags hs2"
    and "reads P d hs2 r hs'"
  shows "reads P d hs r hs'"
proof -
  from assms(2) obtain N where N: "\<And>n. n \<ge> N \<Longrightarrow> readNext P d n default_flags hs2 = Inr (r, hs')"
    by (auto simp: reads_def)
  have "readNext P d n default_flags hs = Inr (r, hs')" if "n \<ge> Suc (Suc N)" for n
  proof -
    have m: "n = Suc (Suc (n - 2))" and "Suc (n - 2) \<ge> N" using that by auto
    then show ?thesis using N [of "Suc (n - 2)"] assms(1) by metis
  qed
  then show ?thesis unfolding reads_def by blast
qed

lemma emits_skip:
  assumes skip: "\<And>n. readNext P d (Suc (Suc n)) default_flags hs = readNext P d (Suc n) default_flags hs2"
    and "emits P d hs2 xs hs'"
  shows "emits P d hs xs hs'"
  using assms(2)
proof cases
  case emits_end
  then show ?thesis by (auto intro: emits.emits_end reads_skip [OF skip])
next
  case emits_next
  then show ?thesis by (auto intro: emits.emits_next reads_skip [OF skip])
qed

text \<open>The records of the sub toc come first, then those of the handler itself.\<close>

lemma emits_sub:
  assumes "emits P d sub xs e" and "sub \<noteq> []" and "\<forall>(r, _) \<in> set xs. tr_tag r \<noteq> TOC_SUB_TOC"
    and h: "th_enumerated h" and ys: "emits P d [h] ys e2"
  shows "emits P d (h # sub) (map (\<lambda>(r, hs). (r, h # hs)) xs @ ys) e2"
  using assms(1-3)
proof (induction rule: emits.induct)
  case (emits_end hs hs')
  from emits_end(1) obtain N where N: "\<And>n. n \<ge> N \<Longrightarrow> readNext P d n default_flags hs = Inr (None, hs')"
    by (auto simp: reads_def)
  have "readNext P d (Suc n) default_flags (h # hs) = readNext P d n default_flags [h]" if "n \<ge> N" for n
    using h emits_end(3) N [OF that] by (cases hs) (simp_all add: readNext.simps(3))
  then have "reads P d (h # hs) r hs1" if "reads P d [h] r hs1" for r hs1
  proof -
    from that obtain M where M: "\<And>n. n \<ge> M \<Longrightarrow> readNext P d n default_flags [h] = Inr (r, hs1)"
      by (auto simp: reads_def)
    have "readNext P d n default_flags (h # hs) = Inr (r, hs1)" if n: "n \<ge> Suc (max M N)" for n
    proof -
      obtain m where "n = Suc m" and "m \<ge> M" and "m \<ge> N" using n by (cases n) auto
      with M \<open>\<And>n. n \<ge> N \<Longrightarrow> readNext P d (Suc n) default_flags (h # hs) = readNext P d n default_flags [h]\<close>
      show ?thesis by simp
    qed
    then show ?thesis unfolding reads_def by blast
  qed
  from ys this have "emits P d (h # hs) ys e2"
    by cases (blast intro: emits.intros)+
  then show ?case by simp
next
  case (emits_next hs r hs1 xs hs')
  from emits_next(1) obtain N where N: "\<And>n. n \<ge> N \<Longrightarrow> readNext P d n default_flags hs = Inr (Some r, hs1)"
    by (auto simp: reads_def)
  have "readNext P d (Suc n) default_flags (h # hs) = Inr (Some r, h # hs1)" if "n \<ge> N" for n
    using h emits_next(5,6) N [OF that] by (cases hs) (simp_all add: readNext.simps(3))
  then have "readNext P d n default_flags (h # hs) = Inr (Some r, h # hs1)" if "n \<ge> Suc N" for n
    using that by (cases n) auto
  then have "reads P d (h # hs) (Some r) (h # hs1)"
    unfolding reads_def by blast
  moreover have "emits P d (h # hs1) (map (\<lambda>(r, hs). (r, h # hs)) xs @ ys) e2"
    using emits_next by simp
  ultimately show ?case by (auto intro: emits.emits_next)
qed

text \<open>A returned record as an index of the specification.\<close>

definition view_of :: "toc_record \<times> chain \<Rightarrow> toc_view" where
  "view_of = (\<lambda>(r, hs). \<lparr>tv_record = r, tv_directory = currentDirectory hs, tv_tocPath = currentTocPath hs,
     tv_remapKey = currentRemapKey hs, tv_subToc = (case tl hs of [] \<Rightarrow> None | s # _ \<Rightarrow> Some (th_tocPath s))\<rparr>)"

definition index_emission :: "string \<Rightarrow> (toc_record \<times> chain) list \<Rightarrow> bool" where
  "index_emission p xs \<longleftrightarrow> (\<forall>(r, hs) \<in> set xs. tr_tag r = TOC_INDEX \<and> hs \<noteq> [] \<and> th_tocPath (hd hs) = p)"

text \<open>The views of one record of a file, as the specification has them.\<close>

definition record_views :: "path_ops \<Rightarrow> disk \<Rightarrow> key \<Rightarrow> nat \<Rightarrow> (string \<times> nat) set \<Rightarrow> string \<Rightarrow> string \<Rightarrow> key \<Rightarrow> toc_record \<Rightarrow> toc_view list"
where
  "record_views P d parent k masked dir tocPath remap r =
     (if tr_tag r = TOC_INDEX then index_view P masked dir tocPath remap r
      else if tr_tag r = TOC_SUB_TOC then
        (case sub_toc_path P d dir r of
           Inl _ \<Rightarrow> []
         | Inr p \<Rightarrow>
             if (po_base P p, 0) \<in> masked then []
             else
               (case (findRealPath P d (po_dir P p), findRealPath P d p) of
                  (Inr sdir, Inr spath) \<Rightarrow>
                    (case sub_remap d parent spath of
                       Inr sremap \<Rightarrow> map (in_sub spath) (toc_views P d parent k sdir spath sremap)
                     | Inl _ \<Rightarrow> [])
                | _ \<Rightarrow> []))
      else [])"

lemma toc_views_records:
  "toc_views P d parent (Suc k) dir tocPath remap =
     (let rs = toc_content d tocPath
      in concat (map (record_views P d parent k (masked_set P {} rs) dir tocPath remap) (tl rs)))"
  by (simp add: record_views_def [abs_def] Let_def)

definition sub_ok :: "path_ops \<Rightarrow> disk \<Rightarrow> key \<Rightarrow> nat \<Rightarrow> (string \<times> nat) set \<Rightarrow> string \<Rightarrow> toc_record \<Rightarrow> bool" where
  "sub_ok P d parent k masked dir r \<longleftrightarrow> (tr_tag r = TOC_SUB_TOC \<longrightarrow>
     (case sub_toc_path P d dir r of
        Inl _ \<Rightarrow> False
      | Inr p \<Rightarrow>
          (po_base P p, 0) \<in> masked \<or>
          (case (findRealPath P d (po_dir P p), findRealPath P d p) of
             (Inr sdir, Inr spath) \<Rightarrow>
               (case sub_remap d parent spath of Inl _ \<Rightarrow> False | Inr _ \<Rightarrow> True) \<and>
               toc_wf P d parent k sdir spath
           | _ \<Rightarrow> False)))"

lemma toc_wf_records:
  "toc_wf P d parent (Suc k) dir tocPath \<longleftrightarrow>
     (case map_of (dk_tocs d) tocPath of
        Some (r0 # rs) \<Rightarrow> init_ok r0 \<and> list_all record_ok rs \<and>
          list_all (sub_ok P d parent k (masked_set P {} (r0 # rs)) dir) rs
      | _ \<Rightarrow> False)"
  unfolding toc_wf.simps sub_ok_def [abs_def] by (rule refl)

declare toc_views.simps(2) [simp del] toc_wf.simps(2) [simp del]

lemma toc_wf_file:
  assumes "toc_wf P d parent k dir tocPath"
  obtains rs where "map_of (dk_tocs d) tocPath = Some rs" "records_ok rs" "toc_content d tocPath = rs"
  using assms
  by (cases k) (auto simp: toc_wf_records records_ok_def toc_content_def split: option.splits list.splits)

text \<open>
  One record after the other: from a handler in the middle of a file, the calls return the views of
  the records that are left.
\<close>

lemma emits_rest:
  assumes IH: "\<And>sub sdir spath srs. toc_wf P d parent k sdir spath \<Longrightarrow> map_of (dk_tocs d) spath = Some srs \<Longrightarrow>
      opened P srs sub \<Longrightarrow> th_position sub = 1 \<Longrightarrow> th_directory sub = sdir \<Longrightarrow> th_tocPath sub = spath \<Longrightarrow>
      th_parentKey sub = parent \<Longrightarrow>
      \<exists>xs e. emits P d [sub] xs e \<and> index_emission spath xs \<and>
        map view_of xs = toc_views P d parent k sdir spath (th_remapKey sub)"
    and parent: "\<not> key_empty parent"
    and "list_all record_ok rest" and "list_all (sub_ok P d parent k (masked_set P {} rs) dir) rest"
    and "opened P rs h" and "drop (th_position h) rs = rest" and "th_directory h = dir"
    and "th_tocPath h = tocPath" and "th_parentKey h = parent" and "th_remapKey h = remap"
  shows "\<exists>xs e. emits P d [h] xs e \<and> index_emission tocPath xs \<and>
    map view_of xs = concat (map (record_views P d parent k (masked_set P {} rs) dir tocPath remap) rest)"
  using assms(3-)
proof (induction rest arbitrary: h)
  case Nil
  have "emits P d [h] [] [h]"
    by (rule emits_end) (simp_all add: readsI readNext_end [OF Nil(3)] Nil(4))
  moreover have "index_emission tocPath []" by (simp add: index_emission_def)
  ultimately have "emits P d [h] [] [h] \<and> index_emission tocPath [] \<and>
      map view_of [] = concat (map (record_views P d parent k (masked_set P {} rs) dir tocPath remap) [])" by simp
  then show ?case by blast
next
  case (Cons r rest)
  let ?M = "masked_set P {} rs"
  let ?h = "advance h"
  have ok: "record_ok r" and sub_ok: "sub_ok P d parent k ?M dir r" using Cons.prems by simp_all
  have at: "drop (th_position h) rs = r # rest" by (rule Cons.prems(4))
  then have next_at: "drop (th_position ?h) rs = rest"
    by (simp add: advance_def) (metis drop_Suc list.sel(3) tl_drop)
  obtain xs e where xs: "emits P d [?h] xs e" "index_emission tocPath xs"
    and views: "map view_of xs = concat (map (record_views P d parent k ?M dir tocPath remap) rest)"
    using Cons.IH [of ?h] Cons.prems opened_advance [OF Cons.prems(3)] next_at by (auto simp: advance_def)
  note here = Cons.prems(3) at ok
  let ?V = "record_views P d parent k ?M dir tocPath remap"
  have result: ?case if "emits P d [h] zs e" "index_emission tocPath zs" "map view_of zs = concat (map ?V (r # rest))" for zs e
    using that by blast
  consider (sub) "tr_tag r = TOC_SUB_TOC" | (index) "tr_tag r = TOC_INDEX" | (clear) "tr_tag r = TOC_CLEAR"
    using ok by (auto simp: record_ok_def)
  then show ?case
  proof cases
    case clear
    then have "emits P d [h] xs e" using emits_skip [OF _ xs(1)] readNext_clear [OF here] by blast
    moreover have "?V r = []" using clear by (simp add: record_views_def)
    ultimately show ?thesis using xs(2) views by (intro result) simp_all
  next
    case index
    let ?e = "(po_base P (po_join P dir (record_path (tr_payload r))), record_offset (tr_payload r))"
    note step = readNext_index [OF here index, of d]
    show ?thesis
    proof (cases "?e \<in> ?M")
      case True
      then have "emits P d [h] xs e" using emits_skip [OF _ xs(1)] step Cons.prems(5) by simp
      moreover have "?V r = []" using index True by (simp add: record_views_def index_view_def)
      ultimately show ?thesis using xs(2) views by (intro result) simp_all
    next
      case False
      then have emission: "emits P d [h] ((r, [?h]) # xs) e"
        using step Cons.prems(5) by (intro emits_next [OF readsI _ xs(1)]) simp_all
      have "view_of (r, [?h]) = \<lparr>tv_record = r, tv_directory = dir, tv_tocPath = tocPath,
          tv_remapKey = remap, tv_subToc = None\<rparr>"
        using Cons.prems by (simp add: view_of_def currentDirectory_def currentTocPath_def currentRemapKey_def advance_def)
      then have "map view_of [(r, [?h])] = ?V r"
        using index False by (simp add: record_views_def index_view_def)
      moreover have "index_emission tocPath ((r, [?h]) # xs)" using xs(2) index Cons.prems(6)
        by (simp add: index_emission_def advance_def)
      ultimately show ?thesis using views by (intro result [OF emission]) simp_all
    qed
  next
    case sub
    note is_sub = this
    then obtain p where p: "sub_toc_path P d dir r = Inr p"
      using sub_ok by (auto simp: sub_ok_def split: sum.splits)
    show ?thesis
    proof (cases "(po_base P p, 0) \<in> ?M")
      case True
      then have "emits P d [h] xs e"
        using emits_skip [OF _ xs(1)] readNext_sub_masked [OF here is_sub] p Cons.prems(5) by simp
      moreover have "?V r = []" using is_sub p True by (simp add: record_views_def)
      ultimately show ?thesis using xs(2) views by (intro result) simp_all
    next
      case False
      then obtain sdir spath sremap where s: "findRealPath P d (po_dir P p) = Inr sdir" "findRealPath P d p = Inr spath"
          "sub_remap d parent spath = Inr sremap" "toc_wf P d parent k sdir spath"
        using sub_ok p is_sub by (auto simp: sub_ok_def split: sum.splits)
      obtain srs where srs: "map_of (dk_tocs d) spath = Some srs" "records_ok srs" "toc_content d spath = srs"
        by (rule toc_wf_file [OF s(4)])
      have remap: "remap_key (th_parentKey h) (init_key (hd srs)) = Inr sremap"
        using s(3) srs Cons.prems(7) by (auto simp: sub_remap_def records_ok_def)
      obtain sub where opened: "opened P srs sub" "th_position sub = 1" "th_directory sub = sdir" "th_tocPath sub = spath"
          "th_remapKey sub = sremap" "th_parentKey sub = parent"
        and step: "\<And>n. readNext P d (Suc (Suc n)) default_flags [h] = readNext P d (Suc n) default_flags [?h, sub]"
        using readNext_sub [OF here is_sub _ False s(1,2) srs(1,2) remap] p parent Cons.prems(5,7) by auto
      obtain ys e' where ys: "emits P d [sub] ys e'" "index_emission spath ys"
        and sub_views: "map view_of ys = toc_views P d parent k sdir spath sremap"
        using IH [OF s(4) srs(1) opened(1-4,6)] opened(5) by auto
      let ?zs = "map (\<lambda>(r, hs). (r, ?h # hs)) ys"
      have "emits P d [?h, sub] (?zs @ xs) e"
        by (rule emits_sub [OF ys(1) _ _ _ xs(1)])
          (use ys(2) Cons.prems(3) in \<open>auto simp: index_emission_def opened_def advance_def\<close>)
      then have emission: "emits P d [h] (?zs @ xs) e" by (rule emits_skip [OF step])
      have own: "?V r = map (in_sub spath) (toc_views P d parent k sdir spath sremap)"
        using is_sub p False s by (simp add: record_views_def)
      have sub_of: "map view_of ?zs = map (in_sub spath) (toc_views P d parent k sdir spath sremap)"
        using ys(2) by (fastforce simp: neq_Nil_conv sub_views [symmetric] view_of_def in_sub_def index_emission_def
            currentDirectory_def currentTocPath_def currentRemapKey_def)
      have final: "index_emission tocPath (?zs @ xs)" using ys(2) xs(2) Cons.prems(6)
        by (auto simp: index_emission_def advance_def)
      show ?thesis by (rule result [OF emission final]) (simp only: map_append sub_of views list.map concat.simps own)
    qed
  qed
qed

lemma emits_views:
  assumes parent: "\<not> key_empty parent"
  shows "toc_wf P d parent k dir tocPath \<Longrightarrow> map_of (dk_tocs d) tocPath = Some rs \<Longrightarrow> opened P rs h \<Longrightarrow>
    th_position h = 1 \<Longrightarrow> th_directory h = dir \<Longrightarrow> th_tocPath h = tocPath \<Longrightarrow> th_parentKey h = parent \<Longrightarrow>
    \<exists>xs e. emits P d [h] xs e \<and> index_emission tocPath xs \<and>
      map view_of xs = toc_views P d parent k dir tocPath (th_remapKey h)"
proof (induction k arbitrary: dir tocPath rs h)
  case (Suc k)
  from Suc.prems(1,2) obtain r0 rest where rs: "rs = r0 # rest" "list_all record_ok rest"
      "list_all (sub_ok P d parent k (masked_set P {} rs) dir) rest"
    by (auto simp: toc_wf_records split: option.splits list.splits)
  have "drop (th_position h) rs = rest" using Suc.prems(4) rs(1) by simp
  note left = this
  have "\<exists>xs e. emits P d [h] xs e \<and> index_emission tocPath xs \<and> map view_of xs =
      concat (map (record_views P d parent k (masked_set P {} rs) dir tocPath (th_remapKey h)) rest)"
    by (rule emits_rest [OF _ parent rs(2,3) Suc.prems(3) left Suc.prems(5-7) refl]) (rule Suc.IH)
  then show ?case using Suc.prems(2) rs(1) by (simp add: toc_views_records toc_content_def Let_def)
qed simp

section \<open>\<open>loadIndexes\<close> against the specification\<close>

lemma scan_emits:
  assumes "emits P d hs xs e"
  shows "\<exists>N. \<forall>n \<ge> N. \<forall>m > length xs. \<forall>s. scan (readNext P d n default_flags) step m hs s =
    bindE (foldE (\<lambda>(r, hs). step r hs) xs s) (\<lambda>s. Inr (s, e))"
  using assms
proof (induction rule: emits.induct)
  case (emits_end hs hs')
  then obtain N where N: "\<And>n. n \<ge> N \<Longrightarrow> readNext P d n default_flags hs = Inr (None, hs')"
    by (auto simp: reads_def)
  have "scan (readNext P d n default_flags) step m hs s = Inr (s, hs')" if "n \<ge> N" "m > 0" for n m s
    using N [OF that(1)] that(2) by (cases m) simp_all
  then show ?case by (intro exI [where x = N]) simp
next
  case (emits_next hs r hs1 xs hs')
  from emits_next(1) obtain N where N: "\<And>n. n \<ge> N \<Longrightarrow> readNext P d n default_flags hs = Inr (Some r, hs1)"
    by (auto simp: reads_def)
  from emits_next.IH obtain M where M: "\<And>n m s. n \<ge> M \<Longrightarrow> m > length xs \<Longrightarrow>
      scan (readNext P d n default_flags) step m hs1 s = bindE (foldE (\<lambda>(r, hs). step r hs) xs s) (\<lambda>s. Inr (s, hs'))"
    by blast
  have "scan (readNext P d n default_flags) step m hs s =
      bindE (foldE (\<lambda>(r, hs). step r hs) ((r, hs1) # xs) s) (\<lambda>s. Inr (s, hs'))"
    if large: "n \<ge> max M N" "m > length ((r, hs1) # xs)" for n m s
  proof -
    obtain k where k: "m = Suc k" "k > length xs" using large(2) by (cases m) auto
    have "step r hs1 s' = step r hs1 s'" for s' ..
    moreover have "scan (readNext P d n default_flags) step k hs1 =
        (\<lambda>s. bindE (foldE (\<lambda>(r, hs). step r hs) xs s) (\<lambda>s. Inr (s, hs')))"
      using M [of n k] large(1) k(2) by auto
    ultimately show ?thesis using N [of n] large(1) by (simp add: k(1) bindE_assoc)
  qed
  then show ?case by blast
qed

text \<open>Making the index of a visible record.\<close>

definition load_view ::
    "path_ops \<Rightarrow> ('i, 'w) index_loader \<Rightarrow> toc_view \<Rightarrow> 'i loaded list \<times> 'w \<Rightarrow> ('i loaded list \<times> 'w) res" where
  "load_view P load v = (\<lambda>(is, w).
     bindE (read_str (tr_payload (tv_record v))) (\<lambda>(path, items).
     bindE (read_num items) (\<lambda>(offset, items).
     bindE (read_str items) (\<lambda>(type, items).
     bindE (load (tr_version (tv_record v)) (tv_directory v) (po_join P (tv_directory v) path) offset items w) (\<lambda>(index, w).
       Inr (is @ [\<lparr>ld_index = index, ld_inSubtoc = (tv_subToc v \<noteq> None), ld_remapKey = tv_remapKey v\<rparr>], w))))))"

definition view_subTocs :: "toc_view list \<Rightarrow> string set" where
  "view_subTocs vs = {p. Some p \<in> tv_subToc ` set vs}"

definition state_of :: "nat \<Rightarrow> nat option \<Rightarrow> string set \<Rightarrow> 'i loaded list \<times> 'w \<Rightarrow> ('i, 'w) load_state" where
  "state_of count uid subs = (\<lambda>(is, w). \<lparr>ls_indexes = is, ls_subTocs = subs, ls_count = count, ls_uid = uid, ls_world = w\<rparr>)"

lemma load_step_view:
  assumes "tr_tag r = TOC_INDEX"
  shows "load_step P load r hs (state_of count uid subs iw) =
    bindE (load_view P load (view_of (r, hs)) iw)
      (\<lambda>iw. Inr (state_of (count + 1) uid (subs \<union> view_subTocs [view_of (r, hs)]) iw))"
  using assms
  by (cases iw) (auto simp: load_step_def load_index_def load_view_def state_of_def view_of_def Let_def
      bindE_assoc case_prod_unfold view_subTocs_def intro!: bindE_cong split: list.splits)

lemma load_fold_views:
  assumes "index_emission p xs"
  shows "foldE (\<lambda>(r, hs). load_step P load r hs) xs (state_of count uid subs iw) =
    bindE (foldE (load_view P load) (map view_of xs) iw)
      (\<lambda>iw. Inr (state_of (count + length xs) uid (subs \<union> view_subTocs (map view_of xs)) iw))"
  using assms
proof (induction xs arbitrary: count subs iw)
  case (Cons x xs)
  obtain r hs where x: "x = (r, hs)" by (cases x)
  have "tr_tag r = TOC_INDEX" and xs: "index_emission p xs" using Cons.prems by (auto simp: x index_emission_def)
  then show ?case
    by (simp add: x load_step_view Cons.IH [OF xs] bindE_assoc del: map_map)
      (auto intro!: bindE_cong simp: state_of_def view_subTocs_def case_prod_unfold)
qed (simp add: view_subTocs_def)

lemma load_all_views:
  assumes h: "th_cache h = None" "key_empty (th_parentKey h)"
    and toc: "map_of (dk_tocs d) (th_tocPath h) = Some rs"
    and parent: "\<not> key_empty (init_key (hd rs))"
    and wf: "toc_wf P d (init_key (hd rs)) k (th_directory h) (th_tocPath h)"
  shows "\<exists>N h'. (\<forall>n \<ge> N. loadIndexes n P d load h w =
      bindE (foldE (load_view P load) (toc_views P d (init_key (hd rs)) k (th_directory h) (th_tocPath h) (th_remapKey h)) ([], w))
        (\<lambda>(is, w). Inr (rev is,
           view_subTocs (toc_views P d (init_key (hd rs)) k (th_directory h) (th_tocPath h) (th_remapKey h)), h', w))) \<and>
    th_dbUID h' = Some (tr_uid (hd rs)) \<and>
    th_count h' = Suc (length (toc_views P d (init_key (hd rs)) k (th_directory h) (th_tocPath h) (th_remapKey h)))"
proof -
  let ?key = "init_key (hd rs)"
  let ?views = "toc_views P d ?key k (th_directory h) (th_tocPath h) (th_remapKey h)"
  have rs: "records_ok rs" by (rule toc_wf_file [OF wf]) (use toc in auto)
  let ?h = "h\<lparr>th_cache := Some rs, th_position := 0, th_masked := {}, th_enumerated := False\<rparr>"
  have start: "at_start P rs ?h" by (simp add: at_start_def)
  let ?f = "first_state P rs ?h"
  have f: "opened P rs ?f" "th_position ?f = 1" "th_directory ?f = th_directory h" "th_tocPath ?f = th_tocPath h"
      "th_parentKey ?f = ?key" "th_remapKey ?f = th_remapKey h"
    using opened_first [OF start] h(2) by (simp_all add: first_state_def enumerate_def)
  obtain xs e where xs: "emits P d [?f] xs e" and ix: "index_emission (th_tocPath h) xs" and views: "map view_of xs = ?views"
    using emits_views [OF parent wf toc f(1-5)] f(6) by auto
  from scan_emits [OF xs, of "load_step P load"] obtain N where N: "\<And>n m s. n \<ge> N \<Longrightarrow> m > length xs \<Longrightarrow>
      scan (readNext P d n default_flags) (load_step P load) m [?f] s =
        bindE (foldE (\<lambda>(r, hs). load_step P load r hs) xs s) (\<lambda>s. Inr (s, e))" by blast
  have init: "tr_tag (hd rs) = TOC_INIT" using rs by (auto simp: records_ok_def init_ok_def)
  let ?h' = "(close_chain e)\<lparr>th_count := Suc (length xs), th_dbUID := Some (tr_uid (hd rs))\<rparr>"
  have "loadIndexes n P d load h w = bindE (foldE (load_view P load) ?views ([], w))
      (\<lambda>(is, w). Inr (rev is, view_subTocs ?views, ?h', w))" if n: "n \<ge> Suc (Suc (max N (length xs)))" for n
  proof -
    obtain m where m: "n = Suc m" "m > length xs" using n by (cases n) auto
    have first: "readNext P d n default_flags [?h] = Inr (Some (hd rs), [?f])"
      unfolding m(1) by (rule readNext_first [OF rs start])
    have "scan (readNext P d n default_flags) (load_step P load) n [?h] (state_of 0 (th_dbUID h) {} ([], w)) =
        scan (readNext P d n default_flags) (load_step P load) m [?f] (state_of 1 (Some (tr_uid (hd rs))) {} ([], w))"
      using first init unfolding m(1) by (simp add: load_step_def state_of_def Let_def)
    also have "\<dots> = bindE (foldE (load_view P load) ?views ([], w))
        (\<lambda>iw. Inr (state_of (Suc (length xs)) (Some (tr_uid (hd rs))) (view_subTocs ?views) iw, e))"
      using N [of n m] n m(2) by (simp add: load_fold_views [OF ix] views bindE_assoc)
    finally have "scan (readNext P d n default_flags) (load_step P load) n [?h] (state_of 0 (th_dbUID h) {} ([], w)) =
        bindE (foldE (load_view P load) ?views ([], w))
        (\<lambda>iw. Inr (state_of (Suc (length xs)) (Some (tr_uid (hd rs))) (view_subTocs ?views) iw, e))" .
    moreover have "path_exists d (th_tocPath h)" using toc by (simp add: path_exists_def)
    ultimately show ?thesis
      using toc h(1)
      by (simp add: loadIndexes_def openForRead_def state_of_def bindE_assoc case_prod_unfold)
  qed
  moreover have "length xs = length ?views" using arg_cong [OF views, of length] by simp
  ultimately show ?thesis by (intro exI [where x = "Suc (Suc (max N (length xs)))"] exI [where x = ?h']) simp
qed

section \<open>Appending a record\<close>

text \<open>The files that are read for a table of contents, through the unmasked sub tocs.\<close>

fun toc_files :: "path_ops \<Rightarrow> disk \<Rightarrow> nat \<Rightarrow> string \<Rightarrow> string \<Rightarrow> string list" where
  "toc_files P d 0 dir tocPath = []"
| "toc_files P d (Suc k) dir tocPath =
     tocPath #
     (let rs = toc_content d tocPath; masked = masked_set P {} rs
      in concat (map (\<lambda>r.
           if tr_tag r = TOC_SUB_TOC then
             (case sub_toc_path P d dir r of
                Inl _ \<Rightarrow> []
              | Inr p \<Rightarrow>
                  if (po_base P p, 0) \<in> masked then []
                  else
                    (case (findRealPath P d (po_dir P p), findRealPath P d p) of
                       (Inr sdir, Inr spath) \<Rightarrow> toc_files P d k sdir spath
                     | _ \<Rightarrow> []))
           else []) (tl rs)))"

definition sub_files :: "path_ops \<Rightarrow> disk \<Rightarrow> nat \<Rightarrow> (string \<times> nat) set \<Rightarrow> string \<Rightarrow> toc_record \<Rightarrow> string list" where
  "sub_files P d k masked dir r =
     (if tr_tag r = TOC_SUB_TOC then
        (case sub_toc_path P d dir r of
           Inl _ \<Rightarrow> []
         | Inr p \<Rightarrow>
             if (po_base P p, 0) \<in> masked then []
             else
               (case (findRealPath P d (po_dir P p), findRealPath P d p) of
                  (Inr sdir, Inr spath) \<Rightarrow> toc_files P d k sdir spath
                | _ \<Rightarrow> []))
      else [])"

lemma toc_files_records:
  "toc_files P d (Suc k) dir tocPath =
     tocPath # concat (map (sub_files P d k (masked_set P {} (toc_content d tocPath)) dir) (tl (toc_content d tocPath)))"
  unfolding toc_files.simps sub_files_def [abs_def] Let_def by (rule refl)

declare toc_files.simps(2) [simp del]

text \<open>Two states of the files that differ in the content of one table of contents.\<close>

definition same_but :: "string \<Rightarrow> disk \<Rightarrow> disk \<Rightarrow> bool" where
  "same_but p d d' \<longleftrightarrow> dk_files d' = dk_files d \<and> map_of (dk_tocs d) p \<noteq> None \<and> map_of (dk_tocs d') p \<noteq> None \<and>
     (\<forall>q. q \<noteq> p \<longrightarrow> map_of (dk_tocs d') q = map_of (dk_tocs d) q)"

lemma same_but_exists: "same_but p d d' \<Longrightarrow> path_exists d' q = path_exists d q"
  by (cases "q = p") (auto simp: same_but_def path_exists_def)

lemma same_but_real_path: "same_but p d d' \<Longrightarrow> findRealPath P d' q = findRealPath P d q"
proof -
  assume same: "same_but p d d'"
  have "real_path_loop P d' n q = real_path_loop P d n q" for n q
    by (induction n arbitrary: q) (simp_all add: same_but_exists [OF same])
  then show ?thesis by (simp only: findRealPath_def)
qed

lemma same_but_sub_path:
  assumes "same_but p d d'"
  shows "sub_toc_path P d' dir r = sub_toc_path P d dir r"
proof -
  have "findRealPath P d' = findRealPath P d" and "path_exists d' = path_exists d"
    using same_but_real_path [OF assms] same_but_exists [OF assms] by (auto intro!: ext)
  then show ?thesis by (simp only: sub_toc_path_def)
qed

lemma same_but_content: "same_but p d d' \<Longrightarrow> q \<noteq> p \<Longrightarrow> toc_content d' q = toc_content d q"
  by (simp add: same_but_def toc_content_def)

lemma same_but_record_views:
  assumes same: "same_but p d d'"
    and IH: "\<And>sdir spath remap. p \<notin> set (toc_files P d k sdir spath) \<Longrightarrow>
      toc_views P d' parent k sdir spath remap = toc_views P d parent k sdir spath remap"
    and free: "p \<notin> set (sub_files P d k masked dir r)"
  shows "record_views P d' parent k masked dir tocPath remap r = record_views P d parent k masked dir tocPath remap r"
proof (cases "tr_tag r = TOC_SUB_TOC")
  case True
  note paths = same_but_sub_path [OF same] same_but_real_path [OF same]
  show ?thesis
  proof (cases "sub_toc_path P d dir r")
    case (Inr q)
    show ?thesis
    proof (cases "(po_base P q, 0) \<in> masked")
      case False
      show ?thesis
      proof (cases "findRealPath P d (po_dir P q)")
        case sdir: (Inr sdir)
        show ?thesis
        proof (cases "findRealPath P d q")
          case spath: (Inr spath)
          have free: "p \<notin> set (toc_files P d k sdir spath)"
            using free True Inr False sdir spath by (simp add: sub_files_def)
          have "k = 0 \<or> spath \<noteq> p" using free by (cases k) (auto simp: toc_files_records)
          then have "k = 0 \<or> sub_remap d' parent spath = sub_remap d parent spath"
            by (auto simp: sub_remap_def same_but_content [OF same])
          then show ?thesis
            using True Inr False sdir spath IH [OF free]
            by (auto simp: record_views_def paths split: sum.splits)
        qed (simp add: record_views_def paths True Inr sdir)
      qed (simp add: record_views_def paths True Inr)
    qed (simp add: record_views_def paths True Inr)
  qed (simp add: record_views_def paths True)
qed (simp add: record_views_def)

lemma same_but_views:
  assumes same: "same_but p d d'"
  shows "p \<notin> set (toc_files P d k dir tocPath) \<Longrightarrow>
    toc_views P d' parent k dir tocPath remap = toc_views P d parent k dir tocPath remap"
proof (induction k arbitrary: dir tocPath remap)
  case (Suc k)
  have "p \<noteq> tocPath" using Suc.prems by (simp add: toc_files_records)
  then have content: "toc_content d' tocPath = toc_content d tocPath" using same_but_content [OF same] by simp
  let ?M = "masked_set P {} (toc_content d tocPath)"
  have "record_views P d' parent k ?M dir tocPath remap r = record_views P d parent k ?M dir tocPath remap r"
    if "r \<in> set (tl (toc_content d tocPath))" for r
    by (rule same_but_record_views [OF same Suc.IH]) (use Suc.prems that in \<open>auto simp: toc_files_records\<close>)
  then show ?case by (simp add: toc_views_records content Let_def cong: map_cong)
qed simp

lemma append_same_but:
  "map_of (dk_tocs d) (th_tocPath h) = Some rs \<Longrightarrow> same_but (th_tocPath h) d (append_records h new d)"
  by (simp add: same_but_def append_records_def)

lemma append_content:
  "map_of (dk_tocs d) (th_tocPath h) = Some rs \<Longrightarrow> toc_content (append_records h new d) (th_tocPath h) = rs @ new"
  by (simp add: toc_content_def append_records_def)

lemma masked_set_append:
  "masked_set P seen (rs @ rs') = masked_set P seen rs \<union> masked_set P (seen \<union> \<Union> (entries_of P ` set rs)) rs'"
  by (induction rs arbitrary: seen) (simp_all add: Un_ac)

text \<open>
  Appending to a file that none of its own sub tocs reads: the records there are contribute as before,
  but for the entries that the new record masks.
\<close>

lemma append_views:
  assumes toc: "map_of (dk_tocs d) (th_tocPath h) = Some rs" and "rs \<noteq> []"
    and apart: "\<forall>r \<in> set (tl rs). th_tocPath h \<notin> set (sub_files P d k M dir r)"
    and M: "M = masked_set P {} (rs @ new)"
  shows "toc_views P (append_records h new d) parent (Suc k) dir (th_tocPath h) remap =
    concat (map (record_views P d parent k M dir (th_tocPath h) remap) (tl rs)) @
    concat (map (record_views P (append_records h new d) parent k M dir (th_tocPath h) remap) new)"
proof -
  let ?d = "append_records h new d"
  have same: "same_but (th_tocPath h) d ?d" by (rule append_same_but [OF toc])
  have "record_views P ?d parent k M dir (th_tocPath h) remap r = record_views P d parent k M dir (th_tocPath h) remap r"
    if "r \<in> set (tl rs)" for r
    by (rule same_but_record_views [OF same same_but_views [OF same]]) (use apart that in auto)
  then show ?thesis
    using assms(2) by (simp add: toc_views_records append_content [OF toc] M Let_def cong: map_cong)
qed

lemma append_twice: "append_records h [b] (append_records h [a] d) = append_records h [a, b] d"
  by (simp add: append_records_def)

text \<open>The entry of a record that a mask can name, and what more masks change.\<close>

definition entry_key :: "path_ops \<Rightarrow> disk \<Rightarrow> string \<Rightarrow> toc_record \<Rightarrow> (string \<times> nat) option" where
  "entry_key P d dir r =
     (if tr_tag r = TOC_INDEX then
        Some (po_base P (po_join P dir (record_path (tr_payload r))), record_offset (tr_payload r))
      else if tr_tag r = TOC_SUB_TOC then
        (case sub_toc_path P d dir r of Inl _ \<Rightarrow> None | Inr p \<Rightarrow> Some (po_base P p, 0))
      else None)"

definition hidden :: "path_ops \<Rightarrow> disk \<Rightarrow> string \<Rightarrow> (string \<times> nat) set \<Rightarrow> toc_record \<Rightarrow> bool" where
  "hidden P d dir X r \<longleftrightarrow> (case entry_key P d dir r of None \<Rightarrow> False | Some x \<Rightarrow> x \<in> X)"

lemma hidden_simps [simp]:
  "\<not> hidden P d dir {} r" "hidden P d dir {x} r \<longleftrightarrow> entry_key P d dir r = Some x"
  by (auto simp: hidden_def split: option.splits)

lemma record_views_mask:
  "record_views P d parent k (M \<union> X) dir tocPath remap r =
     (if hidden P d dir X r then [] else record_views P d parent k M dir tocPath remap r)"
  by (auto simp: record_views_def hidden_def entry_key_def index_view_def split: sum.splits)

lemma record_views_insert:
  "record_views P d parent k (insert x M) dir tocPath remap =
     (\<lambda>r. if entry_key P d dir r = Some x then [] else record_views P d parent k M dir tocPath remap r)"
  using record_views_mask [of P d parent k M "{x}" dir tocPath remap] by (intro ext) simp

lemma sub_files_mask:
  assumes "q \<notin> set (sub_files P d k M dir r)"
  shows "q \<notin> set (sub_files P d k (M \<union> X) dir r)"
proof (cases "tr_tag r = TOC_SUB_TOC")
  case True
  show ?thesis
  proof (cases "sub_toc_path P d dir r")
    case (Inr p)
    with True assms show ?thesis
      by (cases "(po_base P p, 0) \<in> M"; cases "(po_base P p, 0) \<in> X") (simp_all add: sub_files_def)
  next
    case (Inl e)
    with True show ?thesis by (simp add: sub_files_def)
  qed
qed (simp add: sub_files_def)

lemma record_views_hidden:
  "hidden P d dir M r \<Longrightarrow> record_views P d parent k M dir tocPath remap r = []"
  using record_views_mask [of P d parent k M M dir tocPath remap r] by simp

text \<open>No sub toc of the file reads the file itself.\<close>

definition apart :: "path_ops \<Rightarrow> disk \<Rightarrow> nat \<Rightarrow> string \<Rightarrow> string \<Rightarrow> bool" where
  "apart P d k dir tocPath \<longleftrightarrow>
     (let rs = toc_content d tocPath
      in list_all (\<lambda>r. tocPath \<notin> set (sub_files P d k (masked_set P {} rs) dir r)) (tl rs))"

lemma append_views_masking:
  assumes toc: "map_of (dk_tocs d) (th_tocPath h) = Some rs" "rs \<noteq> []"
    and apart: "apart P d k dir (th_tocPath h)"
    and X: "X = clears P (\<Union> (entries_of P ` set rs)) new"
  shows "toc_views P (append_records h [new] d) parent (Suc k) dir (th_tocPath h) remap =
    concat (map (\<lambda>r. if hidden P d dir X r then []
                     else record_views P d parent k (masked_set P {} rs) dir (th_tocPath h) remap r) (tl rs)) @
    record_views P (append_records h [new] d) parent k (masked_set P {} rs \<union> X) dir (th_tocPath h) remap new"
proof -
  have M: "masked_set P {} rs \<union> X = masked_set P {} (rs @ [new])"
    by (simp add: masked_set_append X)
  have "\<forall>r \<in> set (tl rs). th_tocPath h \<notin> set (sub_files P d k (masked_set P {} rs \<union> X) dir r)"
    using apart toc(1) sub_files_mask
    by (simp add: apart_def toc_content_def list_all_iff Let_def)
  then have "toc_views P (append_records h [new] d) parent (Suc k) dir (th_tocPath h) remap =
    concat (map (record_views P d parent k (masked_set P {} rs \<union> X) dir (th_tocPath h) remap) (tl rs)) @
    record_views P (append_records h [new] d) parent k (masked_set P {} rs \<union> X) dir (th_tocPath h) remap new"
    using append_views [OF toc _ M] by simp
  moreover have "record_views P d parent k (masked_set P {} rs \<union> X) dir (th_tocPath h) remap =
      (\<lambda>r. if hidden P d dir X r then []
           else record_views P d parent k (masked_set P {} rs) dir (th_tocPath h) remap r)"
    by (rule ext) (rule record_views_mask)
  ultimately show ?thesis by (simp only:)
qed

section \<open>What the calls leave of a handler\<close>

definition same_id :: "toc_handler \<Rightarrow> toc_handler \<Rightarrow> bool" where
  "same_id a b \<longleftrightarrow> th_tocPath b = th_tocPath a \<and> th_directory b = th_directory a \<and>
     th_version b = th_version a \<and> th_useSubToc b = th_useSubToc a \<and> th_isSubToc b = th_isSubToc a \<and>
     th_remapKey b = th_remapKey a"

lemma populate_same_id: "populateMaskedEntriesList P h = Inr h' \<Longrightarrow> same_id h h'"
  by (auto simp: populateMaskedEntriesList_def bindE_eq_Inr same_id_def)

lemma internal_same_id:
  assumes "readNextInternal h = Inr (r, h')"
  shows "same_id h h'"
proof -
  from assms obtain rs where rs: "unread h = Inr rs" by (auto simp: readNextInternal_def bindE_eq_Inr)
  with assms show ?thesis
    by (cases rs) (auto simp: readNextInternal_def bindE_eq_Inr same_id_def)
qed

text \<open>
  A relation between a handler before and after a read. The locale \<open>handler_relation\<close> is its contract: what the parts of
  \<open>readNext\<close> keep, every read keeps.
\<close>

definition keeps :: "(toc_handler \<Rightarrow> toc_handler \<Rightarrow> bool) \<Rightarrow> toc_handler \<Rightarrow> (toc_record option \<times> chain) res \<Rightarrow> bool" where
  "keeps R h m \<longleftrightarrow> (\<forall>r hs. m = Inr (r, hs) \<longrightarrow> hs \<noteq> [] \<and> R h (hd hs))"

lemma keeps_Inr [simp]: "keeps R h (Inr (r, hs)) \<longleftrightarrow> hs \<noteq> [] \<and> R h (hd hs)"
  by (simp add: keeps_def)

lemma keeps_Inl [simp]: "keeps R h (Inl e)"
  by (simp add: keeps_def)

lemma keeps_bind: "(\<And>x. m = Inr x \<Longrightarrow> keeps R h (f x)) \<Longrightarrow> keeps R h (bindE m f)"
  by (auto simp: keeps_def bindE_eq_Inr)

locale handler_relation =
  fixes R :: "toc_handler \<Rightarrow> toc_handler \<Rightarrow> bool"
  assumes itself: "R h h"
    and later: "R a b \<Longrightarrow> R b c \<Longrightarrow> R a c"
    and populate: "populateMaskedEntriesList P h = Inr h' \<Longrightarrow> R h h'"
    and internal: "readNextInternal h = Inr (r, h') \<Longrightarrow> R h h'"
    and parent: "R h (h\<lparr>th_parentKey := k\<rparr>)"
begin

lemma readNext_keeps: "keeps R h (readNext P d n flags (h # subs))"
proof (induction n arbitrary: flags h subs)
  case (Suc n)
  show ?case
    unfolding readNext.simps(3)
  proof (rule keeps_bind, goal_cases)
    case (1 h1)
    then have id1: "R h h1" using populate itself by (cases "th_enumerated h") auto
    have again: "keeps R h (readNext P d n f (x # xs))" if "R h x" for f x xs
      using Suc.IH [of x f xs] that by (auto simp: keeps_def intro: later)
    have read: "R h h2" if "readNextInternal h1 = Inr (r, h2)" for r h2
      by (rule later [OF id1 internal [OF that]])
    have new_parent: "R h (x\<lparr>th_parentKey := k\<rparr>)" if "R h x" for x k
      by (rule later [OF that parent])
    show ?case
      by (auto intro!: keeps_bind again id1 split: if_splits option.splits prod.splits
          simp: Let_def read new_parent)
  qed
qed simp

lemma key_loop_keeps:
  "key_loop (readNext P d k flags) n hs = Inr (key, uid, hs') \<Longrightarrow> hs \<noteq> [] \<Longrightarrow> hs' \<noteq> [] \<and> R (hd hs) (hd hs')"
proof (induction n arbitrary: hs)
  case (Suc n)
  obtain h subs where hs: "hs = h # subs" using Suc.prems(2) by (cases hs) auto
  obtain r hs1 where r: "readNext P d k flags hs = Inr (r, hs1)"
    using Suc.prems(1) by (auto simp: bindE_eq_Inr)
  then have id1: "hs1 \<noteq> []" "R h (hd hs1)" using readNext_keeps [of h P d k flags subs] hs by (auto simp: keeps_def)
  obtain x where x: "r = Some x" using Suc.prems(1) r by (cases r) auto
  show ?case
  proof (cases "tr_tag x = TOC_INIT")
    case True
    with Suc.prems(1) r x id1 hs show ?thesis by (auto simp: bindE_eq_Inr)
  next
    case False
    with Suc.prems(1) r x have "key_loop (readNext P d k flags) n hs1 = Inr (key, uid, hs')" by simp
    from Suc.IH [OF this id1(1)] id1 hs show ?thesis by (auto intro: later)
  qed
qed simp

end

lemma same_id_trans: "same_id a b \<Longrightarrow> same_id b c \<Longrightarrow> same_id a c"
  by (simp add: same_id_def)

lemma same_id_refl [simp]: "same_id h h"
  by (simp add: same_id_def)

interpretation same_file: handler_relation same_id
  by unfold_locales (auto simp: same_id_def dest: populate_same_id internal_same_id)

text \<open>A read leaves the cache as it is.\<close>

definition same_cache :: "toc_handler \<Rightarrow> toc_handler \<Rightarrow> bool" where
  "same_cache a b \<longleftrightarrow> th_cache b = th_cache a"

lemma internal_same_cache:
  assumes "readNextInternal h = Inr (r, h')"
  shows "same_cache h h'"
proof -
  from assms obtain rs where rs: "unread h = Inr rs" by (auto simp: readNextInternal_def bindE_eq_Inr)
  with assms show ?thesis
    by (cases rs) (auto simp: readNextInternal_def bindE_eq_Inr same_cache_def)
qed

interpretation cached_file: handler_relation same_cache
  by unfold_locales
    (auto simp: same_cache_def populateMaskedEntriesList_def bindE_eq_Inr dest: internal_same_cache [unfolded same_cache_def])

lemmas readNext_same_id = same_file.readNext_keeps
lemmas key_loop_same_id = same_file.key_loop_keeps

lemma openForRead_same_id: "openForRead d h = Inr h' \<Longrightarrow> same_id h h'"
  by (auto simp: openForRead_def same_id_def split: option.splits)

lemma databaseKey_cached:
  assumes "databaseKey n P d h = Inr (key, h')"
  shows "th_cache h' \<noteq> None"
proof -
  obtain h1 uid hs where h1: "openForRead d h = Inr h1" and loop: "key_loop (readNext P d n default_flags) n [h1] = Inr (key, uid, hs)"
    and h': "h' = (hd hs)\<lparr>th_dbUID := Some uid\<rparr>"
    using assms by (auto simp: databaseKey_def database_key_with_def bindE_eq_Inr close_chain_def)
  from h1 have "th_cache h1 \<noteq> None" by (auto simp: openForRead_def split: option.splits)
  with cached_file.key_loop_keeps [OF loop] show ?thesis by (simp add: h' same_cache_def)
qed

text \<open>
  A handler that has read the key of its database cannot be made to write: this is how \<open>TocCatalogueWriter(uri, config)\<close>
  starts, which \<open>fdb-reconsolidate-toc\<close> uses.
\<close>

lemma writeInitRecord_after_key:
  assumes "databaseKey n P d h = Inr (key, h')"
  shows "writeInitRecord n P v e key h' d = Inl (AssertFailed ''(fd != -1) != (!!cached)'')"
  using databaseKey_cached [OF assms] by (auto simp: writeInitRecord_def Let_def assertE_def)

lemma dbUID_same_id: "dbUID n P d h = Inr (uid, h') \<Longrightarrow> same_id h h'"
proof (cases "th_dbUID h")
  case None
  assume "dbUID n P d h = Inr (uid, h')"
  with None obtain h1 key hs where h1: "openForRead d h = Inr h1"
    and loop: "key_loop (readNext P d n default_flags) n [h1] = Inr (key, uid, hs)"
    and h': "h' = (hd hs)\<lparr>th_dbUID := Some uid\<rparr>"
    by (auto simp: dbUID_def bindE_eq_Inr close_chain_def)
  from key_loop_same_id [OF loop] openForRead_same_id [OF h1] show ?thesis by (simp add: h' same_id_def)
qed (simp add: dbUID_def)

lemma openForAppend_same_id:
  assumes "openForAppend n P v d h = Inr h'"
  shows "same_id h h'" and "th_cache h' = None" and "map_of (dk_tocs d) (th_tocPath h) \<noteq> None"
proof -
  obtain h1 where h1: "checkUID n P v d h = Inr h1" and h': "h' = h1\<lparr>th_cache := None\<rparr>"
    and toc: "map_of (dk_tocs d) (th_tocPath h1) \<noteq> None"
    using assms by (auto simp: openForAppend_def bindE_eq_Inr split: if_splits)
  have "same_id h h1"
    using h1 dbUID_same_id by (auto simp: checkUID_def bindE_eq_Inr split: if_splits)
  with toc show "same_id h h'" "th_cache h' = None" "map_of (dk_tocs d) (th_tocPath h) \<noteq> None"
    by (simp_all add: h' same_id_def)
qed

lemma append_records_cong: "th_tocPath h' = th_tocPath h \<Longrightarrow> append_records h' rs d = append_records h rs d"
  by (simp add: append_records_def)

text \<open>The assertion of \<open>appendBlock\<close> never fails for records of the handler.\<close>

lemma appendBlock_aligned:
  assumes "round_law P" and "\<forall>r \<in> set rs. \<exists>v version tag payload. r = make_record P v version tag payload"
  shows "appendBlock n P v rs h d = bindE (openForAppend n P v d h) (\<lambda>h. Inr (h, append_records h rs d))"
proof -
  have "tr_size r mod po_round P = 0" if "r \<in> set rs" for r
    using that assms by (auto simp: make_record_def roundRecord_def round_law_def)
  then have "sum_list (map tr_size rs) mod po_round P = 0"
    by (induction rs) (auto simp: mod_add_eq [symmetric])
  then show ?thesis by (simp add: appendBlock_def)
qed

text \<open>What the writers of one record do to the files.\<close>

lemma appendBlock_files:
  assumes "appendBlock n P v [r] h d = Inr (h', d')"
  shows "same_id h h' \<and> d' = append_records h [r] d"
proof -
  from assms obtain h1 where h1: "openForAppend n P v d h = Inr h1" and h': "h' = h1" "d' = append_records h1 [r] d"
    by (auto simp: appendBlock_def bindE_eq_Inr)
  from openForAppend_same_id(1) [OF h1] show ?thesis
    by (simp add: h' append_records_def same_id_def)
qed

section \<open>Properties\<close>

text \<open>
  C8: \<open>loadIndexes\<close> implements the specification: for a file that can be read to some depth of sub tocs,
  and with enough fuel, it makes the indexes of the visible records, in the order of the file and of
  the sub tocs in it, and returns them last record first, each with the key it is remapped with; the sub
  tocs it names are those that led to an index, and the handler learns the owner of the database and
  the number of records that were read.
\<close>
theorem loadIndexes_refines:
  assumes "th_cache h = None" and "key_empty (th_parentKey h)"
    and "map_of (dk_tocs d) (th_tocPath h) = Some rs" and "\<not> key_empty (init_key (hd rs))"
    and "toc_wf P d (init_key (hd rs)) k (th_directory h) (th_tocPath h)"
    and "views = toc_views P d (init_key (hd rs)) k (th_directory h) (th_tocPath h) (th_remapKey h)"
  shows "\<exists>N h'. (\<forall>n \<ge> N. loadIndexes n P d load h w =
      bindE (foldE (load_view P load) views ([], w)) (\<lambda>(is, w). Inr (rev is, view_subTocs views, h', w))) \<and>
    th_dbUID h' = Some (tr_uid (hd rs)) \<and> th_count h' = Suc (length views)"
  unfolding assms(6) by (rule load_all_views [OF assms(1-5)])

lemma write_index_views:
  assumes "map_of (dk_tocs d) (th_tocPath h) = Some rs" and "rs \<noteq> []"
    and "apart P d k (th_directory h) (th_tocPath h)" and "\<not> th_useSubToc h"
    and "writeIndexRecord n P v e unique i (h, sub) d = Inr ((h', sub'), d')"
    and "(po_base P (po_join P (th_directory h) (po_base P (ir_path i))), ir_offset i) \<notin> masked_set P {} rs"
  shows "\<exists>r. build_index_record P v (th_version h) i = Inr r \<and> sub' = sub \<and>
    toc_views P d' parent (Suc k) (th_directory h) (th_tocPath h) remap =
      toc_views P d parent (Suc k) (th_directory h) (th_tocPath h) remap @
      [\<lparr>tv_record = r, tv_directory = th_directory h, tv_tocPath = th_tocPath h, tv_remapKey = remap, tv_subToc = None\<rparr>]"
proof -
  from assms(4,5) obtain h1 r where h1: "openForAppend n P v d h = Inr h1" and r: "build_index_record P v (th_version h1) i = Inr r"
    and d': "d' = append_records h1 [r] d" and sub': "sub' = sub"
    by (auto simp: writeIndexRecord_def write_index_here_def bindE_eq_Inr)
  note id1 = openForAppend_same_id(1) [OF h1]
  have d': "d' = append_records h [r] d" using id1 by (simp add: d' append_records_def same_id_def)
  have r': "tr_tag r = TOC_INDEX" "record_path (tr_payload r) = po_base P (ir_path i)" "record_offset (tr_payload r) = ir_offset i"
    using r by (auto simp: build_index_record_def make_record_def bindE_eq_Inr)
  have X: "clears P (\<Union> (entries_of P ` set rs)) r = {}" using r' by (simp add: clears_def)
  have "toc_views P d' parent (Suc k) (th_directory h) (th_tocPath h) remap =
      concat (map (record_views P d parent k (masked_set P {} rs) (th_directory h) (th_tocPath h) remap) (tl rs)) @
      record_views P d' parent k (masked_set P {} rs) (th_directory h) (th_tocPath h) remap r"
    using append_views_masking [OF assms(1-3) X [symmetric], of parent remap]
    by (simp add: d')
  moreover have "record_views P d' parent k (masked_set P {} rs) (th_directory h) (th_tocPath h) remap r =
      [\<lparr>tv_record = r, tv_directory = th_directory h, tv_tocPath = th_tocPath h, tv_remapKey = remap, tv_subToc = None\<rparr>]"
    using assms(6) r' by (simp add: record_views_def index_view_def)
  ultimately show ?thesis
    using r id1 sub' assms(1) by (simp add: toc_views_records toc_content_def same_id_def Let_def)
qed

text \<open>
  C20: Without sub tocs, an index that is written becomes visible, and is the one read first: after \<open>writeIndexRecord\<close>
  of a handler that does not write to a sub toc, the visible records are those from before, and behind them the new one,
  which holds what the index encoded; nothing else changes. The toc has its first record and is not among its own sub tocs,
  and the entry of the index is not one that an earlier record masks.
\<close>
theorem writeIndexRecord_visible:
  assumes "map_of (dk_tocs d) (th_tocPath h) = Some rs" and "rs \<noteq> []"
    and "apart P d k (th_directory h) (th_tocPath h)" and "\<not> th_useSubToc h"
    and "writeIndexRecord n P v e unique i (h, sub) d = Inr ((h', sub'), d')"
    and "(po_base P (po_join P (th_directory h) (po_base P (ir_path i))), ir_offset i) \<notin> masked_set P {} rs"
  shows "\<exists>r. build_index_record P v (th_version h) i = Inr r \<and> sub' = sub \<and>
    toc_views P d' parent (Suc k) (th_directory h) (th_tocPath h) remap =
      toc_views P d parent (Suc k) (th_directory h) (th_tocPath h) remap @
      [\<lparr>tv_record = r, tv_directory = th_directory h, tv_tocPath = th_tocPath h, tv_remapKey = remap, tv_subToc = None\<rparr>]"
  by (rule write_index_views [OF assms])

text \<open>
  C32: A clear record hides exactly what it names: after \<open>writeClearRecord\<close> the index with that file name
  and offset, and a sub toc of that name when the offset is zero, contribute nothing any more, and every
  other record contributes what it did.
\<close>
theorem writeClearRecord_hides:
  assumes "map_of (dk_tocs d) (th_tocPath h) = Some rs" and "rs \<noteq> []"
    and "apart P d k (th_directory h) (th_tocPath h)"
    and "writeClearRecord n P v indexPath offset h d = Inr (h', d')"
    and "po_base P indexPath \<noteq> ''*''" and "po_base P (po_base P indexPath) = po_base P indexPath"
  shows "toc_views P d' parent (Suc k) (th_directory h) (th_tocPath h) remap =
    concat (map (\<lambda>r. if entry_key P d (th_directory h) r = Some (po_base P indexPath, offset) then []
                     else record_views P d parent k (masked_set P {} rs) (th_directory h) (th_tocPath h) remap r) (tl rs))"
proof -
  let ?r = "clear_record P v (th_version h) (po_base P indexPath) offset"
  have d': "d' = append_records h [?r] d"
    using appendBlock_files [of n P v ?r h d h' d'] assms(4) by (simp add: writeClearRecord_def)
  have X: "{(po_base P indexPath, offset)} = clears P (\<Union> (entries_of P ` set rs)) ?r"
    using assms(5,6) by (simp add: clears_def clear_record_def make_record_def)
  have "record_views P d' parent k M dir toc remap ?r = []" for M dir toc
    by (simp add: record_views_def clear_record_def make_record_def)
  then show ?thesis
    unfolding d' append_views_masking [OF assms(1-3) X]
    by (simp add: d')
qed

text \<open>
  \<open>writeClearAllRecord\<close> hides everything: when the records name files the way the code writes them,
  no index of the file or of its sub tocs is visible afterwards.
\<close>
lemma writeClearAllRecord_hides:
  assumes "map_of (dk_tocs d) (th_tocPath h) = Some rs" and "rs \<noteq> []"
    and "apart P d k (th_directory h) (th_tocPath h)"
    and "writeClearAllRecord n P v h d = Inr (h', d')"
    and "\<forall>r \<in> set (tl rs). \<forall>x. entry_key P d (th_directory h) r = Some x \<longrightarrow> x \<in> entries_of P r"
  shows "toc_views P d' parent (Suc k) (th_directory h) (th_tocPath h) remap = []"
proof -
  let ?r = "clear_record P v (th_version h) ''*'' 0"
  let ?X = "\<Union> (entries_of P ` set rs)"
  have d': "d' = append_records h [?r] d"
    using appendBlock_files [of n P v ?r h d h' d'] assms(4) by (simp add: writeClearAllRecord_def)
  have X: "?X = clears P ?X ?r" by (simp add: clears_def clear_record_def make_record_def)
  have "hidden P d (th_directory h) ?X r \<or> record_views P d parent k M (th_directory h) (th_tocPath h) remap r = []"
    if "r \<in> set (tl rs)" for r M
  proof (cases "entry_key P d (th_directory h) r")
    case None
    then show ?thesis by (auto simp: entry_key_def record_views_def split: if_splits sum.splits)
  next
    case (Some x)
    then have "x \<in> entries_of P r" using assms(5) that by blast
    moreover have "r \<in> set rs" using that by (rule list.set_sel(2) [OF assms(2)])
    ultimately have "x \<in> ?X" by blast
    with Some show ?thesis by (simp add: hidden_def)
  qed
  moreover have "record_views P d' parent k M (th_directory h) (th_tocPath h) remap ?r = []" for M
    by (simp add: record_views_def clear_record_def make_record_def)
  ultimately show ?thesis
    unfolding d' append_views_masking [OF assms(1-3) X] by (auto simp: d')
qed

text \<open>
  C21: Masks go by the name of a file alone, and for all later records: once a sub toc is masked,
  every sub toc whose file has the same name is hidden, and a sub toc of that name that is written
  afterwards never becomes visible. The file of every database is called \<open>toc\<close>, so unmounting one
  overlay unmounts them all, and no overlay can be mounted again.
\<close>
theorem subToc_mask_by_name:
  assumes "map_of (dk_tocs d) (th_tocPath h) = Some rs" and "rs \<noteq> []"
    and "apart P d k (th_directory h) (th_tocPath h)"
    and "writeSubTocMaskRecord n P v sub h d = Inr (h1, d1)"
    and "writeSubTocRecord m P v sub2 h1 d1 = Inr (h2, d2)"
    and "po_base P (sub_toc_name P h sub) = name" and "sub_toc_name P h sub \<noteq> ''*''"
    and "\<And>r p. sub_toc_path P d2 (th_directory h) r = Inr p \<Longrightarrow> po_base P p = po_base P (record_path (tr_payload r))"
    and "po_base P (sub_toc_name P h sub2) = name"
  shows "toc_views P d2 parent (Suc k) (th_directory h) (th_tocPath h) remap =
    concat (map (\<lambda>r. if entry_key P d (th_directory h) r = Some (name, 0) then []
                     else record_views P d parent k (masked_set P {} rs) (th_directory h) (th_tocPath h) remap r) (tl rs))"
proof -
  let ?c = "clear_record P v (th_version h) (sub_toc_name P h sub) 0"
  let ?s = "make_record P v (th_version h) TOC_SUB_TOC [IStr (sub_toc_name P h sub2), INum 0]"
  let ?M = "masked_set P {} rs"
  have id1: "same_id h h1" and d1: "d1 = append_records h [?c] d"
    using appendBlock_files [of n P v ?c h d h1 d1] assms(4) by (simp_all add: writeSubTocMaskRecord_def)
  obtain h3 where h3: "openForAppend m P v d1 h1 = Inr h3"
    and d2: "d2 = append_records h3 [make_record P v (th_version h3) TOC_SUB_TOC [IStr (sub_toc_name P h3 sub2), INum 0]] d1"
    using assms(5) by (auto simp: writeSubTocRecord_def bindE_eq_Inr)
  have "same_id h h3" using id1 openForAppend_same_id(1) [OF h3] by (rule same_id_trans)
  then have d2: "d2 = append_records h [?c, ?s] d"
    unfolding append_twice [symmetric] d1 [symmetric] d2
    by (simp add: append_records_def same_id_def sub_toc_name_def)
  have c: "record_views P d2 parent k X dir toc remap ?c = []" for X dir toc
    by (simp add: record_views_def clear_record_def make_record_def)
  have M: "?M \<union> {(name, 0)} = masked_set P {} (rs @ [?c, ?s])"
    using assms(6,7) by (simp add: masked_set_append clears_def clear_record_def make_record_def)
  have apart: "\<forall>r \<in> set (tl rs). th_tocPath h \<notin> set (sub_files P d k (?M \<union> {(name, 0)}) (th_directory h) r)"
    using assms(1,3) sub_files_mask [where X = "{(name, 0)}"]
    by (simp only: apart_def toc_content_def list_all_iff Let_def option.case) blast
  have "record_views P d2 parent k (?M \<union> {(name, 0)}) (th_directory h) (th_tocPath h) remap ?s = []"
  proof (cases "sub_toc_path P d2 (th_directory h) ?s")
    case (Inr p)
    then have "po_base P p = name" using assms(8) [OF Inr] assms(9) by (simp add: make_record_def)
    with Inr show ?thesis by (simp add: record_views_def make_record_def)
  next
    case (Inl e)
    then show ?thesis by (simp add: record_views_def make_record_def)
  qed
  with append_views [OF assms(1,2) apart M, of parent remap] c show ?thesis
    by (simp add: d2 [symmetric]) (simp only: record_views_insert)
qed

text \<open>
  The readers that do not hide the records of sub tocs, \<open>numberOfRecords\<close>, \<open>subTocPaths\<close> and \<open>dump\<close>,
  cannot read a sub toc within a sub toc: as soon as the inner one is to be returned, the assertion of
  the outer call fails, whatever the fuel. A mounted database that has sub tocs of its own does this.
\<close>
lemma nested_subToc_asserts:
  assumes "th_enumerated h" and "opened P rs s" and "drop (th_position s) rs = r # rest" and "record_ok r"
    and "tr_tag r = TOC_SUB_TOC" and "sub_toc_path P d (th_directory s) r = Inr p"
    and "(po_base P p, 0) \<notin> masked_set P {} rs"
    and "findRealPath P d (po_dir P p) = Inr sdir" and "findRealPath P d p = Inr spath"
    and "map_of (dk_tocs d) spath = Some srs" and "records_ok srs"
    and "remap_key (th_parentKey s) (init_key (hd srs)) = Inr remap"
    and "rf_walkSubTocs flags" and "\<not> rf_hideSubTocEntries flags"
  shows "readNext P d (Suc (Suc (Suc n))) flags [h, s] =
    Inl (AssertFailed ''r.header_.tag_ != TocRecord::TOC_SUB_TOC'')"
proof -
  obtain sub where made: "\<And>n. sub_handler (readNext P d (Suc n) default_flags) (Suc n) P d (th_version s) p (th_parentKey s) = Inr sub"
      "openForRead d sub = Inr (sub\<lparr>th_position := 0\<rparr>)"
    using sub_handler_ok [OF assms(8-12), of "th_version s"] by blast
  have "th_enumerated s" "th_masked s = masked_set P {} rs" using assms(2) by (simp_all add: opened_def)
  then have "readNext P d (Suc (Suc n)) flags [s] = Inr (Some r, [advance s, sub\<lparr>th_position := 0\<rparr>])"
    using assms(5-7,13,14) made
    by (simp add: readNext.simps(3) [of P d "Suc n"] readNextInternal_at [OF assms(2-4)])
      (simp add: advance_def)
  then show ?thesis
    using assms(1,5,13) by (simp add: readNext.simps(3) [of P d "Suc (Suc n)"])
qed

section \<open>Concrete inputs\<close>

text \<open>A database with one index and one mounted database with another one.\<close>

definition sample_paths :: path_ops where
  "sample_paths = \<lparr>po_base = (\<lambda>p. rev (takeWhile (\<lambda>c. c \<noteq> CHR ''/'') (rev p))),
     po_dir = (\<lambda>p. rev (tl (dropWhile (\<lambda>c. c \<noteq> CHR ''/'') (rev p)))),
     po_join = (\<lambda>d b. d @ CHR ''/'' # b), po_real = (\<lambda>p. p), po_bytes = length,
     po_header = 112, po_round = 1024, po_roundUp = (\<lambda>x n. (x + n - 1) div n * n)\<rparr>"

definition sample_record :: "char \<Rightarrow> item list \<Rightarrow> toc_record" where
  "sample_record tag payload = \<lparr>tr_tag = tag, tr_version = 2, tr_uid = 7, tr_size = 1024, tr_payload = payload\<rparr>"

definition sample_init :: "string \<Rightarrow> toc_record" where
  "sample_init v = sample_record TOC_INIT
     [INum 1, IStr ''class'', IStr v, INum 1, IStr ''class'', IStr [], IBool False]"

definition sample_toc :: "toc_record list" where
  "sample_toc = [sample_init ''od'', sample_record TOC_INDEX [IStr ''a'', INum 0, IStr ''BTree''],
     sample_record TOC_SUB_TOC [IStr ''/ov/toc'', INum 0]]"

definition sample_overlay :: "toc_record list" where
  "sample_overlay = [sample_init ''rd'', sample_record TOC_INDEX [IStr ''b'', INum 8, IStr ''BTree'']]"

definition sample_disk :: disk where
  "sample_disk = \<lparr>dk_tocs = [(''/db/toc'', sample_toc), (''/ov/toc'', sample_overlay)], dk_files = [''/db'', ''/ov'']\<rparr>"

definition sample_handler :: toc_handler where
  "sample_handler = \<lparr>th_directory = ''/db'', th_tocPath = ''/db/toc'', th_parentKey = new_key None,
     th_remapKey = new_key None, th_version = 2, th_useSubToc = False, th_isSubToc = False,
     th_cache = None, th_position = 0, th_count = 0, th_masked = {}, th_enumerated = False, th_dbUID = Some 7\<rparr>"

definition sample_env :: toc_env where
  "sample_env = \<lparr>te_onlyCreator = False, te_superUsers = [], te_uid = 7, te_userName = (\<lambda>_. [])\<rparr>"

definition od_dict_key :: "string \<Rightarrow> key" where
  "od_dict_key v = \<lparr>key_dict = [(''class'', v)], key_names = [''class''], key_registry = None, key_canonical = True\<rparr>"

lemma sample_init_key: "init_ok (sample_init v)" "init_key (sample_init v) = od_dict_key v"
  by (simp_all add: init_ok_def init_key_def sample_init_def sample_record_def supported_versions_def
      decode_key_def read_pair_def od_dict_key_def numeral_eq_Suc)

lemma sample_records_ok: "records_ok sample_toc" "records_ok sample_overlay"
  by (simp_all add: records_ok_def sample_toc_def sample_overlay_def sample_init_key)
    (simp_all add: record_ok_def sample_record_def supported_versions_def)

lemmas sample_defs = sample_paths_def sample_disk_def sample_handler_def sample_record_def sample_env_def

lemma sample_masks: "masked_set P {} sample_toc = {}" "masked_set P {} sample_overlay = {}"
  by (simp_all add: sample_toc_def sample_overlay_def clears_def sample_init_def sample_record_def)

lemma sample_tocs:
  "map_of (dk_tocs sample_disk) ''/db/toc'' = Some sample_toc"
  "map_of (dk_tocs sample_disk) ''/ov/toc'' = Some sample_overlay"
  "toc_content sample_disk ''/db/toc'' = sample_toc"
  "toc_content sample_disk ''/ov/toc'' = sample_overlay"
  by (simp_all add: sample_disk_def toc_content_def)

lemma sample_path:
  "findRealPath sample_paths sample_disk ''/ov'' = Inr ''/ov''"
  "findRealPath sample_paths sample_disk ''/ov/toc'' = Inr ''/ov/toc''"
  "sub_toc_path sample_paths sample_disk ''/db'' (sample_record TOC_SUB_TOC [IStr ''/ov/toc'', INum 0]) = Inr ''/ov/toc''"
  "po_base sample_paths ''/ov/toc'' = ''toc''" "po_dir sample_paths ''/ov/toc'' = ''/ov''"
  by (simp_all add: findRealPath_def path_exists_def sample_defs sub_toc_path_def read_path_def)

lemma sample_remap: "sub_remap sample_disk (od_dict_key ''od'') ''/ov/toc'' = Inr (set_key ''class'' ''od'' (new_key None))"
proof -
  have "hd sample_overlay = sample_init ''rd''" by (simp add: sample_overlay_def)
  then show ?thesis
    by (simp add: sub_remap_def sample_tocs sample_overlay_def sample_init_key)
      (simp add: remap_key_def od_dict_key_def key_empty_def key_eq_def key_size_def remap_step_def key_find_def)
qed

lemma sample_wf: "toc_wf sample_paths sample_disk (od_dict_key ''od'') 2 ''/db'' ''/db/toc''"
proof -
  have ov: "toc_wf sample_paths sample_disk (od_dict_key ''od'') (Suc 0) ''/ov'' ''/ov/toc''"
    using sample_records_ok(2)
    by (simp add: toc_wf_records sample_tocs records_ok_def sample_masks [unfolded sample_overlay_def]
        sample_overlay_def sub_ok_def) (simp add: sample_record_def)
  show ?thesis
    using sample_records_ok(1) ov
    by (simp add: numeral_2_eq_2 toc_wf_records sample_tocs records_ok_def sample_masks [unfolded sample_toc_def]
        sample_toc_def sub_ok_def sample_path sample_remap) (simp add: sample_record_def)
qed

lemma sample_views:
  "toc_views sample_paths sample_disk (od_dict_key ''od'') 2 ''/db'' ''/db/toc'' (new_key None) =
    [\<lparr>tv_record = sample_record TOC_INDEX [IStr ''a'', INum 0, IStr ''BTree''], tv_directory = ''/db'',
       tv_tocPath = ''/db/toc'', tv_remapKey = new_key None, tv_subToc = None\<rparr>,
     \<lparr>tv_record = sample_record TOC_INDEX [IStr ''b'', INum 8, IStr ''BTree''], tv_directory = ''/ov'',
       tv_tocPath = ''/ov/toc'', tv_remapKey = set_key ''class'' ''od'' (new_key None), tv_subToc = Some ''/ov/toc''\<rparr>]"
proof -
  have ov: "toc_views sample_paths sample_disk (od_dict_key ''od'') (Suc 0) ''/ov'' ''/ov/toc'' remap =
    [\<lparr>tv_record = sample_record TOC_INDEX [IStr ''b'', INum 8, IStr ''BTree''], tv_directory = ''/ov'',
       tv_tocPath = ''/ov/toc'', tv_remapKey = remap, tv_subToc = None\<rparr>]" for remap
    by (simp add: toc_views_records sample_tocs sample_masks Let_def)
      (simp add: sample_overlay_def record_views_def index_view_def sample_record_def)
  have sub: "record_views sample_paths sample_disk (od_dict_key ''od'') (Suc 0) {} ''/db'' ''/db/toc'' (new_key None)
      (sample_record TOC_SUB_TOC [IStr ''/ov/toc'', INum 0]) =
    [\<lparr>tv_record = sample_record TOC_INDEX [IStr ''b'', INum 8, IStr ''BTree''], tv_directory = ''/ov'',
       tv_tocPath = ''/ov/toc'', tv_remapKey = set_key ''class'' ''od'' (new_key None), tv_subToc = Some ''/ov/toc''\<rparr>]"
    by (simp add: record_views_def sample_path sample_remap ov in_sub_def) (simp add: sample_record_def)
  have own: "record_views sample_paths sample_disk (od_dict_key ''od'') (Suc 0) {} ''/db'' ''/db/toc'' (new_key None)
      (sample_record TOC_INDEX [IStr ''a'', INum 0, IStr ''BTree'']) =
    [\<lparr>tv_record = sample_record TOC_INDEX [IStr ''a'', INum 0, IStr ''BTree''], tv_directory = ''/db'',
       tv_tocPath = ''/db/toc'', tv_remapKey = new_key None, tv_subToc = None\<rparr>]"
    by (simp add: record_views_def index_view_def sample_record_def)
  show ?thesis
    by (simp add: numeral_2_eq_2 toc_views_records sample_tocs sample_masks Let_def)
      (simp add: sample_toc_def own sub)
qed

lemma sample_apart: "apart sample_paths sample_disk 1 ''/db'' ''/db/toc''"
proof -
  have ov: "toc_files sample_paths sample_disk (Suc 0) ''/ov'' ''/ov/toc'' = [''/ov/toc'']"
    by (simp add: toc_files_records sample_tocs sample_overlay_def sub_files_def sample_record_def)
  have "sub_files sample_paths sample_disk (Suc 0) {} ''/db'' (sample_record TOC_SUB_TOC [IStr ''/ov/toc'', INum 0]) = [''/ov/toc'']"
    by (simp add: sub_files_def sample_path ov) (simp add: sample_record_def)
  moreover have "sub_files sample_paths sample_disk (Suc 0) {} ''/db'' (sample_record TOC_INDEX [IStr ''a'', INum 0, IStr ''BTree'']) = []"
    by (simp add: sub_files_def sample_record_def)
  moreover have "tl sample_toc = [sample_record TOC_INDEX [IStr ''a'', INum 0, IStr ''BTree''],
      sample_record TOC_SUB_TOC [IStr ''/ov/toc'', INum 0]]"
    by (simp add: sample_toc_def)
  ultimately show ?thesis
    by (simp only: apart_def sample_tocs sample_masks Let_def One_nat_def) simp
qed

lemma sample_facts:
  "th_cache sample_handler = None" "key_empty (th_parentKey sample_handler)"
  "map_of (dk_tocs sample_disk) (th_tocPath sample_handler) = Some sample_toc"
  "\<not> key_empty (init_key (hd sample_toc))" "sample_toc \<noteq> []" "\<not> th_useSubToc sample_handler"
  "init_key (hd sample_toc) = od_dict_key ''od''" "th_directory sample_handler = ''/db''"
  "th_tocPath sample_handler = ''/db/toc''" "th_remapKey sample_handler = new_key None"
  by (simp_all add: sample_handler_def sample_tocs new_key_def key_empty_def sample_toc_def sample_init_key od_dict_key_def)

definition sample_loader :: "(string \<times> nat, unit) index_loader" where
  "sample_loader version dir path offset items w = Inr ((path, offset), w)"

lemma loadIndexes_refines_witness:
  "\<exists>N h'. (\<forall>n \<ge> N. loadIndexes n sample_paths sample_disk sample_loader sample_handler () =
     Inr ([\<lparr>ld_index = (''/ov/b'', 8), ld_inSubtoc = True, ld_remapKey = set_key ''class'' ''od'' (new_key None)\<rparr>,
           \<lparr>ld_index = (''/db/a'', 0), ld_inSubtoc = False, ld_remapKey = new_key None\<rparr>], {''/ov/toc''}, h', ())) \<and>
     th_dbUID h' = Some 7 \<and> th_count h' = 3"
proof -
  note views = sample_views [symmetric]
  have init: "tr_uid (hd sample_toc) = 7" by (simp add: sample_toc_def sample_init_def sample_record_def)
  let ?vs = "toc_views sample_paths sample_disk (od_dict_key ''od'') 2 ''/db'' ''/db/toc'' (new_key None)"
  have fold: "foldE (load_view sample_paths sample_loader) ?vs ([], ()) =
      Inr ([\<lparr>ld_index = (''/db/a'', 0), ld_inSubtoc = False, ld_remapKey = new_key None\<rparr>,
            \<lparr>ld_index = (''/ov/b'', 8), ld_inSubtoc = True, ld_remapKey = set_key ''class'' ''od'' (new_key None)\<rparr>], ())"
    unfolding sample_views by (simp add: load_view_def sample_record_def sample_loader_def sample_paths_def)
  have subs: "view_subTocs ?vs = {''/ov/toc''}" and count: "length ?vs = 2"
    unfolding sample_views by (auto simp: view_subTocs_def)
  from loadIndexes_refines [OF sample_facts(1-4), of sample_paths 2 ?vs sample_loader "()"] sample_wf init fold subs count
  show ?thesis by (simp add: sample_facts(7-10) numeral_3_eq_3)
qed

definition sample_index :: index_record where
  "sample_index = \<lparr>ir_path = ''/db/c'', ir_offset = 5, ir_type = ''BTree'', ir_encode = (\<lambda>v. Inr [])\<rparr>"

lemma sample_append:
  "openForAppend n sample_paths sample_env sample_disk sample_handler = Inr sample_handler"
  by (simp add: openForAppend_def checkUID_def sample_env_def sample_handler_def sample_tocs)

lemma sample_round_law: "round_law sample_paths"
proof -
  have "x \<le> (x + 1024 - 1) div 1024 * 1024" for x :: nat
    using minus_mod_eq_div_mult [of "x + 1023" 1024] mod_less_divisor [of 1024 "x + 1023"] by linarith
  then show ?thesis by (simp add: round_law_def sample_paths_def)
qed

lemma sample_block:
  "appendBlock n sample_paths sample_env [make_record sample_paths v ver tag payload] sample_handler sample_disk =
     Inr (sample_handler, append_records sample_handler [make_record sample_paths v ver tag payload] sample_disk)"
  by (subst appendBlock_aligned [OF sample_round_law]) (auto simp: sample_append)

lemma writeIndexRecord_visible_witness:
  "\<exists>d' r. writeIndexRecord 3 sample_paths sample_env ref_ext ''u'' sample_index (sample_handler, None) sample_disk =
       Inr ((sample_handler, None), d') \<and>
     build_index_record sample_paths sample_env 2 sample_index = Inr r \<and>
     toc_views sample_paths d' (od_dict_key ''od'') 2 ''/db'' ''/db/toc'' (new_key None) =
       toc_views sample_paths sample_disk (od_dict_key ''od'') 2 ''/db'' ''/db/toc'' (new_key None) @
       [\<lparr>tv_record = r, tv_directory = ''/db'', tv_tocPath = ''/db/toc'', tv_remapKey = new_key None, tv_subToc = None\<rparr>]"
proof -
  let ?r = "make_record sample_paths sample_env 2 TOC_INDEX [IStr ''c'', INum 5, IStr ''BTree'']"
  have version: "th_version sample_handler = 2" by (simp add: sample_handler_def)
  have base: "po_base sample_paths ''/db/c'' = ''c''" by (simp add: sample_paths_def)
  have "build_index_record sample_paths sample_env (th_version sample_handler) sample_index = Inr ?r"
    by (simp add: build_index_record_def sample_index_def base version)
  then have written: "writeIndexRecord 3 sample_paths sample_env ref_ext ''u'' sample_index (sample_handler, None) sample_disk =
      Inr ((sample_handler, None), append_records sample_handler [?r] sample_disk)"
    using sample_facts(6) by (simp add: writeIndexRecord_def write_index_here_def sample_append)
  have apart: "apart sample_paths sample_disk 1 (th_directory sample_handler) (th_tocPath sample_handler)"
    using sample_apart by (simp add: sample_facts)
  from writeIndexRecord_visible [OF sample_facts(3,5) apart sample_facts(6) written, of "od_dict_key ''od''" "new_key None"] written
  show ?thesis by (simp add: sample_masks sample_facts(7-10) version numeral_2_eq_2)
qed

lemma writeClearRecord_hides_witness:
  "\<exists>d'. writeClearRecord 3 sample_paths sample_env ''/db/a'' 0 sample_handler sample_disk = Inr (sample_handler, d') \<and>
     toc_views sample_paths d' (od_dict_key ''od'') 2 ''/db'' ''/db/toc'' (new_key None) =
       tl (toc_views sample_paths sample_disk (od_dict_key ''od'') 2 ''/db'' ''/db/toc'' (new_key None))"
proof -
  have base: "po_base sample_paths ''/db/a'' = ''a''" "po_base sample_paths ''a'' = ''a''"
    by (simp_all add: sample_paths_def)
  obtain d' where written: "writeClearRecord 3 sample_paths sample_env ''/db/a'' 0 sample_handler sample_disk = Inr (sample_handler, d')"
    by (simp add: writeClearRecord_def clear_record_def sample_block)
  have apart: "apart sample_paths sample_disk 1 (th_directory sample_handler) (th_tocPath sample_handler)"
    using sample_apart by (simp add: sample_facts)
  let ?i = "sample_record TOC_INDEX [IStr ''a'', INum 0, IStr ''BTree'']"
  let ?s = "sample_record TOC_SUB_TOC [IStr ''/ov/toc'', INum 0]"
  have tl: "tl sample_toc = [?i, ?s]" by (simp add: sample_toc_def)
  have keys: "entry_key sample_paths sample_disk ''/db'' ?i = Some (''a'', 0)"
      "entry_key sample_paths sample_disk ''/db'' ?s = Some (''toc'', 0)"
    by (simp_all add: entry_key_def sample_path) (simp_all add: sample_record_def sample_paths_def)
  have own: "record_views sample_paths sample_disk (od_dict_key ''od'') (Suc 0) {} ''/db'' ''/db/toc'' (new_key None) ?i =
      [hd (toc_views sample_paths sample_disk (od_dict_key ''od'') 2 ''/db'' ''/db/toc'' (new_key None))]"
    unfolding sample_views by (simp add: record_views_def index_view_def sample_record_def)
  have all: "toc_views sample_paths sample_disk (od_dict_key ''od'') 2 ''/db'' ''/db/toc'' (new_key None) =
      record_views sample_paths sample_disk (od_dict_key ''od'') (Suc 0) {} ''/db'' ''/db/toc'' (new_key None) ?i @
      record_views sample_paths sample_disk (od_dict_key ''od'') (Suc 0) {} ''/db'' ''/db/toc'' (new_key None) ?s"
    by (simp add: numeral_2_eq_2 toc_views_records sample_tocs sample_masks tl Let_def)
  from writeClearRecord_hides [OF sample_facts(3,5) apart written, of "od_dict_key ''od''" "new_key None"]
  have "toc_views sample_paths d' (od_dict_key ''od'') 2 ''/db'' ''/db/toc'' (new_key None) =
      record_views sample_paths sample_disk (od_dict_key ''od'') (Suc 0) {} ''/db'' ''/db/toc'' (new_key None) ?s"
    by (simp add: base sample_masks tl keys numeral_2_eq_2 sample_facts(8,9))
  moreover have "tl (toc_views sample_paths sample_disk (od_dict_key ''od'') 2 ''/db'' ''/db/toc'' (new_key None)) =
      record_views sample_paths sample_disk (od_dict_key ''od'') (Suc 0) {} ''/db'' ''/db/toc'' (new_key None) ?s"
    using all own by (metis append_Cons append_Nil list.sel(3))
  ultimately show ?thesis using written by simp
qed

lemma writeClearAllRecord_hides_witness:
  "\<exists>d'. writeClearAllRecord 3 sample_paths sample_env sample_handler sample_disk = Inr (sample_handler, d') \<and>
     toc_views sample_paths d' (od_dict_key ''od'') 2 ''/db'' ''/db/toc'' (new_key None) = []"
proof -
  obtain d' where written: "writeClearAllRecord 3 sample_paths sample_env sample_handler sample_disk = Inr (sample_handler, d')"
    by (simp add: writeClearAllRecord_def clear_record_def sample_block)
  have apart: "apart sample_paths sample_disk 1 (th_directory sample_handler) (th_tocPath sample_handler)"
    using sample_apart by (simp add: sample_facts)
  have names: "\<forall>r \<in> set (tl sample_toc). \<forall>x. entry_key sample_paths sample_disk (th_directory sample_handler) r = Some x \<longrightarrow>
      x \<in> entries_of sample_paths r"
    by (simp add: sample_toc_def entry_key_def sample_path sample_facts(8))
      (simp add: sample_record_def sample_paths_def entries_of_def)
  from writeClearAllRecord_hides [OF sample_facts(3,5) apart written names, of "od_dict_key ''od''" "new_key None"] written
  show ?thesis by (simp add: sample_facts(8,9) numeral_2_eq_2)
qed

lemma sample_base_join: "po_base sample_paths (po_join sample_paths d b) = po_base sample_paths b"
proof (cases "CHR ''/'' \<in> set b")
  case True
  then show ?thesis by (simp add: sample_paths_def takeWhile_append1)
next
  case False
  then have "takeWhile (\<lambda>c. c \<noteq> CHR ''/'') (rev b @ ys) = rev b @ takeWhile (\<lambda>c. c \<noteq> CHR ''/'') ys" for ys
    by (intro takeWhile_append2) auto
  from this [of "CHR ''/'' # rev d"] this [of "[]"]
  have "takeWhile (\<lambda>c. c \<noteq> CHR ''/'') (rev b @ CHR ''/'' # rev d) = takeWhile (\<lambda>c. c \<noteq> CHR ''/'') (rev b)"
    by (simp only: takeWhile.simps append_Nil2) simp
  then show ?thesis by (simp add: sample_paths_def)
qed

lemma sample_base_base: "po_base sample_paths (po_base sample_paths b) = po_base sample_paths b"
proof -
  have "takeWhile Q (takeWhile Q xs) = takeWhile Q xs" for Q and xs :: string
    by (induction xs) (auto dest: set_takeWhileD)
  then show ?thesis by (simp add: sample_paths_def)
qed

lemma sample_base_real: "findRealPath sample_paths d p = Inr q \<Longrightarrow> po_base sample_paths q = po_base sample_paths p"
proof -
  have "real_path_loop sample_paths d n p = Inr q \<Longrightarrow> po_base sample_paths q = po_base sample_paths p" for n
  proof (cases n)
    case (Suc m)
    assume "real_path_loop sample_paths d n p = Inr q"
    then show ?thesis
      by (auto simp: Suc bindE_eq_Inr sample_base_join sample_base_base split: if_splits) (simp add: sample_paths_def)
  qed simp
  then show "findRealPath sample_paths d p = Inr q \<Longrightarrow> po_base sample_paths q = po_base sample_paths p"
    by (simp only: findRealPath_def)
qed

lemma sample_base_sub:
  assumes "sub_toc_path sample_paths d dir r = Inr p"
  shows "po_base sample_paths p = po_base sample_paths (record_path (tr_payload r))"
proof -
  obtain path where path: "read_path r = Inr path" using assms by (auto simp: sub_toc_path_def bindE_eq_Inr)
  then have "record_path (tr_payload r) = path"
    by (cases "tr_payload r" rule: record_path.cases) (auto simp: read_path_def)
  with assms path show ?thesis
    by (auto simp: sub_toc_path_def bindE_eq_Inr assertE_def sample_base_join sample_base_base sample_base_real split: if_splits)
qed

lemma subToc_mask_by_name_witness:
  "\<exists>d1 d2. writeSubTocMaskRecord 3 sample_paths sample_env (sample_handler\<lparr>th_tocPath := ''/ov/toc''\<rparr>) sample_handler sample_disk =
       Inr (sample_handler, d1) \<and>
     writeSubTocRecord 3 sample_paths sample_env (sample_handler\<lparr>th_tocPath := ''/other/toc''\<rparr>) sample_handler d1 =
       Inr (sample_handler, d2) \<and>
     toc_views sample_paths d2 (od_dict_key ''od'') 2 ''/db'' ''/db/toc'' (new_key None) =
       [hd (toc_views sample_paths sample_disk (od_dict_key ''od'') 2 ''/db'' ''/db/toc'' (new_key None))]"
proof -
  let ?sub = "sample_handler\<lparr>th_tocPath := ''/ov/toc''\<rparr>"
  let ?sub2 = "sample_handler\<lparr>th_tocPath := ''/other/toc''\<rparr>"
  have names: "sub_toc_name sample_paths sample_handler ?sub = ''/ov/toc''"
      "sub_toc_name sample_paths sample_handler ?sub2 = ''/other/toc''"
      "po_base sample_paths ''/ov/toc'' = ''toc''" "po_base sample_paths ''/other/toc'' = ''toc''"
    by (simp_all add: sub_toc_name_def sample_paths_def sample_handler_def)
  obtain d1 where d1: "writeSubTocMaskRecord 3 sample_paths sample_env ?sub sample_handler sample_disk = Inr (sample_handler, d1)"
    and d1': "d1 = append_records sample_handler [clear_record sample_paths sample_env 2 ''/ov/toc'' 0] sample_disk"
    by (simp add: writeSubTocMaskRecord_def clear_record_def sample_block names(1)) (simp add: sample_handler_def)
  have "openForAppend 3 sample_paths sample_env d1 sample_handler = Inr sample_handler"
    by (simp add: openForAppend_def checkUID_def sample_env_def d1' append_records_def) (simp add: sample_handler_def)
  then obtain d2 where d2: "writeSubTocRecord 3 sample_paths sample_env ?sub2 sample_handler d1 = Inr (sample_handler, d2)"
    by (simp add: writeSubTocRecord_def)
  have apart: "apart sample_paths sample_disk 1 (th_directory sample_handler) (th_tocPath sample_handler)"
    using sample_apart by (simp add: sample_facts)
  have hyps: "po_base sample_paths (sub_toc_name sample_paths sample_handler ?sub) = ''toc''"
      "sub_toc_name sample_paths sample_handler ?sub \<noteq> ''*''"
      "po_base sample_paths (sub_toc_name sample_paths sample_handler ?sub2) = ''toc''"
    by (simp_all add: names)
  let ?i = "sample_record TOC_INDEX [IStr ''a'', INum 0, IStr ''BTree'']"
  let ?s = "sample_record TOC_SUB_TOC [IStr ''/ov/toc'', INum 0]"
  have tl: "tl sample_toc = [?i, ?s]" by (simp add: sample_toc_def)
  have keys: "entry_key sample_paths sample_disk ''/db'' ?i = Some (''a'', 0)"
      "entry_key sample_paths sample_disk ''/db'' ?s = Some (''toc'', 0)"
    by (simp_all add: entry_key_def sample_path) (simp_all add: sample_record_def sample_paths_def)
  have own: "record_views sample_paths sample_disk (od_dict_key ''od'') (Suc 0) {} ''/db'' ''/db/toc'' (new_key None) ?i =
      [hd (toc_views sample_paths sample_disk (od_dict_key ''od'') 2 ''/db'' ''/db/toc'' (new_key None))]"
    unfolding sample_views by (simp add: record_views_def index_view_def sample_record_def)
  from subToc_mask_by_name [OF sample_facts(3,5) apart d1 d2 hyps(1,2) sample_base_sub hyps(3),
      where parent = "od_dict_key ''od''" and remap = "new_key None"]
  have "toc_views sample_paths d2 (od_dict_key ''od'') 2 ''/db'' ''/db/toc'' (new_key None) =
      record_views sample_paths sample_disk (od_dict_key ''od'') (Suc 0) {} ''/db'' ''/db/toc'' (new_key None) ?i"
    by (simp add: sample_masks tl keys numeral_2_eq_2 sample_facts(8,9))
  with d1 d2 own show ?thesis by auto
qed

lemma nested_subToc_asserts_witness:
  "readNext sample_paths sample_disk 3 (default_flags\<lparr>rf_hideSubTocEntries := False\<rparr>)
     [sample_handler\<lparr>th_enumerated := True\<rparr>,
      sample_handler\<lparr>th_enumerated := True, th_cache := Some sample_toc, th_position := 2, th_parentKey := od_dict_key ''od''\<rparr>] =
   Inl (AssertFailed ''r.header_.tag_ != TocRecord::TOC_SUB_TOC'')"
proof -
  let ?s = "sample_handler\<lparr>th_enumerated := True, th_cache := Some sample_toc, th_position := 2, th_parentKey := od_dict_key ''od''\<rparr>"
  let ?r = "sample_record TOC_SUB_TOC [IStr ''/ov/toc'', INum 0]"
  have "opened sample_paths sample_toc ?s" by (simp add: opened_def sample_masks) (simp add: sample_handler_def)
  moreover have "drop (th_position ?s) sample_toc = ?r # []" by (simp add: sample_toc_def)
  moreover have "record_ok ?r" "tr_tag ?r = TOC_SUB_TOC" by (simp_all add: record_ok_def sample_record_def supported_versions_def)
  moreover have "sub_toc_path sample_paths sample_disk (th_directory ?s) ?r = Inr ''/ov/toc''"
    using sample_path(3) by (simp add: sample_facts(8))
  moreover have "(po_base sample_paths ''/ov/toc'', 0) \<notin> masked_set sample_paths {} sample_toc" by (simp add: sample_masks)
  moreover have "findRealPath sample_paths sample_disk (po_dir sample_paths ''/ov/toc'') = Inr ''/ov''"
    by (simp only: sample_path)
  moreover have "remap_key (th_parentKey ?s) (init_key (hd sample_overlay)) = Inr (set_key ''class'' ''od'' (new_key None))"
    using sample_remap by (simp add: sub_remap_def sample_tocs) (simp add: sample_overlay_def)
  ultimately show ?thesis
    using nested_subToc_asserts [OF _ _ _ _ _ _ _ _ sample_path(2) sample_tocs(2) sample_records_ok(2), of
        "sample_handler\<lparr>th_enumerated := True\<rparr>" sample_toc ?s ?r "[]" "''/ov''" "set_key ''class'' ''od'' (new_key None)"
        "default_flags\<lparr>rf_hideSubTocEntries := False\<rparr>" 0]
    by (simp add: numeral_3_eq_3)
qed

end
