(* ===== verification/FDB_Index.thy ===== *)
theory FDB_Index
  imports FDB_Axis FDB_Field FDB_Toc
begin

text \<open>
  The index of the fields of one database (\<open>src/fdb5/database/Index.{h,cc}\<close>,
  \<open>src/fdb5/toc/TocIndex.{h,cc}\<close>, \<open>src/fdb5/toc/BTreeIndex.cc\<close>): the axes, the URIs of the data files,
  and a B-tree from the values of a key to the reference of a field. The B-tree is the library's
  \<open>eckit::BTree\<close>; the record \<open>btree_lib\<close> holds its operations on the files of trees, and
  \<open>btree_laws\<close> what the code relies on. The laws speak of a file system on which opening and reading do not
  fail: an error of input or output ends an operation with the exception of the library.
\<close>

section \<open>The library's B-trees\<close>

text \<open>
  A tree is at an offset of a file. A tree that is open for writing keeps its pages in memory: the
  first argument of \<open>bl_get\<close> and \<open>bl_range\<close> is \<open>readOnly\<close>, and a read-only tree shows what was
  flushed. \<open>bl_key\<close> is the constructor of \<open>FixedString\<close>, \<open>bl_size\<close> the size of a file.
\<close>

type_synonym tree_place = "string \<times> nat"

record 's btree_lib =
  bl_key :: "nat \<Rightarrow> string \<Rightarrow> string res"
  bl_open :: "nat \<Rightarrow> string \<Rightarrow> bool \<Rightarrow> nat \<Rightarrow> 's \<Rightarrow> 's res"
  bl_get :: "bool \<Rightarrow> tree_place \<Rightarrow> string \<Rightarrow> 's \<Rightarrow> field_ref option"
  bl_set :: "tree_place \<Rightarrow> string \<Rightarrow> field_ref \<Rightarrow> 's \<Rightarrow> 's"
  bl_flush :: "tree_place \<Rightarrow> 's \<Rightarrow> 's"
  bl_sync :: "tree_place \<Rightarrow> 's \<Rightarrow> 's"
  bl_range :: "bool \<Rightarrow> tree_place \<Rightarrow> string \<Rightarrow> string \<Rightarrow> 's \<Rightarrow> (string \<times> field_ref) list"
  bl_size :: "string \<Rightarrow> 's \<Rightarrow> nat"

text \<open>What no operation on one tree does to another: its contents stay, and no file shrinks.\<close>

definition tree_frame :: "'s btree_lib \<Rightarrow> tree_place set \<Rightarrow> 's \<Rightarrow> 's \<Rightarrow> bool" where
  "tree_frame L ps s s' \<longleftrightarrow>
     (\<forall>r p k. p \<notin> ps \<longrightarrow> bl_get L r p k s' = bl_get L r p k s) \<and> (\<forall>f. bl_size L f s \<le> bl_size L f s')"

definition btree_laws :: "'s btree_lib \<Rightarrow> bool" where
  "btree_laws L \<longleftrightarrow>
     (\<forall>n k. length k \<le> n \<and> CHR 0x00 \<notin> set k \<longrightarrow> bl_key L n k = Inr k) \<and>
     (\<forall>f off r k s. bl_size L f s \<le> off \<longrightarrow> bl_get L r (f, off) k s = None) \<and>
     (\<forall>n f off s. bl_size L f s \<le> off \<longrightarrow>
        (\<exists>s'. bl_open L n f False off s = Inr s' \<and> tree_frame L {} s s' \<and> off < bl_size L f s')) \<and>
     (\<forall>n f off s. off < bl_size L f s \<longrightarrow> (\<exists>s'. bl_open L n f True off s = Inr s' \<and> tree_frame L {} s s')) \<and>
     (\<forall>p k v s. tree_frame L {p} s (bl_set L p k v s) \<and>
        (\<forall>j. bl_get L False p j (bl_set L p k v s) = (if j = k then Some v else bl_get L False p j s))) \<and>
     (\<forall>p s. tree_frame L {p} s (bl_flush L p s) \<and>
        (\<forall>r j. bl_get L r p j (bl_flush L p s) = bl_get L False p j s)) \<and>
     (\<forall>p s. tree_frame L {} s (bl_sync L p s)) \<and>
     (\<forall>r p lo hi s. set (bl_range L r p lo hi s) = {(k, v). bl_get L r p k s = Some v \<and> lo \<le> k \<and> k \<le> hi})"

section \<open>The classes of B-trees\<close>

text \<open>
  What \<open>BTreeIndexFactory\<close> builds: the size of the keys, the size of the records, and whether the
  payload is \<open>FieldRefReduced\<close>.
\<close>

record tree_class =
  tc_keySize :: nat
  tc_recSize :: nat
  tc_reduced :: bool

definition tree_32_65536_reduced :: tree_class where
  "tree_32_65536_reduced = \<lparr>tc_keySize = 32, tc_recSize = 65536, tc_reduced = True\<rparr>"

definition tree_32_65536_full :: tree_class where
  "tree_32_65536_full = \<lparr>tc_keySize = 32, tc_recSize = 65536, tc_reduced = False\<rparr>"

definition tree_32_4194304_reduced :: tree_class where
  "tree_32_4194304_reduced = \<lparr>tc_keySize = 32, tc_recSize = 4194304, tc_reduced = True\<rparr>"

definition tree_classes :: "(string \<times> tree_class) list" where
  "tree_classes =
     [(''BTreeIndex_32_65536_FieldRefReduced'', tree_32_65536_reduced),
      (''BTreeIndex_32_65536_FieldRefFull'', tree_32_65536_full),
      (''BTreeIndex_32_4194304_FieldRefReduced'', tree_32_4194304_reduced),
      (''BTreeIndex'', tree_32_65536_reduced),
      (''PointDBIndex'', tree_32_65536_full),
      (''BTreeIndex4MB'', tree_32_4194304_reduced)]"

definition build_tree :: "'s btree_lib \<Rightarrow> string \<Rightarrow> string \<Rightarrow> bool \<Rightarrow> nat \<Rightarrow> 's \<Rightarrow> (tree_class \<times> 's) res" where
  "build_tree L name path readOnly offset s =
     (case map_of tree_classes name of
        None \<Rightarrow> Inl (SeriousBug ''No IndexFactory called'')
      | Some c \<Rightarrow> bindE (bl_open L (tc_recSize c) path readOnly offset s) (\<lambda>s. Inr (c, s)))"

definition tree_get :: "'s btree_lib \<Rightarrow> tree_class \<Rightarrow> bool \<Rightarrow> tree_place \<Rightarrow> string \<Rightarrow> 's \<Rightarrow> field_ref option res" where
  "tree_get L c readOnly p key s =
     bindE (bl_key L (tc_keySize c) key) (\<lambda>k.
       Inr (map_option (\<lambda>payload. if tc_reduced c then reduce_ref payload else payload) (bl_get L readOnly p k s)))"

definition tree_set :: "'s btree_lib \<Rightarrow> tree_class \<Rightarrow> tree_place \<Rightarrow> string \<Rightarrow> field_ref \<Rightarrow> 's \<Rightarrow> 's res" where
  "tree_set L c p key data s =
     bindE (bl_key L (tc_keySize c) key) (\<lambda>k.
       Inr (bl_set L p k (if tc_reduced c then reduce_ref data else data) s))"

text \<open>\<open>visit\<close> asks for the range from \<open>""\<close> to \<open>"\255"\<close>; the escape is octal, the character 173.\<close>

definition range_end :: string where
  "range_end = [CHR 0xAD]"

definition tree_visit :: "'s btree_lib \<Rightarrow> tree_class \<Rightarrow> bool \<Rightarrow> tree_place \<Rightarrow> 's \<Rightarrow> (string \<times> field_ref) list" where
  "tree_visit L c readOnly p s =
     map (\<lambda>(k, v). (k, if tc_reduced c then reduce_ref v else v)) (bl_range L readOnly p [] range_end s)"

section \<open>The base of an index\<close>

record index_base =
  ib_type :: string
  ib_axes :: axis
  ib_key :: key
  ib_timestamp :: nat

text \<open>\<open>IndexBase(key, type)\<close> leaves the time stamp uninitialised; it is an argument here.\<close>

definition new_base :: "nat \<Rightarrow> key \<Rightarrow> string \<Rightarrow> index_base" where
  "new_base garbage key type = \<lparr>ib_type = type, ib_axes = new_axis, ib_key = key, ib_timestamp = garbage\<rparr>"

definition encode_base_current :: "ext \<Rightarrow> 'd dense \<Rightarrow> 'd world \<Rightarrow> index_base \<Rightarrow> nat \<Rightarrow> item list res" where
  "encode_base_current e D w b version =
     bindE (assertE (3 \<le> version) ''version >= 3'') (\<lambda>_.
     bindE (encode_axis D w (ib_axes b) version) (\<lambda>as.
     bindE (encode_key e (ib_key b)) (\<lambda>ks.
       Inr (as @ [IObject, IStr ''key''] @ ks @
            [IStr ''type'', IStr (ib_type b), IStr ''time'', INum (ib_timestamp b), IEnd]))))"

definition encode_base_legacy :: "ext \<Rightarrow> 'd dense \<Rightarrow> 'd world \<Rightarrow> index_base \<Rightarrow> nat \<Rightarrow> item list res" where
  "encode_base_legacy e D w b version =
     bindE (assertE (version \<le> 2) ''version <= 2'') (\<lambda>_.
     bindE (encode_axis D w (ib_axes b) version) (\<lambda>as.
     bindE (encode_key e (ib_key b)) (\<lambda>ks.
     bindE (valuesToString e (ib_key b)) (\<lambda>vs.
       Inr (as @ ks @ [IStr vs, IStr (ib_type b)])))))"

definition encode_base :: "ext \<Rightarrow> 'd dense \<Rightarrow> 'd world \<Rightarrow> index_base \<Rightarrow> nat \<Rightarrow> item list res" where
  "encode_base e D w b version =
     (if 3 \<le> version then encode_base_current e D w b version else encode_base_legacy e D w b version)"

datatype index_field = IndexKeyUnrecognised | IndexKey | IndexType | IndexTimestamp

definition keyId :: "string \<Rightarrow> index_field" where
  "keyId s =
     (case map_of [(''key'', IndexKey), (''type'', IndexType), (''time'', IndexTimestamp)] s of
        Some f \<Rightarrow> f | None \<Rightarrow> IndexKeyUnrecognised)"

text \<open>The loop over the fields of the object; each turn reads the name of a field.\<close>

fun base_fields :: "nat \<Rightarrow> index_base \<Rightarrow> item list \<Rightarrow> (index_base \<times> item list) res" where
  "base_fields 0 b is = Inl (LibraryError ''fuel'')"
| "base_fields (Suc n) b is =
     (case is of
        IEnd # rest \<Rightarrow> Inr (b, rest)
      | _ \<Rightarrow>
          bindE (read_str is) (\<lambda>(k, is).
            case keyId k of
              IndexKey \<Rightarrow> bindE (decode_key is) (\<lambda>(key, is). base_fields n (b\<lparr>ib_key := key\<rparr>) is)
            | IndexType \<Rightarrow> bindE (read_str is) (\<lambda>(t, is). base_fields n (b\<lparr>ib_type := t\<rparr>) is)
            | IndexTimestamp \<Rightarrow> bindE (read_num is) (\<lambda>(t, is). base_fields n (b\<lparr>ib_timestamp := t\<rparr>) is)
            | IndexKeyUnrecognised \<Rightarrow> Inl (SeriousBug ''IndexBase de-serialization error'')))"

definition decode_base_current ::
    "'d dense \<Rightarrow> nat \<Rightarrow> nat \<Rightarrow> 'd world \<Rightarrow> item list \<Rightarrow> (index_base \<times> 'd world \<times> item list) res" where
  "decode_base_current D garbage version w is =
     bindE (assertE (3 \<le> version) ''version >= 3'') (\<lambda>_.
     bindE (decode_axis D version (new_axis, w, is)) (\<lambda>(a, w, is).
     bindE (case is of IObject # rest \<Rightarrow> Inr rest | _ \<Rightarrow> Inl (AssertFailed ''s.next()'')) (\<lambda>is.
     bindE (base_fields (Suc (length is)) ((new_base garbage (new_key None) [])\<lparr>ib_axes := a\<rparr>) is) (\<lambda>(b, is).
     bindE (assertE (\<not> key_empty (ib_key b)) ''!key_.empty()'') (\<lambda>_.
     bindE (assertE (ib_type b \<noteq> []) ''!type_.empty()'') (\<lambda>_.
     bindE (assertE (ib_timestamp b \<noteq> 0) ''timestamp_'') (\<lambda>_. Inr (b, w, is))))))))"

definition decode_base_legacy ::
    "'d dense \<Rightarrow> nat \<Rightarrow> 'd world \<Rightarrow> item list \<Rightarrow> (index_base \<times> 'd world \<times> item list) res" where
  "decode_base_legacy D version w is =
     bindE (assertE (version \<le> 2) ''version <= 2'') (\<lambda>_.
     bindE (decode_axis D version (new_axis, w, is)) (\<lambda>(a, w, is).
     bindE (decode_key is) (\<lambda>(k, is).
     bindE (read_str is) (\<lambda>(_, is).
     bindE (read_str is) (\<lambda>(t, is).
       Inr (\<lparr>ib_type = t, ib_axes = a, ib_key = k, ib_timestamp = 0\<rparr>, w, is))))))"

definition decode_base ::
    "'d dense \<Rightarrow> nat \<Rightarrow> nat \<Rightarrow> 'd world \<Rightarrow> item list \<Rightarrow> (index_base \<times> 'd world \<times> item list) res" where
  "decode_base D garbage version w is =
     (if 3 \<le> version then decode_base_current D garbage version w is else decode_base_legacy D version w is)"

definition base_partialMatch :: "'d dense \<Rightarrow> 'd world \<Rightarrow> index_base \<Rightarrow> mars_request \<Rightarrow> bool res" where
  "base_partialMatch D w b rq =
     (if \<not> partialMatch (ib_key b) rq then Inr False
      else bindE (axis_partialMatch D w (ib_axes b) rq) (\<lambda>m. if \<not> m then Inr False else Inr True))"

definition mayContain :: "ext \<Rightarrow> 'd dense \<Rightarrow> 'd world \<Rightarrow> index_base \<Rightarrow> key \<Rightarrow> bool res" where
  "mayContain e D w b key = axis_contains e D w (ib_axes b) key"

section \<open>The index of a table of contents\<close>

text \<open>
  What the members of an index work on: the registry of axes, the files of the B-trees and the clock;
  and the libraries.
\<close>

record ('d, 's) stores =
  sx_world :: "'d world"
  sx_trees :: 's
  sx_now :: nat

record ('u, 'd, 's) index_env =
  ie_ext :: ext
  ie_dense :: "'d dense"
  ie_uris :: "'u uri_ops"
  ie_lib :: "'s btree_lib"
  ie_builders :: location_builders
  ie_paths :: path_ops

text \<open>\<open>tx_btree\<close> is the class of the tree that \<open>btree_\<close> points to, if any.\<close>

record 'u toc_index =
  tx_files :: "'u uri_store"
  tx_base :: index_base
  tx_btree :: "tree_class option"
  tx_dirty :: bool
  tx_readMode :: bool
  tx_path :: string
  tx_offset :: nat
  tx_preload :: bool

definition tx_place :: "'u toc_index \<Rightarrow> tree_place" where
  "tx_place i = (tx_path i, tx_offset i)"

definition new_toc_index ::
    "('u :: linorder, 'd, 's) index_env \<Rightarrow> nat \<Rightarrow> key \<Rightarrow> string \<Rightarrow> nat \<Rightarrow> bool \<Rightarrow> string \<Rightarrow> 'u toc_index" where
  "new_toc_index E garbage key path offset readMode type =
     \<lparr>tx_files = new_uri_store (po_dir (ie_paths E) path), tx_base = new_base garbage key type,
      tx_btree = None, tx_dirty = False, tx_readMode = readMode, tx_path = path, tx_offset = offset,
      tx_preload = False\<rparr>"

text \<open>\<open>TocIndex(stream, version, directory, path, offset, preload)\<close>: what \<open>loadIndexes\<close> makes.\<close>

definition toc_index_of_stream ::
    "('u :: linorder, 'd, 's) index_env \<Rightarrow> bool \<Rightarrow> nat \<Rightarrow> ('u toc_index, ('d, 's) stores) index_loader" where
  "toc_index_of_stream E preload garbage version directory path offset is st =
     bindE (decode_uris (ie_uris E) directory is) (\<lambda>(files, is).
     bindE (decode_base (ie_dense E) garbage version (sx_world st) is) (\<lambda>(b, w, is).
       Inr (\<lparr>tx_files = files, tx_base = b, tx_btree = None, tx_dirty = False, tx_readMode = True,
              tx_path = path, tx_offset = offset, tx_preload = preload\<rparr>,
            st\<lparr>sx_world := w\<rparr>)))"

definition encode_toc_index ::
    "('u :: linorder, 'd, 's) index_env \<Rightarrow> 'd world \<Rightarrow> 'u toc_index \<Rightarrow> nat \<Rightarrow> item list res" where
  "encode_toc_index E w i version =
     bindE (encode_base (ie_ext E) (ie_dense E) w (tx_base i) version) (\<lambda>is.
       Inr (encode_uris (ie_uris E) (tx_files i) @ is))"

text \<open>\<open>get\<close>: an open tree; a location is built by the scheme of the URI, with the remapping key.\<close>

definition toc_index_get ::
    "('u :: linorder, 'd, 's) index_env \<Rightarrow> 's \<Rightarrow> 'u toc_index \<Rightarrow> key \<Rightarrow> key \<Rightarrow> 'u field option res" where
  "toc_index_get E s i key remapKey =
     (case tx_btree i of
        None \<Rightarrow> Inl (AssertFailed ''btree_'')
      | Some c \<Rightarrow>
          bindE (valuesToString (ie_ext E) key) (\<lambda>fingerprint.
          bindE (tree_get (ie_lib E) c (tx_readMode i) (tx_place i) fingerprint s) (\<lambda>found.
            case found of
              None \<Rightarrow> Inr None
            | Some ref \<Rightarrow>
                bindE (uri_get (tx_files i) (fr_uriId ref)) (\<lambda>uri.
                bindE (build_location (ie_builders E) (u_scheme (ie_uris E) uri) uri (fr_offset ref) (fr_length ref) remapKey) (\<lambda>loc.
                  Inr (Some \<lparr>fd_location = loc, fd_timestamp = ib_timestamp (tx_base i), fd_details = fr_details ref\<rparr>))))))"

definition toc_index_open ::
    "('u :: linorder, 'd, 's) index_env \<Rightarrow> 'u toc_index \<Rightarrow> ('d, 's) stores \<Rightarrow> ('u toc_index \<times> ('d, 's) stores) res" where
  "toc_index_open E i st =
     (if tx_btree i \<noteq> None then Inr (i, st)
      else bindE (build_tree (ie_lib E) (ib_type (tx_base i)) (tx_path i) (tx_readMode i) (tx_offset i) (sx_trees st)) (\<lambda>(c, s).
             Inr (i\<lparr>tx_btree := Some c\<rparr>, st\<lparr>sx_trees := s\<rparr>)))"

definition toc_index_close :: "'u toc_index \<Rightarrow> 'u toc_index" where
  "toc_index_close i = i\<lparr>tx_btree := None\<rparr>"

text \<open>\<open>reopen\<close>: a new tree at the end of the file, and no axes.\<close>

definition toc_index_reopen ::
    "('u :: linorder, 'd, 's) index_env \<Rightarrow> 'u toc_index \<Rightarrow> ('d, 's) stores \<Rightarrow> ('u toc_index \<times> ('d, 's) stores) res" where
  "toc_index_reopen E i st =
     (let i = (toc_index_close i)\<lparr>tx_offset := bl_size (ie_lib E) (tx_path i) (sx_trees st)\<rparr>
      in bindE (axis_wipe (ib_axes (tx_base i))) (\<lambda>a.
           toc_index_open E (i\<lparr>tx_base := (tx_base i)\<lparr>ib_axes := a\<rparr>\<rparr>) st))"

definition toc_index_add ::
    "('u :: linorder, 'd, 's) index_env \<Rightarrow> key \<Rightarrow> 'u field \<Rightarrow> 'u toc_index \<Rightarrow> ('d, 's) stores \<Rightarrow>
     ('u toc_index \<times> ('d, 's) stores) res" where
  "toc_index_add E key field i st =
     (case tx_btree i of
        None \<Rightarrow> Inl (AssertFailed ''btree_'')
      | Some c \<Rightarrow>
          bindE (assertE (\<not> tx_readMode i) ''mode_ == TocIndex::WRITE'') (\<lambda>_.
          bindE (make_ref field (tx_files i)) (\<lambda>(ref, files).
          bindE (valuesToString (ie_ext E) key) (\<lambda>fingerprint.
          bindE (tree_set (ie_lib E) c (tx_place i) fingerprint ref (sx_trees st)) (\<lambda>s.
            Inr (i\<lparr>tx_files := files, tx_dirty := True\<rparr>, st\<lparr>sx_trees := s\<rparr>))))))"

text \<open>\<open>IndexBase::put\<close>: the axes first, then the tree.\<close>

definition toc_index_put ::
    "('u :: linorder, 'd, 's) index_env \<Rightarrow> key \<Rightarrow> 'u field \<Rightarrow> 'u toc_index \<Rightarrow> ('d, 's) stores \<Rightarrow>
     ('u toc_index \<times> ('d, 's) stores) res" where
  "toc_index_put E key field i st =
     bindE (axis_insert (ie_ext E) (ie_dense E) key (ib_axes (tx_base i), sx_world st)) (\<lambda>(a, w).
       toc_index_add E key field (i\<lparr>tx_base := (tx_base i)\<lparr>ib_axes := a\<rparr>\<rparr>) (st\<lparr>sx_world := w\<rparr>))"

definition toc_index_flush ::
    "('u :: linorder, 'd, 's) index_env \<Rightarrow> 'u toc_index \<Rightarrow> ('d, 's) stores \<Rightarrow> ('u toc_index \<times> ('d, 's) stores) res" where
  "toc_index_flush E i st =
     bindE (assertE (\<not> tx_readMode i) ''mode_ == TocIndex::WRITE'') (\<lambda>_.
       if \<not> tx_dirty i then Inr (i, st)
       else
         (let w = axis_sort (ie_dense E) (ib_axes (tx_base i)) (sx_world st) in
          case tx_btree i of
            None \<Rightarrow> Inl (AssertFailed ''btree_'')
          | Some _ \<Rightarrow>
              Inr (i\<lparr>tx_base := (tx_base i)\<lparr>ib_timestamp := sx_now st\<rparr>, tx_dirty := False\<rparr>,
                   st\<lparr>sx_world := w,
                      sx_trees := bl_sync (ie_lib E) (tx_place i) (bl_flush (ie_lib E) (tx_place i) (sx_trees st))\<rparr>)))"

text \<open>
  \<open>entries\<close>, once the visitor has accepted the index: an index that is closed is opened for the visit.
  The visitor gets each field with the time stamp it knows and the fingerprint; its own state is
  \<open>'v\<close>, and it may work on the stores too.
\<close>

definition toc_index_entries ::
    "('u :: linorder, 'd, 's) index_env \<Rightarrow> ('u field \<Rightarrow> string \<Rightarrow> 'v \<times> ('d, 's) stores \<Rightarrow> ('v \<times> ('d, 's) stores) res) \<Rightarrow>
     nat \<Rightarrow> 'u toc_index \<Rightarrow> 'v \<times> ('d, 's) stores \<Rightarrow> ('v \<times> ('d, 's) stores) res" where
  "toc_index_entries E visitDatum timestamp i = (\<lambda>(v, st).
     bindE (toc_index_open E i st) (\<lambda>(i, st).
       case tx_btree i of
         None \<Rightarrow> Inl (AssertFailed ''btree_'')
       | Some c \<Rightarrow>
           foldE (\<lambda>(fingerprint, ref) vst.
               bindE (location_of_ref (tx_files i) ref) (\<lambda>loc.
                 visitDatum \<lparr>fd_location = loc, fd_timestamp = timestamp, fd_details = fr_details ref\<rparr> fingerprint vst))
             (tree_visit (ie_lib E) c (tx_readMode i) (tx_place i) (sx_trees st)) (v, st)))"

definition toc_dataPaths :: "('u :: linorder) toc_index \<Rightarrow> 'u list" where
  "toc_dataPaths i = uri_paths (tx_files i)"

text \<open>\<open>TocIndexFileSort\<close>.\<close>

definition file_sort_less :: "'u toc_index \<Rightarrow> 'u toc_index \<Rightarrow> bool" where
  "file_sort_less a b \<longleftrightarrow> (if tx_path a = tx_path b then tx_offset a < tx_offset b else tx_path a < tx_path b)"

text \<open>What \<open>writeIndexRecord\<close> sees of an index.\<close>

definition index_record_of :: "('u :: linorder, 'd, 's) index_env \<Rightarrow> 'd world \<Rightarrow> 'u toc_index \<Rightarrow> index_record" where
  "index_record_of E w i =
     \<lparr>ir_path = tx_path i, ir_offset = tx_offset i, ir_type = ib_type (tx_base i),
      ir_encode = encode_toc_index E w i\<rparr>"

section \<open>Laws of the library, one by one\<close>

lemma tree_frame_trans: "tree_frame L ps s s' \<Longrightarrow> tree_frame L ps s' s'' \<Longrightarrow> tree_frame L ps s s''"
  by (fastforce simp: tree_frame_def intro: order_trans)

lemma tree_frame_refl [simp]: "tree_frame L ps s s"
  by (simp add: tree_frame_def)

lemma tree_frame_mono: "tree_frame L ps s s' \<Longrightarrow> ps \<subseteq> qs \<Longrightarrow> tree_frame L qs s s'"
  unfolding tree_frame_def by (metis subsetD)

named_theorems tree_laws "the laws of the library's B-trees"

lemma key_fits [tree_laws]: "btree_laws L \<Longrightarrow> length k \<le> n \<Longrightarrow> CHR 0x00 \<notin> set k \<Longrightarrow> bl_key L n k = Inr k"
  by (simp add: btree_laws_def)

lemma get_beyond: "btree_laws L \<Longrightarrow> bl_size L f s \<le> off \<Longrightarrow> bl_get L r (f, off) k s = None"
  by (simp add: btree_laws_def)

lemma open_new: "btree_laws L \<Longrightarrow> bl_size L f s \<le> off \<Longrightarrow>
    \<exists>s'. bl_open L n f False off s = Inr s' \<and> tree_frame L {} s s' \<and> off < bl_size L f s'"
  by (simp add: btree_laws_def)

lemma open_old: "btree_laws L \<Longrightarrow> off < bl_size L f s \<Longrightarrow>
    \<exists>s'. bl_open L n f True off s = Inr s' \<and> tree_frame L {} s s'"
  by (simp add: btree_laws_def)

lemma set_frame: "btree_laws L \<Longrightarrow> tree_frame L {p} s (bl_set L p k v s)"
  by (cases p) (simp add: btree_laws_def)

lemma get_set [tree_laws]: "btree_laws L \<Longrightarrow>
    bl_get L False p j (bl_set L p k v s) = (if j = k then Some v else bl_get L False p j s)"
  by (cases p) (simp add: btree_laws_def)

lemma flush_frame: "btree_laws L \<Longrightarrow> tree_frame L {p} s (bl_flush L p s)"
  by (cases p) (simp add: btree_laws_def)

lemma get_flush [tree_laws]: "btree_laws L \<Longrightarrow> bl_get L r p j (bl_flush L p s) = bl_get L False p j s"
  by (cases p) (simp add: btree_laws_def)

lemma sync_frame: "btree_laws L \<Longrightarrow> tree_frame L {} s (bl_sync L p s)"
  by (cases p) (simp add: btree_laws_def)

lemma range_get: "btree_laws L \<Longrightarrow>
    set (bl_range L r p lo hi s) = {(k, v). bl_get L r p k s = Some v \<and> lo \<le> k \<and> k \<le> hi}"
  by (cases p) (simp add: btree_laws_def)

lemma frame_get: "tree_frame L ps s s' \<Longrightarrow> p \<notin> ps \<Longrightarrow> bl_get L r p k s' = bl_get L r p k s"
  by (cases p) (simp add: tree_frame_def)

lemma frame_size: "tree_frame L ps s s' \<Longrightarrow> bl_size L f s \<le> bl_size L f s'"
  by (simp add: tree_frame_def)

section \<open>The contract of an index\<close>

text \<open>
  What a catalogue relies on: \<open>put\<close> binds the fingerprint of a key to what is stored of a field and
  leaves the other bindings, and every key that was put is found by the test of the axes.
\<close>

locale index_map =
  fixes put :: "'k \<Rightarrow> 'f \<Rightarrow> 's \<Rightarrow> 's res"
    and lookup :: "'s \<Rightarrow> string \<Rightarrow> 'r option"
    and found :: "'s \<Rightarrow> 'k \<Rightarrow> bool"
    and fingerprint :: "'k \<Rightarrow> string"
    and stored :: "'f \<Rightarrow> 'r"
    and good :: "'k \<Rightarrow> bool"
    and ok :: "'s \<Rightarrow> bool"
  assumes put_step: "ok s \<Longrightarrow> good k \<Longrightarrow> put k f s = Inr s' \<Longrightarrow>
      ok s' \<and> lookup s' = (lookup s)(fingerprint k \<mapsto> stored f) \<and> found s' k \<and> (\<forall>j. found s j \<longrightarrow> found s' j)"
begin

definition puts :: "('k \<times> 'f) list \<Rightarrow> 's \<Rightarrow> 's res" where
  "puts kfs s = foldE (\<lambda>(k, f). put k f) kfs s"

definition bindings :: "('k \<times> 'f) list \<Rightarrow> string \<Rightarrow> 'r option" where
  "bindings kfs = map_of (rev (map (\<lambda>(k, f). (fingerprint k, stored f)) kfs))"

lemma bindings_Cons: "m ++ bindings ((k, f) # kfs) = m(fingerprint k \<mapsto> stored f) ++ bindings kfs"
  by (simp add: bindings_def)

lemma puts_all:
  "ok s \<Longrightarrow> \<forall>(k, f) \<in> set kfs. good k \<Longrightarrow> puts kfs s = Inr s' \<Longrightarrow>
   ok s' \<and> lookup s' = lookup s ++ bindings kfs \<and> (\<forall>(k, f) \<in> set kfs. found s' k) \<and> (\<forall>j. found s j \<longrightarrow> found s' j)"
proof (induction kfs arbitrary: s)
  case (Cons kf kfs)
  obtain k f where kf: "kf = (k, f)" by (cases kf)
  with Cons.prems obtain s1 where 1: "put k f s = Inr s1" and 2: "puts kfs s1 = Inr s'" and g: "good k"
    by (auto simp: puts_def bindE_eq_Inr)
  note step = put_step [OF Cons.prems(1) g 1]
  have all: "ok s' \<and> lookup s' = lookup s1 ++ bindings kfs \<and> (\<forall>(k, f) \<in> set kfs. found s' k) \<and> (\<forall>j. found s1 j \<longrightarrow> found s' j)"
    by (rule Cons.IH) (use step 2 Cons.prems(2) in auto)
  have "lookup s' = lookup s ++ bindings (kf # kfs)"
    unfolding kf bindings_Cons using all step by (simp del: fun_upd_apply)
  with all step show ?case by (auto simp: kf)
qed (simp add: puts_def bindings_def)

text \<open>The last field of a fingerprint wins.\<close>

lemma puts_last:
  assumes "ok s" and "\<forall>(k, f) \<in> set (xs @ (k, f) # ys). good k" and "puts (xs @ (k, f) # ys) s = Inr s'"
    and "\<forall>(j, g) \<in> set ys. fingerprint j \<noteq> fingerprint k"
  shows "lookup s' (fingerprint k) = Some (stored f) \<and> found s' k"
proof -
  have "map_of (rev (map (\<lambda>(k, f). (fingerprint k, stored f)) ys)) (fingerprint k) = None"
    using assms(4) by (auto simp: map_of_eq_None_iff)
  then have "bindings (xs @ (k, f) # ys) (fingerprint k) = Some (stored f)"
    by (simp add: bindings_def map_add_def)
  with puts_all [OF assms(1-3)] show ?thesis by (auto simp: map_add_def)
qed

end

section \<open>The index keeps its contract\<close>

text \<open>What a tree stores under a fingerprint, with the number of the URI resolved.\<close>

definition tx_lookup :: "('u :: linorder, 'd, 's) index_env \<Rightarrow> 's \<Rightarrow> 'u toc_index \<Rightarrow> string \<Rightarrow> ('u \<times> int \<times> int) option" where
  "tx_lookup E s i fp =
     (case bl_get (ie_lib E) (tx_readMode i) (tx_place i) fp s of
        None \<Rightarrow> None
      | Some r \<Rightarrow>
          (case map_of (us_paths (tx_files i)) (fr_uriId r) of
             None \<Rightarrow> None
           | Some u \<Rightarrow> Some (u, fr_offset r, fr_length r)))"

definition place_of_field :: "'u field \<Rightarrow> 'u \<times> int \<times> int" where
  "place_of_field f = (lo_uri (fd_location f), lo_offset (fd_location f), lo_length (fd_location f))"

definition fingerprint_ok :: "string \<Rightarrow> bool" where
  "fingerprint_ok fp \<longleftrightarrow> length fp \<le> 32 \<and> CHR 0x00 \<notin> set fp"

text \<open>The keys of one index all have its keywords, and values whose text fits into the tree.\<close>

definition good_key :: "ext \<Rightarrow> string set \<Rightarrow> key \<Rightarrow> bool" where
  "good_key e ks key \<longleftrightarrow> key_ok key \<and> set (dict_keys (key_dict key)) = ks \<and>
     (\<exists>fp. valuesToString e key = Inr fp \<and> fingerprint_ok fp)"

definition key_print :: "ext \<Rightarrow> key \<Rightarrow> string" where
  "key_print e key = (case valuesToString e key of Inr fp \<Rightarrow> fp | Inl _ \<Rightarrow> [])"

text \<open>An index that is open for writing.\<close>

definition tx_writing ::
    "('u :: linorder, 'd, 's) index_env \<Rightarrow> string set \<Rightarrow> 'u toc_index \<times> ('d, 's) stores \<Rightarrow> bool" where
  "tx_writing E ks = (\<lambda>(i, st).
     btree_laws (ie_lib E) \<and> dense_laws (ie_dense E) \<and> uri_store_ok (tx_files i) \<and> \<not> us_readOnly (tx_files i) \<and>
     axis_ok (sx_world st) (ib_axes (tx_base i)) \<and> \<not> ax_readOnly (ib_axes (tx_base i)) \<and>
     (ax_axis (ib_axes (tx_base i)) = [] \<or> set (dict_keys (ax_axis (ib_axes (tx_base i)))) = ks) \<and>
     \<not> tx_readMode i \<and> (\<exists>c. tx_btree i = Some c \<and> tc_keySize c = 32) \<and>
     (\<forall>fp r. bl_get (ie_lib E) False (tx_place i) fp (sx_trees st) = Some r \<longrightarrow>
        map_of (us_paths (tx_files i)) (fr_uriId r) \<noteq> None))"

definition tx_found ::
    "('u :: linorder, 'd, 's) index_env \<Rightarrow> string set \<Rightarrow> 'u toc_index \<times> ('d, 's) stores \<Rightarrow> key \<Rightarrow> bool" where
  "tx_found E ks = (\<lambda>(i, st) key. set (dict_keys (ax_axis (ib_axes (tx_base i)))) = ks \<and>
     covers (ie_ext E) (ie_dense E) (sx_world st) (ib_axes (tx_base i)) key)"

lemma reduce_ref_simps [simp]:
  "fr_uriId (reduce_ref r) = fr_uriId r" "fr_offset (reduce_ref r) = fr_offset r" "fr_length (reduce_ref r) = fr_length r"
  by (simp_all add: reduce_ref_def)

lemma toc_put_step:
  assumes ok: "tx_writing E ks (i, st)" and good: "good_key (ie_ext E) ks key"
    and put: "toc_index_put E key f i st = Inr (i', st')"
  shows "tx_writing E ks (i', st') \<and> tx_found E ks (i', st') key \<and>
    tx_lookup E (sx_trees st') i' = (tx_lookup E (sx_trees st) i)(key_print (ie_ext E) key \<mapsto> place_of_field f) \<and>
    (\<forall>j. tx_found E ks (i, st) j \<longrightarrow> tx_found E ks (i', st') j) \<and>
    tx_place i' = tx_place i \<and> tx_dirty i' \<and> ib_key (tx_base i') = ib_key (tx_base i) \<and>
    ib_type (tx_base i') = ib_type (tx_base i) \<and> us_directory (tx_files i') = us_directory (tx_files i) \<and>
    tree_frame (ie_lib E) {tx_place i} (sx_trees st) (sx_trees st') \<and> sx_now st' = sx_now st \<and>
    grows (ie_dense E) (sx_world st) (sx_world st')"
proof -
  let ?L = "ie_lib E" and ?p = "tx_place i"
  obtain fp where fp: "valuesToString (ie_ext E) key = Inr fp" "fingerprint_ok fp" and kok: "key_ok key"
    and ks: "set (dict_keys (key_dict key)) = ks"
    using good by (auto simp: good_key_def)
  have L: "btree_laws ?L" and D: "dense_laws (ie_dense E)" and us: "uri_store_ok (tx_files i)"
    and ax: "axis_ok (sx_world st) (ib_axes (tx_base i))"
    and known: "\<And>fp r. bl_get ?L False ?p fp (sx_trees st) = Some r \<Longrightarrow> map_of (us_paths (tx_files i)) (fr_uriId r) \<noteq> None"
    using ok by (auto simp: tx_writing_def)
  obtain c where c: "tx_btree i = Some c" "tc_keySize c = 32" "\<not> tx_readMode i" using ok by (auto simp: tx_writing_def)
  obtain a w where ins: "axis_insert (ie_ext E) (ie_dense E) key (ib_axes (tx_base i), sx_world st) = Inr (a, w)"
    and add: "toc_index_add E key f (i\<lparr>tx_base := (tx_base i)\<lparr>ib_axes := a\<rparr>\<rparr>) (st\<lparr>sx_world := w\<rparr>) = Inr (i', st')"
    using put by (auto simp: toc_index_put_def bindE_eq_Inr)
  have sub: "set (dict_keys (ax_axis (ib_axes (tx_base i)))) \<subseteq> set (dict_keys (key_dict key))"
    using ok ks by (auto simp: tx_writing_def)
  note cov = insert_covers [OF D ax kok sub ins]
  let ?loc = "fd_location f"
  have key: "bl_key ?L 32 fp = Inr fp" using key_fits [OF L] fp(2) by (simp add: fingerprint_ok_def)
  from add c fp(1) key obtain n files where n: "uri_insert (lo_uri ?loc) (tx_files i) = Inr (n, files)"
    and i': "i' = i\<lparr>tx_base := (tx_base i)\<lparr>ib_axes := a\<rparr>, tx_files := files, tx_dirty := True\<rparr>"
    and st': "st' = st\<lparr>sx_world := w, sx_trees := bl_set ?L ?p fp
       (if tc_reduced c then reduce_ref \<lparr>fr_uriId = n, fr_offset = lo_offset ?loc, fr_length = lo_length ?loc, fr_details = fd_details f\<rparr>
        else \<lparr>fr_uriId = n, fr_offset = lo_offset ?loc, fr_length = lo_length ?loc, fr_details = fd_details f\<rparr>) (sx_trees st)\<rparr>"
    by (auto simp: toc_index_add_def bindE_eq_Inr make_ref_def Let_def tree_set_def tx_place_def split: if_splits)
  define r where "r = (if tc_reduced c then reduce_ref \<lparr>fr_uriId = n, fr_offset = lo_offset ?loc, fr_length = lo_length ?loc, fr_details = fd_details f\<rparr>
        else \<lparr>fr_uriId = n, fr_offset = lo_offset ?loc, fr_length = lo_length ?loc, fr_details = fd_details f\<rparr>)"
  have r: "fr_uriId r = n" "fr_offset r = lo_offset ?loc" "fr_length r = lo_length ?loc" by (simp_all add: r_def)
  have trees: "sx_trees st' = bl_set ?L ?p fp r (sx_trees st)" by (simp add: st' r_def)
  note u = uri_insert_ok [OF us n]
  have ro: "us_readOnly files = us_readOnly (tx_files i)" "us_directory files = us_directory (tx_files i)"
    using n by (auto simp: uri_insert_def bindE_eq_Inr Let_def split: option.splits)
  have place: "tx_place i' = ?p" "tx_readMode i' = tx_readMode i" "tx_files i' = files"
    by (simp_all add: i' tx_place_def)
  have get: "bl_get ?L False ?p j (sx_trees st') = (if j = fp then Some r else bl_get ?L False ?p j (sx_trees st))" for j
    by (simp add: trees get_set [OF L])
  have later: "map_of (us_paths files) (fr_uriId q) = map_of (us_paths (tx_files i)) (fr_uriId q)"
    if "bl_get ?L False ?p j (sx_trees st) = Some q" for j q
    using known [OF that] u by (metis not_None_eq)
  have "tx_lookup E (sx_trees st') i' j = ((tx_lookup E (sx_trees st) i)(fp \<mapsto> place_of_field f)) j" for j
  proof (cases "j = fp")
    case True
    then show ?thesis using get [of j] u r c(3) by (simp add: tx_lookup_def place place_of_field_def)
  next
    case False
    then show ?thesis
      using get [of j] later [of j] c(3) by (simp add: tx_lookup_def place split: option.splits)
  qed
  then have lookup: "tx_lookup E (sx_trees st') i' = (tx_lookup E (sx_trees st) i)(key_print (ie_ext E) key \<mapsto> place_of_field f)"
    using fp(1) by (simp add: key_print_def fun_eq_iff)
  have known': "map_of (us_paths (tx_files i')) (fr_uriId q) \<noteq> None" if "bl_get ?L False (tx_place i') j (sx_trees st') = Some q" for j q
    using that get [of j] later [of j q] known [of j q] u r by (auto simp: place split: if_splits)
  have members: "tx_base i' = (tx_base i)\<lparr>ib_axes := a\<rparr>" "sx_world st' = w" "tx_btree i' = tx_btree i"
    by (simp_all add: i' st')
  have "tx_writing E ks (i', st')"
    using ok cov u ro known' ks c L D by (simp add: tx_writing_def members place)
  moreover have "tx_found E ks (i', st') key" using cov ks by (simp add: tx_found_def i' st')
  moreover have "tx_found E ks (i', st') j" if "tx_found E ks (i, st) j" for j
    using that cov ks by (simp add: tx_found_def i' st')
  moreover have "tree_frame ?L {?p} (sx_trees st) (sx_trees st')" by (simp add: trees set_frame [OF L])
  ultimately show ?thesis using lookup cov ro by (auto simp: place) (simp_all add: i' st')
qed

interpretation toc_index: index_map "\<lambda>key f (i, st). toc_index_put E key f i st" "\<lambda>(i, st). tx_lookup E (sx_trees st) i"
  "tx_found E ks" "key_print (ie_ext E)" place_of_field "good_key (ie_ext E) ks" "tx_writing E ks"
  for E :: "('u :: linorder, 'd, 's) index_env" and ks
proof (unfold_locales, goal_cases)
  case (1 s k f s')
  obtain i st i' st' where s: "s = (i, st)" and s': "s' = (i', st')" by (cases s, cases s')
  from 1 have "tx_writing E ks (i, st)" and "good_key (ie_ext E) ks k" and "toc_index_put E k f i st = Inr (i', st')"
    by (simp_all add: s s')
  from toc_put_step [OF this] show ?case by (simp add: s s')
qed

lemma good_key_values:
  assumes "good_key e ks key" and "k \<in> set (dict_keys (key_dict key))"
  shows "\<exists>c. canonicalValue e key k = Inr c"
proof -
  from assms(1) obtain vs where vs: "mapE (canonicalValue e key) (key_names key) = Inr vs" and ok: "key_ok key"
    by (auto simp: good_key_def valuesToString_def bindE_eq_Inr)
  from ok assms(2) have "k \<in> set (key_names key)" by (simp add: key_ok_def)
  then obtain n where n: "n < length (key_names key)" "key_names key ! n = k" by (auto simp: in_set_conv_nth)
  from vs have "list_all2 (\<lambda>x y. canonicalValue e key x = Inr y) (key_names key) vs" by (simp add: mapE_eq_Inr)
  from list_all2_nthD [OF this n(1)] show ?thesis by (auto simp: n(2))
qed

lemma toc_put_succeeds:
  assumes ok: "tx_writing E ks (i, st)" and good: "good_key (ie_ext E) ks key"
    and loc: "lo_class (fd_location f) = TocLocation"
  shows "\<exists>i' st'. toc_index_put E key f i st = Inr (i', st')"
proof -
  obtain fp where fp: "valuesToString (ie_ext E) key = Inr fp" "fingerprint_ok fp"
    using good by (auto simp: good_key_def)
  have L: "btree_laws (ie_lib E)" using ok by (simp add: tx_writing_def)
  have key: "bl_key (ie_lib E) 32 fp = Inr fp" using key_fits [OF L] fp(2) by (simp add: fingerprint_ok_def)
  have "\<not> ax_readOnly (ib_axes (tx_base i))" using ok by (simp add: tx_writing_def)
  from insert_succeeds [OF this] good_key_values [OF good] obtain a w where
    ins: "axis_insert (ie_ext E) (ie_dense E) key (ib_axes (tx_base i), sx_world st) = Inr (a, w)" by blast
  have "\<exists>n files. uri_insert (lo_uri (fd_location f)) (tx_files i) = Inr (n, files)"
    using ok by (simp add: tx_writing_def uri_insert_def Let_def split: option.splits)
  then obtain n files where n: "uri_insert (lo_uri (fd_location f)) (tx_files i) = Inr (n, files)" by blast
  obtain c where "tx_btree i = Some c" "tc_keySize c = 32" "\<not> tx_readMode i" using ok by (auto simp: tx_writing_def)
  then show ?thesis
    using loc fp(1) key by (simp add: toc_index_put_def ins toc_index_add_def make_ref_def n tree_set_def Let_def)
qed

lemma toc_flush_step:
  assumes ok: "tx_writing E ks (i, st)" and dirty: "tx_dirty i"
  shows "\<exists>st'. toc_index_flush E i st =
      Inr (i\<lparr>tx_base := (tx_base i)\<lparr>ib_timestamp := sx_now st\<rparr>, tx_dirty := False\<rparr>, st') \<and>
    (\<forall>r fp. bl_get (ie_lib E) r (tx_place i) fp (sx_trees st') = bl_get (ie_lib E) False (tx_place i) fp (sx_trees st)) \<and>
    tree_frame (ie_lib E) {tx_place i} (sx_trees st) (sx_trees st') \<and> sx_now st' = sx_now st \<and>
    w_next (sx_world st') = w_next (sx_world st) \<and>
    (\<forall>a k. axis_view (ie_dense E) (sx_world st') a k = axis_view (ie_dense E) (sx_world st) a k)"
proof -
  obtain c where c: "tx_btree i = Some c" "\<not> tx_readMode i" using ok by (auto simp: tx_writing_def)
  have L: "btree_laws (ie_lib E)" and D: "dense_laws (ie_dense E)" using ok by (simp_all add: tx_writing_def)
  let ?s1 = "bl_flush (ie_lib E) (tx_place i) (sx_trees st)"
  let ?s2 = "bl_sync (ie_lib E) (tx_place i) ?s1"
  have f1: "tree_frame (ie_lib E) {tx_place i} (sx_trees st) ?s1" by (rule flush_frame [OF L])
  have f2: "tree_frame (ie_lib E) {} ?s1 ?s2" by (rule sync_frame [OF L])
  have "tree_frame (ie_lib E) {tx_place i} (sx_trees st) ?s2"
    using f1 tree_frame_mono [OF f2] by (rule tree_frame_trans) simp
  moreover have "bl_get (ie_lib E) r (tx_place i) fp ?s2 = bl_get (ie_lib E) False (tx_place i) fp (sx_trees st)" for r fp
    using frame_get [OF f2, of "tx_place i" r fp] by (simp add: get_flush [OF L])
  ultimately show ?thesis
    using c dirty sort_view [OF D] by (simp add: toc_index_flush_def Let_def)
qed

section \<open>Writing an index to a record and reading it\<close>

lemma base_fields_all:
  assumes "4 \<le> n" and "decode_key (ks @ [IStr ''type'', IStr t, IStr ''time'', INum ts, IEnd] @ rest) =
    Inr (k, [IStr ''type'', IStr t, IStr ''time'', INum ts, IEnd] @ rest)"
  shows "base_fields n b (IStr ''key'' # ks @ [IStr ''type'', IStr t, IStr ''time'', INum ts, IEnd] @ rest) =
    Inr (b\<lparr>ib_key := k, ib_type := t, ib_timestamp := ts\<rparr>, rest)"
proof -
  obtain m where "n = 4 + m" using assms(1) le_Suc_ex by blast
  then have "n = Suc (Suc (Suc (Suc m)))" by simp
  then show ?thesis using assms(2) by (simp add: keyId_def)
qed

lemma base_stream:
  assumes "dense_laws D" and "key_ok (ib_key b)" and "dict_ok (ax_axis (ib_axes b))" and "world_ok w'"
    and "3 \<le> version \<longrightarrow> ax_axis (ib_axes b) \<noteq> [] \<and> \<not> key_empty (ib_key b) \<and> ib_type b \<noteq> [] \<and> ib_timestamp b \<noteq> 0"
    and "encode_base e D w b version = Inr out"
  shows "\<exists>b' w''. decode_base D garbage version w' (out @ rest) = Inr (b', w'', rest) \<and> ib_type b' = ib_type b \<and>
    ib_timestamp b' = (if 3 \<le> version then ib_timestamp b else 0) \<and> key_ok (ib_key b') \<and> key_canonical (ib_key b') \<and>
    key_names (ib_key b') = key_names (ib_key b) \<and>
    (\<forall>k v. key_find (ib_key b) k = Some v \<longrightarrow>
       (\<exists>c. canonicalise e (ib_key b) k v = Inr c \<and> key_find (ib_key b') k = Some c)) \<and>
    valuesToString e (ib_key b') = valuesToString e (ib_key b) \<and> world_ok w'' \<and> axis_ok w'' (ib_axes b') \<and>
    extends w' w'' \<and> (\<forall>k. axis_view D w'' (ib_axes b') k = axis_view D w (ib_axes b) k)"
proof -
  have new: "ax_axis new_axis = []" by (simp add: new_axis_def)
  show ?thesis
  proof (cases "3 \<le> version")
    case True
    then obtain as ks where as: "encode_axis D w (ib_axes b) version = Inr as" and ks: "encode_key e (ib_key b) = Inr ks"
      and out: "out = as @ [IObject, IStr ''key''] @ ks @
            [IStr ''type'', IStr (ib_type b), IStr ''time'', INum (ib_timestamp b), IEnd]"
      using assms(6) by (auto simp: encode_base_def encode_base_current_def bindE_eq_Inr)
    let ?tail = "[IStr ''type'', IStr (ib_type b), IStr ''time'', INum (ib_timestamp b), IEnd] @ rest"
    have "ax_axis (ib_axes b) \<noteq> [] \<or> version \<le> 2" using True assms(5) by simp
    from axis_stream [OF assms(1,3) this assms(4) new as, of "IObject # IStr ''key'' # ks @ ?tail"]
    obtain a' w'' where a': "decode_axis D version (new_axis, w', as @ IObject # IStr ''key'' # ks @ ?tail) =
        Inr (a', w'', IObject # IStr ''key'' # ks @ ?tail)" and world: "world_ok w''" "extends w' w''" "axis_ok w'' a'"
      "\<forall>k. axis_view D w'' a' k = axis_view D w (ib_axes b) k" by blast
    from key_stream [OF assms(2) ks, of ?tail] obtain k' where k': "decode_key (ks @ ?tail) = Inr (k', ?tail)"
      and key: "key_ok k'" "key_canonical k'" "key_names k' = key_names (ib_key b)"
      "\<forall>k v. key_find (ib_key b) k = Some v \<longrightarrow> (\<exists>c. canonicalise e (ib_key b) k v = Inr c \<and> key_find k' k = Some c)"
      "valuesToString e k' = valuesToString e (ib_key b)" by blast
    note fields = base_fields_all [OF _ k', simplified]
    have "\<not> key_empty k'"
    proof -
      have "key_names (ib_key b) \<noteq> []"
        using assms(2) assms(5) True by (auto simp: key_ok_def key_empty_def)
      then show ?thesis using key(1,3) by (auto simp: key_ok_def key_empty_def)
    qed
    moreover have "out @ rest = as @ IObject # IStr ''key'' # ks @ ?tail" by (simp add: out)
    ultimately have "decode_base D garbage version w' (out @ rest) =
        Inr (\<lparr>ib_type = ib_type b, ib_axes = a', ib_key = k', ib_timestamp = ib_timestamp b\<rparr>, w'', rest)"
      using True assms(5) a'
      by (simp add: decode_base_def decode_base_current_def fields new_base_def del: base_fields.simps)
    then show ?thesis using True world key by auto
  next
    case False
    then obtain as ks vs where as: "encode_axis D w (ib_axes b) version = Inr as" and ks: "encode_key e (ib_key b) = Inr ks"
      and out: "out = as @ ks @ [IStr vs, IStr (ib_type b)]"
      using assms(6) by (auto simp: encode_base_def encode_base_legacy_def bindE_eq_Inr)
    let ?tail = "[IStr vs, IStr (ib_type b)] @ rest"
    have "ax_axis (ib_axes b) \<noteq> [] \<or> version \<le> 2" using False by simp
    from axis_stream [OF assms(1,3) this assms(4) new as, of "ks @ ?tail"]
    obtain a' w'' where a': "decode_axis D version (new_axis, w', as @ ks @ ?tail) =
        Inr (a', w'', ks @ ?tail)" and world: "world_ok w''" "extends w' w''" "axis_ok w'' a'"
      "\<forall>k. axis_view D w'' a' k = axis_view D w (ib_axes b) k" by blast
    from key_stream [OF assms(2) ks, of ?tail] obtain k' where k': "decode_key (ks @ ?tail) = Inr (k', ?tail)"
      and key: "key_ok k'" "key_canonical k'" "key_names k' = key_names (ib_key b)"
      "\<forall>k v. key_find (ib_key b) k = Some v \<longrightarrow> (\<exists>c. canonicalise e (ib_key b) k v = Inr c \<and> key_find k' k = Some c)"
      "valuesToString e k' = valuesToString e (ib_key b)" by blast
    have "out @ rest = as @ ks @ ?tail" by (simp add: out)
    then have "decode_base D garbage version w' (out @ rest) =
        Inr (\<lparr>ib_type = ib_type b, ib_axes = a', ib_key = k', ib_timestamp = 0\<rparr>, w'', rest)"
      using False a' k' by (simp add: decode_base_def decode_base_legacy_def)
    then show ?thesis using False world key by auto
  qed
qed

lemma index_stream:
  assumes L: "dense_laws (ie_dense E)" "uri_laws (ie_uris E)" and "uri_store_ok (tx_files i)"
    and "\<forall>u \<in> set (toc_dataPaths i). u_scheme (ie_uris E) u \<noteq> ''unix''"
    and "key_ok (ib_key (tx_base i))" and "dict_ok (ax_axis (ib_axes (tx_base i)))" and "world_ok (sx_world st)"
    and "3 \<le> version \<longrightarrow> ax_axis (ib_axes (tx_base i)) \<noteq> [] \<and> \<not> key_empty (ib_key (tx_base i)) \<and>
      ib_type (tx_base i) \<noteq> [] \<and> ib_timestamp (tx_base i) \<noteq> 0"
    and "encode_toc_index E w i version = Inr out"
  shows "\<exists>files b w'. toc_index_of_stream E preload garbage version (us_directory (tx_files i)) path offset out st =
      Inr (\<lparr>tx_files = files, tx_base = b, tx_btree = None, tx_dirty = False, tx_readMode = True,
              tx_path = path, tx_offset = offset, tx_preload = preload\<rparr>, st\<lparr>sx_world := w'\<rparr>) \<and>
    us_paths files = us_paths (tx_files i) \<and> ib_type b = ib_type (tx_base i) \<and>
    ib_timestamp b = (if 3 \<le> version then ib_timestamp (tx_base i) else 0) \<and> key_ok (ib_key b) \<and>
    key_canonical (ib_key b) \<and> key_names (ib_key b) = key_names (ib_key (tx_base i)) \<and>
    (\<forall>k v. key_find (ib_key (tx_base i)) k = Some v \<longrightarrow>
       (\<exists>c. canonicalise (ie_ext E) (ib_key (tx_base i)) k v = Inr c \<and> key_find (ib_key b) k = Some c)) \<and>
    valuesToString (ie_ext E) (ib_key b) = valuesToString (ie_ext E) (ib_key (tx_base i)) \<and>
    world_ok w' \<and> axis_ok w' (ib_axes b) \<and> extends (sx_world st) w' \<and>
    (\<forall>k. axis_view (ie_dense E) w' (ib_axes b) k = axis_view (ie_dense E) w (ib_axes (tx_base i)) k)"
proof -
  obtain bs where bs: "encode_base (ie_ext E) (ie_dense E) w (tx_base i) version = Inr bs"
    and out: "out = encode_uris (ie_uris E) (tx_files i) @ bs"
    using assms(9) by (auto simp: encode_toc_index_def bindE_eq_Inr)
  from uri_store_stream [OF L(2) assms(3), of bs] assms(4) obtain files where
    files: "decode_uris (ie_uris E) (us_directory (tx_files i)) out = Inr (files, bs)" "us_paths files = us_paths (tx_files i)"
    by (auto simp: toc_dataPaths_def out)
  from base_stream [OF L(1) assms(5-8) bs, of garbage "[]"] show ?thesis
    using files by (auto simp: toc_index_of_stream_def)
qed

section \<open>Looking up and visiting\<close>

lemma toc_get_found:
  assumes "btree_laws (ie_lib E)" and "tx_btree i = Some c" and "tc_keySize c = 32"
    and "valuesToString (ie_ext E) key = Inr fp" and "fingerprint_ok fp"
    and "tx_lookup E s i fp = Some (u, off, len)" and "len \<noteq> 0"
    and "map_of (ie_builders E) (u_scheme (ie_uris E) u) = Some cl"
  shows "\<exists>dt. toc_index_get E s i key remapKey = Inr (Some \<lparr>fd_location = new_location cl u off len remapKey,
    fd_timestamp = ib_timestamp (tx_base i), fd_details = dt\<rparr>)"
proof -
  have key: "bl_key (ie_lib E) 32 fp = Inr fp" using key_fits [OF assms(1)] assms(5) by (simp add: fingerprint_ok_def)
  from assms(6) obtain r where "bl_get (ie_lib E) (tx_readMode i) (tx_place i) fp s = Some r"
    "map_of (us_paths (tx_files i)) (fr_uriId r) = Some u" "fr_offset r = off" "fr_length r = len"
    by (auto simp: tx_lookup_def split: option.splits)
  then show ?thesis
    using assms key by (simp add: toc_index_get_def tree_get_def uri_get_def build_location_def find_builder_def)
qed

lemma toc_get_missing:
  assumes "btree_laws (ie_lib E)" and "tx_btree i = Some c" and "tc_keySize c = 32"
    and "valuesToString (ie_ext E) key = Inr fp" and "fingerprint_ok fp"
    and "bl_get (ie_lib E) (tx_readMode i) (tx_place i) fp s = None"
  shows "toc_index_get E s i key remapKey = Inr None"
proof -
  have "bl_key (ie_lib E) 32 fp = Inr fp" using key_fits [OF assms(1)] assms(5) by (simp add: fingerprint_ok_def)
  then show ?thesis using assms by (simp add: toc_index_get_def tree_get_def)
qed

text \<open>A sequence of insertions, as a catalogue makes them between two flushes.\<close>

definition put_all ::
    "('u :: linorder, 'd, 's) index_env \<Rightarrow> (key \<times> 'u field) list \<Rightarrow> 'u toc_index \<times> ('d, 's) stores \<Rightarrow>
     ('u toc_index \<times> ('d, 's) stores) res" where
  "put_all E kfs = foldE (\<lambda>(k, f) (i, st). toc_index_put E k f i st) kfs"

definition same_index :: "'u toc_index \<Rightarrow> 'u toc_index \<Rightarrow> bool" where
  "same_index i j \<longleftrightarrow> tx_place i = tx_place j \<and> ib_key (tx_base i) = ib_key (tx_base j) \<and>
     ib_type (tx_base i) = ib_type (tx_base j) \<and> us_directory (tx_files i) = us_directory (tx_files j)"

lemma put_all_step:
  assumes ok: "tx_writing E ks (i, st)" and good: "\<forall>(k, f) \<in> set kfs. good_key (ie_ext E) ks k"
    and put: "put_all E kfs (i, st) = Inr (i', st')"
  shows "tx_writing E ks (i', st') \<and> same_index i' i \<and> (kfs \<noteq> [] \<longrightarrow> tx_dirty i') \<and>
    tree_frame (ie_lib E) {tx_place i} (sx_trees st) (sx_trees st') \<and> sx_now st' = sx_now st \<and>
    grows (ie_dense E) (sx_world st) (sx_world st') \<and>
    tx_lookup E (sx_trees st') i' = tx_lookup E (sx_trees st) i ++
      map_of (rev (map (\<lambda>(k, f). (key_print (ie_ext E) k, place_of_field f)) kfs)) \<and>
    (\<forall>(k, f) \<in> set kfs. tx_found E ks (i', st') k) \<and> (\<forall>j. tx_found E ks (i, st) j \<longrightarrow> tx_found E ks (i', st') j)"
proof -
  have "toc_index.puts E kfs (i, st) = Inr (i', st')"
    using put by (simp add: put_all_def toc_index.puts_def split_beta)
  note all = toc_index.puts_all [OF ok good this]
  have "tx_writing E ks (i', st') \<and> same_index i' i \<and> (kfs \<noteq> [] \<longrightarrow> tx_dirty i') \<and>
    tree_frame (ie_lib E) {tx_place i} (sx_trees st) (sx_trees st') \<and> sx_now st' = sx_now st \<and>
    grows (ie_dense E) (sx_world st) (sx_world st')"
    using ok good put
  proof (induction kfs arbitrary: i st)
    case (Cons kf kfs)
    obtain k f where kf: "kf = (k, f)" by (cases kf)
    with Cons.prems obtain i1 st1 where 1: "toc_index_put E k f i st = Inr (i1, st1)"
      and 2: "put_all E kfs (i1, st1) = Inr (i', st')" and g: "good_key (ie_ext E) ks k"
      by (auto simp: put_all_def bindE_eq_Inr)
    note step = toc_put_step [OF Cons.prems(1) g 1]
    have "tx_writing E ks (i1, st1)" and "\<forall>(k, f) \<in> set kfs. good_key (ie_ext E) ks k"
      using step Cons.prems(2) by auto
    from Cons.IH [OF this 2] step show ?case
    proof (cases "kfs = []")
      case True
      with 2 step show ?thesis by (auto simp: put_all_def same_index_def)
    qed (auto simp: same_index_def intro: tree_frame_trans grows_trans)
  qed (simp add: put_all_def same_index_def)
  with all show ?thesis by (simp add: toc_index.bindings_def)
qed

lemma put_all_succeeds:
  assumes "tx_writing E ks (i, st)"
    and "\<forall>(k, f) \<in> set kfs. good_key (ie_ext E) ks k \<and> lo_class (fd_location f) = TocLocation"
  shows "\<exists>i' st'. put_all E kfs (i, st) = Inr (i', st')"
  using assms
proof (induction kfs arbitrary: i st)
  case (Cons kf kfs)
  obtain k f where kf: "kf = (k, f)" by (cases kf)
  with Cons.prems have g: "good_key (ie_ext E) ks k" "lo_class (fd_location f) = TocLocation" by auto
  from toc_put_succeeds [OF Cons.prems(1) g] obtain i1 st1 where 1: "toc_index_put E k f i st = Inr (i1, st1)" by blast
  have "tx_writing E ks (i1, st1)" using toc_put_step [OF Cons.prems(1) g(1) 1] by blast
  from Cons.IH [OF this] Cons.prems(2) 1 show ?case by (auto simp: kf put_all_def)
qed (simp add: put_all_def)

lemma tree_class_32: "map_of tree_classes name = Some c \<Longrightarrow> tc_keySize c = 32"
  by (auto simp: tree_classes_def tree_32_65536_reduced_def tree_32_65536_full_def
      tree_32_4194304_reduced_def split: if_splits)

text \<open>A read-only index over a flushed tree opens and shows the tree.\<close>

lemma open_to_read:
  assumes L: "btree_laws (ie_lib E)" and "tx_readMode i" and "tx_btree i = None"
    and "map_of tree_classes (ib_type (tx_base i)) = Some c"
    and "bl_get (ie_lib E) True (tx_place i) fp (sx_trees st) = Some r"
  shows "\<exists>s. toc_index_open E i st = Inr (i\<lparr>tx_btree := Some c\<rparr>, st\<lparr>sx_trees := s\<rparr>) \<and>
    tree_frame (ie_lib E) {} (sx_trees st) s"
proof -
  have "tx_offset i < bl_size (ie_lib E) (tx_path i) (sx_trees st)"
    using get_beyond [OF L, of "tx_path i" "sx_trees st" "tx_offset i" True fp] assms(5)
    by (simp add: tx_place_def) (metis not_le option.discI)
  from open_old [OF L this, of "tc_recSize c"] show ?thesis
    using assms(2-4) by (auto simp: toc_index_open_def build_tree_def)
qed

lemma lookup_same:
  "tx_readMode j \<Longrightarrow> \<not> tx_readMode i \<Longrightarrow> tx_place j = tx_place i \<Longrightarrow> us_paths (tx_files j) = us_paths (tx_files i) \<Longrightarrow>
   bl_get (ie_lib E) True (tx_place i) fp s' = bl_get (ie_lib E) False (tx_place i) fp s \<Longrightarrow>
   tx_lookup E s' j fp = tx_lookup E s i fp"
  by (cases "bl_get (ie_lib E) False (tx_place i) fp s") (simp_all add: tx_lookup_def)

text \<open>
  An index \<open>j\<close> that was loaded for reading finds what the index \<open>i\<close> that was written holds, when it
  has the same URIs and axes and the tree was flushed.
\<close>

lemma loaded_index_finds:
  assumes w: "tx_writing E ks (i, st)" and found: "tx_found E ks (i, st) k"
    and fp: "valuesToString (ie_ext E) k = Inr fp" "fingerprint_ok fp"
    and look: "tx_lookup E (sx_trees st) i fp = Some (u, off, len)" and len: "len \<noteq> 0"
    and cl: "map_of (ie_builders E) (u_scheme (ie_uris E) u) = Some cl"
    and j: "tx_place j = tx_place i" "tx_readMode j" "tx_btree j = None" "us_paths (tx_files j) = us_paths (tx_files i)"
      "map_of tree_classes (ib_type (tx_base j)) = Some c"
    and ax: "axis_ok (sx_world st') (ib_axes (tx_base j))"
      "\<forall>k. axis_view (ie_dense E) (sx_world st') (ib_axes (tx_base j)) k = axis_view (ie_dense E) (sx_world st) (ib_axes (tx_base i)) k"
    and trees: "\<forall>fp. bl_get (ie_lib E) True (tx_place i) fp (sx_trees st') = bl_get (ie_lib E) False (tx_place i) fp (sx_trees st)"
  shows "mayContain (ie_ext E) (ie_dense E) (sx_world st') (tx_base j) k = Inr True \<and>
    (\<exists>s dt. toc_index_open E j st' = Inr (j\<lparr>tx_btree := Some c\<rparr>, st'\<lparr>sx_trees := s\<rparr>) \<and>
       tree_frame (ie_lib E) {} (sx_trees st') s \<and>
       toc_index_get E s (j\<lparr>tx_btree := Some c\<rparr>) k remapKey = Inr (Some \<lparr>fd_location = new_location cl u off len remapKey,
         fd_timestamp = ib_timestamp (tx_base j), fd_details = dt\<rparr>))"
proof -
  have L: "btree_laws (ie_lib E)" and m: "\<not> tx_readMode i" using w by (auto simp: tx_writing_def)
  obtain r where r: "bl_get (ie_lib E) False (tx_place i) fp (sx_trees st) = Some r"
    using look m by (auto simp: tx_lookup_def split: option.splits)
  from open_to_read [OF L j(2,3,5), of fp st' r] r trees j(1) obtain s where
    opened: "toc_index_open E j st' = Inr (j\<lparr>tx_btree := Some c\<rparr>, st'\<lparr>sx_trees := s\<rparr>)"
    and frame: "tree_frame (ie_lib E) {} (sx_trees st') s" by auto
  have "bl_get (ie_lib E) True (tx_place i) fp s = bl_get (ie_lib E) False (tx_place i) fp (sx_trees st)"
    using frame_get [OF frame, of "tx_place i" True fp] trees by simp
  from lookup_same [OF _ m _ _ this, of "j\<lparr>tx_btree := Some c\<rparr>"] look j
  have "tx_lookup E s (j\<lparr>tx_btree := Some c\<rparr>) fp = Some (u, off, len)" by (simp add: tx_place_def)
  from toc_get_found [OF L _ tree_class_32 [OF j(5)] fp this len cl, of remapKey]
  have "\<exists>dt. toc_index_get E s (j\<lparr>tx_btree := Some c\<rparr>) k remapKey = Inr (Some \<lparr>fd_location = new_location cl u off len remapKey,
         fd_timestamp = ib_timestamp (tx_base j), fd_details = dt\<rparr>)" by simp
  moreover have "covers (ie_ext E) (ie_dense E) (sx_world st') (ib_axes (tx_base j)) k"
    using found ax(2) covers_cong [of "ie_dense E" "sx_world st'" "ib_axes (tx_base j)" "ie_dense E" "sx_world st" "ib_axes (tx_base i)"]
    by (simp add: tx_found_def)
  then have "mayContain (ie_ext E) (ie_dense E) (sx_world st') (tx_base j) k = Inr True"
    unfolding mayContain_def by (rule covers_contains [OF ax(1)])
  ultimately show ?thesis using opened frame by blast
qed

section \<open>A reference library of trees\<close>

text \<open>For concrete inputs: the trees by their places, each with what is open and what was flushed.\<close>

type_synonym ref_trees = "(tree_place \<times> (string, field_ref) dict \<times> (string, field_ref) dict) list"

definition ref_tree :: "ref_trees \<Rightarrow> tree_place \<Rightarrow> (string, field_ref) dict \<times> (string, field_ref) dict" where
  "ref_tree s p = (case map_of s p of None \<Rightarrow> ([], []) | Some t \<Rightarrow> t)"

fun ref_size :: "string \<Rightarrow> ref_trees \<Rightarrow> nat" where
  "ref_size f [] = 0"
| "ref_size f (((g, off), t) # s) = (if g = f then max (Suc off) (ref_size f s) else ref_size f s)"

definition ref_btree_lib :: "ref_trees btree_lib" where
  "ref_btree_lib = \<lparr>bl_key = (\<lambda>n k. if length k \<le> n then Inr k else Inl (LibraryError ''FixedString'')),
     bl_open = (\<lambda>n f readOnly off s. Inr (if readOnly \<or> map_of s (f, off) \<noteq> None then s else ((f, off), ([], [])) # s)),
     bl_get = (\<lambda>readOnly p k s. map_of ((if readOnly then snd else fst) (ref_tree s p)) k),
     bl_set = (\<lambda>p k v s. (p, (dict_put k v (fst (ref_tree s p)), snd (ref_tree s p))) # s),
     bl_flush = (\<lambda>p s. (p, (fst (ref_tree s p), fst (ref_tree s p))) # s),
     bl_sync = (\<lambda>p s. s),
     bl_range = (\<lambda>readOnly p lo hi s. let d = (if readOnly then snd else fst) (ref_tree s p)
       in filter (\<lambda>(k, v). lo \<le> k \<and> k \<le> hi \<and> map_of d k = Some v) d),
     bl_size = ref_size\<rparr>"

lemma ref_beyond: "ref_size f s \<le> off \<Longrightarrow> map_of s (f, off) = None"
  by (induction f s rule: ref_size.induct) (auto split: if_splits)

lemma ref_size_less: "map_of s (f, off) \<noteq> None \<Longrightarrow> off < ref_size f s"
  by (rule ccontr) (simp add: ref_beyond)

lemma ref_tree_Cons: "ref_tree ((p, t) # s) q = (if q = p then t else ref_tree s q)"
  by (simp add: ref_tree_def)

lemma ref_size_Cons: "ref_size f s \<le> ref_size f ((p, t) # s)"
  by (cases p) simp

lemma ref_get [simp]: "bl_get ref_btree_lib r p k s = map_of ((if r then snd else fst) (ref_tree s p)) k"
  and ref_size_of [simp]: "bl_size ref_btree_lib f s = ref_size f s"
  and ref_key [simp]: "bl_key ref_btree_lib n k = (if length k \<le> n then Inr k else Inl (LibraryError ''FixedString''))"
  and ref_open [simp]: "bl_open ref_btree_lib n f ro off s =
    Inr (if ro \<or> map_of s (f, off) \<noteq> None then s else ((f, off), ([], [])) # s)"
  and ref_set [simp]: "bl_set ref_btree_lib p k v s = (p, (dict_put k v (fst (ref_tree s p)), snd (ref_tree s p))) # s"
  and ref_flush [simp]: "bl_flush ref_btree_lib p s = (p, (fst (ref_tree s p), fst (ref_tree s p))) # s"
  and ref_sync [simp]: "bl_sync ref_btree_lib p s = s"
  by (simp_all add: ref_btree_lib_def)

lemma ref_frame: "ref_tree s p = t \<or> p \<in> ps \<Longrightarrow> tree_frame ref_btree_lib ps s ((p, t) # s)"
  using ref_size_Cons by (auto simp: tree_frame_def ref_tree_Cons)

lemma ref_range:
  "set (bl_range ref_btree_lib r p lo hi s) = {(k, v). bl_get ref_btree_lib r p k s = Some v \<and> lo \<le> k \<and> k \<le> hi}"
  by (auto simp: ref_btree_lib_def Let_def dest: map_of_SomeD)

lemma ref_btree_laws: "btree_laws ref_btree_lib"
  unfolding btree_laws_def
proof (intro conjI allI impI, goal_cases)
  case (1 n k)
  then show ?case by simp
next
  case (2 f off r k s)
  then show ?case by (simp add: ref_tree_def ref_beyond)
next
  case (3 n f off s)
  then have none: "map_of s (f, off) = None" by (simp add: ref_beyond)
  then have "ref_tree s (f, off) = ([], [])" by (simp add: ref_tree_def)
  then show ?case using none by (simp add: ref_frame)
next
  case (4 n f off s)
  then show ?case by simp
next
  case (5 p k v s)
  then show ?case by (simp add: ref_frame)
next
  case (6 p k v s j)
  then show ?case by (simp add: ref_tree_Cons)
next
  case (7 p s)
  then show ?case by (simp add: ref_frame)
next
  case (8 p s r j)
  then show ?case by (simp add: ref_tree_Cons)
next
  case (9 p s)
  then show ?case by simp
next
  case (10 r p lo hi s)
  then show ?case by (rule ref_range)
qed

section \<open>Properties\<close>


text \<open>A small index over the reference libraries: one data file, keys of class and step.\<close>

definition sample_index_env :: "(string, string list, ref_trees) index_env" where
  "sample_index_env = \<lparr>ie_ext = ref_ext, ie_dense = ref_dense, ie_uris = ref_uri_ops, ie_lib = ref_btree_lib,
     ie_builders = [(''file'', TocLocation)], ie_paths = sample_paths\<rparr>"

definition sample_stores :: "(string list, ref_trees) stores" where
  "sample_stores = \<lparr>sx_world = sample_world, sx_trees = [((''/db/i'', 0), ([], []))], sx_now = 99\<rparr>"

definition sample_toc_index :: "string toc_index" where
  "sample_toc_index =
     (new_toc_index sample_index_env 0 (key_of_list [(''class'', ''od'')] None) ''/db/i'' 0 False ''BTreeIndex'')
       \<lparr>tx_btree := Some tree_32_65536_reduced\<rparr>"

definition sample_field :: "int \<Rightarrow> string field" where
  "sample_field off = \<lparr>fd_location = new_location TocLocation ''/db/a.data'' off 7 (new_key None), fd_timestamp = 0,
     fd_details = new_details\<rparr>"

lemma sample_env_simps [simp]:
  "ie_ext sample_index_env = ref_ext" "ie_dense sample_index_env = ref_dense" "ie_uris sample_index_env = ref_uri_ops"
  "ie_lib sample_index_env = ref_btree_lib" "ie_builders sample_index_env = [(''file'', TocLocation)]"
  by (simp_all add: sample_index_env_def)

lemma sample_good_key: "good_key ref_ext {''class'', ''step''} sample_key \<and> key_print ref_ext sample_key = ''12:od''"
proof -
  have "valuesToString ref_ext sample_key = Inr ''12:od''"
    by (simp add: valuesToString_def sample_key_def push_key_def new_key_def canonicalValue_def key_value_def key_find_def
        canonicalise_def get_registry_def build_type_def to_key_step_def)
  then show ?thesis
    using sample_key_ok by (simp add: good_key_def key_print_def fingerprint_ok_def)
      (simp add: sample_key_def push_key_def new_key_def)
qed

lemma sample_toc_index_members:
  "ib_type (tx_base sample_toc_index) = ''BTreeIndex''" "ib_key (tx_base sample_toc_index) = key_of_list [(''class'', ''od'')] None"
  "tx_place sample_toc_index = (''/db/i'', 0)" "tx_files sample_toc_index = new_uri_store ''/db''"
  "ib_axes (tx_base sample_toc_index) = new_axis" "\<not> tx_readMode sample_toc_index"
  "tx_btree sample_toc_index = Some tree_32_65536_reduced" "tx_path sample_toc_index = ''/db/i''" "tx_offset sample_toc_index = 0"
  by (simp_all add: sample_toc_index_def new_toc_index_def new_base_def tx_place_def sample_index_env_def sample_paths_def)

lemma sample_writing: "tx_writing sample_index_env {''class'', ''step''} (sample_toc_index, sample_stores)"
  using ref_btree_laws ref_dense_laws uri_store_new
  by (simp add: tx_writing_def sample_toc_index_members sample_stores_def ref_tree_def)
    (simp add: new_axis_def axis_ok_def new_uri_store_def tree_32_65536_reduced_def)

lemma sample_base_key:
  "key_ok (key_of_list [(''class'', ''od'')] None) \<and> \<not> key_empty (key_of_list [(''class'', ''od'')] None)"
  by (simp add: key_ok_of_list) (simp add: key_of_list_def key_empty_def dict_emplace_def)


text \<open>
  C37: The visit of an index does not reach every field: it asks for the keys up to \<open>"\255"\<close>, which C++
  reads as the octal escape of the character 173, so the entries that it reports are exactly those
  whose fingerprint is at most that, while \<open>get\<close> finds every one.
\<close>
theorem tree_visit_misses_high_keys:
  assumes "btree_laws L"
  shows "set (map fst (tree_visit L c r p s)) = {k. bl_get L r p k s \<noteq> None \<and> (k = [] \<or> of_char (hd k) < (173 :: nat) \<or> k = [CHR 0xAD])}"
proof -
  have less: "x < CHR 0xAD \<longleftrightarrow> of_char x < (173 :: nat)" for x :: char
    by (simp add: less_char_def)
  have "k \<le> range_end \<longleftrightarrow> k = [] \<or> of_char (hd k) < (173 :: nat) \<or> k = [CHR 0xAD]" for k
    by (cases k) (auto simp: range_end_def less)
  moreover have "[] \<le> k" for k :: string by simp
  ultimately have "set (map fst (tree_visit L c r p s)) = fst ` {(k, v). bl_get L r p k s = Some v \<and> (k = [] \<or> of_char (hd k) < (173 :: nat) \<or> k = [CHR 0xAD])}"
    using range_get [OF assms, of r p "[]" range_end s] by (auto simp: tree_visit_def image_iff)
  then show ?thesis by (force simp: image_iff)
qed

lemma tree_visit_misses_high_keys_witness:
  "tree_visit ref_btree_lib tree_32_65536_full True (''/db/i'', 0)
     [((''/db/i'', 0), ([], [(''12'', \<lparr>fr_uriId = 0, fr_offset = 0, fr_length = 1, fr_details = new_details\<rparr>),
                          ([CHR 0xC3], \<lparr>fr_uriId = 0, fr_offset = 1, fr_length = 1, fr_details = new_details\<rparr>)]))] =
     [(''12'', \<lparr>fr_uriId = 0, fr_offset = 0, fr_length = 1, fr_details = new_details\<rparr>)] \<and>
   [CHR 0xC3] \<notin> set (map fst (tree_visit ref_btree_lib tree_32_65536_full True (''/db/i'', 0)
     [((''/db/i'', 0), ([], [([CHR 0xC3], \<lparr>fr_uriId = 0, fr_offset = 1, fr_length = 1, fr_details = new_details\<rparr>)]))]))"
  unfolding tree_visit_misses_high_keys [OF ref_btree_laws]
  by (simp add: tree_visit_def ref_btree_lib_def ref_tree_def range_end_def tree_32_65536_full_def less_char_def)

end
