(* ===== verification/FDB_Catalogue.thy ===== *)
theory FDB_Catalogue
  imports FDB_Index FDB_Rules "HOL-Library.Product_Lexorder"
begin

text \<open>
  The catalogue of one database over its table of contents: \<open>src/fdb5/toc/TocCatalogue.cc\<close>,
  \<open>TocCatalogueReader.cc\<close> and \<open>TocCatalogueWriter.cc\<close>, the control files of \<open>TocHandler.cc\<close>, and the
  registry of schemas of \<open>src/fdb5/rules/Schema.cc\<close>. An \<open>Index\<close> of the code is a counted pointer, and the
  writer keeps several to one object: the objects are a list, and the pointers are positions in it.
\<close>

section \<open>Control files\<close>

datatype control_action = ActionNone | Disable | Enable

definition controlfile_lookup :: "(16 word \<times> string) list" where
  "controlfile_lookup =
     [(id_value IdRetrieve, ''retrieve.lock''), (id_value IdArchive, ''archive.lock''),
      (id_value IdList, ''list.lock''), (id_value IdWipe, ''wipe.lock''),
      (id_value IdUniqueRoot, ''duplicates.allow'')]"

definition control_file :: "16 word \<Rightarrow> string res" where
  "control_file i =
     (case map_of controlfile_lookup i of
        None \<Rightarrow> Inl (AssertFailed ''it != controlfile_lookup.end()'') | Some f \<Rightarrow> Inr f)"

definition fullControlFilePath :: "path_ops \<Rightarrow> toc_handler \<Rightarrow> string \<Rightarrow> string" where
  "fullControlFilePath P h name = po_join P (th_directory h) name"

definition createControlFile ::
    "nat \<Rightarrow> path_ops \<Rightarrow> toc_env \<Rightarrow> string \<Rightarrow> toc_handler \<times> disk \<Rightarrow> (toc_handler \<times> disk) res" where
  "createControlFile n P v name = (\<lambda>(h, d).
     bindE (checkUID n P v d h) (\<lambda>h.
       let fullPath = fullControlFilePath P h name
       in Inr (h, if path_exists d fullPath then d else d\<lparr>dk_files := fullPath # dk_files d\<rparr>)))"

definition removeControlFile ::
    "nat \<Rightarrow> path_ops \<Rightarrow> toc_env \<Rightarrow> string \<Rightarrow> toc_handler \<times> disk \<Rightarrow> (toc_handler \<times> disk) res" where
  "removeControlFile n P v name = (\<lambda>(h, d).
     bindE (checkUID n P v d h) (\<lambda>h.
       let fullPath = fullControlFilePath P h name
       in Inr (h, if path_exists d fullPath
                  then d\<lparr>dk_tocs := dict_erase fullPath (dk_tocs d), dk_files := removeAll fullPath (dk_files d)\<rparr>
                  else d)))"

text \<open>The loop over the identifiers; an action that is neither of the two is only reported.\<close>

definition control_step ::
    "nat \<Rightarrow> path_ops \<Rightarrow> toc_env \<Rightarrow> control_action \<Rightarrow> 16 word \<Rightarrow> toc_handler \<times> disk \<Rightarrow> (toc_handler \<times> disk) res" where
  "control_step n P v action identifier st =
     bindE (control_file identifier) (\<lambda>lock_file.
       case action of
         Disable \<Rightarrow> createControlFile n P v lock_file st
       | Enable \<Rightarrow> removeControlFile n P v lock_file st
       | ActionNone \<Rightarrow> Inr st)"

definition toc_control ::
    "nat \<Rightarrow> path_ops \<Rightarrow> toc_env \<Rightarrow> control_action \<Rightarrow> control_ids \<Rightarrow> toc_handler \<times> disk \<Rightarrow> (toc_handler \<times> disk) res" where
  "toc_control n P v action identifiers st =
     (case iterate_ids 17 identifiers of
        None \<Rightarrow> Inl (LibraryError ''fuel'')
      | Some r \<Rightarrow> bindE r (\<lambda>ids. foldE (control_step n P v action) ids st))"

definition toc_enabled :: "path_ops \<Rightarrow> disk \<Rightarrow> toc_handler \<Rightarrow> control_id \<Rightarrow> bool res" where
  "toc_enabled P d h i =
     bindE (control_file (id_value i)) (\<lambda>f. Inr (\<not> path_exists d (fullControlFilePath P h f)))"

definition lockfilePaths :: "path_ops \<Rightarrow> disk \<Rightarrow> toc_handler \<Rightarrow> string list" where
  "lockfilePaths P d h =
     filter (path_exists d)
       (map (fullControlFilePath P h) [''retrieve.lock'', ''archive.lock'', ''list.lock'', ''wipe.lock''])"

section \<open>The registry of schemas\<close>

text \<open>\<open>SchemaRegistry::get\<close>: a path is parsed once; \<open>parse\<close> is \<open>Schema(path)\<close>.\<close>

definition schema_get :: "(string \<Rightarrow> schema res) \<Rightarrow> string \<Rightarrow> (string, schema) dict \<Rightarrow> (schema \<times> (string, schema) dict) res" where
  "schema_get parse path schemas =
     (case map_of schemas path of
        Some s \<Rightarrow> Inr (s, schemas)
      | None \<Rightarrow> bindE (parse path) (\<lambda>s. Inr (s, dict_put path s schemas)))"

section \<open>The environment\<close>

text \<open>
  Beside the libraries of the index: the fuel of the readers of the table of contents, who may write,
  \<open>PathName::unique\<close> of its call number and its path, the default type of an index, the garbage that is
  in an uninitialised time stamp, and whether trees are read ahead.
\<close>

record ('u, 'd, 's) cat_env =
  cx_index :: "('u, 'd, 's) index_env"
  cx_fuel :: nat
  cx_toc :: toc_env
  cx_unique :: "nat \<Rightarrow> string \<Rightarrow> string"
  cx_type :: string
  cx_garbage :: nat
  cx_preload :: bool

abbreviation cx_paths :: "('u, 'd, 's) cat_env \<Rightarrow> path_ops" where
  "cx_paths X \<equiv> ie_paths (cx_index X)"

abbreviation cx_ext :: "('u, 'd, 's) cat_env \<Rightarrow> ext" where
  "cx_ext X \<equiv> ie_ext (cx_index X)"

section \<open>The reader\<close>

record 'u cat_reader =
  cr_handler :: toc_handler
  cr_indexes :: "('u toc_index \<times> key) list"
  cr_matching :: "nat list"
  cr_current :: key

text \<open>\<open>TocCatalogueReader(key, config)\<close> in a directory that the roots gave.\<close>

definition loadIndexesAndRemap ::
    "('u :: linorder, 'd, 's) cat_env \<Rightarrow> disk \<Rightarrow> toc_handler \<Rightarrow> ('d, 's) stores \<Rightarrow> ('u cat_reader \<times> ('d, 's) stores) res" where
  "loadIndexesAndRemap X d h st =
     bindE (loadIndexes (cx_fuel X) (cx_paths X) d (toc_index_of_stream (cx_index X) (cx_preload X) (cx_garbage X)) h st)
       (\<lambda>(loaded, subtocs, h, st).
          Inr (\<lparr>cr_handler = h, cr_indexes = map (\<lambda>l. (ld_index l, ld_remapKey l)) loaded, cr_matching = [],
                 cr_current = new_key None\<rparr>, st))"

definition reader_selectIndex :: "key \<Rightarrow> 'u cat_reader \<Rightarrow> bool \<times> 'u cat_reader" where
  "reader_selectIndex key r =
     (if key_eq (cr_current r) key then (True, r)
      else
        (let matching = filter (\<lambda>n. key_eq (ib_key (tx_base (fst (cr_indexes r ! n)))) key) [0..<length (cr_indexes r)]
         in (matching \<noteq> [], r\<lparr>cr_current := key, cr_matching := matching\<rparr>)))"

definition reader_axis ::
    "('u :: linorder, 'd, 's) cat_env \<Rightarrow> ('d, 's) stores \<Rightarrow> 'u cat_reader \<Rightarrow> string \<Rightarrow> (bool \<times> string set) res" where
  "reader_axis X st r keyword =
     foldE (\<lambda>n (found, s).
         let a = ib_axes (tx_base (fst (cr_indexes r ! n)))
         in if axis_has a keyword
            then bindE (axis_values (ie_dense (cx_index X)) (sx_world st) a keyword) (\<lambda>d.
                   Inr (True, s \<union> set (ds_values (ie_dense (cx_index X)) d)))
            else Inr (found, s))
       (cr_matching r) (False, {})"

text \<open>\<open>retrieve\<close>: the matching indexes in their order; those that may contain the key are opened.\<close>

fun retrieve_loop ::
    "('u :: linorder, 'd, 's) cat_env \<Rightarrow> key \<Rightarrow> nat list \<Rightarrow> 'u cat_reader \<Rightarrow> ('d, 's) stores \<Rightarrow>
     ('u field option \<times> 'u cat_reader \<times> ('d, 's) stores) res" where
  "retrieve_loop X key [] r st = Inr (None, r, st)"
| "retrieve_loop X key (m # ms) r st =
     (let E = cx_index X; (idx, remapKey) = cr_indexes r ! m
      in bindE (mayContain (ie_ext E) (ie_dense E) (sx_world st) (tx_base idx) key) (\<lambda>may.
           if may then
             bindE (toc_index_open E idx st) (\<lambda>(idx, st).
             let r = r\<lparr>cr_indexes := (cr_indexes r)[m := (idx, remapKey)]\<rparr> in
             bindE (toc_index_get E (sx_trees st) idx key remapKey) (\<lambda>field.
               case field of
                 Some f \<Rightarrow> Inr (Some f, r, st)
               | None \<Rightarrow> retrieve_loop X key ms r st))
           else retrieve_loop X key ms r st))"

definition reader_retrieve ::
    "('u :: linorder, 'd, 's) cat_env \<Rightarrow> key \<Rightarrow> 'u cat_reader \<Rightarrow> ('d, 's) stores \<Rightarrow>
     ('u field option \<times> 'u cat_reader \<times> ('d, 's) stores) res" where
  "reader_retrieve X key r st = retrieve_loop X key (cr_matching r) r st"

definition reader_open ::
    "(string \<Rightarrow> schema res) \<Rightarrow> ('u, 'd, 's) cat_env \<Rightarrow> disk \<Rightarrow> 'u cat_reader \<Rightarrow> (string, schema) dict \<Rightarrow>
     (schema option \<times> (string, schema) dict) res" where
  "reader_open parse X d r schemas =
     (if \<not> path_exists d (th_tocPath (cr_handler r)) then Inr (None, schemas)
      else bindE (schema_get parse (po_join (cx_paths X) (th_directory (cr_handler r)) ''schema'') schemas) (\<lambda>(s, schemas).
             Inr (Some s, schemas)))"

definition reader_close :: "'u cat_reader \<Rightarrow> 'u cat_reader" where
  "reader_close r = r\<lparr>cr_indexes := map (\<lambda>(i, k). (toc_index_close i, k)) (cr_indexes r)\<rparr>"

text \<open>\<open>indexes(sorted)\<close>, with \<open>std::sort\<close> as an insertion sort by file and offset.\<close>

fun insert_by_file :: "'u toc_index \<Rightarrow> 'u toc_index list \<Rightarrow> 'u toc_index list" where
  "insert_by_file i [] = [i]"
| "insert_by_file i (j # js) = (if file_sort_less j i then j # insert_by_file i js else i # j # js)"

definition reader_indexes :: "'u cat_reader \<Rightarrow> bool \<Rightarrow> 'u toc_index list" where
  "reader_indexes r by_file =
     (let returned = map fst (cr_indexes r) in if by_file then foldr insert_by_file returned [] else returned)"

section \<open>The writer\<close>

text \<open>
  The members of the writer. Keys of the stores are the dictionaries of keys, which \<open>operator<\<close> of \<open>Key\<close>
  compares; \<open>cw_sub\<close> is \<open>subTocWrite_\<close>, and \<open>cw_calls\<close> counts the calls of \<open>PathName::unique\<close>.
\<close>

type_synonym index_store = "((string, string) dict, nat) dict"

record 'u cat_writer =
  cw_handler :: toc_handler
  cw_sub :: "toc_handler option"
  cw_key :: key
  cw_dirty :: bool
  cw_objects :: "'u toc_index list"
  cw_indexes :: index_store
  cw_fullIndexes :: index_store
  cw_current :: "nat option"
  cw_currentFull :: "nat option"
  cw_currentKey :: key
  cw_calls :: nat

type_synonym ('d, 's) files = "disk \<times> ('d, 's) stores"

definition new_writer :: "toc_handler \<Rightarrow> key \<Rightarrow> 'u cat_writer" where
  "new_writer h key = \<lparr>cw_handler = h, cw_sub = None, cw_key = key, cw_dirty = False, cw_objects = [],
     cw_indexes = [], cw_fullIndexes = [], cw_current = None, cw_currentFull = None,
     cw_currentKey = new_key None, cw_calls = 0\<rparr>"

text \<open>\<open>TocCatalogueWriter(key, config)\<close>: the first record, the schema, the owner.\<close>

definition open_writer ::
    "('u :: linorder, 'd, 's) cat_env \<Rightarrow> (string \<Rightarrow> schema res) \<Rightarrow> toc_handler \<Rightarrow> key \<Rightarrow> disk \<Rightarrow>
     (string, schema) dict \<Rightarrow> ('u cat_writer \<times> schema \<times> (string, schema) dict \<times> disk) res" where
  "open_writer X parse h key d schemas =
     bindE (writeInitRecord (cx_fuel X) (cx_paths X) (cx_toc X) (cx_ext X) key h d) (\<lambda>(h, d).
     bindE (schema_get parse (po_join (cx_paths X) (th_directory h) ''schema'') schemas) (\<lambda>(s, schemas).
     bindE (checkUID (cx_fuel X) (cx_paths X) (cx_toc X) d h) (\<lambda>h. Inr (new_writer h key, s, schemas, d))))"

text \<open>\<open>TocCatalogueWriter(uri, config)\<close>, for the directory of a database that exists: its key is read first.\<close>

definition open_writer_uri ::
    "('u :: linorder, 'd, 's) cat_env \<Rightarrow> (string \<Rightarrow> schema res) \<Rightarrow> nat \<Rightarrow> bool \<Rightarrow> string \<Rightarrow> disk \<Rightarrow>
     (string, schema) dict \<Rightarrow> ('u cat_writer \<times> schema \<times> (string, schema) dict \<times> disk) res" where
  "open_writer_uri X parse version useSubToc directory d schemas =
     bindE (new_handler (cx_paths X) d version useSubToc directory) (\<lambda>h.
     bindE (databaseKey (cx_fuel X) (cx_paths X) d h) (\<lambda>(key, h). open_writer X parse h key d schemas))"

lemma open_writer_uri_fails: "\<exists>e. open_writer_uri X parse version useSubToc directory d schemas = Inl e"
proof (cases "open_writer_uri X parse version useSubToc directory d schemas")
  case (Inr r)
  then obtain h key h' where "databaseKey (cx_fuel X) (cx_paths X) d h = Inr (key, h')" and "open_writer X parse h' key d schemas = Inr r"
    by (auto simp: open_writer_uri_def bindE_eq_Inr)
  from writeInitRecord_after_key [OF this(1)] this(2) show ?thesis by (simp add: open_writer_def)
qed simp

text \<open>What an operation on the index behind a pointer does to the writer.\<close>

definition on_object ::
    "nat \<Rightarrow> ('u toc_index \<Rightarrow> ('d, 's) stores \<Rightarrow> ('u toc_index \<times> ('d, 's) stores) res) \<Rightarrow>
     'u cat_writer \<times> ('d, 's) files \<Rightarrow> ('u cat_writer \<times> ('d, 's) files) res" where
  "on_object p f = (\<lambda>(w, d, st).
     bindE (f (cw_objects w ! p) st) (\<lambda>(i, st). Inr (w\<lparr>cw_objects := (cw_objects w)[p := i]\<rparr>, d, st)))"

definition generateIndexPath :: "('u, 'd, 's) cat_env \<Rightarrow> key \<Rightarrow> 'u cat_writer \<Rightarrow> (string \<times> 'u cat_writer) res" where
  "generateIndexPath X key w =
     bindE (valuesToString (cx_ext X) key) (\<lambda>vs.
       Inr (cx_unique X (cw_calls w) (po_join (cx_paths X) (th_directory (cw_handler w)) vs) @ ''.index'',
            w\<lparr>cw_calls := Suc (cw_calls w)\<rparr>))"

text \<open>An index of the store, made when there is none; the store is given by its accessors.\<close>

definition find_or_make ::
    "('u :: linorder, 'd, 's) cat_env \<Rightarrow> key \<Rightarrow> index_store \<Rightarrow> 'u cat_writer \<Rightarrow> (nat \<times> index_store \<times> 'u cat_writer) res" where
  "find_or_make X key store w =
     (case map_of store (key_dict key) of
        Some p \<Rightarrow> Inr (p, store, w)
      | None \<Rightarrow>
          bindE (generateIndexPath X key w) (\<lambda>(path, w).
            let p = length (cw_objects w)
            in Inr (p, dict_put (key_dict key) p store,
                    w\<lparr>cw_objects := cw_objects w @ [new_toc_index (cx_index X) (cx_garbage X) key path 0 False (cx_type X)]\<rparr>)))"

definition writer_selectIndex ::
    "('u :: linorder, 'd, 's) cat_env \<Rightarrow> key \<Rightarrow> 'u cat_writer \<times> ('d, 's) files \<Rightarrow> ('u cat_writer \<times> ('d, 's) files) res" where
  "writer_selectIndex X key = (\<lambda>(w, fs).
     bindE (find_or_make X key (cw_indexes w) (w\<lparr>cw_currentKey := key\<rparr>)) (\<lambda>(p, store, w).
     bindE (on_object p (toc_index_open (cx_index X)) (w\<lparr>cw_indexes := store, cw_current := Some p\<rparr>, fs)) (\<lambda>(w, fs).
       if th_useSubToc (cw_handler w) then
         bindE (find_or_make X key (cw_fullIndexes w) w) (\<lambda>(q, store, w).
           on_object q (toc_index_open (cx_index X)) (w\<lparr>cw_fullIndexes := store, cw_currentFull := Some q\<rparr>, fs))
       else Inr (w, fs))))"

definition deselectIndex :: "'u cat_writer \<Rightarrow> 'u cat_writer" where
  "deselectIndex w = w\<lparr>cw_current := None, cw_currentFull := None, cw_currentKey := new_key None\<rparr>"

text \<open>\<open>if (current_.null()) { ASSERT(!currentIndexKey_.empty()); selectIndex(currentIndexKey_); }\<close>\<close>

definition ensure_current ::
    "('u :: linorder, 'd, 's) cat_env \<Rightarrow> 'u cat_writer \<times> ('d, 's) files \<Rightarrow> (nat \<times> 'u cat_writer \<times> ('d, 's) files) res" where
  "ensure_current X = (\<lambda>(w, fs).
     case cw_current w of
       Some p \<Rightarrow> Inr (p, w, fs)
     | None \<Rightarrow>
         bindE (assertE (\<not> key_empty (cw_currentKey w)) ''!currentIndexKey_.empty()'') (\<lambda>_.
         bindE (writer_selectIndex X (cw_currentKey w) (w, fs)) (\<lambda>(w, fs).
           case cw_current w of
             Some p \<Rightarrow> Inr (p, w, fs)
           | None \<Rightarrow> Inl (NotImplemented ''NullIndex''))))"

text \<open>\<open>archive\<close>: the field goes into the current index, and into the full one with sub tocs.\<close>

definition writer_archive ::
    "('u :: linorder, 'd, 's) cat_env \<Rightarrow> key \<Rightarrow> 'u location \<Rightarrow> 'u cat_writer \<times> ('d, 's) files \<Rightarrow>
     ('u cat_writer \<times> ('d, 's) files) res" where
  "writer_archive X key fieldLocation = (\<lambda>(w, fs).
     bindE (ensure_current X (w\<lparr>cw_dirty := True\<rparr>, fs)) (\<lambda>(p, w, fs).
       let field = \<lparr>fd_location = fieldLocation, fd_timestamp = ib_timestamp (tx_base (cw_objects w ! p)), fd_details = new_details\<rparr>
       in bindE (on_object p (toc_index_put (cx_index X) key field) (w, fs)) (\<lambda>(w, fs).
            if th_useSubToc (cw_handler w) then
              (case cw_currentFull w of
                 None \<Rightarrow> Inl (NotImplemented ''NullIndex'')
               | Some q \<Rightarrow> on_object q (toc_index_put (cx_index X) key field) (w, fs))
            else Inr (w, fs))))"

text \<open>\<open>index\<close>, for data that is adopted: the location is made from its parts.\<close>

definition writer_index ::
    "('u :: linorder, 'd, 's) cat_env \<Rightarrow> key \<Rightarrow> 'u \<Rightarrow> int \<Rightarrow> int \<Rightarrow> 'u cat_writer \<times> ('d, 's) files \<Rightarrow>
     ('u cat_writer \<times> ('d, 's) files) res" where
  "writer_index X key uri offset len = writer_archive X key (new_location TocLocation uri offset len (new_key None))"

definition flush_object ::
    "('u :: linorder, 'd, 's) cat_env \<Rightarrow> nat \<Rightarrow> 'u cat_writer \<times> ('d, 's) files \<Rightarrow> ('u cat_writer \<times> ('d, 's) files) res" where
  "flush_object X p = (\<lambda>(w, d, st).
     if \<not> tx_dirty (cw_objects w ! p) then Inr (w, d, st)
     else
       bindE (on_object p (toc_index_flush (cx_index X)) (w, d, st)) (\<lambda>(w, d, st).
       bindE (writeIndexRecord (cx_fuel X) (cx_paths X) (cx_toc X) (cx_ext X)
                (cx_unique X (cw_calls w) ''toc'')
                (index_record_of (cx_index X) (sx_world st) (cw_objects w ! p))
                (cw_handler w, cw_sub w) d) (\<lambda>((h, sub), d).
         on_object p (toc_index_reopen (cx_index X))
           (w\<lparr>cw_handler := h, cw_sub := sub, cw_calls := Suc (cw_calls w)\<rparr>, d, st))))"

definition flushIndexes ::
    "('u :: linorder, 'd, 's) cat_env \<Rightarrow> 'u cat_writer \<times> ('d, 's) files \<Rightarrow> ('u cat_writer \<times> ('d, 's) files) res" where
  "flushIndexes X = (\<lambda>(w, fs). foldE (\<lambda>(k, p). flush_object X p) (cw_indexes w) (w, fs))"

definition writer_flush ::
    "('u :: linorder, 'd, 's) cat_env \<Rightarrow> 'u cat_writer \<times> ('d, 's) files \<Rightarrow> ('u cat_writer \<times> ('d, 's) files) res" where
  "writer_flush X = (\<lambda>(w, fs).
     if \<not> cw_dirty w then Inr (w, fs)
     else bindE (flushIndexes X (w, fs)) (\<lambda>(w, fs).
            Inr (w\<lparr>cw_dirty := False, cw_current := None, cw_currentFull := None\<rparr>, fs)))"

text \<open>
  \<open>compactSubTocIndexes\<close>: the full indexes that are dirty are flushed and get a record each, then comes the
  record that masks the own sub toc, and all of them are written as one block.
\<close>

definition compact_object ::
    "('u :: linorder, 'd, 's) cat_env \<Rightarrow> nat \<Rightarrow> toc_record list \<times> 'u cat_writer \<times> ('d, 's) files \<Rightarrow>
     (toc_record list \<times> 'u cat_writer \<times> ('d, 's) files) res" where
  "compact_object X p = (\<lambda>(rs, w, d, st).
     if \<not> tx_dirty (cw_objects w ! p) then Inr (rs, w, d, st)
     else
       bindE (on_object p (toc_index_flush (cx_index X)) (w, d, st)) (\<lambda>(w, d, st).
       bindE (build_index_record (cx_paths X) (cx_toc X) (th_version (cw_handler w))
                (index_record_of (cx_index X) (sx_world st) (cw_objects w ! p))) (\<lambda>r.
         Inr (rs @ [r], w, d, st))))"

definition compactSubTocIndexes ::
    "('u :: linorder, 'd, 's) cat_env \<Rightarrow> 'u cat_writer \<times> ('d, 's) files \<Rightarrow> ('u cat_writer \<times> ('d, 's) files) res" where
  "compactSubTocIndexes X = (\<lambda>(w, fs).
     case (th_useSubToc (cw_handler w), cw_sub w) of
       (True, Some sub) \<Rightarrow>
         bindE (foldE (\<lambda>(k, p). compact_object X p) (cw_fullIndexes w) ([], w, fs)) (\<lambda>(rs, w, d, st).
         bindE (appendBlock (cx_fuel X) (cx_paths X) (cx_toc X)
                  (rs @ [clear_record (cx_paths X) (cx_toc X) (th_version (cw_handler w))
                           (sub_toc_name (cx_paths X) (cw_handler w) sub) 0]) (cw_handler w) d) (\<lambda>(h, d).
           Inr (w\<lparr>cw_handler := h\<rparr>, d, st)))
     | _ \<Rightarrow> Inr (w, fs))"

definition writer_clean ::
    "('u :: linorder, 'd, 's) cat_env \<Rightarrow> 'u cat_writer \<times> ('d, 's) files \<Rightarrow> ('u cat_writer \<times> ('d, 's) files) res" where
  "writer_clean X wfs =
     bindE (writer_flush X wfs) (\<lambda>wfs. bindE (compactSubTocIndexes X wfs) (\<lambda>(w, fs). Inr (deselectIndex w, fs)))"

text \<open>\<open>closeIndexes\<close> closes what the stores point to, and forgets the stores.\<close>

definition closeIndexes :: "'u cat_writer \<Rightarrow> 'u cat_writer" where
  "closeIndexes w =
     w\<lparr>cw_objects := fold (\<lambda>(k, p) is. is[p := toc_index_close (is ! p)]) (cw_indexes w @ cw_fullIndexes w) (cw_objects w),
       cw_indexes := [], cw_fullIndexes := []\<rparr>"

definition writer_enabled :: "path_ops \<Rightarrow> disk \<Rightarrow> control_ids \<Rightarrow> 'u cat_writer \<Rightarrow> control_id \<Rightarrow> bool res" where
  "writer_enabled P d ids w i =
     (if i = IdList \<or> i = IdRetrieve then Inr False
      else if \<not> ids_enabled ids i then Inr False
      else toc_enabled P d (cw_handler w) i)"

definition hideContents ::
    "('u, 'd, 's) cat_env \<Rightarrow> 'u cat_writer \<Rightarrow> disk \<Rightarrow> ('u cat_writer \<times> disk) res" where
  "hideContents X w d =
     bindE (writeClearAllRecord (cx_fuel X) (cx_paths X) (cx_toc X) (cw_handler w) d) (\<lambda>(h, d).
       Inr (w\<lparr>cw_handler := h\<rparr>, d))"

section \<open>Mounting other databases\<close>

text \<open>The checks of \<open>overlayDB\<close>: the same keywords, and equal values but for the variable ones.\<close>

definition overlay_check :: "string set \<Rightarrow> key \<Rightarrow> key \<Rightarrow> unit res" where
  "overlay_check variableKeys dbKey otherKey =
     (if key_size otherKey \<noteq> key_size dbKey then Inl (UserError ''Keys insufficiently matching for mount'')
      else
        foldE (\<lambda>(k, v) _.
          case key_find otherKey k of
            None \<Rightarrow> Inl (UserError ''Keys insufficiently matching for mount'')
          | Some v' \<Rightarrow>
              if v \<noteq> v' \<and> k \<notin> variableKeys then Inl (UserError ''Key not allowed to differ between DBs'')
              else Inr ()) (key_dict dbKey) ())"

definition overlayDB ::
    "('u :: linorder, 'd, 's) cat_env \<Rightarrow> key \<Rightarrow> toc_handler \<Rightarrow> string set \<Rightarrow> bool \<Rightarrow>
     'u cat_writer \<times> ('d, 's) files \<Rightarrow> ('u cat_writer \<times> ('d, 's) files) res" where
  "overlayDB X otherKey other variableKeys unmount = (\<lambda>(w, d, st).
     bindE (overlay_check variableKeys (cw_key w) otherKey) (\<lambda>_.
       if unmount then
         bindE (loadIndexes (cx_fuel X) (cx_paths X) d (toc_index_of_stream (cx_index X) (cx_preload X) (cx_garbage X)) (cw_handler w) st)
           (\<lambda>(_, subtocs, h, st).
              if th_tocPath other \<notin> subtocs then Inl (UserError ''Cannot unmount DB'')
              else bindE (writeSubTocMaskRecord (cx_fuel X) (cx_paths X) (cx_toc X) other h d) (\<lambda>(h, d).
                     Inr (w\<lparr>cw_handler := h\<rparr>, d, st)))
       else
         bindE (writeSubTocRecord (cx_fuel X) (cx_paths X) (cx_toc X) other (cw_handler w) d) (\<lambda>(h, d).
           Inr (w\<lparr>cw_handler := h\<rparr>, d, st))))"

section \<open>Visitors of entries\<close>

text \<open>
  The members of \<open>EntryVisitor\<close> (\<open>src/fdb5/database/EntryVisitMechanism.cc\<close>): the catalogue, by what
  the visitor asks of it, and the index at hand.
\<close>

record entry_visitor =
  ev_catalogue :: "(schema \<times> key) option"
  ev_index :: "index_base option"

definition new_visitor :: entry_visitor where
  "new_visitor = \<lparr>ev_catalogue = None, ev_index = None\<rparr>"

definition visitDatabase :: "schema \<times> key \<Rightarrow> entry_visitor \<Rightarrow> bool \<times> entry_visitor" where
  "visitDatabase c v = (True, v\<lparr>ev_catalogue := Some c\<rparr>)"

definition catalogueComplete :: "schema \<times> key \<Rightarrow> entry_visitor \<Rightarrow> entry_visitor res" where
  "catalogueComplete c v =
     bindE (assertE (ev_catalogue v = None \<or> ev_catalogue v = Some c) ''currentCatalogue_ == &catalogue'') (\<lambda>_.
       Inr (v\<lparr>ev_catalogue := None, ev_index := None\<rparr>))"

definition visitIndex :: "index_base \<Rightarrow> entry_visitor \<Rightarrow> bool \<times> entry_visitor" where
  "visitIndex i v = (True, v\<lparr>ev_index := Some i\<rparr>)"

definition indexTimestamp :: "entry_visitor \<Rightarrow> nat" where
  "indexTimestamp v = (case ev_index v of None \<Rightarrow> 0 | Some i \<Rightarrow> ib_timestamp i)"

text \<open>\<open>visitDatum(field, fingerprint)\<close>: the key that \<open>visitDatum(field, key)\<close> is called with.\<close>

definition visited_key :: "ext \<Rightarrow> entry_visitor \<Rightarrow> string \<Rightarrow> key res" where
  "visited_key e v fingerprint =
     (case ev_catalogue v of
        None \<Rightarrow> Inl (AssertFailed ''currentCatalogue_'')
      | Some (sch, dbKey) \<Rightarrow>
          (case ev_index v of
             None \<Rightarrow> Inl (AssertFailed ''currentIndex_'')
           | Some i \<Rightarrow> key_of_string e sch fingerprint (schema_ruleFor sch dbKey (ib_key i))))"

text \<open>
  \<open>reconsolidateIndexesAndTocs\<close>: the entries of every loaded index are indexed again under its key, then
  the new indexes are flushed, and the old ones and the sub tocs are masked.
\<close>

definition consolidate_index ::
    "('u :: linorder, 'd, 's) cat_env \<Rightarrow> 'u toc_index loaded \<Rightarrow>
     entry_visitor \<times> 'u cat_writer \<times> ('d, 's) files \<Rightarrow> (entry_visitor \<times> 'u cat_writer \<times> ('d, 's) files) res" where
  "consolidate_index X l = (\<lambda>(v, w, fs).
     bindE (writer_selectIndex X (ib_key (tx_base (ld_index l))) (w, fs)) (\<lambda>(w, d, st).
       let v = snd (visitIndex (tx_base (ld_index l)) v)
       in bindE (toc_index_entries (cx_index X) (\<lambda>field fingerprint ((v, w, d), st).
                   bindE (visited_key (cx_ext X) v fingerprint) (\<lambda>key.
                   bindE (writer_index X key (lo_uri (fd_location field)) (lo_offset (fd_location field)) (lo_length (fd_location field)) (w, d, st)) (\<lambda>(w, d, st).
                     Inr ((v, w, d), st))))
                 (indexTimestamp v) (ld_index l) ((v, w, d), st)) (\<lambda>((v, w, d), st). Inr (v, w, d, st))))"

definition reconsolidateIndexesAndTocs ::
    "('u :: linorder, 'd, 's) cat_env \<Rightarrow> 'u cat_writer \<times> ('d, 's) files \<Rightarrow> ('u cat_writer \<times> ('d, 's) files) res" where
  "reconsolidateIndexesAndTocs X = (\<lambda>(w, d, st).
     bindE (loadIndexes (cx_fuel X) (cx_paths X) d (toc_index_of_stream (cx_index X) (cx_preload X) (cx_garbage X)) (cw_handler w) st)
       (\<lambda>(readIndexes, subtocs, h, st).
     bindE (foldE (consolidate_index X) readIndexes (new_visitor, w\<lparr>cw_handler := h\<rparr>, d, st)) (\<lambda>(_, w, d, st).
     bindE (writer_clean X (w, d, st)) (\<lambda>(w, d, st).
       let w = closeIndexes w;
           own = filter (\<lambda>l. \<not> ld_inSubtoc l) readIndexes;
           P = cx_paths X; version = th_version (cw_handler w)
       in bindE (appendBlock (cx_fuel X) P (cx_toc X)
                   (map (\<lambda>l. clear_record P (cx_toc X) version (po_base P (tx_path (ld_index l))) (tx_offset (ld_index l))) own @
                    map (\<lambda>s. clear_record P (cx_toc X) version s 0) (sorted_list_of_set subtocs))
                   (cw_handler w) d) (\<lambda>(h, d). Inr (w\<lparr>cw_handler := h\<rparr>, d, st))))))"

section \<open>Control files and identifiers\<close>

text \<open>The file of the identifier at a position of the bit set.\<close>

definition lock_name :: "nat \<Rightarrow> string" where
  "lock_name j = [''list.lock'', ''retrieve.lock'', ''archive.lock'', ''wipe.lock'', ''duplicates.allow''] ! j"

lemma below_5: "j < (5::nat) \<longleftrightarrow> j = 0 \<or> j = 1 \<or> j = 2 \<or> j = 3 \<or> j = 4"
  by arith

lemma control_file_mask: "j < 5 \<Longrightarrow> control_file (mask_at j) = Inr (lock_name j)"
  by (auto simp: below_5 control_file_def controlfile_lookup_def lock_name_def mask_at_def)

lemma control_file_value: "i \<noteq> IdNone \<Longrightarrow> control_file (id_value i) = Inr (lock_name (id_position i))"
  by (cases i) (simp_all add: control_file_def controlfile_lookup_def lock_name_def)

lemma lock_name_inject: "j < 5 \<Longrightarrow> k < 5 \<Longrightarrow> lock_name j = lock_name k \<longleftrightarrow> j = k"
  by (auto simp: below_5 lock_name_def)

lemma path_exists_simps [simp]:
  "path_exists (d\<lparr>dk_files := f # dk_files d\<rparr>) p \<longleftrightarrow> p = f \<or> path_exists d p"
  "path_exists (d\<lparr>dk_tocs := dict_erase f (dk_tocs d), dk_files := removeAll f (dk_files d)\<rparr>) p \<longleftrightarrow> p \<noteq> f \<and> path_exists d p"
  by (auto simp: path_exists_def)

lemma control_step_one:
  assumes "\<not> te_onlyCreator v" "inj_on (po_join P (th_directory h)) (lock_name ` {..<5})" "j < 5" "action \<noteq> ActionNone"
  obtains d' where "control_step n P v action (mask_at j) (h, d) = Inr (h, d')"
    and "\<And>k. k < 5 \<Longrightarrow> path_exists d' (fullControlFilePath P h (lock_name k)) \<longleftrightarrow>
           (if k = j then action = Disable else path_exists d (fullControlFilePath P h (lock_name k)))"
proof -
  have path: "fullControlFilePath P h (lock_name k) = fullControlFilePath P h (lock_name j) \<longleftrightarrow> k = j" if "k < 5" for k
    using assms(2,3) that inj_on_eq_iff [OF assms(2), of "lock_name k" "lock_name j"]
    by (simp add: fullControlFilePath_def lock_name_inject)
  show thesis
    using assms path
    by (cases action; intro that;
        simp add: control_step_def control_file_mask createControlFile_def removeControlFile_def checkUID_def Let_def)
       auto
qed

lemma control_all:
  assumes "\<not> te_onlyCreator v" "inj_on (po_join P (th_directory h)) (lock_name ` {..<5})" "action \<noteq> ActionNone"
    and "\<forall>j \<in> set js. j < 5"
  shows "\<exists>d'. foldE (control_step n P v action) (map mask_at js) (h, d) = Inr (h, d') \<and>
    (\<forall>k < 5. path_exists d' (fullControlFilePath P h (lock_name k)) \<longleftrightarrow>
       (if k \<in> set js then action = Disable else path_exists d (fullControlFilePath P h (lock_name k))))"
  using assms(4)
proof (induction js arbitrary: d)
  case (Cons j js)
  obtain d1 where step: "control_step n P v action (mask_at j) (h, d) = Inr (h, d1)"
    and d1: "\<And>k. k < 5 \<Longrightarrow> path_exists d1 (fullControlFilePath P h (lock_name k)) \<longleftrightarrow>
           (if k = j then action = Disable else path_exists d (fullControlFilePath P h (lock_name k)))"
    using control_step_one [OF assms(1,2) _ assms(3), of j] Cons.prems by auto
  obtain d2 where "foldE (control_step n P v action) (map mask_at js) (h, d1) = Inr (h, d2)"
    and "\<forall>k < 5. path_exists d2 (fullControlFilePath P h (lock_name k)) \<longleftrightarrow>
       (if k \<in> set js then action = Disable else path_exists d1 (fullControlFilePath P h (lock_name k)))"
    using Cons.IH [of d1] Cons.prems by auto
  then show ?case by (auto simp: step d1)
qed simp

section \<open>The checks of a mount\<close>

definition overlay_step :: "string set \<Rightarrow> key \<Rightarrow> string \<times> string \<Rightarrow> unit res" where
  "overlay_step variableKeys otherKey = (\<lambda>(k, v).
     case key_find otherKey k of
       None \<Rightarrow> Inl (UserError ''Keys insufficiently matching for mount'')
     | Some v' \<Rightarrow>
         if v \<noteq> v' \<and> k \<notin> variableKeys then Inl (UserError ''Key not allowed to differ between DBs'') else Inr ())"

lemma overlay_check_steps:
  "overlay_check variableKeys dbKey otherKey =
     (if key_size otherKey \<noteq> key_size dbKey then Inl (UserError ''Keys insufficiently matching for mount'')
      else foldE (\<lambda>kv _. overlay_step variableKeys otherKey kv) (key_dict dbKey) ())"
  by (simp add: overlay_check_def overlay_step_def case_prod_unfold)

lemma foldE_unit_iff: "foldE (\<lambda>x _. f x) xs () = Inr () \<longleftrightarrow> (\<forall>x \<in> set xs. f x = Inr ())"
  by (induction xs) (auto simp: bindE_eq_Inr)

lemma foldE_unit_error: "foldE (\<lambda>x _. f x) xs () = Inl e \<Longrightarrow> \<exists>x \<in> set xs. f x = Inl e"
  by (induction xs) (auto simp: bindE_eq_Inl)

lemma overlay_step_iff:
  "overlay_step V other (k, v) = Inr () \<longleftrightarrow> (\<exists>v'. key_find other k = Some v' \<and> (k \<in> V \<or> v = v'))"
  by (auto simp: overlay_step_def split: option.splits)

lemma overlay_step_error: "overlay_step V other kv = Inl e \<Longrightarrow> \<exists>m. e = UserError m"
  by (auto simp: overlay_step_def split: option.splits prod.splits if_splits)

lemma key_find_map: "key_find k = map_of (key_dict k)"
  by (rule ext) (simp add: key_find_def)

lemma key_size_card:
  assumes "key_ok k"
  shows "key_size k = card (dom (key_find k))"
proof -
  have "distinct (map fst (key_dict k))" using assms dict_ok_distinct [of "key_dict k"] by (simp add: key_ok_def)
  then have "card (fst ` set (key_dict k)) = length (key_dict k)" by (metis distinct_card length_map set_map)
  moreover have "dom (key_find k) = fst ` set (key_dict k)"
    unfolding key_find_map by (rule dom_map_of_conv_image_fst)
  ultimately show ?thesis by (simp add: key_size_def)
qed

lemma subset_card_iff: "finite B \<Longrightarrow> A \<subseteq> B \<and> card B = card A \<longleftrightarrow> A = B"
  using card_subset_eq [of B A] by auto

lemma map_agree_iff:
  "(\<forall>k v. m k = Some v \<longrightarrow> (\<exists>v'. n k = Some v' \<and> (k \<in> V \<or> v = v'))) \<longleftrightarrow>
   dom m \<subseteq> dom n \<and> (\<forall>k \<in> dom m. k \<notin> V \<longrightarrow> m k = n k)" (is "?l \<longleftrightarrow> ?r")
proof
  assume l: ?l
  have "n k \<noteq> None \<and> (k \<notin> V \<longrightarrow> m k = n k)" if "k \<in> dom m" for k
    using l that by (cases "m k") force+
  then show ?r by blast
next
  assume r: ?r
  show ?l
  proof (intro allI impI)
    fix k v assume v: "m k = Some v"
    then obtain v' where "n k = Some v'" using r by (cases "n k") auto
    then show "\<exists>v'. n k = Some v' \<and> (k \<in> V \<or> v = v')" using r v by force
  qed
qed

lemma overlay_loop_iff:
  assumes "key_ok dbKey"
  shows "foldE (\<lambda>kv _. overlay_step V otherKey kv) (key_dict dbKey) () = Inr () \<longleftrightarrow>
    dom (key_find dbKey) \<subseteq> dom (key_find otherKey) \<and>
    (\<forall>k \<in> dom (key_find dbKey). k \<notin> V \<longrightarrow> key_find dbKey k = key_find otherKey k)"
proof -
  have "dict_ok (key_dict dbKey)" using assms by (simp add: key_ok_def)
  then have "(\<forall>kv \<in> set (key_dict dbKey). overlay_step V otherKey kv = Inr ()) \<longleftrightarrow>
      (\<forall>k v. key_find dbKey k = Some v \<longrightarrow> overlay_step V otherKey (k, v) = Inr ())"
    using dict_ok_in_set [of "key_dict dbKey"] by (simp add: key_find_map split_paired_Ball_Sigma Ball_def)
  also have "\<dots> \<longleftrightarrow> (\<forall>k v. key_find dbKey k = Some v \<longrightarrow> (\<exists>v'. key_find otherKey k = Some v' \<and> (k \<in> V \<or> v = v')))"
    by (simp only: overlay_step_iff)
  also have "\<dots> \<longleftrightarrow> dom (key_find dbKey) \<subseteq> dom (key_find otherKey) \<and>
      (\<forall>k \<in> dom (key_find dbKey). k \<notin> V \<longrightarrow> key_find dbKey k = key_find otherKey k)"
    by (rule map_agree_iff)
  finally show ?thesis by (simp only: foldE_unit_iff)
qed

section \<open>Properties\<close>

text \<open>
  C36: Control files are switches that act independently. Disabling or enabling a set of identifiers of a
  database returns, and afterwards every operation of the set reports what was asked for, while every
  other operation reports what it did before. (The files of the five identifiers are distinct paths, no
  owner is to be checked, and the set has no other identifiers.)
\<close>
theorem control_switches:
  assumes "\<not> te_onlyCreator v" and "inj_on (po_join P (th_directory h)) (snd ` set controlfile_lookup)" and "action \<noteq> ActionNone"
    and "\<forall>j. bit identifiers j \<longrightarrow> j < 5"
  shows "\<exists>d'. toc_control n P v action identifiers (h, d) = Inr (h, d') \<and>
    (\<forall>i. i \<noteq> IdNone \<longrightarrow> toc_enabled P d' h i =
       (if ids_enabled identifiers i then toc_enabled P d h i else Inr (action = Enable)))"
proof -
  have inj: "inj_on (po_join P (th_directory h)) (lock_name ` {..<5})"
    by (rule inj_on_subset [OF assms(2)]) (auto simp: lock_name_def controlfile_lookup_def lessThan_Suc numeral_eq_Suc)
  obtain d' where d': "foldE (control_step n P v action) (map mask_at (filter (bit identifiers) [0..<16])) (h, d) = Inr (h, d')"
    and "\<forall>k < 5. path_exists d' (fullControlFilePath P h (lock_name k)) \<longleftrightarrow>
       (if k \<in> set (filter (bit identifiers) [0..<16]) then action = Disable
        else path_exists d (fullControlFilePath P h (lock_name k)))"
    using control_all [OF assms(1) inj assms(3), of "filter (bit identifiers) [0..<16]" n d] assms(4) by auto
  moreover have "id_position i < 5" for i by (cases i) simp_all
  moreover have "action = Enable \<longleftrightarrow> action \<noteq> Disable" using assms(3) by (cases action) simp_all
  ultimately show ?thesis
    by (intro exI [of _ d'])
       (auto simp: toc_control_def iterate_all_bits toc_enabled_def control_file_value ids_enabled_bit id_position_less)
qed

lemma control_switches_witness:
  "\<exists>d'. toc_control 1 sample_paths sample_env Disable 0x12 (sample_handler, sample_disk) = Inr (sample_handler, d') \<and>
     toc_enabled sample_paths d' sample_handler IdUniqueRoot = Inr False \<and>
     toc_enabled sample_paths d' sample_handler IdArchive = Inr True"
proof -
  have two: "(0x12 :: 16 word) = mask_at 1 OR mask_at 4" by (simp add: mask_at_def)
  have bits: "\<forall>j. bit (0x12 :: 16 word) j \<longrightarrow> j < 5"
    unfolding two by (auto simp: bit_or_iff bit_mask_at)
  have "inj_on (po_join sample_paths (th_directory sample_handler)) (snd ` set controlfile_lookup)"
    by (simp add: inj_on_def sample_paths_def)
  from control_switches [OF _ this _ bits, of sample_env Disable 1 sample_disk]
  obtain d' where d': "toc_control 1 sample_paths sample_env Disable 0x12 (sample_handler, sample_disk) = Inr (sample_handler, d')"
    and all: "\<forall>i. i \<noteq> IdNone \<longrightarrow> toc_enabled sample_paths d' sample_handler i =
       (if ids_enabled 0x12 i then toc_enabled sample_paths sample_disk sample_handler i else Inr (Disable = Enable))"
    by (auto simp: sample_env_def)
  have "\<not> ids_enabled 0x12 IdUniqueRoot" "ids_enabled 0x12 IdArchive"
    unfolding two by (simp_all add: ids_enabled_bit bit_or_iff bit_mask_at)
  moreover have "toc_enabled sample_paths sample_disk sample_handler IdArchive = Inr True"
    by (simp add: toc_enabled_def control_file_def controlfile_lookup_def fullControlFilePath_def sample_facts)
      (simp add: path_exists_def sample_disk_def sample_paths_def)
  ultimately show ?thesis using d' all by (intro exI [of _ d']) simp
qed

text \<open>
  \<open>TocCatalogueReader::selectIndex\<close> forgets that nothing matched: selecting a key that no index has
  returns false, and selecting the same key again, with nothing changed, returns true.
\<close>
lemma selectIndex_twice:
  assumes "\<not> key_eq (cr_current r) key"
    and "\<forall>(i, m) \<in> set (cr_indexes r). \<not> key_eq (ib_key (tx_base i)) key"
  shows "fst (reader_selectIndex key r) = False \<and>
    fst (reader_selectIndex key (snd (reader_selectIndex key r))) = True \<and>
    cr_matching (snd (reader_selectIndex key (snd (reader_selectIndex key r)))) = []"
proof -
  have "\<not> key_eq (ib_key (tx_base (fst (cr_indexes r ! n)))) key" if "n < length (cr_indexes r)" for n
    using assms(2) nth_mem [OF that] by (cases "cr_indexes r ! n") auto
  then have "filter (\<lambda>n. key_eq (ib_key (tx_base (fst (cr_indexes r ! n)))) key) [0..<length (cr_indexes r)] = []"
    by (simp add: filter_empty_conv)
  then show ?thesis
    using assms(1) by (simp add: reader_selectIndex_def key_eq_def)
qed

lemma selectIndex_twice_witness:
  "let r = \<lparr>cr_handler = sample_handler, cr_indexes = [(sample_toc_index, new_key None)], cr_matching = [], cr_current = new_key None\<rparr>
   in fst (reader_selectIndex sample_key r) = False \<and>
      fst (reader_selectIndex sample_key (snd (reader_selectIndex sample_key r))) = True"
proof -
  let ?r = "\<lparr>cr_handler = sample_handler, cr_indexes = [(sample_toc_index, new_key None)], cr_matching = [], cr_current = new_key None\<rparr>"
  have "\<not> key_eq (cr_current ?r) sample_key" "\<forall>(i, m) \<in> set (cr_indexes ?r). \<not> key_eq (ib_key (tx_base i)) sample_key"
    by (simp_all add: sample_toc_index_members key_eq_def key_of_list_def)
      (simp_all add: sample_key_def push_key_def new_key_def dict_emplace_def)
  from selectIndex_twice [OF this] show ?thesis by (simp add: Let_def)
qed

text \<open>
  A database may be mounted on another exactly when both keys have the same keywords and their values
  differ in none but the variable keywords; otherwise \<open>overlayDB\<close> throws a user error before it writes.
\<close>
lemma overlay_check_iff:
  assumes "key_ok dbKey" and "key_ok otherKey"
  shows "(overlay_check variableKeys dbKey otherKey = Inr () \<longleftrightarrow>
      dom (key_find dbKey) = dom (key_find otherKey) \<and>
      (\<forall>k. k \<notin> variableKeys \<longrightarrow> key_find dbKey k = key_find otherKey k)) \<and>
    (overlay_check variableKeys dbKey otherKey = Inr () \<or> (\<exists>m. overlay_check variableKeys dbKey otherKey = Inl (UserError m)))"
proof -
  let ?loop = "foldE (\<lambda>kv _. overlay_step variableKeys otherKey kv) (key_dict dbKey) ()"
  let ?A = "dom (key_find dbKey)" and ?B = "dom (key_find otherKey)"
  have fin: "finite ?B" by (simp add: key_find_map finite_dom_map_of)
  have same: "?A \<subseteq> ?B \<and> key_size otherKey = key_size dbKey \<longleftrightarrow> ?A = ?B"
    unfolding key_size_card [OF assms(1)] key_size_card [OF assms(2)] by (rule subset_card_iff [OF fin])
  have outside: "key_find dbKey k = key_find otherKey k" if "?A = ?B" "k \<notin> ?A" for k
    using that by (metis domIff)
  have "?loop = Inr () \<and> key_size otherKey = key_size dbKey \<longleftrightarrow>
      ?A = ?B \<and> (\<forall>k. k \<notin> variableKeys \<longrightarrow> key_find dbKey k = key_find otherKey k)"
    unfolding overlay_loop_iff [OF assms(1)] using same outside by metis
  moreover have "?loop = Inr () \<or> (\<exists>m. ?loop = Inl (UserError m))"
    using foldE_unit_error [of "overlay_step variableKeys otherKey" "key_dict dbKey"] overlay_step_error
    by (cases ?loop) force+
  ultimately show ?thesis by (auto simp: overlay_check_steps)
qed

lemma overlay_check_iff_witness:
  "overlay_check {''class''} (od_dict_key ''od'') (od_dict_key ''rd'') = Inr () \<and>
   (\<exists>m. overlay_check {} (od_dict_key ''od'') (od_dict_key ''rd'') = Inl (UserError m))"
proof -
  have ok: "key_ok (od_dict_key ''od'')" "key_ok (od_dict_key ''rd'')" by (simp_all add: od_dict_key_def key_ok_def dict_ok_def)
  have find: "key_find (od_dict_key v) k = (if k = ''class'' then Some v else None)" for v k
    by (simp add: od_dict_key_def key_find_def)
  have differ: "\<not> (\<forall>k. k \<notin> {} \<longrightarrow> key_find (od_dict_key ''od'') k = key_find (od_dict_key ''rd'') k)"
    by (auto simp: find intro!: exI [of _ "''class''"])
  have same: "dom (key_find (od_dict_key ''od'')) = dom (key_find (od_dict_key ''rd''))" by (simp add: find dom_def)
  have "overlay_check {''class''} (od_dict_key ''od'') (od_dict_key ''rd'') = Inr ()"
    using same by (simp add: overlay_check_iff [OF ok, THEN conjunct1]) (simp add: find)
  moreover have "overlay_check {} (od_dict_key ''od'') (od_dict_key ''rd'') \<noteq> Inr ()"
    unfolding overlay_check_iff [OF ok, THEN conjunct1] using differ by blast
  ultimately show ?thesis using overlay_check_iff [OF ok, of "{}"] by blast
qed

end
