(* ===== verification/FDB_Roots.thy ===== *)
theory FDB_Roots
  imports FDB_Catalogue
begin

text \<open>
  Where a database goes: the roots, the file spaces and their handlers
  (\<open>src/fdb5/toc/Root.cc\<close>, \<open>FileSpace.cc\<close>, \<open>FileSpaceHandler.cc\<close>, \<open>ExpverFileSpaceHandler.cc\<close>) and the
  names of the databases under a root (\<open>DbPathNamer\<close> of \<open>RootManager.cc\<close>). The handler for experiments
  keeps its choices in a file that several processes append to: it is also a transition system, whose
  steps are the reads and the locked appends of any number of processes.
\<close>

section \<open>What is taken from the library and the system\<close>

text \<open>
  In order: \<open>Regex(p).match(s)\<close>, \<open>Regex::escape\<close>, \<open>Tokenizer(separators)\<close>, \<open>Translator<string,bool>\<close>,
  \<open>Resource(name, default)\<close>, \<open>Config::expandPath\<close>, whether \<open>stat\<close> finds a directory at a path,
  whether a file can be opened for writing, and the strategies of \<open>eckit::FileSpaceStrategies\<close>, which may keep a state of their own.
\<close>

datatype strategy =
    LeastUsed | LeastUsedPercent | RoundRobin | PureRandom | WeightedRandom | WeightedRandomPercent

record 's root_env =
  re_match :: "string \<Rightarrow> string \<Rightarrow> bool"
  re_escape :: "string \<Rightarrow> string"
  re_tokens :: "string \<Rightarrow> string \<Rightarrow> string list"
  re_bool :: "string \<Rightarrow> bool res"
  re_resource :: "string \<Rightarrow> string \<Rightarrow> string"
  re_expand :: "string \<Rightarrow> string"
  re_isDir :: "string \<Rightarrow> bool"
  re_writable :: "string \<Rightarrow> bool"
  re_strategy :: "strategy \<Rightarrow> string list \<Rightarrow> 's \<Rightarrow> (string \<times> 's) res"

text \<open>A strategy chooses one of the paths it is given.\<close>

definition strategy_law :: "'s root_env \<Rightarrow> bool" where
  "strategy_law R \<longleftrightarrow>
     (\<forall>st ps s p s'. re_strategy R st ps s = Inr (p, s') \<longrightarrow> p \<in> set ps)"

section \<open>Lines of a configuration file\<close>

text \<open>
  \<open>while (in.getline(line, sizeof(line)))\<close>: a line that does not fit the buffer sets the failbit and
  ends the loop; what is read is a C string, which ends at a zero character. Then the line is cut at
  blanks, empty parts are erased, and empty lines and comments are passed over.
\<close>

fun text_lines :: "string \<Rightarrow> string list" where
  "text_lines [] = []"
| "text_lines (c # cs) =
     (if c = CHR 0x0A then [] # text_lines cs
      else (case text_lines cs of [] \<Rightarrow> [[c]] | l # ls \<Rightarrow> (c # l) # ls))"

definition getlines :: "nat \<Rightarrow> string \<Rightarrow> string list" where
  "getlines buffer content =
     map (takeWhile (\<lambda>c. c \<noteq> CHR 0x00)) (takeWhile (\<lambda>l. length l < buffer) (text_lines content))"

definition config_tokens :: "ext \<Rightarrow> nat \<Rightarrow> string \<Rightarrow> string list list" where
  "config_tokens e buffer content =
     filter (\<lambda>s. s \<noteq> [] \<and> hd (hd s) \<noteq> CHR ''#'')
       (map (\<lambda>line. filter (\<lambda>t. t \<noteq> []) (x_tokenize e CHR '' '' False line)) (getlines buffer content))"

section \<open>Names of databases\<close>

record namer =
  dn_regex :: "(string, string) dict"
  dn_format :: string

definition crack_part :: "ext \<Rightarrow> string \<Rightarrow> (string, string) dict \<Rightarrow> (string, string) dict res" where
  "crack_part e p d =
     (case x_tokenize e CHR ''='' False p of
        [k, v] \<Rightarrow> Inr (dict_put k v d)
      | [k] \<Rightarrow> Inr (dict_put k ''[^:/]*'' d)
      | _ \<Rightarrow> Inl (BadValue ''Malformed regex in DbNamer''))"

definition crack :: "ext \<Rightarrow> string \<Rightarrow> (string, string) dict res" where
  "crack e s = foldE (crack_part e) (x_tokenize e CHR '','' False s) []"

definition new_namer :: "ext \<Rightarrow> string \<Rightarrow> string \<Rightarrow> namer res" where
  "new_namer e keyregex fmt =
     bindE (crack e keyregex) (\<lambda>d. Inr \<lparr>dn_regex = d, dn_format = fmt\<rparr>)"

text \<open>\<open>match(k, missing)\<close>; no \<open>missing\<close> is the null pointer.\<close>

definition namer_match :: "'s root_env \<Rightarrow> namer \<Rightarrow> key \<Rightarrow> string option \<Rightarrow> bool" where
  "namer_match R n k missing \<longleftrightarrow>
     key_size k = length (dn_regex n) \<and>
     list_all (\<lambda>(keyword, v).
       case map_of (dn_regex n) keyword of
         None \<Rightarrow> False
       | Some re \<Rightarrow> missing = Some v \<or> re_match R re v) (key_dict k)"

text \<open>
  The value that replaces a variable. The code dereferences the result of \<open>keyregex_.find\<close>, which is
  the end of the map when the variable is not in the regular expressions of the namer.
\<close>

definition var_value :: "namer \<Rightarrow> key \<Rightarrow> string option \<Rightarrow> string \<Rightarrow> string res" where
  "var_value n k missing w =
     (case key_find k w of
        None \<Rightarrow> Inl (UserError ''substituteVars: cannot find a value'')
      | Some v \<Rightarrow>
          (if missing \<noteq> None \<and> (missing = Some v \<or> v = []) then
             (case map_of (dn_regex n) w of
                None \<Rightarrow> Inl (UndefinedBehaviour ''keyregex_.find(word)->second'') | Some re \<Rightarrow> Inr re)
           else Inr v))"

text \<open>The loop over the characters: the name of the variable being read, if any, and the result.\<close>

fun subst_loop :: "(string \<Rightarrow> string res) \<Rightarrow> string \<Rightarrow> string option \<Rightarrow> string \<Rightarrow> string res" where
  "subst_loop f [] None result = Inr result"
| "subst_loop f [] (Some w) result = Inl (UserError ''substituteVars: missing }'')"
| "subst_loop f (c # cs) None result =
     (if c = CHR ''{'' then subst_loop f cs (Some []) result
      else if c = CHR ''}'' then Inl (UserError ''substituteVars: unexpected }'')
      else subst_loop f cs None (result @ [c]))"
| "subst_loop f (c # cs) (Some w) result =
     (if c = CHR ''{'' then Inl (UserError ''substituteVars: unexpected {'')
      else if c = CHR ''}'' then bindE (f w) (\<lambda>v. subst_loop f cs None (result @ v))
      else subst_loop f cs (Some (w @ [c])) result)"

definition substituteVars :: "namer \<Rightarrow> string \<Rightarrow> key \<Rightarrow> string option \<Rightarrow> string res" where
  "substituteVars n s k missing = subst_loop (var_value n k missing) s None []"

definition namer_name :: "namer \<Rightarrow> key \<Rightarrow> string res" where
  "namer_name n k = substituteVars n (dn_format n) k None"

definition namePartial :: "namer \<Rightarrow> key \<Rightarrow> string \<Rightarrow> string res" where
  "namePartial n k missing = substituteVars n (dn_format n) k (Some missing)"

section \<open>Roots\<close>

record root =
  rt_path :: string
  rt_filespace :: string
  rt_checked :: bool
  rt_exists :: bool
  rt_ids :: control_ids

definition new_root :: "string \<Rightarrow> string \<Rightarrow> bool \<Rightarrow> bool \<Rightarrow> bool \<Rightarrow> bool \<Rightarrow> root" where
  "new_root path filespace lst retrieve archive wipe =
     (let ids = 0;
          ids = (if \<not> lst then ids_add ids IdList else ids);
          ids = (if \<not> retrieve then ids_add ids IdRetrieve else ids);
          ids = (if \<not> archive then ids_add ids IdArchive else ids);
          ids = (if \<not> wipe then ids_add ids IdWipe else ids)
      in \<lparr>rt_path = path, rt_filespace = filespace, rt_checked = False, rt_exists = False, rt_ids = ids\<rparr>)"

text \<open>\<open>exists()\<close> asks the system once and keeps the answer.\<close>

definition root_exists :: "'s root_env \<Rightarrow> root \<Rightarrow> bool \<times> root" where
  "root_exists R r =
     (if rt_checked r then (rt_exists r, r)
      else let b = re_isDir R (rt_path r) in (b, r\<lparr>rt_exists := b, rt_checked := True\<rparr>))"

definition root_enabled :: "root \<Rightarrow> control_id \<Rightarrow> bool" where
  "root_enabled r i = ids_enabled (rt_ids r) i"

section \<open>File spaces\<close>

record file_space =
  fs_name :: string
  fs_handler :: string
  fs_regex :: string
  fs_roots :: "root list"

record toc_path =
  tp_directory :: string
  tp_ids :: control_ids

text \<open>
  The loop that \<open>enabled\<close> and \<open>all\<close> share: the paths of the selected roots that exist, in order, and the
  roots with their answers kept.
\<close>

fun present_roots :: "'s root_env \<Rightarrow> (root \<Rightarrow> bool) \<Rightarrow> root list \<Rightarrow> string list \<times> root list" where
  "present_roots R sel [] = ([], [])"
| "present_roots R sel (r # rs) =
     (let (b, r) = (if sel r then root_exists R r else (False, r));
          (ps, rs) = present_roots R sel rs
      in ((if b then [rt_path r] else []) @ ps, r # rs))"

definition space_enabled :: "'s root_env \<Rightarrow> control_id \<Rightarrow> file_space \<Rightarrow> string list \<times> file_space" where
  "space_enabled R i fs =
     (let (ps, rs) = present_roots R (\<lambda>r. root_enabled r i) (fs_roots fs) in (ps, fs\<lparr>fs_roots := rs\<rparr>))"

text \<open>The versions that fill a \<open>StringSet\<close>: a sorted list without duplicates.\<close>

definition set_insert_all :: "string list \<Rightarrow> string list \<Rightarrow> string list" where
  "set_insert_all ps roots = fold insort_insert ps roots"

definition space_all :: "'s root_env \<Rightarrow> file_space \<Rightarrow> string list \<Rightarrow> string list \<times> file_space" where
  "space_all R fs roots =
     (let (ps, rs) = present_roots R (\<lambda>r. True) (fs_roots fs)
      in (set_insert_all ps roots, fs\<lparr>fs_roots := rs\<rparr>))"

definition space_enabled_set ::
    "'s root_env \<Rightarrow> control_id \<Rightarrow> file_space \<Rightarrow> string list \<Rightarrow> string list \<times> file_space" where
  "space_enabled_set R i fs roots =
     (let (ps, rs) = present_roots R (\<lambda>r. root_enabled r i) (fs_roots fs)
      in (set_insert_all ps roots, fs\<lparr>fs_roots := rs\<rparr>))"

definition space_match :: "'s root_env \<Rightarrow> file_space \<Rightarrow> string \<Rightarrow> bool" where
  "space_match R fs s = re_match R (fs_regex fs) s"

definition space_roots :: "file_space \<Rightarrow> string list" where
  "space_roots fs = map rt_path (fs_roots fs)"

text \<open>
  \<open>existsDB\<close>: the count of databases without \<open>duplicates.allow\<close>, and the root chosen so far, which is
  there exactly when \<open>found\<close> is set.
\<close>

fun exists_loop ::
    "'s root_env \<Rightarrow> path_ops \<Rightarrow> disk \<Rightarrow> string \<Rightarrow> root list \<Rightarrow> nat \<Rightarrow> toc_path option \<Rightarrow>
     (nat \<times> toc_path option \<times> root list) res"
where
  "exists_loop R P d db [] count found = Inr (count, found, [])"
| "exists_loop R P d db (r # rs) count found =
     (let (b, r) = (if root_enabled r IdList then root_exists R r else (False, r));
          fullDB = po_join P (rt_path r) db
      in bindE
           (if b \<and> path_exists d fullDB \<and> path_exists d (po_join P fullDB ''toc'') then
              bindE (control_file (id_value IdUniqueRoot)) (\<lambda>name.
                let allow = path_exists d (po_join P fullDB name)
                in Inr (if allow then count else count + 1,
                        if count = 0 \<or> allow then Some \<lparr>tp_directory = rt_path r, tp_ids = rt_ids r\<rparr>
                        else found))
            else Inr (count, found)) (\<lambda>(count, found).
         bindE (exists_loop R P d db rs count found) (\<lambda>(count, found, rs).
           Inr (count, found, r # rs))))"

definition existsDB ::
    "'s root_env \<Rightarrow> path_ops \<Rightarrow> disk \<Rightarrow> string \<Rightarrow> file_space \<Rightarrow> (toc_path option \<times> file_space) res"
where
  "existsDB R P d db fs =
     bindE (exists_loop R P d db (fs_roots fs) 0 None) (\<lambda>(count, found, rs).
       if count \<le> 1 then Inr (found, fs\<lparr>fs_roots := rs\<rparr>)
       else Inl (UserError ''Found multiple FDB roots matching key''))"


section \<open>Handlers of file spaces\<close>

datatype handler = HFirst | HStrategy strategy | HExpver

type_synonym handlers = "(string, handler) dict"

definition handler_lookup :: "handlers \<Rightarrow> string \<Rightarrow> handler res" where
  "handler_lookup H name =
     (case map_of H name of
        None \<Rightarrow> Inl (SeriousBug (''No FileSpaceHandler called '' @ name)) | Some h \<Rightarrow> Inr h)"

definition handler_regist :: "string \<Rightarrow> handler \<Rightarrow> handlers \<Rightarrow> handlers res" where
  "handler_regist name h H =
     bindE (assertE (map_of H name = None) ''j == m->end()'') (\<lambda>_. Inr (dict_put name h H))"

definition handler_unregist :: "string \<Rightarrow> handlers \<Rightarrow> handlers res" where
  "handler_unregist name H =
     bindE (assertE (map_of H name \<noteq> None) ''j != m->end()'') (\<lambda>_. Inr (dict_erase name H))"

definition static_handlers :: "(string \<times> handler) list" where
  "static_handlers =
     [(''Default'', HFirst), (''First'', HFirst), (''LeastUsed'', HStrategy LeastUsed),
      (''LeastUsedPercent'', HStrategy LeastUsedPercent), (''RoundRobin'', HStrategy RoundRobin),
      (''PureRandom'', HStrategy PureRandom), (''Random'', HStrategy PureRandom),
      (''WeightedRandom'', HStrategy WeightedRandom),
      (''WeightedRandomPercent'', HStrategy WeightedRandomPercent), (''expver'', HExpver)]"

text \<open>
  The state that outlives a call, also a call that throws: the text files there are, the table of
  the handler for experiments, and the state of the strategies.
\<close>

record 's sys =
  sy_files :: "(string, string) dict"
  sy_table :: "(string, string) dict"
  sy_strategy :: 's

type_synonym ('s, 'a) fs_step = "(file_space \<times> 's sys, 'a) step"

definition select_first :: "'s root_env \<Rightarrow> ('s, string) fs_step" where
  "select_first R = (\<lambda>(fs, sys).
     case space_enabled R IdArchive fs of (roots, fs) \<Rightarrow>
       (if roots = [] then Inl (UnexpectedState ''No writable roots available'') else Inr (hd roots), (fs, sys)))"

definition select_strategy :: "'s root_env \<Rightarrow> strategy \<Rightarrow> ('s, string) fs_step" where
  "select_strategy R st = (\<lambda>(fs, sys).
     case space_enabled R IdArchive fs of (roots, fs) \<Rightarrow>
       (case re_strategy R st roots (sy_strategy sys) of
          Inl e \<Rightarrow> (Inl e, (fs, sys))
        | Inr (p, s) \<Rightarrow> (Inr p, (fs, sys\<lparr>sy_strategy := s\<rparr>))))"

subsection \<open>The handler for experiments\<close>

text \<open>\<open>load()\<close>: what was read before a bad line stays in the table.\<close>

fun load_lines :: "string list list \<Rightarrow> (string, string) dict \<Rightarrow> unit res \<times> (string, string) dict" where
  "load_lines [] t = (Inr (), t)"
| "load_lines (s # ss) t =
     (case s of [k, v] \<Rightarrow> load_lines ss (dict_put k v t) | _ \<Rightarrow> (Inl (IOError ''Bad line''), t))"

definition expver_load :: "ext \<Rightarrow> string \<Rightarrow> ('s, unit) fs_step" where
  "expver_load e fname = (\<lambda>(fs, sys).
     case map_of (sy_files sys) fname of
       None \<Rightarrow> (Inl (IOError fname), (fs, sys))
     | Some content \<Rightarrow>
         (case load_lines (config_tokens e 1024 content) (sy_table sys) of
            (r, t) \<Rightarrow> (r, (fs, sys\<lparr>sy_table := t\<rparr>))))"

text \<open>\<open>append(expver, path)\<close>, under the lock of the file.\<close>

fun find_line :: "string \<Rightarrow> string list list \<Rightarrow> string option res" where
  "find_line expver [] = Inr None"
| "find_line expver (s # ss) =
     (case s of
        [k, v] \<Rightarrow> (if k = expver then Inr (Some v) else find_line expver ss)
      | _ \<Rightarrow> Inl (IOError ''Bad line''))"

definition expver_line :: "string \<Rightarrow> string \<Rightarrow> string" where
  "expver_line expver path = expver @ '' '' @ path @ [CHR 0x0A]"

definition append_content :: "ext \<Rightarrow> string \<Rightarrow> string \<Rightarrow> bool \<Rightarrow> string \<Rightarrow> (string \<times> string) res" where
  "append_content e expver path can_write content =
     bindE (find_line expver (config_tokens e (4 * 1024) content)) (\<lambda>found.
       case found of
         Some p \<Rightarrow> Inr (p, content)
       | None \<Rightarrow>
           (if can_write then Inr (path, content @ expver_line expver path)
            else Inl (IOError ''WriteError'')))"

definition expver_append :: "'s root_env \<Rightarrow> ext \<Rightarrow> string \<Rightarrow> string \<Rightarrow> string \<Rightarrow> ('s, string) fs_step" where
  "expver_append R e fname expver path = (\<lambda>(fs, sys).
     case map_of (sy_files sys) fname of
       None \<Rightarrow> (Inl (IOError fname), (fs, sys))
     | Some content \<Rightarrow>
         (case append_content e expver path (re_writable R fname) content of
            Inl err \<Rightarrow> (Inl err, (fs, sys))
          | Inr (p, content) \<Rightarrow> (Inr p, (fs, sys\<lparr>sy_files := dict_put fname content (sy_files sys)\<rparr>))))"

definition is_alnum :: "char \<Rightarrow> bool" where
  "is_alnum c = (let n = of_char c :: nat in
     48 \<le> n \<and> n \<le> 57 \<or> 65 \<le> n \<and> n \<le> 90 \<or> 97 \<le> n \<and> n \<le> 122)"

definition expver_is_valid :: "string \<Rightarrow> bool" where
  "expver_is_valid s \<longleftrightarrow> length s = 4 \<and> list_all is_alnum s"

text \<open>
  \<open>select(key, fs)\<close> uses the handler registered as \<open>WeightedRandom\<close>; were it the handler for
  experiments, its lock would be taken twice.
\<close>

definition basic_select :: "'s root_env \<Rightarrow> handler \<Rightarrow> ('s, string) fs_step" where
  "basic_select R h =
     (case h of
        HFirst \<Rightarrow> select_first R
      | HStrategy st \<Rightarrow> select_strategy R st
      | HExpver \<Rightarrow> failS (UndefinedBehaviour ''mutex_ is locked''))"

definition expver_select :: "'s root_env \<Rightarrow> handlers \<Rightarrow> ('s, string) fs_step" where
  "expver_select R H = bindS (liftS (handler_lookup H ''WeightedRandom'')) (basic_select R)"

definition choose_root :: "'s root_env \<Rightarrow> handlers \<Rightarrow> string \<Rightarrow> ('s, string) fs_step" where
  "choose_root R H fdbRoot =
     (if fdbRoot = [] then expver_select R H
      else (\<lambda>(fs, sys).
        case space_enabled R IdArchive fs of (roots, fs) \<Rightarrow>
          (if fdbRoot \<in> set roots then Inr fdbRoot
           else Inl (BadParameter ''FDB root directory was not in the list of roots supporting archival''),
           (fs, sys))))"

definition record_choice :: "string \<Rightarrow> string \<Rightarrow> ('s, unit) fs_step" where
  "record_choice expver p = (\<lambda>(fs, sys). (Inr (), (fs, sys\<lparr>sy_table := dict_put expver p (sy_table sys)\<rparr>)))"

text \<open>
  \<open>selectFileSystem\<close>. The warning at the end, for a root that another process has recorded, prints
  \<open>itr->second\<close>, and \<open>itr\<close> is the end of the table there.
\<close>

definition select_expver ::
    "'s root_env \<Rightarrow> ext \<Rightarrow> handlers \<Rightarrow> string \<Rightarrow> key \<Rightarrow> ('s, string) fs_step"
where
  "select_expver R e H fname key =
     (let fdbRoot = re_resource R ''fdb5Root;$FDB5_ROOT'' ''''
      in bindS (\<lambda>(fs, sys). if sy_table sys = [] then expver_load e fname (fs, sys) else (Inr (), (fs, sys))) (\<lambda>_.
         bindS (liftS (get_key key ''expver'')) (\<lambda>expver.
         if \<not> expver_is_valid expver then failS (BadValue ''Invalid expver value'')
         else bindS (\<lambda>(fs, sys). (Inr (map_of (sy_table sys) expver), (fs, sys))) (\<lambda>found.
           case found of
             Some p \<Rightarrow> retS p
           | None \<Rightarrow>
               bindS (choose_root R H fdbRoot) (\<lambda>maybe.
               bindS (expver_append R e fname expver maybe) (\<lambda>selected.
               bindS (record_choice expver selected) (\<lambda>_.
                 if fdbRoot \<noteq> [] \<and> selected \<noteq> fdbRoot then failS (UndefinedBehaviour ''itr->second at the end'')
                 else retS selected)))))))"

definition handler_select ::
    "'s root_env \<Rightarrow> ext \<Rightarrow> handlers \<Rightarrow> string \<Rightarrow> handler \<Rightarrow> key \<Rightarrow> ('s, string) fs_step"
where
  "handler_select R e H fname h key =
     (case h of HExpver \<Rightarrow> select_expver R e H fname key | _ \<Rightarrow> basic_select R h)"

text \<open>\<open>FileSpace::filesystem\<close>: the root that has the database already, or one chosen by the handler.\<close>

definition filesystem ::
    "'s root_env \<Rightarrow> ext \<Rightarrow> path_ops \<Rightarrow> handlers \<Rightarrow> string \<Rightarrow> disk \<Rightarrow> key \<Rightarrow> string \<Rightarrow> ('s, toc_path) fs_step"
where
  "filesystem R e P H fname d key db =
     bindS (\<lambda>(fs, sys).
       case existsDB R P d db fs of
         Inl err \<Rightarrow> (Inl err, (fs, sys))
       | Inr (found, fs) \<Rightarrow> (Inr (found, fs_handler fs), (fs, sys))) (\<lambda>(found, name).
     case found of
       Some root \<Rightarrow> retS root
     | None \<Rightarrow>
         bindS (liftS (handler_lookup H name)) (\<lambda>h.
         bindS (handler_select R e H fname h key) (\<lambda>p.
           retS \<lparr>tp_directory = p, tp_ids = 0\<rparr>)))"


section \<open>Facts on lines and tables\<close>

lemma text_lines_eq_Nil [simp]: "text_lines s = [] \<longleftrightarrow> s = []"
  by (cases s) (auto split: list.splits)

lemma text_lines_one: "CHR 0x0A \<notin> set l \<Longrightarrow> text_lines (l @ [CHR 0x0A]) = [l]"
  by (induction l) auto

lemma text_lines_append:
  "CHR 0x0A \<notin> set l \<Longrightarrow> c = [] \<or> last c = CHR 0x0A \<Longrightarrow>
     text_lines (c @ l @ [CHR 0x0A]) = text_lines c @ [l]"
proof (induction c)
  case Nil
  then show ?case by (simp add: text_lines_one)
next
  case (Cons x c)
  then show ?case
    by (cases "c = []") (auto simp: text_lines_one split: list.splits)
qed

lemma load_lines_pairs:
  "load_lines (map (\<lambda>(k, v). [k, v]) kvs) t = (Inr (), fold (\<lambda>(k, v). dict_put k v) kvs t)"
  by (induction kvs arbitrary: t) auto

lemma find_line_pairs:
  "find_line x (map (\<lambda>(k, v). [k, v]) kvs) = Inr (map_of kvs x)"
  by (induction kvs) auto

lemma root_exists_path [simp]: "rt_path (snd (root_exists R r)) = rt_path r"
  by (simp add: root_exists_def Let_def)

lemma present_roots_paths:
  "fst (present_roots R sel rs) = map rt_path (filter (\<lambda>r. sel r \<and> fst (root_exists R r)) rs)"
proof (induction rs)
  case (Cons r rs)
  then show ?case
    using root_exists_path [of R r]
    by (cases "present_roots R sel rs"; cases "root_exists R r") (auto simp: Let_def)
qed simp

section \<open>The root that has a database\<close>

text \<open>
  The roots that hold the database: visitable, present, with its directory and its table of contents;
  and whether duplicates of it are allowed there.
\<close>

definition holds_db :: "'s root_env \<Rightarrow> path_ops \<Rightarrow> disk \<Rightarrow> string \<Rightarrow> root \<Rightarrow> bool" where
  "holds_db R P d db r \<longleftrightarrow>
     root_enabled r IdList \<and> fst (root_exists R r) \<and> path_exists d (po_join P (rt_path r) db) \<and>
     path_exists d (po_join P (po_join P (rt_path r) db) ''toc'')"

definition allows_duplicates :: "path_ops \<Rightarrow> disk \<Rightarrow> string \<Rightarrow> root \<Rightarrow> bool" where
  "allows_duplicates P d db r \<longleftrightarrow>
     path_exists d (po_join P (po_join P (rt_path r) db) ''duplicates.allow'')"

definition root_toc_path :: "root \<Rightarrow> toc_path" where
  "root_toc_path r = \<lparr>tp_directory = rt_path r, tp_ids = rt_ids r\<rparr>"

definition last_or :: "toc_path option \<Rightarrow> root list \<Rightarrow> toc_path option" where
  "last_or found hs = (if hs = [] then found else Some (root_toc_path (last hs)))"

lemma control_file_unique: "control_file (id_value IdUniqueRoot) = Inr ''duplicates.allow''"
  by (simp add: control_file_def controlfile_lookup_def)

lemma root_exists_ids [simp]: "rt_ids (snd (root_exists R r)) = rt_ids r"
  by (simp add: root_exists_def Let_def)

lemma exists_loop_step:
  "exists_loop R P d db (r # rs) count found =
     (let r' = (if root_enabled r IdList then snd (root_exists R r) else r);
          strict = holds_db R P d db r \<and> \<not> allows_duplicates P d db r
      in bindE (exists_loop R P d db rs (if strict then count + 1 else count)
             (if holds_db R P d db r \<and> (count = 0 \<or> allows_duplicates P d db r)
              then Some (root_toc_path r) else found)) (\<lambda>(count, found, rs). Inr (count, found, r' # rs)))"
  by (cases "root_exists R r")
    (use root_exists_path [of R r] root_exists_ids [of R r] in
      \<open>auto simp: Let_def control_file_unique holds_db_def allows_duplicates_def root_toc_path_def
         simp del: id_value.simps\<close>)

lemma exists_loop_spec:
  "\<exists>rs' found'. exists_loop R P d db rs count found =
       Inr (count + length (filter (\<lambda>r. holds_db R P d db r \<and> \<not> allows_duplicates P d db r) rs), found', rs') \<and>
     (count + length (filter (\<lambda>r. holds_db R P d db r \<and> \<not> allows_duplicates P d db r) rs) \<le> 1 \<longrightarrow>
        found' = last_or found (filter (holds_db R P d db) rs))"
proof (induction rs arbitrary: count found)
  case Nil
  then show ?case by (simp add: last_or_def)
next
  case (Cons r rs)
  let ?strict = "holds_db R P d db r \<and> \<not> allows_duplicates P d db r"
  let ?found = "if holds_db R P d db r \<and> (count = 0 \<or> allows_duplicates P d db r)
              then Some (root_toc_path r) else found"
  from Cons.IH [of "if ?strict then count + 1 else count" ?found] show ?case
    unfolding exists_loop_step Let_def by (auto simp: last_or_def)
qed

lemma existsDB_cases:
  "case existsDB R P d db fs of
     Inr (found, fs') \<Rightarrow> found = last_or None (filter (holds_db R P d db) (fs_roots fs)) \<and>
       length (filter (\<lambda>r. holds_db R P d db r \<and> \<not> allows_duplicates P d db r) (fs_roots fs)) \<le> 1
   | Inl err \<Rightarrow> err = UserError ''Found multiple FDB roots matching key'' \<and>
       length (filter (\<lambda>r. holds_db R P d db r \<and> \<not> allows_duplicates P d db r) (fs_roots fs)) \<ge> 2"
  using exists_loop_spec [of R P d db "fs_roots fs" 0 None] by (auto simp: existsDB_def)


section \<open>Processes that share the file of experiments\<close>

text \<open>
  The content of the file and the table of each process. A process starts with an empty table, loads
  the file while its table is empty, and appends a choice under the lock of the file; between two steps
  of one process any steps of the others may happen.
\<close>

type_synonym expver_state = "string \<times> (nat \<Rightarrow> (string, string) dict)"

definition path_text :: "string \<Rightarrow> bool" where
  "path_text p \<longleftrightarrow> p \<noteq> [] \<and> length p < 1018 \<and> CHR '' '' \<notin> set p \<and> CHR 0x0A \<notin> set p \<and> CHR 0x00 \<notin> set p"

inductive expver_step :: "ext \<Rightarrow> expver_state \<Rightarrow> expver_state \<Rightarrow> bool" for e where
  restart: "expver_step e (c, T) (c, T(p := []))"
| load: "T p = [] \<Longrightarrow> load_lines (config_tokens e 1024 c) [] = (r, t) \<Longrightarrow> expver_step e (c, T) (c, T(p := t))"
| append: "expver_is_valid x \<Longrightarrow> path_text path \<Longrightarrow> append_content e x path w c = Inr (q, c') \<Longrightarrow>
    expver_step e (c, T) (c', T(p := dict_put x q (T p)))"

inductive_cases expver_stepE: "expver_step e s s'"

text \<open>A file in order: whole lines that fit the buffer, a path for each experiment, none twice.\<close>

definition map_file :: "ext \<Rightarrow> string \<Rightarrow> (string \<times> string) list \<Rightarrow> bool" where
  "map_file e c m \<longleftrightarrow>
     (c = [] \<or> last c = CHR 0x0A) \<and>
     (\<forall>l \<in> set (text_lines c). length l < 1024 \<and> CHR 0x00 \<notin> set l) \<and>
     config_tokens e 1024 c = map (\<lambda>(k, v). [k, v]) m \<and> distinct (map fst m)"

definition expver_inv :: "ext \<Rightarrow> (string \<times> string) list \<Rightarrow> expver_state \<Rightarrow> bool" where
  "expver_inv e m s \<longleftrightarrow> map_file e (fst s) m \<and> (\<forall>p. map_of (snd s p) \<subseteq>\<^sub>m map_of m)"

lemma getlines_short:
  assumes "\<forall>l \<in> set (text_lines c). length l < n \<and> CHR 0x00 \<notin> set l"
  shows "getlines n c = text_lines c"
proof -
  have short: "takeWhile (\<lambda>l. length l < n) (text_lines c) = text_lines c"
    using assms by (simp add: takeWhile_eq_all_conv)
  show ?thesis
    unfolding getlines_def short
    using assms by (intro map_idI) (auto simp: takeWhile_eq_all_conv)
qed

lemma map_file_4096: "map_file e c m \<Longrightarrow> config_tokens e 4096 c = map (\<lambda>(k, v). [k, v]) m"
  unfolding map_file_def config_tokens_def
  using getlines_short [of c 1024] getlines_short [of c 4096] by fastforce

lemma valid_expver_text:
  assumes "expver_is_valid x"
  shows "x \<noteq> []" "CHR '' '' \<notin> set x" "CHR 0x0A \<notin> set x" "CHR 0x00 \<notin> set x" "hd x \<noteq> CHR ''#''" "length x = 4"
  using assms by (cases x; auto simp: expver_is_valid_def list_all_iff is_alnum_def Let_def)+

lemma map_file_append:
  assumes e: "tokenize_law e" and m: "map_file e c m" and x: "expver_is_valid x" and p: "path_text path"
    and fresh: "map_of m x = None"
  shows "map_file e (c @ expver_line x path) (m @ [(x, path)])"
proof -
  let ?l = "x @ '' '' @ path"
  note X = valid_expver_text [OF x]
  have nl: "CHR 0x0A \<notin> set ?l" using X p by (auto simp: path_text_def)
  have lines: "text_lines (c @ expver_line x path) = text_lines c @ [?l]"
    using text_lines_append [OF nl, of c] m by (simp add: expver_line_def map_file_def)
  have ok: "\<forall>l \<in> set (text_lines (c @ expver_line x path)). length l < 1024 \<and> CHR 0x00 \<notin> set l"
    using m X p by (auto simp: lines map_file_def path_text_def)
  have split: "split_at CHR '' '' ?l = [x, path]"
    using split_at_append [of "CHR '' ''" x path] split_at_plain [of "CHR '' ''" path] X p
    by (simp add: path_text_def)
  then have toks: "x_tokenize e CHR '' '' False ?l = [x, path]"
    using e X p by (auto simp: tokenize_law_def path_text_def)
  have "config_tokens e 1024 (c @ expver_line x path) = config_tokens e 1024 c @ [[x, path]]"
    using getlines_short [OF ok] getlines_short [of c 1024] m X p toks
    by (simp add: config_tokens_def lines map_file_def path_text_def)
  with m ok fresh show ?thesis
    by (auto simp: map_file_def expver_line_def map_of_eq_None_iff)
qed

lemma append_content_ok:
  assumes e: "tokenize_law e" and m: "map_file e c m" and x: "expver_is_valid x" and p: "path_text path"
    and a: "append_content e x path w c = Inr (q, c')"
  shows "\<exists>m'. map_file e c' m' \<and> map_of m \<subseteq>\<^sub>m map_of m' \<and> map_of m' x = Some q"
proof (cases "map_of m x")
  case None
  with a have "q = path" and c': "c' = c @ expver_line x path"
    by (auto simp: append_content_def map_file_4096 [OF m] find_line_pairs split: if_splits)
  with map_file_append [OF e m x p None] None show ?thesis
    by (intro exI [where x = "m @ [(x, path)]"]) (auto simp: map_le_def map_add_def split: option.splits)
next
  case (Some v)
  with a m show ?thesis
    by (intro exI [where x = m]) (auto simp: append_content_def map_file_4096 [OF m] find_line_pairs)
qed

lemma load_lines_file:
  assumes "map_file e c m" and "load_lines (config_tokens e 1024 c) [] = (r, t)"
  shows "map_of t = map_of m"
proof -
  have "t = fold (\<lambda>(k, v). dict_put k v) m []"
    using assms by (simp add: map_file_def load_lines_pairs)
  then have "map_of t x = map_of (rev m) x" for x
    by (simp add: dict.lookup_fold_assign split: option.splits)
  moreover have "map_of (rev m) = map_of m"
    using assms(1) by (intro map_of_inject_set [THEN iffD2]) (auto simp: map_file_def rev_map [symmetric])
  ultimately show ?thesis by auto
qed

lemma expver_step_inv:
  assumes e: "tokenize_law e" and "expver_step e s s'" and "expver_inv e m s"
  shows "\<exists>m'. expver_inv e m' s' \<and> map_of m \<subseteq>\<^sub>m map_of m'"
  using assms(2,3)
proof (cases rule: expver_step.cases)
  case (append x path w c q c' T p)
  with assms(3) append_content_ok [OF e _ append(3-5), of m] obtain m' where
    m': "map_file e c' m'" "map_of m \<subseteq>\<^sub>m map_of m'" "map_of m' x = Some q"
    by (auto simp: expver_inv_def)
  moreover have "map_of (T r) \<subseteq>\<^sub>m map_of m'" for r
    using assms(3) append m'(2) map_le_trans by (fastforce simp: expver_inv_def)
  ultimately have "expver_inv e m' s'"
    using append by (auto simp: expver_inv_def map_le_def dom_def)
  with m'(2) show ?thesis by blast
next
  case (load T p c r t)
  then have "expver_inv e m s'"
    using assms(3) load_lines_file [of e c m r t] by (auto simp: expver_inv_def)
  then show ?thesis by auto
qed (auto simp: expver_inv_def intro!: exI [where x = m])

lemma expver_steps_inv:
  assumes e: "tokenize_law e" and "(expver_step e)\<^sup>*\<^sup>* s s'" and "expver_inv e m s"
  shows "\<exists>m'. expver_inv e m' s' \<and> map_of m \<subseteq>\<^sub>m map_of m'"
  using assms(2,3)
proof (induction rule: rtranclp_induct)
  case base
  then show ?case by auto
next
  case (step s1 s2)
  then show ?case using expver_step_inv [OF e] map_le_trans by blast
qed


lemma space_enabled_paths:
  "fst (space_enabled R i fs) = map rt_path (filter (\<lambda>r. root_enabled r i \<and> fst (root_exists R r)) (fs_roots fs))"
  using present_roots_paths [of R "\<lambda>r. root_enabled r i" "fs_roots fs"]
  by (cases "present_roots R (\<lambda>r. root_enabled r i) (fs_roots fs)") (simp add: space_enabled_def)

lemma basic_select_chooses:
  assumes "strategy_law R" and "basic_select R h (fs, sys) = (Inr a, (fs', sys'))"
  shows "a \<in> set (fst (space_enabled R IdArchive fs))" "sy_files sys' = sy_files sys" "sy_table sys' = sy_table sys"
  using assms(2) assms(1) [unfolded strategy_law_def, rule_format]
  by (auto simp: basic_select_def select_first_def select_strategy_def
      split: handler.splits prod.splits sum.splits if_splits)

lemma choose_root_chooses:
  assumes "strategy_law R" and "choose_root R H fdbRoot (fs, sys) = (Inr a, (fs', sys'))"
  shows "a \<in> set (fst (space_enabled R IdArchive fs))" "sy_files sys' = sy_files sys" "sy_table sys' = sy_table sys"
proof -
  have "a \<in> set (fst (space_enabled R IdArchive fs)) \<and> sy_files sys' = sy_files sys \<and> sy_table sys' = sy_table sys"
  proof (cases "fdbRoot = []")
    case True
    with assms(2) obtain h where "basic_select R h (fs, sys) = (Inr a, (fs', sys'))"
      by (auto simp: choose_root_def expver_select_def bindS_eq_Inr)
    from basic_select_chooses [OF assms(1) this] show ?thesis by simp
  next
    case False
    with assms(2) show ?thesis
      by (auto simp: choose_root_def split: prod.splits if_splits)
  qed
  then show "a \<in> set (fst (space_enabled R IdArchive fs))" "sy_files sys' = sy_files sys" "sy_table sys' = sy_table sys"
    by simp_all
qed

text \<open>A call that returns is a load, when the table is empty, and an append, when the choice is new.\<close>

lemma select_expver_steps:
  assumes R: "strategy_law R" and paths: "\<forall>r \<in> set (fs_roots fs). path_text (rt_path r)"
    and sel: "select_expver R e H f key (fs, sys) = (Inr a, (fs', sys'))"
    and c: "map_of (sy_files sys) f = Some c" and T: "T p = sy_table sys"
  shows "\<exists>c' x. map_of (sy_files sys') f = Some c' \<and> key_find key ''expver'' = Some x \<and>
     (expver_step e)\<^sup>*\<^sup>* (c, T) (c', T(p := sy_table sys')) \<and> map_of (sy_table sys') x = Some a"
proof -
  define fdbRoot where "fdbRoot = re_resource R ''fdb5Root;$FDB5_ROOT'' ''''"
  define m where "m = (\<lambda>(fs :: file_space, sys :: 'a sys). if sy_table sys = [] then expver_load e f (fs, sys) else (Inr (), (fs, sys)))"
  obtain fs1 sys1 where load: "m (fs, sys) = (Inr (), (fs1, sys1))"
    using sel by (auto simp: select_expver_def bindS_eq_Inr m_def Let_def)
  have fs1: "fs1 = fs" "sy_files sys1 = sy_files sys"
    using load by (auto simp: m_def expver_load_def split: option.splits prod.splits if_splits)
  have step1: "(expver_step e)\<^sup>*\<^sup>* (c, T) (c, T(p := sy_table sys1))"
  proof (cases "sy_table sys = []")
    case True
    then obtain r t where "load_lines (config_tokens e 1024 c) [] = (r, t)" and "sy_table sys1 = t"
      using load c by (auto simp: m_def expver_load_def split: prod.splits)
    with expver_step.load [of T p e c r t] True T show ?thesis by auto
  next
    case False
    with load have "sys1 = sys" by (auto simp: m_def)
    then have "T(p := sy_table sys1) = T" using T by (metis fun_upd_triv)
    then show ?thesis by simp
  qed
  from sel load obtain x where x: "get_key key ''expver'' = Inr x" and v: "expver_is_valid x"
    by (auto simp: select_expver_def bindS_eq_Inr m_def Let_def split: if_splits)
  note rest = sel [unfolded select_expver_def Let_def, folded fdbRoot_def m_def]
  show ?thesis
  proof (cases "map_of (sy_table sys1) x")
    case (Some q)
    with rest load x v have "a = q" "sys' = sys1" by auto
    with Some step1 x c fs1 show ?thesis by (auto simp: get_key_find)
  next
    case None
    with rest load x v obtain maybe fs2 sys2 fs3 sys3 where
      ch: "choose_root R H fdbRoot (fs1, sys1) = (Inr maybe, (fs2, sys2))" and
      ap: "expver_append R e f x maybe (fs2, sys2) = (Inr a, (fs3, sys3))" and
      fin: "sys' = sys3\<lparr>sy_table := dict_put x a (sy_table sys3)\<rparr>"
      by (auto simp: bindS_eq_Inr record_choice_def split: if_splits)
    note C = choose_root_chooses [OF R ch]
    have "path_text maybe"
      using C(1) paths fs1 by (auto simp: space_enabled_paths)
    moreover obtain c' where c': "append_content e x maybe (re_writable R f) c = Inr (a, c')"
      and files: "map_of (sy_files sys3) f = Some c'" and tab: "sy_table sys3 = sy_table sys2"
      using ap C(2) fs1 c by (auto simp: expver_append_def split: sum.splits prod.splits)
    ultimately have "expver_step e (c, T(p := sy_table sys1)) (c', (T(p := sy_table sys1))(p := dict_put x a (sy_table sys1)))"
      using expver_step.append [OF v _ c', of "T(p := sy_table sys1)" p] by simp
    with step1 have "(expver_step e)\<^sup>*\<^sup>* (c, T) (c', T(p := sy_table sys'))"
      by (simp add: fin tab C(3))
    with files x show ?thesis by (auto simp: fin tab get_key_find)
  qed
qed

text \<open>
  C16: Experiments stay on one root. From a file in order and empty tables, after any steps of any
  processes, when \<open>selectFileSystem\<close> of one process returns a root for an experiment, every later
  successful \<open>selectFileSystem\<close> of any process for that experiment returns the same root, whatever its
  own strategy, handlers, table and configured roots, and whatever the processes did in between.
\<close>
theorem expver_processes_agree:
  assumes e: "tokenize_law e" and R1: "strategy_law R1" and R2: "strategy_law R2"
    and init: "map_file e c0 m0" and run1: "(expver_step e)\<^sup>*\<^sup>* (c0, \<lambda>_. []) (c1, T1)"
    and paths1: "\<forall>r \<in> set (fs_roots fs1). path_text (rt_path r)"
    and paths2: "\<forall>r \<in> set (fs_roots fs2). path_text (rt_path r)"
    and at1: "map_of (sy_files sys1) f = Some c1" "sy_table sys1 = T1 p"
    and sel1: "select_expver R1 e H1 f key1 (fs1, sys1) = (Inr a, (fs1', sys1'))"
    and c1': "map_of (sy_files sys1') f = Some c1'"
    and run2: "(expver_step e)\<^sup>*\<^sup>* (c1', T1(p := sy_table sys1')) (c2, T2)"
    and at2: "map_of (sy_files sys2) f = Some c2" "sy_table sys2 = T2 q"
    and sel2: "select_expver R2 e H2 f key2 (fs2, sys2) = (Inr b, (fs2', sys2'))"
    and same: "key_find key1 ''expver'' = key_find key2 ''expver''"
  shows "a = b"
proof -
  have "expver_inv e m0 (c0, \<lambda>_. [])"
    using init by (simp add: expver_inv_def)
  then obtain m1 where m1: "expver_inv e m1 (c1, T1)"
    using expver_steps_inv [OF e run1] by blast
  obtain x where x: "key_find key1 ''expver'' = Some x"
    and s1: "(expver_step e)\<^sup>*\<^sup>* (c1, T1) (c1', T1(p := sy_table sys1'))" and a: "map_of (sy_table sys1') x = Some a"
    using select_expver_steps [where T = T1 and p = p, OF R1 paths1 sel1 at1(1) at1(2) [symmetric]] c1' by auto
  obtain c2' where s2: "(expver_step e)\<^sup>*\<^sup>* (c2, T2) (c2', T2(q := sy_table sys2'))"
    and b: "map_of (sy_table sys2') x = Some b"
    using select_expver_steps [where T = T2 and p = q, OF R2 paths2 sel2 at2(1) at2(2) [symmetric]] x same by auto
  obtain m2 where m2: "expver_inv e m2 (c1', T1(p := sy_table sys1'))"
    using expver_steps_inv [OF e s1 m1] by blast
  obtain m3 where m3: "expver_inv e m3 (c2', T2(q := sy_table sys2'))" "map_of m2 \<subseteq>\<^sub>m map_of m3"
    using expver_steps_inv [OF e _ m2] rtranclp_trans [OF run2 s2] by blast
  have "map_of (sy_table sys1') \<subseteq>\<^sub>m map_of m2"
    using m2 by (auto simp: expver_inv_def dest: spec [where x = p])
  then have "map_of m3 x = Some a"
    using a m3(2) by (auto simp: map_le_def dom_def)
  moreover have "map_of (sy_table sys2') \<subseteq>\<^sub>m map_of m3"
    using m3(1) by (auto simp: expver_inv_def dest: spec [where x = q])
  then have "map_of m3 x = Some b"
    using b by (auto simp: map_le_def dom_def)
  ultimately show ?thesis by simp
qed


text \<open>A concrete environment: a strategy that takes the first root, and every root exists.\<close>

definition sample_root_env :: "unit root_env" where
  "sample_root_env = \<lparr>re_match = (\<lambda>p s. p = ''.*'' \<or> p = s), re_escape = (\<lambda>s. s), re_tokens = (\<lambda>_ s. [s]),
     re_bool = (\<lambda>s. Inr (s = ''1'')), re_resource = (\<lambda>n d. d), re_expand = (\<lambda>s. s), re_isDir = (\<lambda>_. True),
     re_writable = (\<lambda>_. True),
     re_strategy = (\<lambda>st ps s. case ps of [] \<Rightarrow> Inl (LibraryError ''empty'') | p # _ \<Rightarrow> Inr (p, s))\<rparr>"

lemma sample_strategy_law: "strategy_law sample_root_env"
  by (auto simp: strategy_law_def sample_root_env_def split: list.splits)

definition sample_space :: "string \<Rightarrow> file_space" where
  "sample_space p = \<lparr>fs_name = ''s'', fs_handler = ''expver'', fs_regex = ''.*'',
     fs_roots = [new_root p ''s'' True True True True]\<rparr>"

definition sample_handlers :: handlers where
  "sample_handlers = [(''WeightedRandom'', HStrategy WeightedRandom), (''expver'', HExpver)]"

definition sample_root_sys :: "string \<Rightarrow> unit sys" where
  "sample_root_sys c = \<lparr>sy_files = [(''map'', c)], sy_table = [], sy_strategy = ()\<rparr>"

definition expver_key :: key where
  "expver_key = key_of_dict [(''expver'', ''0001'')] None"

lemma expver_key_get: "get_key expver_key ''expver'' = Inr ''0001''" "expver_is_valid ''0001''"
  by (simp_all add: expver_key_def get_key_find key_find_def key_of_dict_def expver_is_valid_def is_alnum_def)

lemma sample_empty_tokens: "config_tokens ref_ext n '''' = []"
  by (simp add: config_tokens_def getlines_def)

lemma sample_line_tokens: "n \<ge> 8 \<Longrightarrow> config_tokens ref_ext n ''0001 /a\<newline>'' = [[''0001'', ''/a'']]"
  by (simp add: config_tokens_def getlines_def)


lemma sample_select_strategy:
  "select_strategy sample_root_env WeightedRandom (sample_space p, sys) =
     (Inr p, (sample_space p)\<lparr>fs_roots := [(new_root p ''s'' True True True True)\<lparr>rt_exists := True, rt_checked := True\<rparr>]\<rparr>, sys)"
  by (simp add: select_strategy_def space_enabled_def sample_space_def new_root_def root_enabled_def
      ids_enabled_def root_exists_def sample_root_env_def Let_def)

lemma sample_choose:
  "\<exists>fs. choose_root sample_root_env sample_handlers [] (sample_space p, sys) = (Inr p, (fs, sys))"
  by (simp add: choose_root_def expver_select_def handler_lookup_def sample_handlers_def basic_select_def
      sample_select_strategy)

lemma sample_select_new:
  "\<exists>fs. select_expver sample_root_env ref_ext sample_handlers ''map'' expver_key (sample_space ''/a'', sample_root_sys '''') =
     (Inr ''/a'', (fs, \<lparr>sy_files = [(''map'', ''0001 /a\<newline>'')], sy_table = [(''0001'', ''/a'')], sy_strategy = ()\<rparr>))"
proof -
  obtain fs where ch: "choose_root sample_root_env sample_handlers [] (sample_space ''/a'', sample_root_sys '''') =
      (Inr ''/a'', (fs, sample_root_sys ''''))"
    using sample_choose by blast
  have res: "re_resource sample_root_env n [] = []" for n by (simp add: sample_root_env_def)
  have load: "expver_load ref_ext ''map'' (fs', sample_root_sys '''') = (Inr (), (fs', sample_root_sys ''''))" for fs'
    by (simp add: expver_load_def sample_root_sys_def sample_empty_tokens)
  have app: "expver_append sample_root_env ref_ext ''map'' ''0001'' ''/a'' (fs, sample_root_sys '''') =
      (Inr ''/a'', (fs, (sample_root_sys '''')\<lparr>sy_files := [(''map'', ''0001 /a\<newline>'')]\<rparr>))"
    by (simp add: expver_append_def append_content_def sample_root_sys_def sample_empty_tokens sample_root_env_def
        expver_line_def)
  have e: "sy_table (sample_root_sys '''') = []" by (simp add: sample_root_sys_def)
  show ?thesis
    unfolding select_expver_def Let_def res
    by (simp add: bindS_def load ch app expver_key_get e record_choice_def)
qed

lemma sample_select_other:
  "select_expver sample_root_env ref_ext sample_handlers ''map'' expver_key (sample_space ''/b'', sample_root_sys ''0001 /a\<newline>'') =
     (Inr ''/a'', (sample_space ''/b'', (sample_root_sys ''0001 /a\<newline>'')\<lparr>sy_table := [(''0001'', ''/a'')]\<rparr>))"
proof -
  have load: "expver_load ref_ext ''map'' (fs', sample_root_sys ''0001 /a\<newline>'') =
      (Inr (), (fs', (sample_root_sys ''0001 /a\<newline>'')\<lparr>sy_table := [(''0001'', ''/a'')]\<rparr>))" for fs'
    by (simp add: expver_load_def sample_root_sys_def sample_line_tokens)
  have e: "sy_table (sample_root_sys ''0001 /a\<newline>'') = []" by (simp add: sample_root_sys_def)
  show ?thesis
    unfolding select_expver_def Let_def by (simp add: bindS_def load expver_key_get e)
qed

lemma expver_processes_agree_witness:
  "\<exists>a b st1 st2.
     select_expver sample_root_env ref_ext sample_handlers ''map'' expver_key (sample_space ''/a'', sample_root_sys '''') = (Inr a, st1) \<and>
     select_expver sample_root_env ref_ext sample_handlers ''map'' expver_key (sample_space ''/b'', sample_root_sys ''0001 /a\<newline>'') = (Inr b, st2) \<and>
     a = b"
proof -
  obtain fs where s1: "select_expver sample_root_env ref_ext sample_handlers ''map'' expver_key (sample_space ''/a'', sample_root_sys '''') =
     (Inr ''/a'', (fs, \<lparr>sy_files = [(''map'', ''0001 /a\<newline>'')], sy_table = [(''0001'', ''/a'')], sy_strategy = ()\<rparr>))"
    using sample_select_new by blast
  have init: "map_file ref_ext '''' []"
    by (simp add: map_file_def sample_empty_tokens)
  have paths: "\<forall>r \<in> set (fs_roots (sample_space p)). path_text (rt_path r)" if "path_text p" for p
    using that by (simp add: sample_space_def new_root_def Let_def)
  have "''/a'' = ''/a''"
    by (rule expver_processes_agree [OF ref_tokenize_law sample_strategy_law sample_strategy_law init
            rtranclp.rtrancl_refl paths [of "''/a''"] paths [of "''/b''"] _ _ s1 _ rtranclp.rtrancl_refl _ _
            sample_select_other, where p = 0 and q = 1])
      (simp_all add: path_text_def sample_root_sys_def)
  with s1 sample_select_other show ?thesis by blast
qed


section \<open>The choice of a root\<close>

definition strict_holders :: "'s root_env \<Rightarrow> path_ops \<Rightarrow> disk \<Rightarrow> string \<Rightarrow> file_space \<Rightarrow> root list" where
  "strict_holders R P d db fs =
     filter (\<lambda>r. holds_db R P d db r \<and> \<not> allows_duplicates P d db r) (fs_roots fs)"

lemma exists_loop_roots:
  "exists_loop R P d db rs count found = Inr (c, f, rs') \<Longrightarrow> map rt_path rs' = map rt_path rs"
proof (induction rs arbitrary: count found c f rs')
  case (Cons r rs)
  then show ?case
    unfolding exists_loop_step Let_def by (auto simp: bindE_eq_Inr)
qed simp

lemma existsDB_keeps:
  "existsDB R P d db fs = Inr (found, fs') \<Longrightarrow>
     fs_handler fs' = fs_handler fs \<and> space_roots fs' = space_roots fs"
  using exists_loop_roots by (fastforce simp: existsDB_def bindE_eq_Inr space_roots_def split: if_splits)

text \<open>
  C18: \<open>FileSpace::filesystem\<close> follows the database. When no visitable root of the space holds the
  database, the handler of the space is asked, and the control identifiers returned are empty; a handler
  other than \<open>expver\<close> returns one of the configured paths of the space. When some hold it, the handlers
  and their state play no part: the last root that holds it is returned, with its own identifiers, if at
  most one of the copies lacks the file \<open>duplicates.allow\<close>, and the call throws if two lack it.
\<close>
theorem filesystem_follows_database:
  assumes "strategy_law R"
  shows "case filesystem R e P H f d key db (fs, sys) of (res, (fs', sys')) \<Rightarrow>
     (if length (strict_holders R P d db fs) \<ge> 2 then
        res = Inl (UserError ''Found multiple FDB roots matching key'') \<and> sys' = sys
      else if filter (holds_db R P d db) (fs_roots fs) \<noteq> [] then
        res = Inr (root_toc_path (last (filter (holds_db R P d db) (fs_roots fs)))) \<and> sys' = sys
      else case map_of H (fs_handler fs) of
             None \<Rightarrow> res = Inl (SeriousBug (''No FileSpaceHandler called '' @ fs_handler fs))
           | Some h \<Rightarrow> \<forall>root. res = Inr root \<longrightarrow>
               tp_ids root = 0 \<and> (h = HExpver \<or> tp_directory root \<in> set (space_roots fs)))"
proof (cases "existsDB R P d db fs")
  case (Inl err)
  with existsDB_cases [of R P d db fs] show ?thesis
    by (simp add: filesystem_def bindS_def strict_holders_def)
next
  case (Inr r)
  then obtain found fs1 where ex: "existsDB R P d db fs = Inr (found, fs1)" by (cases r) auto
  with existsDB_cases [of R P d db fs] have found: "found = last_or None (filter (holds_db R P d db) (fs_roots fs))"
    and few: "\<not> length (strict_holders R P d db fs) \<ge> 2"
    by (simp_all add: strict_holders_def)
  show ?thesis
  proof (cases "filter (holds_db R P d db) (fs_roots fs) = []")
    case False
    then show ?thesis using found few by (simp add: filesystem_def bindS_def ex last_or_def)
  next
    case True
    have chosen: "a \<in> set (space_roots fs)"
      if "basic_select R h (fs1, sys) = (Inr a, (fs2, sys2))" for h a fs2 sys2
    proof -
      have "a \<in> set (space_roots fs1)"
        using basic_select_chooses(1) [OF assms that] by (auto simp: space_enabled_paths space_roots_def)
      with existsDB_keeps [OF ex] show ?thesis by simp
    qed
    show ?thesis
    proof (cases "map_of H (fs_handler fs)")
      case None
      then show ?thesis
        using True few found existsDB_keeps [OF ex]
        by (simp add: filesystem_def bindS_def ex last_or_def handler_lookup_def)
    next
      case (Some h)
      have eq: "filesystem R e P H f d key db (fs, sys) =
          bindS (handler_select R e H f h key) (\<lambda>p. retS \<lparr>tp_directory = p, tp_ids = 0\<rparr>) (fs1, sys)"
        using True found existsDB_keeps [OF ex] Some
        by (simp add: filesystem_def bindS_def ex last_or_def handler_lookup_def)
      obtain res fs2 sys2 where sel: "handler_select R e H f h key (fs1, sys) = (res, (fs2, sys2))"
        by (metis prod.collapse)
      show ?thesis
      proof (cases res)
        case (Inl err)
        then show ?thesis using True few Some sel by (simp add: eq)
      next
        case (Inr a)
        have "h = HExpver \<or> a \<in> set (space_roots fs)"
          using chosen [of h a fs2 sys2] sel Inr by (cases h) (simp_all add: handler_select_def)
        then show ?thesis using True few Some sel Inr by (simp add: eq)
      qed
    qed
  qed
qed

definition ref_paths :: path_ops where
  "ref_paths = \<lparr>po_base = (\<lambda>s. s), po_dir = (\<lambda>s. s), po_join = (\<lambda>a b. a @ ''/'' @ b), po_real = (\<lambda>s. s),
     po_bytes = (\<lambda>_. 0), po_header = 0, po_round = 1, po_roundUp = (\<lambda>x n. x)\<rparr>"

lemma filesystem_follows_database_witness:
  "let fs = \<lparr>fs_name = ''s'', fs_handler = ''Default'', fs_regex = ''.*'',
        fs_roots = [new_root ''/a'' ''s'' True True True True, new_root ''/b'' ''s'' True True False True]\<rparr>;
      d = \<lparr>dk_tocs = [(''/b/od/toc'', [])], dk_files = [''/b/od'']\<rparr>
   in fst (filesystem sample_root_env ref_ext ref_paths [(''Default'', HFirst)] ''map'' d expver_key ''od'' (fs, sample_root_sys ''''))
        = Inr \<lparr>tp_directory = ''/b'', tp_ids = 4\<rparr>"
proof -
  let ?fs = "\<lparr>fs_name = ''s'', fs_handler = ''Default'', fs_regex = ''.*'',
        fs_roots = [new_root ''/a'' ''s'' True True True True, new_root ''/b'' ''s'' True True False True]\<rparr>"
  let ?d = "\<lparr>dk_tocs = [(''/b/od/toc'', [])], dk_files = [''/b/od'']\<rparr>"
  have b: "new_root ''/b'' ''s'' True True False True =
      \<lparr>rt_path = ''/b'', rt_filespace = ''s'', rt_checked = False, rt_exists = False, rt_ids = 4\<rparr>"
    by (simp add: new_root_def ids_add_def)
  have hold: "filter (holds_db sample_root_env ref_paths ?d ''od'') (fs_roots ?fs) = [new_root ''/b'' ''s'' True True False True]"
    by (simp add: holds_db_def root_enabled_def ids_enabled_def new_root_def Let_def root_exists_def sample_root_env_def
        path_exists_def ref_paths_def ids_add_def)
  have strict: "length (strict_holders sample_root_env ref_paths ?d ''od'' ?fs) \<le> 1"
  proof -
    have "strict_holders sample_root_env ref_paths ?d ''od'' ?fs =
        filter (\<lambda>r. \<not> allows_duplicates ref_paths ?d ''od'' r) (filter (holds_db sample_root_env ref_paths ?d ''od'') (fs_roots ?fs))"
      by (auto simp: strict_holders_def intro: filter_cong)
    then show ?thesis unfolding hold by simp
  qed
  show ?thesis
    using filesystem_follows_database [OF sample_strategy_law, where e = ref_ext and P = ref_paths and
        H = "[(''Default'', HFirst)]" and f = "''map''" and d = ?d and key = expver_key and db = "''od''" and
        fs = ?fs and sys = "sample_root_sys ''''"] strict
    unfolding hold Let_def
    by (auto simp: root_toc_path_def b split: prod.splits)
qed

end
