(* ===== verification/FDB_RootManager.thy ===== *)
theory FDB_RootManager
  imports FDB_Roots
begin

text \<open>
  The management of the roots, \<open>src/fdb5/toc/RootManager.cc\<close>: the configuration of namers and file
  spaces, read once per process and kept in static tables, the name and the directory of a database, and
  the roots to visit; and the engine on top, \<open>src/fdb5/toc/TocEngine.cc\<close>: the scan of the directories under
  a root for databases, and the databases that match a key or a request.
\<close>

section \<open>The static tables\<close>

record tables =
  tb_namers :: "(string, namer list) dict"
  tb_spaces :: "(string, file_space list) dict"
  tb_disks :: "(string, root list) dict"

text \<open>\<open>std::ifstream\<close>: the text files that can be opened.\<close>

type_synonym texts = "string \<Rightarrow> string option"

text \<open>
  \<open>readDbNamers\<close>. The entry of the table exists from the first call on, and a namer that throws leaves
  in it those before.
\<close>

fun read_namers :: "ext \<Rightarrow> string list list \<Rightarrow> namer list \<Rightarrow> unit res \<times> namer list" where
  "read_namers e [] table = (Inr (), table)"
| "read_namers e (s # ss) table =
     (case s of
        [regex, fmt] \<Rightarrow>
          (case new_namer e regex fmt of
             Inl err \<Rightarrow> (Inl err, table)
           | Inr n \<Rightarrow> read_namers e ss (table @ [n]))
      | _ \<Rightarrow> read_namers e ss table)"

definition readDbNamers :: "'s root_env \<Rightarrow> ext \<Rightarrow> texts \<Rightarrow> (tables, namer list) step" where
  "readDbNamers R e F = (\<lambda>t.
     let filename = re_expand R (re_resource R ''fdbDbNamesFile;$FDB_DBNAMES_FILE'' ''~fdb/etc/fdb/dbnames'')
     in case map_of (tb_namers t) filename of
          Some table \<Rightarrow> (Inr table, t)
        | None \<Rightarrow>
            (case F filename of
               None \<Rightarrow> (Inr [], t\<lparr>tb_namers := dict_put filename [] (tb_namers t)\<rparr>)
             | Some content \<Rightarrow>
                 (case read_namers e (config_tokens e 1024 content) [] of
                    (r, table) \<Rightarrow> (bindE r (\<lambda>_. Inr table), t\<lparr>tb_namers := dict_put filename table (tb_namers t)\<rparr>))))"

text \<open>\<open>readRoots\<close>: a file that cannot be opened has no roots; a line of another length is passed over.\<close>

fun read_root_lines :: "'s root_env \<Rightarrow> string list list \<Rightarrow> root list res" where
  "read_root_lines R [] = Inr []"
| "read_root_lines R (s # ss) =
     (case s of
        [path, filespace, w, v] \<Rightarrow>
          bindE (re_bool R w) (\<lambda>can_write.
          bindE (re_bool R v) (\<lambda>visit.
          bindE (read_root_lines R ss) (\<lambda>roots.
            Inr (new_root path filespace visit visit can_write can_write # roots))))
      | _ \<Rightarrow> read_root_lines R ss)"

definition readRoots :: "'s root_env \<Rightarrow> ext \<Rightarrow> texts \<Rightarrow> string \<Rightarrow> root list res" where
  "readRoots R e F fname =
     (case F fname of None \<Rightarrow> Inr [] | Some content \<Rightarrow> read_root_lines R (config_tokens e 1024 content))"

definition fileSpaceRoots :: "root list \<Rightarrow> string \<Rightarrow> root list" where
  "fileSpaceRoots roots filespace = filter (\<lambda>r. rt_filespace r = filespace) roots"

text \<open>\<open>parseMarsDisks\<close>: a file that cannot be opened has no lines.\<close>

definition parseMarsDisks :: "'s root_env \<Rightarrow> texts \<Rightarrow> string \<Rightarrow> string \<Rightarrow> tables \<Rightarrow> root list \<times> tables" where
  "parseMarsDisks R F fname name t =
     (case map_of (tb_disks t) fname of
        Some roots \<Rightarrow> (roots, t)
      | None \<Rightarrow>
          (let ls = filter (\<lambda>l. l \<noteq> [] \<and> hd l \<noteq> CHR ''#'') (case F fname of None \<Rightarrow> [] | Some c \<Rightarrow> getlines 1024 c);
               roots = concat (map (\<lambda>l. case re_tokens R ('', '' @ [CHR 0x09]) l of
                                          [p] \<Rightarrow> [new_root p name True True True True] | _ \<Rightarrow> []) ls)
           in (roots, t\<lparr>tb_disks := dict_put fname roots (tb_disks t)\<rparr>)))"

text \<open>\<open>parseFileSpacesFile\<close>: as with the namers, a space without roots leaves those before in the table.\<close>

fun read_spaces :: "root list \<Rightarrow> string list list \<Rightarrow> file_space list \<Rightarrow> unit res \<times> file_space list" where
  "read_spaces allRoots [] table = (Inr (), table)"
| "read_spaces allRoots (s # ss) table =
     (case s of
        [regex, filespace, h] \<Rightarrow>
          (let roots = fileSpaceRoots allRoots filespace
           in if roots = [] then (Inl (UserError ''No roots found for filespace''), table)
              else read_spaces allRoots ss
                     (table @ [\<lparr>fs_name = filespace, fs_handler = h, fs_regex = regex, fs_roots = roots\<rparr>]))
      | _ \<Rightarrow> read_spaces allRoots ss table)"

definition parseFileSpacesFile ::
    "'s root_env \<Rightarrow> ext \<Rightarrow> path_ops \<Rightarrow> texts \<Rightarrow> string \<Rightarrow> (tables, file_space list) step"
where
  "parseFileSpacesFile R e P F fdbHome = (\<lambda>t.
     case map_of (tb_spaces t) fdbHome of
       Some table \<Rightarrow> (Inr table, t)
     | None \<Rightarrow>
         (case readRoots R e F
                 (re_resource R ''fdbRootsFile;$FDB_ROOTS_FILE'' (po_join P fdbHome ''etc/fdb/roots'')) of
            Inl err \<Rightarrow> (Inl err, t)
          | Inr allRoots \<Rightarrow>
              (let fname = re_resource R ''fdbSpacesFile;$FDB_SPACES_FILE'' (po_join P fdbHome ''etc/fdb/spaces'')
               in case F fname of
                    None \<Rightarrow> (Inl (IOError fname), t)
                  | Some content \<Rightarrow>
                      (case read_spaces allRoots (config_tokens e 1024 content) [] of
                         (r, table) \<Rightarrow>
                           (bindE r (\<lambda>_. Inr table), t\<lparr>tb_spaces := dict_put fdbHome table (tb_spaces t)\<rparr>)))))"

section \<open>Configured file spaces\<close>

text \<open>
  The answers of \<open>eckit::LocalConfiguration\<close> on a root and on a space: \<open>getString(name)\<close>, which may
  throw, \<open>getString\<close> and \<open>getBool\<close> with a default, \<open>has\<close>, and \<open>getSubConfigurations\<close>.
\<close>

record root_conf =
  rc_string :: "string \<Rightarrow> string res"
  rc_string_or :: "string \<Rightarrow> string \<Rightarrow> string"
  rc_bool_or :: "string \<Rightarrow> bool \<Rightarrow> bool"

record space_conf =
  sc_has :: "string \<Rightarrow> bool"
  sc_string_or :: "string \<Rightarrow> string \<Rightarrow> string"
  sc_bool_or :: "string \<Rightarrow> bool \<Rightarrow> bool"
  sc_subs :: "string \<Rightarrow> root_conf list"

text \<open>The two root managers differ in the name of the second key.\<close>

datatype manager_kind = CatalogueRoots | StoreRoots

definition roots_key :: "manager_kind \<Rightarrow> string" where
  "roots_key k = (case k of CatalogueRoots \<Rightarrow> ''catalogueRoots'' | StoreRoots \<Rightarrow> ''storeRoots'')"

definition getSpaceRoots :: "manager_kind \<Rightarrow> space_conf \<Rightarrow> root_conf list res" where
  "getSpaceRoots k space =
     bindE (assertE (sc_has space ''roots'' \<noteq> sc_has space (roots_key k)) ''space.has'') (\<lambda>_.
       Inr (if sc_has space ''roots'' then sc_subs space ''roots'' else sc_subs space (roots_key k)))"

definition conf_root :: "root_conf \<Rightarrow> root res" where
  "conf_root c =
     (let can_write = rc_bool_or c ''writable'' True; visit = rc_bool_or c ''visit'' True
      in bindE (rc_string c ''path'') (\<lambda>path.
           Inr (new_root path (rc_string_or c ''name'' '''')
             (rc_bool_or c ''list'' visit) (rc_bool_or c ''retrieve'' visit)
             (rc_bool_or c ''archive'' can_write) (rc_bool_or c ''wipe'' can_write))))"

definition conf_space :: "'s root_env \<Rightarrow> texts \<Rightarrow> manager_kind \<Rightarrow> space_conf \<Rightarrow> (tables, file_space) step" where
  "conf_space R F k space =
     (let name = sc_string_or space ''name'' ''''
      in bindS
           (if sc_bool_or space ''marsDisks'' False then
              (\<lambda>t. case parseMarsDisks R F (re_expand R (sc_string_or space ''path'' ''~fdb/etc/disks/fdb'')) name t of
                     (roots, t) \<Rightarrow> (Inr roots, t))
            else liftS (bindE (getSpaceRoots k space) (mapE conf_root))) (\<lambda>roots.
         retS \<lparr>fs_name = name, fs_handler = sc_string_or space ''handler'' ''Default'',
               fs_regex = sc_string_or space ''regex'' ''.*'', fs_roots = roots\<rparr>))"

fun conf_spaces :: "'s root_env \<Rightarrow> texts \<Rightarrow> manager_kind \<Rightarrow> space_conf list \<Rightarrow> (tables, file_space list) step" where
  "conf_spaces R F k [] = retS []"
| "conf_spaces R F k (c # cs) =
     bindS (conf_space R F k c) (\<lambda>fs. bindS (conf_spaces R F k cs) (\<lambda>table. retS (fs # table)))"

text \<open>\<open>RootManager::fileSpaces\<close>; \<open>spaces\<close> is \<open>config_.getSubConfigurations("spaces")\<close> if there are any.\<close>

definition root_directory :: "'s root_env \<Rightarrow> string" where
  "root_directory R = re_resource R ''fdbRootDirectory;$FDB_ROOT_DIRECTORY'' ''''"

definition fileSpaces ::
    "'s root_env \<Rightarrow> ext \<Rightarrow> path_ops \<Rightarrow> texts \<Rightarrow> manager_kind \<Rightarrow> space_conf list option \<Rightarrow> (tables, file_space list) step"
where
  "fileSpaces R e P F k spaces =
     (if root_directory R \<noteq> [] then
        retS [\<lparr>fs_name = '''', fs_handler = ''Default'', fs_regex = ''.*'',
               fs_roots = [new_root (root_directory R) '''' True True True True]\<rparr>]
      else case spaces of
             Some cs \<Rightarrow> conf_spaces R F k cs
           | None \<Rightarrow> parseFileSpacesFile R e P F (re_expand R ''~fdb/''))"


section \<open>The manager\<close>

record root_manager =
  rm_namers :: "namer list"
  rm_spaces :: "file_space list"

text \<open>\<open>CatalogueRootManager(config)\<close> and \<open>StoreRootManager(config)\<close>.\<close>

definition new_manager ::
    "'s root_env \<Rightarrow> ext \<Rightarrow> path_ops \<Rightarrow> texts \<Rightarrow> manager_kind \<Rightarrow> space_conf list option \<Rightarrow> (tables, root_manager) step"
where
  "new_manager R e P F k spaces =
     bindS (readDbNamers R e F) (\<lambda>namers.
     bindS (fileSpaces R e P F k spaces) (\<lambda>fss. retS \<lparr>rm_namers = namers, rm_spaces = fss\<rparr>))"

definition dbPathName :: "'s root_env \<Rightarrow> ext \<Rightarrow> root_manager \<Rightarrow> key \<Rightarrow> string res" where
  "dbPathName R e m key =
     (case find (\<lambda>n. namer_match R n key None) (rm_namers m) of
        Some n \<Rightarrow> namer_name n key
      | None \<Rightarrow> valuesToString e key)"

definition partial_value :: "ext \<Rightarrow> key \<Rightarrow> string \<Rightarrow> string \<Rightarrow> string res" where
  "partial_value e key missing k =
     bindE (get_key key k) (\<lambda>v. if v = missing \<or> v = [] then Inr missing else canonicalValue e key k)"

definition possibleDbPathNames :: "'s root_env \<Rightarrow> ext \<Rightarrow> root_manager \<Rightarrow> key \<Rightarrow> string \<Rightarrow> string list res" where
  "possibleDbPathNames R e m key missing =
     bindE (mapE (\<lambda>n. namePartial n key missing)
              (filter (\<lambda>n. namer_match R n key (Some missing)) (rm_namers m))) (\<lambda>result.
     bindE (mapE (partial_value e key missing) (key_names key)) (\<lambda>vs.
       Inr (result @ [join_with '':'' vs])))"

text \<open>
  \<open>directory(key)\<close>. The state is the manager, whose roots keep what \<open>exists\<close> answered, and what outlives
  the handlers.
\<close>

fun directory_loop ::
    "'s root_env \<Rightarrow> ext \<Rightarrow> path_ops \<Rightarrow> handlers \<Rightarrow> string \<Rightarrow> disk \<Rightarrow> key \<Rightarrow> string \<Rightarrow> string \<Rightarrow> file_space list \<Rightarrow>
     's sys \<Rightarrow> toc_path res \<times> file_space list \<times> 's sys"
where
  "directory_loop R e P H f d key dbpath keystr [] sys = (Inl (SeriousBug ''No FDB file space''), [], sys)"
| "directory_loop R e P H f d key dbpath keystr (fs # fss) sys =
     (if space_match R fs keystr then
        (case filesystem R e P H f d key dbpath (fs, sys) of
           (res, (fs, sys)) \<Rightarrow>
             (bindE res (\<lambda>root. Inr \<lparr>tp_directory = po_join P (tp_directory root) dbpath, tp_ids = tp_ids root\<rparr>),
              fs # fss, sys))
      else (case directory_loop R e P H f d key dbpath keystr fss sys of
              (res, fss, sys) \<Rightarrow> (res, fs # fss, sys)))"

definition manager_directory ::
    "'s root_env \<Rightarrow> ext \<Rightarrow> path_ops \<Rightarrow> handlers \<Rightarrow> string \<Rightarrow> disk \<Rightarrow> key \<Rightarrow> (root_manager \<times> 's sys, toc_path) step"
where
  "manager_directory R e P H f d key = (\<lambda>(m, sys).
     case dbPathName R e m key of
       Inl err \<Rightarrow> (Inl err, (m, sys))
     | Inr dbpath \<Rightarrow>
         (if root_directory R \<noteq> [] then
            (Inr \<lparr>tp_directory = root_directory R @ ''/'' @ dbpath, tp_ids = 0\<rparr>, (m, sys))
          else case valuesToString e key of
                 Inl err \<Rightarrow> (Inl err, (m, sys))
               | Inr keystr \<Rightarrow>
                   (case directory_loop R e P H f d key dbpath keystr (rm_spaces m) sys of
                      (res, fss, sys) \<Rightarrow> (res, (m\<lparr>rm_spaces := fss\<rparr>, sys)))))"

text \<open>The loops that gather roots from the spaces that match.\<close>

fun gather_roots ::
    "(file_space \<Rightarrow> bool) \<Rightarrow> (file_space \<Rightarrow> string list \<Rightarrow> string list \<times> file_space) \<Rightarrow> file_space list \<Rightarrow> string list \<Rightarrow>
     string list \<times> file_space list"
where
  "gather_roots sel add [] roots = (roots, [])"
| "gather_roots sel add (fs # fss) roots =
     (if sel fs then
        (case add fs roots of (roots, fs) \<Rightarrow>
           (case gather_roots sel add fss roots of (roots, fss) \<Rightarrow> (roots, fs # fss)))
      else (case gather_roots sel add fss roots of (roots, fss) \<Rightarrow> (roots, fs # fss)))"

definition gather_for ::
    "(string \<Rightarrow> file_space \<Rightarrow> bool) \<Rightarrow> (file_space \<Rightarrow> string list \<Rightarrow> string list \<times> file_space) \<Rightarrow> ext \<Rightarrow> key \<Rightarrow>
     (root_manager, string list) step"
where
  "gather_for sel add e key = (\<lambda>m.
     case valuesToString e key of
       Inl err \<Rightarrow> (Inl err, m)
     | Inr k \<Rightarrow>
         (case gather_roots (sel k) add (rm_spaces m) [] of
            (roots, fss) \<Rightarrow> (Inr roots, m\<lparr>rm_spaces := fss\<rparr>)))"

definition allRoots :: "'s root_env \<Rightarrow> ext \<Rightarrow> key \<Rightarrow> (root_manager, string list) step" where
  "allRoots R e key = gather_for (\<lambda>k fs. space_match R fs k) (space_all R) e key"

definition canArchiveRoots :: "'s root_env \<Rightarrow> ext \<Rightarrow> key \<Rightarrow> (root_manager, string list) step" where
  "canArchiveRoots R e key = gather_for (\<lambda>k fs. space_match R fs k) (space_enabled_set R IdArchive) e key"

definition canMoveToRoots :: "'s root_env \<Rightarrow> ext \<Rightarrow> key \<Rightarrow> (root_manager, string list) step" where
  "canMoveToRoots R e key = gather_for (\<lambda>k fs. space_match R fs k) (space_enabled_set R IdWipe) e key"

definition visitableRoots :: "'s root_env \<Rightarrow> ext \<Rightarrow> key list \<Rightarrow> (root_manager, string list) step" where
  "visitableRoots R e keys = (\<lambda>m.
     case mapE (valuesToString e) keys of
       Inl err \<Rightarrow> (Inl err, m)
     | Inr keystrings \<Rightarrow>
         (case gather_roots (\<lambda>fs. list_ex (\<lambda>k. space_match R fs k \<or> k = []) keystrings)
                 (space_enabled_set R IdList) (rm_spaces m) [] of
            (roots, fss) \<Rightarrow> (Inr roots, m\<lparr>rm_spaces := fss\<rparr>)))"

definition visitableRoots_key :: "'s root_env \<Rightarrow> ext \<Rightarrow> key \<Rightarrow> (root_manager, string list) step" where
  "visitableRoots_key R e key = visitableRoots R e [key]"

definition visitableRoots_rq :: "'s root_env \<Rightarrow> ext \<Rightarrow> schema \<Rightarrow> mars_request \<Rightarrow> (root_manager, string list) step" where
  "visitableRoots_rq R e sch rq =
     bindS (liftS (schema_matchFirstLevel_rq sch rq [] '''')) (\<lambda>keys. visitableRoots R e (map snd keys))"

section \<open>The engine\<close>

text \<open>
  A directory, as \<open>opendir\<close> and \<open>readdir\<close> show it: the names in it, each with whether it is a directory
  (what cannot be asked with \<open>stat\<close> is not), or why it could not be opened.
\<close>

datatype dir_result = DirEntries "(string \<times> bool) list" | DirMissing | DirDenied | DirFailed

definition child_path :: "string \<Rightarrow> string \<Rightarrow> string" where
  "child_path path name = (if last path = CHR ''/'' then path @ name else path @ ''/'' @ name)"

definition is_dot :: "string \<Rightarrow> bool" where
  "is_dot name \<longleftrightarrow> name = ''.'' \<or> name = ''..''"

fun scan_dbs :: "nat \<Rightarrow> (string \<Rightarrow> bool) \<Rightarrow> (string \<Rightarrow> dir_result) \<Rightarrow> string \<Rightarrow> string list \<Rightarrow> string list res" where
  "scan_dbs 0 toc dirs path dbs = Inl (LibraryError ''fuel'')"
| "scan_dbs (Suc n) toc dirs path dbs =
     (if toc path then Inr (dbs @ [path])
      else case dirs path of
             DirMissing \<Rightarrow> Inr dbs
           | DirDenied \<Rightarrow> Inr dbs
           | DirFailed \<Rightarrow> Inl (IOError ''opendir'')
           | DirEntries es \<Rightarrow>
               foldE (\<lambda>(name, isDir) dbs.
                 if \<not> is_dot name \<and> isDir then scan_dbs n toc dirs (child_path path name) dbs else Inr dbs) es dbs)"

definition has_toc :: "path_ops \<Rightarrow> disk \<Rightarrow> string \<Rightarrow> bool" where
  "has_toc P d path \<longleftrightarrow> path_exists d (po_join P path ''toc'')"

text \<open>\<open>canHandle(uri)\<close>, for the scheme and the path of the URI.\<close>

definition canHandle :: "'s root_env \<Rightarrow> path_ops \<Rightarrow> disk \<Rightarrow> string \<Rightarrow> string \<Rightarrow> bool" where
  "canHandle R P d scheme path \<longleftrightarrow> scheme = ''toc'' \<and> re_isDir R path \<and> has_toc P d path"

definition missing_regex :: string where
  "missing_regex = ''[^:/]*''"

definition db_regex :: "'s root_env \<Rightarrow> string \<Rightarrow> string \<Rightarrow> string" where
  "db_regex R root dbpath = ''^'' @ re_escape R root @ ''/'' @ dbpath @ ''$''"

definition add_matching :: "'s root_env \<Rightarrow> string \<Rightarrow> string list \<Rightarrow> string \<Rightarrow> string list \<Rightarrow> string list" where
  "add_matching R root dbs dbpath result =
     fold (\<lambda>k result. if k \<notin> set result \<and> re_match R (db_regex R root dbpath) k then insort_insert k result else result)
       dbs result"

text \<open>
  The environment of the engine: how managers are made, the schema, the fuel of the scan and of the
  readers, and the options of the handlers it makes.
\<close>

record 's engine_env =
  en_roots :: "'s root_env"
  en_ext :: ext
  en_paths :: path_ops
  en_texts :: texts
  en_spaces :: "space_conf list option"
  en_schema :: schema
  en_dirs :: "string \<Rightarrow> dir_result"
  en_fuel :: nat
  en_version :: nat
  en_useSubToc :: bool

definition catalogue_manager :: "'s engine_env \<Rightarrow> (tables, root_manager) step" where
  "catalogue_manager E =
     new_manager (en_roots E) (en_ext E) (en_paths E) (en_texts E) CatalogueRoots (en_spaces E)"

definition databases_keys :: "'s engine_env \<Rightarrow> disk \<Rightarrow> key list \<Rightarrow> string list \<Rightarrow> (tables, string list) step" where
  "databases_keys E d keys roots =
     foldS (\<lambda>root result.
       bindS (liftS (scan_dbs (en_fuel E) (has_toc (en_paths E) d) (en_dirs E) root [])) (\<lambda>dbs.
         foldS (\<lambda>i result.
           bindS (catalogue_manager E) (\<lambda>m.
           bindS (liftS (possibleDbPathNames (en_roots E) (en_ext E) m i missing_regex)) (\<lambda>dbpaths.
             retS (fold (add_matching (en_roots E) root dbs) dbpaths result)))) keys result)) roots []"

text \<open>A database whose table of contents cannot be read is reported and passed over.\<close>

definition readable_key :: "'s engine_env \<Rightarrow> disk \<Rightarrow> string \<Rightarrow> key option" where
  "readable_key E d path =
     (case bindE (new_handler (en_paths E) d (en_version E) (en_useSubToc E) path)
             (databaseKey (en_fuel E) (en_paths E) d) of
        Inl err \<Rightarrow> None
      | Inr (key, h) \<Rightarrow> Some key)"

definition databases_key :: "'s engine_env \<Rightarrow> disk \<Rightarrow> key \<Rightarrow> string list \<Rightarrow> (tables, string list) step" where
  "databases_key E d key roots =
     bindS (liftS (schema_matchFirstLevel (en_schema E) key [] missing_regex)) (\<lambda>keys.
     bindS (databases_keys E d (map snd keys) roots) (\<lambda>found.
       retS (filter (\<lambda>path. case readable_key E d path of None \<Rightarrow> False | Some k \<Rightarrow> match_key k key) found)))"

definition databases_rq :: "'s engine_env \<Rightarrow> disk \<Rightarrow> mars_request \<Rightarrow> string list \<Rightarrow> (tables, string list) step" where
  "databases_rq E d rq roots =
     bindS (liftS (schema_matchFirstLevel_rq (en_schema E) rq [] '''')) (\<lambda>keys.
     bindS (databases_keys E d (map snd keys) roots) (\<lambda>found.
       retS (filter (\<lambda>path. case readable_key E d path of None \<Rightarrow> False | Some k \<Rightarrow> partialMatch k rq) found)))"

definition with_manager :: "'s engine_env \<Rightarrow> (root_manager, 'a) step \<Rightarrow> (tables, 'a) step" where
  "with_manager E f = bindS (catalogue_manager E) (\<lambda>m. liftS (fst (f m)))"

definition allLocations :: "'s engine_env \<Rightarrow> disk \<Rightarrow> key \<Rightarrow> (tables, string list) step" where
  "allLocations E d key =
     bindS (with_manager E (allRoots (en_roots E) (en_ext E) key)) (databases_key E d key)"

definition visitableLocations_key :: "'s engine_env \<Rightarrow> disk \<Rightarrow> key \<Rightarrow> (tables, string list) step" where
  "visitableLocations_key E d key =
     bindS (with_manager E (visitableRoots_key (en_roots E) (en_ext E) key)) (databases_key E d key)"

definition visitableLocations_rq :: "'s engine_env \<Rightarrow> disk \<Rightarrow> mars_request \<Rightarrow> (tables, string list) step" where
  "visitableLocations_rq E d rq =
     bindS (with_manager E (visitableRoots_rq (en_roots E) (en_ext E) (en_schema E) rq)) (databases_rq E d rq)"

definition writableLocations :: "'s engine_env \<Rightarrow> disk \<Rightarrow> key \<Rightarrow> (tables, string list) step" where
  "writableLocations E d key =
     bindS (with_manager E (canArchiveRoots (en_roots E) (en_ext E) key)) (databases_key E d key)"

definition engine_location ::
    "'s engine_env \<Rightarrow> handlers \<Rightarrow> string \<Rightarrow> disk \<Rightarrow> key \<Rightarrow> (tables \<times> 's sys, string) step"
where
  "engine_location E H f d key = (\<lambda>(t, sys).
     case catalogue_manager E t of
       (Inl err, t) \<Rightarrow> (Inl err, (t, sys))
     | (Inr m, t) \<Rightarrow>
         (case manager_directory (en_roots E) (en_ext E) (en_paths E) H f d key (m, sys) of
            (res, (m, sys)) \<Rightarrow> (bindE res (\<lambda>p. Inr (tp_directory p)), (t, sys))))"


section \<open>The scan finds the databases\<close>

text \<open>
  The specification: a directory with a table of contents is a database and hides what is below it; else
  the databases of its subdirectories are below it.
\<close>

inductive db_below :: "(string \<Rightarrow> bool) \<Rightarrow> (string \<Rightarrow> dir_result) \<Rightarrow> string \<Rightarrow> string \<Rightarrow> bool" for toc dirs where
  here: "toc path \<Longrightarrow> db_below toc dirs path path"
| sub: "\<not> toc path \<Longrightarrow> dirs path = DirEntries es \<Longrightarrow> (name, True) \<in> set es \<Longrightarrow> \<not> is_dot name \<Longrightarrow>
    db_below toc dirs (child_path path name) q \<Longrightarrow> db_below toc dirs path q"

inductive_cases db_belowE: "db_below toc dirs path q"

text \<open>A tree of directories: the depth decreases towards the children, and every one of them opens.\<close>

definition dir_tree :: "(string \<Rightarrow> dir_result) \<Rightarrow> (string \<Rightarrow> nat) \<Rightarrow> bool" where
  "dir_tree dirs depth \<longleftrightarrow>
     (\<forall>path. dirs path \<noteq> DirFailed) \<and>
     (\<forall>path es name. dirs path = DirEntries es \<longrightarrow> (name, True) \<in> set es \<longrightarrow> \<not> is_dot name \<longrightarrow>
        depth (child_path path name) < depth path)"

lemma scan_entries:
  assumes "\<And>name dbs. (name, True) \<in> set es \<Longrightarrow> \<not> is_dot name \<Longrightarrow>
      \<exists>ps. go (child_path path name) dbs = Inr (dbs @ ps) \<and> set ps = {q. db_below toc dirs (child_path path name) q}"
  shows "\<exists>ps. foldE (\<lambda>(name, isDir) dbs. if \<not> is_dot name \<and> isDir then go (child_path path name) dbs else Inr dbs) es dbs =
      Inr (dbs @ ps) \<and>
      set ps = {q. \<exists>name. (name, True) \<in> set es \<and> \<not> is_dot name \<and> db_below toc dirs (child_path path name) q}"
  using assms
proof (induction es arbitrary: dbs)
  case (Cons x es)
  obtain name isDir where x: "x = (name, isDir)" by (cases x)
  show ?case
  proof (cases "\<not> is_dot name \<and> isDir")
    case True
    then obtain ps where ps: "go (child_path path name) dbs = Inr (dbs @ ps)"
      "set ps = {q. db_below toc dirs (child_path path name) q}"
      using Cons.prems [of name dbs] x by auto
    obtain qs where qs: "foldE (\<lambda>(name, isDir) dbs. if \<not> is_dot name \<and> isDir then go (child_path path name) dbs else Inr dbs) es
        (dbs @ ps) = Inr ((dbs @ ps) @ qs)"
      "set qs = {q. \<exists>name. (name, True) \<in> set es \<and> \<not> is_dot name \<and> db_below toc dirs (child_path path name) q}"
      using Cons.IH [of "dbs @ ps"] Cons.prems by auto
    show ?thesis
      using True x ps qs by (intro exI [where x = "ps @ qs"]) auto
  next
    case False
    obtain qs where qs: "foldE (\<lambda>(name, isDir) dbs. if \<not> is_dot name \<and> isDir then go (child_path path name) dbs else Inr dbs) es
        dbs = Inr (dbs @ qs)"
      "set qs = {q. \<exists>name. (name, True) \<in> set es \<and> \<not> is_dot name \<and> db_below toc dirs (child_path path name) q}"
      using Cons.IH [of dbs] Cons.prems by auto
    show ?thesis
      using False x qs by (intro exI [where x = qs]) auto
  qed
qed simp

lemma scan_dbs_spec:
  assumes tree: "dir_tree dirs depth" and "depth path < n"
  shows "\<exists>ps. scan_dbs n toc dirs path dbs = Inr (dbs @ ps) \<and> set ps = {q. db_below toc dirs path q}"
  using assms(2)
proof (induction n arbitrary: path dbs)
  case (Suc n)
  show ?case
  proof (cases "toc path")
    case True
    then have "{q. db_below toc dirs path q} = {path}"
      by (auto intro: db_below.here elim: db_belowE)
    with True show ?thesis by simp
  next
    case noToc: False
    show ?thesis
    proof (cases "dirs path")
      case (DirEntries es)
      have sub: "\<exists>ps. scan_dbs n toc dirs (child_path path name) dbs = Inr (dbs @ ps) \<and>
          set ps = {q. db_below toc dirs (child_path path name) q}"
        if "(name, True) \<in> set es" "\<not> is_dot name" for name dbs
      proof (rule Suc.IH)
        have "depth (child_path path name) < depth path"
          using tree that DirEntries unfolding dir_tree_def by blast
        with Suc.prems show "depth (child_path path name) < n" by simp
      qed
      have below: "{q. db_below toc dirs path q} =
          {q. \<exists>name. (name, True) \<in> set es \<and> \<not> is_dot name \<and> db_below toc dirs (child_path path name) q}"
        using noToc DirEntries by (auto simp: db_below.simps [of toc dirs path])
      from scan_entries [OF sub, of es dbs] show ?thesis
        using noToc DirEntries below by simp
    next
      case DirFailed
      with tree show ?thesis by (auto simp: dir_tree_def)
    qed (use noToc in \<open>auto elim: db_belowE\<close>)
  qed
qed simp

text \<open>
  C19: The scan of a root ends and is exact. On a tree of directories that can be read or are gone, with
  more fuel than the tree is deep, \<open>scan_dbs\<close> returns, and appends to the list exactly the directories
  at or below the path that hold a table of contents and have none above them.
\<close>
theorem scan_dbs_exact:
  assumes "dir_tree dirs depth" and "depth path < n"
  shows "\<exists>ps. scan_dbs n toc dirs path dbs = Inr (dbs @ ps) \<and> set ps = {q. db_below toc dirs path q}"
  by (rule scan_dbs_spec [OF assms])

definition sample_dirs :: "string \<Rightarrow> dir_result" where
  "sample_dirs path =
     (if path = ''/r'' then DirEntries [(''.'', True), (''a'', True), (''b'', True), (''f'', False)]
      else if path = ''/r/b'' then DirEntries [(''c'', True)]
      else DirMissing)"

lemma sample_dirs_tree: "dir_tree sample_dirs (\<lambda>p. 6 - length p)"
  by (auto simp: dir_tree_def sample_dirs_def is_dot_def child_path_def split: if_splits)

lemma scan_dbs_exact_witness:
  "scan_dbs 5 (\<lambda>p. p \<in> {''/r/a'', ''/r/b/c'', ''/r/a/x''}) sample_dirs ''/r'' [] = Inr [''/r/a'', ''/r/b/c''] \<and>
   {q. db_below (\<lambda>p. p \<in> {''/r/a'', ''/r/b/c'', ''/r/a/x''}) sample_dirs ''/r'' q} = {''/r/a'', ''/r/b/c''}"
proof -
  let ?toc = "\<lambda>p. p \<in> {''/r/a'', ''/r/b/c'', ''/r/a/x''}"
  have run: "scan_dbs 5 ?toc sample_dirs ''/r'' [] = Inr [''/r/a'', ''/r/b/c'']"
    by (simp add: numeral_eq_Suc sample_dirs_def is_dot_def child_path_def)
  moreover from scan_dbs_exact [OF sample_dirs_tree, of "''/r''" 5 ?toc "[]"] run
  have "{q. db_below ?toc sample_dirs ''/r'' q} = {''/r/a'', ''/r/b/c''}" by auto
  ultimately show ?thesis by blast
qed


section \<open>Names and patterns of a database\<close>

definition full_values :: "string \<Rightarrow> key \<Rightarrow> bool" where
  "full_values missing k \<longleftrightarrow> (\<forall>v \<in> snd ` set (key_dict k). v \<noteq> [] \<and> v \<noteq> missing)"

lemma full_find: "full_values missing k \<Longrightarrow> key_find k n = Some v \<Longrightarrow> v \<noteq> [] \<and> v \<noteq> missing"
  by (force simp: full_values_def key_find_def dest: map_of_SomeD)

lemma full_namer_match: "full_values missing k \<Longrightarrow> namer_match R n k (Some missing) = namer_match R n k None"
  unfolding namer_match_def full_values_def
  by (intro conj_cong refl list.pred_cong) (auto split: option.splits)

lemma full_namer_name: "full_values missing k \<Longrightarrow> namePartial n k missing = namer_name n k"
proof -
  assume full: "full_values missing k"
  have "var_value n k (Some missing) = var_value n k None"
    using full_find [OF full] by (auto simp: var_value_def fun_eq_iff split: option.splits)
  then show ?thesis by (simp add: namePartial_def namer_name_def substituteVars_def)
qed

lemma full_partial_values:
  assumes "full_values missing k" and "mapE (canonicalValue e k) ns = Inr vs"
    and "mapE (partial_value e k missing) ns = Inr ws"
  shows "ws = vs"
  using assms(2,3)
proof (induction ns arbitrary: vs ws)
  case (Cons n ns)
  from Cons.prems obtain v vs' w ws' where *: "canonicalValue e k n = Inr v" "mapE (canonicalValue e k) ns = Inr vs'"
    "vs = v # vs'" "partial_value e k missing n = Inr w" "mapE (partial_value e k missing) ns = Inr ws'" "ws = w # ws'"
    by (auto simp: bindE_eq_Inr)
  then have "w = v"
    using full_find [OF assms(1)] by (auto simp: partial_value_def bindE_eq_Inr get_key_find split: if_splits)
  with * Cons.IH show ?case by blast
qed simp

lemma mapE_member: "mapE f xs = Inr ys \<Longrightarrow> x \<in> set xs \<Longrightarrow> \<exists>y \<in> set ys. f x = Inr y"
  by (induction xs arbitrary: ys) (auto simp: bindE_eq_Inr)

lemma possible_contains_name:
  assumes full: "full_values missing k" and name: "dbPathName R e m k = Inr s"
    and names: "possibleDbPathNames R e m k missing = Inr ss"
  shows "s \<in> set ss"
proof -
  let ?ns = "filter (\<lambda>n. namer_match R n k (Some missing)) (rm_namers m)"
  from names obtain rs vs where rs: "mapE (\<lambda>n. namePartial n k missing) ?ns = Inr rs"
    and vs: "mapE (partial_value e k missing) (key_names k) = Inr vs" and ss: "ss = rs @ [join_with '':'' vs]"
    by (auto simp: possibleDbPathNames_def bindE_eq_Inr)
  show ?thesis
  proof (cases "find (\<lambda>n. namer_match R n k None) (rm_namers m)")
    case None
    with name obtain ws where "mapE (canonicalValue e k) (key_names k) = Inr ws" "s = join_with '':'' ws"
      by (auto simp: dbPathName_def valuesToString_def bindE_eq_Inr)
    with full_partial_values [OF full _ vs] ss show ?thesis by auto
  next
    case (Some n)
    then have "n \<in> set ?ns"
      by (auto simp: find_Some_iff full_namer_match [OF full])
    from mapE_member [OF rs this] Some name ss show ?thesis
      by (auto simp: dbPathName_def full_namer_name [OF full])
  qed
qed

section \<open>The databases of a key\<close>

lemma set_add_matching:
  "set (add_matching R root dbs nm result) = set result \<union> {k \<in> set dbs. re_match R (db_regex R root nm) k}"
  unfolding add_matching_def by (induction dbs arbitrary: result) (auto simp: set_insort_insert)

lemma set_add_all_matching:
  "set (fold (add_matching R root dbs) nms result) =
     set result \<union> {k \<in> set dbs. \<exists>nm \<in> set nms. re_match R (db_regex R root nm) k}"
  by (induction nms arbitrary: result) (auto simp: set_add_matching)

text \<open>What a loop that only adds to a set has added, when its state stays the same.\<close>

lemma foldS_adds:
  assumes "\<And>a x y s'. a \<in> set as \<Longrightarrow> f a x s = (Inr y, s') \<Longrightarrow> s' = s \<and> set y = set x \<union> G a"
    and "foldS f as x s = (Inr y, s')"
  shows "s' = s \<and> set y = set x \<union> (\<Union>a \<in> set as. G a)"
  using assms
proof (induction as arbitrary: x)
  case (Cons a as)
  then obtain z s1 where z: "f a x s = (Inr z, s1)" "foldS f as z s1 = (Inr y, s')"
    by (auto simp: bindS_eq_Inr)
  with Cons.prems(1) have "s1 = s" "set z = set x \<union> G a" by auto
  with Cons.IH [of z] Cons.prems(1) z(2) show ?case by auto
qed simp

text \<open>The candidates of one key under one root.\<close>

definition candidates :: "'s engine_env \<Rightarrow> disk \<Rightarrow> root_manager \<Rightarrow> string \<Rightarrow> key \<Rightarrow> string set" where
  "candidates E d m root i =
     {p. \<exists>names. possibleDbPathNames (en_roots E) (en_ext E) m i missing_regex = Inr names \<and>
        db_below (has_toc (en_paths E) d) (en_dirs E) root p \<and>
        (\<exists>nm \<in> set names. re_match (en_roots E) (db_regex (en_roots E) root nm) p)}"

lemma databases_keys_set:
  assumes m: "catalogue_manager E t = (Inr m, t)"
    and tree: "dir_tree (en_dirs E) depth" and fuel: "\<forall>root \<in> set roots. depth root < en_fuel E"
    and res: "databases_keys E d keys roots t = (Inr res, t')"
  shows "set res = (\<Union>root \<in> set roots. \<Union>i \<in> set keys. candidates E d m root i)"
proof -
  let ?scan = "\<lambda>root. scan_dbs (en_fuel E) (has_toc (en_paths E) d) (en_dirs E) root []"
  let ?inner = "\<lambda>root dbs i result. bindS (catalogue_manager E) (\<lambda>m.
           bindS (liftS (possibleDbPathNames (en_roots E) (en_ext E) m i missing_regex)) (\<lambda>dbpaths.
             retS (fold (add_matching (en_roots E) root dbs) dbpaths result)))"
  have "t' = t \<and> set res = set [] \<union> (\<Union>root \<in> set roots. \<Union>i \<in> set keys. candidates E d m root i)"
  proof (rule foldS_adds [OF _ res [unfolded databases_keys_def]])
    fix root x y s'
    assume root: "root \<in> set roots" and step: "bindS (liftS (?scan root)) (\<lambda>dbs. foldS (?inner root dbs) keys x) t = (Inr y, s')"
    from scan_dbs_spec [OF tree, of root "en_fuel E" "has_toc (en_paths E) d" "[]"] fuel root
    obtain ps where ps: "?scan root = Inr ps" "set ps = {q. db_below (has_toc (en_paths E) d) (en_dirs E) root q}"
      by auto
    with step have "foldS (?inner root ps) keys x t = (Inr y, s')" by simp
    then show "s' = t \<and> set y = set x \<union> (\<Union>i \<in> set keys. candidates E d m root i)"
    proof (rule foldS_adds [rotated])
      fix i x y s'
      assume "?inner root ps i x t = (Inr y, s')"
      with m obtain names where "possibleDbPathNames (en_roots E) (en_ext E) m i missing_regex = Inr names"
        "y = fold (add_matching (en_roots E) root ps) names x" "s' = t"
        by (auto simp: bindS_eq_Inr)
      with ps(2) show "s' = t \<and> set y = set x \<union> candidates E d m root i"
        by (auto simp: set_add_all_matching candidates_def)
    qed
  qed
  then show ?thesis by simp
qed

text \<open>An escaped root followed by a text without special characters matches that path.\<close>

definition plain_name :: "string \<Rightarrow> bool" where
  "plain_name s \<longleftrightarrow> s \<noteq> [] \<and> list_all (\<lambda>c. is_alnum c \<or> c = CHR '':'' \<or> c = CHR ''-'' \<or> c = CHR ''_'') s"

definition regex_law :: "'s root_env \<Rightarrow> bool" where
  "regex_law R \<longleftrightarrow> (\<forall>root s. plain_name s \<longrightarrow> re_match R (db_regex R root s) (root @ ''/'' @ s))"

lemma databases_rq_set:
  assumes m: "catalogue_manager E t = (Inr m, t)"
    and tree: "dir_tree (en_dirs E) depth" and fuel: "\<forall>root \<in> set roots. depth root < en_fuel E"
    and res: "databases_rq E d rq roots t = (Inr res, t')"
  shows "\<exists>keys. schema_matchFirstLevel_rq (en_schema E) rq [] '''' = Inr keys \<and>
     set res = {p \<in> (\<Union>root \<in> set roots. \<Union>i \<in> snd ` set keys. candidates E d m root i).
                  \<exists>k. readable_key E d p = Some k \<and> partialMatch k rq}"
proof -
  obtain keys found where keys: "schema_matchFirstLevel_rq (en_schema E) rq [] '''' = Inr keys"
    and found: "databases_keys E d (map snd keys) roots t = (Inr found, t')"
    and flt: "res = filter (\<lambda>path. case readable_key E d path of None \<Rightarrow> False | Some k \<Rightarrow> partialMatch k rq) found"
    using res by (auto simp: databases_rq_def bindS_eq_Inr)
  from databases_keys_set [OF m tree fuel found] keys show ?thesis
    by (auto simp: flt split: option.splits)
qed

text \<open>
  C17: What was created is found. When the namers and spaces are loaded and a root holds a database under
  the name \<open>dbPathName\<close> gives its key, then for a request whose expansions by the first levels of the
  schema contain that key (all its values given, and a name without special characters),
  \<open>TocEngine::databases\<close> returns its path, provided its table of contents is readable and its key matches
  the request; and every path it returns is a database of one of the roots whose key matches the request.
\<close>
theorem created_database_found:
  assumes law: "regex_law (en_roots E)" and m: "catalogue_manager E t = (Inr m, t)"
    and tree: "dir_tree (en_dirs E) depth" and fuel: "\<forall>root \<in> set roots. depth root < en_fuel E"
    and res: "databases_rq E d rq roots t = (Inr res, t')"
    and keys: "schema_matchFirstLevel_rq (en_schema E) rq [] '''' = Inr keys"
    and k: "k \<in> snd ` set keys" "full_values missing_regex k"
    and name: "dbPathName (en_roots E) (en_ext E) m k = Inr nm" "plain_name nm"
    and names: "possibleDbPathNames (en_roots E) (en_ext E) m k missing_regex = Inr names"
    and root: "root \<in> set roots"
    and there: "db_below (has_toc (en_paths E) d) (en_dirs E) root (root @ ''/'' @ nm)"
    and readable: "readable_key E d (root @ ''/'' @ nm) = Some k'" "partialMatch k' rq"
  shows "root @ ''/'' @ nm \<in> set res \<and>
     (\<forall>p \<in> set res. (\<exists>root \<in> set roots. db_below (has_toc (en_paths E) d) (en_dirs E) root p) \<and>
        (\<exists>k. readable_key E d p = Some k \<and> partialMatch k rq))"
proof
  note res_set = databases_rq_set [OF m tree fuel res]
  have "nm \<in> set names"
    by (rule possible_contains_name [OF k(2) name(1) names])
  moreover have "re_match (en_roots E) (db_regex (en_roots E) root nm) (root @ ''/'' @ nm)"
    using law name(2) by (simp add: regex_law_def)
  ultimately have "root @ ''/'' @ nm \<in> candidates E d m root k"
    using names there unfolding candidates_def by blast
  with res_set keys k(1) root readable show "root @ ''/'' @ nm \<in> set res" by auto
  show "\<forall>p \<in> set res. (\<exists>root \<in> set roots. db_below (has_toc (en_paths E) d) (en_dirs E) root p) \<and>
        (\<exists>k. readable_key E d p = Some k \<and> partialMatch k rq)"
    using res_set unfolding candidates_def by blast
qed

section \<open>Databases of a key that has values\<close>

lemma push_all_plain: "key_registry (push_all kvs k) = key_registry k \<and> key_canonical (push_all kvs k) = key_canonical k"
proof (induction kvs arbitrary: k)
  case (Cons x kvs)
  then show ?case by (cases x) (simp add: push_key_def)
qed simp

lemma pattern_not_canonical:
  assumes "pat \<in> set (schema_patterns sch q missing)"
  shows "key_registry pat = None" "\<not> key_canonical pat" "match_key pat q"
proof -
  obtain kvs where "pat = push_all kvs (new_key None)" and "match_key pat q"
    using assms by (auto simp: schema_patterns_def)
  then show "key_registry pat = None" "\<not> key_canonical pat" "match_key pat q"
    using push_all_plain [of kvs "new_key None"] by (simp_all add: new_key_def)
qed

lemma fold_keyset_subset: "snd ` set (fold keyset_insert ks s) \<subseteq> set ks \<union> snd ` set s"
proof (induction ks arbitrary: s)
  case (Cons k ks)
  have "snd ` set (dict_put a k s) \<subseteq> insert k (snd ` set s)" for a
    by (induction a k s rule: dict_put.induct) auto
  then have "snd ` set (keyset_insert k s) \<subseteq> insert k (snd ` set s)"
    by (auto simp: keyset_insert_def)
  with Cons.IH [of "keyset_insert k s"] show ?case by auto
qed simp

lemma fold_keyset_nonempty: "ks \<noteq> [] \<Longrightarrow> fold keyset_insert ks [] \<noteq> []"
  using keyset_fold_insert [OF keyset_ok_Nil, of ks] by (auto simp: keyset_dicts_def)

lemma mapE_fails: "x \<in> set xs \<Longrightarrow> f x = Inl err \<Longrightarrow> \<exists>err. mapE f xs = Inl err"
  by (induction xs) (auto, metis bindE.simps(1) sumE bindE.simps(2))

lemma possible_names_fail:
  assumes "key_registry k = None" "\<not> key_canonical k" and "kw \<in> set (key_names k)"
    and "key_find k kw = Some v" and "v \<noteq> []" "v \<noteq> missing"
  shows "\<exists>err. possibleDbPathNames R e m k missing = Inl err"
proof -
  have "partial_value e k missing kw = Inl (SeriousBug ''TypesRegistry has not been set for Key'')"
    using assms by (simp add: partial_value_def get_key_def canonicalValue_def key_value_def canonicalise_def get_registry_def)
  from mapE_fails [of kw _ "partial_value e k missing", OF assms(3) this]
  obtain err where "mapE (partial_value e k missing) (key_names k) = Inl err" by blast
  then show ?thesis
    by (cases "mapE (\<lambda>n. namePartial n k missing) (filter (\<lambda>n. namer_match R n k (Some missing)) (rm_namers m))")
      (simp_all add: possibleDbPathNames_def)
qed


lemma match_key_find: "match_key pat q \<Longrightarrow> (kw, v) \<in> set (key_dict q) \<Longrightarrow> v \<noteq> [] \<Longrightarrow> key_find pat kw = Some v"
  by (fastforce simp: match_key_def list_all_iff split: option.splits)

lemma pattern_ok:
  assumes "schema_wf sch" and "pat \<in> set (schema_patterns sch q missing)"
  shows "key_ok pat"
proof -
  obtain r kvs where r: "r \<in> set (sch_rules sch)" and kvs: "pattern_values q missing (rule_preds r) = Some kvs"
    and pat: "pat = push_all kvs (new_key None)"
    using assms(2) by (auto simp: schema_patterns_def List.map_filter_def)
  have "distinct (map fst kvs)"
    using pattern_keywords [OF kvs] assms(1) r by (auto simp: schema_wf_def rules_wf_all dest: rule_wf_preds)
  then show ?thesis using push_all_new_ok pat by blast
qed

text \<open>
  \<open>databases(key)\<close> cannot be used with a key that has a value. The keys that \<open>matchFirstLevel\<close>
  expands from a key carry no registry of types and are not canonical, so \<open>possibleDbPathNames\<close> throws on
  the first of them; whatever the databases are, as soon as there is a root that can be scanned and a rule
  that matches, \<open>databases\<close>, and with it \<open>allLocations\<close> and \<open>writableLocations\<close>, throws.
\<close>
lemma databases_key_throws:
  assumes wf: "schema_wf (en_schema E)" and m: "catalogue_manager E t = (Inr m, t)"
    and tree: "dir_tree (en_dirs E) depth" and fuel: "depth root < en_fuel E"
    and given: "(kw, v) \<in> set (key_dict q)" "v \<noteq> []" "v \<noteq> missing_regex"
    and some_rule: "schema_patterns (en_schema E) q missing_regex \<noteq> []"
  shows "\<exists>err. fst (databases_key E d q (root # roots) t) = Inl err"
proof -
  let ?ks = "fold keyset_insert (schema_patterns (en_schema E) q missing_regex) []"
  have keys: "schema_matchFirstLevel (en_schema E) q [] missing_regex = Inr ?ks"
    by (rule schema_matchFirstLevel_fold [OF wf])
  obtain k ks where ks: "map snd ?ks = k # ks"
    using fold_keyset_nonempty [OF some_rule] by (cases ?ks) auto
  then have "k \<in> snd ` set ?ks" by (metis list.set_intros(1) list.set_map)
  then have k: "k \<in> set (schema_patterns (en_schema E) q missing_regex)"
    using fold_keyset_subset [of "schema_patterns (en_schema E) q missing_regex" "[]"] by auto
  have find: "key_find k kw = Some v"
    by (rule match_key_find [OF pattern_not_canonical(3) [OF k] given(1,2)])
  then have "kw \<in> set (key_names k)"
    using key_ok_names_find [OF pattern_ok [OF wf k]] by simp
  from possible_names_fail [OF pattern_not_canonical(1,2) [OF k] this find given(2,3)]
  obtain err where err: "possibleDbPathNames (en_roots E) (en_ext E) m k missing_regex = Inl err" by blast
  obtain ps where "scan_dbs (en_fuel E) (has_toc (en_paths E) d) (en_dirs E) root [] = Inr ps"
    using scan_dbs_spec [OF tree fuel, of "has_toc (en_paths E) d" "[]"] by auto
  then show ?thesis
    using keys ks m err by (simp add: databases_key_def databases_keys_def bindS_def)
qed


section \<open>Concrete inputs\<close>

text \<open>
  One root, a regular expression that matches the text it is, the sample schema, and a database of the
  class \<open>od\<close> and the domain \<open>g\<close> under the root.
\<close>

definition literal_env :: "unit root_env" where
  "literal_env = sample_root_env\<lparr>re_match := (\<lambda>p s. p = ''^'' @ s @ ''$''),
     re_resource := (\<lambda>n d. if n = ''fdbRootDirectory;$FDB_ROOT_DIRECTORY'' then ''/r'' else d)\<rparr>"

definition od_dirs :: "string \<Rightarrow> dir_result" where
  "od_dirs path = (if path = ''/r'' then DirEntries [(''.'', True), (''od:g'', True)] else DirMissing)"

definition sample_engine :: "unit engine_env" where
  "sample_engine = \<lparr>en_roots = literal_env, en_ext = ref_ext, en_paths = sample_paths, en_texts = (\<lambda>_. None),
     en_spaces = None, en_schema = sample_schema, en_dirs = od_dirs, en_fuel = 8, en_version = 2, en_useSubToc = False\<rparr>"

definition sample_tables :: tables where
  "sample_tables = \<lparr>tb_namers = [(''~fdb/etc/fdb/dbnames'', [])], tb_spaces = [], tb_disks = []\<rparr>"

definition od_disk :: disk where
  "od_disk = \<lparr>dk_tocs = [(''/r/od:g/toc'', [sample_record TOC_INIT
      [INum 2, IStr ''class'', IStr ''od'', IStr ''domain'', IStr ''g'',
       INum 2, IStr ''class'', IStr [], IStr ''domain'', IStr [], IBool False]])], dk_files = [''/r/od:g'']\<rparr>"

definition sample_manager :: root_manager where
  "sample_manager = \<lparr>rm_namers = [], rm_spaces = [\<lparr>fs_name = '''', fs_handler = ''Default'', fs_regex = ''.*'',
     fs_roots = [new_root ''/r'' '''' True True True True]\<rparr>]\<rparr>"

lemma sample_engine_manager: "catalogue_manager sample_engine sample_tables = (Inr sample_manager, sample_tables)"
  by (simp add: catalogue_manager_def sample_engine_def new_manager_def readDbNamers_def literal_env_def
      sample_root_env_def sample_tables_def fileSpaces_def root_directory_def sample_manager_def)

lemma od_dirs_tree: "dir_tree od_dirs (\<lambda>p. 7 - length p)"
  by (auto simp: dir_tree_def od_dirs_def is_dot_def child_path_def split: if_splits)

lemma literal_regex_law: "regex_law literal_env"
  by (simp add: regex_law_def literal_env_def sample_root_env_def db_regex_def)

lemma databases_key_throws_witness:
  "\<exists>err. fst (databases_key sample_engine od_disk (key_of_dict [(''class'', ''od'')] None) [''/r''] sample_tables) = Inl err"
proof (rule databases_key_throws [OF _ sample_engine_manager,
      where depth = "\<lambda>p. 7 - length p" and kw = "''class''" and v = "''od''"])
  show "schema_patterns (en_schema sample_engine) (key_of_dict [(''class'', ''od'')] None) missing_regex \<noteq> []"
    by (simp add: sample_engine_def schema_patterns_def sample_schema_def key_of_dict_def key_find_def map_filter_simps
        push_key_def new_key_def match_key_def)
qed (simp_all add: sample_engine_def sample_schema_wf od_dirs_tree key_of_dict_def missing_regex_def)

definition od_request :: mars_request where
  "od_request = sample_request [(''class'', [''od'']), (''domain'', [''g''])]"

lemma od_request_keys:
  "\<exists>k. schema_matchFirstLevel_rq sample_schema od_request [] '''' = Inr [([(''class'', ''od''), (''domain'', ''g'')], k)] \<and>
     key_dict k = [(''class'', ''od''), (''domain'', ''g'')] \<and> key_names k = [''class'', ''domain''] \<and>
     key_registry k = Some (rule_registry sample_schema [sch_rules sample_schema ! 1]) \<and> \<not> key_canonical k"
  by (simp add: schema_matchFirstLevel_rq_def sample_schema_def rule_matchFirstLevel_rq_def od_request_def
      sample_request_def pred_values_def push_key_def pop_key_def new_key_def pred_match_def key_find_def
      keyset_insert_def dict_erase_def get_key_def)


lemma od_key_readable:
  "readable_key sample_engine od_disk ''/r/od:g'' =
     Some \<lparr>key_dict = [(''class'', ''od''), (''domain'', ''g'')], key_names = [''class'', ''domain''],
           key_registry = None, key_canonical = True\<rparr>"
proof -
  let ?rs = "snd (hd (dk_tocs od_disk))"
  have h: "new_handler sample_paths od_disk 2 False ''/r/od:g'' = Inr (sample_handler\<lparr>th_directory := ''/r/od:g'',
      th_tocPath := ''/r/od:g/toc'', th_dbUID := None\<rparr>)"
    by (simp add: new_handler_def findRealPath_def path_exists_def od_disk_def sample_paths_def sample_handler_def)
  let ?h = "sample_handler\<lparr>th_directory := ''/r/od:g'', th_tocPath := ''/r/od:g/toc'', th_dbUID := None\<rparr>"
  have rs: "records_ok ?rs"
    by (simp add: records_ok_def od_disk_def init_ok_def sample_record_def supported_versions_def decode_key_def
        read_pair_def numeral_eq_Suc)
  let ?k = "\<lparr>key_dict = [(''class'', ''od''), (''domain'', ''g'')],
       key_names = [''class'', ''domain''], key_registry = None, key_canonical = True\<rparr> :: key"
  let ?h1 = "?h\<lparr>th_cache := Some ?rs\<rparr>"
  have op: "openForRead od_disk ?h = Inr ?h1"
    by (simp add: openForRead_def sample_handler_def od_disk_def)
  have "at_start sample_paths ?rs ?h1"
    by (simp add: at_start_def sample_handler_def)
  note next_r = readNext_first [OF rs this, of od_disk 7]
  have tag: "tr_tag (hd ?rs) = TOC_INIT" and key: "decode_key (tr_payload (hd ?rs)) = Inr (?k, [IBool False])"
    by (simp_all add: od_disk_def sample_record_def decode_key_def read_pair_def numeral_eq_Suc)
  have "key_loop (readNext sample_paths od_disk (Suc 7) default_flags) (Suc 7) [?h1] =
      Inr (?k, tr_uid (hd ?rs), [first_state sample_paths ?rs ?h1])"
    unfolding key_loop.simps next_r by (simp add: tag key)
  then have "\<exists>h. databaseKey (Suc 7) sample_paths od_disk ?h = Inr (?k, h)"
    unfolding databaseKey_def database_key_with_def op by simp
  moreover have "en_fuel sample_engine = Suc 7" "en_paths sample_engine = sample_paths" "en_version sample_engine = 2"
    "en_useSubToc sample_engine = False"
    by (simp_all add: sample_engine_def)
  ultimately show ?thesis
    unfolding readable_key_def by (auto simp: h simp del: One_nat_def)
qed


lemma created_database_found_witness:
  "\<exists>res t. databases_rq sample_engine od_disk od_request [''/r''] sample_tables = (Inr res, t) \<and> ''/r/od:g'' \<in> set res"
proof -
  obtain k where ks: "schema_matchFirstLevel_rq sample_schema od_request [] '''' = Inr [([(''class'', ''od''), (''domain'', ''g'')], k)]"
    and k: "key_dict k = [(''class'', ''od''), (''domain'', ''g'')]" "key_names k = [''class'', ''domain'']"
      "key_registry k = Some (rule_registry sample_schema [sch_rules sample_schema ! 1])" "\<not> key_canonical k"
    using od_request_keys by blast
  let ?m = sample_manager
  have vals: "canonicalValue ref_ext k ''class'' = Inr ''od''" "canonicalValue ref_ext k ''domain'' = Inr ''g''"
    by (simp_all add: canonicalValue_def key_value_def key_find_def k canonicalise_def get_registry_def
        sample_schema_def schema_registry_def build_type_def)
  have name: "dbPathName literal_env ref_ext ?m k = Inr ''od:g''"
    by (simp add: dbPathName_def sample_manager_def valuesToString_def k vals)
  have names: "possibleDbPathNames literal_env ref_ext ?m k missing_regex = Inr [''od:g'']"
    by (simp add: possibleDbPathNames_def sample_manager_def k partial_value_def get_key_def key_find_def vals
        missing_regex_def)
  have toc: "has_toc sample_paths od_disk p \<longleftrightarrow> p = ''/r/od:g''" for p
    by (auto simp: has_toc_def path_exists_def od_disk_def sample_paths_def)
  have root: "scan_dbs 8 (has_toc sample_paths od_disk) od_dirs ''/r'' [] = Inr [''/r/od:g'']"
    by (simp add: numeral_eq_Suc toc od_dirs_def is_dot_def child_path_def)
  have there: "db_below (has_toc sample_paths od_disk) od_dirs ''/r'' (''/r'' @ ''/'' @ ''od:g'')"
    using scan_dbs_spec [OF od_dirs_tree, of "''/r''" 8 "has_toc sample_paths od_disk" "[]"] root by auto
  have E: "en_roots sample_engine = literal_env" "en_ext sample_engine = ref_ext" "en_paths sample_engine = sample_paths"
    "en_dirs sample_engine = od_dirs" "en_schema sample_engine = sample_schema" "en_fuel sample_engine = 8"
    by (simp_all add: sample_engine_def)
  have "\<exists>res. databases_rq sample_engine od_disk od_request [''/r''] sample_tables = (Inr res, sample_tables)"
    unfolding databases_rq_def databases_keys_def E
    by (simp add: ks root sample_engine_manager names bindS_def)
  then obtain res where res: "databases_rq sample_engine od_disk od_request [''/r''] sample_tables = (Inr res, sample_tables)"
    by blast
  have "''/r'' @ ''/'' @ ''od:g'' \<in> set res \<and>
     (\<forall>p \<in> set res. (\<exists>root \<in> set [''/r'']. db_below (has_toc (en_paths sample_engine) od_disk) (en_dirs sample_engine) root p) \<and>
        (\<exists>k. readable_key sample_engine od_disk p = Some k \<and> partialMatch k od_request))"
  proof (rule created_database_found [OF _ sample_engine_manager _ _ res, where k = k and names = "[''od:g'']" and
        keys = "[([(''class'', ''od''), (''domain'', ''g'')], k)]" and
        depth = "\<lambda>p. 7 - length p"])
    show "readable_key sample_engine od_disk (''/r'' @ ''/'' @ ''od:g'') =
        Some \<lparr>key_dict = [(''class'', ''od''), (''domain'', ''g'')], key_names = [''class'', ''domain''],
              key_registry = None, key_canonical = True\<rparr>"
      using od_key_readable by simp
  qed (use name names there ks k in \<open>simp_all add: E literal_regex_law od_dirs_tree full_values_def missing_regex_def
        plain_name_def is_alnum_def partialMatch_def od_request_def sample_request_def key_find_def\<close>)
  then show ?thesis using res by auto
qed


section \<open>A bad file of spaces is reported once\<close>

text \<open>
  The exception about a file of spaces comes once. When \<open>parseFileSpacesFile\<close> throws because a space
  has no roots, the spaces before it stay in the static table, and the same call in the same process then
  succeeds with that part of the configuration: databases of the later spaces have no directory.
\<close>
lemma bad_spaces_reported_once:
  assumes "parseFileSpacesFile R e P F home t = (Inl (UserError ''No roots found for filespace''), t')"
    and "readRoots R e F (re_resource R ''fdbRootsFile;$FDB_ROOTS_FILE'' (po_join P home ''etc/fdb/roots'')) = Inr roots"
  shows "\<exists>table. parseFileSpacesFile R e P F home t' = (Inr table, t')"
  using assms by (auto simp: parseFileSpacesFile_def Let_def split: option.splits prod.splits sum.splits)

lemma bad_spaces_reported_once_witness:
  "\<exists>t table. parseFileSpacesFile sample_root_env ref_ext sample_paths
      (\<lambda>f. if f = ''/h/etc/fdb/spaces'' then Some ''.* a Default'' else None) ''/h'' sample_tables =
        (Inl (UserError ''No roots found for filespace''), t) \<and>
     parseFileSpacesFile sample_root_env ref_ext sample_paths
      (\<lambda>f. if f = ''/h/etc/fdb/spaces'' then Some ''.* a Default'' else None) ''/h'' t = (Inr table, t)"
proof -
  let ?F = "\<lambda>f. if f = ''/h/etc/fdb/spaces'' then Some ''.* a Default'' else None"
  let ?t = "sample_tables\<lparr>tb_spaces := [(''/h'', [])]\<rparr>"
  have roots: "readRoots sample_root_env ref_ext ?F
      (re_resource sample_root_env ''fdbRootsFile;$FDB_ROOTS_FILE'' (po_join sample_paths ''/h'' ''etc/fdb/roots'')) = Inr []"
    by (simp add: readRoots_def sample_root_env_def sample_paths_def)
  have toks: "config_tokens ref_ext 1024 ''.* a Default'' = [[''.*'', ''a'', ''Default'']]"
    by (simp add: config_tokens_def getlines_def)
  have first: "parseFileSpacesFile sample_root_env ref_ext sample_paths ?F ''/h'' sample_tables =
      (Inl (UserError ''No roots found for filespace''), ?t)"
    unfolding parseFileSpacesFile_def roots
    by (simp add: sample_tables_def sample_root_env_def sample_paths_def toks fileSpaceRoots_def)
  from bad_spaces_reported_once [OF first roots] first show ?thesis by blast
qed

end
