(* ===== verification/FDB_Config.thy ===== *)
theory FDB_Config
  imports FDB_External
begin

text \<open>
  The configuration (\<open>src/fdb5/config/Config.cc\<close>): a tree of eckit with the path of the schema and the user's
  configuration beside it; where it comes from, how paths in it are expanded, the configurations of its parts.
\<close>

section \<open>What is taken from the library\<close>

text \<open>
  \<open>eckit::LocalConfiguration\<close>, a tree of settings: \<open>has\<close>, \<open>getString\<close> and \<open>getBool\<close> (nothing when the name is
  absent), \<open>getSubConfigurations(name)\<close> and \<open>getSubConfigurations()\<close>, \<open>set\<close>, the empty one, its text.
\<close>

record 'c config_ops =
  co_has :: "'c \<Rightarrow> string \<Rightarrow> bool"
  co_string :: "'c \<Rightarrow> string \<Rightarrow> string option"
  co_bool :: "'c \<Rightarrow> string \<Rightarrow> bool option"
  co_subs :: "'c \<Rightarrow> string \<Rightarrow> 'c list"
  co_children :: "'c \<Rightarrow> 'c list"
  co_set :: "string \<Rightarrow> string \<Rightarrow> 'c \<Rightarrow> 'c"
  co_empty :: 'c
  co_text :: "'c \<Rightarrow> string"

text \<open>
  The surroundings: \<open>getenv("FDB5_CONFIG")\<close>, \<open>YAMLConfiguration\<close> of a text and of a file, the resources
  \<open>fdb5ConfigFile\<close> and \<open>fdbSchemaFile\<close>, whether a path exists, \<open>displayName\<close> and \<open>name\<close> of the program,
  \<open>PathName(s)\<close> with its own expansion of the tilde, \<open>operator/\<close> and \<open>::tolower\<close>.
\<close>

record 'c config_env =
  ce_ops :: "'c config_ops"
  ce_environment :: "string option"
  ce_yamlText :: "string \<Rightarrow> 'c res"
  ce_yamlFile :: "string \<Rightarrow> 'c res"
  ce_configFile :: string
  ce_schemaFile :: string
  ce_exists :: "string \<Rightarrow> bool"
  ce_displayName :: string
  ce_name :: string
  ce_path :: "string \<Rightarrow> string"
  ce_join :: "string \<Rightarrow> string \<Rightarrow> string"
  ce_lower :: "char \<Rightarrow> char"

section \<open>Configurations\<close>

record 'c config =
  cg_local :: 'c
  cg_user :: 'c
  cg_schemaPath :: string

abbreviation cg_has :: "'c config_env \<Rightarrow> 'c config \<Rightarrow> string \<Rightarrow> bool" where
  "cg_has E c name \<equiv> co_has (ce_ops E) (cg_local c) name"

abbreviation cg_string :: "'c config_env \<Rightarrow> 'c config \<Rightarrow> string \<Rightarrow> string \<Rightarrow> string" where
  "cg_string E c name dflt \<equiv> (case co_string (ce_ops E) (cg_local c) name of None \<Rightarrow> dflt | Some s \<Rightarrow> s)"

abbreviation cg_bool :: "'c config_env \<Rightarrow> 'c config \<Rightarrow> string \<Rightarrow> bool \<Rightarrow> bool" where
  "cg_bool E c name dflt \<equiv> (case co_bool (ce_ops E) (cg_local c) name of None \<Rightarrow> dflt | Some b \<Rightarrow> b)"

text \<open>A path that begins with \<open>~name\<close> goes under the setting \<open>name_home\<close>, when there is one.\<close>

definition home_setting :: "(char \<Rightarrow> char) \<Rightarrow> string \<Rightarrow> (string \<times> string) option" where
  "home_setting lower path =
     (case path of
        tilde # c # rest \<Rightarrow>
          if tilde = CHR ''~'' \<and> c \<noteq> CHR ''/''
          then Some (map lower (takeWhile (\<lambda>x. x \<noteq> CHR ''/'') (c # rest) @ ''_home''), dropWhile (\<lambda>x. x \<noteq> CHR ''/'') (c # rest))
          else None
      | _ \<Rightarrow> None)"

definition config_expandPath :: "'c config_env \<Rightarrow> 'c \<Rightarrow> string \<Rightarrow> string res" where
  "config_expandPath E c path =
     bindE (assertE (path \<noteq> []) ''path.size() > 0'') (\<lambda>_.
     case home_setting (ce_lower E) path of
       None \<Rightarrow> Inr (ce_path E path)
     | Some (key, rest) \<Rightarrow>
         if co_has (ce_ops E) c key
         then (case co_string (ce_ops E) c key of
                 None \<Rightarrow> Inl (BadParameter key)
               | Some home \<Rightarrow> Inr (ce_path E (home @ rest)))
         else Inr (ce_path E path))"

definition initializeSchemaPath :: "'c config_env \<Rightarrow> 'c \<Rightarrow> string res" where
  "initializeSchemaPath E c =
     (if co_has (ce_ops E) c ''schema''
      then (case co_string (ce_ops E) c ''schema'' of
              None \<Rightarrow> Inl (BadParameter ''schema'')
            | Some s \<Rightarrow> config_expandPath E c s)
      else config_expandPath E c (ce_schemaFile E))"

text \<open>\<open>Config(config, userConfig)\<close>; \<open>Config()\<close> leaves the path of the schema for later.\<close>

definition new_config :: "'c config_env \<Rightarrow> 'c \<Rightarrow> 'c \<Rightarrow> 'c config res" where
  "new_config E c user =
     bindE (initializeSchemaPath E c) (\<lambda>schema. Inr \<lparr>cg_local = c, cg_user = user, cg_schemaPath = schema\<rparr>)"

definition default_config :: "'c config_env \<Rightarrow> 'c config" where
  "default_config E = \<lparr>cg_local = co_empty (ce_ops E), cg_user = co_empty (ce_ops E), cg_schemaPath = []\<rparr>"

definition schemaPath :: "'c config_env \<Rightarrow> 'c config \<Rightarrow> string res" where
  "schemaPath E c = (if cg_schemaPath c = [] then initializeSchemaPath E (cg_local c) else Inr (cg_schemaPath c))"

definition config_make :: "'c config_env \<Rightarrow> string \<Rightarrow> 'c \<Rightarrow> 'c config res" where
  "config_make E path user =
     bindE (ce_yamlFile E path) (\<lambda>c.
     bindE (new_config E c (co_empty (ce_ops E))) (\<lambda>cfg.
       Inr (cfg\<lparr>cg_local := co_set (ce_ops E) ''configSource'' path (cg_local cfg), cg_user := user\<rparr>)))"

text \<open>The files that are looked for, in order.\<close>

definition config_candidates :: "'c config_env \<Rightarrow> string \<Rightarrow> string list" where
  "config_candidates E dir =
     concat (map (\<lambda>stem. map (\<lambda>tail. ce_join E dir (stem @ tail)) [''.yaml'', ''.json''])
       [ce_displayName E, ce_name E, ''config''])"

text \<open>
  \<open>expandConfig\<close>. From the environment variable the constructor has already given the configuration an empty
  user configuration, so that the one of \<open>this\<close> is never taken over there.
\<close>

definition expandConfig :: "'c config_env \<Rightarrow> 'c config \<Rightarrow> 'c config res" where
  "expandConfig E c =
     (if cg_has E c ''type'' then Inr c
      else case ce_environment E of
        Some s \<Rightarrow>
          bindE (ce_yamlText E s) (\<lambda>y.
          bindE (new_config E y (co_empty (ce_ops E))) (\<lambda>cfg.
            Inr (cfg\<lparr>cg_local := co_set (ce_ops E) ''configSource'' ''environment'' (cg_local cfg)\<rparr>)))
      | None \<Rightarrow>
          if ce_configFile E \<noteq> [] \<and> \<not> cg_has E c ''fdb_home''
          then (if ce_exists E (ce_path E (ce_configFile E)) then config_make E (ce_path E (ce_configFile E)) (cg_user c) else Inr c)
          else bindE (config_expandPath E (cg_local c) ''~fdb/etc/fdb'') (\<lambda>dir.
                 case find (ce_exists E) (config_candidates E dir) of
                   Some path \<Rightarrow> config_make E path (cg_user c)
                 | None \<Rightarrow> Inr c))"

definition configPath :: "'c config_env \<Rightarrow> 'c config \<Rightarrow> string" where
  "configPath E c = cg_string E c ''configSource'' ''unknown''"

text \<open>The configurations of the parts share the user configuration.\<close>

definition getSubConfigs :: "'c config_env \<Rightarrow> 'c config \<Rightarrow> string \<Rightarrow> 'c config list res" where
  "getSubConfigs E c name =
     mapE (\<lambda>sub. bindE (new_config E sub (co_empty (ce_ops E))) (\<lambda>cfg. Inr (cfg\<lparr>cg_user := cg_user c\<rparr>)))
       (co_subs (ce_ops E) (cg_local c) name)"

definition getChildConfigs :: "'c config_env \<Rightarrow> 'c config \<Rightarrow> 'c config list res" where
  "getChildConfigs E c =
     mapE (\<lambda>sub. bindE (new_config E sub (co_empty (ce_ops E))) (\<lambda>cfg. Inr (cfg\<lparr>cg_user := cg_user c\<rparr>)))
       (co_children (ce_ops E) (cg_local c))"

section \<open>Lemmas\<close>

lemma home_setting_parts:
  "home_setting lower path = Some (key, rest) \<Longrightarrow>
   \<exists>name. name \<noteq> [] \<and> CHR ''/'' \<notin> set name \<and> path = CHR ''~'' # name @ rest \<and> key = map lower (name @ ''_home'') \<and>
     (rest = [] \<or> hd rest = CHR ''/'')"
proof (cases "\<exists>c r. path = CHR ''~'' # c # r \<and> c \<noteq> CHR ''/''")
  case True
  then obtain c r where path: "path = CHR ''~'' # c # r" "c \<noteq> CHR ''/''" by blast
  assume "home_setting lower path = Some (key, rest)"
  then have kr: "key = map lower (takeWhile (\<lambda>x. x \<noteq> CHR ''/'') (c # r) @ ''_home'')" "rest = dropWhile (\<lambda>x. x \<noteq> CHR ''/'') (c # r)"
    using path by (simp_all add: home_setting_def)
  have "path = CHR ''~'' # takeWhile (\<lambda>x. x \<noteq> CHR ''/'') (c # r) @ rest" unfolding kr(2) path(1) by (simp only: takeWhile_dropWhile_id)
  moreover have "CHR ''/'' \<notin> set (takeWhile (\<lambda>x. x \<noteq> CHR ''/'') (c # r))" using set_takeWhileD by fastforce
  moreover have "rest = [] \<or> hd rest = CHR ''/''" unfolding kr(2) by (meson hd_dropWhile)
  ultimately show ?thesis using kr(1) path(2) by (intro exI [of _ "takeWhile (\<lambda>x. x \<noteq> CHR ''/'') (c # r)"]) auto
next
  case False
  assume "home_setting lower path = Some (key, rest)"
  with False show ?thesis by (auto simp: home_setting_def split: list.splits if_splits)
qed

lemma expandConfig_typed: "cg_has E c ''type'' \<Longrightarrow> expandConfig E c = Inr c"
  by (simp add: expandConfig_def)

text \<open>The user configuration is lost on the way through the environment variable, and only there.\<close>

lemma expandConfig_user:
  assumes "expandConfig E c = Inr c'"
  shows "cg_user c' = (if cg_has E c ''type'' \<or> ce_environment E = None then cg_user c else co_empty (ce_ops E))"
  using assms
  by (auto simp: expandConfig_def new_config_def config_make_def bindE_eq_Inr split: option.splits if_splits)

lemma getSubConfigs_parts:
  assumes "getSubConfigs E c name = Inr cs"
  shows "map cg_local cs = co_subs (ce_ops E) (cg_local c) name \<and> (\<forall>c' \<in> set cs. cg_user c' = cg_user c)"
proof -
  let ?f = "\<lambda>sub. bindE (new_config E sub (co_empty (ce_ops E))) (\<lambda>cfg. Inr (cfg\<lparr>cg_user := cg_user c\<rparr>))"
  have one: "cg_local x = sub \<and> cg_user x = cg_user c" if "?f sub = Inr x" for sub x
    using that by (auto simp: bindE_eq_Inr new_config_def)
  have "list_all2 (\<lambda>sub x. ?f sub = Inr x) (co_subs (ce_ops E) (cg_local c) name) cs"
    using assms unfolding getSubConfigs_def mapE_eq_Inr .
  then show ?thesis by (induction rule: list_all2_induct) (auto dest!: one)
qed

end
