(* ===== verification/FDB_Iterator.thy ===== *)
theory FDB_Iterator
  imports FDB_Field "HOL-Library.Sublist"
begin

text \<open>
  The iterators that the client interface returns (\<open>src/fdb5/api/helpers/APIIterator.h\<close>), and the elements
  of a listing with the iterator that drops repeated keys (\<open>ListIterator.h\<close>, \<open>ListIterator.cc\<close>).
\<close>

section \<open>Iterators\<close>

text \<open>
  An iterator without an implementation; an asynchronous one, given by what its queue hands out: the elements
  and then either the end or the exception that the worker left; the aggregate of a queue of iterators.
\<close>

datatype 'a iter =
    NoImpl
  | Async "'a list" "error option"
  | Aggregate "'a iter list"

text \<open>\<open>APIIterator::next\<close>: the outcome \<open>None\<close> is the answer \<open>false\<close>.\<close>

fun next_elem :: "'a iter \<Rightarrow> 'a option res \<times> 'a iter"
and next_aggregate :: "'a iter list \<Rightarrow> 'a option res \<times> 'a iter list" where
  "next_elem NoImpl = (Inr None, NoImpl)"
| "next_elem (Async (x # xs) e) = (Inr (Some x), Async xs e)"
| "next_elem (Async [] None) = (Inr None, Async [] None)"
| "next_elem (Async [] (Some e)) = (Inl e, Async [] (Some e))"
| "next_elem (Aggregate its) = (case next_aggregate its of (r, its') \<Rightarrow> (r, Aggregate its'))"
| "next_aggregate [] = (Inr None, [])"
| "next_aggregate (it # its) =
     (case next_elem it of
        (Inl e, it') \<Rightarrow> (Inl e, it' # its)
      | (Inr (Some x), it') \<Rightarrow> (Inr (Some x), it' # its)
      | (Inr None, it') \<Rightarrow> next_aggregate its)"

text \<open>
  The loop of every client, \<open>while (it.next(el))\<close>: it collects the elements. The fuel bounds the number of calls.
\<close>

fun take_all :: "nat \<Rightarrow> ('s \<Rightarrow> 'a option res \<times> 's) \<Rightarrow> 's \<Rightarrow> ('a list res \<times> 's) option" where
  "take_all 0 f s = None"
| "take_all (Suc n) f s =
     (case f s of
        (Inl e, s) \<Rightarrow> Some (Inl e, s)
      | (Inr None, s) \<Rightarrow> Some (Inr [], s)
      | (Inr (Some x), s) \<Rightarrow>
          map_option (\<lambda>(r, s). (bindE r (\<lambda>xs. Inr (x # xs)), s)) (take_all n f s))"

text \<open>What is still to come from an iterator: the elements, and the exception behind them if there is one.\<close>

fun then_items :: "'a list \<times> error option \<Rightarrow> 'a list \<times> error option \<Rightarrow> 'a list \<times> error option" where
  "then_items (xs, Some e) rest = (xs, Some e)"
| "then_items (xs, None) rest = (xs @ fst rest, snd rest)"

fun iter_items :: "'a iter \<Rightarrow> 'a list \<times> error option" where
  "iter_items NoImpl = ([], None)"
| "iter_items (Async xs e) = (xs, e)"
| "iter_items (Aggregate its) = foldr (\<lambda>it. then_items (iter_items it)) its ([], None)"

definition all_items :: "'a iter list \<Rightarrow> 'a list \<times> error option" where
  "all_items its = foldr (\<lambda>it. then_items (iter_items it)) its ([], None)"

lemma all_items_simps [simp]:
  "all_items [] = ([], None)"
  "all_items (it # its) = then_items (iter_items it) (all_items its)"
  by (simp_all add: all_items_def)

lemma aggregate_items [simp]: "iter_items (Aggregate its) = all_items its"
  by (simp add: all_items_def)

declare iter_items.simps(3) [simp del]

text \<open>
  The contract of an iterator: a call takes the first element of what is to come; at the end it answers so,
  as often as it is asked; an exception comes out where it stands.
\<close>

locale iterator =
  fixes next_of :: "'s \<Rightarrow> 'a option res \<times> 's"
    and items_of :: "'s \<Rightarrow> 'a list \<times> error option"
  assumes next_some: "items_of s = (x # xs, e) \<Longrightarrow> \<exists>s'. next_of s = (Inr (Some x), s') \<and> items_of s' = (xs, e)"
    and next_end: "items_of s = ([], None) \<Longrightarrow> \<exists>s'. next_of s = (Inr None, s') \<and> items_of s' = ([], None)"
    and next_fail: "items_of s = ([], Some err) \<Longrightarrow> \<exists>s'. next_of s = (Inl err, s')"
begin

lemma take_all_items:
  assumes "items_of s = (xs, e)" and "length xs < n"
  shows "\<exists>s'. take_all n next_of s = Some (case e of None \<Rightarrow> Inr xs | Some e \<Rightarrow> Inl e, s') \<and>
    (e = None \<longrightarrow> items_of s' = ([], None))"
  using assms
proof (induction n arbitrary: s xs)
  case (Suc n)
  show ?case
  proof (cases xs)
    case Nil
    show ?thesis
    proof (cases e)
      case None
      with Suc.prems(1) Nil next_end [of s] show ?thesis by auto
    next
      case (Some err)
      with Suc.prems(1) Nil next_fail [of s err] show ?thesis by auto
    qed
  next
    case (Cons x ys)
    from next_some [of s x ys e] Suc.prems(1) Cons obtain s1 where
      1: "next_of s = (Inr (Some x), s1)" "items_of s1 = (ys, e)" by auto
    from Suc.IH [OF 1(2)] Suc.prems(2) Cons obtain s' where
      "take_all n next_of s1 = Some (case e of None \<Rightarrow> Inr ys | Some e \<Rightarrow> Inl e, s')"
      "e = None \<longrightarrow> items_of s' = ([], None)" by auto
    with 1(1) Cons show ?thesis by (auto split: option.splits)
  qed
qed simp

end

lemma next_elem_items:
  fixes it :: "'a iter" and its :: "'a iter list"
  shows "(case iter_items it of
      (x # xs, e) \<Rightarrow> \<exists>it'. next_elem it = (Inr (Some x), it') \<and> iter_items it' = (xs, e)
    | ([], None) \<Rightarrow> \<exists>it'. next_elem it = (Inr None, it') \<and> iter_items it' = ([], None)
    | ([], Some e) \<Rightarrow> \<exists>it'. next_elem it = (Inl e, it'))"
  and "(case all_items its of
      (x # xs, e) \<Rightarrow> \<exists>its'. next_aggregate its = (Inr (Some x), its') \<and> all_items its' = (xs, e)
    | ([], None) \<Rightarrow> \<exists>its'. next_aggregate its = (Inr None, its') \<and> all_items its' = ([], None)
    | ([], Some e) \<Rightarrow> \<exists>its'. next_aggregate its = (Inl e, its'))"
proof (induction it and its rule: next_elem_next_aggregate.induct)
  case (5 its)
  then show ?case by (auto split: list.splits option.splits prod.splits)
next
  case (7 it its)
  obtain xs e where it: "iter_items it = (xs, e)" by (cases "iter_items it")
  show ?case
  proof (cases xs)
    case (Cons x ys)
    with 7(1) it show ?thesis by (cases e) auto
  next
    case Nil
    show ?thesis
    proof (cases e)
      case (Some err)
      with 7(1) it Nil show ?thesis by auto
    next
      case None
      with 7(1) it Nil obtain it' where it': "next_elem it = (Inr None, it')" by auto
      then have "next_aggregate (it # its) = next_aggregate its" and "all_items (it # its) = all_items its"
        using it Nil None by simp_all
      then show ?thesis using 7(2) [OF it'[symmetric]] by (simp only: refl simp_thms)
    qed
  qed
qed simp_all

interpretation api_iterator: iterator next_elem iter_items
proof
  fix s :: "'a iter" and x xs e
  note step = next_elem_items(1) [of s]
  show "iter_items s = (x # xs, e) \<Longrightarrow> \<exists>s'. next_elem s = (Inr (Some x), s') \<and> iter_items s' = (xs, e)"
    using step by simp
  show "iter_items s = ([], None) \<Longrightarrow> \<exists>s'. next_elem s = (Inr None, s') \<and> iter_items s' = ([], None)"
    using step by simp
  show "iter_items s = ([], Some err) \<Longrightarrow> \<exists>s'. next_elem s = (Inl err, s')" for err
    using step by simp
qed

section \<open>The elements of a listing\<close>

record 'u list_element =
  le_keyParts :: "key list"
  le_location :: "'u location option"
  le_timestamp :: nat

text \<open>\<open>combinedKey\<close>: the third part, with the values of every part. There is no check that there are three parts.\<close>

definition set_all :: "key \<Rightarrow> key \<Rightarrow> key" where
  "set_all part combined = fold (\<lambda>(k, v). set_key k v) (key_dict part) combined"

definition combinedKey :: "'u list_element \<Rightarrow> key res" where
  "combinedKey el =
     (case drop 2 (le_keyParts el) of
        [] \<Rightarrow> Inl (UndefinedBehaviour ''keyParts_[2]'')
      | third # _ \<Rightarrow> Inr (fold set_all (le_keyParts el) third))"

text \<open>An element on a stream: a null location is dereferenced; the location is written under the name of its class.\<close>

fun location_class_name :: "location_class \<Rightarrow> string" where
  "location_class_name TocLocation = ''TocFieldLocation''"
| "location_class_name (OtherLocation name) = name"

definition class_of_name :: "string \<Rightarrow> location_class" where
  "class_of_name name = (if name = location_class_name TocLocation then TocLocation else OtherLocation name)"

definition encode_list_element :: "ext \<Rightarrow> 'u uri_parts \<Rightarrow> 'u list_element \<Rightarrow> item list res" where
  "encode_list_element e Q el =
     bindE (mapE (encode_key e) (le_keyParts el)) (\<lambda>ks.
     case le_location el of
       None \<Rightarrow> Inl (UndefinedBehaviour ''location_'')
     | Some loc \<Rightarrow>
         bindE (encode_location e Q loc) (\<lambda>ls.
           Inr (INum (length ks) # concat ks @ IStr (location_class_name (lo_class loc)) # ls @ [INum (le_timestamp el)])))"

definition decode_list_element :: "'u uri_parts \<Rightarrow> 'u list_element reader" where
  "decode_list_element Q is =
     bindE (read_num is) (\<lambda>(n, is).
     bindE (read_many decode_key n is) (\<lambda>(ks, is).
     bindE (read_str is) (\<lambda>(name, is).
     bindE (decode_location Q (class_of_name name) is) (\<lambda>(loc, is).
     bindE (read_num is) (\<lambda>(ts, is).
       Inr (\<lparr>le_keyParts = ks, le_location = Some loc, le_timestamp = ts\<rparr>, is))))))"

section \<open>Dropping repeated keys\<close>

text \<open>
  \<open>std::unordered_set<Key>::find\<close>: a key is found when the hash of one in the set is that of the key and the
  two are equal. \<open>std::hash<Key>\<close> is \<open>hash\<close> of the text of the canonical values in the order of the names.
\<close>

definition key_hash :: "ext \<Rightarrow> (string \<Rightarrow> nat) \<Rightarrow> key \<Rightarrow> nat res" where
  "key_hash e hash k = bindE (valuesToString e k) (\<lambda>s. Inr (hash s))"

definition seen_key :: "nat \<Rightarrow> key \<Rightarrow> (nat \<times> key) list \<Rightarrow> bool" where
  "seen_key h k seen \<longleftrightarrow> (\<exists>(h', k') \<in> set seen. h' = h \<and> key_eq k' k)"

record 'u list_iterator =
  li_impl :: "'u list_element iter"
  li_seen :: "(nat \<times> key) list"
  li_dedup :: bool

text \<open>
  The constructors: around what another component gives back, whatever it is. \<open>APIIterator::next\<close> is not virtual, so that
  an iterator of listings that is kept as an \<open>APIIterator\<close> has lost its filter.
\<close>

definition new_list_iterator :: "'u list_element iter \<Rightarrow> bool \<Rightarrow> 'u list_iterator" where
  "new_list_iterator it deduplicate = \<lparr>li_impl = it, li_seen = [], li_dedup = deduplicate\<rparr>"

text \<open>The decision on one element: \<open>None\<close> is to go on, otherwise the set of keys with the new one.\<close>

definition list_admit :: "ext \<Rightarrow> (string \<Rightarrow> nat) \<Rightarrow> 'u list_element \<Rightarrow> (nat \<times> key) list \<Rightarrow> (nat \<times> key) list option res" where
  "list_admit e hash el seen =
     bindE (combinedKey el) (\<lambda>k.
     bindE (key_hash e hash k) (\<lambda>h.
       Inr (if seen_key h k seen then None else Some ((h, k) # seen))))"

lemma next_elem_smaller:
  "next_elem it = (Inr (Some x), it') \<Longrightarrow> length (fst (iter_items it')) < length (fst (iter_items it))"
proof -
  assume "next_elem it = (Inr (Some x), it')"
  moreover obtain xs e where "iter_items it = (xs, e)" by (cases "iter_items it")
  ultimately show ?thesis using next_elem_items(1) [of it] by (cases xs; cases e) auto
qed

function list_next ::
    "ext \<Rightarrow> (string \<Rightarrow> nat) \<Rightarrow> 'u list_iterator \<Rightarrow> 'u list_element option res \<times> 'u list_iterator" where
  "list_next e hash l =
     (case next_elem (li_impl l) of
        (Inl err, it) \<Rightarrow> (Inl err, l\<lparr>li_impl := it\<rparr>)
      | (Inr None, it) \<Rightarrow> (Inr None, l\<lparr>li_impl := it\<rparr>)
      | (Inr (Some el), it) \<Rightarrow>
          if \<not> li_dedup l then (Inr (Some el), l\<lparr>li_impl := it\<rparr>)
          else (case list_admit e hash el (li_seen l) of
                  Inl err \<Rightarrow> (Inl err, l\<lparr>li_impl := it\<rparr>)
                | Inr None \<Rightarrow> list_next e hash (l\<lparr>li_impl := it\<rparr>)
                | Inr (Some seen) \<Rightarrow> (Inr (Some el), l\<lparr>li_impl := it, li_seen := seen\<rparr>)))"
  by auto
termination
  by (relation "measure (\<lambda>(e, hash, l). length (fst (iter_items (li_impl l))))")
    (auto dest!: next_elem_smaller [OF sym])

declare list_next.simps [simp del]

text \<open>What such an iterator still yields.\<close>

fun admitted :: "ext \<Rightarrow> (string \<Rightarrow> nat) \<Rightarrow> (nat \<times> key) list \<Rightarrow> 'u list_element list \<Rightarrow> error option \<Rightarrow>
    'u list_element list \<times> error option" where
  "admitted e hash seen [] err = ([], err)"
| "admitted e hash seen (el # els) err =
     (case list_admit e hash el seen of
        Inl err' \<Rightarrow> ([], Some err')
      | Inr None \<Rightarrow> admitted e hash seen els err
      | Inr (Some seen') \<Rightarrow> (case admitted e hash seen' els err of (xs, err) \<Rightarrow> (el # xs, err)))"

definition list_items :: "ext \<Rightarrow> (string \<Rightarrow> nat) \<Rightarrow> 'u list_iterator \<Rightarrow> 'u list_element list \<times> error option" where
  "list_items e hash l =
     (let (xs, err) = iter_items (li_impl l)
      in if li_dedup l then admitted e hash (li_seen l) xs err else (xs, err))"

lemma list_items_eq:
  "iter_items (li_impl l) = (xs, err) \<Longrightarrow>
   list_items e hash l = (if li_dedup l then admitted e hash (li_seen l) xs err else (xs, err))"
  by (simp add: list_items_def)

lemma list_next_items:
  "(case list_items e hash l of
      (x # xs, err) \<Rightarrow> \<exists>l'. list_next e hash l = (Inr (Some x), l') \<and> list_items e hash l' = (xs, err)
    | ([], None) \<Rightarrow> \<exists>l'. list_next e hash l = (Inr None, l') \<and> list_items e hash l' = ([], None)
    | ([], Some err) \<Rightarrow> \<exists>l'. list_next e hash l = (Inl err, l'))"
proof (induction e hash l rule: list_next.induct)
  case (1 e hash l)
  obtain xs err where items: "iter_items (li_impl l) = (xs, err)" by (cases "iter_items (li_impl l)")
  note next_step = list_next.simps [of e hash l] and here = list_items_eq [OF items]
  show ?case
  proof (cases xs)
    case Nil
    show ?thesis
    proof (cases err)
      case None
      from next_elem_items(1) [of "li_impl l"] items Nil None obtain it where
        "next_elem (li_impl l) = (Inr None, it)" "iter_items it = ([], None)" by auto
      then show ?thesis by (simp add: next_step here Nil None list_items_eq items)
    next
      case (Some x)
      from next_elem_items(1) [of "li_impl l"] items Nil Some obtain it where
        "next_elem (li_impl l) = (Inl x, it)" by auto
      then show ?thesis by (simp add: next_step here Nil Some)
    qed
  next
    case (Cons el els)
    from next_elem_items(1) [of "li_impl l"] items Cons obtain it where
      it: "next_elem (li_impl l) = (Inr (Some el), it)" "iter_items it = (els, err)" by auto
    show ?thesis
    proof (cases "li_dedup l")
      case False
      then show ?thesis by (simp add: next_step here Cons it list_items_eq items)
    next
      case dedup: True
      show ?thesis
      proof (cases "list_admit e hash el (li_seen l)")
        case (Inl x)
        then show ?thesis by (simp add: next_step here Cons it dedup)
      next
        case (Inr r)
        show ?thesis
        proof (cases r)
          case None
          have "list_items e hash (l\<lparr>li_impl := it\<rparr>) = list_items e hash l"
            using dedup it Inr None by (simp add: here Cons list_items_eq)
          moreover have "list_next e hash l = list_next e hash (l\<lparr>li_impl := it\<rparr>)"
            using dedup it Inr None by (simp add: next_step)
          ultimately have same: "list_items e hash (l\<lparr>li_impl := it\<rparr>) = list_items e hash l"
            "list_next e hash l = list_next e hash (l\<lparr>li_impl := it\<rparr>)" by simp_all
          have "\<not> \<not> li_dedup l" using dedup by simp
          from "1.IH" [OF it(1) [symmetric] refl refl this Inr None] show ?thesis unfolding same .
        next
          case (Some seen)
          then show ?thesis
            by (cases "admitted e hash seen els err")
              (simp add: next_step here Cons it dedup Inr list_items_eq items)
        qed
      qed
    qed
  qed
qed

interpretation listing: iterator "list_next e hash" "list_items e hash" for e hash
proof
  fix l :: "'a list_iterator" and x xs er
  note step = list_next_items [of e hash l]
  show "list_items e hash l = (x # xs, er) \<Longrightarrow>
      \<exists>l'. list_next e hash l = (Inr (Some x), l') \<and> list_items e hash l' = (xs, er)"
    using step by simp
  show "list_items e hash l = ([], None) \<Longrightarrow> \<exists>l'. list_next e hash l = (Inr None, l') \<and> list_items e hash l' = ([], None)"
    using step by simp
  show "list_items e hash l = ([], Some err) \<Longrightarrow> \<exists>l'. list_next e hash l = (Inl err, l')" for err
    using step by simp
qed

section \<open>What a listing without repetitions contains\<close>

text \<open>The reference: of the elements with the same key the first one.\<close>

fun first_of_each :: "('a \<Rightarrow> 'k) \<Rightarrow> 'k set \<Rightarrow> 'a list \<Rightarrow> 'a list" where
  "first_of_each f K [] = []"
| "first_of_each f K (x # xs) =
     (if f x \<in> K then first_of_each f K xs else x # first_of_each f (insert (f x) K) xs)"

lemma first_of_each_keys:
  "f ` set (first_of_each f K xs) = f ` set xs - K \<and> distinct (map f (first_of_each f K xs))"
  by (induction f K xs rule: first_of_each.induct) auto

lemma first_of_each_subseq: "subseq (first_of_each f K xs) xs"
  by (induction f K xs rule: first_of_each.induct) auto

text \<open>The keys of a listing are read without an error, and equal keys give their values in the same order.\<close>

definition readable :: "ext \<Rightarrow> ('u list_element \<Rightarrow> key) \<Rightarrow> ('u list_element \<Rightarrow> string) \<Rightarrow> 'u list_element list \<Rightarrow> bool" where
  "readable e ck vs xs \<longleftrightarrow>
     (\<forall>x \<in> set xs. combinedKey x = Inr (ck x) \<and> valuesToString e (ck x) = Inr (vs x)) \<and>
     (\<forall>x \<in> set xs. \<forall>y \<in> set xs. key_dict (ck x) = key_dict (ck y) \<longrightarrow> vs x = vs y)"

lemma readable_subset: "readable e ck vs ys \<Longrightarrow> set zs \<subseteq> set ys \<Longrightarrow> readable e ck vs zs"
  unfolding readable_def by (meson subsetD)

lemma admitted_first:
  assumes "readable e ck vs (done @ xs)" and "seen = map (\<lambda>x. (hash (vs x), ck x)) done"
  shows "admitted e hash seen xs err = (first_of_each (key_dict \<circ> ck) ((key_dict \<circ> ck) ` set done) xs, err)"
  using assms
proof (induction xs arbitrary: "done" seen)
  case (Cons x xs)
  have x: "combinedKey x = Inr (ck x)" "valuesToString e (ck x) = Inr (vs x)"
    using Cons.prems(1) by (simp_all add: readable_def)
  have same: "vs y = vs x" if "y \<in> set done" "key_dict (ck y) = key_dict (ck x)" for y
    using Cons.prems(1) that unfolding readable_def by auto
  have seen: "seen_key (hash (vs x)) (ck x) seen \<longleftrightarrow> (key_dict \<circ> ck) x \<in> (key_dict \<circ> ck) ` set done"
  proof -
    have "seen_key (hash (vs x)) (ck x) seen \<longleftrightarrow> (\<exists>y \<in> set done. hash (vs y) = hash (vs x) \<and> key_dict (ck y) = key_dict (ck x))"
      by (simp add: seen_key_def key_eq_def Cons.prems(2))
    also have "\<dots> \<longleftrightarrow> (\<exists>y \<in> set done. key_dict (ck y) = key_dict (ck x))"
      using same by (intro bex_cong refl) auto
    finally show ?thesis by (simp add: image_iff eq_commute [of "key_dict (ck x)"])
  qed
  have admit: "list_admit e hash x seen =
      Inr (if (key_dict \<circ> ck) x \<in> (key_dict \<circ> ck) ` set done then None else Some ((hash (vs x), ck x) # seen))"
    using seen by (simp add: list_admit_def key_hash_def x)
  have here: "readable e ck vs (done @ xs)" and there: "readable e ck vs ((x # done) @ xs)"
    by (rule readable_subset [OF Cons.prems(1)], auto)+
  show ?case
  proof (cases "(key_dict \<circ> ck) x \<in> (key_dict \<circ> ck) ` set done")
    case True
    then show ?thesis using Cons.IH [OF here Cons.prems(2)] admit by simp
  next
    case False
    then show ?thesis using Cons.IH [OF there, of "(hash (vs x), ck x) # seen"] Cons.prems(2) admit by simp
  qed
qed simp

text \<open>
  C15: a listing that asks for no duplicates yields of every group of elements with the same combined key exactly the
  first one, in the order of the listing: no key twice, every key of the listing once. The elements have three key
  parts, and the values of equal keys come in the same order, which is the order that the hash of a key takes them in.
\<close>
theorem listing_without_repeats:
  assumes "iter_items it = (xs, None)" and "readable e ck vs xs" and "length xs < n"
  shows "\<exists>ys l. take_all n (list_next e hash) (new_list_iterator it True) = Some (Inr ys, l) \<and>
    ys = first_of_each (key_dict \<circ> ck) {} xs \<and> subseq ys xs \<and>
    distinct (map (\<lambda>x. key_dict (ck x)) ys) \<and> (\<lambda>x. key_dict (ck x)) ` set ys = (\<lambda>x. key_dict (ck x)) ` set xs"
proof -
  let ?ys = "first_of_each (key_dict \<circ> ck) {} xs"
  have items: "list_items e hash (new_list_iterator it True) = (?ys, None)"
    using admitted_first [of e ck vs "[]" xs "[]" hash None] assms(1,2)
    by (simp add: list_items_def new_list_iterator_def)
  have sub: "subseq ?ys xs" by (rule first_of_each_subseq)
  then have "length ?ys < n" using assms(3) list_emb_length [of "(=)" ?ys xs] by simp
  from listing.take_all_items [OF items this] first_of_each_keys [of "key_dict \<circ> ck" "{}" xs] sub
  show ?thesis by (auto simp: comp_def)
qed

text \<open>
  The hash of a key takes the values in the order of the names, which equality ignores: of two elements whose keys
  are equal and list their names in another order both come out, unless the two texts happen to have the same hash.
\<close>

lemma reordered_keys_both_listed:
  assumes "iter_items it = ([x, y], None)" and "combinedKey x = Inr k" and "combinedKey y = Inr k'"
    and "key_eq k k'" and "valuesToString e k = Inr a" and "valuesToString e k' = Inr b" and "hash a \<noteq> hash b"
  shows "list_items e hash (new_list_iterator it True) = ([x, y], None)"
  using assms
  by (auto simp: list_items_def new_list_iterator_def list_admit_def key_hash_def seen_key_def)

definition listed :: "string \<Rightarrow> nat \<Rightarrow> nat list_element" where
  "listed step t =
     \<lparr>le_keyParts = map (\<lambda>(k, v). (push_key k v (new_key None))\<lparr>key_canonical := True\<rparr>)
         [(''class'', ''od''), (''type'', ''an''), (''step'', step)],
      le_location = None, le_timestamp = t\<rparr>"

lemma listed_key:
  "combinedKey (listed step t) =
     Inr \<lparr>key_dict = [(''class'', ''od''), (''step'', step), (''type'', ''an'')], key_names = [''step'', ''class'', ''type''],
          key_registry = None, key_canonical = True\<rparr>"
  by (simp add: combinedKey_def listed_def set_all_def push_key_def new_key_def set_key_def key_find_def)

lemma listed_values: "valuesToString ref_ext (projr (combinedKey (listed step t))) = Inr (step @ '':od:an'')"
  by (simp add: listed_key valuesToString_def canonicalValue_def canonicalise_def key_value_def key_find_def)

lemma listing_without_repeats_witness:
  "\<exists>l. take_all 4 (list_next ref_ext length)
      (new_list_iterator (Aggregate [Async [listed ''12'' 1] None, NoImpl, Async [listed ''12'' 2, listed ''24'' 3] None]) True) =
    Some (Inr [listed ''12'' 1, listed ''24'' 3], l)"
proof -
  let ?ck = "\<lambda>x. projr (combinedKey x)"
  let ?xs = "[listed ''12'' 1, listed ''12'' 2, listed ''24'' 3]"
  have "readable ref_ext ?ck (\<lambda>x. projr (valuesToString ref_ext (?ck x))) ?xs"
    by (simp add: readable_def listed_values) (simp add: listed_key)
  from listing_without_repeats [OF _ this, of "Aggregate [Async [listed ''12'' 1] None, NoImpl, Async [listed ''12'' 2, listed ''24'' 3] None]" 4 length]
  show ?thesis by (auto simp: listed_key)
qed


section \<open>Elements on a stream\<close>

text \<open>A listing that a server sends consists of elements whose keys are in canonical form.\<close>

definition plain_list_items :: "'u uri_parts \<Rightarrow> 'u list_element \<Rightarrow> item list" where
  "plain_list_items Q el =
     (let loc = the (le_location el)
      in INum (length (le_keyParts el)) # concat (map plain_items (le_keyParts el)) @
         IStr (location_class_name (lo_class loc)) # q_encode Q (lo_uri loc) @ [IInt (lo_offset loc), IInt (lo_length loc)] @
         plain_items (lo_remapKey loc) @ [INum (le_timestamp el)])"

definition stream_element :: "'u list_element \<Rightarrow> bool" where
  "stream_element el \<longleftrightarrow> list_all stream_key (le_keyParts el) \<and>
     (case le_location el of
        None \<Rightarrow> False
      | Some loc \<Rightarrow> stream_key (lo_remapKey loc) \<and> class_of_name (location_class_name (lo_class loc)) = lo_class loc)"

lemma encode_plain_element:
  assumes "stream_element el"
  shows "encode_list_element e Q el = Inr (plain_list_items Q el)"
proof -
  have "mapE (encode_key e) (le_keyParts el) = Inr (map plain_items (le_keyParts el))"
    using assms by (intro mapE_total encode_canonical) (auto simp: stream_element_def stream_key_def list_all_iff)
  then show ?thesis
    using assms
    by (auto simp: encode_list_element_def plain_list_items_def stream_element_def stream_key_def encode_location_def
        encode_canonical Let_def split: option.splits)
qed

lemma decode_plain_element:
  assumes "parts_laws Q" and "stream_element el"
  shows "decode_list_element Q (plain_list_items Q el @ rest) = Inr (el, rest)"
proof -
  obtain loc where loc: "le_location el = Some loc" "stream_key (lo_remapKey loc)"
    "class_of_name (location_class_name (lo_class loc)) = lo_class loc" "list_all stream_key (le_keyParts el)"
    using assms(2) by (auto simp: stream_element_def split: option.splits)
  have uri: "q_decode Q (q_encode Q u @ r) = Inr (u, r)" for u r using assms(1) by (simp add: parts_laws_def)
  show ?thesis
    using loc
    by (cases el)
      (simp add: decode_list_element_def plain_list_items_def key_codec.read_many_enc key_codec.dec_enc decode_location_def uri
        new_location_def)
qed

interpretation element_codec: codec "plain_list_items Q" "decode_list_element Q" "\<lambda>el. parts_laws Q \<and> stream_element el" for Q
  by unfold_locales (simp add: decode_plain_element)

end
