(* ===== verification/FDB_Session.thy ===== *)
theory FDB_Session
  imports FDB_Catalogue
begin

text \<open>
  Components together: what a catalogue writer archives and flushes, a catalogue reader that is opened
  afterwards retrieves. The lemmas carry the state of the writer through the calls, the table of
  contents through the record that is appended, and the registry of axes through the records that the
  reader decodes.
\<close>

section \<open>Decoding keeps the store well formed\<close>

lemma decode_entry_ok:
  assumes "dense_laws D" and "world_ok w" and "decode_entry D (a, w, is) = Inr (a', w', is')"
  shows "world_ok w'"
proof -
  from assms(3) obtain k m vs is1 is2 where
    dec: "(let (p, w) = alloc (ds_sort D (fold (ds_insert D) vs (ds_new D))) w;
               (p, w) = deduplicate D k p w
           in Inr (a\<lparr>ax_axis := dict_put k p (ax_axis a)\<rparr>, w, is2)) = (Inr (a', w', is') :: (axis \<times> 'a world \<times> item list) res)"
    by (auto simp: decode_entry_def bindE_eq_Inr)
  obtain p1 w1 where 1: "alloc (ds_sort D (fold (ds_insert D) vs (ds_new D))) w = (p1, w1)" by fastforce
  obtain p2 w2 where 2: "deduplicate D k p1 w1 = (p2, w2)" by fastforce
  from dec 1 2 have "w' = w2" by simp
  with deduplicate_keeps [OF assms(1) _ _ 2] alloc_keeps [OF assms(2) 1] show ?thesis by blast
qed

lemma decode_entries_ok:
  "dense_laws D \<Longrightarrow> world_ok w \<Longrightarrow> decode_entries D n (a, w, is) = Inr (a', w', is') \<Longrightarrow> world_ok w'"
proof (induction n arbitrary: a w "is")
  case (Suc n)
  then show ?case by (auto simp: bindE_eq_Inr dest: decode_entry_ok)
qed simp

lemma decode_fields_ok:
  "dense_laws D \<Longrightarrow> world_ok w \<Longrightarrow> decode_fields f D n (a, w, is) = Inr (a', w', is') \<Longrightarrow> world_ok w'"
proof (induction f arbitrary: a w "is" n)
  case (Suc f)
  show ?case
  proof (cases "\<exists>rest. is = IEnd # rest")
    case False
    then have eq: "decode_fields (Suc f) D n (a, w, is) =
      bindE (read_str is) (\<lambda>(k, is).
            if k = ''size'' then bindE (read_num is) (\<lambda>(n, is). decode_fields f D n (a, w, is))
            else if k = ''axes'' then
              bindE (assertE (n \<noteq> 0) ''n'') (\<lambda>_.
              bindE (decode_entries D n (a, w, is)) (decode_fields f D n))
            else Inl (SeriousBug ''IndexBase de-serialization error''))"
      by (cases "is"; cases "hd is"; simp)
    from Suc.prems(3) [unfolded eq] consider
        m is1 where "decode_fields f D m (a, w, is1) = Inr (a', w', is')"
      | a1 w1 is1 is2 where "decode_entries D n (a, w, is2) = Inr (a1, w1, is1)" "decode_fields f D n (a1, w1, is1) = Inr (a', w', is')"
      by (auto simp: bindE_eq_Inr simp del: decode_fields.simps split: if_splits)
    then show ?thesis
      by cases (blast intro: Suc.IH [OF Suc.prems(1)] Suc.prems(2) decode_entries_ok [OF Suc.prems(1,2)])+
  qed (use Suc.prems in auto)
qed simp

lemma decode_axis_ok:
  "dense_laws D \<Longrightarrow> world_ok w \<Longrightarrow> decode_axis D version (a, w, is) = Inr (a', w', is') \<Longrightarrow> world_ok w'"
  by (auto simp: decode_axis_def decodeCurrent_def decodeLegacy_def bindE_eq_Inr simp del: decode_fields.simps
      split: if_splits dest: decode_fields_ok decode_entries_ok)

lemma decode_base_ok:
  "dense_laws D \<Longrightarrow> world_ok w \<Longrightarrow> decode_base D garbage version w is = Inr (b, w', is') \<Longrightarrow> world_ok w'"
  by (auto simp: decode_base_def decode_base_current_def decode_base_legacy_def bindE_eq_Inr split: if_splits
      dest: decode_axis_ok)

text \<open>What loading an index leaves of the stores.\<close>

definition stores_kept :: "('d, 's) stores \<Rightarrow> ('d, 's) stores \<Rightarrow> bool" where
  "stores_kept st st' \<longleftrightarrow> (world_ok (sx_world st) \<longrightarrow> world_ok (sx_world st')) \<and> sx_trees st' = sx_trees st \<and> sx_now st' = sx_now st"

lemma loader_keeps:
  "dense_laws (ie_dense E) \<Longrightarrow>
   toc_index_of_stream E preload garbage version directory path offset is st = Inr (i, st') \<Longrightarrow> stores_kept st st'"
  by (auto simp: toc_index_of_stream_def bindE_eq_Inr stores_kept_def dest: decode_base_ok)

lemma load_views_keep:
  assumes D: "dense_laws (ie_dense E)"
  shows "foldE (load_view P (toc_index_of_stream E preload garbage)) vs (is, st) = Inr (is', st') \<Longrightarrow> stores_kept st st'"
proof (induction vs arbitrary: "is" st)
  case (Cons v vs)
  from Cons.prems obtain is1 st1 where
    1: "load_view P (toc_index_of_stream E preload garbage) v (is, st) = Inr (is1, st1)"
    and 2: "foldE (load_view P (toc_index_of_stream E preload garbage)) vs (is1, st1) = Inr (is', st')"
    by (auto simp: bindE_eq_Inr)
  from 1 have "stores_kept st st1"
    by (auto simp: load_view_def bindE_eq_Inr dest: loader_keeps [OF D])
  with Cons.IH [OF 2] show ?case by (auto simp: stores_kept_def)
qed (simp add: stores_kept_def)

section \<open>Appending a record keeps the file readable\<close>

lemma same_but_sub_ok:
  assumes same: "same_but p d d'"
    and IH: "\<And>sdir spath. p \<notin> set (toc_files P d k sdir spath) \<Longrightarrow>
      toc_wf P d' parent k sdir spath = toc_wf P d parent k sdir spath"
    and free: "p \<notin> set (sub_files P d k masked dir r)"
  shows "sub_ok P d' parent k masked dir r = sub_ok P d parent k masked dir r"
proof (cases "tr_tag r = TOC_SUB_TOC")
  case True
  note paths = same_but_sub_path [OF same] same_but_real_path [OF same]
  show ?thesis
  proof (cases "sub_toc_path P d dir r")
    case (Inr q)
    show ?thesis
    proof (cases "(po_base P q, 0) \<in> masked")
      case False
      show ?thesis
      proof (cases "findRealPath P d (po_dir P q)")
        case sdir: (Inr sdir)
        show ?thesis
        proof (cases "findRealPath P d q")
          case spath: (Inr spath)
          have free: "p \<notin> set (toc_files P d k sdir spath)"
            using free True Inr False sdir spath by (simp add: sub_files_def)
          have "k = 0 \<or> spath \<noteq> p" using free by (cases k) (auto simp: toc_files_records)
          then have "k = 0 \<or> sub_remap d' parent spath = sub_remap d parent spath"
            by (auto simp: sub_remap_def same_but_content [OF same])
          then show ?thesis
            using True Inr False sdir spath IH [OF free]
            by (auto simp: sub_ok_def paths split: sum.splits)
        qed (simp add: sub_ok_def paths True Inr sdir)
      qed (simp add: sub_ok_def paths True Inr)
    qed (simp add: sub_ok_def paths True Inr)
  qed (simp add: sub_ok_def paths True)
qed (simp add: sub_ok_def)

lemma same_but_wf:
  assumes same: "same_but p d d'"
  shows "p \<notin> set (toc_files P d k dir tocPath) \<Longrightarrow> toc_wf P d' parent k dir tocPath = toc_wf P d parent k dir tocPath"
proof (induction k arbitrary: dir tocPath)
  case (Suc k)
  have "p \<noteq> tocPath" using Suc.prems by (simp add: toc_files_records)
  then have content: "map_of (dk_tocs d') tocPath = map_of (dk_tocs d) tocPath" using same by (simp add: same_but_def)
  show ?case
  proof (cases "\<exists>r0 rs. map_of (dk_tocs d) tocPath = Some (r0 # rs)")
    case True
    then obtain r0 rs where rs: "map_of (dk_tocs d) tocPath = Some (r0 # rs)" by blast
    then have "tl (toc_content d tocPath) = rs" "toc_content d tocPath = r0 # rs" by (simp_all add: toc_content_def)
    then have "sub_ok P d' parent k (masked_set P {} (r0 # rs)) dir r = sub_ok P d parent k (masked_set P {} (r0 # rs)) dir r"
      if "r \<in> set rs" for r
      using Suc.prems that by (intro same_but_sub_ok [OF same Suc.IH]) (auto simp: toc_files_records)
    then show ?thesis by (simp add: toc_wf_records content rs list_all_iff del: masked_set.simps)
  qed (auto simp: toc_wf_records content split: option.splits list.splits)
qed simp

lemma append_wf:
  assumes toc: "map_of (dk_tocs d) (th_tocPath h) = Some rs"
    and wf: "toc_wf P d parent (Suc k) dir (th_tocPath h)" and apart: "apart P d k dir (th_tocPath h)"
    and new: "record_ok r" "tr_tag r = TOC_INDEX"
  shows "toc_wf P (append_records h [r] d) parent (Suc k) dir (th_tocPath h)"
proof -
  let ?d = "append_records h [r] d"
  have same: "same_but (th_tocPath h) d ?d" by (rule append_same_but [OF toc])
  obtain r0 rest where rs: "rs = r0 # rest" "init_ok r0" "list_all record_ok rest"
      "list_all (sub_ok P d parent k (masked_set P {} rs) dir) rest"
    using wf toc by (auto simp: toc_wf_records split: list.splits)
  have content: "toc_content d (th_tocPath h) = rs" using toc by (simp add: toc_content_def)
  have masks: "masked_set P {} (rs @ [r]) = masked_set P {} rs"
    using new(2) by (simp add: masked_set_append clears_def)
  have "sub_ok P ?d parent k (masked_set P {} rs) dir r' = sub_ok P d parent k (masked_set P {} rs) dir r'" if "r' \<in> set rest" for r'
    using apart that content rs(1)
    by (intro same_but_sub_ok [OF same same_but_wf [OF same]]) (auto simp: apart_def list_all_iff Let_def)
  moreover have "sub_ok P ?d parent k (masked_set P {} rs) dir r" using new(2) by (simp add: sub_ok_def)
  ultimately have "list_all (sub_ok P ?d parent k (masked_set P {} (rs @ [r])) dir) (rest @ [r])"
    using rs(4) masks by (simp add: list_all_iff)
  moreover have "map_of (dk_tocs ?d) (th_tocPath h) = Some (r0 # rest @ [r])"
    using toc rs(1) by (simp add: append_records_def)
  ultimately show ?thesis
    using rs new by (simp add: toc_wf_records del: masked_set.simps)
qed

section \<open>The writer through its calls\<close>

text \<open>A writer that works on one index, without sub tocs.\<close>

definition one_index :: "toc_handler \<Rightarrow> key \<Rightarrow> 'u toc_index \<Rightarrow> 'u cat_writer \<Rightarrow> bool" where
  "one_index h ikey i w \<longleftrightarrow> cw_handler w = h \<and> cw_sub w = None \<and> cw_objects w = [i] \<and>
     cw_indexes w = [(key_dict ikey, 0)] \<and> cw_current w = Some 0 \<and> \<not> th_useSubToc h"

definition fresh_index :: "('u :: linorder, 'd, 's) cat_env \<Rightarrow> key \<Rightarrow> string \<Rightarrow> tree_class \<Rightarrow> 'u toc_index" where
  "fresh_index X ikey path c =
     (new_toc_index (cx_index X) (cx_garbage X) ikey path 0 False (cx_type X))\<lparr>tx_btree := Some c\<rparr>"

text \<open>The path that the writer makes for its first index.\<close>

definition first_index_path :: "('u, 'd, 's) cat_env \<Rightarrow> toc_handler \<Rightarrow> key \<Rightarrow> string" where
  "first_index_path X h ikey =
     cx_unique X 0 (po_join (cx_paths X) (th_directory h) (key_print (cx_ext X) ikey)) @ ''.index''"

lemma fresh_index_members [simp]:
  "tx_path (fresh_index X ikey path c) = path" "tx_offset (fresh_index X ikey path c) = 0"
  "tx_place (fresh_index X ikey path c) = (path, 0)" "\<not> tx_readMode (fresh_index X ikey path c)"
  "tx_btree (fresh_index X ikey path c) = Some c" "tx_files (fresh_index X ikey path c) = new_uri_store (po_dir (cx_paths X) path)"
  "ib_axes (tx_base (fresh_index X ikey path c)) = new_axis" "ib_key (tx_base (fresh_index X ikey path c)) = ikey"
  "ib_type (tx_base (fresh_index X ikey path c)) = cx_type X"
  by (simp_all add: fresh_index_def new_toc_index_def new_base_def tx_place_def)

lemma select_opens:
  assumes L: "btree_laws (ie_lib (cx_index X))" and D: "dense_laws (ie_dense (cx_index X))"
    and vs: "valuesToString (cx_ext X) ikey = Inr vs" and "\<not> th_useSubToc h"
    and c: "map_of tree_classes (cx_type X) = Some c"
    and new: "bl_size (ie_lib (cx_index X)) (first_index_path X h ikey) (sx_trees st) = 0"
  shows "\<exists>w s. writer_selectIndex X ikey (new_writer h key, d, st) = Inr (w, d, st\<lparr>sx_trees := s\<rparr>) \<and>
    one_index h ikey (fresh_index X ikey (first_index_path X h ikey) c) w \<and>
    tree_frame (ie_lib (cx_index X)) {} (sx_trees st) s \<and>
    tx_writing (cx_index X) ks (fresh_index X ikey (first_index_path X h ikey) c, st\<lparr>sx_trees := s\<rparr>)"
proof -
  let ?path = "first_index_path X h ikey" and ?L = "ie_lib (cx_index X)"
  let ?i = "new_toc_index (cx_index X) (cx_garbage X) ikey ?path 0 False (cx_type X)"
  obtain s where s: "bl_open ?L (tc_recSize c) ?path False 0 (sx_trees st) = Inr s" "tree_frame ?L {} (sx_trees st) s"
    using open_new [OF L, of ?path "sx_trees st" 0] new by auto
  have print: "key_print (cx_ext X) ikey = vs" using vs by (simp add: key_print_def)
  have path: "generateIndexPath X ikey ((new_writer h key)\<lparr>cw_currentKey := ikey\<rparr>) =
      Inr (?path, (new_writer h key)\<lparr>cw_currentKey := ikey, cw_calls := 1\<rparr>)"
    using vs print by (simp add: generateIndexPath_def new_writer_def first_index_path_def)
  have opened: "toc_index_open (cx_index X) ?i st = Inr (fresh_index X ikey ?path c, st\<lparr>sx_trees := s\<rparr>)"
    using s c by (simp add: toc_index_open_def build_tree_def fresh_index_def new_toc_index_def new_base_def)
  have empty: "bl_get ?L False (?path, 0) fp s = None" for fp
    using frame_get [OF s(2), of "(?path, 0)" False fp] get_beyond [OF L, of ?path "sx_trees st" 0 False fp] new by simp
  have "tx_writing (cx_index X) ks (fresh_index X ikey ?path c, st\<lparr>sx_trees := s\<rparr>)"
    using L D uri_store_new tree_class_32 [OF c] empty
    by (simp add: tx_writing_def new_uri_store_def axis_ok_def new_axis_def)
  moreover have "writer_selectIndex X ikey (new_writer h key, d, st) =
      Inr ((new_writer h key)\<lparr>cw_currentKey := ikey, cw_calls := 1, cw_objects := [fresh_index X ikey ?path c],
             cw_indexes := [(key_dict ikey, 0)], cw_current := Some 0\<rparr>, d, st\<lparr>sx_trees := s\<rparr>)"
    using path opened assms(4)
    by (simp add: writer_selectIndex_def find_or_make_def on_object_def) (simp add: new_writer_def)
  ultimately show ?thesis
    using s(2) assms(4) by (intro exI conjI) (assumption | simp add: one_index_def new_writer_def)+
qed

text \<open>Archiving is putting the fields into the index.\<close>

definition archived_field :: "nat \<Rightarrow> 'u location \<Rightarrow> 'u field" where
  "archived_field timestamp loc = \<lparr>fd_location = loc, fd_timestamp = timestamp, fd_details = new_details\<rparr>"

definition archive_all ::
    "('u :: linorder, 'd, 's) cat_env \<Rightarrow> (key \<times> 'u location) list \<Rightarrow> 'u cat_writer \<times> ('d, 's) files \<Rightarrow>
     ('u cat_writer \<times> ('d, 's) files) res" where
  "archive_all X kls = foldE (\<lambda>(k, l). writer_archive X k l) kls"

lemma dict_put_entry: "(a, b) \<in> set (dict_put k v m) \<Longrightarrow> b = v \<or> b \<in> snd ` set m"
  by (induction k v m rule: dict_put.induct) (force split: if_splits)+

lemma uri_insert_paths: "uri_insert u s = Inr (n, s') \<Longrightarrow> x \<in> set (uri_paths s') \<Longrightarrow> x = u \<or> x \<in> set (uri_paths s)"
  by (auto simp: uri_insert_def bindE_eq_Inr uri_paths_def Let_def split: option.splits dest: dict_put_entry)

lemma put_members:
  assumes "toc_index_put E key f i st = Inr (i', st')"
  shows "ib_timestamp (tx_base i') = ib_timestamp (tx_base i) \<and>
    set (toc_dataPaths i') \<subseteq> insert (lo_uri (fd_location f)) (set (toc_dataPaths i))"
proof -
  from assms obtain n where "uri_insert (lo_uri (fd_location f)) (tx_files i) = Inr (n, tx_files i')"
    and "ib_timestamp (tx_base i') = ib_timestamp (tx_base i)"
    by (auto simp: toc_index_put_def toc_index_add_def make_ref_def bindE_eq_Inr Let_def split: option.splits if_splits)
  then show ?thesis using uri_insert_paths unfolding toc_dataPaths_def by blast
qed

lemma archive_one:
  assumes "one_index h ikey i w"
  shows "writer_archive X k l (w, d, st) =
    bindE (toc_index_put (cx_index X) k (archived_field (ib_timestamp (tx_base i)) l) i st) (\<lambda>(i', st').
      Inr (w\<lparr>cw_dirty := True, cw_objects := [i']\<rparr>, d, st'))"
  using assms
  by (cases "toc_index_put (cx_index X) k (archived_field (ib_timestamp (tx_base i)) l) i st")
    (auto simp: writer_archive_def ensure_current_def one_index_def on_object_def archived_field_def)

lemma archive_all_puts:
  assumes "one_index h ikey i w"
  shows "archive_all X kls (w, d, st) =
    bindE (put_all (cx_index X) (map (\<lambda>(k, l). (k, archived_field (ib_timestamp (tx_base i)) l)) kls) (i, st)) (\<lambda>(i', st').
      Inr (if kls = [] then w else w\<lparr>cw_dirty := True, cw_objects := [i']\<rparr>, d, st'))"
  using assms
proof (induction kls arbitrary: i w st)
  case Nil
  then show ?case by (simp add: archive_all_def put_all_def)
next
  case (Cons kl kls)
  obtain k l where kl: "kl = (k, l)" by (cases kl)
  let ?f = "archived_field (ib_timestamp (tx_base i)) l"
  show ?case
  proof (cases "toc_index_put (cx_index X) k ?f i st")
    case (Inr i1st1)
    then obtain i1 st1 where put: "toc_index_put (cx_index X) k ?f i st = Inr (i1, st1)" by (cases i1st1) simp
    let ?w1 = "w\<lparr>cw_dirty := True, cw_objects := [i1]\<rparr>"
    have "one_index h ikey i1 ?w1" using Cons.prems by (simp add: one_index_def)
    from Cons.IH [OF this, of st1] put_members [OF put] show ?thesis
      using put by (auto simp: kl archive_all_def archive_one [OF Cons.prems] put_all_def intro!: bindE_cong)
  qed (simp add: kl archive_all_def archive_one [OF Cons.prems] put_all_def)
qed

lemma put_all_paths:
  "put_all E kfs (i, st) = Inr (i', st') \<Longrightarrow>
   set (toc_dataPaths i') \<subseteq> (\<lambda>(k, f). lo_uri (fd_location f)) ` set kfs \<union> set (toc_dataPaths i)"
proof (induction kfs arbitrary: i st)
  case (Cons kf kfs)
  obtain k f where kf: "kf = (k, f)" by (cases kf)
  with Cons.prems obtain i1 st1 where 1: "toc_index_put E k f i st = Inr (i1, st1)"
    and 2: "put_all E kfs (i1, st1) = Inr (i', st')"
    by (auto simp: put_all_def bindE_eq_Inr)
  from Cons.IH [OF 2] put_members [OF 1] show ?case by (auto simp: kf)
qed (simp add: put_all_def)

text \<open>What an index encodes can be encoded.\<close>

lemma encode_index_succeeds:
  assumes "encode_key (ie_ext E) (ib_key (tx_base i)) = Inr ks" and "valuesToString (ie_ext E) (ib_key (tx_base i)) = Inr vs"
  shows "\<exists>out. encode_toc_index E w i version = Inr out"
  using assms
  by (simp add: encode_toc_index_def encode_base_def encode_base_current_def encode_base_legacy_def encode_axis_def
      encodeCurrent_def encodeLegacy_def)

text \<open>A flush: the tree is written, its record is appended, and a new tree is opened behind it.\<close>

definition index_record_items :: "path_ops \<Rightarrow> 'u toc_index \<Rightarrow> item list" where
  "index_record_items P i = [IStr (po_base P (tx_path i)), INum (tx_offset i), IStr (ib_type (tx_base i))]"

lemma flush_writes:
  fixes X :: "('u :: linorder, 'd, 's) cat_env"
  defines "P \<equiv> cx_paths X" and "E \<equiv> cx_index X" and "n \<equiv> cx_fuel X"
  assumes one: "one_index h ikey i w" and "cw_dirty w" and dirty: "tx_dirty i" and ok: "tx_writing E ks (i, st)"
    and enc: "encode_key (ie_ext E) (ib_key (tx_base i)) = Inr ik" "valuesToString (ie_ext E) (ib_key (tx_base i)) = Inr vs"
    and c: "map_of tree_classes (ib_type (tx_base i)) = Some c"
    and user: "checkUID n P (cx_toc X) d h = Inr h" and toc: "map_of (dk_tocs d) (th_tocPath h) = Some rs"
  shows "\<exists>w' st1 out st'. writer_flush X (w, d, st) =
      Inr (w', append_records h [make_record P (cx_toc X) (th_version h) TOC_INDEX (index_record_items P i @ out)] d, st') \<and>
    toc_index_flush E i st = Inr (i\<lparr>tx_base := (tx_base i)\<lparr>ib_timestamp := sx_now st\<rparr>, tx_dirty := False\<rparr>, st1) \<and>
    encode_toc_index E (sx_world st1) (i\<lparr>tx_base := (tx_base i)\<lparr>ib_timestamp := sx_now st\<rparr>, tx_dirty := False\<rparr>) (th_version h) = Inr out \<and>
    tree_frame (ie_lib E) {} (sx_trees st1) (sx_trees st') \<and> \<not> cw_dirty w' \<and>
    writeIndexRecord n P (cx_toc X) (cx_ext X) (cx_unique X (cw_calls w) ''toc'')
      (index_record_of E (sx_world st1) (i\<lparr>tx_base := (tx_base i)\<lparr>ib_timestamp := sx_now st\<rparr>, tx_dirty := False\<rparr>)) (h, None) d =
      Inr ((h\<lparr>th_cache := None\<rparr>, None), append_records h [make_record P (cx_toc X) (th_version h) TOC_INDEX (index_record_items P i @ out)] d)"
proof -
  let ?i2 = "i\<lparr>tx_base := (tx_base i)\<lparr>ib_timestamp := sx_now st\<rparr>, tx_dirty := False\<rparr>" and ?L = "ie_lib E"
  have L: "btree_laws ?L" using ok by (simp add: tx_writing_def)
  from toc_flush_step [OF ok dirty] obtain st1 where flush: "toc_index_flush E i st = Inr (?i2, st1)" by blast
  obtain out where out: "encode_toc_index E (sx_world st1) ?i2 (th_version h) = Inr out"
    using encode_index_succeeds [of E ?i2 ik vs "sx_world st1" "th_version h"] enc by auto
  let ?r = "make_record P (cx_toc X) (th_version h) TOC_INDEX (index_record_items P i @ out)"
  have append: "openForAppend n P (cx_toc X) d h = Inr (h\<lparr>th_cache := None\<rparr>)"
    using user toc by (simp add: openForAppend_def)
  have built: "build_index_record P (cx_toc X) (th_version h) (index_record_of E (sx_world st1) ?i2) = Inr ?r"
    using out by (simp add: build_index_record_def index_record_of_def index_record_items_def)
  have written: "writeIndexRecord n P (cx_toc X) (cx_ext X) u (index_record_of E (sx_world st1) ?i2) (h, None) d =
      Inr ((h\<lparr>th_cache := None\<rparr>, None), append_records h [?r] d)" for u
    using one append built by (simp add: one_index_def writeIndexRecord_def write_index_here_def append_records_def)
  obtain s where s: "bl_open ?L (tc_recSize c) (tx_path i) False (bl_size ?L (tx_path i) (sx_trees st1)) (sx_trees st1) = Inr s"
      "tree_frame ?L {} (sx_trees st1) s"
    using open_new [OF L, of "tx_path i" "sx_trees st1" "bl_size ?L (tx_path i) (sx_trees st1)"] by auto
  have ax: "\<not> ax_readOnly (ib_axes (tx_base i))" "\<not> tx_readMode i" using ok by (auto simp: tx_writing_def)
  obtain i3 where reopen: "toc_index_reopen E ?i2 st1 = Inr (i3, st1\<lparr>sx_trees := s\<rparr>)"
    using s(1) c ax by (simp add: toc_index_reopen_def Let_def toc_index_close_def axis_wipe_def toc_index_open_def build_tree_def)
  have "writer_flush X (w, d, st) = Inr (w\<lparr>cw_handler := h\<lparr>th_cache := None\<rparr>, cw_calls := Suc (cw_calls w), cw_objects := [i3],
      cw_dirty := False, cw_current := None, cw_currentFull := None\<rparr>, append_records h [?r] d, st1\<lparr>sx_trees := s\<rparr>)"
    using one assms(5) dirty flush written reopen
    by (simp add: writer_flush_def flushIndexes_def flush_object_def on_object_def one_index_def P_def E_def n_def)
  then show ?thesis using flush out s(2) written by auto
qed

section \<open>The reader of what was written\<close>

lemma key_dict_same:
  assumes "key_ok j" and "key_ok k" and "key_names j = key_names k"
    and "\<forall>n v. key_find k n = Some v \<longrightarrow> key_find j n = Some v"
  shows "key_dict j = key_dict k"
proof -
  have "dict_ok (key_dict j)" and "dict_ok (key_dict k)" using assms by (simp_all add: key_ok_def)
  moreover have "map_of (key_dict j) n = map_of (key_dict k) n" for n
  proof (cases "map_of (key_dict k) n")
    case None
    then have "n \<notin> set (key_names j)" using assms(2,3) by (simp add: key_ok_def map_of_eq_None_iff)
    then show ?thesis using assms(1) None by (simp add: key_ok_def map_of_eq_None_iff [THEN iffD2])
  next
    case (Some v)
    then show ?thesis using assms(4) by (simp add: key_find_def)
  qed
  ultimately show ?thesis by (intro dict.lookup_ext) auto
qed

lemma first_matches:
  assumes "P 0"
  shows "\<exists>ms. filter P [0..<Suc n] = 0 # ms"
  using assms by (simp add: upt_conv_Cons del: upt_Suc)

text \<open>A reader whose first index has the key and finds the field.\<close>

lemma retrieve_first:
  assumes "cr_indexes r = (i, remap) # rest" and "\<not> key_eq (cr_current r) key" and "key_eq (ib_key (tx_base i)) key"
    and "mayContain (cx_ext X) (ie_dense (cx_index X)) (sx_world st) (tx_base i) k = Inr True"
    and "toc_index_open (cx_index X) i st = Inr (i', st')"
    and "toc_index_get (cx_index X) (sx_trees st') i' k remap = Inr (Some f)"
  shows "fst (reader_selectIndex key r) \<and>
    (\<exists>r'. reader_retrieve X k (snd (reader_selectIndex key r)) st = Inr (Some f, r', st'))"
proof -
  obtain ms where ms: "filter (\<lambda>n. key_eq (ib_key (tx_base (fst (cr_indexes r ! n)))) key) [0..<length (cr_indexes r)] = 0 # ms"
    using first_matches [of "\<lambda>n. key_eq (ib_key (tx_base (fst (cr_indexes r ! n)))) key" "length rest"] assms(1,3)
    by (auto simp del: upt_Suc)
  then have "reader_selectIndex key r = (True, r\<lparr>cr_current := key, cr_matching := 0 # ms\<rparr>)"
    using assms(2) by (simp add: reader_selectIndex_def)
  then show ?thesis
    using assms(1,4-6) by (simp add: reader_retrieve_def)
qed

text \<open>What is assumed of the start of a session.\<close>

definition session_start ::
    "('u :: linorder, 'd, 's) cat_env \<Rightarrow> toc_handler \<Rightarrow> key \<Rightarrow> tree_class \<Rightarrow> disk \<Rightarrow> toc_record list \<Rightarrow> nat \<Rightarrow> ('d, 's) stores \<Rightarrow> bool" where
  "session_start X h ikey c d rs k st \<longleftrightarrow>
     (let P = cx_paths X; E = cx_index X; path = first_index_path X h ikey in
      btree_laws (ie_lib E) \<and> dense_laws (ie_dense E) \<and> uri_laws (ie_uris E) \<and>
      key_ok ikey \<and> \<not> key_empty ikey \<and> (\<forall>n v. key_find ikey n = Some v \<longrightarrow> canonicalise (ie_ext E) ikey n v = Inr v) \<and>
      (\<exists>ks. encode_key (ie_ext E) ikey = Inr ks) \<and> (\<exists>vs. valuesToString (ie_ext E) ikey = Inr vs) \<and>
      map_of tree_classes (cx_type X) = Some c \<and> sx_now st \<noteq> 0 \<and>
      po_dir P path = th_directory h \<and> po_join P (th_directory h) (po_base P path) = path \<and>
      bl_size (ie_lib E) path (sx_trees st) = 0 \<and> (po_base P path, 0) \<notin> masked_set P {} rs \<and>
      \<not> th_useSubToc h \<and> th_version h \<in> set supported_versions \<and> checkUID (cx_fuel X) P (cx_toc X) d h = Inr h \<and>
      map_of (dk_tocs d) (th_tocPath h) = Some rs \<and> \<not> key_empty (init_key (hd rs)) \<and>
      toc_wf P d (init_key (hd rs)) (Suc k) (th_directory h) (th_tocPath h) \<and> apart P d k (th_directory h) (th_tocPath h))"

lemma class_named: "map_of tree_classes name = Some c \<Longrightarrow> name \<noteq> []"
  by (auto simp: tree_classes_def)

text \<open>The writing half: the index that is written and its record.\<close>

lemma session_writes:
  fixes X :: "('u :: linorder, 'd, 's) cat_env"
  defines "P \<equiv> cx_paths X" and "E \<equiv> cx_index X"
  assumes start: "session_start X h ikey c d rs n st" and "kls \<noteq> []"
    and good: "\<forall>(k, l) \<in> set kls. good_key (ie_ext E) ks k \<and> lo_class l = TocLocation"
  shows "\<exists>w1 w2 w3 st1 st2 st3 i2 st4 out. let i3 = i2\<lparr>tx_base := (tx_base i2)\<lparr>ib_timestamp := sx_now st2\<rparr>, tx_dirty := False\<rparr>;
      r = make_record P (cx_toc X) (th_version h) TOC_INDEX (index_record_items P i2 @ out) in
    writer_selectIndex X ikey (new_writer h key, d, st) = Inr (w1, d, st1) \<and>
    archive_all X kls (w1, d, st1) = Inr (w2, d, st2) \<and>
    writer_flush X (w2, d, st2) = Inr (w3, append_records h [r] d, st3) \<and>
    put_all E (map (\<lambda>(k, l). (k, archived_field (cx_garbage X) l)) kls) (fresh_index X ikey (first_index_path X h ikey) c, st1) = Inr (i2, st2) \<and>
    tx_writing E ks (fresh_index X ikey (first_index_path X h ikey) c, st1) \<and> sx_now st1 = sx_now st \<and>
    toc_index_flush E i2 st2 = Inr (i3, st4) \<and> encode_toc_index E (sx_world st4) i3 (th_version h) = Inr out \<and>
    tree_frame (ie_lib E) {} (sx_trees st4) (sx_trees st3) \<and>
    writeIndexRecord (cx_fuel X) P (cx_toc X) (cx_ext X) (cx_unique X (cw_calls w2) ''toc'')
      (index_record_of E (sx_world st4) i3) (h, None) d = Inr ((h\<lparr>th_cache := None\<rparr>, None), append_records h [r] d)"
proof -
  let ?path = "first_index_path X h ikey" and ?i = "fresh_index X ikey (first_index_path X h ikey) c"
  obtain vs ik where vs: "valuesToString (cx_ext X) ikey = Inr vs" and ik: "encode_key (cx_ext X) ikey = Inr ik"
    using start by (auto simp: session_start_def Let_def)
  have laws: "btree_laws (ie_lib (cx_index X))" "dense_laws (ie_dense (cx_index X))" "map_of tree_classes (cx_type X) = Some c"
    "\<not> th_useSubToc h" "bl_size (ie_lib (cx_index X)) ?path (sx_trees st) = 0" "checkUID (cx_fuel X) P (cx_toc X) d h = Inr h"
    "map_of (dk_tocs d) (th_tocPath h) = Some rs"
    using start by (simp_all add: session_start_def Let_def P_def)
  from select_opens [OF laws(1,2) vs laws(4,3,5), of key d ks] obtain w1 s where
    sel: "writer_selectIndex X ikey (new_writer h key, d, st) = Inr (w1, d, st\<lparr>sx_trees := s\<rparr>)"
    and one: "one_index h ikey ?i w1" and writing: "tx_writing E ks (?i, st\<lparr>sx_trees := s\<rparr>)" by (auto simp: E_def)
  let ?st1 = "st\<lparr>sx_trees := s\<rparr>" and ?kfs = "map (\<lambda>(k, l). (k, archived_field (cx_garbage X) l)) kls"
  have stamp: "ib_timestamp (tx_base ?i) = cx_garbage X" by (simp add: fresh_index_def new_toc_index_def new_base_def)
  have g: "\<forall>(k, f) \<in> set ?kfs. good_key (ie_ext E) ks k \<and> lo_class (fd_location f) = TocLocation"
    using good by (auto simp: archived_field_def)
  from put_all_succeeds [OF writing g] obtain i2 st2 where put: "put_all E ?kfs (?i, ?st1) = Inr (i2, st2)" by blast
  have "\<forall>(k, f) \<in> set ?kfs. good_key (ie_ext E) ks k" using g by auto
  note all = put_all_step [OF writing this put]
  let ?w2 = "w1\<lparr>cw_dirty := True, cw_objects := [i2]\<rparr>"
  have arch: "archive_all X kls (w1, d, ?st1) = Inr (?w2, d, st2)"
    using archive_all_puts [OF one, of X kls d ?st1] put assms(4) by (simp add: stamp E_def)
  have one2: "one_index h ikey i2 ?w2" using one by (simp add: one_index_def)
  have same: "ib_key (tx_base i2) = ikey" "ib_type (tx_base i2) = cx_type X"
    using all by (simp_all add: same_index_def)
  have w2: "cw_dirty ?w2" "tx_dirty i2" "tx_writing (cx_index X) ks (i2, st2)"
    "encode_key (ie_ext (cx_index X)) (ib_key (tx_base i2)) = Inr ik" "valuesToString (ie_ext (cx_index X)) (ib_key (tx_base i2)) = Inr vs"
    "map_of tree_classes (ib_type (tx_base i2)) = Some c"
    using all assms(4) vs ik laws(3) by (simp_all add: same E_def)
  from flush_writes [OF one2 w2 laws(6) [unfolded P_def] laws(7)] show ?thesis
    using sel arch put writing unfolding P_def E_def Let_def by force
qed

text \<open>The reading half: the record that was appended loads first, and finds the field.\<close>

lemma record_loads:
  fixes X :: "('u :: linorder, 'd, 's) cat_env"
  defines "P \<equiv> cx_paths X" and "E \<equiv> cx_index X"
  assumes laws: "dense_laws (ie_dense E)" "uri_laws (ie_uris E)" and w: "tx_writing E ks (i, st)"
    and i: "key_ok (ib_key (tx_base i))" "\<not> key_empty (ib_key (tx_base i))" "ib_type (tx_base i) \<noteq> []"
      "ib_timestamp (tx_base i) \<noteq> 0" "ax_axis (ib_axes (tx_base i)) \<noteq> []"
      "\<forall>u \<in> set (toc_dataPaths i). u_scheme (ie_uris E) u \<noteq> ''unix''"
      "\<forall>n v. key_find (ib_key (tx_base i)) n = Some v \<longrightarrow> canonicalise (ie_ext E) (ib_key (tx_base i)) n v = Inr v"
    and dir: "us_directory (tx_files i) = dir" "po_join P dir (po_base P (tx_path i)) = tx_path i"
    and out: "encode_toc_index E w' i version = Inr out" and world: "world_ok (sx_world st4)"
  shows "\<exists>j st5. (\<forall>ls. load_view P (toc_index_of_stream E preload garbage)
      \<lparr>tv_record = make_record P v version TOC_INDEX (index_record_items P i @ out), tv_directory = dir, tv_tocPath = toc,
       tv_remapKey = remap, tv_subToc = None\<rparr> (ls, st4) =
      Inr (ls @ [\<lparr>ld_index = j, ld_inSubtoc = False, ld_remapKey = remap\<rparr>], st5)) \<and>
    sx_trees st5 = sx_trees st4 \<and> tx_place j = tx_place i \<and> tx_readMode j \<and> tx_btree j = None \<and>
    us_paths (tx_files j) = us_paths (tx_files i) \<and> ib_type (tx_base j) = ib_type (tx_base i) \<and>
    key_dict (ib_key (tx_base j)) = key_dict (ib_key (tx_base i)) \<and>
    axis_ok (sx_world st5) (ib_axes (tx_base j)) \<and>
    (\<forall>k. axis_view (ie_dense E) (sx_world st5) (ib_axes (tx_base j)) k = axis_view (ie_dense E) w' (ib_axes (tx_base i)) k)"
proof -
  have ok: "uri_store_ok (tx_files i)" "dict_ok (ax_axis (ib_axes (tx_base i)))"
    using w by (simp_all add: tx_writing_def axis_ok_def)
  have cond: "3 \<le> version \<longrightarrow> ax_axis (ib_axes (tx_base i)) \<noteq> [] \<and> \<not> key_empty (ib_key (tx_base i)) \<and>
      ib_type (tx_base i) \<noteq> [] \<and> ib_timestamp (tx_base i) \<noteq> 0" using i by simp
  from index_stream [where preload = preload and garbage = garbage and path = "tx_path i" and offset = "tx_offset i",
      OF laws ok(1) i(6) i(1) ok(2) world cond out]
  obtain files b w5 where load: "toc_index_of_stream E preload garbage version dir (tx_path i) (tx_offset i) out st4 =
        Inr (\<lparr>tx_files = files, tx_base = b, tx_btree = None, tx_dirty = False, tx_readMode = True,
              tx_path = tx_path i, tx_offset = tx_offset i, tx_preload = preload\<rparr>, st4\<lparr>sx_world := w5\<rparr>)"
    and b: "us_paths files = us_paths (tx_files i)" "ib_type b = ib_type (tx_base i)" "axis_ok w5 (ib_axes b)"
      "\<forall>k. axis_view (ie_dense E) w5 (ib_axes b) k = axis_view (ie_dense E) w' (ib_axes (tx_base i)) k"
    and key: "key_ok (ib_key b)" "key_names (ib_key b) = key_names (ib_key (tx_base i))"
      "\<forall>k v. key_find (ib_key (tx_base i)) k = Some v \<longrightarrow>
       (\<exists>c. canonicalise (ie_ext E) (ib_key (tx_base i)) k v = Inr c \<and> key_find (ib_key b) k = Some c)"
    unfolding dir(1) by blast
  let ?j = "\<lparr>tx_files = files, tx_base = b, tx_btree = None, tx_dirty = False, tx_readMode = True,
              tx_path = tx_path i, tx_offset = tx_offset i, tx_preload = preload\<rparr>"
  have "key_dict (ib_key b) = key_dict (ib_key (tx_base i))"
    using key(3) i(7) by (intro key_dict_same [OF key(1) i(1) key(2)]) force
  moreover have "load_view P (toc_index_of_stream E preload garbage)
      \<lparr>tv_record = make_record P v version TOC_INDEX (index_record_items P i @ out), tv_directory = dir, tv_tocPath = toc,
       tv_remapKey = remap, tv_subToc = None\<rparr> (ls, st4) =
      Inr (ls @ [\<lparr>ld_index = ?j, ld_inSubtoc = False, ld_remapKey = remap\<rparr>], st4\<lparr>sx_world := w5\<rparr>)" for ls
    using load by (simp add: load_view_def make_record_def index_record_items_def dir(2))
  ultimately show ?thesis using b by (intro exI [of _ ?j] exI [of _ "st4\<lparr>sx_world := w5\<rparr>"]) (simp add: tx_place_def)
qed

text \<open>The table of contents with one more record, as a reader in the same directory loads it.\<close>

lemma reader_loads_more:
  fixes X :: "('u :: linorder, 'd, 's) cat_env"
  defines "P \<equiv> cx_paths X" and "load \<equiv> toc_index_of_stream (cx_index X) (cx_preload X) (cx_garbage X)"
  assumes start: "session_start X h ikey c d rs n st"
    and new: "tr_tag r = TOC_INDEX" "record_ok r"
    and views: "\<And>remap. toc_views P (append_records h [r] d) (init_key (hd rs)) (Suc n) (th_directory h) (th_tocPath h) remap =
      toc_views P d (init_key (hd rs)) (Suc n) (th_directory h) (th_tocPath h) remap @
      [\<lparr>tv_record = r, tv_directory = th_directory h, tv_tocPath = th_tocPath h, tv_remapKey = remap, tv_subToc = None\<rparr>]"
    and hr: "th_cache hr = None" "key_empty (th_parentKey hr)" "th_directory hr = th_directory h" "th_tocPath hr = th_tocPath h"
    and world: "world_ok (sx_world st4)"
  shows "\<exists>N. \<forall>m \<ge> N. \<forall>r0 st5. loadIndexesAndRemap (X\<lparr>cx_fuel := m\<rparr>) d hr st4 = Inr (r0, st5) \<longrightarrow>
    world_ok (sx_world st5) \<and> sx_trees st5 = sx_trees st4 \<and>
    (\<forall>ls j st6. (\<forall>ls. load_view P load \<lparr>tv_record = r, tv_directory = th_directory h, tv_tocPath = th_tocPath h,
        tv_remapKey = th_remapKey hr, tv_subToc = None\<rparr> (ls, st5) = Inr (ls @ [j], st6)) \<longrightarrow>
      (\<exists>r1. loadIndexesAndRemap (X\<lparr>cx_fuel := m\<rparr>) (append_records h [r] d) hr st4 = Inr (r1, st6) \<and>
         cr_current r1 = new_key None \<and> (\<exists>rest. cr_indexes r1 = (ld_index j, ld_remapKey j) # rest)))"
proof -
  let ?d = "append_records h [r] d" and ?k = "init_key (hd rs)"
  have s: "map_of (dk_tocs d) (th_tocPath h) = Some rs" "\<not> key_empty ?k" "apart P d n (th_directory h) (th_tocPath h)"
    "toc_wf P d ?k (Suc n) (th_directory h) (th_tocPath h)" "dense_laws (ie_dense (cx_index X))"
    using start by (simp_all add: session_start_def Let_def P_def)
  have rs: "rs \<noteq> []" using s(1,4) by (auto simp: toc_wf_records)
  have toc: "map_of (dk_tocs ?d) (th_tocPath hr) = Some (rs @ [r])" "hd (rs @ [r]) = hd rs"
    using s(1) rs by (simp_all add: append_records_def hr(4))
  have wf: "toc_wf P ?d ?k (Suc n) (th_directory hr) (th_tocPath hr)"
    unfolding hr by (rule append_wf [OF s(1,4,3) new(2,1)])
  let ?old = "toc_views P d ?k (Suc n) (th_directory h) (th_tocPath h) (th_remapKey hr)"
  let ?v = "\<lparr>tv_record = r, tv_directory = th_directory h, tv_tocPath = th_tocPath h, tv_remapKey = th_remapKey hr, tv_subToc = None\<rparr>"
  from load_all_views [OF hr(1,2), of d rs P "Suc n" load st4] s(1,2,4) hr(3,4) obtain N1 h1 where
    N1: "\<And>m. m \<ge> N1 \<Longrightarrow> loadIndexes m P d load hr st4 = bindE (foldE (load_view P load) ?old ([], st4))
        (\<lambda>(is, w). Inr (rev is, view_subTocs ?old, h1, w))" by auto
  from load_all_views [OF hr(1,2) toc(1), of P "Suc n" load st4] s(2) wf hr(3,4) toc(2) obtain N2 h2 where
    N2: "\<And>m. m \<ge> N2 \<Longrightarrow> loadIndexes m P ?d load hr st4 = bindE (foldE (load_view P load) (?old @ [?v]) ([], st4))
        (\<lambda>(is, w). Inr (rev is, view_subTocs (?old @ [?v]), h2, w))" by (auto simp: views)
  have all: "world_ok (sx_world st5) \<and> sx_trees st5 = sx_trees st4 \<and>
    (\<forall>ls j st6. (\<forall>ls. load_view P load ?v (ls, st5) = Inr (ls @ [j], st6)) \<longrightarrow>
      (\<exists>r1. loadIndexesAndRemap (X\<lparr>cx_fuel := m\<rparr>) ?d hr st4 = Inr (r1, st6) \<and>
         cr_current r1 = new_key None \<and> (\<exists>rest. cr_indexes r1 = (ld_index j, ld_remapKey j) # rest)))"
    if m: "m \<ge> max N1 N2" and old: "loadIndexesAndRemap (X\<lparr>cx_fuel := m\<rparr>) d hr st4 = Inr (r0, st5)" for m r0 st5
  proof -
    from old N1 [of m] m obtain "is" where fold: "foldE (load_view P load) ?old ([], st4) = Inr (is, st5)"
      by (auto simp: loadIndexesAndRemap_def bindE_eq_Inr P_def load_def)
    from load_views_keep [OF s(5) fold [unfolded load_def]] world
    have keep: "world_ok (sx_world st5) \<and> sx_trees st5 = sx_trees st4" by (simp add: stores_kept_def)
    moreover have "\<exists>r1. loadIndexesAndRemap (X\<lparr>cx_fuel := m\<rparr>) ?d hr st4 = Inr (r1, st6) \<and>
         cr_current r1 = new_key None \<and> (\<exists>rest. cr_indexes r1 = (ld_index j, ld_remapKey j) # rest)"
      if "\<forall>ls. load_view P load ?v (ls, st5) = Inr (ls @ [j], st6)" for j st6
    proof -
      have "loadIndexes m P ?d load hr st4 = Inr (rev (is @ [j]), view_subTocs (?old @ [?v]), h2, st6)"
        using N2 [of m] m fold that by (simp add: foldE_append)
      then show ?thesis by (simp add: loadIndexesAndRemap_def P_def load_def)
    qed
    ultimately show ?thesis by blast
  qed
  show ?thesis
    by (rule exI [of _ "max N1 N2"], intro allI impI) (rule all)
qed

text \<open>The index when all fields are in it.\<close>

definition session_index ::
    "('u :: linorder, 'd, 's) cat_env \<Rightarrow> toc_handler \<Rightarrow> key \<Rightarrow> string set \<Rightarrow> key \<Rightarrow> 'u location \<Rightarrow> 'u toc_index \<times> ('d, 's) stores \<Rightarrow> bool" where
  "session_index X h ikey ks k l = (\<lambda>(i, st). let E = cx_index X in
     tx_writing E ks (i, st) \<and> tx_dirty i \<and> tx_place i = (first_index_path X h ikey, 0) \<and> ib_key (tx_base i) = ikey \<and>
     ib_type (tx_base i) = cx_type X \<and> us_directory (tx_files i) = th_directory h \<and>
     (\<forall>u \<in> set (toc_dataPaths i). u_scheme (ie_uris E) u \<noteq> ''unix'') \<and> ax_axis (ib_axes (tx_base i)) \<noteq> [] \<and>
     tx_found E ks (i, st) k \<and>
     tx_lookup E (sx_trees st) i (key_print (ie_ext E) k) = Some (lo_uri l, lo_offset l, lo_length l))"

lemma session_puts:
  fixes X :: "('u :: linorder, 'd, 's) cat_env"
  defines "E \<equiv> cx_index X" and "P \<equiv> cx_paths X"
  assumes good: "\<forall>(k, l) \<in> set (xs @ (k, l) # ys). good_key (ie_ext E) ks k \<and> lo_class l = TocLocation \<and> u_scheme (ie_uris E) (lo_uri l) \<noteq> ''unix''"
    and last: "\<forall>(j, m) \<in> set ys. key_print (ie_ext E) j \<noteq> key_print (ie_ext E) k" and "ks \<noteq> {}"
    and w: "tx_writing E ks (fresh_index X ikey (first_index_path X h ikey) c, st1)"
    and put: "put_all E (map (\<lambda>(k, l). (k, archived_field g l)) (xs @ (k, l) # ys)) (fresh_index X ikey (first_index_path X h ikey) c, st1) = Inr (i, st)"
    and dir: "po_dir P (first_index_path X h ikey) = th_directory h"
  shows "session_index X h ikey ks k l (i, st) \<and> sx_now st = sx_now st1"
proof -
  let ?kfs = "map (\<lambda>(k, l). (k, archived_field g l)) (xs @ (k, l) # ys)" and ?fp = "key_print (ie_ext E) k"
  have "\<forall>(k, f) \<in> set ?kfs. good_key (ie_ext E) ks k" using good by auto
  note all = put_all_step [OF w this put]
  have "map_of (rev (map (\<lambda>(k, f). (key_print (ie_ext E) k, place_of_field f)) (map (\<lambda>(k, l). (k, archived_field g l)) ys))) ?fp = None"
    using last by (auto simp: map_of_eq_None_iff)
  then have look: "tx_lookup E (sx_trees st) i ?fp = Some (lo_uri l, lo_offset l, lo_length l)"
    using all by (simp add: map_add_def place_of_field_def archived_field_def)
  have found: "tx_found E ks (i, st) k" using all by auto
  then have "ax_axis (ib_axes (tx_base i)) \<noteq> []" using assms(5) by (auto simp: tx_found_def)
  moreover have "u_scheme (ie_uris E) u \<noteq> ''unix''" if "u \<in> set (toc_dataPaths i)" for u
    using subsetD [OF put_all_paths [OF put] that] good
    by (auto simp: toc_dataPaths_def uri_paths_def new_uri_store_def archived_field_def)
  ultimately show ?thesis
    using all look found dir by (simp add: session_index_def same_index_def new_uri_store_def Let_def E_def P_def)
qed

text \<open>The record of such an index, once it is flushed, loads to an index that finds the field.\<close>

lemma session_reads:
  fixes X :: "('u :: linorder, 'd, 's) cat_env"
  defines "E \<equiv> cx_index X" and "P \<equiv> cx_paths X"
  assumes idx: "session_index X h ikey ks k l (i, st)" and start: "session_start X h ikey c d rs n st0"
    and now: "sx_now st = sx_now st0" and good: "good_key (ie_ext E) ks k" and len: "lo_length l \<noteq> 0"
    and cl: "map_of (ie_builders E) (u_scheme (ie_uris E) (lo_uri l)) = Some cl"
    and flush: "toc_index_flush E i st = Inr (i\<lparr>tx_base := (tx_base i)\<lparr>ib_timestamp := sx_now st\<rparr>, tx_dirty := False\<rparr>, st1)"
    and out: "encode_toc_index E (sx_world st1) (i\<lparr>tx_base := (tx_base i)\<lparr>ib_timestamp := sx_now st\<rparr>, tx_dirty := False\<rparr>) (th_version h) = Inr out"
    and frame: "tree_frame (ie_lib E) {} (sx_trees st1) (sx_trees st3)" and st5: "world_ok (sx_world st5)" "sx_trees st5 = sx_trees st3"
  shows "\<exists>j st6 j' st7 f. (\<forall>ls. load_view P (toc_index_of_stream E (cx_preload X) (cx_garbage X))
      \<lparr>tv_record = make_record P v (th_version h) TOC_INDEX (index_record_items P i @ out), tv_directory = th_directory h, tv_tocPath = toc,
       tv_remapKey = remap, tv_subToc = None\<rparr> (ls, st5) = Inr (ls @ [\<lparr>ld_index = j, ld_inSubtoc = False, ld_remapKey = remap\<rparr>], st6)) \<and>
    key_eq (ib_key (tx_base j)) ikey \<and> mayContain (ie_ext E) (ie_dense E) (sx_world st6) (tx_base j) k = Inr True \<and>
    toc_index_open E j st6 = Inr (j', st7) \<and>
    toc_index_get E (sx_trees st7) j' k remap = Inr (Some f) \<and> fd_location f = new_location cl (lo_uri l) (lo_offset l) (lo_length l) remap"
proof -
  let ?j = "i\<lparr>tx_base := (tx_base i)\<lparr>ib_timestamp := sx_now st\<rparr>, tx_dirty := False\<rparr>"
  let ?path = "first_index_path X h ikey" and ?load = "toc_index_of_stream E (cx_preload X) (cx_garbage X)"
  have s: "dense_laws (ie_dense E)" "uri_laws (ie_uris E)" "key_ok ikey" "\<not> key_empty ikey" "map_of tree_classes (cx_type X) = Some c"
    "sx_now st0 \<noteq> 0" "po_join P (th_directory h) (po_base P ?path) = ?path"
    "\<forall>n v. key_find ikey n = Some v \<longrightarrow> canonicalise (ie_ext E) ikey n v = Inr v"
    using start by (simp_all add: session_start_def Let_def E_def P_def)
  have i: "tx_writing E ks (i, st)" "tx_dirty i" "tx_path i = ?path" "ib_key (tx_base i) = ikey" "ib_type (tx_base i) = cx_type X"
    "us_directory (tx_files i) = th_directory h" "\<forall>u \<in> set (toc_dataPaths i). u_scheme (ie_uris E) u \<noteq> ''unix''"
    "ax_axis (ib_axes (tx_base i)) \<noteq> []" "tx_found E ks (i, st) k"
    using idx by (simp_all add: session_index_def Let_def E_def tx_place_def)
  obtain fp where fp: "valuesToString (ie_ext E) k = Inr fp" "fingerprint_ok fp" using good by (auto simp: good_key_def)
  have look: "tx_lookup E (sx_trees st) i fp = Some (lo_uri l, lo_offset l, lo_length l)"
    using idx fp(1) by (simp add: session_index_def Let_def E_def key_print_def)
  have wj: "tx_writing E ks (?j, st)" using i(1) by (simp add: tx_writing_def tx_place_def)
  have members: "tx_files ?j = tx_files i" "ib_key (tx_base ?j) = ikey" "ib_type (tx_base ?j) = cx_type X" "tx_path ?j = ?path"
    "ib_timestamp (tx_base ?j) = sx_now st0" "ib_axes (tx_base ?j) = ib_axes (tx_base i)" "toc_dataPaths ?j = toc_dataPaths i"
    using i now by (simp_all add: toc_dataPaths_def)
  from record_loads [where preload = "cx_preload X" and garbage = "cx_garbage X" and v = v and toc = toc and remap = remap, OF s(1,2) [unfolded E_def] wj [unfolded E_def], unfolded members, folded E_def P_def,
      OF s(3,4) class_named [OF s(5)] s(6) i(8,7) s(8) i(6) s(7) out st5(1)]
  obtain j st6 where load: "\<forall>ls. load_view P ?load
      \<lparr>tv_record = make_record P v (th_version h) TOC_INDEX (index_record_items P ?j @ out), tv_directory = th_directory h, tv_tocPath = toc,
       tv_remapKey = remap, tv_subToc = None\<rparr> (ls, st5) = Inr (ls @ [\<lparr>ld_index = j, ld_inSubtoc = False, ld_remapKey = remap\<rparr>], st6)"
    and trees: "sx_trees st6 = sx_trees st5"
    and j: "tx_place j = tx_place ?j" "tx_readMode j" "tx_btree j = None" "us_paths (tx_files j) = us_paths (tx_files i)"
      "ib_type (tx_base j) = cx_type X" "key_dict (ib_key (tx_base j)) = key_dict ikey"
    and ax: "axis_ok (sx_world st6) (ib_axes (tx_base j))"
      "\<forall>k. axis_view (ie_dense E) (sx_world st6) (ib_axes (tx_base j)) k = axis_view (ie_dense E) (sx_world st1) (ib_axes (tx_base i)) k"
    by (elim exE conjE) blast
  have place: "tx_place ?j = tx_place i" by (simp add: tx_place_def)
  from toc_flush_step [OF i(1,2)] flush
  have kept: "\<forall>r fp. bl_get (ie_lib E) r (tx_place i) fp (sx_trees st1) = bl_get (ie_lib E) False (tx_place i) fp (sx_trees st)"
    "\<forall>a k. axis_view (ie_dense E) (sx_world st1) a k = axis_view (ie_dense E) (sx_world st) a k" by auto
  have "\<forall>fp. bl_get (ie_lib E) True (tx_place i) fp (sx_trees st6) = bl_get (ie_lib E) False (tx_place i) fp (sx_trees st)"
    using kept(1) frame_get [OF frame, of "tx_place i" True] trees st5(2) by simp
  moreover have "\<forall>k. axis_view (ie_dense E) (sx_world st6) (ib_axes (tx_base j)) k = axis_view (ie_dense E) (sx_world st) (ib_axes (tx_base i)) k"
    using ax(2) kept(2) by simp
  ultimately have finds: "mayContain (ie_ext E) (ie_dense E) (sx_world st6) (tx_base j) k = Inr True \<and>
    (\<exists>s dt. toc_index_open E j st6 = Inr (j\<lparr>tx_btree := Some c\<rparr>, st6\<lparr>sx_trees := s\<rparr>) \<and>
       tree_frame (ie_lib E) {} (sx_trees st6) s \<and>
       toc_index_get E s (j\<lparr>tx_btree := Some c\<rparr>) k remap = Inr (Some \<lparr>fd_location = new_location cl (lo_uri l) (lo_offset l) (lo_length l) remap,
         fd_timestamp = ib_timestamp (tx_base j), fd_details = dt\<rparr>))"
    using j s(5) place by (intro loaded_index_finds [OF i(1,9) fp look len cl _ _ _ _ _ ax(1)]) simp_all
  then obtain s dt where "toc_index_open E j st6 = Inr (j\<lparr>tx_btree := Some c\<rparr>, st6\<lparr>sx_trees := s\<rparr>)"
    "toc_index_get E (sx_trees (st6\<lparr>sx_trees := s\<rparr>)) (j\<lparr>tx_btree := Some c\<rparr>) k remap =
       Inr (Some \<lparr>fd_location = new_location cl (lo_uri l) (lo_offset l) (lo_length l) remap, fd_timestamp = ib_timestamp (tx_base j), fd_details = dt\<rparr>)"
    by auto
  moreover have "index_record_items P ?j = index_record_items P i" by (simp add: index_record_items_def)
  moreover have "fd_location \<lparr>fd_location = new_location cl (lo_uri l) (lo_offset l) (lo_length l) remap,
      fd_timestamp = ib_timestamp (tx_base j), fd_details = dt\<rparr> = new_location cl (lo_uri l) (lo_offset l) (lo_length l) remap" by simp
  ultimately show ?thesis using load j(6) finds unfolding key_eq_def by metis
qed

text \<open>Both halves of the writing put together: the record is visible behind the others.\<close>

lemma session_written:
  fixes X :: "('u :: linorder, 'd, 's) cat_env"
  defines "P \<equiv> cx_paths X" and "E \<equiv> cx_index X"
  assumes start: "session_start X h ikey c d rs n st"
    and good: "\<forall>(k, l) \<in> set (xs @ (k, l) # ys). good_key (ie_ext E) ks k \<and> lo_class l = TocLocation \<and> u_scheme (ie_uris E) (lo_uri l) \<noteq> ''unix''"
    and last: "\<forall>(j, m) \<in> set ys. key_print (ie_ext E) j \<noteq> key_print (ie_ext E) k" and "ks \<noteq> {}"
  shows "\<exists>w1 w2 w3 st1 st2 st3 i st' out. let r = make_record P (cx_toc X) (th_version h) TOC_INDEX (index_record_items P i @ out) in
    writer_selectIndex X ikey (new_writer h key, d, st) = Inr (w1, d, st1) \<and> archive_all X (xs @ (k, l) # ys) (w1, d, st1) = Inr (w2, d, st2) \<and>
    writer_flush X (w2, d, st2) = Inr (w3, append_records h [r] d, st3) \<and>
    session_index X h ikey ks k l (i, st2) \<and> sx_now st2 = sx_now st \<and>
    toc_index_flush E i st2 = Inr (i\<lparr>tx_base := (tx_base i)\<lparr>ib_timestamp := sx_now st2\<rparr>, tx_dirty := False\<rparr>, st') \<and>
    encode_toc_index E (sx_world st') (i\<lparr>tx_base := (tx_base i)\<lparr>ib_timestamp := sx_now st2\<rparr>, tx_dirty := False\<rparr>) (th_version h) = Inr out \<and>
    tree_frame (ie_lib E) {} (sx_trees st') (sx_trees st3) \<and> tr_tag r = TOC_INDEX \<and> record_ok r \<and>
    (\<forall>remap. toc_views P (append_records h [r] d) (init_key (hd rs)) (Suc n) (th_directory h) (th_tocPath h) remap =
      toc_views P d (init_key (hd rs)) (Suc n) (th_directory h) (th_tocPath h) remap @
      [\<lparr>tv_record = r, tv_directory = th_directory h, tv_tocPath = th_tocPath h, tv_remapKey = remap, tv_subToc = None\<rparr>])"
proof -
  let ?kls = "xs @ (k, l) # ys" and ?path = "first_index_path X h ikey"
  have s: "po_dir P ?path = th_directory h" "po_join P (th_directory h) (po_base P ?path) = ?path"
    "(po_base P ?path, 0) \<notin> masked_set P {} rs" "\<not> th_useSubToc h" "th_version h \<in> set supported_versions"
    "map_of (dk_tocs d) (th_tocPath h) = Some rs" "apart P d n (th_directory h) (th_tocPath h)"
    "toc_wf P d (init_key (hd rs)) (Suc n) (th_directory h) (th_tocPath h)"
    using start by (simp_all add: session_start_def Let_def P_def)
  have g: "\<forall>(k, l) \<in> set ?kls. good_key (ie_ext E) ks k \<and> lo_class l = TocLocation" and rs: "rs \<noteq> []"
    using good s(6,8) by (auto simp: toc_wf_records)
  have nonempty: "?kls \<noteq> []" by simp
  from session_writes [OF start nonempty g [unfolded E_def], folded E_def P_def, of key] obtain w1 w2 w3 st1 st2 st3 i st' out where
    wr: "writer_selectIndex X ikey (new_writer h key, d, st) = Inr (w1, d, st1)" "archive_all X ?kls (w1, d, st1) = Inr (w2, d, st2)"
    and fl: "writer_flush X (w2, d, st2) = Inr (w3, append_records h [make_record P (cx_toc X) (th_version h) TOC_INDEX (index_record_items P i @ out)] d, st3)"
    and put: "put_all E (map (\<lambda>(k, l). (k, archived_field (cx_garbage X) l)) ?kls) (fresh_index X ikey ?path c, st1) = Inr (i, st2)"
    and w0: "tx_writing E ks (fresh_index X ikey ?path c, st1)" "sx_now st1 = sx_now st"
    and fi: "toc_index_flush E i st2 = Inr (i\<lparr>tx_base := (tx_base i)\<lparr>ib_timestamp := sx_now st2\<rparr>, tx_dirty := False\<rparr>, st')"
    and out: "encode_toc_index E (sx_world st') (i\<lparr>tx_base := (tx_base i)\<lparr>ib_timestamp := sx_now st2\<rparr>, tx_dirty := False\<rparr>) (th_version h) = Inr out"
    and frame: "tree_frame (ie_lib E) {} (sx_trees st') (sx_trees st3)"
    and rec: "writeIndexRecord (cx_fuel X) P (cx_toc X) (ie_ext E) (cx_unique X (cw_calls w2) ''toc'')
      (index_record_of E (sx_world st') (i\<lparr>tx_base := (tx_base i)\<lparr>ib_timestamp := sx_now st2\<rparr>, tx_dirty := False\<rparr>)) (h, None) d =
      Inr ((h\<lparr>th_cache := None\<rparr>, None), append_records h [make_record P (cx_toc X) (th_version h) TOC_INDEX (index_record_items P i @ out)] d)"
    unfolding Let_def by (elim exE conjE) blast
  let ?r = "make_record P (cx_toc X) (th_version h) TOC_INDEX (index_record_items P i @ out)"
  from session_puts [OF good [unfolded E_def] last [unfolded E_def] \<open>ks \<noteq> {}\<close> w0(1) [unfolded E_def] put [unfolded E_def] s(1) [unfolded P_def]] w0(2)
  have idx: "session_index X h ikey ks k l (i, st2)" and now: "sx_now st2 = sx_now st" by simp_all
  have place: "tx_path i = ?path" "tx_offset i = 0" using idx by (simp_all add: session_index_def Let_def tx_place_def)
  have built: "build_index_record P (cx_toc X) (th_version h) (index_record_of E (sx_world st')
      (i\<lparr>tx_base := (tx_base i)\<lparr>ib_timestamp := sx_now st2\<rparr>, tx_dirty := False\<rparr>)) = Inr ?r"
    using out by (simp add: build_index_record_def index_record_of_def index_record_items_def)
  have free: "(po_base P (po_join P (th_directory h) (po_base P (ir_path (index_record_of E (sx_world st')
      (i\<lparr>tx_base := (tx_base i)\<lparr>ib_timestamp := sx_now st2\<rparr>, tx_dirty := False\<rparr>))))),
      ir_offset (index_record_of E (sx_world st') (i\<lparr>tx_base := (tx_base i)\<lparr>ib_timestamp := sx_now st2\<rparr>, tx_dirty := False\<rparr>))) \<notin> masked_set P {} rs"
    using s(2,3) place by (simp add: index_record_of_def)
  have views: "toc_views P (append_records h [?r] d) (init_key (hd rs)) (Suc n) (th_directory h) (th_tocPath h) remap =
      toc_views P d (init_key (hd rs)) (Suc n) (th_directory h) (th_tocPath h) remap @
      [\<lparr>tv_record = ?r, tv_directory = th_directory h, tv_tocPath = th_tocPath h, tv_remapKey = remap, tv_subToc = None\<rparr>]" for remap
    using write_index_views [OF s(6) rs s(7,4) rec free, of "init_key (hd rs)" remap] built by auto
  have "tr_tag ?r = TOC_INDEX" "record_ok ?r"
    using s(5) by (simp_all add: make_record_def record_ok_def index_record_items_def)
  then show ?thesis using wr fl idx now fi out frame views unfolding Let_def by blast
qed

section \<open>The session\<close>

text \<open>
  What is archived and flushed is retrieved. A new writer of a database selects an index, archives
  fields under keys with the same keywords, and flushes: every step succeeds. A reader that is made
  afterwards, in another process with its own registry of axes, loads the database whenever it
  could load it before, selects the index, and its \<open>retrieve\<close> of a key returns the URI, the offset and
  the length of the field that was archived last under the values of the key, remapped as the reader is.
  Older indexes of the database, sub tocs and mounted databases may hold the same key: the new field wins.
\<close>
lemma session_retrieves:
  fixes X :: "('u :: linorder, 'd, 's) cat_env"
  assumes start: "session_start X h ikey c d rs n st"
    and good: "\<forall>(k, l) \<in> set (xs @ (k, l) # ys). good_key (cx_ext X) ks k \<and> lo_class l = TocLocation \<and>
      u_scheme (ie_uris (cx_index X)) (lo_uri l) \<noteq> ''unix''"
    and last: "\<forall>(j, m) \<in> set ys. key_print (cx_ext X) j \<noteq> key_print (cx_ext X) k" and "ks \<noteq> {}"
    and len: "lo_length l \<noteq> 0"
    and cl: "map_of (ie_builders (cx_index X)) (u_scheme (ie_uris (cx_index X)) (lo_uri l)) = Some cl"
    and hr: "th_cache hr = None" "key_empty (th_parentKey hr)" "th_directory hr = th_directory h" "th_tocPath hr = th_tocPath h"
  shows "\<exists>w1 st1 w2 st2 w3 d' st3. writer_selectIndex X ikey (new_writer h key, d, st) = Inr (w1, d, st1) \<and>
    archive_all X (xs @ (k, l) # ys) (w1, d, st1) = Inr (w2, d, st2) \<and> writer_flush X (w2, d, st2) = Inr (w3, d', st3) \<and>
    (\<forall>st4. world_ok (sx_world st4) \<and> sx_trees st4 = sx_trees st3 \<longrightarrow>
      (\<exists>N. \<forall>m \<ge> N. \<forall>r0 st5. loadIndexesAndRemap (X\<lparr>cx_fuel := m\<rparr>) d hr st4 = Inr (r0, st5) \<longrightarrow>
        (\<exists>r st6 r' st7 ts dt. loadIndexesAndRemap (X\<lparr>cx_fuel := m\<rparr>) d' hr st4 = Inr (r, st6) \<and>
           fst (reader_selectIndex ikey r) \<and>
           reader_retrieve X k (snd (reader_selectIndex ikey r)) st6 =
             Inr (Some \<lparr>fd_location = new_location cl (lo_uri l) (lo_offset l) (lo_length l) (th_remapKey hr),
                        fd_timestamp = ts, fd_details = dt\<rparr>, r', st7))))"
proof -
  let ?E = "cx_index X" and ?P = "cx_paths X" and ?load = "toc_index_of_stream (cx_index X) (cx_preload X) (cx_garbage X)"
  have gk: "good_key (ie_ext ?E) ks k" using good by auto
  have nonempty: "\<not> key_empty ikey" using start by (simp add: session_start_def Let_def)
  from session_written [OF start good last \<open>ks \<noteq> {}\<close>, of key] obtain w1 w2 w3 st1 st2 st3 i st' out where
    wr: "writer_selectIndex X ikey (new_writer h key, d, st) = Inr (w1, d, st1)" "archive_all X (xs @ (k, l) # ys) (w1, d, st1) = Inr (w2, d, st2)"
    and fl: "writer_flush X (w2, d, st2) = Inr (w3, append_records h [make_record ?P (cx_toc X) (th_version h) TOC_INDEX (index_record_items ?P i @ out)] d, st3)"
    and idx: "session_index X h ikey ks k l (i, st2)" "sx_now st2 = sx_now st"
    and fi: "toc_index_flush ?E i st2 = Inr (i\<lparr>tx_base := (tx_base i)\<lparr>ib_timestamp := sx_now st2\<rparr>, tx_dirty := False\<rparr>, st')"
    and out: "encode_toc_index ?E (sx_world st') (i\<lparr>tx_base := (tx_base i)\<lparr>ib_timestamp := sx_now st2\<rparr>, tx_dirty := False\<rparr>) (th_version h) = Inr out"
    and frame: "tree_frame (ie_lib ?E) {} (sx_trees st') (sx_trees st3)"
    and r: "tr_tag (make_record ?P (cx_toc X) (th_version h) TOC_INDEX (index_record_items ?P i @ out)) = TOC_INDEX"
      "record_ok (make_record ?P (cx_toc X) (th_version h) TOC_INDEX (index_record_items ?P i @ out))"
    and views: "\<And>remap. toc_views ?P (append_records h [make_record ?P (cx_toc X) (th_version h) TOC_INDEX (index_record_items ?P i @ out)] d)
        (init_key (hd rs)) (Suc n) (th_directory h) (th_tocPath h) remap =
      toc_views ?P d (init_key (hd rs)) (Suc n) (th_directory h) (th_tocPath h) remap @
      [\<lparr>tv_record = make_record ?P (cx_toc X) (th_version h) TOC_INDEX (index_record_items ?P i @ out), tv_directory = th_directory h,
        tv_tocPath = th_tocPath h, tv_remapKey = remap, tv_subToc = None\<rparr>]"
    unfolding Let_def by (elim exE conjE) blast
  let ?r = "make_record ?P (cx_toc X) (th_version h) TOC_INDEX (index_record_items ?P i @ out)"
  have "\<exists>N. \<forall>m \<ge> N. \<forall>r0 st5. loadIndexesAndRemap (X\<lparr>cx_fuel := m\<rparr>) d hr st4 = Inr (r0, st5) \<longrightarrow>
        (\<exists>r st6 r' st7 ts dt. loadIndexesAndRemap (X\<lparr>cx_fuel := m\<rparr>) (append_records h [?r] d) hr st4 = Inr (r, st6) \<and>
           fst (reader_selectIndex ikey r) \<and>
           reader_retrieve X k (snd (reader_selectIndex ikey r)) st6 =
             Inr (Some \<lparr>fd_location = new_location cl (lo_uri l) (lo_offset l) (lo_length l) (th_remapKey hr),
                        fd_timestamp = ts, fd_details = dt\<rparr>, r', st7))"
    if st4: "world_ok (sx_world st4)" "sx_trees st4 = sx_trees st3" for st4
  proof -
    from reader_loads_more [OF start r views hr st4(1)] obtain N where
      N: "\<forall>m \<ge> N. \<forall>r0 st5. loadIndexesAndRemap (X\<lparr>cx_fuel := m\<rparr>) d hr st4 = Inr (r0, st5) \<longrightarrow>
        world_ok (sx_world st5) \<and> sx_trees st5 = sx_trees st4 \<and>
        (\<forall>ls j st6. (\<forall>ls. load_view ?P ?load \<lparr>tv_record = ?r, tv_directory = th_directory h, tv_tocPath = th_tocPath h,
            tv_remapKey = th_remapKey hr, tv_subToc = None\<rparr> (ls, st5) = Inr (ls @ [j], st6)) \<longrightarrow>
          (\<exists>r1. loadIndexesAndRemap (X\<lparr>cx_fuel := m\<rparr>) (append_records h [?r] d) hr st4 = Inr (r1, st6) \<and>
             cr_current r1 = new_key None \<and> (\<exists>rest. cr_indexes r1 = (ld_index j, ld_remapKey j) # rest)))" ..
    have finds: "\<exists>r st6 r' st7 ts dt. loadIndexesAndRemap (X\<lparr>cx_fuel := m\<rparr>) (append_records h [?r] d) hr st4 = Inr (r, st6) \<and>
           fst (reader_selectIndex ikey r) \<and>
           reader_retrieve X k (snd (reader_selectIndex ikey r)) st6 =
             Inr (Some \<lparr>fd_location = new_location cl (lo_uri l) (lo_offset l) (lo_length l) (th_remapKey hr),
                        fd_timestamp = ts, fd_details = dt\<rparr>, r', st7)"
      if old: "m \<ge> N" "loadIndexesAndRemap (X\<lparr>cx_fuel := m\<rparr>) d hr st4 = Inr (r0, st5)" for m r0 st5
    proof -
      note st5 = N [rule_format, OF old]
      from st5 st4 have "world_ok (sx_world st5)" "sx_trees st5 = sx_trees st3" by auto
      from session_reads [where v = "cx_toc X" and toc = "th_tocPath h" and remap = "th_remapKey hr",
          OF idx(1) start idx(2) gk len cl fi out frame this]
      obtain j st6 j' st7 f where load: "\<forall>ls. load_view ?P ?load \<lparr>tv_record = ?r, tv_directory = th_directory h, tv_tocPath = th_tocPath h,
            tv_remapKey = th_remapKey hr, tv_subToc = None\<rparr> (ls, st5) = Inr (ls @ [\<lparr>ld_index = j, ld_inSubtoc = False, ld_remapKey = th_remapKey hr\<rparr>], st6)"
        and j: "key_eq (ib_key (tx_base j)) ikey" "mayContain (cx_ext X) (ie_dense ?E) (sx_world st6) (tx_base j) k = Inr True"
          "toc_index_open ?E j st6 = Inr (j', st7)" "toc_index_get ?E (sx_trees st7) j' k (th_remapKey hr) = Inr (Some f)"
        and f: "fd_location f = new_location cl (lo_uri l) (lo_offset l) (lo_length l) (th_remapKey hr)" by blast
      obtain r1 rest where r1: "loadIndexesAndRemap (X\<lparr>cx_fuel := m\<rparr>) (append_records h [?r] d) hr st4 = Inr (r1, st6)"
        "cr_current r1 = new_key None" "cr_indexes r1 = (j, th_remapKey hr) # rest"
        using st5 load by fastforce
      have "\<not> key_eq (cr_current r1) ikey" using r1(2) nonempty by (auto simp: key_eq_def key_empty_def new_key_def)
      from retrieve_first [OF r1(3) this j] obtain r' where "fst (reader_selectIndex ikey r1)"
        "reader_retrieve X k (snd (reader_selectIndex ikey r1)) st6 = Inr (Some f, r', st7)" by blast
      moreover have "f = \<lparr>fd_location = new_location cl (lo_uri l) (lo_offset l) (lo_length l) (th_remapKey hr),
                        fd_timestamp = fd_timestamp f, fd_details = fd_details f\<rparr>" using f by simp
      ultimately show ?thesis using r1(1) by metis
    qed
    show ?thesis by (rule exI [of _ N], intro allI impI) (rule finds)
  qed
  then show ?thesis using wr fl by blast
qed

text \<open>A database with its first record only, over the reference libraries.\<close>

definition session_env :: "(string, string list, ref_trees) cat_env" where
  "session_env = \<lparr>cx_index = sample_index_env, cx_fuel = 3, cx_toc = sample_env, cx_unique = (\<lambda>n p. p),
     cx_type = ''BTreeIndex'', cx_garbage = 5, cx_preload = False\<rparr>"

definition session_disk :: disk where
  "session_disk = \<lparr>dk_tocs = [(''/db/toc'', [sample_init ''od''])], dk_files = [''/db'']\<rparr>"

definition session_stores :: "(string list, ref_trees) stores" where
  "session_stores = \<lparr>sx_world = sample_world, sx_trees = [], sx_now = 99\<rparr>"

definition session_location :: "int \<Rightarrow> string location" where
  "session_location off = new_location TocLocation ''/db/a.data'' off 7 (new_key None)"

lemma session_env_members [simp]:
  "cx_index session_env = sample_index_env" "cx_toc session_env = sample_env" "cx_type session_env = ''BTreeIndex''"
  "ie_paths sample_index_env = sample_paths" "cx_unique session_env n p = p" "cx_fuel session_env = 3"
  by (simp_all add: session_env_def sample_index_env_def)

lemma session_toc:
  "map_of (dk_tocs session_disk) ''/db/toc'' = Some [sample_init ''od'']" "toc_content session_disk ''/db/toc'' = [sample_init ''od'']"
  "masked_set P {} [sample_init ''od''] = {}"
  by (simp_all add: session_disk_def toc_content_def clears_def sample_init_def sample_record_def)

lemma od_key_facts:
  "valuesToString ref_ext (od_dict_key ''od'') = Inr ''od''" "key_ok (od_dict_key ''od'')" "\<not> key_empty (od_dict_key ''od'')"
  "canonicalise e (od_dict_key ''od'') n v = Inr v" "key_print ref_ext (od_dict_key ''od'') = ''od''"
proof -
  show "valuesToString ref_ext (od_dict_key ''od'') = Inr ''od''"
    by (simp add: valuesToString_def od_dict_key_def canonicalValue_def key_value_def key_find_def canonicalise_def)
  then show "key_print ref_ext (od_dict_key ''od'') = ''od''" by (simp add: key_print_def)
qed (simp_all add: od_dict_key_def key_ok_def key_empty_def dict_ok_def canonicalise_def)

lemma session_sample_start:
  "session_start session_env sample_handler (od_dict_key ''od'') tree_32_65536_reduced session_disk [sample_init ''od''] 0 session_stores"
proof -
  have path: "first_index_path session_env sample_handler (od_dict_key ''od'') = ''/db/od.index''"
    by (simp add: first_index_path_def od_key_facts sample_facts sample_paths_def)
  have dirs: "po_dir sample_paths ''/db/od.index'' = ''/db''" "po_base sample_paths ''/db/od.index'' = ''od.index''"
    "po_join sample_paths ''/db'' ''od.index'' = ''/db/od.index''"
    by (simp_all add: sample_paths_def)
  have user: "checkUID 3 sample_paths sample_env session_disk sample_handler = Inr sample_handler"
    by (simp add: checkUID_def sample_env_def)
  have version: "th_version sample_handler \<in> set supported_versions"
    by (simp add: sample_handler_def supported_versions_def)
  have wf: "toc_wf sample_paths session_disk (od_dict_key ''od'') (Suc 0) ''/db'' ''/db/toc''"
    by (simp add: toc_wf_records session_toc sample_init_key)
  have "apart sample_paths session_disk 0 ''/db'' ''/db/toc''" by (simp add: apart_def session_toc)
  moreover have "\<exists>ks. encode_key ref_ext (od_dict_key ''od'') = Inr ks"
    using encode_canonical [of "od_dict_key ''od''"] by (simp add: od_dict_key_def)
  moreover have "map_of tree_classes ''BTreeIndex'' = Some tree_32_65536_reduced" by (simp add: tree_classes_def)
  ultimately show ?thesis
    using wf user version ref_btree_laws ref_dense_laws ref_uri_laws
    by (simp add: session_start_def Let_def path dirs sample_facts session_toc od_key_facts sample_init_key session_stores_def
        del: masked_set.simps)
qed

lemma session_loads:
  "\<exists>N r0. \<forall>m \<ge> N. loadIndexesAndRemap (session_env\<lparr>cx_fuel := m\<rparr>) session_disk sample_handler st = Inr (r0, st)"
proof -
  let ?load = "toc_index_of_stream sample_index_env (cx_preload session_env) (cx_garbage session_env)"
  have views: "toc_views sample_paths session_disk (od_dict_key ''od'') (Suc 0) ''/db'' ''/db/toc'' (new_key None) = []"
    by (simp add: toc_views_records session_toc Let_def)
  have "toc_wf sample_paths session_disk (od_dict_key ''od'') (Suc 0) ''/db'' ''/db/toc''"
    by (simp add: toc_wf_records session_toc sample_init_key)
  with load_all_views [of sample_handler session_disk "[sample_init ''od'']" sample_paths "Suc 0" ?load st] od_key_facts(3) views
  obtain N h' where "\<And>m. m \<ge> N \<Longrightarrow> loadIndexes m sample_paths session_disk ?load sample_handler st = Inr ([], {}, h', st)"
    by (auto simp: sample_facts session_toc sample_init_key view_subTocs_def)
  then have "\<forall>m \<ge> N. loadIndexesAndRemap (session_env\<lparr>cx_fuel := m\<rparr>) session_disk sample_handler st =
      Inr (\<lparr>cr_handler = h', cr_indexes = [], cr_matching = [], cr_current = new_key None\<rparr>, st)"
    by (simp add: loadIndexesAndRemap_def)
  then show ?thesis by blast
qed

text \<open>
  \<open>reconsolidateIndexesAndTocs\<close> cannot work on a database with data: its visitor is never told of the
  catalogue, so that the first entry of an index that it visits fails the assertion
  \<open>currentCatalogue_\<close> of \<open>EntryVisitor::visitDatum\<close>.
\<close>
lemma reconsolidate_asserts:
  assumes "writer_selectIndex X (ib_key (tx_base (ld_index l))) (w, d, st) = Inr (w1, d1, st1)"
    and "toc_index_open (cx_index X) (ld_index l) st1 = Inr (i, st2)" and "tx_btree i = Some c"
    and "tree_visit (ie_lib (cx_index X)) c (tx_readMode i) (tx_place i) (sx_trees st2) = (fingerprint, ref) # entries"
    and "location_of_ref (tx_files i) ref = Inr loc"
  shows "consolidate_index X l (new_visitor, w, d, st) = Inl (AssertFailed ''currentCatalogue_'') \<and>
    foldE (consolidate_index X) (l # ls) (new_visitor, w, d, st) = Inl (AssertFailed ''currentCatalogue_'')"
proof -
  have "visited_key (cx_ext X) (snd (visitIndex b new_visitor)) fingerprint = Inl (AssertFailed ''currentCatalogue_'')" for b
    by (simp add: visited_key_def visitIndex_def new_visitor_def)
  then have "consolidate_index X l (new_visitor, w, d, st) = Inl (AssertFailed ''currentCatalogue_'')"
    using assms by (simp add: consolidate_index_def Let_def toc_index_entries_def)
  then show ?thesis by simp
qed

definition entry_ref :: field_ref where
  "entry_ref = \<lparr>fr_uriId = 0, fr_offset = 0, fr_length = 7, fr_details = new_details\<rparr>"

text \<open>An index with one entry, open for reading.\<close>

definition entry_index :: "string toc_index" where
  "entry_index = \<lparr>tx_files = \<lparr>us_next = 1, us_readOnly = True, us_directory = ''/db'', us_paths = [(0, ''/db/a.data'')], us_ids = []\<rparr>,
     tx_base = new_base 5 (od_dict_key ''od'') ''BTreeIndex'', tx_btree = Some tree_32_65536_reduced, tx_dirty = False,
     tx_readMode = True, tx_path = ''/db/i'', tx_offset = 0, tx_preload = False\<rparr>"

definition entry_stores :: "(string list, ref_trees) stores" where
  "entry_stores = \<lparr>sx_world = sample_world, sx_trees = [((''/db/i'', 0), ([], [(''12'', entry_ref)]))], sx_now = 99\<rparr>"

lemma reconsolidate_asserts_witness:
  "consolidate_index session_env \<lparr>ld_index = entry_index, ld_inSubtoc = False, ld_remapKey = new_key None\<rparr>
     (new_visitor, new_writer sample_handler (od_dict_key ''od''), session_disk, entry_stores) = Inl (AssertFailed ''currentCatalogue_'')"
proof -
  let ?l = "\<lparr>ld_index = entry_index, ld_inSubtoc = False, ld_remapKey = new_key None\<rparr>"
  have path: "first_index_path session_env sample_handler (od_dict_key ''od'') = ''/db/od.index''"
    by (simp add: first_index_path_def od_key_facts sample_facts sample_paths_def)
  have tree: "map_of tree_classes (cx_type session_env) = Some tree_32_65536_reduced" by (simp add: tree_classes_def)
  have key: "ib_key (tx_base (ld_index ?l)) = od_dict_key ''od''" by (simp add: entry_index_def new_base_def)
  from select_opens [of session_env "od_dict_key ''od''" "''od''" sample_handler tree_32_65536_reduced entry_stores]
  obtain w s where sel: "writer_selectIndex session_env (od_dict_key ''od'') (new_writer sample_handler (od_dict_key ''od''), session_disk, entry_stores) =
      Inr (w, session_disk, entry_stores\<lparr>sx_trees := s\<rparr>)" and frame: "tree_frame ref_btree_lib {} (sx_trees entry_stores) s"
    using ref_btree_laws ref_dense_laws tree od_key_facts(1) sample_facts(6) path by (fastforce simp: entry_stores_def)
  have open_tree: "toc_index_open (cx_index session_env) (ld_index ?l) (entry_stores\<lparr>sx_trees := s\<rparr>) = Inr (entry_index, entry_stores\<lparr>sx_trees := s\<rparr>)"
    "tx_btree entry_index = Some tree_32_65536_reduced"
    by (simp_all add: toc_index_open_def entry_index_def)
  have "bl_get ref_btree_lib True (''/db/i'', 0) k s = bl_get ref_btree_lib True (''/db/i'', 0) k (sx_trees entry_stores)" for k
    using frame_get [OF frame] by blast
  then have "set (bl_range ref_btree_lib True (''/db/i'', 0) [] range_end s) = {(''12'', entry_ref)}"
    unfolding range_get [OF ref_btree_laws]
    by (auto simp: entry_stores_def ref_tree_def range_end_def less_char_def split: if_splits)
  then obtain rest where "bl_range ref_btree_lib True (''/db/i'', 0) [] range_end s = (''12'', entry_ref) # rest"
    by (cases "bl_range ref_btree_lib True (''/db/i'', 0) [] range_end s") auto
  then have visit: "tree_visit (ie_lib (cx_index session_env)) tree_32_65536_reduced (tx_readMode entry_index) (tx_place entry_index)
      (sx_trees (entry_stores\<lparr>sx_trees := s\<rparr>)) = (''12'', reduce_ref entry_ref) # map (\<lambda>(k, v). (k, reduce_ref v)) rest"
    by (simp add: tree_visit_def entry_index_def tx_place_def tree_32_65536_reduced_def)
  have "\<exists>loc. location_of_ref (tx_files entry_index) (reduce_ref entry_ref) = Inr loc"
    by (simp add: location_of_ref_def uri_get_def entry_index_def entry_ref_def)
  then obtain loc where loc: "location_of_ref (tx_files entry_index) (reduce_ref entry_ref) = Inr loc" by blast
  show ?thesis
    using reconsolidate_asserts [where l = ?l and X = session_env and ls = "[]", unfolded key, OF sel open_tree visit loc] by blast
qed

end
