(* ===== verification/FDB_Store.thy ===== *)
theory FDB_Store
  imports FDB_Field FDB_Toc "HOL-Library.Product_Lexorder"
begin

text \<open>
  The data files: the file handle of \<open>src/fdb5/io/FDBFileHandle.cc\<close>, the store
  \<open>src/fdb5/toc/TocStore.cc\<close> that appends the data of the fields to files, the handles that read them
  back (\<open>TocFieldLocation::dataHandle\<close>, \<open>src/fdb5/io/SingleGribMungePartFileHandle.cc\<close>), and the gathering
  of handles (\<open>src/fdb5/io/HandleGatherer.cc\<close>). A file is its bytes; what a \<open>FILE\<close> has buffered is not in
  the file yet, and how much of the buffer \<open>fwrite\<close> lets out at any time is arbitrary.
\<close>

section \<open>Files and file handles\<close>

type_synonym bytes = "8 word list"

type_synonym byte_files = "(string, bytes) dict"

text \<open>
  Whether \<open>fopen\<close> can open a file for appending, how many of the buffered bytes \<open>fwrite\<close> writes out, and
  \<open>PathName::unique\<close> of its call number. That a write fails for want of space is not modelled.
\<close>

record store_env =
  se_canOpen :: "string \<Rightarrow> bool"
  se_spill :: "bytes \<Rightarrow> nat"
  se_unique :: "nat \<Rightarrow> string \<Rightarrow> string"

definition content :: "byte_files \<Rightarrow> string \<Rightarrow> bytes" where
  "content fs path = (case map_of fs path of None \<Rightarrow> [] | Some b \<Rightarrow> b)"

text \<open>\<open>file_\<close>, with what is in its buffer, and \<open>pos_\<close>.\<close>

record file_handle =
  fh_file :: "bytes option"
  fh_pos :: nat

definition new_file_handle :: file_handle where
  "new_file_handle = \<lparr>fh_file = None, fh_pos = 0\<rparr>"

type_synonym 'a handle_step = "(file_handle \<times> byte_files, 'a) step"

definition handle_openForAppend :: "store_env \<Rightarrow> string \<Rightarrow> unit handle_step" where
  "handle_openForAppend E path = (\<lambda>(h, fs).
     if fh_file h \<noteq> None then (Inl (AssertFailed ''!file_''), (h, fs))
     else if \<not> se_canOpen E path then (Inl (IOError path), (h, fs))
     else (Inr (), (\<lparr>fh_file = Some [], fh_pos = length (content fs path)\<rparr>, dict_put path (content fs path) fs)))"

definition handle_write :: "store_env \<Rightarrow> string \<Rightarrow> bytes \<Rightarrow> nat handle_step" where
  "handle_write E path data = (\<lambda>(h, fs).
     case fh_file h of
       None \<Rightarrow> (Inl (AssertFailed ''file_''), (h, fs))
     | Some buf \<Rightarrow>
         (let b = buf @ data; n = se_spill E b
          in (Inr (length data),
              (\<lparr>fh_file = Some (drop n b), fh_pos = fh_pos h + length data\<rparr>,
               dict_put path (content fs path @ take n b) fs))))"

text \<open>\<open>fflush\<close>, \<open>fdatasync\<close>, and the assertion that the position is the end of the file.\<close>

definition handle_flush :: "string \<Rightarrow> unit handle_step" where
  "handle_flush path = (\<lambda>(h, fs).
     case fh_file h of
       None \<Rightarrow> (Inr (), (h, fs))
     | Some buf \<Rightarrow>
         (let c = content fs path @ buf
          in (if fh_pos h = length c then Inr () else Inl (AssertFailed ''pos_ == current''),
              (h\<lparr>fh_file := Some []\<rparr>, dict_put path c fs))))"

definition handle_close :: "string \<Rightarrow> unit handle_step" where
  "handle_close path = (\<lambda>(h, fs).
     case fh_file h of
       None \<Rightarrow> (Inr (), (h, fs))
     | Some buf \<Rightarrow> (Inr (), (\<lparr>fh_file = None, fh_pos = 0\<rparr>, dict_put path (content fs path @ buf) fs)))"

section \<open>The store\<close>

record toc_store =
  ts_directory :: string
  ts_dirty :: bool
  ts_handles :: "(string, file_handle) dict"
  ts_paths :: "((string, string) dict, string) dict"
  ts_calls :: nat

definition new_toc_store :: "string \<Rightarrow> toc_store" where
  "new_toc_store directory =
     \<lparr>ts_directory = directory, ts_dirty = False, ts_handles = [], ts_paths = [], ts_calls = 0\<rparr>"

type_synonym 'a store_step = "(toc_store \<times> byte_files, 'a) step"

definition generateDataPath :: "store_env \<Rightarrow> ext \<Rightarrow> path_ops \<Rightarrow> key \<Rightarrow> toc_store \<Rightarrow> (string \<times> toc_store) res" where
  "generateDataPath E e P key s =
     bindE (valuesToString e key) (\<lambda>vs.
       Inr (se_unique E (ts_calls s) (po_join P (ts_directory s) vs) @ ''.data'', s\<lparr>ts_calls := Suc (ts_calls s)\<rparr>))"

definition getDataPath :: "store_env \<Rightarrow> ext \<Rightarrow> path_ops \<Rightarrow> key \<Rightarrow> string store_step" where
  "getDataPath E e P key = (\<lambda>(s, fs).
     case map_of (ts_paths s) (key_dict key) of
       Some p \<Rightarrow> (Inr p, (s, fs))
     | None \<Rightarrow>
         (case generateDataPath E e P key s of
            Inl err \<Rightarrow> (Inl err, (s, fs))
          | Inr (p, s) \<Rightarrow> (Inr p, (s\<lparr>ts_paths := dict_put (key_dict key) p (ts_paths s)\<rparr>, fs))))"

text \<open>What an operation of the handle of a path does to the store.\<close>

definition on_handle :: "string \<Rightarrow> 'a handle_step \<Rightarrow> 'a store_step" where
  "on_handle path f = (\<lambda>(s, fs).
     case map_of (ts_handles s) path of
       None \<Rightarrow> (Inl (UndefinedBehaviour ''no handle''), (s, fs))
     | Some h \<Rightarrow>
         (case f (h, fs) of (r, (h, fs)) \<Rightarrow> (r, (s\<lparr>ts_handles := dict_put path h (ts_handles s)\<rparr>, fs))))"

text \<open>The new handle is kept before it is opened.\<close>

definition getDataHandle :: "store_env \<Rightarrow> string \<Rightarrow> unit store_step" where
  "getDataHandle E path = (\<lambda>(s, fs).
     case map_of (ts_handles s) path of
       Some h \<Rightarrow> (Inr (), (s, fs))
     | None \<Rightarrow>
         on_handle path (handle_openForAppend E path)
           (s\<lparr>ts_handles := dict_put path new_file_handle (ts_handles s)\<rparr>, fs))"

definition handle_position :: "string \<Rightarrow> nat store_step" where
  "handle_position path = (\<lambda>(s, fs).
     case map_of (ts_handles s) path of
       None \<Rightarrow> (Inl (UndefinedBehaviour ''no handle''), (s, fs))
     | Some h \<Rightarrow> (Inr (fh_pos h), (s, fs)))"

definition store_archive :: "store_env \<Rightarrow> ext \<Rightarrow> path_ops \<Rightarrow> 'u uri_ops \<Rightarrow> key \<Rightarrow> bytes \<Rightarrow> 'u location store_step" where
  "store_archive E e P U key data =
     bindS (\<lambda>(s, fs). (Inr (), (s\<lparr>ts_dirty := True\<rparr>, fs))) (\<lambda>_.
     bindS (getDataPath E e P key) (\<lambda>path.
     bindS (getDataHandle E path) (\<lambda>_.
     bindS (handle_position path) (\<lambda>position.
     bindS (on_handle path (handle_write E path data)) (\<lambda>len.
     bindS (liftS (assertE (len = length data) ''len == length'')) (\<lambda>_.
       retS (new_location TocLocation (u_file U path) (int position) (int (length data)) (new_key None))))))))"

text \<open>\<open>flushDataHandles\<close> and \<open>closeDataHandles\<close>: the handles in the order of their paths.\<close>

fun each_handle :: "(string \<Rightarrow> unit handle_step) \<Rightarrow> string list \<Rightarrow> unit store_step" where
  "each_handle f [] = retS ()"
| "each_handle f (p # ps) = bindS (on_handle p (f p)) (\<lambda>_. each_handle f ps)"

definition store_flush :: "unit store_step" where
  "store_flush = (\<lambda>(s, fs).
     if \<not> ts_dirty s then (Inr (), (s, fs))
     else bindS (each_handle handle_flush (dict_keys (ts_handles s))) (\<lambda>_.
            (\<lambda>(s, fs). (Inr (), (s\<lparr>ts_dirty := False\<rparr>, fs)))) (s, fs))"

definition store_close :: "unit store_step" where
  "store_close = (\<lambda>(s, fs).
     bindS (each_handle handle_close (dict_keys (ts_handles s))) (\<lambda>_.
       (\<lambda>(s, fs). (Inr (), (s\<lparr>ts_handles := []\<rparr>, fs)))) (s, fs))"

text \<open>\<open>remove(uri)\<close> with \<open>doit\<close>, for a path that is a file.\<close>

definition store_remove_file :: "'u uri_ops \<Rightarrow> 'u \<Rightarrow> bool \<Rightarrow> byte_files \<Rightarrow> byte_files res" where
  "store_remove_file U uri doit fs =
     bindE (assertE (u_scheme U uri = ''file'') ''uri.scheme() == type()'') (\<lambda>_.
       Inr (if doit then dict_erase (u_path U uri) fs else fs))"

section \<open>Reading\<close>

text \<open>
  \<open>PathName::partHandle(offset, length)\<close> of the library reads that part of the file; a part that is not
  there is an error.
\<close>

definition read_part :: "byte_files \<Rightarrow> string \<Rightarrow> int \<Rightarrow> int \<Rightarrow> bytes res" where
  "read_part fs path offset len =
     (case map_of fs path of
        None \<Rightarrow> Inl (IOError path)
      | Some c \<Rightarrow>
          (if 0 \<le> offset \<and> 0 \<le> len \<and> offset + len \<le> int (length c)
           then Inr (take (nat len) (drop (nat offset) c)) else Inl (IOError ''ReadError'')))"

text \<open>
  \<open>SingleGribMungePartFileHandle::read(buffer, length)\<close>: the first read converts the message; \<open>munge\<close> is
  the substitution of the values by the library eccodes. The end is that of the original length.
\<close>

record grib_handle =
  gh_path :: string
  gh_offset :: int
  gh_length :: int
  gh_substitute :: key
  gh_pos :: int
  gh_buffer :: "bytes option"

definition new_grib_handle :: "string \<Rightarrow> int \<Rightarrow> int \<Rightarrow> key \<Rightarrow> grib_handle" where
  "new_grib_handle path offset len substitute =
     \<lparr>gh_path = path, gh_offset = offset, gh_length = len, gh_substitute = substitute, gh_pos = 0, gh_buffer = None\<rparr>"

definition grib_read ::
    "(key \<Rightarrow> bytes \<Rightarrow> bytes res) \<Rightarrow> byte_files \<Rightarrow> int \<Rightarrow> grib_handle \<Rightarrow> (bytes \<times> grib_handle) res"
where
  "grib_read munge fs want g =
     bindE (case gh_buffer g of
              Some b \<Rightarrow> Inr (b, g)
            | None \<Rightarrow>
                bindE (read_part fs (gh_path g) (gh_offset g) (gh_length g)) (\<lambda>m.
                bindE (munge (gh_substitute g) m) (\<lambda>b. Inr (b, g\<lparr>gh_buffer := Some b, gh_pos := 0\<rparr>)))) (\<lambda>(b, g).
       if gh_pos g < gh_length g then
         (let n = min (gh_length g - gh_pos g) want
          in if gh_pos g + n \<le> int (length b)
             then Inr (take (nat n) (drop (nat (gh_pos g)) b), g\<lparr>gh_pos := gh_pos g + n\<rparr>)
             else Inl (UndefinedBehaviour ''memcpy beyond the message''))
       else Inr ([], g))"

text \<open>All the data of a location, read in one go.\<close>

definition location_data :: "(key \<Rightarrow> bytes \<Rightarrow> bytes res) \<Rightarrow> 'u uri_ops \<Rightarrow> byte_files \<Rightarrow> 'u location \<Rightarrow> bytes res" where
  "location_data munge U fs l =
     (let path = u_path U (lo_uri l)
      in if key_empty (lo_remapKey l) then read_part fs path (lo_offset l) (lo_length l)
         else bindE (grib_read munge fs (lo_length l) (new_grib_handle path (lo_offset l) (lo_length l) (lo_remapKey l)))
                (\<lambda>(b, _). Inr b))"

section \<open>The gathering of handles\<close>

text \<open>
  \<open>merge\<close> is the virtual method of the handles of the library: the handle that also reads what the other
  reads, if the two can be merged.
\<close>

record 'h gatherer =
  hg_sorted :: bool
  hg_count :: nat
  hg_handles :: "'h list"

definition new_gatherer :: "bool \<Rightarrow> 'h gatherer" where
  "new_gatherer s = \<lparr>hg_sorted = s, hg_count = 0, hg_handles = []\<rparr>"

fun merge_first :: "('h \<Rightarrow> 'h \<Rightarrow> 'h option) \<Rightarrow> 'h \<Rightarrow> 'h list \<Rightarrow> 'h list option" where
  "merge_first merge h [] = None"
| "merge_first merge h (j # js) =
     (case merge j h of
        Some j' \<Rightarrow> Some (j' # js)
      | None \<Rightarrow> map_option ((#) j) (merge_first merge h js))"

definition gather_add :: "('h \<Rightarrow> 'h \<Rightarrow> 'h option) \<Rightarrow> 'h \<Rightarrow> 'h gatherer \<Rightarrow> 'h gatherer" where
  "gather_add merge h g =
     (let g = g\<lparr>hg_count := Suc (hg_count g)\<rparr>; hs = hg_handles g
      in if hg_sorted g then
           (case merge_first merge h hs of Some hs' \<Rightarrow> g\<lparr>hg_handles := hs'\<rparr> | None \<Rightarrow> g\<lparr>hg_handles := hs @ [h]\<rparr>)
         else if hs \<noteq> [] then
           (case merge (last hs) h of
              Some h' \<Rightarrow> g\<lparr>hg_handles := butlast hs @ [h']\<rparr>
            | None \<Rightarrow> g\<lparr>hg_handles := hs @ [h]\<rparr>)
         else g\<lparr>hg_handles := [h]\<rparr>)"

text \<open>\<open>dataHandle()\<close>: the handles of the \<open>MultiHandle\<close>, each compressed; the gatherer is empty again.\<close>

definition gather_handle :: "(bool \<Rightarrow> 'h \<Rightarrow> 'h) \<Rightarrow> 'h gatherer \<Rightarrow> 'h list \<times> 'h gatherer" where
  "gather_handle compress g = (map (compress (hg_sorted g)) (hg_handles g), g\<lparr>hg_handles := []\<rparr>)"


section \<open>What is archived stays readable\<close>

text \<open>
  The bytes that belong to a path: those in the file and those in the buffer of its handle. The store is
  in order when each open handle stands at the end of them, and a store that is not dirty has nothing in
  its buffers.
\<close>

definition buffered :: "toc_store \<Rightarrow> string \<Rightarrow> bytes" where
  "buffered s path =
     (case map_of (ts_handles s) path of
        None \<Rightarrow> [] | Some h \<Rightarrow> (case fh_file h of None \<Rightarrow> [] | Some b \<Rightarrow> b))"

definition view :: "toc_store \<times> byte_files \<Rightarrow> string \<Rightarrow> bytes" where
  "view st path = content (snd st) path @ buffered (fst st) path"

definition store_ok :: "toc_store \<times> byte_files \<Rightarrow> bool" where
  "store_ok st \<longleftrightarrow> dict_ok (ts_handles (fst st)) \<and>
     (\<forall>path h buf. map_of (ts_handles (fst st)) path = Some h \<longrightarrow> fh_file h = Some buf \<longrightarrow>
        fh_pos h = length (view st path)) \<and>
     (\<not> ts_dirty (fst st) \<longrightarrow> (\<forall>path. buffered (fst st) path = []))"

lemma content_put: "content (dict_put p b fs) q = (if q = p then b else content fs q)"
  by (simp add: content_def)

lemma store_ok_same:
  assumes "store_ok st" and "ts_handles (fst st') = ts_handles (fst st)" and "snd st' = snd st"
    and "ts_dirty (fst st) \<Longrightarrow> ts_dirty (fst st')"
  shows "store_ok st'" "view st' = view st"
proof -
  have "buffered (fst st') = buffered (fst st)"
    using assms(2) by (simp add: buffered_def fun_eq_iff)
  moreover from this show v: "view st' = view st"
    using assms(3) by (simp add: view_def fun_eq_iff)
  ultimately show "store_ok st'"
    using assms unfolding store_ok_def v by metis
qed

lemma store_ok_new: "store_ok (new_toc_store directory, fs)"
  by (simp add: store_ok_def new_toc_store_def buffered_def)

lemma getDataPath_keeps:
  assumes "getDataPath E e P key st = (r, st')"
  shows "ts_handles (fst st') = ts_handles (fst st)" "ts_dirty (fst st') = ts_dirty (fst st)" "snd st' = snd st"
  using assms by (cases st; auto simp: getDataPath_def generateDataPath_def res_simps
      split: option.splits sum.splits)+

lemma getDataHandle_view:
  assumes ok: "store_ok st" and get: "getDataHandle E path st = (Inr (), st')"
  shows "store_ok st'" "view st' = view st" "ts_dirty (fst st') = ts_dirty (fst st)"
    "\<exists>h. map_of (ts_handles (fst st')) path = Some h"
proof -
  obtain s fs where st: "st = (s, fs)" by (cases st)
  have "store_ok st' \<and> view st' = view st \<and> ts_dirty (fst st') = ts_dirty (fst st) \<and>
    (\<exists>h. map_of (ts_handles (fst st')) path = Some h)"
  proof (cases "map_of (ts_handles s) path")
    case (Some h)
    with get ok st show ?thesis by (auto simp: getDataHandle_def)
  next
    case None
    with get st have st': "st' = (s\<lparr>ts_handles := dict_put path \<lparr>fh_file = Some [], fh_pos = length (content fs path)\<rparr> (ts_handles s)\<rparr>,
        dict_put path (content fs path) fs)"
      by (auto simp: getDataHandle_def on_handle_def handle_openForAppend_def new_file_handle_def split: if_splits)
    have view: "view st' = view st"
      using None by (auto simp: st st' view_def buffered_def content_put fun_eq_iff)
    have buf: "buffered (fst st') = buffered s"
      using None by (auto simp: st' buffered_def fun_eq_iff)
    have "view st path = content fs path"
      using None by (simp add: st view_def buffered_def)
    with ok buf show ?thesis
      unfolding store_ok_def view by (auto simp: st st')
  qed
  then show "store_ok st'" "view st' = view st" "ts_dirty (fst st') = ts_dirty (fst st)"
    "\<exists>h. map_of (ts_handles (fst st')) path = Some h" by blast+
qed

lemma handle_write_view:
  assumes ok: "store_ok st" and dirty: "ts_dirty (fst st)"
    and wr: "on_handle path (handle_write E path data) st = (Inr n, st')"
  shows "store_ok st'" "view st' = (view st)(path := view st path @ data)" "ts_dirty (fst st')" "n = length data"
proof -
  obtain s fs where st: "st = (s, fs)" by (cases st)
  from wr obtain h buf where h: "map_of (ts_handles s) path = Some h" and buf: "fh_file h = Some buf"
    by (auto simp: st on_handle_def handle_write_def split: option.splits)
  define b1 b2 where "b1 = take (se_spill E (buf @ data)) (buf @ data)" and "b2 = drop (se_spill E (buf @ data)) (buf @ data)"
  have split: "b1 @ b2 = buf @ data" by (simp add: b1_def b2_def del: take_append drop_append)
  have st': "st' = (s\<lparr>ts_handles := dict_put path \<lparr>fh_file = Some b2, fh_pos = fh_pos h + length data\<rparr> (ts_handles s)\<rparr>,
      dict_put path (content fs path @ b1) fs)" and n: "n = length data"
    using wr h buf by (auto simp: st on_handle_def handle_write_def Let_def b1_def b2_def)
  have v: "view st path = content fs path @ buf"
    by (simp add: st view_def buffered_def h buf)
  have view: "view st' = (view st)(path := view st path @ data)"
    using v split by (auto simp: st st' view_def buffered_def content_put fun_eq_iff)
  have "fh_pos h = length (view st path)"
    using ok h buf unfolding store_ok_def by (auto simp: st)
  with ok dirty show "store_ok st'"
    unfolding store_ok_def view by (auto simp: st st')
  show "view st' = (view st)(path := view st path @ data)" by (rule view)
  show "ts_dirty (fst st')" "n = length data" using dirty n by (simp_all add: st st')
qed

text \<open>One archive: the location is the end of the bytes of a path, and the data go there.\<close>

lemma store_archive_view:
  assumes ok: "store_ok st" and arch: "store_archive E e P U key data st = (Inr loc, st')"
  shows "\<exists>path. store_ok st' \<and> ts_dirty (fst st') \<and> view st' = (view st)(path := view st path @ data) \<and>
     loc = new_location TocLocation (u_file U path) (int (length (view st path))) (int (length data)) (new_key None)"
proof -
  obtain s fs where st: "st = (s, fs)" by (cases st)
  let ?st0 = "(s\<lparr>ts_dirty := True\<rparr>, fs)"
  have ok0: "store_ok ?st0" and view0: "view ?st0 = view st"
    using store_ok_same [OF ok, of ?st0] by (simp_all add: st)
  from arch obtain path st1 st2 pos n where
    path: "getDataPath E e P key ?st0 = (Inr path, st1)" and
    get: "getDataHandle E path st1 = (Inr (), st2)" and
    pos: "handle_position path st2 = (Inr pos, st2)" and
    wr: "on_handle path (handle_write E path data) st2 = (Inr n, st')" and
    loc: "loc = new_location TocLocation (u_file U path) (int pos) (int (length data)) (new_key None)"
    by (auto simp: store_archive_def bindS_eq_Inr st handle_position_def split: option.splits)
  note keeps = getDataPath_keeps [OF path]
  have ok1: "store_ok st1" and view1: "view st1 = view st" and dirty1: "ts_dirty (fst st1)"
    using store_ok_same [OF ok0, of st1] keeps view0 by simp_all
  note S2 = getDataHandle_view [OF ok1 get]
  have dirty2: "ts_dirty (fst st2)" using S2(3) dirty1 by simp
  note S3 = handle_write_view [OF S2(1) dirty2 wr]
  obtain h buf where h: "map_of (ts_handles (fst st2)) path = Some h" and buf: "fh_file h = Some buf"
    using wr by (cases st2) (auto simp: on_handle_def handle_write_def split: option.splits)
  have "pos = fh_pos h"
    using pos h by (cases st2) (simp add: handle_position_def)
  moreover have "fh_pos h = length (view st2 path)"
    using S2(1) h buf unfolding store_ok_def by blast
  ultimately show ?thesis
    using S3 loc by (auto simp: S2(2) view1)
qed


text \<open>No step removes bytes from a file.\<close>

definition files_grow :: "byte_files \<Rightarrow> byte_files \<Rightarrow> bool" where
  "files_grow fs fs' \<longleftrightarrow> (\<forall>p c. map_of fs p = Some c \<longrightarrow> (\<exists>extra. map_of fs' p = Some (c @ extra)))"

lemma files_grow_refl [simp]: "files_grow fs fs"
  by (simp add: files_grow_def)

lemma files_grow_trans: "files_grow a b \<Longrightarrow> files_grow b c \<Longrightarrow> files_grow a c"
  by (fastforce simp: files_grow_def)

lemma files_grow_put: "files_grow fs (dict_put p (content fs p @ extra) fs)"
  by (auto simp: files_grow_def content_def)

lemma files_grow_open: "files_grow fs (dict_put p (content fs p) fs)"
  using files_grow_put [of fs p "[]"] by simp

lemma on_handle_grows:
  assumes "\<And>h fs r h' fs'. f (h, fs) = (r, (h', fs')) \<Longrightarrow> files_grow fs fs'"
    and "on_handle path f st = (r, st')"
  shows "files_grow (snd st) (snd st')"
proof (cases "map_of (ts_handles (fst st)) path")
  case None
  with assms(2) show ?thesis by (cases st) (auto simp: on_handle_def)
next
  case (Some h)
  obtain r' h' fs' where "f (h, snd st) = (r', (h', fs'))" by (metis prod.collapse)
  with assms Some show ?thesis by (cases st) (auto simp: on_handle_def)
qed

lemma handle_grows:
  "handle_openForAppend E path (h, fs) = (r, (h', fs')) \<Longrightarrow> files_grow fs fs'"
  "handle_write E path data (h, fs) = (r', (h', fs')) \<Longrightarrow> files_grow fs fs'"
  "handle_flush path (h, fs) = (r, (h', fs')) \<Longrightarrow> files_grow fs fs'"
  by (auto simp: handle_openForAppend_def handle_write_def handle_flush_def Let_def files_grow_put files_grow_open
      split: if_splits option.splits)

lemma store_archive_grows:
  assumes "store_archive E e P U key data st = (Inr loc, st')"
  shows "files_grow (snd st) (snd st')"
proof -
  obtain s fs where st: "st = (s, fs)" by (cases st)
  from assms obtain path st1 st2 pos n where
    path: "getDataPath E e P key (s\<lparr>ts_dirty := True\<rparr>, fs) = (Inr path, st1)" and
    get: "getDataHandle E path st1 = (Inr (), st2)" and
    wr: "on_handle path (handle_write E path data) st2 = (Inr n, st')"
    by (auto simp: store_archive_def bindS_eq_Inr st handle_position_def split: option.splits)
  have "snd st1 = fs" using getDataPath_keeps(3) [OF path] by simp
  moreover have "files_grow (snd st1) (snd st2)"
  proof (cases "map_of (ts_handles (fst st1)) path")
    case None
    with get show ?thesis
      using on_handle_grows [where f = "handle_openForAppend E path" and path = path and st' = st2 and r = "Inr ()" and
          st = "((fst st1)\<lparr>ts_handles := dict_put path new_file_handle (ts_handles (fst st1))\<rparr>, snd st1)"] handle_grows(1)
      by (cases st1) (auto simp: getDataHandle_def)
  next
    case (Some h)
    with get show ?thesis by (cases st1) (auto simp: getDataHandle_def)
  qed
  moreover have "files_grow (snd st2) (snd st')"
    by (rule on_handle_grows [OF handle_grows(2) wr])
  ultimately show ?thesis using files_grow_trans by (auto simp: st)
qed

lemma handle_flush_view:
  assumes ok: "store_ok st" and h: "map_of (ts_handles (fst st)) path = Some h"
  shows "\<exists>st'. on_handle path (handle_flush path) st = (Inr (), st') \<and> store_ok st' \<and> view st' = view st \<and>
     ts_dirty (fst st') = ts_dirty (fst st) \<and> buffered (fst st') = (buffered (fst st))(path := []) \<and>
     set (dict_keys (ts_handles (fst st'))) = set (dict_keys (ts_handles (fst st)))"
proof -
  obtain s fs where st: "st = (s, fs)" by (cases st)
  have key: "path \<in> set (dict_keys (ts_handles s))"
    using h by (metis st fst_conv map_of_eq_None_iff option.distinct(1) set_map)
  show ?thesis
  proof (cases "fh_file h")
    case None
    let ?st = "(s\<lparr>ts_handles := dict_put path h (ts_handles s)\<rparr>, fs)"
    have buf: "buffered (fst ?st) = (buffered s)(path := [])" "buffered (fst ?st) = buffered s"
      using h None by (auto simp: st buffered_def fun_eq_iff)
    then have view: "view ?st = view st" by (simp add: st view_def fun_eq_iff)
    have "store_ok ?st"
      using ok h buf(2) unfolding store_ok_def view by (auto simp: st split: if_splits)
    then show ?thesis
      using h None buf view key by (auto simp: st on_handle_def handle_flush_def insert_absorb)
  next
    case (Some buf)
    let ?h = "h\<lparr>fh_file := Some []\<rparr>"
    let ?st = "(s\<lparr>ts_handles := dict_put path ?h (ts_handles s)\<rparr>, dict_put path (content fs path @ buf) fs)"
    have vp: "fh_pos h = length (view st path)"
      using ok h Some unfolding store_ok_def by blast
    then have pos: "fh_pos h = length (content fs path @ buf)"
      using h Some by (simp add: st view_def buffered_def)
    have b: "buffered (fst ?st) = (buffered s)(path := [])"
      by (auto simp: buffered_def fun_eq_iff)
    have view: "view ?st = view st"
      using h Some unfolding view_def b by (auto simp: st content_put fun_eq_iff buffered_def)
    have "store_ok ?st"
      using ok vp b unfolding store_ok_def view by (auto simp: st)
    then show ?thesis
      using h Some pos b view key by (auto simp: st on_handle_def handle_flush_def insert_absorb)
  qed
qed

lemma each_flush:
  assumes "store_ok st" and "set ps \<subseteq> set (dict_keys (ts_handles (fst st)))"
  shows "\<exists>st'. each_handle handle_flush ps st = (Inr (), st') \<and> store_ok st' \<and> view st' = view st \<and>
     ts_dirty (fst st') = ts_dirty (fst st) \<and>
     (\<forall>p. buffered (fst st') p = (if p \<in> set ps then [] else buffered (fst st) p))"
  using assms
proof (induction ps arbitrary: st)
  case (Cons p ps)
  then obtain h where "map_of (ts_handles (fst st)) p = Some h"
    by (metis insert_subset list.set(2) map_of_eq_None_iff not_None_eq set_map)
  from handle_flush_view [OF Cons.prems(1) this] obtain st1 where
    st1: "on_handle p (handle_flush p) st = (Inr (), st1)" "store_ok st1" "view st1 = view st"
      "ts_dirty (fst st1) = ts_dirty (fst st)" "buffered (fst st1) = (buffered (fst st))(p := [])"
      "set (dict_keys (ts_handles (fst st1))) = set (dict_keys (ts_handles (fst st)))" by blast
  with Cons.IH [OF st1(2)] Cons.prems(2) obtain st2 where
    "each_handle handle_flush ps st1 = (Inr (), st2)" "store_ok st2" "view st2 = view st1"
      "ts_dirty (fst st2) = ts_dirty (fst st1)"
      "\<forall>q. buffered (fst st2) q = (if q \<in> set ps then [] else buffered (fst st1) q)"
    by auto
  with st1 show ?case by (intro exI [where x = st2]) auto
qed (auto intro: exI [where x = st])

text \<open>A flush never fails, and then every byte is in its file.\<close>

lemma store_flush_view:
  assumes ok: "store_ok st"
  shows "\<exists>st'. store_flush st = (Inr (), st') \<and> store_ok st' \<and> content (snd st') = view st \<and> view st' = view st"
proof -
  obtain s fs where st: "st = (s, fs)" by (cases st)
  show ?thesis
  proof (cases "ts_dirty s")
    case False
    then have "buffered s p = []" for p using ok by (auto simp: st store_ok_def)
    with False ok show ?thesis by (auto simp: st store_flush_def view_def fun_eq_iff)
  next
    case True
    from each_flush [OF ok, of "dict_keys (ts_handles s)"] obtain st1 where
      st1: "each_handle handle_flush (dict_keys (ts_handles s)) st = (Inr (), st1)" "store_ok st1" "view st1 = view st"
        "\<forall>p. buffered (fst st1) p = (if p \<in> set (dict_keys (ts_handles s)) then [] else buffered (fst st) p)"
      by (auto simp: st)
    have none: "buffered (fst st1) p = []" for p
    proof (cases "p \<in> set (dict_keys (ts_handles s))")
      case False
      then have "map_of (ts_handles s) p = None" by (simp add: map_of_eq_None_iff)
      with st1(4) False show ?thesis by (simp add: st buffered_def)
    qed (use st1(4) in simp)
    let ?st2 = "((fst st1)\<lparr>ts_dirty := False\<rparr>, snd st1)"
    have buf: "buffered (fst ?st2) = buffered (fst st1)" by (simp add: buffered_def fun_eq_iff)
    then have v2: "view ?st2 = view st1" by (simp add: view_def fun_eq_iff)
    have "store_ok ?st2"
      using st1(2) none unfolding store_ok_def v2 buf by auto
    moreover have "store_flush st = (Inr (), ?st2)"
      using True st1(1) by (cases st1) (simp add: store_flush_def st)
    moreover have "content (snd ?st2) = view st1"
      using none by (simp add: view_def fun_eq_iff)
    ultimately show ?thesis using st1(3) v2 by auto
  qed
qed


text \<open>\<open>archive\<close> for one field after the other.\<close>

fun archive_fields ::
    "store_env \<Rightarrow> ext \<Rightarrow> path_ops \<Rightarrow> 'u uri_ops \<Rightarrow> (key \<times> bytes) list \<Rightarrow> 'u location list store_step"
where
  "archive_fields E e P U [] = retS []"
| "archive_fields E e P U ((k, d) # kds) =
     bindS (store_archive E e P U k d) (\<lambda>l. bindS (archive_fields E e P U kds) (\<lambda>ls. retS (l # ls)))"

text \<open>The bytes of a location, in the files and the buffers.\<close>

definition stands :: "'u uri_ops \<Rightarrow> (string \<Rightarrow> bytes) \<Rightarrow> bytes \<Rightarrow> 'u location \<Rightarrow> bool" where
  "stands U v d l \<longleftrightarrow>
     (\<exists>path before after. l = new_location TocLocation (u_file U path) (int (length before)) (int (length d)) (new_key None) \<and>
        v path = before @ d @ after)"

definition bytes_extend :: "(string \<Rightarrow> bytes) \<Rightarrow> (string \<Rightarrow> bytes) \<Rightarrow> bool" where
  "bytes_extend v v' \<longleftrightarrow> (\<forall>p. \<exists>after. v' p = v p @ after)"

lemma stands_extend: "stands U v d l \<Longrightarrow> bytes_extend v v' \<Longrightarrow> stands U v' d l"
  unfolding stands_def bytes_extend_def by (metis append.assoc)

lemma bytes_extend_trans: "bytes_extend a b \<Longrightarrow> bytes_extend b c \<Longrightarrow> bytes_extend a c"
  unfolding bytes_extend_def by (metis append.assoc)

lemma archive_fields_view:
  assumes "store_ok st" and "archive_fields E e P U kds st = (Inr locs, st')"
  shows "store_ok st' \<and> bytes_extend (view st) (view st') \<and> files_grow (snd st) (snd st') \<and>
     list_all2 (\<lambda>(k, d) l. stands U (view st') d l) kds locs"
  using assms
proof (induction kds arbitrary: st locs)
  case Nil
  then show ?case by (auto simp: bytes_extend_def)
next
  case (Cons kd kds)
  obtain k d where kd: "kd = (k, d)" by (cases kd)
  with Cons.prems(2) obtain l ls st1 where l: "store_archive E e P U k d st = (Inr l, st1)"
    and ls: "archive_fields E e P U kds st1 = (Inr ls, st')" and locs: "locs = l # ls"
    by (auto simp: bindS_eq_Inr)
  from store_archive_view [OF Cons.prems(1) l] obtain path where
    ok1: "store_ok st1" and v1: "view st1 = (view st)(path := view st path @ d)" and
    loc: "l = new_location TocLocation (u_file U path) (int (length (view st path))) (int (length d)) (new_key None)"
    by blast
  note rest = Cons.IH [OF ok1 ls]
  have "bytes_extend (view st) (view st1)" by (auto simp: bytes_extend_def v1)
  moreover have "stands U (view st1) d l"
    unfolding stands_def loc v1 by (intro exI [where x = path] exI [where x = "view st path"] exI [where x = "[]"]) simp
  ultimately show ?case
    using rest store_archive_grows [OF l] bytes_extend_trans stands_extend files_grow_trans
    by (fastforce simp: kd locs)
qed

definition file_path_law :: "'u uri_ops \<Rightarrow> bool" where
  "file_path_law U \<longleftrightarrow> (\<forall>p. u_path U (u_file U p) = p)"

lemma stands_reads:
  assumes "file_path_law U" and "stands U (content fs) d l" and "d \<noteq> []"
  shows "location_data munge U fs l = Inr d"
proof -
  obtain path before after where
    l: "l = new_location TocLocation (u_file U path) (int (length before)) (int (length d)) (new_key None)"
    and c: "content fs path = before @ d @ after"
    using assms(2) by (auto simp: stands_def)
  then have "map_of fs path = Some (before @ d @ after)"
    using assms(3) by (auto simp: content_def split: option.splits)
  then show ?thesis
    using assms(1) by (simp add: l location_data_def new_location_def read_part_def file_path_law_def key_empty_def new_key_def Let_def)
qed

lemma read_part_grows:
  assumes "files_grow fs fs'" and "read_part fs p off len = Inr d"
  shows "read_part fs' p off len = Inr d"
proof -
  obtain c where c: "map_of fs p = Some c" and range: "0 \<le> off" "0 \<le> len" "off + len \<le> int (length c)"
    and d: "d = take (nat len) (drop (nat off) c)"
    using assms(2) by (auto simp: read_part_def split: option.splits if_splits)
  obtain extra where "map_of fs' p = Some (c @ extra)"
    using assms(1) c unfolding files_grow_def by blast
  moreover have "nat len \<le> length c - nat off" using range by linarith
  ultimately show ?thesis using range by (simp add: read_part_def d)
qed

lemma location_data_grows:
  assumes "files_grow fs fs'" and "location_data munge U fs l = Inr d"
  shows "location_data munge U fs' l = Inr d"
proof (cases "key_empty (lo_remapKey l)")
  case True
  with assms show ?thesis by (simp add: location_data_def Let_def read_part_grows)
next
  case False
  with assms(2) obtain m where m: "read_part fs (u_path U (lo_uri l)) (lo_offset l) (lo_length l) = Inr m"
    by (auto simp: location_data_def grib_read_def new_grib_handle_def bindE_eq_Inr Let_def)
  with read_part_grows [OF assms(1) m] assms(2) False show ?thesis
    by (simp add: location_data_def grib_read_def new_grib_handle_def)
qed

lemma store_flush_grows:
  assumes "store_flush st = (Inr (), st')"
  shows "files_grow (snd st) (snd st')"
proof -
  have "each_handle handle_flush ps st1 = (Inr (), st2) \<Longrightarrow> files_grow (snd st1) (snd st2)" for ps st1 st2
  proof (induction ps arbitrary: st1)
    case (Cons p ps)
    then obtain st3 where "on_handle p (handle_flush p) st1 = (Inr (), st3)" "files_grow (snd st3) (snd st2)"
      by (auto simp: bindS_eq_Inr)
    then show ?case
      using on_handle_grows [of "handle_flush p" p st1 "Inr ()" st3] handle_grows(3) files_grow_trans by blast
  qed simp
  then show ?thesis
    using assms by (cases st) (auto simp: store_flush_def bindS_eq_Inr split: if_splits)
qed

text \<open>
  What is archived stays readable. From a store in order, after any fields are archived, \<open>flush\<close> does
  not fail, and then every location that was returned reads exactly the bytes that were given for it,
  whatever the buffers let out on the way and however many fields share a file; and every location that
  could be read before reads the same as before.
\<close>
lemma store_reads_back:
  assumes U: "file_path_law U" and ok: "store_ok st" and fields: "\<forall>(k, d) \<in> set kds. d \<noteq> []"
    and run: "archive_fields E e P U kds st = (Inr locs, st1)"
  shows "\<exists>st2. store_flush st1 = (Inr (), st2) \<and> store_ok st2 \<and>
     list_all2 (\<lambda>(k, d) l. location_data munge U (snd st2) l = Inr d) kds locs \<and>
     (\<forall>l d. location_data munge U (snd st) l = Inr d \<longrightarrow> location_data munge U (snd st2) l = Inr d)"
proof -
  note run_view = archive_fields_view [OF ok run]
  then obtain st2 where st2: "store_flush st1 = (Inr (), st2)" "store_ok st2" "content (snd st2) = view st1"
    using store_flush_view by blast
  have "list_all2 (\<lambda>(k, d) l. location_data munge U (snd st2) l = Inr d) kds locs"
  proof (rule list.rel_mono_strong)
    show "list_all2 (\<lambda>(k, d) l. stands U (view st1) d l) kds locs" using run_view by blast
    fix kd l
    assume "kd \<in> set kds" and "(case kd of (k, d) \<Rightarrow> \<lambda>l. stands U (view st1) d l) l"
    then show "(case kd of (k, d) \<Rightarrow> \<lambda>l. location_data munge U (snd st2) l = Inr d) l"
      using fields stands_reads [OF U, of "snd st2"] st2(3) by auto
  qed
  moreover have "files_grow (snd st) (snd st2)"
    using run_view store_flush_grows [OF st2(1)] files_grow_trans by blast
  ultimately show ?thesis
    using st2(1,2) location_data_grows by blast
qed


definition plain_uris :: "string uri_ops" where
  "plain_uris = \<lparr>u_parse = (\<lambda>s. s), u_scheme = (\<lambda>_. ''file''), u_path = (\<lambda>s. s), u_file = (\<lambda>s. s), u_raw = (\<lambda>s. s),
     p_dir = (\<lambda>s. s), p_base = (\<lambda>s. s), p_join = (\<lambda>a b. a @ b)\<rparr>"

definition sample_store_env :: store_env where
  "sample_store_env = \<lparr>se_canOpen = (\<lambda>_. True), se_spill = (\<lambda>b. length b - 1), se_unique = (\<lambda>n p. p)\<rparr>"

definition plain_paths :: path_ops where
  "plain_paths = \<lparr>po_base = (\<lambda>p. p), po_dir = (\<lambda>p. p), po_join = (\<lambda>d b. d @ CHR ''/'' # b), po_real = (\<lambda>p. p),
     po_bytes = length, po_header = 0, po_round = 1, po_roundUp = (\<lambda>x n. x)\<rparr>"

definition oper_key :: key where
  "oper_key = \<lparr>key_dict = [(''stream'', ''oper'')], key_names = [''stream''], key_registry = None, key_canonical = True\<rparr>"

lemma store_reads_back_witness:
  "\<exists>l1 l2 st1 st2.
     archive_fields sample_store_env ref_ext plain_paths plain_uris [(oper_key, [1, 2, 3]), (oper_key, [4, 5])]
       (new_toc_store ''/db'', []) = (Inr [l1, l2], st1) \<and>
     lo_offset l2 = 3 \<and> store_flush st1 = (Inr (), st2) \<and>
     location_data (\<lambda>k b. Inr b) plain_uris (snd st2) l1 = Inr [1, 2, 3] \<and>
     location_data (\<lambda>k b. Inr b) plain_uris (snd st2) l2 = Inr [4, 5]"
proof -
  have vals: "valuesToString ref_ext oper_key = Inr ''oper''"
    by (simp add: valuesToString_def oper_key_def canonicalValue_def key_value_def key_find_def canonicalise_def)
  obtain l1 l2 st1 where run: "archive_fields sample_store_env ref_ext plain_paths plain_uris [(oper_key, [1, 2, 3]), (oper_key, [4, 5])]
       (new_toc_store ''/db'', []) = (Inr [l1, l2], st1)" and off: "lo_offset l2 = 3"
    by (simp add: store_archive_def bindS_def getDataPath_def generateDataPath_def new_toc_store_def vals
        getDataHandle_def on_handle_def handle_openForAppend_def new_file_handle_def handle_write_def handle_position_def
        sample_store_env_def new_location_def plain_paths_def content_def)
  have U: "file_path_law plain_uris" by (simp add: file_path_law_def plain_uris_def)
  have "\<forall>(k, d) \<in> set [(oper_key, [1, 2, 3 :: 8 word]), (oper_key, [4, 5])]. d \<noteq> []" by simp
  from store_reads_back [OF U store_ok_new this run, of "\<lambda>k b. Inr b"] run off show ?thesis by auto
qed

section \<open>The order of the gathered data\<close>

text \<open>
  A merged handle reads the data of the first and then of the second, and compressing does not change what
  an unsorted handle reads: then the gathered handle reads the data in the order of the additions.
\<close>

definition all_data :: "('h \<Rightarrow> bytes) \<Rightarrow> 'h list \<Rightarrow> bytes" where
  "all_data data hs = concat (map data hs)"

locale mergeable =
  fixes merge :: "'h \<Rightarrow> 'h \<Rightarrow> 'h option" and compress :: "bool \<Rightarrow> 'h \<Rightarrow> 'h" and data :: "'h \<Rightarrow> bytes"
  assumes merge_data: "merge a b = Some c \<Longrightarrow> data c = data a @ data b"
    and compress_data: "data (compress False a) = data a"
begin

lemma add_unsorted:
  assumes "\<not> hg_sorted g"
  shows "all_data data (hg_handles (gather_add merge h g)) = all_data data (hg_handles g) @ data h \<and>
    \<not> hg_sorted (gather_add merge h g) \<and> hg_count (gather_add merge h g) = Suc (hg_count g)"
proof (cases "hg_handles g" rule: rev_cases)
  case Nil
  with assms show ?thesis by (simp add: gather_add_def all_data_def)
next
  case (snoc hs j)
  with assms merge_data show ?thesis
    by (cases "merge j h") (auto simp: gather_add_def all_data_def)
qed

lemma fold_unsorted:
  "\<not> hg_sorted g \<Longrightarrow> all_data data (hg_handles (fold (gather_add merge) hs g)) = all_data data (hg_handles g) @ all_data data hs \<and>
     \<not> hg_sorted (fold (gather_add merge) hs g) \<and> hg_count (fold (gather_add merge) hs g) = hg_count g + length hs"
proof (induction hs arbitrary: g)
  case (Cons h hs)
  with add_unsorted [of g h] show ?case by (auto simp: all_data_def)
qed (simp add: all_data_def)

lemma gathered_order:
  "all_data data (fst (gather_handle compress (fold (gather_add merge) hs (new_gatherer False)))) = all_data data hs"
proof -
  have same: "map (data \<circ> compress False) xs = map data xs" for xs
    by (simp add: compress_data)
  have "all_data data (hg_handles (fold (gather_add merge) hs (new_gatherer False))) = all_data data hs"
    and "\<not> hg_sorted (fold (gather_add merge) hs (new_gatherer False))"
    using fold_unsorted [of "new_gatherer False" hs] by (simp_all add: new_gatherer_def all_data_def)
  then show ?thesis by (simp add: gather_handle_def all_data_def same)
qed

end

text \<open>The handles that the code has itself never merge: \<open>SingleGribMungePartFileHandle::merge\<close> and \<open>compress\<close>.\<close>

definition grib_merge :: "grib_handle \<Rightarrow> grib_handle \<Rightarrow> grib_handle option" where
  "grib_merge a b = None"

definition grib_compress :: "bool \<Rightarrow> grib_handle \<Rightarrow> grib_handle" where
  "grib_compress s a = a"

definition grib_data :: "(key \<Rightarrow> bytes \<Rightarrow> bytes res) \<Rightarrow> byte_files \<Rightarrow> grib_handle \<Rightarrow> bytes" where
  "grib_data munge fs g = (case grib_read munge fs (gh_length g) g of Inl _ \<Rightarrow> [] | Inr (b, _) \<Rightarrow> b)"

interpretation grib_gather: mergeable grib_merge grib_compress "grib_data munge fs" for munge fs
  by unfold_locales (simp_all add: grib_merge_def grib_compress_def)

lemma grib_gathered_order:
  "concat (map (grib_data munge fs) (fst (gather_handle grib_compress (fold (gather_add grib_merge) hs (new_gatherer False))))) =
     concat (map (grib_data munge fs) hs)"
  using grib_gather.gathered_order by (simp add: all_data_def)

end
