(* ===== verification/FDB_Archive.thy ===== *)
theory FDB_Archive
  imports FDB_Session FDB_Store FDB_Expand
begin

text \<open>
  Archiving as a whole: a database, which is a catalogue with its store (\<open>src/fdb5/database/DB.cc\<close>), the
  archiver that keeps the databases open (\<open>Archiver.cc\<close>) and its visitor (\<open>BaseArchiveVisitor.cc\<close>,
  \<open>ArchiveVisitor.cc\<close>). The archiver calls a database through the record \<open>db_ops\<close> of its methods;
  the database over the table of contents is one such record.
\<close>

section \<open>A database\<close>

text \<open>What the process holds beside the objects: files of all kinds and the registry of schemas.\<close>

record ('d, 's) globals =
  gl_disk :: disk
  gl_stores :: "('d, 's) stores"
  gl_bytes :: byte_files
  gl_schemas :: "(string, schema) dict"

text \<open>
  The directories of a key are those that the root managers of the catalogue and of the store give; the
  version of the tables of contents and the use of sub tocs are those of the configuration.
\<close>

record ('u, 'd, 's) db_env =
  dx_cat :: "('u, 'd, 's) cat_env"
  dx_store :: store_env
  dx_directory :: "key \<Rightarrow> (string \<times> control_ids) res"
  dx_storeDirectory :: "key \<Rightarrow> string res"
  dx_version :: nat
  dx_useSubToc :: bool
  dx_parse :: "string \<Rightarrow> schema res"

record 'u toc_db =
  db_catalogue :: "'u cat_writer"
  db_store :: "toc_store option"
  db_schema :: schema
  db_ids :: control_ids

abbreviation dx_paths :: "('u, 'd, 's) db_env \<Rightarrow> path_ops" where
  "dx_paths X \<equiv> cx_paths (dx_cat X)"

text \<open>\<open>DB::buildWriter(key, config)\<close>: the catalogue is opened, the store is not made yet.\<close>

definition db_buildWriter ::
    "('u :: linorder, 'd, 's) db_env \<Rightarrow> key \<Rightarrow> ('d, 's) globals \<Rightarrow> ('u toc_db \<times> ('d, 's) globals) res" where
  "db_buildWriter X key g =
     bindE (dx_directory X key) (\<lambda>(directory, ids).
     bindE (new_handler (dx_paths X) (gl_disk g) (dx_version X) (dx_useSubToc X) directory) (\<lambda>h.
     bindE (open_writer (dx_cat X) (dx_parse X) h key (gl_disk g) (gl_schemas g)) (\<lambda>(w, sch, schemas, d).
       Inr (\<lparr>db_catalogue = w, db_store = None, db_schema = sch, db_ids = ids\<rparr>,
            g\<lparr>gl_disk := d, gl_schemas := schemas\<rparr>))))"

text \<open>\<open>store()\<close> makes the store when it is first asked for.\<close>

definition store_of :: "('u, 'd, 's) db_env \<Rightarrow> ('d, 's) globals \<Rightarrow> 'u toc_db \<Rightarrow> toc_store res" where
  "store_of X g db =
     (case db_store db of
        Some s \<Rightarrow> Inr s
      | None \<Rightarrow>
          bindE (dx_storeDirectory X (cw_key (db_catalogue db))) (\<lambda>directory.
          bindE (findRealPath (dx_paths X) (gl_disk g) directory) (\<lambda>directory. Inr (new_toc_store directory))))"

text \<open>An operation of the catalogue, in the database and its files.\<close>

definition on_catalogue ::
    "('u cat_writer \<times> ('d, 's) files \<Rightarrow> ('u cat_writer \<times> ('d, 's) files) res) \<Rightarrow>
     'u toc_db \<times> ('d, 's) globals \<Rightarrow> ('u toc_db \<times> ('d, 's) globals) res" where
  "on_catalogue f = (\<lambda>(db, g).
     bindE (f (db_catalogue db, gl_disk g, gl_stores g)) (\<lambda>(w, d, st).
       Inr (db\<lparr>db_catalogue := w\<rparr>, g\<lparr>gl_disk := d, gl_stores := st\<rparr>)))"

text \<open>An operation of the store that is there.\<close>

definition on_store ::
    "toc_store \<Rightarrow> 'a store_step \<Rightarrow> 'u toc_db \<times> ('d, 's) globals \<Rightarrow> ('a \<times> 'u toc_db \<times> ('d, 's) globals) res" where
  "on_store s f = (\<lambda>(db, g).
     case f (s, gl_bytes g) of
       (Inl err, _) \<Rightarrow> Inl err
     | (Inr x, s, bs) \<Rightarrow> Inr (x, db\<lparr>db_store := Some s\<rparr>, g\<lparr>gl_bytes := bs\<rparr>))"

definition db_selectIndex ::
    "('u :: linorder, 'd, 's) db_env \<Rightarrow> key \<Rightarrow> 'u toc_db \<times> ('d, 's) globals \<Rightarrow> ('u toc_db \<times> ('d, 's) globals) res" where
  "db_selectIndex X key = on_catalogue (writer_selectIndex (dx_cat X) key)"

definition db_deselectIndex :: "'u toc_db \<Rightarrow> 'u toc_db" where
  "db_deselectIndex db = db\<lparr>db_catalogue := deselectIndex (db_catalogue db)\<rparr>"

text \<open>\<open>archive\<close>: the data goes to the store under the key of the current index, its location to the catalogue.\<close>

definition db_archive ::
    "('u :: linorder, 'd, 's) db_env \<Rightarrow> key \<Rightarrow> bytes \<Rightarrow> 'u toc_db \<times> ('d, 's) globals \<Rightarrow> ('u toc_db \<times> ('d, 's) globals) res"
where
  "db_archive X key data = (\<lambda>(db, g).
     bindE (ensure_current (dx_cat X) (db_catalogue db, gl_disk g, gl_stores g)) (\<lambda>(p, w, d, st).
     bindE (store_of X g db) (\<lambda>s.
     bindE (on_store s (store_archive (dx_store X) (cx_ext (dx_cat X)) (dx_paths X) (ie_uris (cx_index (dx_cat X)))
              (ib_key (tx_base (cw_objects w ! p))) data)
              (db\<lparr>db_catalogue := w\<rparr>, g\<lparr>gl_disk := d, gl_stores := st\<rparr>)) (\<lambda>(loc, db, g).
       on_catalogue (writer_archive (dx_cat X) key loc) (db, g)))))"

text \<open>\<open>flush\<close>: first the store, so that the catalogue never shows data that is not in its file.\<close>

definition flush_store :: "'u toc_db \<times> ('d, 's) globals \<Rightarrow> ('u toc_db \<times> ('d, 's) globals) res" where
  "flush_store = (\<lambda>(db, g).
     case db_store db of
       None \<Rightarrow> Inr (db, g)
     | Some s \<Rightarrow> bindE (on_store s store_flush (db, g)) (\<lambda>(_, dg). Inr dg))"

definition db_flush ::
    "('u :: linorder, 'd, 's) db_env \<Rightarrow> 'u toc_db \<times> ('d, 's) globals \<Rightarrow> ('u toc_db \<times> ('d, 's) globals) res" where
  "db_flush X dg = bindE (flush_store dg) (on_catalogue (writer_flush (dx_cat X)))"

definition db_close ::
    "('u :: linorder, 'd, 's) db_env \<Rightarrow> 'u toc_db \<times> ('d, 's) globals \<Rightarrow> ('u toc_db \<times> ('d, 's) globals) res" where
  "db_close X dg =
     bindE (db_flush X dg) (\<lambda>dg.
     bindE (on_catalogue (writer_clean (dx_cat X)) dg) (\<lambda>(db, g).
     bindE (case db_store db of
              None \<Rightarrow> Inr (db, g)
            | Some s \<Rightarrow> bindE (on_store s store_close (db, g)) (\<lambda>(_, dg). Inr dg)) (\<lambda>(db, g).
       Inr (db\<lparr>db_catalogue := closeIndexes (db_catalogue db)\<rparr>, g))))"

text \<open>
  The destructor: the store goes first, and \<open>~TocStore\<close> does nothing, so that its handles are neither
  flushed nor closed: they stay in the process, which holds what is in their buffers until it ends, and no
  operation reaches them any more; then \<open>~TocCatalogueWriter\<close> cleans and closes.
\<close>

definition db_destroy ::
    "('u :: linorder, 'd, 's) db_env \<Rightarrow> 'u toc_db \<times> ('d, 's) globals \<Rightarrow> ('d, 's) globals res" where
  "db_destroy X dg =
     bindE (on_catalogue (writer_clean (dx_cat X)) dg) (\<lambda>(db, g). Inr g)"

definition db_enabled ::
    "('u, 'd, 's) db_env \<Rightarrow> control_id \<Rightarrow> 'u toc_db \<times> ('d, 's) globals \<Rightarrow> bool res" where
  "db_enabled X i = (\<lambda>(db, g). writer_enabled (dx_paths X) (gl_disk g) (db_ids db) (db_catalogue db) i)"

definition db_hideContents ::
    "('u :: linorder, 'd, 's) db_env \<Rightarrow> 'u toc_db \<times> ('d, 's) globals \<Rightarrow> ('u toc_db \<times> ('d, 's) globals) res" where
  "db_hideContents X = on_catalogue (\<lambda>(w, d, st).
     bindE (hideContents (dx_cat X) w d) (\<lambda>(w, d). Inr (w, d, st)))"

text \<open>\<open>index\<close>, for data that is adopted.\<close>

definition db_index ::
    "('u :: linorder, 'd, 's) db_env \<Rightarrow> key \<Rightarrow> string \<Rightarrow> int \<Rightarrow> int \<Rightarrow> 'u toc_db \<times> ('d, 's) globals \<Rightarrow>
     ('u toc_db \<times> ('d, 's) globals) res" where
  "db_index X key path offset len =
     on_catalogue (writer_index (dx_cat X) key (u_file (ie_uris (cx_index (dx_cat X))) path) offset len)"

definition db_reconsolidate ::
    "('u :: linorder, 'd, 's) db_env \<Rightarrow> 'u toc_db \<times> ('d, 's) globals \<Rightarrow> ('u toc_db \<times> ('d, 's) globals) res" where
  "db_reconsolidate X = on_catalogue (reconsolidateIndexesAndTocs (dx_cat X))"

text \<open>\<open>retrieve(key)\<close> of a database open for reading: the data of the field that \<open>inspect\<close> finds.\<close>

definition db_retrieve ::
    "(key \<Rightarrow> bytes \<Rightarrow> bytes res) \<Rightarrow> ('u :: linorder, 'd, 's) cat_env \<Rightarrow> byte_files \<Rightarrow> key \<Rightarrow>
     'u cat_reader \<Rightarrow> ('d, 's) stores \<Rightarrow> (bytes res option \<times> 'u cat_reader \<times> ('d, 's) stores) res" where
  "db_retrieve munge X bs key r st =
     bindE (reader_retrieve X key r st) (\<lambda>(field, r, st).
       Inr (map_option (\<lambda>f. location_data munge (ie_uris (cx_index X)) bs (fd_location f)) field, r, st))"


section \<open>The archiver\<close>

text \<open>The methods of a database that the archiver calls.\<close>

record ('db, 'g) db_ops =
  do_build :: "key \<Rightarrow> 'g \<Rightarrow> ('db \<times> 'g) res"
  do_enabled :: "'db \<times> 'g \<Rightarrow> bool res"
  do_deselect :: "'db \<Rightarrow> 'db"
  do_select :: "key \<Rightarrow> 'db \<times> 'g \<Rightarrow> ('db \<times> 'g) res"
  do_archive :: "key \<Rightarrow> bytes \<Rightarrow> 'db \<times> 'g \<Rightarrow> ('db \<times> 'g) res"
  do_index :: "key \<Rightarrow> string \<Rightarrow> int \<Rightarrow> int \<Rightarrow> 'db \<times> 'g \<Rightarrow> ('db \<times> 'g) res"
  do_flush :: "'db \<times> 'g \<Rightarrow> ('db \<times> 'g) res"
  do_destroy :: "'db \<times> 'g \<Rightarrow> 'g res"
  do_schema :: "'db \<Rightarrow> schema"

definition toc_db_ops :: "('u :: linorder, 'd, 's) db_env \<Rightarrow> ('u toc_db, ('d, 's) globals) db_ops" where
  "toc_db_ops X = \<lparr>do_build = db_buildWriter X, do_enabled = db_enabled X IdArchive, do_deselect = db_deselectIndex,
     do_select = db_selectIndex X, do_archive = db_archive X, do_index = db_index X, do_flush = db_flush X,
     do_destroy = db_destroy X, do_schema = db_schema\<rparr>"

text \<open>
  The clock of its call number, how many databases may be open (\<open>fdbMaxNbDBsOpen\<close>), whether missing keywords are
  checked (\<open>checkMissingKeysOnWrite\<close>), and \<open>matchFirstFdbRule\<close>.
\<close>

record archive_env =
  av_clock :: "nat \<Rightarrow> nat"
  av_max :: nat
  av_check :: bool
  av_matchFirst :: bool

type_synonym db_name = "(string, string) dict"

text \<open>
  The members of the archiver. \<open>current_\<close> points to a database that \<open>databases_\<close> owns: it is the key of the
  database, and a key that is not there is a dangling pointer.
\<close>

record 'db archiver =
  ar_databases :: "(db_name, nat \<times> 'db) dict"
  ar_current :: "db_name option"
  ar_prev0 :: key
  ar_prev1 :: key
  ar_ticks :: nat

definition new_archiver :: "'db archiver" where
  "new_archiver = \<lparr>ar_databases = [], ar_current = None, ar_prev0 = new_key None, ar_prev1 = new_key None, ar_ticks = 0\<rparr>"

text \<open>\<open>::time(0)\<close>.\<close>

definition tick :: "archive_env \<Rightarrow> ('db archiver \<times> 'g, nat) step" where
  "tick A = (\<lambda>(a, g). (Inr (av_clock A (ar_ticks a)), (a\<lparr>ar_ticks := Suc (ar_ticks a)\<rparr>, g)))"

text \<open>The last of those that were used the longest time ago.\<close>

fun oldest_of :: "(db_name \<times> nat \<times> 'db) list \<Rightarrow> nat \<Rightarrow> db_name option \<Rightarrow> db_name option" where
  "oldest_of [] oldest found = found"
| "oldest_of ((k, t, db) # rest) oldest found =
     (if t \<le> oldest then oldest_of rest t (Some k) else oldest_of rest oldest found)"

text \<open>An exception in a destructor ends the program.\<close>

definition destroy_db :: "('db, 'g) db_ops \<Rightarrow> 'db \<Rightarrow> ('db archiver \<times> 'g, unit) step" where
  "destroy_db ops db = (\<lambda>(a, g).
     case do_destroy ops (db, g) of
       Inl e \<Rightarrow> (Inl (UndefinedBehaviour ''terminate''), (a, g))
     | Inr g \<Rightarrow> (Inr (), (a, g)))"

definition evict_oldest :: "archive_env \<Rightarrow> ('db, 'g) db_ops \<Rightarrow> ('db archiver \<times> 'g, unit) step" where
  "evict_oldest A ops =
     bindS (tick A) (\<lambda>now (a, g).
       case oldest_of (ar_databases a) (now + 24 * 60 * 60) None of
         None \<Rightarrow> (Inr (), (a, g))
       | Some k \<Rightarrow>
           (case map_of (ar_databases a) k of
              None \<Rightarrow> (Inr (), (a, g))
            | Some (t, db) \<Rightarrow> destroy_db ops db (a\<lparr>ar_databases := dict_erase k (ar_databases a)\<rparr>, g)))"

definition open_db :: "archive_env \<Rightarrow> ('db, 'g) db_ops \<Rightarrow> key \<Rightarrow> ('db archiver \<times> 'g, unit) step" where
  "open_db A ops key = (\<lambda>(a, g).
     case do_build ops key g of
       Inl e \<Rightarrow> (Inl e, (a, g))
     | Inr (db, g) \<Rightarrow>
         (case do_enabled ops (db, g) of
            Inl e \<Rightarrow> bindS (destroy_db ops db) (\<lambda>_. failS e) (a, g)
          | Inr enabled \<Rightarrow>
              if \<not> enabled
              then bindS (destroy_db ops db) (\<lambda>_. failS (UserError ''LOCKED against archiving'')) (a, g)
              else bindS (tick A) (\<lambda>now (a, g).
                     (Inr (), (a\<lparr>ar_databases := dict_put (key_dict key) (now, db) (ar_databases a)\<rparr>, g))) (a, g)))"

text \<open>\<open>Archiver::database(key)\<close>.\<close>

definition archiver_database :: "archive_env \<Rightarrow> ('db, 'g) db_ops \<Rightarrow> key \<Rightarrow> ('db archiver \<times> 'g, unit) step" where
  "archiver_database A ops key = (\<lambda>(a, g).
     case map_of (ar_databases a) (key_dict key) of
       Some (t, db) \<Rightarrow>
         bindS (tick A) (\<lambda>now (a, g).
           (Inr (), (a\<lparr>ar_databases := dict_put (key_dict key) (now, db) (ar_databases a)\<rparr>, g))) (a, g)
     | None \<Rightarrow>
         bindS (if av_max A \<le> length (ar_databases a) then evict_oldest A ops else retS ()) (\<lambda>_. open_db A ops key) (a, g))"

text \<open>The database that \<open>current_\<close> points to.\<close>

definition with_current ::
    "('db \<times> 'g \<Rightarrow> ('db \<times> 'g) res) \<Rightarrow> 'db archiver \<times> 'g \<Rightarrow> ('db archiver \<times> 'g) res" where
  "with_current f = (\<lambda>(a, g).
     case ar_current a of
       None \<Rightarrow> Inl (AssertFailed ''owner_.current_'')
     | Some k \<Rightarrow>
         (case map_of (ar_databases a) k of
            None \<Rightarrow> Inl (UndefinedBehaviour ''current_ is dangling'')
          | Some (t, db) \<Rightarrow>
              bindE (f (db, g)) (\<lambda>(db, g). Inr (a\<lparr>ar_databases := dict_put k (t, db) (ar_databases a)\<rparr>, g))))"

definition current_schema :: "('db, 'g) db_ops \<Rightarrow> 'db archiver \<times> 'g \<Rightarrow> schema res" where
  "current_schema ops = (\<lambda>(a, g).
     case ar_current a of
       None \<Rightarrow> Inl (AssertFailed ''current()'')
     | Some k \<Rightarrow>
         (case map_of (ar_databases a) k of
            None \<Rightarrow> Inl (UndefinedBehaviour ''current_ is dangling'')
          | Some (t, db) \<Rightarrow> Inr (do_schema ops db)))"

definition visitor_selectDatabase ::
    "archive_env \<Rightarrow> ('db, 'g) db_ops \<Rightarrow> key \<Rightarrow> 'db archiver \<times> 'g \<Rightarrow> ('db archiver \<times> 'g) res" where
  "visitor_selectDatabase A ops key s =
     (case archiver_database A ops key s of
        (Inl e, s) \<Rightarrow> Inl e
      | (Inr _, (a, g)) \<Rightarrow>
          with_current (\<lambda>(db, g). Inr (do_deselect ops db, g)) (a\<lparr>ar_current := Some (key_dict key)\<rparr>, g))"

definition checkMissingKeys :: "archive_env \<Rightarrow> ext \<Rightarrow> key \<Rightarrow> key \<Rightarrow> unit res" where
  "checkMissingKeys A e field full = (if av_check A then validateKeysOf e field full False else Inr ())"

text \<open>\<open>BaseArchiveVisitor\<close>, with what its subclass does to the current database.\<close>

definition base_archive_visitor ::
    "archive_env \<Rightarrow> ext \<Rightarrow> ('db, 'g) db_ops \<Rightarrow> key \<Rightarrow> (key \<Rightarrow> 'db \<times> 'g \<Rightarrow> ('db \<times> 'g) res) \<Rightarrow> ('db archiver \<times> 'g) write_ops"
where
  "base_archive_visitor A e ops field datum = \<lparr>
     wo_selectDatabase = (\<lambda>key full s. visitor_selectDatabase A ops key s),
     wo_selectIndex = (\<lambda>key full s. with_current (do_select ops key) s),
     wo_selectDatum = (\<lambda>path key full s. bindE (checkMissingKeys A e field full) (\<lambda>_. with_current (datum key) s)),
     wo_databaseSchema = current_schema ops\<rparr>"

definition archive_visitor ::
    "archive_env \<Rightarrow> ext \<Rightarrow> ('db, 'g) db_ops \<Rightarrow> key \<Rightarrow> bytes \<Rightarrow> ('db archiver \<times> 'g) write_ops" where
  "archive_visitor A e ops field data = base_archive_visitor A e ops field (\<lambda>key. do_archive ops key data)"

text \<open>\<open>AdoptVisitor\<close>: its constructor checks the place of the data.\<close>

definition adopt_visitor ::
    "archive_env \<Rightarrow> ext \<Rightarrow> ('db, 'g) db_ops \<Rightarrow> key \<Rightarrow> string \<Rightarrow> int \<Rightarrow> int \<Rightarrow> ('db archiver \<times> 'g) write_ops res" where
  "adopt_visitor A e ops field path offset len =
     bindE (assertE (0 \<le> offset) ''offset_ >= Offset(0)'') (\<lambda>_.
     bindE (assertE (0 < len) ''length_ > Length(0)'') (\<lambda>_.
       Inr (base_archive_visitor A e ops field (\<lambda>key. do_index ops key path offset len))))"

text \<open>\<open>Archiver::archive(key, visitor)\<close>: the datum is archived before its metadata is checked.\<close>

definition archiver_archive ::
    "archive_env \<Rightarrow> ext \<Rightarrow> ('db, 'g) db_ops \<Rightarrow> schema \<Rightarrow> key \<Rightarrow> ('db archiver \<times> 'g) write_ops \<Rightarrow>
     'db archiver \<times> 'g \<Rightarrow> ('db archiver \<times> 'g) res" where
  "archiver_archive A e ops sch field visitor = (\<lambda>(a, g).
     bindE (schema_expand_write visitor (av_matchFirst A) sch field (new_wvisitor (ar_prev0 a) (ar_prev1 a) (a, g))) (\<lambda>v.
       let (a, g) = wv_state v; a = a\<lparr>ar_prev0 := wv_prev0 v, ar_prev1 := wv_prev1 v\<rparr>
       in case wv_rule v of
            None \<Rightarrow> Inl (SeriousBug ''FDB: Could not find a rule to archive'')
          | Some path \<Rightarrow>
              bindE (current_schema ops (a, g)) (\<lambda>dbSchema.
              bindE (rule_check e dbSchema path field) (\<lambda>_. Inr (a, g)))))"

definition flush_one :: "('db, 'g) db_ops \<Rightarrow> db_name \<Rightarrow> 'db archiver \<times> 'g \<Rightarrow> ('db archiver \<times> 'g) res" where
  "flush_one ops k = (\<lambda>(a, g).
     case map_of (ar_databases a) k of
       None \<Rightarrow> Inr (a, g)
     | Some (t, db) \<Rightarrow>
         bindE (do_flush ops (db, g)) (\<lambda>(db, g). Inr (a\<lparr>ar_databases := dict_put k (t, db) (ar_databases a)\<rparr>, g)))"

definition archiver_flush :: "('db, 'g) db_ops \<Rightarrow> 'db archiver \<times> 'g \<Rightarrow> ('db archiver \<times> 'g) res" where
  "archiver_flush ops = (\<lambda>(a, g). foldE (flush_one ops) (dict_keys (ar_databases a)) (a, g))"

text \<open>The destructor: everything is flushed, then the databases go.\<close>

definition archiver_destroy :: "('db, 'g) db_ops \<Rightarrow> 'db archiver \<times> 'g \<Rightarrow> 'g res" where
  "archiver_destroy ops s =
     bindE (archiver_flush ops s) (\<lambda>(a, g). foldE (\<lambda>(k, t, db) g. do_destroy ops (db, g)) (ar_databases a) g)"


section \<open>What a database archives is read back\<close>

text \<open>\<open>archive\<close> for one field after the other.\<close>

definition db_archive_all ::
    "('u :: linorder, 'd, 's) db_env \<Rightarrow> (key \<times> bytes) list \<Rightarrow> 'u toc_db \<times> ('d, 's) globals \<Rightarrow> ('u toc_db \<times> ('d, 's) globals) res" where
  "db_archive_all X kds = foldE (\<lambda>(k, data). db_archive X k data) kds"

lemma put_key: "toc_index_put E k f i st = Inr (i', st') \<Longrightarrow> ib_key (tx_base i') = ib_key (tx_base i)"
  by (auto simp: toc_index_put_def toc_index_add_def make_ref_def bindE_eq_Inr Let_def split: option.splits if_splits)

text \<open>The store and the catalogue of a database do not interfere.\<close>

lemma db_archive_splits:
  assumes "one_index h ikey i w" and "ib_key (tx_base i) = ikey"
    and "store_of X \<lparr>gl_disk = d, gl_stores = st, gl_bytes = bs, gl_schemas = schemas\<rparr> db = Inr s" and "db_catalogue db = w"
    and "archive_fields (dx_store X) (cx_ext (dx_cat X)) (dx_paths X) (ie_uris (cx_index (dx_cat X)))
           (map (\<lambda>(k, data). (ikey, data)) kds) (s, bs) = (Inr locs, s', bs')"
    and "archive_all (dx_cat X) (zip (map fst kds) locs) (w, d, st) = Inr (w', d', st')"
  shows "\<exists>db'. db_archive_all X kds (db, \<lparr>gl_disk = d, gl_stores = st, gl_bytes = bs, gl_schemas = schemas\<rparr>) =
      Inr (db', \<lparr>gl_disk = d', gl_stores = st', gl_bytes = bs', gl_schemas = schemas\<rparr>) \<and> db_catalogue db' = w' \<and>
      (if kds = [] then db' = db else db_store db' = Some s')"
  using assms
proof (induction kds arbitrary: i w db st bs s locs)
  case Nil
  then show ?case by (auto simp: db_archive_all_def archive_all_def)
next
  case (Cons kd kds)
  obtain k data where kd: "kd = (k, data)" by (cases kd)
  let ?A = "store_archive (dx_store X) (cx_ext (dx_cat X)) (dx_paths X) (ie_uris (cx_index (dx_cat X)))"
  let ?g = "\<lambda>st bs. \<lparr>gl_disk = d, gl_stores = st, gl_bytes = bs, gl_schemas = schemas\<rparr>"
  from Cons.prems(5) obtain l ls s1 bs1 where l: "?A ikey data (s, bs) = (Inr l, s1, bs1)" and locs: "locs = l # ls"
    and rest: "archive_fields (dx_store X) (cx_ext (dx_cat X)) (dx_paths X) (ie_uris (cx_index (dx_cat X)))
           (map (\<lambda>(k, data). (ikey, data)) kds) (s1, bs1) = (Inr ls, s', bs')"
    by (auto simp: kd bindS_eq_Inr)
  let ?f = "archived_field (ib_timestamp (tx_base i)) l"
  from Cons.prems(6) obtain i1 st1 where put: "toc_index_put (cx_index (dx_cat X)) k ?f i st = Inr (i1, st1)"
    and all: "archive_all (dx_cat X) (zip (map fst kds) ls) (w\<lparr>cw_dirty := True, cw_objects := [i1]\<rparr>, d, st1) = Inr (w', d', st')"
    by (auto simp: kd locs archive_all_def archive_one [OF Cons.prems(1)] bindE_eq_Inr)
  let ?w1 = "w\<lparr>cw_dirty := True, cw_objects := [i1]\<rparr>"
  let ?db1 = "db\<lparr>db_catalogue := ?w1, db_store := Some s1\<rparr>"
  have one: "one_index h ikey i1 ?w1" using Cons.prems(1) by (simp add: one_index_def)
  have cur: "ensure_current (dx_cat X) (w, d, st) = Inr (0, w, d, st)" and obj: "cw_objects w ! 0 = i"
    using Cons.prems(1) by (simp_all add: ensure_current_def one_index_def)
  have step: "db_archive X k data (db, ?g st bs) = Inr (?db1, ?g st1 bs1)"
    using Cons.prems(2,3,4) l put archive_one [OF Cons.prems(1), of "dx_cat X" k l d st]
    by (simp add: db_archive_def cur obj on_store_def on_catalogue_def)
  have "store_of X (?g st1 bs1) ?db1 = Inr s1" by (simp add: store_of_def)
  from Cons.IH [OF one _ this _ rest all] put_key [OF put] Cons.prems(2) obtain db' where
    "db_archive_all X kds (?db1, ?g st1 bs1) = Inr (db', \<lparr>gl_disk = d', gl_stores = st', gl_bytes = bs', gl_schemas = schemas\<rparr>)"
    "db_catalogue db' = w'" "if kds = [] then db' = ?db1 else db_store db' = Some s'" by auto
  then show ?case using step rest by (auto simp: db_archive_all_def kd split: if_splits)
qed


text \<open>Archiving into a store whose files can be opened succeeds.\<close>

definition handles_open :: "toc_store \<Rightarrow> bool" where
  "handles_open s \<longleftrightarrow> (\<forall>p h. map_of (ts_handles s) p = Some h \<longrightarrow> fh_file h \<noteq> None)"

lemma store_archive_succeeds:
  assumes "\<forall>p. se_canOpen E p" and "valuesToString e key = Inr vs" and "handles_open s"
  shows "\<exists>loc s' fs'. store_archive E e P U key data (s, fs) = (Inr loc, s', fs') \<and> handles_open s'"
proof -
  let ?s0 = "s\<lparr>ts_dirty := True\<rparr>"
  obtain path s1 where path: "getDataPath E e P key (?s0, fs) = (Inr path, s1, fs)" "ts_handles s1 = ts_handles s"
    using assms(2) by (cases "map_of (ts_paths s) (key_dict key)") (auto simp: getDataPath_def generateDataPath_def)
  obtain s2 fs2 h where handle: "getDataHandle E path (s1, fs) = (Inr (), s2, fs2)" "map_of (ts_handles s2) path = Some h"
    and opened: "fh_file h \<noteq> None" "handles_open s2"
  proof (cases "map_of (ts_handles s1) path")
    case None
    then show ?thesis
      using that assms(1,3) path(2)
      by (fastforce simp: getDataHandle_def on_handle_def handle_openForAppend_def new_file_handle_def handles_open_def)
  next
    case (Some h)
    then show ?thesis
      using that [of s1 fs h] assms(3) path(2) by (auto simp: getDataHandle_def handles_open_def)
  qed
  obtain buf where buf: "fh_file h = Some buf" using opened(1) by blast
  show ?thesis
    using path handle opened(2) buf
    by (auto simp: store_archive_def bindS_def handle_position_def on_handle_def handle_write_def Let_def handles_open_def)
qed

lemma archive_fields_succeeds:
  assumes "\<forall>p. se_canOpen E p" and "valuesToString e key = Inr vs" and "handles_open s"
  shows "\<exists>locs s' fs'. archive_fields E e P U (map (\<lambda>(k, d). (key, d)) kds) (s, fs) = (Inr locs, s', fs') \<and> handles_open s'"
  using assms(3)
proof (induction kds arbitrary: s fs)
  case (Cons kd kds)
  obtain k d where kd: "kd = (k, d)" by (cases kd)
  from store_archive_succeeds [OF assms(1,2) Cons.prems, of P U d fs] obtain l s1 fs1 where
    1: "store_archive E e P U key d (s, fs) = (Inr l, s1, fs1)" "handles_open s1" by blast
  from Cons.IH [OF 1(2), of fs1] 1(1) show ?case by (auto simp: kd)
qed simp

lemma archive_fields_locations:
  assumes "store_ok st" and "archive_fields E e P U kds st = (Inr locs, st')"
  shows "length locs = length kds \<and> (\<forall>l \<in> set locs. lo_class l = TocLocation \<and> (\<exists>p. lo_uri l = u_file U p))"
proof -
  have "list_all2 (\<lambda>(k, d) l. stands U (view st') d l) kds locs"
    using archive_fields_view [OF assms] by blast
  then show ?thesis
    by (induction rule: list_all2_induct) (auto simp: stands_def new_location_def)
qed

text \<open>
  Where the locations begin: behind what the files held before. A handle that lets nothing out before it is
  flushed leaves the files as they were.
\<close>

lemma grow_content: "files_grow fs fs' \<Longrightarrow> length (content fs p) \<le> length (content fs' p)"
  unfolding files_grow_def content_def by (cases "map_of fs p") fastforce+

lemma archive_fields_offsets:
  assumes "store_ok st" and "archive_fields E e P U kds st = (Inr locs, st')"
  shows "\<forall>l \<in> set locs. \<exists>p. lo_uri l = u_file U p \<and> int (length (content (snd st) p)) \<le> lo_offset l"
  using assms
proof (induction kds arbitrary: st locs)
  case (Cons kd kds)
  obtain k d where kd: "kd = (k, d)" by (cases kd)
  with Cons.prems(2) obtain l ls st1 where l: "store_archive E e P U k d st = (Inr l, st1)"
    and ls: "archive_fields E e P U kds st1 = (Inr ls, st')" and locs: "locs = l # ls"
    by (auto simp: bindS_eq_Inr)
  from store_archive_view [OF Cons.prems(1) l] obtain path where ok1: "store_ok st1"
    and loc: "lo_uri l = u_file U path" "lo_offset l = int (length (view st path))"
    by (auto simp: new_location_def)
  have "length (content (snd st) p) \<le> length (content (snd st1) p)" for p
    by (rule grow_content [OF store_archive_grows [OF l]])
  then have "\<forall>l \<in> set ls. \<exists>p. lo_uri l = u_file U p \<and> int (length (content (snd st) p)) \<le> lo_offset l"
    using Cons.IH [OF ok1 ls] by (meson of_nat_mono order_trans)
  moreover have "length (content (snd st) path) \<le> length (view st path)" by (simp add: view_def)
  ultimately show ?case using loc by (auto simp: locs)
qed simp

lemma archive_fields_unspilled:
  assumes "\<forall>b. se_spill E b = 0"
  shows "archive_fields E e P U kds st = (r, st') \<Longrightarrow> content (snd st') = content (snd st)"
proof (induction kds arbitrary: st r)
  case (Cons kd kds)
  obtain k d where kd: "kd = (k, d)" by (cases kd)
  have path: "snd st' = snd st" if "getDataPath E e P k st = (r, st')" for r st st'
    using that by (cases st) (auto simp: getDataPath_def split: option.splits sum.splits)
  have handle: "content (snd st') = content (snd st)" if "getDataHandle E q st = (r, st')" for q r st st'
    using that
    by (cases st)
      (auto simp: getDataHandle_def on_handle_def handle_openForAppend_def content_put fun_eq_iff split: option.splits if_splits)
  have wr: "content (snd st') = content (snd st)" if "on_handle q (handle_write E q d) st = (r, st')" for q r st st'
    using that assms
    by (cases st) (auto simp: on_handle_def handle_write_def content_put Let_def fun_eq_iff split: option.splits)
  have pos: "snd st' = snd st" if "handle_position q st = (r, st')" for q r st st'
    using that by (cases st) (auto simp: handle_position_def split: option.splits)
  have step: "content (snd st1) = content (snd st)" if "store_archive E e P U k d st = (r, st1)" for r st1
    using that
    by (cases st) (auto simp: store_archive_def bindS_def split: prod.splits sum.splits dest!: path handle wr pos)
  show ?case
    using Cons.prems Cons.IH step
    by (auto simp: kd bindS_def split: prod.splits sum.splits)
qed simp

text \<open>The file that a store keeps the data of a key in: every field of the key goes there.\<close>

definition data_path :: "store_env \<Rightarrow> ext \<Rightarrow> path_ops \<Rightarrow> key \<Rightarrow> toc_store \<Rightarrow> string" where
  "data_path E e P key s =
     (case map_of (ts_paths s) (key_dict key) of
        Some p \<Rightarrow> p
      | None \<Rightarrow> se_unique E (ts_calls s) (po_join P (ts_directory s) (key_print e key)) @ ''.data'')"

lemma store_archive_path:
  assumes "store_archive E e P U key data st = (Inr l, st')"
  shows "lo_uri l = u_file U (data_path E e P key (fst st)) \<and> data_path E e P key (fst st') = data_path E e P key (fst st)"
proof -
  obtain s fs where st: "st = (s, fs)" by (cases st)
  from assms obtain path st1 st2 n where path: "getDataPath E e P key (s\<lparr>ts_dirty := True\<rparr>, fs) = (Inr path, st1)"
    and get: "getDataHandle E path st1 = (Inr (), st2)"
    and wr: "on_handle path (handle_write E path data) st2 = (Inr n, st')" and l: "lo_uri l = u_file U path"
    by (auto simp: store_archive_def bindS_eq_Inr st new_location_def handle_position_def split: option.splits)
  have "path = data_path E e P key s" "map_of (ts_paths (fst st1)) (key_dict key) = Some path"
    using path by (auto simp: getDataPath_def generateDataPath_def data_path_def key_print_def bindE_eq_Inr
        split: option.splits sum.splits)
  moreover have "ts_paths (fst st2) = ts_paths (fst st1)"
    using get by (cases st1) (auto simp: getDataHandle_def on_handle_def split: option.splits prod.splits)
  moreover have "ts_paths (fst st') = ts_paths (fst st2)"
    using wr by (cases st2) (auto simp: on_handle_def split: option.splits prod.splits)
  ultimately show ?thesis using l by (simp add: st data_path_def)
qed

lemma archive_fields_path:
  "archive_fields E e P U (map (\<lambda>(k, d). (key, d)) kds) st = (Inr locs, st') \<Longrightarrow>
   \<forall>l \<in> set locs. lo_uri l = u_file U (data_path E e P key (fst st))"
proof (induction kds arbitrary: st locs)
  case (Cons kd kds)
  obtain k d where kd: "kd = (k, d)" by (cases kd)
  with Cons.prems obtain l ls st1 where l: "store_archive E e P U key d st = (Inr l, st1)"
    and ls: "archive_fields E e P U (map (\<lambda>(k, d). (key, d)) kds) st1 = (Inr ls, st')" and locs: "locs = l # ls"
    by (auto simp: bindS_eq_Inr)
  from Cons.IH [OF ls] store_archive_path [OF l] show ?case by (simp add: locs)
qed simp

text \<open>A database whose catalogue was just opened.\<close>

definition fresh_db :: "toc_handler \<Rightarrow> key \<Rightarrow> schema \<Rightarrow> control_ids \<Rightarrow> 'u toc_db" where
  "fresh_db h key sch ids = \<lparr>db_catalogue = new_writer h key, db_store = None, db_schema = sch, db_ids = ids\<rparr>"

text \<open>
  A session with data: archiving succeeds, the store then holds the bytes of every field in its files and
  buffers, and the locations in the catalogue point to them; the catalogue can be flushed, and whoever
  reads afterwards finds the location of the last field of a key.
\<close>

definition data_session ::
    "('u :: linorder, 'd, 's) db_env \<Rightarrow> toc_handler \<Rightarrow> key \<Rightarrow> schema \<Rightarrow> control_ids \<Rightarrow> key \<Rightarrow> tree_class \<Rightarrow> toc_record list \<Rightarrow> nat \<Rightarrow>
     string set \<Rightarrow> (key \<times> bytes) list \<Rightarrow> ('d, 's) globals \<Rightarrow> bool" where
  "data_session X h key sch ids ikey c rs n ks kds g \<longleftrightarrow>
     (let C = dx_cat X; U = ie_uris (cx_index C) in
      session_start C h ikey c (gl_disk g) rs n (gl_stores g) \<and> ks \<noteq> {} \<and>
      (\<exists>s. store_of X g (fresh_db h key sch ids) = Inr s \<and>
        u_scheme U (u_file U (data_path (dx_store X) (cx_ext C) (cx_paths C) ikey s)) = ''file'') \<and>
      (\<forall>(k, data) \<in> set kds. good_key (cx_ext C) ks k \<and> data \<noteq> []) \<and>
      (\<forall>p. se_canOpen (dx_store X) p) \<and> file_path_law U \<and>
      map_of (ie_builders (cx_index C)) ''file'' = Some TocLocation)"

text \<open>A reader that is made of a directory afterwards finds a field for the key, with a property of its location.\<close>

definition reader_finds ::
    "('u :: linorder, 'd, 's) cat_env \<Rightarrow> toc_handler \<Rightarrow> key \<Rightarrow> key \<Rightarrow> disk \<Rightarrow> disk \<Rightarrow> ('u location \<Rightarrow> bool) \<Rightarrow> ('d, 's) stores \<Rightarrow> bool" where
  "reader_finds C h ikey k d d' Q st \<longleftrightarrow>
     (\<exists>N. \<forall>m \<ge> N. \<forall>r0 st5. loadIndexesAndRemap (C\<lparr>cx_fuel := m\<rparr>) d h st = Inr (r0, st5) \<longrightarrow>
        (\<exists>r st6 r' st7 f. loadIndexesAndRemap (C\<lparr>cx_fuel := m\<rparr>) d' h st = Inr (r, st6) \<and>
           fst (reader_selectIndex ikey r) \<and>
           reader_retrieve C k (snd (reader_selectIndex ikey r)) st6 = Inr (Some f, r', st7) \<and> Q (fd_location f)))"

lemma find_or_make_key: "find_or_make X key store w = Inr (p, store', w') \<Longrightarrow> cw_key w' = cw_key w"
  by (auto simp: find_or_make_def generateIndexPath_def bindE_eq_Inr Let_def split: option.splits)

lemma writer_select_key:
  assumes "writer_selectIndex X key (w, fs) = Inr (w', fs')"
  shows "cw_key w' = cw_key w"
  using assms
  by (cases fs) (auto simp: writer_selectIndex_def on_object_def bindE_eq_Inr dest!: find_or_make_key split: if_splits)

lemma data_session_archives:
  fixes X :: "('u :: linorder, 'd, 's) db_env"
  assumes start: "data_session X h key sch ids ikey c rs n ks (xs @ (k, data) # ys) g"
    and last: "\<forall>(j, b) \<in> set ys. key_print (cx_ext (dx_cat X)) j \<noteq> key_print (cx_ext (dx_cat X)) k"
    and hr: "th_cache hr = None" "key_empty (th_parentKey hr)" "th_directory hr = th_directory h" "th_tocPath hr = th_tocPath h"
      "th_remapKey hr = new_key None"
  shows "\<exists>db1 g1 db2 g2 s2 l w3 d' st3.
    db_selectIndex X ikey (fresh_db h key sch ids, g) = Inr (db1, g1) \<and>
    db_archive_all X (xs @ (k, data) # ys) (db1, g1) = Inr (db2, g2) \<and> gl_disk g2 = gl_disk g \<and>
    cw_handler (db_catalogue db2) = h \<and>
    db_store db2 = Some s2 \<and> store_ok (s2, gl_bytes g2) \<and> files_grow (gl_bytes g) (gl_bytes g2) \<and>
    ((\<forall>b. se_spill (dx_store X) b = 0) \<longrightarrow> content (gl_bytes g2) = content (gl_bytes g)) \<and>
    (\<exists>p. lo_uri l = u_file (ie_uris (cx_index (dx_cat X))) p \<and> int (length (content (gl_bytes g) p)) \<le> lo_offset l) \<and>
    stands (ie_uris (cx_index (dx_cat X))) (view (s2, gl_bytes g2)) data l \<and>
    writer_flush (dx_cat X) (db_catalogue db2, gl_disk g2, gl_stores g2) = Inr (w3, d', st3) \<and>
    (\<forall>st4. world_ok (sx_world st4) \<and> sx_trees st4 = sx_trees st3 \<longrightarrow>
       reader_finds (dx_cat X) hr ikey k (gl_disk g) d' (\<lambda>m. m = l) st4)"
proof -
  let ?C = "dx_cat X" and ?U = "ie_uris (cx_index (dx_cat X))" and ?kds = "xs @ (k, data) # ys"
  let ?A = "archive_fields (dx_store X) (cx_ext ?C) (dx_paths X) ?U"
  note s = start [unfolded data_session_def Let_def]
  obtain sdir where sdir: "store_of X g (fresh_db h key sch ids) = Inr (new_toc_store sdir)"
    and file_scheme: "u_scheme ?U (u_file ?U (data_path (dx_store X) (cx_ext ?C) (dx_paths X) ikey (new_toc_store sdir))) = ''file''"
  proof -
    from s obtain t where t: "store_of X g (fresh_db h key sch ids) = Inr t"
      "u_scheme ?U (u_file ?U (data_path (dx_store X) (cx_ext ?C) (dx_paths X) ikey t)) = ''file''" by blast
    moreover from t(1) obtain b where "t = new_toc_store b"
      by (auto simp: store_of_def fresh_db_def bindE_eq_Inr)
    ultimately show ?thesis using that by blast
  qed
  obtain vs where vs: "valuesToString (cx_ext ?C) ikey = Inr vs" using s by (auto simp: session_start_def Let_def)
  have no_handles: "handles_open (new_toc_store sdir)" by (simp add: handles_open_def new_toc_store_def)
  have opens: "\<forall>p. se_canOpen (dx_store X) p" using s by blast
  from archive_fields_succeeds [OF opens vs no_handles, of "dx_paths X" ?U ?kds "gl_bytes g"]
  obtain locs s2 bs2 where fields: "?A (map (\<lambda>(k, d). (ikey, d)) ?kds) (new_toc_store sdir, gl_bytes g) = (Inr locs, s2, bs2)" by blast
  note kept = archive_fields_view [OF store_ok_new fields] and locations = archive_fields_locations [OF store_ok_new fields]
  have schemes: "\<forall>l \<in> set locs. u_scheme ?U (lo_uri l) = ''file''"
    using archive_fields_path [OF fields] file_scheme by simp
  have len: "length locs = length xs + Suc (length ys)" using locations by simp
  obtain ls l ms where locs: "locs = ls @ l # ms" "length ls = length xs" "length ms = length ys"
    using len id_take_nth_drop [of "length xs" locs] by (intro that [of "take (length xs) locs" "locs ! length xs" "drop (Suc (length xs)) locs"]) simp_all
  let ?xs = "zip (map fst xs) ls" and ?ys = "zip (map fst ys) ms"
  have zips: "zip (map fst ?kds) locs = ?xs @ (k, l) # ?ys" using locs by simp
  have good: "\<forall>(k, l) \<in> set (?xs @ (k, l) # ?ys). good_key (cx_ext ?C) ks k \<and> lo_class l = TocLocation \<and>
      u_scheme ?U (lo_uri l) \<noteq> ''unix''"
  proof -
    have "good_key (cx_ext ?C) ks j \<and> lo_class m = TocLocation \<and> u_scheme ?U (lo_uri m) \<noteq> ''unix''"
      if "(j, m) \<in> set (zip (map fst ?kds) locs)" for j m
    proof -
      have "j \<in> fst ` set ?kds" "m \<in> set locs" using that by (auto dest: set_zip_leftD set_zip_rightD simp del: map_append)
      then show ?thesis using s locations schemes by fastforce
    qed
    then show ?thesis unfolding zips by blast
  qed
  have last': "\<forall>(j, m) \<in> set ?ys. key_print (cx_ext ?C) j \<noteq> key_print (cx_ext ?C) k"
    using last by (fastforce dest: set_zip_leftD)
  from kept obtain rest where stand: "stands ?U (view (s2, bs2)) data l"
    using list_all2_nthD [of _ "map (\<lambda>(k, d). (ikey, d)) ?kds" locs "length xs"] locs by (fastforce simp: nth_append)
  then have len: "lo_length l \<noteq> 0" and scheme: "u_scheme ?U (lo_uri l) = ''file''" and
    loc: "new_location TocLocation (lo_uri l) (lo_offset l) (lo_length l) (new_key None) = l"
    using s schemes locs(1) by (auto simp: stands_def new_location_def)
  have ss: "session_start ?C h ikey c (gl_disk g) rs n (gl_stores g)" "ks \<noteq> {}" and
    cl: "map_of (ie_builders (cx_index ?C)) (u_scheme ?U (lo_uri l)) = Some TocLocation"
    using s scheme by simp_all
  from session_retrieves [OF ss(1) good last' ss(2) len cl hr(1-4), of key] obtain w1 st1 w2 st2 w3 d' st3 where
    w: "writer_selectIndex ?C ikey (new_writer h key, gl_disk g, gl_stores g) = Inr (w1, gl_disk g, st1)"
      "archive_all ?C (?xs @ (k, l) # ?ys) (w1, gl_disk g, st1) = Inr (w2, gl_disk g, st2)"
      "writer_flush ?C (w2, gl_disk g, st2) = Inr (w3, d', st3)"
    and finds: "\<forall>st4. world_ok (sx_world st4) \<and> sx_trees st4 = sx_trees st3 \<longrightarrow>
       (\<exists>N. \<forall>m \<ge> N. \<forall>r0 st5. loadIndexesAndRemap (?C\<lparr>cx_fuel := m\<rparr>) (gl_disk g) hr st4 = Inr (r0, st5) \<longrightarrow>
        (\<exists>r st6 r' st7 ts dt. loadIndexesAndRemap (?C\<lparr>cx_fuel := m\<rparr>) d' hr st4 = Inr (r, st6) \<and>
           fst (reader_selectIndex ikey r) \<and>
           reader_retrieve ?C k (snd (reader_selectIndex ikey r)) st6 =
             Inr (Some \<lparr>fd_location = l, fd_timestamp = ts, fd_details = dt\<rparr>, r', st7)))"
    unfolding hr(5) loc by blast
  obtain i where one: "one_index h ikey i w1" "ib_key (tx_base i) = ikey"
  proof -
    have a: "btree_laws (ie_lib (cx_index ?C))" "dense_laws (ie_dense (cx_index ?C))" "\<not> th_useSubToc h"
      "map_of tree_classes (cx_type ?C) = Some c"
      "bl_size (ie_lib (cx_index ?C)) (first_index_path ?C h ikey) (sx_trees (gl_stores g)) = 0"
      using ss(1) by (simp_all add: session_start_def Let_def)
    from select_opens [OF a(1,2) vs a(3-5), of key "gl_disk g" ks] w(1) show ?thesis by (auto intro: that)
  qed
  let ?db1 = "(fresh_db h key sch ids)\<lparr>db_catalogue := w1\<rparr>" and ?g1 = "g\<lparr>gl_stores := st1\<rparr>"
  have sel: "db_selectIndex X ikey (fresh_db h key sch ids, g) = Inr (?db1, ?g1)"
    using w(1) by (simp add: db_selectIndex_def on_catalogue_def fresh_db_def)
  obtain d st bs schemas where g: "g = \<lparr>gl_disk = d, gl_stores = st, gl_bytes = bs, gl_schemas = schemas\<rparr>" by (cases g)
  have "store_of X ?g1 ?db1 = store_of X g (fresh_db h key sch ids)"
    using writer_select_key [OF w(1)] by (simp add: store_of_def fresh_db_def new_writer_def)
  then have store: "store_of X \<lparr>gl_disk = d, gl_stores = st1, gl_bytes = bs, gl_schemas = schemas\<rparr> ?db1 = Inr (new_toc_store sdir)"
    using sdir by (simp add: g)
  have "archive_all ?C (zip (map fst ?kds) locs) (w1, d, st1) = Inr (w2, d, st2)"
    using w(2) unfolding zips by (simp add: g)
  moreover have "gl_bytes g = bs" by (simp add: g)
  note fields [unfolded this]
  moreover have "db_catalogue ?db1 = w1" by simp
  ultimately obtain db2 where
    db2: "db_archive_all X ?kds (?db1, \<lparr>gl_disk = d, gl_stores = st1, gl_bytes = bs, gl_schemas = schemas\<rparr>) =
      Inr (db2, \<lparr>gl_disk = d, gl_stores = st2, gl_bytes = bs2, gl_schemas = schemas\<rparr>)"
    "db_catalogue db2 = w2" "db_store db2 = Some s2"
    using db_archive_splits [OF one store] by fastforce
  let ?g2 = "\<lparr>gl_disk = d, gl_stores = st2, gl_bytes = bs2, gl_schemas = schemas\<rparr>"
  have "cw_handler w2 = h"
    using w(2) one(1) unfolding archive_all_puts [OF one(1)]
    by (auto simp: one_index_def bindE_eq_Inr split: if_splits)
  moreover have "\<exists>p. lo_uri l = u_file ?U p \<and> int (length (content (gl_bytes g) p)) \<le> lo_offset l"
    using archive_fields_offsets [OF store_ok_new fields] by (simp add: locs)
  moreover have "(\<forall>b. se_spill (dx_store X) b = 0) \<longrightarrow> content bs2 = content (gl_bytes g)"
    using archive_fields_unspilled [OF _ fields] by simp
  moreover  have "reader_finds ?C hr ikey k (gl_disk g) d' (\<lambda>m. m = l) st4"
    if "world_ok (sx_world st4) \<and> sx_trees st4 = sx_trees st3" for st4
    using finds [rule_format, OF that] unfolding reader_finds_def by fastforce
  ultimately show ?thesis
    using sel db2 w(3) kept stand
    by (intro exI [of _ ?db1] exI [of _ ?g1] exI [of _ db2] exI [of _ ?g2] exI [of _ s2] exI [of _ l] exI [of _ w3] exI [of _ d']
        exI [of _ st3]) (simp add: g)
qed


section \<open>Properties of a database\<close>

text \<open>
  C1: The bytes that are archived are the bytes that are retrieved. In a new database without sub tocs an index is
  selected, fields with at least one byte are archived under keys with the same keywords, whose values joined by
  colons have at most 32 characters and no NUL, and the database is flushed: every step succeeds.
  A reader that is made afterwards, in another process, finds the last field of a key, and reading its
  location gives exactly the bytes that were archived; whatever was in the data files before is still there.
\<close>
theorem archived_bytes_read_back:
  fixes X :: "('u :: linorder, 'd, 's) db_env"
  assumes "data_session X h key sch ids ikey c rs n ks (xs @ (k, data) # ys) g"
    and "\<forall>(j, b) \<in> set ys. key_print (cx_ext (dx_cat X)) j \<noteq> key_print (cx_ext (dx_cat X)) k"
    and hr: "th_cache hr = None" "key_empty (th_parentKey hr)" "th_directory hr = th_directory h" "th_tocPath hr = th_tocPath h"
      "th_remapKey hr = new_key None"
  shows "\<exists>db1 g1 db2 g2 db3 g3. db_selectIndex X ikey (fresh_db h key sch ids, g) = Inr (db1, g1) \<and>
    db_archive_all X (xs @ (k, data) # ys) (db1, g1) = Inr (db2, g2) \<and> db_flush X (db2, g2) = Inr (db3, g3) \<and>
    files_grow (gl_bytes g) (gl_bytes g3) \<and>
    (\<forall>st. world_ok (sx_world st) \<and> sx_trees st = sx_trees (gl_stores g3) \<longrightarrow>
       reader_finds (dx_cat X) hr ikey k (gl_disk g) (gl_disk g3)
         (\<lambda>l. location_data munge (ie_uris (cx_index (dx_cat X))) (gl_bytes g3) l = Inr data) st)"
proof -
  let ?U = "ie_uris (cx_index (dx_cat X))"
  have U: "file_path_law ?U" and "data \<noteq> []" using assms(1) by (simp_all add: data_session_def Let_def)
  from data_session_archives [OF assms] obtain db1 g1 db2 g2 s2 l w3 d' st3 where
    run: "db_selectIndex X ikey (fresh_db h key sch ids, g) = Inr (db1, g1)"
      "db_archive_all X (xs @ (k, data) # ys) (db1, g1) = Inr (db2, g2)"
    and store: "db_store db2 = Some s2" "store_ok (s2, gl_bytes g2)" "files_grow (gl_bytes g) (gl_bytes g2)"
      "stands ?U (view (s2, gl_bytes g2)) data l"
    and fl: "writer_flush (dx_cat X) (db_catalogue db2, gl_disk g2, gl_stores g2) = Inr (w3, d', st3)"
    and finds: "\<forall>st. world_ok (sx_world st) \<and> sx_trees st = sx_trees st3 \<longrightarrow>
       reader_finds (dx_cat X) hr ikey k (gl_disk g) d' (\<lambda>m. m = l) st" by blast
  from store_flush_view [OF store(2)] obtain s3 bs3 where
    sf: "store_flush (s2, gl_bytes g2) = (Inr (), s3, bs3)" "content bs3 = view (s2, gl_bytes g2)" by auto
  have reads: "location_data munge ?U bs3 l = Inr data"
    using stands_reads [OF U _ \<open>data \<noteq> []\<close>] store(4) sf(2) by metis
  have "files_grow (gl_bytes g) bs3"
    using files_grow_trans [OF store(3)] store_flush_grows [OF sf(1)] by simp
  moreover have "db_flush X (db2, g2) =
      Inr (db2\<lparr>db_catalogue := w3, db_store := Some s3\<rparr>, g2\<lparr>gl_disk := d', gl_stores := st3, gl_bytes := bs3\<rparr>)"
    using store(1) sf(1) fl by (simp add: db_flush_def flush_store_def on_store_def on_catalogue_def)
  moreover have "reader_finds (dx_cat X) hr ikey k (gl_disk g) d' (\<lambda>l. location_data munge ?U bs3 l = Inr data) st"
    if "world_ok (sx_world st)" "sx_trees st = sx_trees st3" for st
    using finds [rule_format, OF conjI, OF that] reads unfolding reader_finds_def by fastforce
  ultimately show ?thesis using run by fastforce
qed


text \<open>A database on the reference libraries, with handles that let out some or nothing of their buffers.\<close>

definition sample_db_env :: "(bytes \<Rightarrow> nat) \<Rightarrow> (string, string list, ref_trees) db_env" where
  "sample_db_env spill = \<lparr>dx_cat = session_env, dx_store = \<lparr>se_canOpen = (\<lambda>_. True), se_spill = spill, se_unique = (\<lambda>n p. p)\<rparr>,
     dx_directory = (\<lambda>k. Inr (''/db'', 0)), dx_storeDirectory = (\<lambda>k. Inr ''/db''), dx_version = 2, dx_useSubToc = False,
     dx_parse = (\<lambda>p. Inr trivial_schema)\<rparr>"

definition sample_globals :: "(string list, ref_trees) globals" where
  "sample_globals = \<lparr>gl_disk = session_disk, gl_stores = session_stores, gl_bytes = [], gl_schemas = []\<rparr>"

lemma sample_db_members [simp]:
  "dx_cat (sample_db_env spill) = session_env" "gl_disk sample_globals = session_disk" "gl_stores sample_globals = session_stores"
  "gl_bytes sample_globals = []" "cx_ext session_env = ref_ext" "ie_uris sample_index_env = ref_uri_ops"
  "se_spill (dx_store (sample_db_env spill)) = spill" "se_canOpen (dx_store (sample_db_env spill)) p"
  by (simp_all add: sample_db_env_def sample_globals_def)

lemma sample_data_session:
  assumes "\<forall>(k, d) \<in> set kds. k = sample_key \<and> d \<noteq> []"
  shows "data_session (sample_db_env spill) sample_handler (od_dict_key ''od'') trivial_schema 0 (od_dict_key ''od'')
    tree_32_65536_reduced [sample_init ''od''] 0 {''class'', ''step''} kds sample_globals"
proof -
  let ?db = "fresh_db sample_handler (od_dict_key ''od'') trivial_schema 0 :: string toc_db"
  have "findRealPath sample_paths session_disk ''/db'' = Inr ''/db''"
    by (simp add: findRealPath_def path_exists_def session_disk_def sample_paths_def)
  then have store: "store_of (sample_db_env spill) sample_globals ?db = Inr (new_toc_store ''/db'')"
    by (simp add: store_of_def fresh_db_def sample_db_env_def new_writer_def)
  have "data_path (dx_store (sample_db_env spill)) ref_ext sample_paths (od_dict_key ''od'') (new_toc_store ''/db'') = ''/db/od.data''"
    by (simp add: data_path_def new_toc_store_def sample_db_env_def od_key_facts sample_paths_def)
  moreover have "u_scheme ref_uri_ops (u_file ref_uri_ops ''/db/od.data'') = ''file''" "file_path_law ref_uri_ops"
    by (simp_all add: ref_uri_ops_def file_text_def file_path_law_def)
  moreover have "map_of (ie_builders sample_index_env) ''file'' = Some TocLocation" by simp
  ultimately show ?thesis
    using session_sample_start store assms sample_good_key
    by (fastforce simp: data_session_def Let_def)
qed

lemma sample_reader:
  assumes "reader_finds session_env sample_handler ikey k session_disk d Q st"
  shows "\<exists>m r st6 r' st7 f. loadIndexesAndRemap (session_env\<lparr>cx_fuel := m\<rparr>) d sample_handler st = Inr (r, st6) \<and>
    reader_retrieve session_env k (snd (reader_selectIndex ikey r)) st6 = Inr (Some f, r', st7) \<and> Q (fd_location f)"
proof -
  obtain N where N: "\<forall>m \<ge> N. \<forall>r0 st5. loadIndexesAndRemap (session_env\<lparr>cx_fuel := m\<rparr>) session_disk sample_handler st = Inr (r0, st5) \<longrightarrow>
        (\<exists>r st6 r' st7 f. loadIndexesAndRemap (session_env\<lparr>cx_fuel := m\<rparr>) d sample_handler st = Inr (r, st6) \<and>
           fst (reader_selectIndex ikey r) \<and>
           reader_retrieve session_env k (snd (reader_selectIndex ikey r)) st6 = Inr (Some f, r', st7) \<and> Q (fd_location f))"
    using assms unfolding reader_finds_def by blast
  obtain M r0 where "\<forall>m \<ge> M. loadIndexesAndRemap (session_env\<lparr>cx_fuel := m\<rparr>) session_disk sample_handler st = Inr (r0, st)"
    using session_loads [of st] by blast
  then have "loadIndexesAndRemap (session_env\<lparr>cx_fuel := max M N\<rparr>) session_disk sample_handler st = Inr (r0, st)" by simp
  from N [rule_format, OF max.cobounded2 this] show ?thesis by blast
qed

lemma archived_bytes_read_back_witness:
  "\<exists>db1 g1 db2 g2 db3 g3 st m r st6 r' st7 f.
     db_selectIndex (sample_db_env (\<lambda>b. length b - 1)) (od_dict_key ''od'')
       (fresh_db sample_handler (od_dict_key ''od'') trivial_schema 0, sample_globals) = Inr (db1, g1) \<and>
     db_archive_all (sample_db_env (\<lambda>b. length b - 1)) [(sample_key, [1, 2, 3]), (sample_key, [4, 5])] (db1, g1) = Inr (db2, g2) \<and>
     db_flush (sample_db_env (\<lambda>b. length b - 1)) (db2, g2) = Inr (db3, g3) \<and>
     loadIndexesAndRemap (session_env\<lparr>cx_fuel := m\<rparr>) (gl_disk g3) sample_handler st = Inr (r, st6) \<and>
     reader_retrieve session_env sample_key (snd (reader_selectIndex (od_dict_key ''od'') r)) st6 = Inr (Some f, r', st7) \<and>
     location_data (\<lambda>k b. Inr b) ref_uri_ops (gl_bytes g3) (fd_location f) = Inr [4, 5]"
proof -
  have kds: "\<forall>(k, d) \<in> set ([(sample_key, [1, 2, 3 :: 8 word])] @ (sample_key, [4, 5]) # []). k = sample_key \<and> d \<noteq> []" by simp
  have last: "\<forall>(j, b) \<in> set ([] :: (key \<times> bytes) list).
      key_print (cx_ext (dx_cat (sample_db_env (\<lambda>b. length b - 1)))) j \<noteq> key_print (cx_ext (dx_cat (sample_db_env (\<lambda>b. length b - 1)))) sample_key"
    by simp
  from archived_bytes_read_back [OF sample_data_session [OF kds] last sample_facts(1,2) refl refl sample_facts(10), of "\<lambda>k b. Inr b"]
  obtain db1 g1 db2 g2 db3 g3 where
    run: "db_selectIndex (sample_db_env (\<lambda>b. length b - 1)) (od_dict_key ''od'')
       (fresh_db sample_handler (od_dict_key ''od'') trivial_schema 0, sample_globals) = Inr (db1, g1)"
     "db_archive_all (sample_db_env (\<lambda>b. length b - 1)) [(sample_key, [1, 2, 3]), (sample_key, [4, 5])] (db1, g1) = Inr (db2, g2)"
     "db_flush (sample_db_env (\<lambda>b. length b - 1)) (db2, g2) = Inr (db3, g3)"
    and finds: "\<forall>st. world_ok (sx_world st) \<and> sx_trees st = sx_trees (gl_stores g3) \<longrightarrow>
       reader_finds session_env sample_handler (od_dict_key ''od'') sample_key session_disk (gl_disk g3)
         (\<lambda>l. location_data (\<lambda>k b. Inr b) ref_uri_ops (gl_bytes g3) l = Inr [4, 5]) st"
    by (auto simp: sample_globals_def)
  have "world_ok (sx_world ((gl_stores g3)\<lparr>sx_world := sample_world\<rparr>))" using sample_world_ok(1) by simp
  then have "reader_finds session_env sample_handler (od_dict_key ''od'') sample_key session_disk (gl_disk g3)
         (\<lambda>l. location_data (\<lambda>k b. Inr b) ref_uri_ops (gl_bytes g3) l = Inr [4, 5]) ((gl_stores g3)\<lparr>sx_world := sample_world\<rparr>)"
    using finds by simp
  from sample_reader [OF this] run show ?thesis by blast
qed

text \<open>Without sub tocs the cleaning of a catalogue is its flush.\<close>

lemma flush_object_handler:
  assumes "\<not> th_useSubToc (cw_handler w)" and "flush_object X p (w, d, st) = Inr (w', d', st')"
  shows "\<not> th_useSubToc (cw_handler w')"
  using assms openForAppend_same_id(1)
  by (fastforce simp: flush_object_def on_object_def bindE_eq_Inr writeIndexRecord_def write_index_here_def same_id_def
      split: if_splits)

lemma flush_objects_handler:
  "foldE (\<lambda>(k, p). flush_object X p) ps (w, d, st) = Inr (w', d', st') \<Longrightarrow> \<not> th_useSubToc (cw_handler w) \<Longrightarrow>
   \<not> th_useSubToc (cw_handler w')"
  by (induction ps arbitrary: w d st) (auto simp: bindE_eq_Inr dest: flush_object_handler)

lemma flush_handler:
  assumes "\<not> th_useSubToc (cw_handler w)" and "writer_flush X (w, d, st) = Inr (w', d', st')"
  shows "\<not> th_useSubToc (cw_handler w')"
  using assms flush_objects_handler [of X "cw_indexes w" w d st]
  by (auto simp: writer_flush_def flushIndexes_def bindE_eq_Inr split: if_splits)

lemma clean_is_flush:
  assumes "\<not> th_useSubToc (cw_handler w)" and "writer_flush X (w, d, st) = Inr (w', d', st')"
  shows "writer_clean X (w, d, st) = Inr (deselectIndex w', d', st')"
  using assms(2) flush_handler [OF assms] by (simp add: writer_clean_def compactSubTocIndexes_def)

lemma read_beyond:
  assumes "file_path_law U" and "lo_uri l = u_file U p" and "int (length (content fs p)) \<le> lo_offset l" and "0 < lo_length l"
    and "key_empty (lo_remapKey l)"
  shows "\<exists>e. location_data munge U fs l = Inl e"
proof (cases "map_of fs p")
  case None
  then show ?thesis using assms by (simp add: location_data_def file_path_law_def read_part_def)
next
  case (Some b)
  then show ?thesis using assms by (simp add: location_data_def file_path_law_def read_part_def content_def)
qed

text \<open>
  C4: A database that is closed by its destructor, as the archiver does with the oldest of too many, leaves
  unwritten what is in the buffers of its store: nothing closes the handles, and only the end of the process may write them.
  Take a new database without sub tocs and fields as in the round trip above. If no handle has let anything out yet, destroying the database
  after archiving succeeds and appends the index to the table of contents, so that a reader finds the
  field; but the data file is as it was before, and reading the location fails.
\<close>
theorem evicted_data_unreadable:
  fixes X :: "('u :: linorder, 'd, 's) db_env"
  assumes "data_session X h key sch ids ikey c rs n ks (xs @ (k, data) # ys) g"
    and "\<forall>(j, b) \<in> set ys. key_print (cx_ext (dx_cat X)) j \<noteq> key_print (cx_ext (dx_cat X)) k"
    and hr: "th_cache hr = None" "key_empty (th_parentKey hr)" "th_directory hr = th_directory h" "th_tocPath hr = th_tocPath h"
      "th_remapKey hr = new_key None"
    and "\<forall>b. se_spill (dx_store X) b = 0"
  shows "\<exists>db1 g1 db2 g2 g3. db_selectIndex X ikey (fresh_db h key sch ids, g) = Inr (db1, g1) \<and>
    db_archive_all X (xs @ (k, data) # ys) (db1, g1) = Inr (db2, g2) \<and> db_destroy X (db2, g2) = Inr g3 \<and>
    content (gl_bytes g3) = content (gl_bytes g) \<and>
    (\<forall>st. world_ok (sx_world st) \<and> sx_trees st = sx_trees (gl_stores g3) \<longrightarrow>
       reader_finds (dx_cat X) hr ikey k (gl_disk g) (gl_disk g3)
         (\<lambda>l. \<exists>e. location_data munge (ie_uris (cx_index (dx_cat X))) (gl_bytes g3) l = Inl e) st)"
proof -
  let ?U = "ie_uris (cx_index (dx_cat X))"
  have U: "file_path_law ?U" and "data \<noteq> []" and plain: "\<not> th_useSubToc h"
    using assms(1) by (simp_all add: data_session_def session_start_def Let_def)
  from data_session_archives [OF assms(1-7)] obtain db1 g1 db2 g2 s2 l w3 d' st3 where
    run: "db_selectIndex X ikey (fresh_db h key sch ids, g) = Inr (db1, g1)"
      "db_archive_all X (xs @ (k, data) # ys) (db1, g1) = Inr (db2, g2)" and h: "cw_handler (db_catalogue db2) = h"
    and store: "stands ?U (view (s2, gl_bytes g2)) data l" "content (gl_bytes g2) = content (gl_bytes g)"
      "\<exists>p. lo_uri l = u_file ?U p \<and> int (length (content (gl_bytes g) p)) \<le> lo_offset l"
    and fl: "writer_flush (dx_cat X) (db_catalogue db2, gl_disk g2, gl_stores g2) = Inr (w3, d', st3)"
    and finds: "\<forall>st. world_ok (sx_world st) \<and> sx_trees st = sx_trees st3 \<longrightarrow>
       reader_finds (dx_cat X) hr ikey k (gl_disk g) d' (\<lambda>m. m = l) st" using assms(8) by blast
  have "0 < lo_length l" "key_empty (lo_remapKey l)"
    using store(1) \<open>data \<noteq> []\<close> by (auto simp: stands_def new_location_def key_empty_def new_key_def)
  with store(2,3) read_beyond [OF U] have gone: "\<exists>e. location_data munge ?U (gl_bytes g2) l = Inl e" by metis
  have "writer_clean (dx_cat X) (db_catalogue db2, gl_disk g2, gl_stores g2) = Inr (deselectIndex w3, d', st3)"
    by (rule clean_is_flush [OF _ fl]) (simp add: h plain)
  then have "db_destroy X (db2, g2) = Inr (g2\<lparr>gl_disk := d', gl_stores := st3\<rparr>)"
    by (simp add: db_destroy_def on_catalogue_def)
  moreover have "reader_finds (dx_cat X) hr ikey k (gl_disk g) d' (\<lambda>l. \<exists>e. location_data munge ?U (gl_bytes g2) l = Inl e) st"
    if "world_ok (sx_world st)" "sx_trees st = sx_trees st3" for st
    using finds [rule_format, OF conjI, OF that] gone unfolding reader_finds_def by fastforce
  ultimately show ?thesis using run store(2) by fastforce
qed


lemma evicted_data_unreadable_witness:
  "\<exists>db1 g1 db2 g2 g3 st m r st6 r' st7 f e.
     db_selectIndex (sample_db_env (\<lambda>b. 0)) (od_dict_key ''od'')
       (fresh_db sample_handler (od_dict_key ''od'') trivial_schema 0, sample_globals) = Inr (db1, g1) \<and>
     db_archive_all (sample_db_env (\<lambda>b. 0)) [(sample_key, [1, 2, 3])] (db1, g1) = Inr (db2, g2) \<and>
     db_destroy (sample_db_env (\<lambda>b. 0)) (db2, g2) = Inr g3 \<and>
     loadIndexesAndRemap (session_env\<lparr>cx_fuel := m\<rparr>) (gl_disk g3) sample_handler st = Inr (r, st6) \<and>
     reader_retrieve session_env sample_key (snd (reader_selectIndex (od_dict_key ''od'') r)) st6 = Inr (Some f, r', st7) \<and>
     location_data (\<lambda>k b. Inr b) ref_uri_ops (gl_bytes g3) (fd_location f) = Inl e"
proof -
  have kds: "\<forall>(k, d) \<in> set ([] @ (sample_key, [1, 2, 3 :: 8 word]) # []). k = sample_key \<and> d \<noteq> []" by simp
  have last: "\<forall>(j, b) \<in> set ([] :: (key \<times> bytes) list).
      key_print (cx_ext (dx_cat (sample_db_env (\<lambda>b. 0)))) j \<noteq> key_print (cx_ext (dx_cat (sample_db_env (\<lambda>b. 0)))) sample_key"
    by simp
  have unspilled: "\<forall>b. se_spill (dx_store (sample_db_env (\<lambda>b. 0))) b = 0" by simp
  from evicted_data_unreadable [OF sample_data_session [OF kds] last sample_facts(1,2) refl refl sample_facts(10) unspilled, of "\<lambda>k b. Inr b"]
  obtain db1 g1 db2 g2 g3 where
    run: "db_selectIndex (sample_db_env (\<lambda>b. 0)) (od_dict_key ''od'')
       (fresh_db sample_handler (od_dict_key ''od'') trivial_schema 0, sample_globals) = Inr (db1, g1)"
     "db_archive_all (sample_db_env (\<lambda>b. 0)) [(sample_key, [1, 2, 3])] (db1, g1) = Inr (db2, g2)"
     "db_destroy (sample_db_env (\<lambda>b. 0)) (db2, g2) = Inr g3"
    and finds: "\<forall>st. world_ok (sx_world st) \<and> sx_trees st = sx_trees (gl_stores g3) \<longrightarrow>
       reader_finds session_env sample_handler (od_dict_key ''od'') sample_key session_disk (gl_disk g3)
         (\<lambda>l. \<exists>e. location_data (\<lambda>k b. Inr b) ref_uri_ops (gl_bytes g3) l = Inl e) st"
    by (auto simp: sample_globals_def)
  have "world_ok (sx_world ((gl_stores g3)\<lparr>sx_world := sample_world\<rparr>))" using sample_world_ok(1) by simp
  then have "reader_finds session_env sample_handler (od_dict_key ''od'') sample_key session_disk (gl_disk g3)
         (\<lambda>l. \<exists>e. location_data (\<lambda>k b. Inr b) ref_uri_ops (gl_bytes g3) l = Inl e) ((gl_stores g3)\<lparr>sx_world := sample_world\<rparr>)"
    using finds by simp
  from sample_reader [OF this] run show ?thesis by blast
qed

section \<open>The archiver and its databases\<close>

text \<open>What the three selections keep of a visitor, the whole expansion keeps.\<close>

lemma expand_write_preserves:
  fixes ops :: "'s write_ops" and P :: "'s wvisitor \<Rightarrow> bool"
  assumes "\<And>st v. P (ex_visitor st) \<Longrightarrow> select_database_write ops st = Inr v \<Longrightarrow> P v"
    and "\<And>st v. P (ex_visitor st) \<Longrightarrow> select_index_write ops st = Inr v \<Longrightarrow> P v"
    and "\<And>path st v. P (ex_visitor st) \<Longrightarrow> select_datum_write ops path st = Inr v \<Longrightarrow> P v"
  shows "expand_write ops mf sch field path ps depth st = Inr st' \<Longrightarrow> P (ex_visitor st) \<Longrightarrow> P (ex_visitor st')"
  using assms
proof (induction ops mf sch field path ps depth st arbitrary: st' rule: expand_write.induct)
  case (1 ops mf sch field path depth st)
  let ?st = "set_level depth (set_registry (rule_registry sch path)) st"
  note run = "1.prems"(1) [unfolded expand_write.simps(1) Let_def]
  have vis: "ex_visitor ?st = ex_visitor st" by (simp add: set_level_def)
  show ?case
  proof (cases "mf \<and> wv_rule (ex_visitor st) \<noteq> None")
    case True
    with run "1.prems"(2) show ?thesis by simp
  next
    case False
    note go = this
    note run = run [unfolded if_not_P [OF False]]
    from run have d3: "depth < 3" unfolding bindE_eq_Inr by (auto simp: assertE_eq_Inr)
    note run = run [unfolded d3 [THEN eqTrueI] assertE_True bindE.simps]
    show ?thesis
    proof (cases "rule_rules (hd path) = []")
      case True
      then obtain v where "select_datum_write ops path ?st = Inr v" "ex_visitor st' = v"
        using run by (auto simp: bindE_eq_Inr)
      then show ?thesis using "1.prems"(2,5) vis by metis
    next
      case inner: False
      show ?thesis
      proof (cases "depth = 0")
        case True
        then obtain v dbs dr st2 where v: "select_database_write ops ?st = Inr v"
          and dbs: "wo_databaseSchema ops (wv_state v) = Inr dbs" and dr: "database_rule dbs (ex_keys ?st ! 0) = Inr dr"
          and fold: "foldE (\<lambda>r. expand_write ops mf dbs field [r, dr] (rule_preds r) (depth + 1)) (rule_rules dr)
              (start_second dbs (ex_keys ?st ! 0) v) = Inr st2" and st': "ex_visitor st' = ex_visitor st2"
          using run inner by (auto simp: bindE_eq_Inr)
        have "P v" using "1.prems"(2,3) v vis by metis
        have "P (ex_visitor st2)"
        proof (rule foldE_invariant [OF _ _ fold])
          show "P (ex_visitor (start_second dbs (ex_keys ?st ! 0) v))" using \<open>P v\<close> by (simp add: start_second_def)
          show "P (ex_visitor s')" if "r \<in> set (rule_rules dr)" "P (ex_visitor s)"
            "expand_write ops mf dbs field [r, dr] (rule_preds r) (depth + 1) s = Inr s'" for r s s'
            using "1.IH"(1) [OF go _ refl refl inner True v dbs dr that(1) that(3,2) "1.prems"(3-5)] d3 by (simp add: assertE_def)
        qed
        then show ?thesis using st' by simp
      next
        case False
        then obtain v where v: "select_index_write ops ?st = Inr v" and d: "depth = 1"
          and fold: "foldE (\<lambda>r. expand_write ops mf sch field (r # path) (rule_preds r) (depth + 1)) (rule_rules (hd path))
              (?st\<lparr>ex_visitor := v\<rparr>) = Inr st'"
          using run inner by (auto simp: bindE_eq_Inr assertE_eq_Inr)
        have "P v" using "1.prems"(2,4) v vis by metis
        show ?thesis
        proof (rule foldE_invariant [OF _ _ fold])
          show "P (ex_visitor (?st\<lparr>ex_visitor := v\<rparr>))" using \<open>P v\<close> by simp
          show "P (ex_visitor s')" if "r \<in> set (rule_rules (hd path))" "P (ex_visitor s)"
            "expand_write ops mf sch field (r # path) (rule_preds r) (depth + 1) s = Inr s'" for r s s'
            using "1.IH"(2) [OF go _ refl refl inner False _ v that(1) that(3,2) "1.prems"(3-5)] d3 d by (simp add: assertE_def)
        qed
      qed
    qed
  qed
next
  case (2 ops mf sch field path p ps depth st)
  note run = "2.prems"(1) [unfolded expand_write.simps(2) Let_def]
  show ?case
  proof (cases "mf \<and> wv_rule (ex_visitor st) \<noteq> None")
    case True
    with run "2.prems"(2) show ?thesis by simp
  next
    case go: False
    note run = run [unfolded if_not_P [OF go] bindE_eq_Inr]
    then obtain val st1 where d3: "assertE (depth < 3) ''depth < 3'' = Inr ()" and val: "pred_value p field = Inr val"
      and st1: "(if pred_match p (ex_keys (push_level depth (pred_keyword p) val st) ! depth)
          then expand_write ops mf sch field path ps depth (push_level depth (pred_keyword p) val st)
          else Inr (push_level depth (pred_keyword p) val st)) = Inr st1"
      and pop: "pop_level depth (pred_keyword p) st1 = Inr st'" by auto
    have "P (ex_visitor st1)"
    proof (cases "pred_match p (ex_keys (push_level depth (pred_keyword p) val st) ! depth)")
      case True
      then have "expand_write ops mf sch field path ps depth (push_level depth (pred_keyword p) val st) = Inr st1"
        using st1 by (simp only: if_True)
      moreover have "P (ex_visitor (push_level depth (pred_keyword p) val st))" using "2.prems"(2) by simp
      ultimately show ?thesis by (rule "2.IH" [OF go d3 val refl True _ _ "2.prems"(3-5)])
    next
      case False
      with st1 have "st1 = push_level depth (pred_keyword p) val st" by (simp only: if_False sum.inject)
      then show ?thesis using "2.prems"(2) by simp
    qed
    moreover have "ex_visitor st' = ex_visitor st1"
      using pop by (auto simp: pop_level_def bindE_eq_Inr)
    ultimately show ?thesis by simp
  qed
qed

lemma schema_expand_write_preserves:
  assumes "\<And>st v. P (ex_visitor st) \<Longrightarrow> select_database_write ops st = Inr v \<Longrightarrow> P v"
    and "\<And>st v. P (ex_visitor st) \<Longrightarrow> select_index_write ops st = Inr v \<Longrightarrow> P v"
    and "\<And>path st v. P (ex_visitor st) \<Longrightarrow> select_datum_write ops path st = Inr v \<Longrightarrow> P v"
    and "schema_expand_write ops mf sch field v = Inr v'" and "P (v\<lparr>wv_rule := None\<rparr>)"
  shows "P v'"
proof -
  from assms(4) obtain st where
    st: "foldE (\<lambda>r. expand_write ops mf sch field [r] (rule_preds r) 0) (sch_rules sch) (start_expansion sch (v\<lparr>wv_rule := None\<rparr>)) = Inr st"
    and v': "v' = ex_visitor st"
    by (auto simp: schema_expand_write_def bindE_eq_Inr)
  have "P (ex_visitor st)"
  proof (rule foldE_invariant [OF _ _ st])
    show "P (ex_visitor (start_expansion sch (v\<lparr>wv_rule := None\<rparr>)))" using assms(5) by (simp add: start_expansion_def)
    show "P (ex_visitor s')" if "P (ex_visitor s)" "expand_write ops mf sch field [r] (rule_preds r) 0 s = Inr s'" for r s s'
      by (rule expand_write_preserves [of P, OF assms(1-3) that(2,1)])
  qed
  then show ?thesis by (simp add: v')
qed

text \<open>
  The pointer \<open>current_\<close> is to an open database, that of the first of the previous keys; before anything was
  archived it is null and the previous key is empty.
\<close>

definition current_ok :: "'db archiver \<Rightarrow> key \<Rightarrow> bool" where
  "current_ok a prev0 \<longleftrightarrow>
     (case ar_current a of
        None \<Rightarrow> key_empty prev0
      | Some k \<Rightarrow> k = key_dict prev0 \<and> k \<in> set (dict_keys (ar_databases a)))"

text \<open>The open databases: not too many, last used at some time that has been, and each in order.\<close>

definition entry_ok :: "archive_env \<Rightarrow> ('db \<Rightarrow> bool) \<Rightarrow> nat \<Rightarrow> nat \<times> 'db \<Rightarrow> bool" where
  "entry_ok A ok n x \<longleftrightarrow> (\<exists>i < n. fst x = av_clock A i) \<and> ok (snd x)"

lemma entry_ok_later: "entry_ok A ok n x \<Longrightarrow> n \<le> m \<Longrightarrow> entry_ok A ok m x"
  by (auto simp: entry_ok_def intro: less_le_trans)

definition pool_ok :: "archive_env \<Rightarrow> ('db \<Rightarrow> bool) \<Rightarrow> 'db archiver \<Rightarrow> bool" where
  "pool_ok A ok a \<longleftrightarrow> dict_ok (ar_databases a) \<and> length (ar_databases a) \<le> max 1 (av_max A) \<and>
     (\<forall>k x. map_of (ar_databases a) k = Some x \<longrightarrow> entry_ok A ok (ar_ticks a) x)"

definition archiver_ok :: "archive_env \<Rightarrow> ('db \<Rightarrow> bool) \<Rightarrow> 'db archiver \<Rightarrow> bool" where
  "archiver_ok A ok a \<longleftrightarrow> pool_ok A ok a \<and> current_ok a (ar_prev0 a)"

definition visitor_ok :: "archive_env \<Rightarrow> ('db \<Rightarrow> bool) \<Rightarrow> ('db archiver \<times> 'g) wvisitor \<Rightarrow> bool" where
  "visitor_ok A ok v \<longleftrightarrow> pool_ok A ok (fst (wv_state v)) \<and> current_ok (fst (wv_state v)) (wv_prev0 v)"

text \<open>Every database has written what it holds.\<close>

definition pool_settled :: "('db \<Rightarrow> bool) \<Rightarrow> 'db archiver \<Rightarrow> bool" where
  "pool_settled settled a \<longleftrightarrow> (\<forall>k t db. map_of (ar_databases a) k = Some (t, db) \<longrightarrow> settled db)"

text \<open>The clock does not go back by more than a day.\<close>

definition clock_law :: "archive_env \<Rightarrow> bool" where
  "clock_law A \<longleftrightarrow> (\<forall>i j. i \<le> j \<longrightarrow> av_clock A i \<le> av_clock A j + 24 * 60 * 60)"

lemma oldest_of_member: "oldest_of dbs t found = Some k \<Longrightarrow> found = Some k \<or> k \<in> set (dict_keys dbs)"
  by (induction dbs t found rule: oldest_of.induct) (auto split: if_splits)

lemma oldest_of_found: "found \<noteq> None \<or> (dbs \<noteq> [] \<and> (\<forall>(k, t, db) \<in> set dbs. t \<le> limit)) \<Longrightarrow> oldest_of dbs limit found \<noteq> None"
  by (induction dbs limit found rule: oldest_of.induct) auto

lemma length_filter_key: "distinct (dict_keys d) \<Longrightarrow> k \<in> set (dict_keys d) \<Longrightarrow> Suc (length (filter (\<lambda>x. fst x \<noteq> k) d)) = length d"
proof (induction d)
  case (Cons x d)
  show ?case
  proof (cases "fst x = k")
    case True
    with Cons.prems(1) have "k \<notin> fst ` set d" by auto
    then have "\<forall>y \<in> set d. fst y \<noteq> k" by blast
    then have "filter (\<lambda>x. fst x \<noteq> k) d = d" by simp
    with True show ?thesis by simp
  qed (use Cons in auto)
qed simp

lemma length_dict_erase:
  "dict_ok d \<Longrightarrow> k \<in> set (dict_keys d) \<Longrightarrow> Suc (length (dict_erase k d)) = length d"
  using length_filter_key [OF dict_ok_distinct] by (simp add: dict_erase_def case_prod_unfold)

lemma selectDatabase_steps:
  assumes "visitor_selectDatabase A ops key s = Inr s'"
  shows "\<exists>a g. archiver_database A ops key s = (Inr (), (a, g)) \<and>
    with_current (\<lambda>(db, g). Inr (do_deselect ops db, g)) (a\<lparr>ar_current := Some (key_dict key)\<rparr>, g) = Inr s'"
proof -
  obtain r a g where r: "archiver_database A ops key s = (r, (a, g))"
    by (metis prod.exhaust)
  show ?thesis
  proof (cases r)
    case (Inl e)
    with assms r show ?thesis by (simp add: visitor_selectDatabase_def)
  next
    case (Inr u)
    with assms r show ?thesis by (simp add: visitor_selectDatabase_def)
  qed
qed

text \<open>The contract of a database, as the archiver relies on it.\<close>

locale database =
  fixes ops :: "('db, 'g) db_ops" and ok :: "'db \<Rightarrow> bool" and settled :: "'db \<Rightarrow> bool"
  assumes build_ok: "do_build ops key g = Inr (db, g') \<Longrightarrow> ok db"
    and deselect_ok: "ok db \<Longrightarrow> ok (do_deselect ops db)"
    and select_ok: "ok db \<Longrightarrow> do_select ops key (db, g) = Inr (db', g') \<Longrightarrow> ok db'"
    and archive_ok: "ok db \<Longrightarrow> do_archive ops key data (db, g) = Inr (db', g') \<Longrightarrow> ok db'"
    and index_ok: "ok db \<Longrightarrow> do_index ops key path offset len (db, g) = Inr (db', g') \<Longrightarrow> ok db'"
    and flush_ok: "ok db \<Longrightarrow> do_flush ops (db, g) = Inr (db', g') \<Longrightarrow> ok db' \<and> settled db'"
begin

lemma pool_tick: "pool_ok A ok a \<Longrightarrow> pool_ok A ok (a\<lparr>ar_ticks := Suc (ar_ticks a)\<rparr>)"
  using entry_ok_later [of A ok "ar_ticks a" _ "Suc (ar_ticks a)"] by (simp add: pool_ok_def)

lemma put_ok:
  assumes "pool_ok A ok a" and "entry_ok A ok (ar_ticks b) x" and "ar_ticks a \<le> ar_ticks b"
    and b: "ar_databases b = dict_put k x (ar_databases a)"
    and "k \<in> set (dict_keys (ar_databases a)) \<or> length (ar_databases a) < max 1 (av_max A)"
  shows "pool_ok A ok b"
proof -
  have "length (ar_databases b) \<le> max 1 (av_max A)"
  proof (cases "map_of (ar_databases a) k")
    case None
    then have "length (ar_databases a) < max 1 (av_max A)"
      using assms(5) by (auto simp: map_of_eq_None_iff)
    then show ?thesis using None b by (simp add: length_dict_put_fresh)
  next
    case (Some y)
    then show ?thesis
      using assms(1) b length_dict_put_present [of "ar_databases a" k x] by (simp add: pool_ok_def)
  qed
  moreover have "entry_ok A ok (ar_ticks b) y" if "map_of (ar_databases b) j = Some y" for j y
  proof (cases "j = k")
    case True
    with that b assms(2) show ?thesis by simp
  next
    case False
    with that b have "map_of (ar_databases a) j = Some y" by simp
    then show ?thesis using assms(1,3) entry_ok_later unfolding pool_ok_def by blast
  qed
  ultimately show ?thesis
    using assms(1) b by (simp add: pool_ok_def)
qed

lemma evict_keeps:
  assumes "pool_ok A ok a" and "clock_law A" and "evict_oldest A ops (a, g) = (Inr (), (a', g'))"
  shows "pool_ok A ok a' \<and> length (ar_databases a') < max 1 (av_max A)"
proof -
  let ?b = "a\<lparr>ar_ticks := Suc (ar_ticks a)\<rparr>" and ?now = "av_clock A (ar_ticks a)"
  have okb: "pool_ok A ok ?b" by (rule pool_tick [OF assms(1)])
  have len: "length (ar_databases a) \<le> max 1 (av_max A)" and dict: "dict_ok (ar_databases a)"
    using assms(1) by (simp_all add: pool_ok_def)
  have "\<forall>(k, t, db) \<in> set (ar_databases a). t \<le> ?now + 24 * 60 * 60"
  proof clarify
    fix k t db
    assume "(k, t, db) \<in> set (ar_databases a)"
    then obtain i where "i < ar_ticks a" "t = av_clock A i"
      using assms(1) dict_ok_in_set [OF dict, of k "(t, db)"] unfolding pool_ok_def entry_ok_def by fastforce
    then show "t \<le> ?now + 24 * 60 * 60" using assms(2) by (simp add: clock_law_def)
  qed
  then have found: "ar_databases a \<noteq> [] \<Longrightarrow> oldest_of (ar_databases a) (?now + 24 * 60 * 60) None \<noteq> None"
    by (intro oldest_of_found) simp
  show ?thesis
  proof (cases "oldest_of (ar_databases a) (?now + 24 * 60 * 60) None")
    case None
    then have "a' = ?b" using assms(3) by (simp add: evict_oldest_def bindS_def tick_def)
    moreover have "ar_databases a = []" using found None by blast
    ultimately show ?thesis using okb by simp
  next
    case (Some k)
    then have k: "k \<in> set (dict_keys (ar_databases a))" using oldest_of_member by fastforce
    then obtain t db where e: "map_of (ar_databases a) k = Some (t, db)"
      by (metis map_of_eq_None_iff not_None_eq prod.exhaust set_map)
    let ?c = "?b\<lparr>ar_databases := dict_erase k (ar_databases a)\<rparr>"
    have a': "a' = ?c"
      using assms(3) Some e by (auto simp: evict_oldest_def bindS_def tick_def destroy_db_def split: sum.splits)
    have "pool_ok A ok ?c"
      using okb length_dict_erase [OF dict k] by (auto simp: pool_ok_def)
    then show ?thesis using length_dict_erase [OF dict k] len by (simp add: a')
  qed
qed

lemma open_keeps:
  assumes "pool_ok A ok a" and "length (ar_databases a) < max 1 (av_max A)" and "open_db A ops key (a, g) = (Inr (), (a', g'))"
  shows "pool_ok A ok a' \<and> key_dict key \<in> set (dict_keys (ar_databases a'))"
proof -
  from assms(3) obtain db where build: "do_build ops key g = Inr (db, g')"
    and a': "a' = a\<lparr>ar_ticks := Suc (ar_ticks a),
        ar_databases := dict_put (key_dict key) (av_clock A (ar_ticks a), db) (ar_databases a)\<rparr>"
    by (auto simp: open_db_def destroy_db_def bindS_def tick_def failS_def split: sum.splits if_splits)
  have "pool_ok A ok a'"
    by (rule put_ok [OF assms(1)]) (use assms(2) build_ok [OF build] in \<open>auto simp: a' entry_ok_def\<close>)
  then show ?thesis by (simp add: a')
qed

lemma database_keeps:
  assumes "pool_ok A ok a" and "clock_law A" and "archiver_database A ops key (a, g) = (Inr (), (a', g'))"
  shows "pool_ok A ok a' \<and> key_dict key \<in> set (dict_keys (ar_databases a'))"
proof (cases "map_of (ar_databases a) (key_dict key)")
  case (Some x)
  obtain t db where x: "x = (t, db)" by (cases x)
  have a': "a' = a\<lparr>ar_ticks := Suc (ar_ticks a),
      ar_databases := dict_put (key_dict key) (av_clock A (ar_ticks a), db) (ar_databases a)\<rparr>"
    using assms(3) Some by (auto simp: archiver_database_def x bindS_def tick_def)
  have "ok db" using assms(1) Some by (auto simp: pool_ok_def entry_ok_def x)
  moreover have "key_dict key \<in> set (dict_keys (ar_databases a))" using Some by (auto dest: map_of_SomeD intro: image_eqI [rotated])
  ultimately have "pool_ok A ok a'"
    by (intro put_ok [OF assms(1)]) (auto simp: a' entry_ok_def)
  then show ?thesis by (simp add: a')
next
  case None
  show ?thesis
  proof (cases "av_max A \<le> length (ar_databases a)")
    case True
    with assms(3) None obtain a1 g1 where 1: "evict_oldest A ops (a, g) = (Inr (), (a1, g1))"
      and 2: "open_db A ops key (a1, g1) = (Inr (), (a', g'))"
      by (auto simp: archiver_database_def bindS_eq_Inr)
    from evict_keeps [OF assms(1,2) 1] open_keeps [OF _ _ 2] show ?thesis by blast
  next
    case False
    with assms(3) None have "open_db A ops key (a, g) = (Inr (), (a', g'))" by (simp add: archiver_database_def)
    with open_keeps [OF assms(1)] False show ?thesis by simp
  qed
qed

lemma current_keeps:
  assumes "pool_ok A ok a" and "\<And>db g db' g'. ok db \<Longrightarrow> f (db, g) = Inr (db', g') \<Longrightarrow> ok db'"
    and "with_current f (a, g) = Inr (a', g')"
  shows "pool_ok A ok a' \<and> ar_current a' = ar_current a \<and> ar_prev0 a' = ar_prev0 a \<and> ar_ticks a' = ar_ticks a \<and>
    set (dict_keys (ar_databases a')) = set (dict_keys (ar_databases a))"
proof -
  from assms(3) obtain k t db db' where k: "ar_current a = Some k" and e: "map_of (ar_databases a) k = Some (t, db)"
    and f: "f (db, g) = Inr (db', g')" and a': "a' = a\<lparr>ar_databases := dict_put k (t, db') (ar_databases a)\<rparr>"
    by (auto simp: with_current_def bindE_eq_Inr split: option.splits)
  have "entry_ok A ok (ar_ticks a) (t, db)" using assms(1) e by (simp add: pool_ok_def)
  moreover from this have "ok db'" using assms(2) f by (auto simp: entry_ok_def)
  moreover have key: "k \<in> set (dict_keys (ar_databases a))"
    using e by (auto dest: map_of_SomeD intro: image_eqI [rotated])
  ultimately have "pool_ok A ok a'"
    by (intro put_ok [OF assms(1)]) (auto simp: a' entry_ok_def)
  then show ?thesis using key by (auto simp: a')
qed

lemma visitor_keeps:
  assumes clock: "clock_law A" and datum: "\<And>key db g db' g'. ok db \<Longrightarrow> datum key (db, g) = Inr (db', g') \<Longrightarrow> ok db'"
    and run: "schema_expand_write (base_archive_visitor A e ops field datum) mf sch field v = Inr v'" and v: "visitor_ok A ok v"
  shows "visitor_ok A ok v'"
proof (rule schema_expand_write_preserves [OF _ _ _ run])
  let ?W = "base_archive_visitor A e ops field datum"
  show "visitor_ok A ok (v\<lparr>wv_rule := None\<rparr>)" using v by (simp add: visitor_ok_def)
  show "visitor_ok A ok w" if "visitor_ok A ok (ex_visitor st)" "select_database_write ?W st = Inr w" for st w
  proof (cases "key_eq (ex_keys st ! 0) (wv_prev0 (ex_visitor st))")
    case True
    with that show ?thesis by (simp add: select_database_write_def Let_def)
  next
    case False
    obtain a g where s: "wv_state (ex_visitor st) = (a, g)" by fastforce
    with that(2) False obtain a' g' where sel: "visitor_selectDatabase A ops (ex_keys st ! 0) (a, g) = Inr (a', g')"
      and w: "w = (ex_visitor st)\<lparr>wv_state := (a', g'), wv_prev0 := ex_keys st ! 0, wv_prev1 := new_key None\<rparr>"
      by (auto simp: select_database_write_def base_archive_visitor_def bindE_eq_Inr Let_def)
    from selectDatabase_steps [OF sel] obtain a1 g1 where db: "archiver_database A ops (ex_keys st ! 0) (a, g) = (Inr (), (a1, g1))"
      and cur: "with_current (\<lambda>(db, g). Inr (do_deselect ops db, g)) (a1\<lparr>ar_current := Some (key_dict (ex_keys st ! 0))\<rparr>, g1) = Inr (a', g')"
      by blast
    have "pool_ok A ok a" using that(1) by (simp add: visitor_ok_def s)
    from database_keeps [OF this clock db] have pool: "pool_ok A ok (a1\<lparr>ar_current := Some (key_dict (ex_keys st ! 0))\<rparr>)"
      and key: "key_dict (ex_keys st ! 0) \<in> set (dict_keys (ar_databases a1))" by (simp_all add: pool_ok_def)
    have "pool_ok A ok a' \<and> ar_current a' = ar_current (a1\<lparr>ar_current := Some (key_dict (ex_keys st ! 0))\<rparr>) \<and>
      ar_prev0 a' = ar_prev0 (a1\<lparr>ar_current := Some (key_dict (ex_keys st ! 0))\<rparr>) \<and>
      ar_ticks a' = ar_ticks (a1\<lparr>ar_current := Some (key_dict (ex_keys st ! 0))\<rparr>) \<and>
      set (dict_keys (ar_databases a')) = set (dict_keys (ar_databases (a1\<lparr>ar_current := Some (key_dict (ex_keys st ! 0))\<rparr>)))"
      by (rule current_keeps [OF pool _ cur]) (use deselect_ok in auto)
    with key show ?thesis by (simp add: visitor_ok_def w current_ok_def)
  qed
  have keeps: "visitor_ok A ok (u\<lparr>wv_state := (a', g')\<rparr>)"
    if u: "visitor_ok A ok u" and f: "\<And>db g db' g'. ok db \<Longrightarrow> f (db, g) = Inr (db', g') \<Longrightarrow> ok db'"
      and cur: "with_current f (wv_state u) = Inr (a', g')" for u f a' g'
  proof -
    obtain a g where s: "wv_state u = (a, g)" by fastforce
    have "pool_ok A ok a" using u by (simp add: visitor_ok_def s)
    from current_keeps [OF this f cur [unfolded s]] u show ?thesis
      by (auto simp: visitor_ok_def s current_ok_def split: option.splits)
  qed
  show "visitor_ok A ok w" if "visitor_ok A ok (ex_visitor st)" "select_index_write ?W st = Inr w" for st w
  proof (cases "key_eq (ex_keys st ! 1) (wv_prev1 (ex_visitor st))")
    case True
    with that show ?thesis by (simp add: select_index_write_def Let_def)
  next
    case False
    with that(2) obtain a' g' where "with_current (do_select ops (ex_keys st ! 1)) (wv_state (ex_visitor st)) = Inr (a', g')"
      and w: "w = (ex_visitor st)\<lparr>wv_state := (a', g'), wv_prev1 := ex_keys st ! 1\<rparr>"
      by (auto simp: select_index_write_def base_archive_visitor_def bindE_eq_Inr Let_def)
    from keeps [OF that(1) _ this(1)] select_ok show ?thesis by (simp add: w visitor_ok_def)
  qed
  show "visitor_ok A ok w" if "visitor_ok A ok (ex_visitor st)" "select_datum_write ?W path st = Inr w" for path st w
  proof -
    from that(2) obtain a' g' where "with_current (datum (ex_keys st ! 2)) (wv_state (ex_visitor st)) = Inr (a', g')"
      and w: "w = (ex_visitor st)\<lparr>wv_rule := Some path, wv_state := (a', g')\<rparr>"
      by (auto simp: select_datum_write_def base_archive_visitor_def bindE_eq_Inr Let_def split: if_splits)
    from keeps [OF that(1) _ this(1)] datum show ?thesis by (simp add: w visitor_ok_def)
  qed
qed

lemma archive_keeps:
  assumes "clock_law A" and "\<And>key db g db' g'. ok db \<Longrightarrow> datum key (db, g) = Inr (db', g') \<Longrightarrow> ok db'"
    and "archiver_ok A ok a" and "archiver_archive A e ops sch field (base_archive_visitor A e ops field datum) (a, g) = Inr (a', g')"
  shows "archiver_ok A ok a'"
proof -
  from assms(4) obtain v where
    run: "schema_expand_write (base_archive_visitor A e ops field datum) (av_matchFirst A) sch field
        (new_wvisitor (ar_prev0 a) (ar_prev1 a) (a, g)) = Inr v"
    and rest: "(let (a, g) = wv_state v; a = a\<lparr>ar_prev0 := wv_prev0 v, ar_prev1 := wv_prev1 v\<rparr>
       in case wv_rule v of
            None \<Rightarrow> Inl (SeriousBug ''FDB: Could not find a rule to archive'')
          | Some path \<Rightarrow>
              bindE (current_schema ops (a, g)) (\<lambda>dbSchema.
              bindE (rule_check e dbSchema path field) (\<lambda>_. Inr (a, g)))) = Inr (a', g')"
    by (auto simp: archiver_archive_def bindE_eq_Inr)
  have a': "a' = (fst (wv_state v))\<lparr>ar_prev0 := wv_prev0 v, ar_prev1 := wv_prev1 v\<rparr>"
    using rest by (cases "wv_state v"; cases "wv_rule v") (auto simp: bindE_eq_Inr Let_def)
  have "visitor_ok A ok (new_wvisitor (ar_prev0 a) (ar_prev1 a) (a, g))"
    using assms(3) by (simp add: visitor_ok_def new_wvisitor_def archiver_ok_def)
  have "visitor_ok A ok v"
    by (rule visitor_keeps [OF assms(1) _ run \<open>visitor_ok A ok (new_wvisitor _ _ _)\<close>]) (rule assms(2))
  then show ?thesis
    by (auto simp: a' visitor_ok_def archiver_ok_def pool_ok_def current_ok_def split: option.splits)
qed

lemma flush_all_settles:
  "pool_ok A ok a \<Longrightarrow> foldE (flush_one ops) ks (a, g) = Inr (a', g') \<Longrightarrow>
   pool_ok A ok a' \<and> ar_current a' = ar_current a \<and> ar_prev0 a' = ar_prev0 a \<and> ar_ticks a' = ar_ticks a \<and>
   set (dict_keys (ar_databases a')) = set (dict_keys (ar_databases a)) \<and>
   (\<forall>k t db. map_of (ar_databases a') k = Some (t, db) \<longrightarrow>
      (k \<in> set ks \<longrightarrow> settled db) \<and> (k \<notin> set ks \<longrightarrow> map_of (ar_databases a) k = Some (t, db)))"
proof (induction ks arbitrary: a g)
  case (Cons k ks)
  from Cons.prems(2) obtain a1 g1 where 1: "flush_one ops k (a, g) = Inr (a1, g1)" and 2: "foldE (flush_one ops) ks (a1, g1) = Inr (a', g')"
    by (auto simp: bindE_eq_Inr)
  show ?case
  proof (cases "map_of (ar_databases a) k")
    case None
    with 1 have "a1 = a" by (simp add: flush_one_def)
    with Cons.IH [OF _ 2] Cons.prems(1) have IH: "pool_ok A ok a' \<and> ar_current a' = ar_current a \<and> ar_prev0 a' = ar_prev0 a \<and>
      ar_ticks a' = ar_ticks a \<and> set (dict_keys (ar_databases a')) = set (dict_keys (ar_databases a)) \<and>
      (\<forall>k t db. map_of (ar_databases a') k = Some (t, db) \<longrightarrow>
        (k \<in> set ks \<longrightarrow> settled db) \<and> (k \<notin> set ks \<longrightarrow> map_of (ar_databases a) k = Some (t, db)))" by simp
    then have "map_of (ar_databases a') k = None" using None by (metis map_of_eq_None_iff set_map)
    with IH show ?thesis by auto
  next
    case (Some x)
    obtain t db where x: "x = (t, db)" by (cases x)
    with 1 Some obtain db' where fl: "do_flush ops (db, g) = Inr (db', g1)"
      and a1: "a1 = a\<lparr>ar_databases := dict_put k (t, db') (ar_databases a)\<rparr>"
      by (auto simp: flush_one_def bindE_eq_Inr)
    have e: "entry_ok A ok (ar_ticks a) (t, db)" using Cons.prems(1) Some by (simp add: pool_ok_def x)
    then have db': "ok db'" "settled db'" using flush_ok [OF _ fl] by (simp_all add: entry_ok_def)
    have key: "k \<in> set (dict_keys (ar_databases a))"
      using Some by (auto dest: map_of_SomeD intro: image_eqI [rotated])
    have "pool_ok A ok a1"
      by (rule put_ok [OF Cons.prems(1)]) (use e db' key in \<open>auto simp: a1 entry_ok_def\<close>)
    from Cons.IH [OF this 2] db'(2) key show ?thesis
      by (auto simp: a1 split: if_splits)
  qed
qed simp

lemma flush_keeps:
  assumes "archiver_ok A ok a" and "archiver_flush ops (a, g) = Inr (a', g')"
  shows "archiver_ok A ok a' \<and> pool_settled settled a'"
proof -
  from assms(2) have fold: "foldE (flush_one ops) (dict_keys (ar_databases a)) (a, g) = Inr (a', g')"
    by (simp add: archiver_flush_def)
  have "pool_ok A ok a" using assms(1) by (simp add: archiver_ok_def)
  note kept = flush_all_settles [OF this fold]
  have "settled db" if "map_of (ar_databases a') k = Some (t, db)" for k t db
    using that kept by (metis map_of_eq_None_iff option.distinct(1) set_map)
  with kept assms(1) show ?thesis
    by (auto simp: archiver_ok_def pool_settled_def current_ok_def split: option.splits)
qed

end


text \<open>The database over the table of contents keeps the contract.\<close>

definition store_clean :: "toc_store \<Rightarrow> bool" where
  "store_clean s \<longleftrightarrow> (\<forall>p. buffered s p = [])"

definition toc_db_ok :: "'u toc_db \<Rightarrow> bool" where
  "toc_db_ok db \<longleftrightarrow> (\<forall>s. db_store db = Some s \<longrightarrow> \<not> ts_dirty s \<longrightarrow> store_clean s)"

definition toc_db_settled :: "'u toc_db \<Rightarrow> bool" where
  "toc_db_settled db \<longleftrightarrow> \<not> cw_dirty (db_catalogue db) \<and> (\<forall>s. db_store db = Some s \<longrightarrow> store_clean s)"

lemma each_flush_clears:
  "each_handle handle_flush ps st = (Inr (), st') \<Longrightarrow>
   buffered (fst st') p = (if p \<in> set ps then [] else buffered (fst st) p)"
proof (induction ps arbitrary: st)
  case (Cons q ps)
  from Cons.prems obtain st1 where 1: "on_handle q (handle_flush q) st = (Inr (), st1)"
    and 2: "each_handle handle_flush ps st1 = (Inr (), st')" by (auto simp: bindS_eq_Inr)
  obtain s fs where st: "st = (s, fs)" by (cases st)
  obtain h where h: "map_of (ts_handles s) q = Some h" using 1 by (auto simp: st on_handle_def split: option.splits)
  have "buffered (fst st1) p = (if p = q then [] else buffered s p)"
    using 1 h by (cases "fh_file h") (auto simp: st on_handle_def handle_flush_def buffered_def Let_def)
  with Cons.IH [OF 2] show ?case by (cases "p = q") (simp_all add: st)
qed simp

lemma store_flush_clears:
  assumes "store_flush (s, fs) = (Inr (), s', fs')" and "\<not> ts_dirty s \<longrightarrow> store_clean s"
  shows "store_clean s' \<and> \<not> ts_dirty s'"
proof (cases "ts_dirty s")
  case False
  with assms show ?thesis by (simp add: store_flush_def)
next
  case True
  with assms(1) obtain s1 where each: "each_handle handle_flush (dict_keys (ts_handles s)) (s, fs) = (Inr (), s1, fs')"
    and s': "s' = s1\<lparr>ts_dirty := False\<rparr>" by (auto simp: store_flush_def bindS_eq_Inr)
  have "buffered s1 p = []" for p
  proof (cases "p \<in> set (dict_keys (ts_handles s))")
    case False
    then have "buffered s p = []" by (simp add: buffered_def map_of_eq_None_iff [THEN iffD2])
    with each_flush_clears [OF each, of p] False show ?thesis by simp
  qed (use each_flush_clears [OF each, of p] in simp)
  then show ?thesis by (simp add: s' store_clean_def buffered_def)
qed

lemma store_archive_dirty:
  assumes "store_archive E e P U key data (s, fs) = (Inr l, s', fs')"
  shows "ts_dirty s'"
proof -
  from assms obtain path st1 st2 n where path: "getDataPath E e P key (s\<lparr>ts_dirty := True\<rparr>, fs) = (Inr path, st1)"
    and get: "getDataHandle E path st1 = (Inr (), st2)"
    and wr: "on_handle path (handle_write E path data) st2 = (Inr n, s', fs')"
    by (auto simp: store_archive_def bindS_eq_Inr handle_position_def split: option.splits)
  have "ts_dirty (fst st1)" using getDataPath_keeps [OF path] by simp
  moreover have "ts_dirty (fst st2) = ts_dirty (fst st1)"
    using get by (cases st1) (auto simp: getDataHandle_def on_handle_def split: option.splits prod.splits)
  moreover have "ts_dirty s' = ts_dirty (fst st2)"
    using wr by (cases st2) (auto simp: on_handle_def split: option.splits prod.splits)
  ultimately show ?thesis by simp
qed

lemma on_store_steps:
  assumes "on_store s f (db, g) = Inr (x, db', g')"
  shows "\<exists>s' bs. f (s, gl_bytes g) = (Inr x, s', bs) \<and> db' = db\<lparr>db_store := Some s'\<rparr> \<and> g' = g\<lparr>gl_bytes := bs\<rparr>"
proof -
  obtain r s' bs where r: "f (s, gl_bytes g) = (r, s', bs)" by (metis prod.exhaust)
  with assms show ?thesis by (cases r) (auto simp: on_store_def)
qed

lemma on_catalogue_store: "on_catalogue f (db, g) = Inr (db', g') \<Longrightarrow> db_store db' = db_store db"
  by (auto simp: on_catalogue_def bindE_eq_Inr)

lemma flush_not_dirty: "writer_flush X (w, fs) = Inr (w', fs') \<Longrightarrow> \<not> cw_dirty w'"
  by (auto simp: writer_flush_def bindE_eq_Inr split: if_splits)

lemma db_flush_settles:
  assumes "toc_db_ok db" and "db_flush X (db, g) = Inr (db', g')"
  shows "toc_db_ok db' \<and> toc_db_settled db'"
proof -
  from assms(2) obtain db1 g1 where 1: "flush_store (db, g) = Inr (db1, g1)"
    and 2: "on_catalogue (writer_flush (dx_cat X)) (db1, g1) = Inr (db', g')"
    by (auto simp: db_flush_def bindE_eq_Inr)
  have "store_clean s" if "db_store db1 = Some s" for s
  proof (cases "db_store db")
    case None
    with 1 that show ?thesis by (simp add: flush_store_def)
  next
    case (Some t)
    with 1 obtain t' bs where "store_flush (t, gl_bytes g) = (Inr (), t', bs)" "db_store db1 = Some t'"
      by (auto simp: flush_store_def bindE_eq_Inr dest!: on_store_steps)
    with store_flush_clears [OF this(1)] assms(1) Some that show ?thesis by (simp add: toc_db_ok_def)
  qed
  moreover obtain fs where "writer_flush (dx_cat X) (db_catalogue db1, gl_disk g1, gl_stores g1) = Inr (db_catalogue db', fs)"
    using 2 by (auto simp: on_catalogue_def bindE_eq_Inr)
  then have "\<not> cw_dirty (db_catalogue db')" by (rule flush_not_dirty)
  ultimately show ?thesis
    using on_catalogue_store [OF 2] by (simp add: toc_db_ok_def toc_db_settled_def)
qed

interpretation toc_database: database "toc_db_ops X" toc_db_ok toc_db_settled for X :: "('u :: linorder, 'd, 's) db_env"
proof
  show "toc_db_ok db" if "do_build (toc_db_ops X) key g = Inr (db, g')" for key g db g'
    using that by (auto simp: toc_db_ops_def db_buildWriter_def bindE_eq_Inr toc_db_ok_def)
  show "toc_db_ok (do_deselect (toc_db_ops X) db)" if "toc_db_ok db" for db
    using that by (simp add: toc_db_ops_def db_deselectIndex_def toc_db_ok_def)
  show "toc_db_ok db'" if "toc_db_ok db" "do_select (toc_db_ops X) key (db, g) = Inr (db', g')" for db key g db' g'
    using that on_catalogue_store by (fastforce simp: toc_db_ops_def db_selectIndex_def toc_db_ok_def)
  show "toc_db_ok db'" if "toc_db_ok db" "do_index (toc_db_ops X) key path offset len (db, g) = Inr (db', g')"
    for db key path offset len g db' g'
    using that on_catalogue_store by (fastforce simp: toc_db_ops_def db_index_def toc_db_ok_def)
  show "toc_db_ok db' \<and> toc_db_settled db'" if "toc_db_ok db" "do_flush (toc_db_ops X) (db, g) = Inr (db', g')" for db g db' g'
    using db_flush_settles [OF that(1)] that(2) by (simp add: toc_db_ops_def)
  show "toc_db_ok db'" if ok: "toc_db_ok db" and run: "do_archive (toc_db_ops X) key data (db, g) = Inr (db', g')" for db key data g db' g'
  proof -
    from run obtain k s loc s' bs db1 g1 where
      "store_archive (dx_store X) (cx_ext (dx_cat X)) (dx_paths X) (ie_uris (cx_index (dx_cat X))) k data (s, gl_bytes g) = (Inr loc, s', bs)"
      and cat: "on_catalogue (writer_archive (dx_cat X) key loc) (db1, g1) = Inr (db', g')" and db1: "db_store db1 = Some s'"
      by (auto simp: toc_db_ops_def db_archive_def bindE_eq_Inr dest!: on_store_steps)
    from store_archive_dirty [OF this(1)] on_catalogue_store [OF cat] db1 show ?thesis by (simp add: toc_db_ok_def)
  qed
qed

text \<open>The states of an archiver: any sequence of calls that succeed.\<close>

inductive archiver_run :: "archive_env \<Rightarrow> ext \<Rightarrow> ('db, 'g) db_ops \<Rightarrow> schema \<Rightarrow> 'db archiver \<times> 'g \<Rightarrow> bool"
  for A e ops sch where
  run_start: "archiver_run A e ops sch (new_archiver, g)"
| run_archive: "archiver_run A e ops sch s \<Longrightarrow>
    archiver_archive A e ops sch field (archive_visitor A e ops field data) s = Inr s' \<Longrightarrow> archiver_run A e ops sch s'"
| run_adopt: "archiver_run A e ops sch s \<Longrightarrow> adopt_visitor A e ops field path offset len = Inr visitor \<Longrightarrow>
    archiver_archive A e ops sch field visitor s = Inr s' \<Longrightarrow> archiver_run A e ops sch s'"
| run_flush: "archiver_run A e ops sch s \<Longrightarrow> archiver_flush ops s = Inr s' \<Longrightarrow> archiver_run A e ops sch s'"

context database begin

lemma run_ok:
  assumes "clock_law A" and "archiver_run A e ops sch s"
  shows "archiver_ok A ok (fst s)"
  using assms(2)
proof induction
  case (run_start g)
  then show ?case by (simp add: archiver_ok_def pool_ok_def current_ok_def new_archiver_def key_empty_def new_key_def)
next
  case (run_archive s field data s')
  then have "archiver_archive A e ops sch field (base_archive_visitor A e ops field (\<lambda>key. do_archive ops key data)) (fst s, snd s) = Inr (fst s', snd s')"
    by (simp add: archive_visitor_def)
  from archive_keeps [OF assms(1) _ run_archive.IH this] archive_ok show ?case by blast
next
  case (run_adopt s field path offset len visitor s')
  then have "archiver_archive A e ops sch field (base_archive_visitor A e ops field (\<lambda>key. do_index ops key path offset len)) (fst s, snd s) = Inr (fst s', snd s')"
    by (auto simp: adopt_visitor_def bindE_eq_Inr)
  from archive_keeps [OF assms(1) _ run_adopt.IH this] index_ok show ?case by blast
next
  case (run_flush s s')
  then have "archiver_flush ops (fst s, snd s) = Inr (fst s', snd s')" by simp
  from flush_keeps [OF run_flush.IH this] show ?case by blast
qed

end

text \<open>
  C3: The archiver never uses a database that is gone. After any sequence of successful calls of \<open>archive\<close>,
  of adopting and of \<open>flush\<close>, the pointer \<open>current_\<close> is null, and then no previous key is
  remembered, or it points to the open database of the previous key, the one that a field with the same
  first level is archived to without asking again; and no more databases are open than allowed,
  although the one that is current may be the oldest and be evicted. (The clock goes back by a day at most.)
\<close>
theorem archiver_current_alive:
  assumes "clock_law A" and "archiver_run A e (toc_db_ops X) sch (a, g)"
  shows "length (ar_databases a) \<le> max 1 (av_max A) \<and>
    (case ar_current a of
       None \<Rightarrow> key_empty (ar_prev0 a)
     | Some k \<Rightarrow> k = key_dict (ar_prev0 a) \<and> map_of (ar_databases a) k \<noteq> None)"
proof -
  have "archiver_ok A toc_db_ok a" using toc_database.run_ok [OF assms] by simp
  then show ?thesis
    by (auto simp: archiver_ok_def pool_ok_def current_ok_def map_of_eq_None_iff split: option.splits)
qed

text \<open>
  C2: \<open>flush\<close> leaves nothing unwritten. When the flush of an archiver that is used in this way succeeds, the
  databases that were open before are open afterwards, and no others; and none of them has a dirty index store or
  a byte in the buffer of a data file, whichever databases were used in between. (The clock goes back by a day at most.)
\<close>
theorem archiver_flush_writes_all:
  assumes "clock_law A" and "archiver_run A e (toc_db_ops X) sch (a, g)" and "archiver_flush (toc_db_ops X) (a, g) = Inr (a', g')"
  shows "set (dict_keys (ar_databases a')) = set (dict_keys (ar_databases a)) \<and>
    (\<forall>k \<in> set (dict_keys (ar_databases a)). \<exists>t db. map_of (ar_databases a') k = Some (t, db) \<and>
       \<not> cw_dirty (db_catalogue db) \<and> (\<forall>s path. db_store db = Some s \<longrightarrow> buffered s path = []))"
proof -
  have ok: "archiver_ok A toc_db_ok a" using toc_database.run_ok [OF assms(1,2)] by simp
  then have pool: "pool_ok A toc_db_ok a" by (simp add: archiver_ok_def)
  have "foldE (flush_one (toc_db_ops X)) (dict_keys (ar_databases a)) (a, g) = Inr (a', g')"
    using assms(3) by (simp add: archiver_flush_def)
  from toc_database.flush_all_settles [OF pool this]
  have keys: "set (dict_keys (ar_databases a')) = set (dict_keys (ar_databases a))" by blast
  moreover have "\<exists>t db. map_of (ar_databases a') k = Some (t, db) \<and>
      \<not> cw_dirty (db_catalogue db) \<and> (\<forall>s path. db_store db = Some s \<longrightarrow> buffered s path = [])"
    if "k \<in> set (dict_keys (ar_databases a))" for k
  proof -
    have "map_of (ar_databases a') k \<noteq> None" using that keys by (auto simp: map_of_eq_None_iff)
    then obtain t db where db: "map_of (ar_databases a') k = Some (t, db)" by auto
    then have "toc_db_settled db" using toc_database.flush_keeps [OF ok assms(3)] by (auto simp: pool_settled_def)
    with db show ?thesis by (auto simp: toc_db_settled_def store_clean_def)
  qed
  ultimately show ?thesis by blast
qed

text \<open>
  When the current database is the one to evict and the new one cannot be opened, \<open>current_\<close> dangles while the
  previous key still names it: the next field of that database uses it.
\<close>

lemma failed_open_dangles:
  assumes "map_of (ar_databases a) (key_dict key) = None" and "av_max A \<le> length (ar_databases a)"
    and "oldest_of (ar_databases a) (av_clock A (ar_ticks a) + 24 * 60 * 60) None = Some k" and "ar_current a = Some k"
    and "map_of (ar_databases a) k = Some (t, db)" and "do_destroy ops (db, g) = Inr g'" and "do_build ops key g' = Inl e"
  shows "\<exists>a'. archiver_database A ops key (a, g) = (Inl e, (a', g')) \<and> ar_prev0 a' = ar_prev0 a \<and>
    with_current f (a', g') = Inl (UndefinedBehaviour ''current_ is dangling'')"
  using assms by (simp add: archiver_database_def evict_oldest_def bindS_def tick_def destroy_db_def open_db_def with_current_def)


section \<open>A run of the archiver\<close>

text \<open>One field of a small schema, archived into the database of \<open>sample_db_env\<close>.\<close>

definition run_handler :: toc_handler where
  "run_handler = sample_handler\<lparr>th_parentKey := od_dict_key ''od'', th_position := 1, th_masked := {}, th_enumerated := True\<rparr>"

lemma run_build:
  assumes "key_dict k = [(''class'', ''od'')]"
  shows "\<exists>schemas. db_buildWriter (sample_db_env spill) k sample_globals =
    Inr (fresh_db run_handler k trivial_schema 0, sample_globals\<lparr>gl_schemas := schemas\<rparr>)"
proof -
  let ?h0 = "sample_handler\<lparr>th_dbUID := None\<rparr>"
  have exists: "path_exists session_disk ''/db''" by (simp add: path_exists_def session_disk_def)
  have "findRealPath sample_paths session_disk ''/db'' = Inr ''/db''"
    using exists by (simp add: findRealPath_def sample_paths_def)
  then have h: "new_handler sample_paths session_disk 2 False ''/db'' = Inr ?h0"
    by (simp add: new_handler_def sample_handler_def sample_paths_def)
  have dir: "th_directory ?h0 = ''/db''" "th_tocPath ?h0 = ''/db/toc''" by (simp_all add: sample_handler_def)
  have same: "session_disk\<lparr>dk_tocs := dict_put ''/db/toc'' [sample_init ''od''] (dk_tocs session_disk)\<rparr> = session_disk"
    by (simp add: session_disk_def)
  let ?h1 = "?h0\<lparr>th_cache := Some [sample_init ''od''], th_position := 0\<rparr>"
  have ok: "records_ok [sample_init ''od'']" by (simp add: records_ok_def sample_init_key)
  have "at_start sample_paths [sample_init ''od''] ?h1" by (simp add: at_start_def sample_handler_def)
  from readNext_first [OF ok this, of session_disk 2] have next0:
    "readNext sample_paths session_disk 3 default_flags [?h1] = Inr (Some (sample_init ''od''), [first_state sample_paths [sample_init ''od''] ?h1])"
    by (simp add: numeral_eq_Suc)
  have chain: "(close_chain [first_state sample_paths [sample_init ''od''] ?h1])\<lparr>th_cache := None, th_dbUID := Some 7\<rparr> = run_handler"
    by (simp add: close_chain_def first_state_def enumerate_def session_toc run_handler_def sample_handler_def sample_init_key
        key_empty_def new_key_def del: masked_set.simps)
  have dec: "\<exists>k' rest. decode_key (tr_payload (sample_init ''od'')) = Inr (k', rest) \<and> key_eq k k'"
  proof -
    have "init_ok (sample_init ''od'')" "init_key (sample_init ''od'') = od_dict_key ''od''" by (simp_all add: sample_init_key)
    then show ?thesis using assms by (auto simp: init_ok_def init_key_def key_eq_def od_dict_key_def split: sum.splits)
  qed
  have init: "writeInitRecord 3 sample_paths sample_env ref_ext k ?h0 session_disk = Inr (run_handler, session_disk)"
  proof -
    have "tr_tag (sample_init ''od'') = TOC_INIT" "tr_uid (sample_init ''od'') = 7" by (simp_all add: sample_init_def sample_record_def)
    moreover have "th_cache sample_handler = None" by (simp add: sample_handler_def)
    ultimately show ?thesis using dec chain by (auto simp: writeInitRecord_def exists dir session_toc same next0 Let_def)
  qed
  show ?thesis
    using h init by (simp add: db_buildWriter_def sample_db_env_def open_writer_def schema_get_def checkUID_def sample_env_def
      fresh_db_def sample_globals_def)
qed
lemma run_session:
  assumes ik: "key_ok ikey" "\<not> key_empty ikey" "\<forall>n v. key_find ikey n = Some v \<longrightarrow> canonicalise ref_ext ikey n v = Inr v"
    "\<exists>ks. encode_key ref_ext ikey = Inr ks" "valuesToString ref_ext ikey = Inr ''an''"
  shows "session_start session_env run_handler ikey tree_32_65536_reduced session_disk [sample_init ''od''] 0 session_stores"
proof -
  have print: "key_print ref_ext ikey = ''an''" using ik(5) by (simp add: key_print_def)
  have h: "th_directory run_handler = ''/db''" "th_tocPath run_handler = ''/db/toc''" "\<not> th_useSubToc run_handler"
    "th_version run_handler = 2" by (simp_all add: run_handler_def sample_handler_def)
  have path: "first_index_path session_env run_handler ikey = ''/db/an.index''"
    by (simp add: first_index_path_def print h sample_paths_def)
  have dirs: "po_dir sample_paths ''/db/an.index'' = ''/db''" "po_base sample_paths ''/db/an.index'' = ''an.index''"
    "po_join sample_paths ''/db'' ''an.index'' = ''/db/an.index''"
    by (simp_all add: sample_paths_def)
  have user: "checkUID 3 sample_paths sample_env session_disk run_handler = Inr run_handler"
    by (simp add: checkUID_def sample_env_def)
  have version: "th_version run_handler \<in> set supported_versions"
    by (simp add: h supported_versions_def)
  have wf: "toc_wf sample_paths session_disk (od_dict_key ''od'') (Suc 0) ''/db'' ''/db/toc''"
    by (simp add: toc_wf_records session_toc sample_init_key)
  have "apart sample_paths session_disk 0 ''/db'' ''/db/toc''" by (simp add: apart_def session_toc)
  moreover have "map_of tree_classes ''BTreeIndex'' = Some tree_32_65536_reduced" by (simp add: tree_classes_def)
  ultimately show ?thesis
    using wf user version ref_btree_laws ref_dense_laws ref_uri_laws ik
    by (simp add: session_start_def Let_def path dirs h session_toc od_key_facts sample_init_key session_stores_def
        del: masked_set.simps)
qed

lemma run_data_session:
  assumes k: "key_dict k = [(''class'', ''od'')]"
    and ik: "key_ok ikey" "\<not> key_empty ikey" "\<forall>n v. key_find ikey n = Some v \<longrightarrow> canonicalise ref_ext ikey n v = Inr v"
    "\<exists>ks. encode_key ref_ext ikey = Inr ks" "valuesToString ref_ext ikey = Inr ''an''"
    and "\<forall>(j, d) \<in> set kds. good_key ref_ext {''step''} j \<and> d \<noteq> []"
  shows "data_session (sample_db_env spill) run_handler k trivial_schema 0 ikey
    tree_32_65536_reduced [sample_init ''od''] 0 {''step''} kds (sample_globals\<lparr>gl_schemas := schemas\<rparr>)"
proof -
  let ?db = "fresh_db run_handler k trivial_schema 0 :: string toc_db"
  have "findRealPath sample_paths session_disk ''/db'' = Inr ''/db''"
    by (simp add: findRealPath_def path_exists_def session_disk_def sample_paths_def)
  then have store: "store_of (sample_db_env spill) (sample_globals\<lparr>gl_schemas := schemas\<rparr>) ?db = Inr (new_toc_store ''/db'')"
    by (simp add: store_of_def fresh_db_def sample_db_env_def new_writer_def)
  have "key_print ref_ext ikey = ''an''" using ik(5) by (simp add: key_print_def)
  then have "data_path (dx_store (sample_db_env spill)) ref_ext sample_paths ikey (new_toc_store ''/db'') = ''/db/an.data''"
    by (simp add: data_path_def new_toc_store_def sample_db_env_def sample_paths_def)
  moreover have "u_scheme ref_uri_ops (u_file ref_uri_ops ''/db/an.data'') = ''file''" "file_path_law ref_uri_ops"
    by (simp_all add: ref_uri_ops_def file_text_def file_path_law_def)
  moreover have "map_of (ie_builders sample_index_env) ''file'' = Some TocLocation" by simp
  ultimately show ?thesis
    using run_session [OF ik] store assms(7) by (simp add: data_session_def Let_def)
qed


definition run_field :: key where
  "run_field = key_of_dict [(''class'', ''od''), (''step'', ''12''), (''type'', ''an'')] None"

definition run_key :: "string \<Rightarrow> string \<Rightarrow> registry \<Rightarrow> key" where
  "run_key k v reg = \<lparr>key_dict = [(k, v)], key_names = [k], key_registry = Some reg, key_canonical = False\<rparr>"

abbreviation reg0 :: registry where "reg0 \<equiv> Registry [] (Some (Registry [] None))"
abbreviation reg1 :: registry where "reg1 \<equiv> Registry [] (Some reg0)"
abbreviation reg2 :: registry where "reg2 \<equiv> Registry [] (Some reg1)"
abbreviation run_k0 :: key where "run_k0 \<equiv> run_key ''class'' ''od'' reg0"
abbreviation run_ik :: key where "run_ik \<equiv> run_key ''type'' ''an'' reg1"
abbreviation run_dk :: key where "run_dk \<equiv> run_key ''step'' ''12'' reg2"


definition run_path :: located where
  "run_path = (let r0 = hd (sch_rules trivial_schema); r1 = hd (rule_rules r0) in [hd (rule_rules r1), r1, r0])"

lemma run_expand:
  assumes "\<And>full. wo_selectDatabase W run_k0 full s0 = Inr s1" and "wo_databaseSchema W s1 = Inr trivial_schema"
    and "\<And>full. wo_selectIndex W run_ik full s1 = Inr s2" and "\<And>path full. wo_selectDatum W path run_dk full s2 = Inr s3"
  shows "schema_expand_write W True trivial_schema run_field (new_wvisitor (new_key None) (new_key None) s0) =
      Inr \<lparr>wv_rule = Some run_path, wv_prev0 = run_k0, wv_prev1 = run_ik, wv_state = s3\<rparr>"
  using assms [unfolded trivial_schema_def]
  by (simp add: run_key_def schema_expand_write_def trivial_schema_def start_expansion_def run_field_def key_of_dict_def
      select_database_write_def select_index_write_def select_datum_write_def new_wvisitor_def pred_value_def key_eq_def
      new_key_def push_level_def set_level_def set_registry_def push_key_def pred_match_def Let_def get_key_def pop_level_def
      pop_key_def dict_erase_def database_rule_def rule_match_def start_second_def assertE_def schema_registry_def key_find_def
      run_path_def)

lemma run_check: "rule_check ref_ext trivial_schema run_path run_field = Inr ()"
  by (simp add: run_path_def trivial_schema_def run_field_def key_of_dict_def key_find_def Let_def schema_registry_def build_type_def)

lemma run_keys:
  "key_ok run_ik" "\<not> key_empty run_ik" "key_find run_ik n = Some v \<Longrightarrow> canonicalise ref_ext run_ik n v = Inr v"
  "valuesToString ref_ext run_ik = Inr ''an''" "\<exists>ks. encode_key ref_ext run_ik = Inr ks" "good_key ref_ext {''step''} run_dk"
proof -
  show "key_ok run_ik" "\<not> key_empty run_ik" by (simp_all add: run_key_def key_ok_def key_empty_def dict_ok_def)
  show c: "canonicalise ref_ext run_ik n v = Inr v" if "key_find run_ik n = Some v" for n v
    using that by (auto simp: run_key_def key_find_def canonicalise_def get_registry_def build_type_def split: if_splits)
  show "valuesToString ref_ext run_ik = Inr ''an''"
    by (simp add: valuesToString_def canonicalValue_def key_value_def c key_find_def run_key_def canonicalise_def get_registry_def build_type_def)
  show "\<exists>ks. encode_key ref_ext run_ik = Inr ks"
    by (simp add: encode_key_def run_key_def get_registry_def canonicalise_def build_type_def)
  show "good_key ref_ext {''step''} run_dk"
    by (simp add: good_key_def run_key_def key_ok_def dict_ok_def valuesToString_def canonicalValue_def key_value_def key_find_def
      canonicalise_def get_registry_def fingerprint_ok_def build_type_def)
qed

definition run_env :: archive_env where
  "run_env = \<lparr>av_clock = (\<lambda>i. i), av_max = 64, av_check = False, av_matchFirst = True\<rparr>"


lemma db_schema_kept:
  "on_catalogue f (db, g) = Inr (db', g') \<Longrightarrow> db_schema db' = db_schema db"
  "on_store s h (db, g) = Inr (x, db', g') \<Longrightarrow> db_schema db' = db_schema db"
  by (auto simp: on_catalogue_def bindE_eq_Inr dest: on_store_steps)

lemma db_archive_schema: "db_archive X key data (db, g) = Inr (db', g') \<Longrightarrow> db_schema db' = db_schema db"
  by (auto simp: db_archive_def bindE_eq_Inr dest!: db_schema_kept)

lemma sample_run:
  fixes data :: bytes
  assumes "data \<noteq> []"
  shows "\<exists>db g. let a = \<lparr>ar_databases = [(key_dict run_k0, 0, db)], ar_current = Some (key_dict run_k0), ar_prev0 = run_k0, ar_prev1 = run_ik, ar_ticks = 1\<rparr> in
    archiver_run run_env ref_ext (toc_db_ops (sample_db_env spill)) trivial_schema (a, g) \<and>
    (\<exists>db' g'. db_flush (sample_db_env spill) (db, g) = Inr (db', g') \<and>
       archiver_flush (toc_db_ops (sample_db_env spill)) (a, g) = Inr (a\<lparr>ar_databases := [(key_dict run_k0, 0, db')]\<rparr>, g'))"
proof -
  let ?ops = "toc_db_ops (sample_db_env spill)" and ?start = "new_archiver :: string toc_db archiver"
  have run_k0: "key_dict run_k0 = [(''class'', ''od'')]" by (simp add: run_key_def)
  from run_build [OF run_k0, of spill] obtain schemas where build: "db_buildWriter (sample_db_env spill) run_k0 sample_globals =
      Inr (fresh_db run_handler run_k0 trivial_schema 0, sample_globals\<lparr>gl_schemas := schemas\<rparr>)" by blast
  have kds: "\<forall>(j, d) \<in> set ([] @ (run_dk, data) # []). good_key ref_ext {''step''} j \<and> d \<noteq> []" using assms run_keys(6) by simp
  have canon: "\<forall>n v. key_find run_ik n = Some v \<longrightarrow> canonicalise ref_ext run_ik n v = Inr v" using run_keys(3) by blast
  note session = run_data_session [OF run_k0 run_keys(1,2) canon run_keys(5,4) kds, of spill schemas]
  have last: "\<forall>(j, b) \<in> set ([] :: (key \<times> bytes) list).
      key_print (cx_ext (dx_cat (sample_db_env spill))) j \<noteq> key_print (cx_ext (dx_cat (sample_db_env spill))) run_dk" by simp
  have h: "th_directory sample_handler = th_directory run_handler" "th_tocPath sample_handler = th_tocPath run_handler"
    by (simp_all add: run_handler_def)
  from data_session_archives [OF session last sample_facts(1,2) h sample_facts(10)] obtain db1 g1 db2 g2 s2 w3 d' st3 where
    sel: "db_selectIndex (sample_db_env spill) run_ik (fresh_db run_handler run_k0 trivial_schema 0, sample_globals\<lparr>gl_schemas := schemas\<rparr>) = Inr (db1, g1)"
    and arch: "db_archive_all (sample_db_env spill) ([] @ (run_dk, data) # []) (db1, g1) = Inr (db2, g2)"
    and store: "db_store db2 = Some s2" "store_ok (s2, gl_bytes g2)"
    and fl: "writer_flush session_env (db_catalogue db2, gl_disk g2, gl_stores g2) = Inr (w3, d', st3)"
    by (elim exE conjE) auto
  have arch1: "db_archive (sample_db_env spill) run_dk data (db1, g1) = Inr (db2, g2)"
    using arch by (auto simp: db_archive_all_def bindE_eq_Inr)
  have schemas: "db_schema (fresh_db run_handler run_k0 trivial_schema 0) = trivial_schema" "db_schema db1 = trivial_schema" "db_schema db2 = trivial_schema"
    using db_schema_kept(1) [of _ "fresh_db run_handler run_k0 trivial_schema 0"] sel db_archive_schema [OF arch1]
    by (auto simp: db_selectIndex_def fresh_db_def)
  let ?fresh = "fresh_db run_handler run_k0 trivial_schema 0 :: string toc_db" and ?before = "sample_globals\<lparr>gl_schemas := schemas\<rparr>"
  let ?a = "\<lambda>db. \<lparr>ar_databases = [(key_dict run_k0, 0, db)], ar_current = Some (key_dict run_k0), ar_prev0 = new_key None, ar_prev1 = new_key None, ar_ticks = 1\<rparr>"
  let ?W = "archive_visitor run_env ref_ext ?ops run_field data"
  have enabled: "db_enabled (sample_db_env spill) IdArchive (?fresh, ?before) = Inr True"
    by (simp add: db_enabled_def writer_enabled_def fresh_db_def new_writer_def toc_enabled_def control_file_def controlfile_lookup_def
        fullControlFilePath_def path_exists_def session_disk_def sample_paths_def run_handler_def sample_handler_def ids_enabled_def)
  have same: "db_deselectIndex ?fresh = ?fresh" by (simp add: db_deselectIndex_def deselectIndex_def fresh_db_def new_writer_def)
  have 1: "visitor_selectDatabase run_env ?ops run_k0 (?start, sample_globals) = Inr (?a ?fresh, ?before)"
    using build enabled same
    by (simp add: visitor_selectDatabase_def archiver_database_def new_archiver_def run_env_def open_db_def toc_db_ops_def bindS_def
        tick_def with_current_def)
  have 2: "with_current (do_select ?ops run_ik) (?a ?fresh, ?before) = Inr (?a db1, g1)"
    using sel by (simp add: with_current_def toc_db_ops_def)
  have 3: "with_current (do_archive ?ops run_dk data) (?a db1, g1) = Inr (?a db2, g2)"
    using arch1 by (simp add: with_current_def toc_db_ops_def)
  have env: "\<not> av_check run_env" "av_matchFirst run_env" by (simp_all add: run_env_def)
  have schema0: "current_schema ?ops (?a db, g) = Inr (db_schema db)" for db g
    by (simp add: current_schema_def toc_db_ops_def)
  have "schema_expand_write ?W True trivial_schema run_field (new_wvisitor (new_key None) (new_key None) (?start, sample_globals)) =
      Inr \<lparr>wv_rule = Some run_path, wv_prev0 = run_k0, wv_prev1 = run_ik, wv_state = (?a db2, g2)\<rparr>"
  proof (rule run_expand)
    show "wo_selectDatabase ?W run_k0 full (?start, sample_globals) = Inr (?a ?fresh, ?before)" for full
      using 1 by (simp add: archive_visitor_def base_archive_visitor_def)
    show "wo_databaseSchema ?W (?a ?fresh, ?before) = Inr trivial_schema"
      using schema0 [of ?fresh ?before] schemas(1) by (simp add: archive_visitor_def base_archive_visitor_def)
    show "wo_selectIndex ?W run_ik full (?a ?fresh, ?before) = Inr (?a db1, g1)" for full
      using 2 by (simp add: archive_visitor_def base_archive_visitor_def)
    show "wo_selectDatum ?W path run_dk full (?a db1, g1) = Inr (?a db2, g2)" for path full
      using 3 by (simp add: archive_visitor_def base_archive_visitor_def checkMissingKeys_def env)
  qed
  then have arch: "archiver_archive run_env ref_ext ?ops trivial_schema run_field ?W (?start, sample_globals) =
      Inr ((?a db2)\<lparr>ar_prev0 := run_k0, ar_prev1 := run_ik\<rparr>, g2)"
    using run_check schema0 schemas by (simp add: archiver_archive_def env new_archiver_def current_schema_def toc_db_ops_def)
  have run: "archiver_run run_env ref_ext ?ops trivial_schema ((?a db2)\<lparr>ar_prev0 := run_k0, ar_prev1 := run_ik\<rparr>, g2)"
    by (rule run_archive [OF run_start arch])
  from store_flush_view [OF store(2)] obtain s3 bs3 where sf: "store_flush (s2, gl_bytes g2) = (Inr (), s3, bs3)" by auto
  have "db_flush (sample_db_env spill) (db2, g2) =
      Inr (db2\<lparr>db_catalogue := w3, db_store := Some s3\<rparr>, g2\<lparr>gl_disk := d', gl_stores := st3, gl_bytes := bs3\<rparr>)"
    using store(1) sf(1) fl by (simp add: db_flush_def flush_store_def on_store_def on_catalogue_def)
  then obtain db3 g3 where fl3: "db_flush (sample_db_env spill) (db2, g2) = Inr (db3, g3)" by blast
  let ?b = "\<lambda>db. \<lparr>ar_databases = [(key_dict run_k0, 0, db)], ar_current = Some (key_dict run_k0), ar_prev0 = run_k0, ar_prev1 = run_ik, ar_ticks = 1\<rparr>"
  have "archiver_run run_env ref_ext ?ops trivial_schema (?b db2, g2)" using run by simp
  moreover have "archiver_flush ?ops (?b db2, g2) = Inr (?b db3, g3)"
    using fl3 by (simp add: archiver_flush_def flush_one_def toc_db_ops_def)
  ultimately show ?thesis
    using fl3 unfolding Let_def by (intro exI conjI) (assumption | simp)+
qed

lemma run_clock: "clock_law run_env"
  by (simp add: clock_law_def run_env_def)

lemma archiver_current_alive_witness:
  "\<exists>a g. archiver_run run_env ref_ext (toc_db_ops (sample_db_env (\<lambda>b. 0))) trivial_schema (a, g) \<and>
     length (ar_databases a) = 1 \<and> ar_current a = Some (key_dict (ar_prev0 a)) \<and> map_of (ar_databases a) (key_dict (ar_prev0 a)) \<noteq> None"
proof -
  from sample_run [of "[1, 2, 3]" "\<lambda>b. 0"] obtain db g where
    run: "archiver_run run_env ref_ext (toc_db_ops (sample_db_env (\<lambda>b. 0))) trivial_schema
      (\<lparr>ar_databases = [(key_dict run_k0, 0, db)], ar_current = Some (key_dict run_k0), ar_prev0 = run_k0, ar_prev1 = run_ik, ar_ticks = 1\<rparr>, g)"
    by (auto simp: Let_def)
  from archiver_current_alive [OF run_clock run] show ?thesis
    using run by (intro exI conjI) (assumption | simp)+
qed

lemma archiver_flush_writes_all_witness:
  "\<exists>a g a' g' t db. archiver_run run_env ref_ext (toc_db_ops (sample_db_env (\<lambda>b. 0))) trivial_schema (a, g) \<and>
     archiver_flush (toc_db_ops (sample_db_env (\<lambda>b. 0))) (a, g) = Inr (a', g') \<and>
     map_of (ar_databases a') [(''class'', ''od'')] = Some (t, db) \<and> \<not> cw_dirty (db_catalogue db)"
proof -
  from sample_run [of "[1, 2, 3]" "\<lambda>b. 0"] obtain db g db' g' where
    run: "archiver_run run_env ref_ext (toc_db_ops (sample_db_env (\<lambda>b. 0))) trivial_schema
      (\<lparr>ar_databases = [(key_dict run_k0, 0, db)], ar_current = Some (key_dict run_k0), ar_prev0 = run_k0, ar_prev1 = run_ik, ar_ticks = 1\<rparr>, g)"
    and fl: "archiver_flush (toc_db_ops (sample_db_env (\<lambda>b. 0)))
      (\<lparr>ar_databases = [(key_dict run_k0, 0, db)], ar_current = Some (key_dict run_k0), ar_prev0 = run_k0, ar_prev1 = run_ik, ar_ticks = 1\<rparr>, g) =
      Inr (\<lparr>ar_databases = [(key_dict run_k0, 0, db')], ar_current = Some (key_dict run_k0), ar_prev0 = run_k0, ar_prev1 = run_ik, ar_ticks = 1\<rparr>, g')"
    by (auto simp: Let_def)
  let ?a = "\<lambda>db. \<lparr>ar_databases = [(key_dict run_k0, 0, db)], ar_current = Some (key_dict run_k0), ar_prev0 = run_k0, ar_prev1 = run_ik, ar_ticks = 1\<rparr>"
  have "key_dict run_k0 \<in> set (dict_keys (ar_databases (?a db)))" by simp
  with archiver_flush_writes_all [OF run_clock run fl]
  obtain t db'' where "map_of (ar_databases (?a db')) (key_dict run_k0) = Some (t, db'')" and "\<not> cw_dirty (db_catalogue db'')" by blast
  moreover have "key_dict run_k0 = [(''class'', ''od'')]" by (simp add: run_key_def)
  ultimately show ?thesis using run fl by metis
qed

end
