(* ===== verification/FDB_Client.thy ===== *)
theory FDB_Client
  imports FDB_Config FDB_Iterator FDB_Archive
begin

text \<open>
  The client interface (\<open>src/fdb5/api/\<close>): an \<open>FDB\<close> owns an implementation, which is a leaf (the local one, a
  remote one), a choice among further FDBs by the values of the key (\<open>SelectFDB.cc\<close>), or a distribution over
  lanes in the order of a hash (\<open>DistFDB.cc\<close>). The leaves are given by the record \<open>leaf_ops\<close>; the local one, over
  the archiver, is one such record.
\<close>

section \<open>Statistics\<close>

text \<open>The counters of \<open>FDBStats\<close>, at their 64 bits; the times beside them are left out.\<close>

record fdb_stats =
  fs_numArchive :: "64 word"
  fs_numFlush :: "64 word"
  fs_numRetrieve :: "64 word"
  fs_bytesArchive :: "64 word"
  fs_bytesRetrieve :: "64 word"
  fs_bytesArchiveSquared :: "64 word"
  fs_bytesRetrieveSquared :: "64 word"

definition new_stats :: fdb_stats where
  "new_stats = \<lparr>fs_numArchive = 0, fs_numFlush = 0, fs_numRetrieve = 0, fs_bytesArchive = 0, fs_bytesRetrieve = 0,
     fs_bytesArchiveSquared = 0, fs_bytesRetrieveSquared = 0\<rparr>"

definition stats_plus :: "fdb_stats \<Rightarrow> fdb_stats \<Rightarrow> fdb_stats" where
  "stats_plus a b =
     \<lparr>fs_numArchive = fs_numArchive a + fs_numArchive b, fs_numFlush = fs_numFlush a + fs_numFlush b,
      fs_numRetrieve = fs_numRetrieve a + fs_numRetrieve b, fs_bytesArchive = fs_bytesArchive a + fs_bytesArchive b,
      fs_bytesRetrieve = fs_bytesRetrieve a + fs_bytesRetrieve b,
      fs_bytesArchiveSquared = fs_bytesArchiveSquared a + fs_bytesArchiveSquared b,
      fs_bytesRetrieveSquared = fs_bytesRetrieveSquared a + fs_bytesRetrieveSquared b\<rparr>"

definition addArchive :: "64 word \<Rightarrow> 64 word \<Rightarrow> fdb_stats \<Rightarrow> fdb_stats res" where
  "addArchive len nfields s =
     (if nfields = 0 then Inl (UndefinedBehaviour ''length / nfields'')
      else Inr (s\<lparr>fs_numArchive := fs_numArchive s + nfields, fs_bytesArchive := fs_bytesArchive s + len,
        fs_bytesArchiveSquared := fs_bytesArchiveSquared s + nfields * ((len div nfields) * (len div nfields))\<rparr>))"

definition addRetrieve :: "64 word \<Rightarrow> fdb_stats \<Rightarrow> fdb_stats" where
  "addRetrieve len s =
     s\<lparr>fs_numRetrieve := fs_numRetrieve s + 1, fs_bytesRetrieve := fs_bytesRetrieve s + len,
       fs_bytesRetrieveSquared := fs_bytesRetrieveSquared s + len * len\<rparr>"

definition addFlush :: "fdb_stats \<Rightarrow> fdb_stats" where
  "addFlush s = s\<lparr>fs_numFlush := fs_numFlush s + 1\<rparr>"

section \<open>FDBs\<close>

record 'c fdb_base =
  fb_name :: string
  fb_config :: "'c config"
  fb_ids :: control_ids
  fb_disabled :: bool

text \<open>\<open>FDBBase(config, name)\<close>: the switches of the configuration become disabled identifiers.\<close>

definition switch :: "bool \<Rightarrow> control_id \<Rightarrow> control_ids \<Rightarrow> control_ids" where
  "switch on i ids = (if on then ids else ids_add ids i)"

definition new_fdb_base :: "'c config_env \<Rightarrow> 'c config \<Rightarrow> string \<Rightarrow> 'c fdb_base" where
  "new_fdb_base E c name =
     (let writable = cg_bool E c ''writable'' True; visitable = cg_bool E c ''visitable'' True
      in \<lparr>fb_name = name, fb_config = c,
          fb_ids = switch (cg_bool E c ''wipe'' writable) IdWipe
                     (switch (cg_bool E c ''archive'' writable) IdArchive
                       (switch (cg_bool E c ''retrieve'' visitable) IdRetrieve
                         (switch (cg_bool E c ''list'' visitable) IdList 0))),
          fb_disabled = False\<rparr>)"

text \<open>The members of \<open>FDB\<close>, with those of the base of its implementation.\<close>

record 'c front =
  ft_base :: "'c fdb_base"
  ft_dirty :: bool
  ft_report :: bool
  ft_stats :: fdb_stats

type_synonym select_map = "(string, string) dict"

datatype (dead 'l, dead 'c) fdb =
    LocalFDB "'c front" 'l
  | SelectFDB "'c front" "(select_map \<times> ('l, 'c) fdb) list"
  | DistFDB "'c front" "string list" "('l, 'c) fdb list"

fun front_of :: "('l, 'c) fdb \<Rightarrow> 'c front" where
  "front_of (LocalFDB f l) = f"
| "front_of (SelectFDB f subs) = f"
| "front_of (DistFDB f nodes lanes) = f"

fun with_front :: "'c front \<Rightarrow> ('l, 'c) fdb \<Rightarrow> ('l, 'c) fdb" where
  "with_front f (LocalFDB _ l) = LocalFDB f l"
| "with_front f (SelectFDB _ subs) = SelectFDB f subs"
| "with_front f (DistFDB _ nodes lanes) = DistFDB f nodes lanes"

definition fdb_dirty :: "('l, 'c) fdb \<Rightarrow> bool" where
  "fdb_dirty fdb = ft_dirty (front_of fdb)"

definition fdb_enabled :: "('l, 'c) fdb \<Rightarrow> control_id \<Rightarrow> bool" where
  "fdb_enabled fdb i = ids_enabled (fb_ids (ft_base (front_of fdb))) i"

definition fdb_disabled :: "('l, 'c) fdb \<Rightarrow> bool" where
  "fdb_disabled fdb = fb_disabled (ft_base (front_of fdb))"

definition fdb_disable :: "('l, 'c) fdb \<Rightarrow> ('l, 'c) fdb" where
  "fdb_disable fdb = (let f = front_of fdb in with_front (f\<lparr>ft_base := (ft_base f)\<lparr>fb_disabled := True\<rparr>\<rparr>) fdb)"

section \<open>What an FDB calls\<close>

text \<open>
  The implementations that are not FDBs over FDBs, by the name they are registered under: their
  construction, archiving, flushing and the inspection of a request.
\<close>

record ('l, 'c, 'w, 'u) leaf_ops =
  lf_build :: "string \<Rightarrow> ('c config \<Rightarrow> 'l res) option"
  lf_archive :: "'c config \<Rightarrow> key \<Rightarrow> bytes \<Rightarrow> ('l \<times> 'w, unit) step"
  lf_flush :: "('l \<times> 'w, unit) step"
  lf_inspect :: "'c config \<Rightarrow> mars_request \<Rightarrow> ('l \<times> 'w, 'u list_element iter) step"

text \<open>
  The registry of schemas, \<open>Regex(re).match(text)\<close>, \<open>RendezvousHash::hashOrder\<close> of the nodes and a
  dictionary, and the draw of \<open>RandomFDB\<close>.
\<close>

record ('l, 'c, 'w, 'u) client_env =
  cl_config :: "'c config_env"
  cl_ext :: ext
  cl_leaf :: "('l, 'c, 'w, 'u) leaf_ops"
  cl_schema :: "string \<Rightarrow> ('w, schema) step"
  cl_match :: "string \<Rightarrow> string \<Rightarrow> bool"
  cl_hashOrder :: "string list \<Rightarrow> (string, string) dict \<Rightarrow> nat list"
  cl_random :: "nat \<Rightarrow> nat"

section \<open>Construction\<close>

text \<open>\<open>parseFDBSelect\<close>: \<open>class=regex,key=regex\<close>, no keyword twice.\<close>

definition select_entry :: "ext \<Rightarrow> string \<Rightarrow> select_map \<Rightarrow> select_map res" where
  "select_entry e entry m =
     (case x_tokenize e CHR ''='' False entry of
        [k, v] \<Rightarrow> (if map_of m k \<noteq> None then Inl (UserError ''Invalid select condition for pool'') else Inr (dict_put k v m))
      | _ \<Rightarrow> Inl (UserError ''Invalid select condition for pool''))"

definition parseFDBSelect :: "ext \<Rightarrow> 'c config_env \<Rightarrow> 'c config \<Rightarrow> select_map res" where
  "parseFDBSelect e E c = foldE (select_entry e) (x_tokenize e CHR '','' False (cg_string E c ''select'' [])) []"

text \<open>Construction may fail to end: no value for lack of fuel is \<open>None\<close>.\<close>

fun bindO :: "'a res option \<Rightarrow> ('a \<Rightarrow> 'b res option) \<Rightarrow> 'b res option" where
  "bindO None f = None"
| "bindO (Some (Inl e)) f = Some (Inl e)"
| "bindO (Some (Inr x)) f = f x"

fun foldO :: "('a \<Rightarrow> 's \<Rightarrow> 's res option) \<Rightarrow> 'a list \<Rightarrow> 's \<Rightarrow> 's res option" where
  "foldO f [] s = Some (Inr s)"
| "foldO f (x # xs) s = bindO (f x s) (foldO f xs)"

lemma bindO_cong [fundef_cong]:
  "m = m' \<Longrightarrow> (\<And>x. m' = Some (Inr x) \<Longrightarrow> f x = f' x) \<Longrightarrow> bindO m f = bindO m' f'"
  by (cases "(m', f')" rule: bindO.cases) simp_all

text \<open>The identity of an FDB in the hash is the text of its configuration.\<close>

definition fdb_id :: "'c config_env \<Rightarrow> ('l, 'c) fdb \<Rightarrow> string" where
  "fdb_id E fdb = co_text (ce_ops E) (cg_local (fb_config (ft_base (front_of fdb))))"

definition add_lane :: "'c config_env \<Rightarrow> ('l, 'c) fdb \<Rightarrow> string list \<Rightarrow> string list res" where
  "add_lane E fdb nodes =
     (if fdb_id E fdb \<in> set nodes then Inl (SeriousBug ''Failed to add node to hash'') else Inr (nodes @ [fdb_id E fdb]))"

definition new_front :: "'c config_env \<Rightarrow> 'c config \<Rightarrow> 'c config \<Rightarrow> string \<Rightarrow> 'c front" where
  "new_front E given actual name =
     \<lparr>ft_base = new_fdb_base E actual name, ft_dirty = False, ft_report = cg_bool E given ''statistics'' False, ft_stats = new_stats\<rparr>"

text \<open>
  \<open>FDBFactory::build\<close>, with the members that \<open>FDB(config)\<close> adds: the configuration is expanded, its type selects
  the implementation. The lanes of a distribution enter the hash one by one, after each is built.
\<close>

fun fdb_build :: "('l, 'c, 'w, 'u) client_env \<Rightarrow> nat \<Rightarrow> 'c config \<Rightarrow> ('l, 'c) fdb res option" where
  "fdb_build L 0 given = None"
| "fdb_build L (Suc n) given =
     (let E = cl_config L in
      bindO (Some (expandConfig E given)) (\<lambda>c.
      let type = cg_string E c ''type'' ''local''; f = new_front E given c type in
      if type = ''select'' then
        if \<not> cg_has E c ''fdbs'' then Some (Inl (UserError ''fdbs not specified for select FDB''))
        else bindO (Some (getSubConfigs E c ''fdbs'')) (\<lambda>cs.
             bindO (foldO (\<lambda>c subs. bindO (Some (parseFDBSelect (cl_ext L) E c)) (\<lambda>m.
                              bindO (fdb_build L n c) (\<lambda>fdb. Some (Inr (subs @ [(m, fdb)]))))) cs []) (\<lambda>subs.
               Some (Inr (SelectFDB f subs))))
      else if type = ''dist'' then
        if \<not> cg_has E c ''lanes'' then Some (Inl (UserError ''No lanes configured for pool''))
        else bindO (Some (getSubConfigs E c ''lanes'')) (\<lambda>cs.
             bindO (foldO (\<lambda>c (nodes, lanes). bindO (fdb_build L n c) (\<lambda>fdb.
                              bindO (Some (add_lane E fdb nodes)) (\<lambda>nodes. Some (Inr (nodes, lanes @ [fdb]))))) cs ([], []))
               (\<lambda>(nodes, lanes). Some (Inr (DistFDB f nodes lanes))))
      else if type = ''random'' then
        let choices = co_subs (ce_ops E) (cg_local c) ''fdbs'' in
        if \<not> cg_has E c ''fdbs'' \<or> choices = [] then Some (Inl (UserError ''No FDBs configured for random FDB frontend''))
        else let choice = cl_random L (length choices) in
             if length choices \<le> choice then Some (Inl (AssertFailed ''choice < fdbConfigs.size()''))
             else bindO (Some (new_config E (choices ! choice) (co_empty (ce_ops E)))) (\<lambda>c.
                  bindO (fdb_build L n c) (\<lambda>fdb.
                    Some (Inr (with_front ((front_of fdb)\<lparr>ft_report := ft_report f\<rparr>) fdb))))
      else
        (case lf_build (cl_leaf L) type of
           None \<Rightarrow> Some (Inl (SeriousBug ''FDB factory not found''))
         | Some build \<Rightarrow> bindO (Some (build c)) (\<lambda>l. Some (Inr (LocalFDB f l))))))"

declare fdb_build.simps(2) [simp del]

section \<open>Archiving\<close>

text \<open>
  \<open>FDB::archive\<close> on the key: the types of the schema; \<open>stepunits\<close> goes, the step that was put together with it is
  computed, which may throw, and dropped.
\<close>

definition drop_stepunits :: "ext \<Rightarrow> key \<Rightarrow> key res" where
  "drop_stepunits e k =
     (case key_find k ''stepunits'' of
        None \<Rightarrow> Inr k
      | Some units \<Rightarrow>
          bindE (if units \<noteq> [] \<and> hd units \<noteq> CHR ''h''
                 then (case key_find k ''step'' of
                         None \<Rightarrow> Inr ()
                       | Some step \<Rightarrow>
                           bindE (get_registry k) (\<lambda>r.
                           bindE (lookupType r ''step'') (\<lambda>t.
                           bindE (toKey e t ''step'' (step @ units)) (\<lambda>canonicalStep. Inr ()))))
                 else Inr ()) (\<lambda>_.
            Inr (unset_key ''stepunits'' k)))"

definition internal_key :: "('l, 'c, 'w, 'u) client_env \<Rightarrow> 'c front \<Rightarrow> key \<Rightarrow> ('w, key) step" where
  "internal_key L f key =
     bindS (liftS (schemaPath (cl_config L) (fb_config (ft_base f)))) (\<lambda>path.
     bindS (cl_schema L path) (\<lambda>sch.
       liftS (drop_stepunits (cl_ext L) (set_registry (schema_registry sch) key))))"

text \<open>What a successful \<open>archive\<close> and a successful \<open>flush\<close> leave in the members of the \<open>FDB\<close>.\<close>

definition archived :: "bytes \<Rightarrow> unit res \<Rightarrow> 'c front \<Rightarrow> 'c front" where
  "archived data r f =
     (case r of
        Inl _ \<Rightarrow> f
      | Inr _ \<Rightarrow>
          f\<lparr>ft_dirty := True,
            ft_stats := (case addArchive (of_nat (length data)) 1 (ft_stats f) of Inl _ \<Rightarrow> ft_stats f | Inr s \<Rightarrow> s)\<rparr>)"

definition flushed :: "unit res \<Rightarrow> 'c front \<Rightarrow> 'c front" where
  "flushed r f = (case r of Inl _ \<Rightarrow> f | Inr _ \<Rightarrow> f\<lparr>ft_dirty := False, ft_stats := addFlush (ft_stats f)\<rparr>)"

text \<open>\<open>SelectFDB::matches\<close> for a key and for a request.\<close>

definition select_matches_key :: "(string \<Rightarrow> string \<Rightarrow> bool) \<Rightarrow> key \<Rightarrow> select_map \<Rightarrow> bool \<Rightarrow> bool" where
  "select_matches_key re k m requireMissing =
     list_all (\<lambda>(name, pattern). case key_find k name of None \<Rightarrow> \<not> requireMissing | Some v \<Rightarrow> re pattern v) m"

definition select_matches_request :: "(string \<Rightarrow> string \<Rightarrow> bool) \<Rightarrow> mars_request \<Rightarrow> select_map \<Rightarrow> bool \<Rightarrow> bool" where
  "select_matches_request re rq m requireMissing =
     list_all (\<lambda>(name, pattern).
       let vs = rq_values_ok rq name in if vs = [] then \<not> requireMissing else list_ex (re pattern) vs) m"

text \<open>
  The loops of \<open>SelectFDB::archive\<close> and \<open>DistFDB::archive\<close>. Beside each FDB stands what archiving the field to it does.
\<close>

type_synonym ('w, 'f) attempt = "'w \<Rightarrow> unit res \<times> 'f \<times> 'w"

fun select_archive ::
    "(string \<Rightarrow> string \<Rightarrow> bool) \<Rightarrow> key \<Rightarrow> (select_map \<times> 'f \<times> ('w, 'f) attempt) list \<Rightarrow> 'w \<Rightarrow>
     unit res \<times> (select_map \<times> 'f) list \<times> 'w" where
  "select_archive re k [] w = (Inl (UserError ''No matching fdb for key''), [], w)"
| "select_archive re k ((m, f, attempt) # rest) w =
     (if select_matches_key re k m True
      then (case attempt w of (r, f, w) \<Rightarrow> (r, (m, f) # map (\<lambda>(m, f, _). (m, f)) rest, w))
      else (case select_archive re k rest w of (r, subs, w) \<Rightarrow> (r, (m, f) # subs, w)))"

fun eckit_exception :: "error \<Rightarrow> bool" where
  "eckit_exception (UndefinedBehaviour _) = False"
| "eckit_exception _ = True"

fun dist_archive ::
    "('l, 'c) fdb list \<Rightarrow> ('w, ('l, 'c) fdb) attempt list \<Rightarrow> nat list \<Rightarrow> 'w \<Rightarrow> unit res \<times> ('l, 'c) fdb list \<times> 'w" where
  "dist_archive lanes attempts [] w = (Inl (DistributionError ''No writable lanes available for archive''), lanes, w)"
| "dist_archive lanes attempts (i # is) w =
     (if length lanes \<le> i then (Inl (UndefinedBehaviour ''lanes_[idx]''), lanes, w)
      else if \<not> fdb_enabled (lanes ! i) IdArchive then dist_archive lanes attempts is w
      else if fdb_disabled (lanes ! i) then dist_archive lanes attempts is w
      else (case (attempts ! i) w of
              (Inr _, lane, w) \<Rightarrow> (Inr (), lanes[i := lane], w)
            | (Inl e, lane, w) \<Rightarrow>
                if \<not> eckit_exception e then (Inl e, lanes[i := lane], w)
                else if fdb_dirty lane then (Inl (DistributionError ''Archive failure on lane''), lanes[i := lane], w)
                else dist_archive (lanes[i := fdb_disable lane]) attempts is w))"

lemma size_sub [termination_simp]: "(m, f) \<in> set subs \<Longrightarrow> size f < Suc (size_list (size_prod (\<lambda>_. 0) size) subs)"
  by (induction subs) auto

lemma size_lane [termination_simp]: "f \<in> set lanes \<Longrightarrow> size f < Suc (size_list size lanes)"
  by (induction lanes) auto

fun fdb_archive ::
    "('l, 'c, 'w, 'u) client_env \<Rightarrow> ('l, 'c) fdb \<Rightarrow> key \<Rightarrow> bytes \<Rightarrow> 'w \<Rightarrow> unit res \<times> ('l, 'c) fdb \<times> 'w" where
  "fdb_archive L (LocalFDB f l) key data w =
     (case internal_key L f key w of
        (Inl e, w) \<Rightarrow> (Inl e, LocalFDB f l, w)
      | (Inr k, w) \<Rightarrow>
          (case lf_archive (cl_leaf L) (fb_config (ft_base f)) k data (l, w) of
             (r, l, w) \<Rightarrow> (r, LocalFDB (archived data r f) l, w)))"
| "fdb_archive L (SelectFDB f subs) key data w =
     (case internal_key L f key w of
        (Inl e, w) \<Rightarrow> (Inl e, SelectFDB f subs, w)
      | (Inr k, w) \<Rightarrow>
          (case select_archive (cl_match L) k (map (\<lambda>(m, fdb). (m, fdb, fdb_archive L fdb k data)) subs) w of
             (r, subs, w) \<Rightarrow> (r, SelectFDB (archived data r f) subs, w)))"
| "fdb_archive L (DistFDB f nodes lanes) key data w =
     (case internal_key L f key w of
        (Inl e, w) \<Rightarrow> (Inl e, DistFDB f nodes lanes, w)
      | (Inr k, w) \<Rightarrow>
          (case dist_archive lanes (map (\<lambda>fdb. fdb_archive L fdb k data) lanes) (cl_hashOrder L nodes (key_dict k)) w of
             (r, lanes, w) \<Rightarrow> (r, DistFDB (archived data r f) nodes lanes, w)))"

section \<open>Flushing\<close>

fun flush_subs :: "(select_map \<times> 'f \<times> ('w, 'f) attempt) list \<Rightarrow> 'w \<Rightarrow> unit res \<times> (select_map \<times> 'f) list \<times> 'w" where
  "flush_subs [] w = (Inr (), [], w)"
| "flush_subs ((m, f, attempt) # rest) w =
     (case attempt w of
        (Inl e, f, w) \<Rightarrow> (Inl e, (m, f) # map (\<lambda>(m, f, _). (m, f)) rest, w)
      | (Inr _, f, w) \<Rightarrow> (case flush_subs rest w of (r, subs, w) \<Rightarrow> (r, (m, f) # subs, w)))"

text \<open>
  \<open>DistFDB::flush\<close>: every lane is flushed in a future of its own, taken one after the other here. The futures are waited
  for where they are destroyed, nobody asks them for their exceptions.
\<close>

fun flush_lanes :: "('w, 'f) attempt list \<Rightarrow> 'w \<Rightarrow> unit res \<times> 'f list \<times> 'w" where
  "flush_lanes [] w = (Inr (), [], w)"
| "flush_lanes (attempt # rest) w =
     (case attempt w of
        (r, f, w) \<Rightarrow>
          (case flush_lanes rest w of
             (r', fs, w) \<Rightarrow> (case r of Inl e \<Rightarrow> (if eckit_exception e then r' else Inl e) | Inr _ \<Rightarrow> r', f # fs, w)))"

fun fdb_flush :: "('l, 'c, 'w, 'u) client_env \<Rightarrow> ('l, 'c) fdb \<Rightarrow> 'w \<Rightarrow> unit res \<times> ('l, 'c) fdb \<times> 'w" where
  "fdb_flush L (LocalFDB f l) w =
     (if \<not> ft_dirty f then (Inr (), LocalFDB f l, w)
      else (case lf_flush (cl_leaf L) (l, w) of (r, l, w) \<Rightarrow> (r, LocalFDB (flushed r f) l, w)))"
| "fdb_flush L (SelectFDB f subs) w =
     (if \<not> ft_dirty f then (Inr (), SelectFDB f subs, w)
      else (case flush_subs (map (\<lambda>(m, fdb). (m, fdb, fdb_flush L fdb)) subs) w of
              (r, subs, w) \<Rightarrow> (r, SelectFDB (flushed r f) subs, w)))"
| "fdb_flush L (DistFDB f nodes lanes) w =
     (if \<not> ft_dirty f then (Inr (), DistFDB f nodes lanes, w)
      else (case flush_lanes (map (\<lambda>fdb. fdb_flush L fdb) lanes) w of
              (r, lanes, w) \<Rightarrow> (r, DistFDB (flushed r f) nodes lanes, w)))"

section \<open>Queries\<close>

text \<open>
  The queries other than \<open>inspect\<close>: a query of a leaf starts a worker and gives back its iterator. An FDB over FDBs
  aggregates those of the FDBs that match, or of the lanes that may retrieve.
\<close>

fun fdb_query ::
    "('l, 'c, 'w, 'u) client_env \<Rightarrow> ('c config \<Rightarrow> mars_request \<Rightarrow> bool \<Rightarrow> 'l \<Rightarrow> 'a iter) \<Rightarrow> mars_request \<Rightarrow> bool \<Rightarrow>
     ('l, 'c) fdb \<Rightarrow> 'a iter" where
  "fdb_query L q rq all (LocalFDB f l) = q (fb_config (ft_base f)) rq all l"
| "fdb_query L q rq all (SelectFDB f subs) =
     Aggregate (concat (map (\<lambda>(m, fdb).
       if select_matches_request (cl_match L) rq m False \<or> all then [fdb_query L q rq all fdb] else []) subs))"
| "fdb_query L q rq all (DistFDB f nodes lanes) =
     Aggregate (concat (map (\<lambda>fdb. if fdb_enabled fdb IdRetrieve then [fdb_query L q rq all fdb] else []) lanes))"

text \<open>\<open>FDB::list\<close> takes the iterator as it is and filters the whole.\<close>

definition fdb_list ::
    "('l, 'c, 'w, 'u) client_env \<Rightarrow> ('c config \<Rightarrow> mars_request \<Rightarrow> bool \<Rightarrow> 'l \<Rightarrow> 'u list_element iter) \<Rightarrow> mars_request \<Rightarrow> bool \<Rightarrow>
     bool \<Rightarrow> ('l, 'c) fdb \<Rightarrow> 'u list_iterator" where
  "fdb_list L q rq all dedup fdb = new_list_iterator (fdb_query L q rq all fdb) dedup"

text \<open>A choice neither moves nor asks for axes, a distribution has no axes.\<close>

fun fdb_move :: "('l, 'c, 'w, 'u) client_env \<Rightarrow> ('c config \<Rightarrow> mars_request \<Rightarrow> bool \<Rightarrow> 'l \<Rightarrow> 'a iter) \<Rightarrow> mars_request \<Rightarrow> bool \<Rightarrow>
    ('l, 'c) fdb \<Rightarrow> 'a iter res" where
  "fdb_move L q rq all (LocalFDB f l) = Inr (q (fb_config (ft_base f)) rq all l)"
| "fdb_move L q rq all (SelectFDB f subs) = Inl (NotImplemented ''SelectFDB::move'')"
| "fdb_move L q rq all (DistFDB f nodes lanes) =
     bindE (mapE (\<lambda>fdb. fdb_move L q rq all fdb) (filter (\<lambda>fdb. fdb_enabled fdb IdRetrieve) lanes)) (\<lambda>its. Inr (Aggregate its))"

fun fdb_axes :: "('l, 'c, 'w, 'u) client_env \<Rightarrow> ('c config \<Rightarrow> mars_request \<Rightarrow> bool \<Rightarrow> 'l \<Rightarrow> 'a iter) \<Rightarrow> mars_request \<Rightarrow> bool \<Rightarrow>
    ('l, 'c) fdb \<Rightarrow> 'a iter res" where
  "fdb_axes L q rq all (LocalFDB f l) = Inr (q (fb_config (ft_base f)) rq all l)"
| "fdb_axes L q rq all _ = Inl (NotImplemented ''FDBBase::axes'')"

text \<open>\<open>inspect\<close> of the FDBs in a list, of those that are asked for.\<close>

fun inspect_subs :: "(bool \<times> 'x \<times> 'f \<times> ('w \<Rightarrow> 'i res \<times> 'f \<times> 'w)) list \<Rightarrow> 'w \<Rightarrow> 'i list res \<times> ('x \<times> 'f) list \<times> 'w" where
  "inspect_subs [] w = (Inr [], [], w)"
| "inspect_subs ((asked, x, f, look) # rest) w =
     (if \<not> asked then (case inspect_subs rest w of (r, subs, w) \<Rightarrow> (r, (x, f) # subs, w))
      else (case look w of
              (Inl e, f, w) \<Rightarrow> (Inl e, (x, f) # map (\<lambda>(_, x, f, _). (x, f)) rest, w)
            | (Inr it, f, w) \<Rightarrow>
                (case inspect_subs rest w of (r, subs, w) \<Rightarrow> (bindE r (\<lambda>its. Inr (it # its)), (x, f) # subs, w))))"

text \<open>The lanes are all asked, in futures, before the first answer is taken.\<close>

fun inspect_lanes :: "(bool \<times> 'f \<times> ('w \<Rightarrow> 'i res \<times> 'f \<times> 'w)) list \<Rightarrow> 'w \<Rightarrow> 'i list res \<times> 'f list \<times> 'w" where
  "inspect_lanes [] w = (Inr [], [], w)"
| "inspect_lanes ((asked, f, look) # rest) w =
     (if \<not> asked then (case inspect_lanes rest w of (r, fs, w) \<Rightarrow> (r, f # fs, w))
      else (case look w of
              (r, f, w) \<Rightarrow>
                (case inspect_lanes rest w of
                   (rs, fs, w) \<Rightarrow> (bindE r (\<lambda>it. bindE rs (\<lambda>its. Inr (it # its))), f # fs, w))))"

fun fdb_inspect ::
    "('l, 'c, 'w, 'u) client_env \<Rightarrow> mars_request \<Rightarrow> ('l, 'c) fdb \<Rightarrow> 'w \<Rightarrow> 'u list_element iter res \<times> ('l, 'c) fdb \<times> 'w" where
  "fdb_inspect L rq (LocalFDB f l) w =
     (case lf_inspect (cl_leaf L) (fb_config (ft_base f)) rq (l, w) of (r, l, w) \<Rightarrow> (r, LocalFDB f l, w))"
| "fdb_inspect L rq (SelectFDB f subs) w =
     (case inspect_subs (map (\<lambda>(m, fdb).
             (select_matches_request (cl_match L) rq m True, m, fdb, \<lambda>w. fdb_inspect L rq fdb w)) subs) w of
        (r, subs, w) \<Rightarrow> (bindE r (\<lambda>its. Inr (Aggregate its)), SelectFDB f subs, w))"
| "fdb_inspect L rq (DistFDB f nodes lanes) w =
     (case inspect_lanes (map (\<lambda>fdb. (fdb_enabled fdb IdRetrieve, fdb, \<lambda>w. fdb_inspect L rq fdb w)) lanes) w of
        (r, lanes, w) \<Rightarrow> (bindE r (\<lambda>its. Inr (Aggregate its)), DistFDB f nodes lanes, w))"

section \<open>Reading\<close>

text \<open>
  \<open>FDB::read\<close> of a listing, without the resource \<open>fdbDeduplicate\<close>: every element becomes a handle as it comes.
  The location of an element may be null. The fuel bounds the number of elements.
\<close>

fun read_listing ::
    "nat \<Rightarrow> ('s \<Rightarrow> 'u list_element option res \<times> 's) \<Rightarrow> ('u location \<Rightarrow> 'h res) \<Rightarrow> ('h \<Rightarrow> 'h \<Rightarrow> 'h option) \<Rightarrow> 's \<Rightarrow>
     'h gatherer \<Rightarrow> 'h gatherer res option" where
  "read_listing 0 f handle merge it g = None"
| "read_listing (Suc n) f handle merge it g =
     (case f it of
        (Inl e, it) \<Rightarrow> Some (Inl e)
      | (Inr None, it) \<Rightarrow> Some (Inr g)
      | (Inr (Some el), it) \<Rightarrow>
          (case le_location el of
             None \<Rightarrow> Some (Inl (UndefinedBehaviour ''el.location()''))
           | Some loc \<Rightarrow>
               (case handle loc of
                  Inl e \<Rightarrow> Some (Inl e)
                | Inr h \<Rightarrow> read_listing n f handle merge it (gather_add merge h g))))"

text \<open>\<open>FDB::read\<close> of URIs: the locations of the factory, whose handles are gathered.\<close>

definition read_uris ::
    "ext \<Rightarrow> 'u uri_parts \<Rightarrow> location_builders \<Rightarrow> ('u \<Rightarrow> string) \<Rightarrow> ('u location \<Rightarrow> 'h res) \<Rightarrow> ('h \<Rightarrow> 'h \<Rightarrow> 'h option) \<Rightarrow>
     (bool \<Rightarrow> 'h \<Rightarrow> 'h) \<Rightarrow> bool \<Rightarrow> 'u list \<Rightarrow> 'h list res" where
  "read_uris e Q bs scheme handle merge compress srt uris =
     bindE (foldE (\<lambda>uri g.
              bindE (build_location_of_uri e Q bs (scheme uri) uri) (\<lambda>loc.
              bindE (handle loc) (\<lambda>h. Inr (gather_add merge h g)))) uris (new_gatherer srt)) (\<lambda>g.
       Inr (fst (gather_handle compress g)))"

text \<open>\<open>retrieve\<close>: the data is in the order of the listing unless the request says \<open>optimise=on\<close>.\<close>

definition fdb_sorted :: "mars_request \<Rightarrow> bool" where
  "fdb_sorted rq \<longleftrightarrow> rq_values_ok rq ''optimise'' = [''on'']"

definition fdb_retrieve ::
    "('l, 'c, 'w, 'u) client_env \<Rightarrow> (string \<Rightarrow> nat) \<Rightarrow> ('u location \<Rightarrow> 'h res) \<Rightarrow> ('h \<Rightarrow> 'h \<Rightarrow> 'h option) \<Rightarrow> (bool \<Rightarrow> 'h \<Rightarrow> 'h) \<Rightarrow>
     nat \<Rightarrow> mars_request \<Rightarrow> ('l, 'c) fdb \<Rightarrow> 'w \<Rightarrow> ('h list res option) \<times> ('l, 'c) fdb \<times> 'w" where
  "fdb_retrieve L hash handle merge compress n rq fdb w =
     (case fdb_inspect L rq fdb w of
        (Inl e, fdb, w) \<Rightarrow> (Some (Inl e), fdb, w)
      | (Inr it, fdb, w) \<Rightarrow>
          (map_option (\<lambda>r. bindE r (\<lambda>g. Inr (fst (gather_handle compress g))))
             (read_listing n (list_next (cl_ext L) hash) handle merge (new_list_iterator it False) (new_gatherer (fdb_sorted rq))),
           fdb, w))"


section \<open>Where a choice archives\<close>

text \<open>The FDBs of a list of attempts.\<close>

abbreviation bare :: "(select_map \<times> 'f \<times> ('w, 'f) attempt) list \<Rightarrow> (select_map \<times> 'f) list" where
  "bare \<equiv> map (\<lambda>(m, f, _). (m, f))"

lemma select_archive_split:
  assumes "select_archive re k xs w = (Inr u, subs, w')"
  shows "\<exists>pre m f attempt post f'. xs = pre @ (m, f, attempt) # post \<and> subs = bare pre @ (m, f') # bare post \<and>
    attempt w = (Inr u, f', w') \<and> select_matches_key re k m True \<and> (\<forall>(m', _) \<in> set (bare pre). \<not> select_matches_key re k m' True)"
  using assms
proof (induction xs arbitrary: subs)
  case (Cons x xs)
  obtain m f attempt where x: "x = (m, f, attempt)" by (cases x)
  show ?case
  proof (cases "select_matches_key re k m True")
    case True
    with Cons.prems x obtain f' where "attempt w = (Inr u, f', w')" "subs = (m, f') # bare xs"
      by (auto split: prod.splits)
    with x True show ?thesis
      by (intro exI [of _ "[]"] exI [of _ m] exI [of _ f] exI [of _ attempt] exI [of _ xs] exI [of _ f']) auto
  next
    case False
    with Cons.prems x obtain rest where rest: "select_archive re k xs w = (Inr u, rest, w')" and subs: "subs = (m, f) # rest"
      by (auto split: prod.splits)
    from Cons.IH [OF rest] obtain pre m' f' attempt' post f'' where
      "xs = pre @ (m', f', attempt') # post" "rest = bare pre @ (m', f'') # bare post"
      "attempt' w = (Inr u, f'', w')" "select_matches_key re k m' True"
      "\<forall>(m', _) \<in> set (bare pre). \<not> select_matches_key re k m' True" by blast
    with x subs False show ?thesis
      by (intro exI [of _ "x # pre"] exI [of _ m'] exI [of _ f'] exI [of _ attempt'] exI [of _ post] exI [of _ f'']) auto
  qed
qed simp

lemma bare_attempts [simp]: "bare (map (\<lambda>(m, fdb). (m, fdb, g fdb)) subs) = subs"
  by (induction subs) auto

text \<open>A request that asks for a key: it has every value of the key among its values.\<close>

definition asks_for :: "mars_request \<Rightarrow> key \<Rightarrow> bool" where
  "asks_for rq k \<longleftrightarrow> (\<forall>name v. key_find k name = Some v \<longrightarrow> v \<in> set (rq_values_ok rq name))"

lemma asks_for_matches:
  assumes "asks_for rq k" and "select_matches_key re k m True"
  shows "select_matches_request re rq m missing"
  unfolding select_matches_request_def list_all_iff
proof clarify
  fix name pattern
  assume "(name, pattern) \<in> set m"
  with assms(2) obtain v where v: "key_find k name = Some v" "re pattern v"
    by (auto simp: select_matches_key_def list_all_iff split: option.splits)
  then have "v \<in> set (rq_values_ok rq name)" using assms(1) by (simp add: asks_for_def)
  with v(2) show "let vs = rq_values_ok rq name in if vs = [] then \<not> missing else list_ex (re pattern) vs"
    by (auto simp: Let_def list_ex_iff)
qed

lemma map_pairs_split:
  assumes "map (\<lambda>(m, fdb). (m, fdb, g fdb)) subs = pre @ (m, f, attempt) # post"
  shows "length pre < length subs \<and> subs ! length pre = (m, f) \<and> attempt = g f \<and>
    bare pre = take (length pre) subs \<and> bare post = drop (Suc (length pre)) subs"
proof -
  have len: "length subs = length pre + Suc (length post)" using arg_cong [OF assms, of length] by simp
  have nth: "map (\<lambda>(m, fdb). (m, fdb, g fdb)) subs ! length pre = (m, f, attempt)" using assms by simp
  have subs: "subs = bare pre @ (m, f) # bare post"
    using arg_cong [OF assms, of "map (\<lambda>(m, f, _). (m, f))"] by (simp only: bare_attempts map_append list.map prod.case)
  have here: "subs ! length pre = (m, f)" using arg_cong [OF subs, of "\<lambda>l. l ! length pre"] by (simp add: nth_append)
  have "take (length pre) subs = bare pre" using arg_cong [OF subs, of "take (length pre)"] by simp
  moreover have "drop (Suc (length pre)) subs = bare post" using arg_cong [OF subs, of "drop (Suc (length pre))"] by simp
  moreover have "attempt = g f" using nth len here by simp
  ultimately show ?thesis using here len by simp
qed

text \<open>An FDB that is asked gives one of the iterators of the answer.\<close>

lemma inspect_subs_asked:
  "inspect_subs xs w = (Inr its, subs, w') \<Longrightarrow> (True, m, f, look) \<in> set xs \<Longrightarrow>
     \<exists>pre x post w1 f' w2. its = pre @ x # post \<and> look w1 = (Inr x, f', w2)"
proof (induction xs arbitrary: its subs w)
  case (Cons y ys)
  obtain asked m1 f1 look1 where y: "y = (asked, m1, f1, look1)" by (cases y) auto
  show ?case
  proof (cases asked)
    case False
    with Cons.prems y obtain subs1 where "inspect_subs ys w = (Inr its, subs1, w')" and "(True, m, f, look) \<in> set ys"
      by (auto split: prod.splits)
    then show ?thesis by (rule Cons.IH)
  next
    case True
    with Cons.prems(1) y obtain x f1' w1 its1 subs1 where x: "look1 w = (Inr x, f1', w1)"
      and rest: "inspect_subs ys w1 = (Inr its1, subs1, w')" and its: "its = x # its1"
      by (auto simp: bindE_eq_Inr split: prod.splits sum.splits)
    show ?thesis
    proof (cases "(True, m, f, look) \<in> set ys")
      case True
      from Cons.IH [OF rest this] obtain pre z post v1 g v2 where "its1 = pre @ z # post" and "look v1 = (Inr z, g, v2)" by blast
      with its show ?thesis by (metis append_Cons)
    next
      case False
      with Cons.prems(2) y x its show ?thesis by (metis Pair_inject append_Nil set_ConsD)
    qed
  qed
qed simp

lemma select_query_asks:
  assumes "i < length subs" and "select_matches_request (cl_match L) rq (fst (subs ! i)) False"
  shows "\<exists>pre post. fdb_query L q rq all (SelectFDB f subs) = Aggregate (pre @ fdb_query L q rq all (snd (subs ! i)) # post)"
proof -
  let ?g = "\<lambda>(m, fdb). if select_matches_request (cl_match L) rq m False \<or> all then [fdb_query L q rq all fdb] else []"
  have "concat (map ?g subs) = concat (map ?g (take i subs)) @ ?g (subs ! i) @ concat (map ?g (drop (Suc i) subs))"
    by (subst id_take_nth_drop [OF assms(1)]) simp
  moreover have "?g (subs ! i) = [fdb_query L q rq all (snd (subs ! i))]"
    using assms(2) by (cases "subs ! i") simp
  ultimately show ?thesis by (auto intro: exI)
qed

lemma select_inspect_asks:
  assumes "i < length subs" and "select_matches_request (cl_match L) rq (fst (subs ! i)) True"
    and "fdb_inspect L rq (SelectFDB f subs) w = (Inr it, fdb', w')"
  shows "\<exists>pre x post w1 sub' w2. it = Aggregate (pre @ x # post) \<and> fdb_inspect L rq (snd (subs ! i)) w1 = (Inr x, sub', w2)"
proof -
  let ?xs = "map (\<lambda>(m, fdb). (select_matches_request (cl_match L) rq m True, m, fdb, \<lambda>w. fdb_inspect L rq fdb w)) subs"
  obtain its subs' where run: "inspect_subs ?xs w = (Inr its, subs', w')" and it: "it = Aggregate its"
    using assms(3) by (auto simp: bindE_eq_Inr split: prod.splits)
  have "(True, fst (subs ! i), snd (subs ! i), \<lambda>w. fdb_inspect L rq (snd (subs ! i)) w) \<in> set ?xs"
    using assms(2) nth_mem [OF assms(1)] by (cases "subs ! i") force
  from inspect_subs_asked [OF run this] it show ?thesis by blast
qed

text \<open>
  C11: what a choice among FDBs archives, it looks for in the same place. The field goes to the first FDB whose
  selection matches its key; the others are left alone; and a request that asks for this key, with whatever
  further values, is passed on to that FDB afterwards: every query but \<open>inspect\<close> aggregates what this FDB answers with
  what others do, and the answer of an \<open>inspect\<close> that succeeds has the iterator of this FDB's \<open>inspect\<close> in it.
\<close>
theorem select_archive_found:
  assumes "internal_key L f key w = (Inr k, w1)"
    and "fdb_archive L (SelectFDB f subs) key data w = (Inr u, fdb', w')" and "asks_for rq k"
  shows "\<exists>i f' sub'. i < length subs \<and> fdb' = SelectFDB f' (subs[i := (fst (subs ! i), sub')]) \<and> ft_dirty f' \<and>
    fdb_archive L (snd (subs ! i)) k data w1 = (Inr u, sub', w') \<and>
    (\<forall>j < i. \<not> select_matches_key (cl_match L) k (fst (subs ! j)) True) \<and>
    (\<forall>q all. \<exists>pre post. fdb_query L q rq all fdb' = Aggregate (pre @ fdb_query L q rq all sub' # post)) \<and>
    (\<forall>v it fdb'' v'. fdb_inspect L rq fdb' v = (Inr it, fdb'', v') \<longrightarrow>
       (\<exists>pre x post v1 sub'' v2. it = Aggregate (pre @ x # post) \<and> fdb_inspect L rq sub' v1 = (Inr x, sub'', v2)))"
proof -
  let ?xs = "map (\<lambda>(m, fdb). (m, fdb, fdb_archive L fdb k data)) subs"
  from assms(1,2) obtain subs' where run: "select_archive (cl_match L) k ?xs w1 = (Inr u, subs', w')"
    and fdb': "fdb' = SelectFDB (archived data (Inr u) f) subs'"
    by (auto split: prod.splits)
  from select_archive_split [OF run] obtain pre m g attempt post g' where
    xs: "?xs = pre @ (m, g, attempt) # post" and subs': "subs' = bare pre @ (m, g') # bare post"
    and att: "attempt w1 = (Inr u, g', w')" and match: "select_matches_key (cl_match L) k m True"
    and first: "\<forall>(m', _) \<in> set (bare pre). \<not> select_matches_key (cl_match L) k m' True" by blast
  let ?i = "length pre"
  note parts = map_pairs_split [OF xs]
  have "subs' = subs[?i := (fst (subs ! ?i), g')]"
    using parts subs' by (simp add: upd_conv_take_nth_drop)
  moreover have "\<not> select_matches_key (cl_match L) k (fst (subs ! j)) True" if "j < ?i" for j
  proof -
    have "subs ! j \<in> set (take ?i subs)" using that parts by (metis in_set_conv_nth length_take min.absorb4 nth_take)
    with first parts show ?thesis by (cases "subs ! j") auto
  qed
  moreover have "(\<forall>q all. \<exists>pre post. fdb_query L q rq all fdb' = Aggregate (pre @ fdb_query L q rq all g' # post)) \<and>
    (\<forall>v it fdb'' v'. fdb_inspect L rq fdb' v = (Inr it, fdb'', v') \<longrightarrow>
       (\<exists>pre x post v1 sub'' v2. it = Aggregate (pre @ x # post) \<and> fdb_inspect L rq g' v1 = (Inr x, sub'', v2)))"
  proof -
    have len: "?i < length subs'" and at: "subs' ! ?i = (m, g')" by (simp_all add: subs' nth_append)
    note asks = asks_for_matches [OF assms(3) match]
    have "\<exists>pre post. fdb_query L q rq all fdb' = Aggregate (pre @ fdb_query L q rq all g' # post)" for q all
      using select_query_asks [OF len, of L rq q all "archived data (Inr u) f"] asks by (simp only: fdb' at fst_conv snd_conv)
    moreover have "\<exists>pre x post v1 sub'' v2. it = Aggregate (pre @ x # post) \<and> fdb_inspect L rq g' v1 = (Inr x, sub'', v2)"
      if "fdb_inspect L rq fdb' v = (Inr it, fdb'', v')" for v it fdb'' v'
      using select_inspect_asks [OF len _ that [unfolded fdb']] asks by (simp only: at fst_conv snd_conv)
    ultimately show ?thesis by blast
  qed
  ultimately show ?thesis
    using parts att fdb'
    by (intro exI [of _ ?i] exI [of _ "archived data (Inr u) f"] exI [of _ g']) (auto simp: archived_def)
qed

section \<open>Where a distribution archives\<close>

text \<open>A lane that archiving failed on while it was clean, and is not used any more.\<close>

definition given_up :: "('w, ('l, 'c) fdb) attempt list \<Rightarrow> ('l, 'c) fdb list \<Rightarrow> nat \<Rightarrow> bool" where
  "given_up attempts lanes j \<longleftrightarrow>
     (\<exists>w e lane w'. (attempts ! j) w = (Inl e, lane, w') \<and> eckit_exception e \<and> \<not> fdb_dirty lane \<and> lanes ! j = fdb_disable lane)"

text \<open>The lane on which the whole operation failed.\<close>

definition failed_on :: "('w, ('l, 'c) fdb) attempt list \<Rightarrow> error \<Rightarrow> ('l, 'c) fdb list \<Rightarrow> nat \<Rightarrow> bool" where
  "failed_on attempts e lanes j \<longleftrightarrow>
     (\<exists>w e' w'. (attempts ! j) w = (Inl e', lanes ! j, w') \<and> (if eckit_exception e' then fdb_dirty (lanes ! j) else e = e'))"

definition stored_on :: "('w, ('l, 'c) fdb) attempt list \<Rightarrow> ('l, 'c) fdb list \<Rightarrow> ('l, 'c) fdb list \<Rightarrow> 'w \<Rightarrow> nat \<Rightarrow> bool" where
  "stored_on attempts lanes lanes' w' j \<longleftrightarrow>
     fdb_enabled (lanes ! j) IdArchive \<and> \<not> fdb_disabled (lanes ! j) \<and> (\<exists>w u. (attempts ! j) w = (Inr u, lanes' ! j, w'))"

lemma dist_archive_loop:
  assumes "distinct is" and "set is \<subseteq> {..<length lanes}" and "dist_archive lanes attempts is w = (r, lanes', w')"
  shows "length lanes' = length lanes \<and> (\<forall>j. j \<notin> set is \<longrightarrow> lanes' ! j = lanes ! j) \<and>
    (case r of
       Inr _ \<Rightarrow> \<exists>i \<in> set is. stored_on attempts lanes lanes' w' i \<and>
         (\<forall>j \<in> set is - {i}. lanes' ! j = lanes ! j \<or> given_up attempts lanes' j)
     | Inl e \<Rightarrow> ((\<exists>m. e = DistributionError m) \<or> \<not> eckit_exception e) \<and>
         (\<forall>j \<in> set is. lanes' ! j = lanes ! j \<or> given_up attempts lanes' j \<or> failed_on attempts e lanes' j))"
  using assms
proof (induction lanes attempts "is" w arbitrary: r rule: dist_archive.induct)
  case (1 lanes attempts w)
  then show ?case by auto
next
  case (2 lanes attempts i "is" w)
  have i: "i < length lanes" "i \<notin> set is" "distinct is" "set is \<subseteq> {..<length lanes}" using "2.prems"(1,2) by auto
  note run = "2.prems"(3) [unfolded dist_archive.simps]
  show ?case
  proof (cases "fdb_enabled (lanes ! i) IdArchive \<and> \<not> fdb_disabled (lanes ! i)")
    case False
    then have rec: "dist_archive lanes attempts is w = (r, lanes', w')" using run i(1) by (auto split: if_splits)
    have "length lanes' = length lanes \<and> (\<forall>j. j \<notin> set is \<longrightarrow> lanes' ! j = lanes ! j) \<and>
    (case r of
       Inr _ \<Rightarrow> \<exists>i \<in> set is. stored_on attempts lanes lanes' w' i \<and>
         (\<forall>j \<in> set is - {i}. lanes' ! j = lanes ! j \<or> given_up attempts lanes' j)
     | Inl e \<Rightarrow> ((\<exists>m. e = DistributionError m) \<or> \<not> eckit_exception e) \<and>
         (\<forall>j \<in> set is. lanes' ! j = lanes ! j \<or> given_up attempts lanes' j \<or> failed_on attempts e lanes' j))"
    proof (cases "fdb_enabled (lanes ! i) IdArchive")
      case True
      with False have "fdb_disabled (lanes ! i)" by simp
      from "2.IH"(2) [OF _ _ this i(3,4) rec] i(1) True show ?thesis by simp
    next
      case False
      from "2.IH"(1) [OF _ False i(3,4) rec] i(1) show ?thesis by simp
    qed
    with i(2) show ?thesis by (auto split: sum.splits)
  next
    case usable: True
    obtain r1 lane w1 where att: "(attempts ! i) w = (r1, lane, w1)" by (metis prod.exhaust)
    note run = run [unfolded att]
    show ?thesis
    proof (cases r1)
      case (Inr u)
      with run usable i(1) have res: "r = Inr ()" "lanes' = lanes[i := lane]" "w' = w1" by auto
      then have "stored_on attempts lanes lanes' w' i" using i(1) att Inr usable by (auto simp: stored_on_def)
      moreover have "lanes' ! j = lanes ! j" if "j \<noteq> i" for j using that res(2) by simp
      ultimately show ?thesis using res i(1) by (auto simp: nth_list_update)
    next
      case (Inl e)
      show ?thesis
      proof (cases "eckit_exception e \<and> \<not> fdb_dirty lane")
        case False
        then have "lanes' = lanes[i := lane]" "w' = w1" and r: "r = Inl (if eckit_exception e then DistributionError ''Archive failure on lane'' else e)"
          using run Inl usable i(1) by (auto split: if_splits)
        with i att Inl False have "failed_on attempts (projl r) lanes' i"
          by (auto simp: failed_on_def)
        with r i \<open>lanes' = lanes[i := lane]\<close> show ?thesis by (auto simp: nth_list_update)
      next
        case clean: True
        then have rec: "dist_archive (lanes[i := fdb_disable lane]) attempts is w1 = (r, lanes', w')"
          using run Inl usable i(1) by auto
        have at: "set is \<subseteq> {..<length (lanes[i := fdb_disable lane])}" using i(4) by simp
        from "2.IH"(3) [OF _ _ _ att [symmetric] Inl refl _ _ i(3) at rec] usable i(1) clean
        have IH: "length lanes' = length lanes \<and> (\<forall>j. j \<notin> set is \<longrightarrow> lanes' ! j = lanes[i := fdb_disable lane] ! j) \<and>
          (case r of
             Inr _ \<Rightarrow> \<exists>i' \<in> set is. stored_on attempts (lanes[i := fdb_disable lane]) lanes' w' i' \<and>
               (\<forall>j \<in> set is - {i'}. lanes' ! j = lanes[i := fdb_disable lane] ! j \<or> given_up attempts lanes' j)
           | Inl e \<Rightarrow> ((\<exists>m. e = DistributionError m) \<or> \<not> eckit_exception e) \<and>
               (\<forall>j \<in> set is. lanes' ! j = lanes[i := fdb_disable lane] ! j \<or> given_up attempts lanes' j \<or> failed_on attempts e lanes' j))"
          by simp
        then have "lanes' ! i = fdb_disable lane" using i(1,2) by auto
        then have here: "given_up attempts lanes' i" using att Inl clean unfolding given_up_def by blast
        have other: "lanes[i := fdb_disable lane] ! j = lanes ! j" if "j \<in> set is" for j
          using that i(2) by (metis nth_list_update_neq)
        then have stored: "stored_on attempts (lanes[i := fdb_disable lane]) lanes' w' j = stored_on attempts lanes lanes' w' j"
          if "j \<in> set is" for j
          using that by (simp add: stored_on_def)
        from IH here i(2) show ?thesis
          by (cases r) (auto simp: other stored)
      qed
    qed
  qed
qed

text \<open>
  C10: a distribution stores a field in one lane, and gives up no lane with data that is not flushed. With a hash order
  that names every lane at most once, \<open>archive\<close> succeeds on a lane that may archive and is not disabled, with the
  same key and data; any other lane is as before or was clean when archiving to it failed, and is disabled from then on. When
  it does not succeed, the lane that failed while it held unflushed data is not disabled, and the exception is that of the distribution.
\<close>
theorem dist_archive_lanes:
  assumes "internal_key L f key w = (Inr k, w1)"
    and "distinct (cl_hashOrder L nodes (key_dict k))" and "set (cl_hashOrder L nodes (key_dict k)) \<subseteq> {..<length lanes}"
    and "fdb_archive L (DistFDB f nodes lanes) key data w = (r, fdb', w')"
  shows "\<exists>f' lanes'. let attempts = map (\<lambda>lane. fdb_archive L lane k data) lanes in
    fdb' = DistFDB f' nodes lanes' \<and> length lanes' = length lanes \<and>
    (case r of
       Inr _ \<Rightarrow> ft_dirty f' \<and> (\<exists>i < length lanes. stored_on attempts lanes lanes' w' i \<and>
         (\<forall>j < length lanes. j \<noteq> i \<longrightarrow> lanes' ! j = lanes ! j \<or> given_up attempts lanes' j))
     | Inl e \<Rightarrow> f' = f \<and> ((\<exists>m. e = DistributionError m) \<or> \<not> eckit_exception e) \<and>
         (\<forall>j < length lanes. lanes' ! j = lanes ! j \<or> given_up attempts lanes' j \<or> failed_on attempts e lanes' j))"
proof -
  let ?is = "cl_hashOrder L nodes (key_dict k)" and ?attempts = "map (\<lambda>lane. fdb_archive L lane k data) lanes"
  from assms(1,4) obtain lanes' where run: "dist_archive lanes ?attempts ?is w1 = (r, lanes', w')"
    and fdb': "fdb' = DistFDB (archived data r f) nodes lanes'"
    by (auto split: prod.splits)
  have len: "length lanes' = length lanes" and rest: "\<forall>j. j \<notin> set ?is \<longrightarrow> lanes' ! j = lanes ! j"
    and res: "case r of
       Inr _ \<Rightarrow> \<exists>i \<in> set ?is. stored_on ?attempts lanes lanes' w' i \<and>
         (\<forall>j \<in> set ?is - {i}. lanes' ! j = lanes ! j \<or> given_up ?attempts lanes' j)
     | Inl e \<Rightarrow> ((\<exists>m. e = DistributionError m) \<or> \<not> eckit_exception e) \<and>
         (\<forall>j \<in> set ?is. lanes' ! j = lanes ! j \<or> given_up ?attempts lanes' j \<or> failed_on ?attempts e lanes' j)"
    using dist_archive_loop [OF assms(2,3) run] by blast+
  show ?thesis
  proof (cases r)
    case (Inl e)
    with res rest have "(\<exists>m. e = DistributionError m) \<or> \<not> eckit_exception e"
      "\<forall>j < length lanes. lanes' ! j = lanes ! j \<or> given_up ?attempts lanes' j \<or> failed_on ?attempts e lanes' j" by auto
    with fdb' len Inl show ?thesis by (simp add: archived_def Let_def)
  next
    case (Inr u)
    with res obtain i where i: "i \<in> set ?is" "stored_on ?attempts lanes lanes' w' i"
      "\<forall>j \<in> set ?is - {i}. lanes' ! j = lanes ! j \<or> given_up ?attempts lanes' j" by auto
    moreover have "i < length lanes" using i(1) assms(3) by auto
    moreover have "lanes' ! j = lanes ! j \<or> given_up ?attempts lanes' j" if "j \<noteq> i" for j
      using i(3) rest that by (cases "j \<in> set ?is") auto
    ultimately show ?thesis using fdb' len Inr unfolding Let_def
      by (intro exI [of _ "archived data r f"] exI [of _ lanes']) (auto simp: archived_def)
  qed
qed


section \<open>What a flush of a distribution tells\<close>

lemma flush_failure_dirty: "fdb_flush L fdb w = (Inl e, fdb', w') \<Longrightarrow> fdb_dirty fdb'"
  by (cases fdb) (auto simp: fdb_dirty_def flushed_def split: if_splits prod.splits)

lemma flush_lanes_each:
  "flush_lanes attempts w = (r, fs, w') \<Longrightarrow> length fs = length attempts \<and>
   (\<forall>i < length attempts. \<exists>w0 ri w1. (attempts ! i) w0 = (ri, fs ! i, w1))"
proof (induction attempts arbitrary: w r fs w')
  case (Cons a as)
  obtain r1 f1 w1 where 1: "a w = (r1, f1, w1)" by (metis prod.exhaust)
  obtain r2 fs2 w2 where 2: "flush_lanes as w1 = (r2, fs2, w2)" by (metis prod.exhaust)
  from Cons.prems 1 2 have fs: "fs = f1 # fs2" by (auto split: sum.splits)
  from Cons.IH [OF 2] 1 show ?case by (auto simp: fs nth_Cons split: nat.splits)
qed simp

lemma flush_lanes_quiet:
  assumes "\<forall>a \<in> set attempts. \<forall>w e f w'. a w = (Inl e, f, w') \<longrightarrow> eckit_exception e"
  shows "fst (flush_lanes attempts w) = Inr ()"
  using assms
proof (induction attempts arbitrary: w)
  case (Cons a as)
  obtain r1 f1 w1 where 1: "a w = (r1, f1, w1)" by (metis prod.exhaust)
  obtain r2 fs2 w2 where 2: "flush_lanes as w1 = (r2, fs2, w2)" by (metis prod.exhaust)
  have "r2 = Inr ()" using Cons.IH [of w1] Cons.prems 2 by simp
  with 1 2 Cons.prems show ?case by (cases r1) auto
qed simp

text \<open>
  C12: a failed flush of a lane goes unnoticed. Whatever exceptions the lanes throw, \<open>flush\<close> of a distribution reports
  success and the distribution counts as clean; the lane whose flush failed is still dirty, and the next
  \<open>flush\<close>, with nothing archived in between, does not reach it.
\<close>
theorem dist_flush_hides_failure:
  assumes "ft_dirty f" and "i < length lanes"
    and "\<forall>w. \<exists>e lane w'. fdb_flush L (lanes ! i) w = (Inl e, lane, w')"
    and "\<forall>lane \<in> set lanes. \<forall>w e lane' w'. fdb_flush L lane w = (Inl e, lane', w') \<longrightarrow> eckit_exception e"
  shows "\<exists>f' lanes' w'. fdb_flush L (DistFDB f nodes lanes) w = (Inr (), DistFDB f' nodes lanes', w') \<and>
    \<not> ft_dirty f' \<and> i < length lanes' \<and> fdb_dirty (lanes' ! i) \<and>
    (\<forall>w2. fdb_flush L (DistFDB f' nodes lanes') w2 = (Inr (), DistFDB f' nodes lanes', w2))"
proof -
  let ?attempts = "map (\<lambda>lane. fdb_flush L lane) lanes"
  obtain r lanes' w' where run: "flush_lanes ?attempts w = (r, lanes', w')" by (metis prod.exhaust)
  have "\<forall>a \<in> set ?attempts. \<forall>w e f w'. a w = (Inl e, f, w') \<longrightarrow> eckit_exception e" using assms(4) by simp
  from flush_lanes_quiet [OF this, of w] run have r: "r = Inr ()" by simp
  from flush_lanes_each [OF run] assms(2) have len: "length lanes' = length lanes" by simp
  from flush_lanes_each [OF run] assms(2) obtain w0 ri w1 where "fdb_flush L (lanes ! i) w0 = (ri, lanes' ! i, w1)" by auto
  with assms(3) obtain e where "fdb_flush L (lanes ! i) w0 = (Inl e, lanes' ! i, w1)" by (metis prod.inject)
  then have "fdb_dirty (lanes' ! i)" by (rule flush_failure_dirty)
  with assms(1,2) run r len show ?thesis by (auto simp: flushed_def)
qed

section \<open>Construction ends\<close>

definition ends :: "'a res option \<Rightarrow> bool" where
  "ends m \<longleftrightarrow> m \<noteq> None"

lemma foldO_ends: "(\<And>x s. x \<in> set xs \<Longrightarrow> ends (f x s)) \<Longrightarrow> ends (foldO f xs s)"
proof (induction xs arbitrary: s)
  case (Cons x xs)
  from Cons.prems [of x s] obtain r where "f x s = Some r" by (auto simp: ends_def)
  with Cons show ?case by (cases r) (auto simp: ends_def)
qed (simp add: ends_def)

lemma Some_ends: "ends (Some r)"
  by (simp add: ends_def)

lemma bindO_ends: "ends m \<Longrightarrow> (\<And>x. m = Some (Inr x) \<Longrightarrow> ends (f x)) \<Longrightarrow> ends (bindO m f)"
  by (cases "(m, f)" rule: bindO.cases) (auto simp: ends_def)

lemma case_ends:
  "(b \<Longrightarrow> ends x) \<Longrightarrow> (\<not> b \<Longrightarrow> ends y) \<Longrightarrow> ends (if b then x else y)"
  "ends y \<Longrightarrow> (\<And>z. m = Some z \<Longrightarrow> ends (g z)) \<Longrightarrow> ends (case m of None \<Rightarrow> y | Some z \<Rightarrow> g z)"
  "(\<And>a b. p = (a, b) \<Longrightarrow> ends (h a b)) \<Longrightarrow> ends (case p of (a, b) \<Rightarrow> h a b)"
  by (auto split: option.splits prod.splits)

lemmas ends_intros = Some_ends bindO_ends foldO_ends case_ends

text \<open>The parts of a configuration down to some depth all name their type.\<close>

fun typed_tree :: "'c config_ops \<Rightarrow> nat \<Rightarrow> 'c \<Rightarrow> bool" where
  "typed_tree ops 0 c = False"
| "typed_tree ops (Suc n) c \<longleftrightarrow>
     co_has ops c ''type'' \<and> list_all (typed_tree ops n) (co_subs ops c ''fdbs'' @ co_subs ops c ''lanes'')"

lemma build_step:
  assumes "\<And>c c'. expandConfig (cl_config L) given = Inr c \<Longrightarrow>
      cg_local c' \<in> set (co_subs (ce_ops (cl_config L)) (cg_local c) ''fdbs'' @ co_subs (ce_ops (cl_config L)) (cg_local c) ''lanes'') \<Longrightarrow>
      ends (fdb_build L n c')"
  shows "ends (fdb_build L (Suc n) given)"
proof (cases "expandConfig (cl_config L) given")
  case (Inr c)
  have sub: "cg_local c' \<in> set (co_subs (ce_ops (cl_config L)) (cg_local c) name)"
    if "getSubConfigs (cl_config L) c name = Inr cs" "c' \<in> set cs" for c' cs name
    using getSubConfigs_parts [OF that(1)] that(2) by (metis image_eqI list.set_map)
  have chosen: "cg_local c' = y" if "new_config (cl_config L) y u = Inr c'" for c' y u
    using that by (auto simp: new_config_def bindE_eq_Inr)
  show ?thesis
    unfolding fdb_build.simps(2) Let_def Inr bindO.simps(3)
    by (intro ends_intros assms [OF Inr]) (auto dest: sub simp: chosen)
qed (simp add: fdb_build.simps(2) Let_def ends_def)

lemma typed_tree_builds:
  fixes L :: "('l, 'c, 'w, 'u) client_env"
  shows "typed_tree (ce_ops (cl_config L)) n (cg_local given) \<Longrightarrow> ends (fdb_build L n given)"
proof (induction n arbitrary: given)
  case (Suc n)
  show ?case
  proof (rule build_step)
    fix c c' :: "'c config"
    assume c: "expandConfig (cl_config L) given = Inr c"
      and c': "cg_local c' \<in> set (co_subs (ce_ops (cl_config L)) (cg_local c) ''fdbs'' @ co_subs (ce_ops (cl_config L)) (cg_local c) ''lanes'')"
    have "c = given" using c Suc.prems expandConfig_typed [of "cl_config L" given] by simp
    with c' Suc.prems show "ends (fdb_build L n c')" by (intro Suc.IH) (auto simp: list_all_iff)
  qed
qed simp

text \<open>
  C13: building an FDB ends when the parts of its configuration name their types: for parts nested to depth \<open>n\<close>, the
  factories return, with an FDB or an exception, in at most \<open>n + 1\<close> nested calls, whatever file or
  environment variable the outermost configuration is expanded from.
\<close>
theorem build_ends:
  assumes "\<And>c. expandConfig (cl_config L) given = Inr c \<Longrightarrow>
    list_all (typed_tree (ce_ops (cl_config L)) n)
      (co_subs (ce_ops (cl_config L)) (cg_local c) ''fdbs'' @ co_subs (ce_ops (cl_config L)) (cg_local c) ''lanes'')"
  shows "\<exists>r. fdb_build L (Suc n) given = Some r"
  using build_step [of L given n] assms typed_tree_builds unfolding list_all_iff ends_def by blast

text \<open>
  C14: a part without a type is expanded like a configuration of its own, from the same place again: when the
  environment variable holds a choice whose first part names no type, building never ends.
\<close>
theorem untyped_part_never_ends:
  fixes L :: "('l, 'c, 'w, 'u) client_env"
  defines "E \<equiv> cl_config L"
  defines "here \<equiv> \<lambda>y. co_set (ce_ops E) ''configSource'' ''environment'' y"
  assumes "ce_environment E = Some yaml" and "ce_yamlText E yaml = Inr y" and "new_config E y (co_empty (ce_ops E)) = Inr cfg"
    and "co_string (ce_ops E) (here y) ''type'' = Some ''select''" and "co_has (ce_ops E) (here y) ''fdbs''"
    and "getSubConfigs E (cfg\<lparr>cg_local := here y\<rparr>) ''fdbs'' = Inr (part # parts)"
    and "\<not> cg_has E part ''type''" and "parseFDBSelect (cl_ext L) E part = Inr m" and "\<not> cg_has E given ''type''"
  shows "fdb_build L n given = None"
  using assms(11)
proof (induction n arbitrary: given)
  case (Suc n)
  have local: "cg_local cfg = y" using assms(5) by (auto simp: new_config_def bindE_eq_Inr)
  have "expandConfig E given = Inr (cfg\<lparr>cg_local := here y\<rparr>)"
    using assms(3-5) Suc.prems local by (simp add: expandConfig_def here_def)
  moreover have "fdb_build L n part = None" by (rule Suc.IH [OF assms(9)])
  ultimately show ?case
    using assms(6-8,10) by (simp add: fdb_build.simps(2) Let_def E_def [symmetric])
qed simp

section \<open>Examples\<close>

text \<open>A small tree of settings, and leaves that keep a list of what is archived and may be broken.\<close>

datatype settings = Settings "(string \<times> string) list" "(string \<times> settings list) list"

fun texts_of :: "settings \<Rightarrow> (string \<times> string) list" where
  "texts_of (Settings ts ps) = ts"

fun parts_of :: "settings \<Rightarrow> (string \<times> settings list) list" where
  "parts_of (Settings ts ps) = ps"

definition settings_ops :: "settings config_ops" where
  "settings_ops =
     \<lparr>co_has = (\<lambda>c n. map_of (texts_of c) n \<noteq> None \<or> map_of (parts_of c) n \<noteq> None), co_string = (\<lambda>c. map_of (texts_of c)),
      co_bool = (\<lambda>c n. None), co_subs = (\<lambda>c n. case map_of (parts_of c) n of None \<Rightarrow> [] | Some ps \<Rightarrow> ps),
      co_children = (\<lambda>c. concat (map snd (parts_of c))), co_set = (\<lambda>k v c. Settings ((k, v) # texts_of c) (parts_of c)),
      co_empty = Settings [] [], co_text = (\<lambda>c. concat (map (\<lambda>(k, v). k @ v) (texts_of c)))\<rparr>"

definition local_part :: settings where
  "local_part = Settings [(''type'', ''local''), (''select'', ''class=od'')] []"

definition select_part :: settings where
  "select_part = Settings [(''type'', ''select'')] [(''fdbs'', [local_part, local_part])]"

definition untyped_part :: settings where
  "untyped_part = Settings [(''type'', ''select'')] [(''fdbs'', [Settings [(''select'', ''class=od'')] []])]"

definition settings_env :: "settings \<Rightarrow> settings config_env" where
  "settings_env c =
     \<lparr>ce_ops = settings_ops, ce_environment = Some ''config'', ce_yamlText = (\<lambda>_. Inr c), ce_yamlFile = (\<lambda>_. Inr c),
      ce_configFile = [], ce_schemaFile = ''/schema'', ce_exists = (\<lambda>_. False), ce_displayName = ''fdb'', ce_name = ''fdb'',
      ce_path = (\<lambda>p. p), ce_join = (\<lambda>d n. d @ ''/'' @ n), ce_lower = (\<lambda>c. c)\<rparr>"

type_synonym sample_leaf = "bool \<times> (db_name \<times> bytes) list"

definition sample_leaves :: "(sample_leaf, settings, unit, string) leaf_ops" where
  "sample_leaves =
     \<lparr>lf_build = (\<lambda>name. if name = ''local'' then Some (\<lambda>c. Inr (False, [])) else None),
      lf_archive = (\<lambda>c k data ((broken, kept), w).
        if broken then (Inl (IOError ''disk''), ((broken, kept), w)) else (Inr (), ((broken, (key_dict k, data) # kept), w))),
      lf_flush = (\<lambda>((broken, kept), w). (if broken then Inl (IOError ''disk'') else Inr (), ((broken, kept), w))),
      lf_inspect = (\<lambda>c rq lw. (Inr NoImpl, lw))\<rparr>"

definition sample_client :: "settings \<Rightarrow> (sample_leaf, settings, unit, string) client_env" where
  "sample_client c =
     \<lparr>cl_config = settings_env c, cl_ext = ref_ext, cl_leaf = sample_leaves,
      cl_schema = (\<lambda>p. retS trivial_schema), cl_match = (\<lambda>re v. re = v), cl_hashOrder = (\<lambda>nodes d. [1, 0]), cl_random = (\<lambda>n. 0)\<rparr>"

definition sample_front :: "bool \<Rightarrow> settings front" where
  "sample_front dirty =
     \<lparr>ft_base = \<lparr>fb_name = ''local'', fb_config = \<lparr>cg_local = local_part, cg_user = local_part, cg_schemaPath = ''/schema''\<rparr>,
                 fb_ids = 0, fb_disabled = False\<rparr>,
      ft_dirty = dirty, ft_report = False, ft_stats = new_stats\<rparr>"

definition sample_leaf_fdb :: "bool \<Rightarrow> bool \<Rightarrow> (sample_leaf, settings) fdb" where
  "sample_leaf_fdb broken dirty = LocalFDB (sample_front dirty) (broken, [])"

definition client_key :: key where
  "client_key = key_of_dict [(''class'', ''od''), (''step'', ''12'')] None"

definition typed_key :: key where
  "typed_key = set_registry (schema_registry trivial_schema) client_key"

lemma sample_internal_key: "internal_key (sample_client c) (sample_front d) client_key () = (Inr typed_key, ())"
  by (simp add: internal_key_def schemaPath_def sample_front_def sample_client_def drop_stepunits_def typed_key_def
      set_registry_def client_key_def key_of_dict_def key_find_def bindS_def)

lemma sample_again: "internal_key (sample_client c) (sample_front d) typed_key () = (Inr typed_key, ())"
  by (simp add: internal_key_def schemaPath_def sample_front_def sample_client_def drop_stepunits_def typed_key_def
      set_registry_def client_key_def key_of_dict_def key_find_def bindS_def)

lemma sample_leaf_archive:
  "fdb_archive (sample_client c) (sample_leaf_fdb broken d) typed_key data () =
     (if broken then (Inl (IOError ''disk''), sample_leaf_fdb True d, ())
      else (Inr (), LocalFDB (archived data (Inr ()) (sample_front d)) (False, [(key_dict typed_key, data)]), ()))"
  by (simp add: sample_leaf_fdb_def sample_again) (simp add: sample_client_def sample_leaves_def archived_def)

lemma select_archive_found_witness:
  "\<exists>fdb'. fdb_archive (sample_client select_part)
      (SelectFDB (sample_front False) [([(''class'', ''rd'')], sample_leaf_fdb False False), ([(''class'', ''od'')], sample_leaf_fdb False False)])
      client_key [1, 2] () = (Inr (), fdb', ()) \<and>
    (\<exists>i f' sub'. i < 2 \<and> fdb' = SelectFDB f'
      ([([(''class'', ''rd'')], sample_leaf_fdb False False), ([(''class'', ''od'')], sample_leaf_fdb False False)]
        [i := (fst ([([(''class'', ''rd'')], sample_leaf_fdb False False), ([(''class'', ''od'')], sample_leaf_fdb False False)] ! i), sub')]))"
proof -
  let ?L = "sample_client select_part"
  let ?subs = "[([(''class'', ''rd'')], sample_leaf_fdb False False), ([(''class'', ''od'')], sample_leaf_fdb False False)]"
  have match: "cl_match ?L = (\<lambda>re v. re = v)" by (simp add: sample_client_def)
  have cls: "key_find typed_key ''class'' = Some ''od''"
    by (simp add: typed_key_def client_key_def set_registry_def key_find_def key_of_dict_def)
  obtain fdb' where run: "fdb_archive ?L (SelectFDB (sample_front False) ?subs) client_key [1, 2] () = (Inr (), fdb', ())"
    by (simp add: sample_internal_key select_matches_key_def match cls sample_leaf_archive)
  have asks: "asks_for (sample_request [(''class'', [''od'']), (''step'', [''0'', ''12''])]) typed_key"
    by (auto simp: asks_for_def typed_key_def client_key_def set_registry_def key_of_dict_def key_find_def sample_request_def
        split: if_splits)
  from select_archive_found [OF sample_internal_key run asks] obtain i f' sub' where
    "i < length ?subs" "fdb' = SelectFDB f' (?subs[i := (fst (?subs ! i), sub')])" by blast
  moreover have "length ?subs = 2" by simp
  ultimately show ?thesis using run by metis
qed

lemma dist_archive_lanes_witness:
  "\<exists>f' lanes'. fdb_archive (sample_client select_part)
      (DistFDB (sample_front False) [] [sample_leaf_fdb False False, sample_leaf_fdb True False]) client_key [1, 2] () =
        (Inr (), DistFDB f' [] lanes', ()) \<and> length lanes' = 2 \<and> ft_dirty f'"
proof -
  let ?L = "sample_client select_part" and ?lanes = "[sample_leaf_fdb False False, sample_leaf_fdb True False]"
  have order: "cl_hashOrder ?L nodes d = [1, 0]" for nodes d by (simp add: sample_client_def)
  have en: "fdb_enabled (sample_leaf_fdb b d) IdArchive" "\<not> fdb_disabled (sample_leaf_fdb b d)" for b d
    by (simp_all add: fdb_enabled_def fdb_disabled_def sample_leaf_fdb_def sample_front_def ids_enabled_def)
  have clean: "\<not> fdb_dirty (sample_leaf_fdb b False)" for b
    by (simp add: fdb_dirty_def sample_leaf_fdb_def sample_front_def)
  obtain fdb' where run: "fdb_archive ?L (DistFDB (sample_front False) [] ?lanes) client_key [1, 2] () = (Inr (), fdb', ())"
    by (simp add: sample_internal_key order en sample_leaf_archive clean)
  from dist_archive_lanes [OF sample_internal_key _ _ run] order run show ?thesis
    by (fastforce simp: Let_def)
qed

lemma dist_flush_hides_failure_witness:
  "\<exists>f' lanes'. fdb_flush (sample_client select_part)
      (DistFDB (sample_front True) [] [sample_leaf_fdb False True, sample_leaf_fdb True True]) () =
        (Inr (), DistFDB f' [] lanes', ()) \<and> \<not> ft_dirty f' \<and> fdb_dirty (lanes' ! 1)"
proof -
  let ?L = "sample_client select_part" and ?lanes = "[sample_leaf_fdb False True, sample_leaf_fdb True True]"
  have fl: "fdb_flush ?L (sample_leaf_fdb b True) w = (if b then Inl (IOError ''disk'') else Inr (),
      LocalFDB (flushed (if b then Inl (IOError ''disk'') else Inr ()) (sample_front True)) (b, []), w)" for b w
    by (simp add: sample_leaf_fdb_def sample_client_def sample_leaves_def) (simp add: sample_front_def)
  have dirty: "ft_dirty (sample_front True)" by (simp add: sample_front_def)
  have "\<forall>w. \<exists>e lane w'. fdb_flush ?L (?lanes ! 1) w = (Inl e, lane, w')" by (simp add: fl)
  moreover have "\<forall>lane \<in> set ?lanes. \<forall>w e lane' w'. fdb_flush ?L lane w = (Inl e, lane', w') \<longrightarrow> eckit_exception e"
    by (simp add: fl)
  ultimately show ?thesis
    using dist_flush_hides_failure [OF dirty, where i = 1 and lanes = ?lanes and L = ?L and w = "()" and nodes = "[]"] by auto
qed

definition skeleton :: "settings \<Rightarrow> settings config" where
  "skeleton c = default_config (settings_env c)"

lemma settings_home: "home_setting (\<lambda>c. c) ''/schema'' = None"
  by (simp add: home_setting_def)

lemma settings_new: "co_has settings_ops y ''schema'' = False \<Longrightarrow>
    new_config (settings_env c) y u = Inr \<lparr>cg_local = y, cg_user = u, cg_schemaPath = ''/schema''\<rparr>"
  by (simp add: new_config_def initializeSchemaPath_def settings_env_def config_expandPath_def settings_home)

lemma build_ends_witness:
  "\<exists>r. fdb_build (sample_client select_part) 2 (skeleton select_part) = Some r"
proof -
  have schema: "co_has settings_ops select_part ''schema'' = False" by (simp add: select_part_def settings_ops_def)
  have subs: "co_subs settings_ops (co_set settings_ops ''configSource'' ''environment'' select_part) n =
      (if n = ''fdbs'' then [local_part, local_part] else [])" for n
    by (simp add: settings_ops_def select_part_def)
  have sk: "cg_has (settings_env select_part) (skeleton select_part) ''type'' = False"
    by (simp add: skeleton_def default_config_def settings_env_def settings_ops_def)
  have typed: "typed_tree settings_ops 1 local_part"
    by (simp add: local_part_def settings_ops_def)
  have "expandConfig (settings_env select_part) (skeleton select_part) = Inr c \<Longrightarrow>
      cg_local c = co_set settings_ops ''configSource'' ''environment'' select_part" for c
    using settings_new [OF schema] sk
    by (simp add: expandConfig_def settings_env_def) auto
  then have "\<exists>r. fdb_build (sample_client select_part) (Suc 1) (skeleton select_part) = Some r"
    using typed by (intro build_ends) (auto simp: sample_client_def settings_env_def subs)
  then show ?thesis by (simp add: numeral_2_eq_2)
qed

lemma untyped_part_never_ends_witness:
  "\<forall>n. fdb_build (sample_client untyped_part) n (skeleton untyped_part) = None"
proof
  fix n
  let ?L = "sample_client untyped_part" and ?sub = "Settings [(''select'', ''class=od'')] []"
  let ?here = "Settings [(''configSource'', ''environment''), (''type'', ''select'')] [(''fdbs'', [?sub])]"
  have E: "cl_config ?L = settings_env untyped_part" "cl_ext ?L = ref_ext" by (simp_all add: sample_client_def)
  have ops: "ce_ops (settings_env c) = settings_ops" for c by (simp add: settings_env_def)
  have here: "co_set settings_ops ''configSource'' ''environment'' untyped_part = ?here"
    by (simp add: settings_ops_def untyped_part_def)
  have schema: "co_has settings_ops untyped_part ''schema'' = False" "co_has settings_ops ?sub ''schema'' = False"
    by (simp_all add: untyped_part_def settings_ops_def)
  have subs: "co_subs settings_ops ?here ''fdbs'' = [?sub]" by (simp add: settings_ops_def)
  have sel: "parseFDBSelect ref_ext (settings_env untyped_part)
      \<lparr>cg_local = ?sub, cg_user = u, cg_schemaPath = p\<rparr> = Inr [(''class'', ''od'')]" for u p
    by (simp add: parseFDBSelect_def settings_env_def settings_ops_def ref_ext_def select_entry_def)
  have sub: "getSubConfigs (settings_env untyped_part)
      (\<lparr>cg_local = untyped_part, cg_user = Settings [] [], cg_schemaPath = ''/schema''\<rparr>\<lparr>cg_local := ?here\<rparr>) ''fdbs'' =
      Inr [\<lparr>cg_local = ?sub, cg_user = Settings [] [], cg_schemaPath = ''/schema''\<rparr>]"
    by (simp add: getSubConfigs_def ops subs settings_new [OF schema(2)])
  have empty: "co_empty settings_ops = Settings [] []" by (simp add: settings_ops_def)
  show "fdb_build ?L n (skeleton untyped_part) = None"
    by (rule untyped_part_never_ends [where L = ?L and yaml = "''config''" and y = untyped_part
          and cfg = "\<lparr>cg_local = untyped_part, cg_user = Settings [] [], cg_schemaPath = ''/schema''\<rparr>"
          and part = "\<lparr>cg_local = ?sub, cg_user = Settings [] [], cg_schemaPath = ''/schema''\<rparr>" and parts = "[]"
          and m = "[(''class'', ''od'')]"])
      (use settings_new [OF schema(1)] sub sel in
        \<open>simp_all add: E ops here empty, simp_all add: settings_env_def settings_ops_def skeleton_def default_config_def\<close>)
qed

end
