(* ===== verification/FDB_Retrieve.thy ===== *)
theory FDB_Retrieve
  imports FDB_Client
begin

text \<open>
  Retrieving: the visitor that follows the expansion of a request through the databases
  (\<open>src/fdb5/database/MultiRetrieveVisitor.cc\<close>) and the inspector that keeps them open (\<open>Inspector.cc\<close>), over
  whatever database open for reading; the database over the table of contents is one.
\<close>

section \<open>Databases open for reading\<close>

text \<open>The methods of a \<open>DB\<close> that the visitor calls; the values of an axis are those of the matching indexes, sorted.\<close>

record ('r, 'g, 'u) read_db_ops =
  rd_build :: "key \<Rightarrow> 'g \<Rightarrow> ('r \<times> 'g) res"
  rd_enabled :: "'r \<times> 'g \<Rightarrow> bool res"
  rd_open :: "'r \<times> 'g \<Rightarrow> (bool \<times> 'r \<times> 'g) res"
  rd_selectIndex :: "key \<Rightarrow> 'r \<Rightarrow> bool \<times> 'r"
  rd_inspect :: "key \<Rightarrow> 'r \<times> 'g \<Rightarrow> ('u field option \<times> 'r \<times> 'g) res"
  rd_axis :: "string \<Rightarrow> 'r \<times> 'g \<Rightarrow> bool \<times> string list"
  rd_key :: "'r \<Rightarrow> key"
  rd_indexKey :: "'r \<Rightarrow> key"
  rd_schema :: "'r \<Rightarrow> schema res"

text \<open>
  \<open>eckit::CacheLRU\<close> of pointers: looking a key up, \<open>access\<close>, which makes it the last used, \<open>insert\<close> with the pointers
  whose entries go for it, and the empty cache.
\<close>

record 'c lru_ops =
  lr_empty :: 'c
  lr_find :: "db_name \<Rightarrow> 'c \<Rightarrow> nat option"
  lr_access :: "db_name \<Rightarrow> 'c \<Rightarrow> 'c"
  lr_insert :: "db_name \<Rightarrow> nat \<Rightarrow> 'c \<Rightarrow> 'c \<times> nat list"

text \<open>
  What the cache documents: what was inserted last is there, another entry stays as it is until it goes, and the pointers
  of the entries that go, and no others, are purged.
\<close>

definition lru_laws :: "'c lru_ops \<Rightarrow> bool" where
  "lru_laws L \<longleftrightarrow>
     (\<forall>k. lr_find L k (lr_empty L) = None) \<and>
     (\<forall>k k' c. lr_find L k' (lr_access L k c) = lr_find L k' c) \<and>
     (\<forall>k a c c' dead. lr_find L k c = None \<longrightarrow> lr_insert L k a c = (c', dead) \<longrightarrow>
        lr_find L k c' = Some a \<and>
        (\<forall>k' b. k' \<noteq> k \<longrightarrow> lr_find L k' c' = Some b \<longrightarrow> lr_find L k' c = Some b) \<and>
        (\<forall>b. b \<in> set dead \<longleftrightarrow> (\<exists>k'. k' \<noteq> k \<and> lr_find L k' c = Some b \<and> lr_find L k' c' = None)))"

section \<open>The visitor\<close>

text \<open>
  The databases of the inspector are objects behind pointers that the cache owns; the visitor holds the pointer \<open>db_\<close>
  and the elements of the \<open>InspectIterator\<close>.
\<close>

record ('r, 'c) inspector =
  in_heap :: "(nat, 'r) dict"
  in_fresh :: nat
  in_cache :: 'c

record ('r, 'c, 'g, 'u) retrieve_state =
  mr_inspector :: "('r, 'c) inspector"
  mr_db :: "nat option"
  mr_out :: "'u list_element list"
  mr_world :: 'g

text \<open>Following a pointer; one that was deleted is a dangling one.\<close>

definition deref :: "nat \<Rightarrow> ('r, 'c) inspector \<Rightarrow> 'r res" where
  "deref a i = (case map_of (in_heap i) a of None \<Rightarrow> Inl (UndefinedBehaviour ''db_ is dangling'') | Some r \<Rightarrow> Inr r)"

definition current_db :: "('r, 'c, 'g, 'u) retrieve_state \<Rightarrow> (nat \<times> 'r) res" where
  "current_db s =
     (case mr_db s of
        None \<Rightarrow> Inl (AssertFailed ''db_'')
      | Some a \<Rightarrow> bindE (deref a (mr_inspector s)) (\<lambda>r. Inr (a, r)))"

definition put_db :: "nat \<Rightarrow> 'r \<Rightarrow> ('r, 'c, 'g, 'u) retrieve_state \<Rightarrow> ('r, 'c, 'g, 'u) retrieve_state" where
  "put_db a r s = s\<lparr>mr_inspector := (mr_inspector s)\<lparr>in_heap := dict_put a r (in_heap (mr_inspector s))\<rparr>\<rparr>"

text \<open>\<open>purgeDB\<close> deletes the databases whose entries go.\<close>

definition insert_db :: "'c lru_ops \<Rightarrow> key \<Rightarrow> 'r \<Rightarrow> ('r, 'c) inspector \<Rightarrow> nat \<times> ('r, 'c) inspector" where
  "insert_db L key r i =
     (case lr_insert L (key_dict key) (in_fresh i) (in_cache i) of
        (cache, dead) \<Rightarrow>
          (in_fresh i,
           \<lparr>in_heap = fold dict_erase dead (dict_put (in_fresh i) r (in_heap i)), in_fresh = Suc (in_fresh i), in_cache = cache\<rparr>))"

definition open_reader ::
    "('r, 'g, 'u) read_db_ops \<Rightarrow> 'c lru_ops \<Rightarrow> key \<Rightarrow> ('r, 'c, 'g, 'u) retrieve_state \<Rightarrow>
     (bool \<times> ('r, 'c, 'g, 'u) retrieve_state) res" where
  "open_reader R L key s =
     bindE (rd_build R key (mr_world s)) (\<lambda>(r, g).
     bindE (rd_enabled R (r, g)) (\<lambda>enabled.
       if \<not> enabled then Inr (False, s\<lparr>mr_world := g\<rparr>)
       else bindE (rd_open R (r, g)) (\<lambda>(found, r, g).
              if \<not> found then Inr (False, s\<lparr>mr_world := g\<rparr>)
              else (case insert_db L key r (mr_inspector s) of
                      (a, i) \<Rightarrow> Inr (True, s\<lparr>mr_inspector := i, mr_db := Some a, mr_world := g\<rparr>)))))"

definition multi_selectDatabase ::
    "('r, 'g, 'u) read_db_ops \<Rightarrow> 'c lru_ops \<Rightarrow> key \<Rightarrow> ('r, 'c, 'g, 'u) retrieve_state \<Rightarrow>
     (bool \<times> ('r, 'c, 'g, 'u) retrieve_state) res" where
  "multi_selectDatabase R L key s =
     bindE (case mr_db s of None \<Rightarrow> Inr False | Some a \<Rightarrow> bindE (deref a (mr_inspector s)) (\<lambda>r. Inr (key_eq key (rd_key R r))))
       (\<lambda>same.
     if same then Inr (True, s)
     else let i = mr_inspector s in
       (case lr_find L (key_dict key) (in_cache i) of
          Some a \<Rightarrow> Inr (True, s\<lparr>mr_inspector := i\<lparr>in_cache := lr_access L (key_dict key) (in_cache i)\<rparr>, mr_db := Some a\<rparr>)
        | None \<Rightarrow> open_reader R L key s))"

definition multi_selectIndex ::
    "('r, 'g, 'u) read_db_ops \<Rightarrow> key \<Rightarrow> ('r, 'c, 'g, 'u) retrieve_state \<Rightarrow> (bool \<times> ('r, 'c, 'g, 'u) retrieve_state) res" where
  "multi_selectIndex R key s =
     bindE (current_db s) (\<lambda>(a, r). case rd_selectIndex R key r of (found, r) \<Rightarrow> Inr (found, put_db a r s))"

text \<open>The key of the datum in the listing leaves out the keywords without a value.\<close>

definition simplified_key :: "key \<Rightarrow> key" where
  "simplified_key k = fold (\<lambda>(n, v). if v = [] then id else set_key n v) (key_dict k) (new_key None)"

definition found_element :: "('r, 'g, 'u) read_db_ops \<Rightarrow> 'r \<Rightarrow> key \<Rightarrow> 'u field \<Rightarrow> 'u list_element" where
  "found_element R r key field =
     \<lparr>le_keyParts = [rd_key R r, rd_indexKey R r, simplified_key key], le_location = Some (fd_location field),
      le_timestamp = fd_timestamp field\<rparr>"

definition multi_selectDatum ::
    "('r, 'g, 'u) read_db_ops \<Rightarrow> key \<Rightarrow> ('r, 'c, 'g, 'u) retrieve_state \<Rightarrow> (bool \<times> ('r, 'c, 'g, 'u) retrieve_state) res" where
  "multi_selectDatum R key s =
     bindE (current_db s) (\<lambda>(a, r).
     bindE (rd_inspect R key (r, mr_world s)) (\<lambda>(field, r, g).
       let s = (put_db a r s)\<lparr>mr_world := g\<rparr>
       in case field of
            None \<Rightarrow> Inr (False, s)
          | Some f \<Rightarrow> Inr (True, s\<lparr>mr_out := mr_out s @ [found_element R r key f]\<rparr>)))"

text \<open>\<open>values\<close>: what the type makes of the request, less the values that the axis of the database does not have.\<close>

definition axis_filter :: "ext \<Rightarrow> ftype \<Rightarrow> string \<Rightarrow> (bool \<times> string list) option \<Rightarrow> string list \<Rightarrow> string list res" where
  "axis_filter e t keyword axis vs =
     bindE (mapE (\<lambda>l. bindE (toKey e t keyword l) (\<lambda>v. Inr (l, v))) vs) (\<lambda>lvs.
       Inr (map fst (filter (\<lambda>(l, v). case axis of None \<Rightarrow> True | Some (found, ax) \<Rightarrow> \<not> found \<or> v \<in> set ax) lvs)))"

definition multi_values ::
    "ext \<Rightarrow> ('r, 'g, 'u) read_db_ops \<Rightarrow> mars_request \<Rightarrow> string \<Rightarrow> registry \<Rightarrow> ('r, 'c, 'g, 'u) retrieve_state \<Rightarrow>
     (string list \<times> ('r, 'c, 'g, 'u) retrieve_state) res" where
  "multi_values e R rq keyword reg s =
     bindE (lookupType reg keyword) (\<lambda>t.
     bindE (case mr_db s of None \<Rightarrow> Inr None | Some a \<Rightarrow> bindE (deref a (mr_inspector s)) (\<lambda>r. Inr (Some r))) (\<lambda>db.
     let axis = map_option (\<lambda>r k. rd_axis R k (r, mr_world s)) db in
     bindE (getValues e t rq keyword (map_option (\<lambda>ax k. snd (ax k)) axis)) (\<lambda>(vs, wind).
     bindE (axis_filter e t keyword (map_option (\<lambda>ax. ax keyword) axis) vs) (\<lambda>vs. Inr (vs, s)))))"

definition multi_visitor ::
    "ext \<Rightarrow> ('r, 'g, 'u) read_db_ops \<Rightarrow> 'c lru_ops \<Rightarrow> ('r, 'c, 'g, 'u) retrieve_state read_ops" where
  "multi_visitor e R L =
     \<lparr>ro_selectDatabase = (\<lambda>key full. multi_selectDatabase R L key),
      ro_selectIndex = (\<lambda>key full. multi_selectIndex R key),
      ro_selectDatum = (\<lambda>key full. multi_selectDatum R key),
      ro_databaseSchema = (\<lambda>s. bindE (current_db s) (\<lambda>(a, r). rd_schema R r)),
      ro_values = multi_values e R\<rparr>"

section \<open>The inspector\<close>

definition new_inspector :: "'c lru_ops \<Rightarrow> ('r, 'c) inspector" where
  "new_inspector L = \<lparr>in_heap = [], in_fresh = 0, in_cache = lr_empty L\<rparr>"

text \<open>\<open>inspect\<close>: a visitor of its own for every request, whose elements are the result.\<close>

definition inspector_inspect ::
    "ext \<Rightarrow> ('r, 'g, 'u) read_db_ops \<Rightarrow> 'c lru_ops \<Rightarrow> schema \<Rightarrow> mars_request \<Rightarrow> ('r, 'c) inspector \<times> 'g \<Rightarrow>
     ('u list_element iter \<times> ('r, 'c) inspector \<times> 'g) res" where
  "inspector_inspect e R L sch rq = (\<lambda>(i, g).
     bindE (schema_expand_read (multi_visitor e R L) sch rq
              \<lparr>mr_inspector = i, mr_db = None, mr_out = [], mr_world = g\<rparr>) (\<lambda>s.
       Inr (Async (mr_out s) None, mr_inspector s, mr_world s)))"

section \<open>What an expansion keeps\<close>

text \<open>The values that may stand under a keyword.\<close>

definition within :: "(string \<Rightarrow> string \<Rightarrow> bool) \<Rightarrow> key \<Rightarrow> bool" where
  "within A k \<longleftrightarrow> (\<forall>n v. map_of (key_dict k) n = Some v \<longrightarrow> A n v)"

definition expansion_within :: "(string \<Rightarrow> string \<Rightarrow> bool) \<Rightarrow> 'v expansion \<Rightarrow> bool" where
  "expansion_within A st \<longleftrightarrow> within A (ex_full st) \<and> (\<forall>k \<in> set (ex_keys st). within A k)"

lemma within_push: "within A k \<Longrightarrow> A n v \<Longrightarrow> within A (push_key n v k)"
  by (simp add: within_def push_key_def)

lemma within_pop: "within A k \<Longrightarrow> pop_key n k = Inr k' \<Longrightarrow> within A k'"
  by (auto simp: within_def pop_key_def Let_def split: if_splits)

lemma within_registry [simp]: "within A (set_registry r k) = within A k"
  by (simp add: within_def set_registry_def)

lemma within_new [simp]: "within A (new_key r)"
  by (simp add: within_def new_key_def)

definition held :: "('s \<Rightarrow> bool) \<Rightarrow> (string \<Rightarrow> string \<Rightarrow> bool) \<Rightarrow> 's expansion \<Rightarrow> bool" where
  "held P A st \<longleftrightarrow> P (ex_visitor st) \<and> expansion_within A st \<and> length (ex_keys st) = 3"

lemma update_within:
  "\<forall>k \<in> set ks. within A k \<Longrightarrow> (d < length ks \<Longrightarrow> within A (f (ks ! d))) \<Longrightarrow> \<forall>k \<in> set (ks[d := f (ks ! d)]). within A k"
  by (cases "d < length ks") (auto simp: list_update_beyond dest!: set_update_subset_insert [THEN subsetD])

lemma held_level [simp]: "held P A st \<Longrightarrow> held P A (set_level d (set_registry r) st)"
  using update_within [of "ex_keys st" A d "set_registry r"]
  by (simp add: held_def set_level_def expansion_within_def)

lemma held_push: "held P A st \<Longrightarrow> A n v \<Longrightarrow> held P A (push_level d n v st)"
  using update_within [of "ex_keys st" A d "push_key n v"]
  by (simp add: held_def push_level_def set_level_def expansion_within_def within_push)

lemma held_pop:
  assumes "held P A st" and "d < 3" and "pop_level d n st = Inr st'"
  shows "held P A st'"
proof -
  from assms(3) obtain full k where full: "pop_key n (ex_full st) = Inr full" and k: "pop_key n (ex_keys st ! d) = Inr k"
    and st': "st' = st\<lparr>ex_full := full, ex_keys := (ex_keys st)[d := k]\<rparr>"
    by (auto simp: pop_level_def bindE_eq_Inr)
  have "within A full" "within A k"
    using assms(1,2) within_pop [OF _ full] within_pop [OF _ k] by (simp_all add: held_def expansion_within_def)
  then show ?thesis
    using assms(1) update_within [of "ex_keys st" A d "\<lambda>_. k"]
    by (simp add: held_def expansion_within_def st')
qed

lemma held_visitor: "held P A st \<Longrightarrow> Q v \<Longrightarrow> held Q A (st\<lparr>ex_visitor := v\<rparr>)"
  by (simp add: held_def expansion_within_def)

lemma held_mono: "held P A st \<Longrightarrow> (\<And>s. P s \<Longrightarrow> Q s) \<Longrightarrow> held Q A st"
  by (simp add: held_def)

lemma held_keys: "held P A st \<Longrightarrow> d < 3 \<Longrightarrow> within A (ex_keys st ! d)"
  by (simp add: held_def expansion_within_def)

lemma held_second: "P v \<Longrightarrow> within A k \<Longrightarrow> held P A (start_second sch k v)"
  by (simp add: held_def expansion_within_def start_second_def)

lemma held_start: "P v \<Longrightarrow> held P A (start_expansion sch v)"
  by (simp add: held_def expansion_within_def start_expansion_def)

text \<open>The predicates of a rule and of the rules inside it.\<close>

fun rule_within :: "(predicate \<Rightarrow> bool) \<Rightarrow> rule \<Rightarrow> bool" where
  "rule_within D (Rule line ps rs types) \<longleftrightarrow> (\<forall>p \<in> set ps. D p) \<and> (\<forall>r \<in> set rs. rule_within D r)"

definition schema_within :: "(predicate \<Rightarrow> bool) \<Rightarrow> schema \<Rightarrow> bool" where
  "schema_within D sch \<longleftrightarrow> (\<forall>r \<in> set (sch_rules sch). rule_within D r)"

lemma rule_withinD:
  "rule_within D r \<Longrightarrow> p \<in> set (rule_preds r) \<Longrightarrow> D p"
  "rule_within D r \<Longrightarrow> r' \<in> set (rule_rules r) \<Longrightarrow> rule_within D r'"
  by (cases r; simp)+

lemma database_rule_within: "schema_within D sch \<Longrightarrow> database_rule sch k = Inr r \<Longrightarrow> rule_within D r"
  by (auto simp: schema_within_def database_rule_def split: list.splits dest!: filter_eq_ConsD)

text \<open>
  What the methods of the visitor keep on every level of the expansion: \<open>P 0\<close>, after \<open>selectDatabase\<close> \<open>P 1\<close>, after
  \<open>selectIndex\<close> \<open>P 2\<close>, when the keys that they are called with have values that \<open>values\<close> gave or that are defaults of
  the predicates in \<open>D\<close>.
\<close>

definition visitor_keeps ::
    "'s read_ops \<Rightarrow> mars_request \<Rightarrow> (predicate \<Rightarrow> bool) \<Rightarrow> (string \<Rightarrow> string \<Rightarrow> bool) \<Rightarrow> (nat \<Rightarrow> 's \<Rightarrow> bool) \<Rightarrow> bool" where
  "visitor_keeps ops rq D A P \<longleftrightarrow>
     (\<forall>k full s b s'. P 0 s \<longrightarrow> within A k \<longrightarrow> ro_selectDatabase ops k full s = Inr (b, s') \<longrightarrow> P (if b then 1 else 0) s') \<and>
     (\<forall>k full s b s'. P 1 s \<longrightarrow> within A k \<longrightarrow> ro_selectIndex ops k full s = Inr (b, s') \<longrightarrow> P (if b then 2 else 1) s') \<and>
     (\<forall>k full s b s'. P 2 s \<longrightarrow> within A k \<longrightarrow> ro_selectDatum ops k full s = Inr (b, s') \<longrightarrow> P 2 s') \<and>
     (\<forall>d k reg s vs s'. P d s \<longrightarrow> ro_values ops rq k reg s = Inr (vs, s') \<longrightarrow> P d s' \<and> (\<forall>v \<in> set vs. A k v)) \<and>
     (\<forall>s sch. P 1 s \<longrightarrow> ro_databaseSchema ops s = Inr sch \<longrightarrow> schema_within D sch) \<and>
     (\<forall>d s. P (Suc d) s \<longrightarrow> P d s) \<and>
     (\<forall>p d. D p \<longrightarrow> pred_optional p \<longrightarrow> pred_default p = Inr d \<longrightarrow> A (pred_keyword p) d)"

lemma visitor_keepsD:
  assumes "visitor_keeps ops rq D A P"
  shows "P 0 s \<Longrightarrow> within A k \<Longrightarrow> ro_selectDatabase ops k full s = Inr (b, s') \<Longrightarrow> P (if b then 1 else 0) s'"
    and "P 1 s \<Longrightarrow> within A k \<Longrightarrow> ro_selectIndex ops k full s = Inr (b, s') \<Longrightarrow> P (if b then 2 else 1) s'"
    and "P 2 s \<Longrightarrow> within A k \<Longrightarrow> ro_selectDatum ops k full s = Inr (b, s') \<Longrightarrow> P 2 s'"
    and "P d s \<Longrightarrow> ro_values ops rq n reg s = Inr (vs, s') \<Longrightarrow> P d s' \<and> (\<forall>v \<in> set vs. A n v)"
    and "P 1 s \<Longrightarrow> ro_databaseSchema ops s = Inr sch \<Longrightarrow> schema_within D sch"
    and "P (Suc d) s \<Longrightarrow> P d s"
    and "D p \<Longrightarrow> pred_optional p \<Longrightarrow> pred_default p = Inr v \<Longrightarrow> A (pred_keyword p) v"
proof -
  note all = assms [unfolded visitor_keeps_def]
  note rest = all [THEN conjunct2, THEN conjunct2]
  show "P 0 s \<Longrightarrow> within A k \<Longrightarrow> ro_selectDatabase ops k full s = Inr (b, s') \<Longrightarrow> P (if b then 1 else 0) s'"
    using all [THEN conjunct1, rule_format] .
  show "P 1 s \<Longrightarrow> within A k \<Longrightarrow> ro_selectIndex ops k full s = Inr (b, s') \<Longrightarrow> P (if b then 2 else 1) s'"
    using all [THEN conjunct2, THEN conjunct1, rule_format] .
  show "P 2 s \<Longrightarrow> within A k \<Longrightarrow> ro_selectDatum ops k full s = Inr (b, s') \<Longrightarrow> P 2 s'"
    using rest [THEN conjunct1, rule_format] .
  show "P d s \<Longrightarrow> ro_values ops rq n reg s = Inr (vs, s') \<Longrightarrow> P d s' \<and> (\<forall>v \<in> set vs. A n v)"
    using rest [THEN conjunct2, THEN conjunct1, rule_format, of d s n reg vs s'] by simp
  show "P 1 s \<Longrightarrow> ro_databaseSchema ops s = Inr sch \<Longrightarrow> schema_within D sch"
    using rest [THEN conjunct2, THEN conjunct2, THEN conjunct1, rule_format] .
  show "P (Suc d) s \<Longrightarrow> P d s"
    using rest [THEN conjunct2, THEN conjunct2, THEN conjunct2, THEN conjunct1, rule_format] .
  show "D p \<Longrightarrow> pred_optional p \<Longrightarrow> pred_default p = Inr v \<Longrightarrow> A (pred_keyword p) v"
    using rest [THEN conjunct2, THEN conjunct2, THEN conjunct2, THEN conjunct2, rule_format] .
qed

lemma expand_read_preserves:
  "expand_read ops sch rq path ps depth st = Inr st' \<Longrightarrow> visitor_keeps ops rq D A P \<Longrightarrow> \<forall>p \<in> set ps. D p \<Longrightarrow>
   \<forall>r \<in> set (rule_rules (hd path)). rule_within D r \<Longrightarrow> held (P depth) A st \<Longrightarrow> held (P depth) A st'"
proof (induction ops sch rq path ps depth st arbitrary: st' rule: expand_read.induct)
  case (1 ops sch rq path depth st)
  let ?st = "set_level depth (set_registry (rule_registry sch path)) st"
  note run = "1.prems"(1) [unfolded expand_read.simps(1) Let_def] and keeps = visitor_keepsD [OF "1.prems"(2)]
  have held: "held (P depth) A ?st" using "1.prems"(5) by simp
  then have P: "P depth (ex_visitor ?st)" by (simp add: held_def)
  from run have d3: "depth < 3" unfolding bindE_eq_Inr by (auto simp: assertE_eq_Inr)
  have d3': "assertE (depth < 3) ''depth < 3'' = Inr ()" using d3 by simp
  note run = run [unfolded d3 [THEN eqTrueI] assertE_True bindE.simps]
  note key = held_keys [OF held]
  show ?case
  proof (cases "rule_rules (hd path) = []")
    case True
    with run obtain b s where d: "depth = 2" and "ro_selectDatum ops (ex_keys ?st ! 2) (ex_full ?st) (ex_visitor ?st) = Inr (b, s)"
      and st': "st' = ?st\<lparr>ex_visitor := s\<rparr>" by (auto simp: bindE_eq_Inr assertE_eq_Inr)
    with keeps(3) [OF _ key [of 2]] P have "P depth s" by simp
    with held st' show ?thesis by (simp add: held_visitor)
  next
    case inner: False
    show ?thesis
    proof (cases "depth = 0")
      case True
      with run inner obtain b s where sel: "ro_selectDatabase ops (ex_keys ?st ! depth) (ex_full ?st) (ex_visitor ?st) = Inr (b, s)"
        and rest: "(if \<not> b then Inr (?st\<lparr>ex_visitor := s\<rparr>)
              else
                bindE (assertE (key_eq (ex_keys ?st ! depth) (ex_full ?st)) ''keys[0] == full'') (\<lambda>_.
                bindE (ro_databaseSchema ops s) (\<lambda>dbSchema.
                bindE (database_rule dbSchema (ex_keys ?st ! depth)) (\<lambda>dbRule.
                bindE (foldE (\<lambda>r. expand_read ops dbSchema rq [r, dbRule] (rule_preds r) (depth + 1))
                         (rule_rules dbRule) (start_second dbSchema (ex_keys ?st ! depth) s)) (\<lambda>st2.
                  Inr (?st\<lparr>ex_visitor := ex_visitor st2\<rparr>)))))) = Inr st'"
        unfolding bindE_eq_Inr by (auto simp: bindE_eq_Inr)
      have s: "P (if b then 1 else 0) s" by (rule keeps(1) [OF _ key [OF d3] sel]) (use P True in simp)
      show ?thesis
      proof (cases b)
        case False
        with rest held s True show ?thesis by (auto simp: held_visitor)
      next
        case b: True
        with rest obtain dbs dr st2 where as: "assertE (key_eq (ex_keys ?st ! depth) (ex_full ?st)) ''keys[0] == full'' = Inr ()"
          and dbs: "ro_databaseSchema ops s = Inr dbs" and dr: "database_rule dbs (ex_keys ?st ! depth) = Inr dr"
          and fold: "foldE (\<lambda>r. expand_read ops dbs rq [r, dr] (rule_preds r) (depth + 1)) (rule_rules dr)
              (start_second dbs (ex_keys ?st ! depth) s) = Inr st2" and st': "st' = ?st\<lparr>ex_visitor := ex_visitor st2\<rparr>"
          by (auto simp: bindE_eq_Inr)
        from s b have s1: "P 1 s" by simp
        have inside: "rule_within D dr"
          by (rule database_rule_within [OF keeps(5) [OF s1 dbs] dr])
        have "held (P (depth + 1)) A st2"
        proof (rule foldE_invariant [OF _ _ fold])
          show "held (P (depth + 1)) A (start_second dbs (ex_keys ?st ! depth) s)"
            using held_second [where P = "P 1"] s1 True key [OF d3] by simp
          show "held (P (depth + 1)) A s'" if "r \<in> set (rule_rules dr)" "held (P (depth + 1)) A s0"
            "expand_read ops dbs rq [r, dr] (rule_preds r) (depth + 1) s0 = Inr s'" for r s0 s'
            by (rule "1.IH"(1) [OF d3' refl refl refl inner True sel refl _ as dbs dr that(1) that(3) "1.prems"(2) _ _ that(2)])
              (use b inside that(1) in \<open>auto dest: rule_withinD\<close>)
        qed
        then have "P depth (ex_visitor st2)" using keeps(6) [of 0] True by (simp add: held_def)
        with held st' show ?thesis by (simp add: held_visitor)
      qed
    next
      case False
      with run inner obtain b s where d: "assertE (depth = 1) ''depth == 0 || depth == 1'' = Inr ()"
        and sel: "ro_selectIndex ops (ex_keys ?st ! depth) (ex_full ?st) (ex_visitor ?st) = Inr (b, s)"
        and rest: "(if \<not> b then Inr (?st\<lparr>ex_visitor := s\<rparr>)
              else foldE (\<lambda>r. expand_read ops sch rq (r # path) (rule_preds r) (depth + 1))
                     (rule_rules (hd path)) (?st\<lparr>ex_visitor := s\<rparr>)) = Inr st'"
        unfolding bindE_eq_Inr by (auto simp: bindE_eq_Inr)
      from d have d: "assertE (depth = 1) ''depth == 0 || depth == 1'' = Inr ()" and d1: "depth = 1" by (simp_all add: assertE_eq_Inr)
      have s: "P (if b then 2 else 1) s" by (rule keeps(2) [OF _ key [OF d3] sel]) (use P d1 in simp)
      show ?thesis
      proof (cases b)
        case False
        with rest held s d1 show ?thesis by (auto simp: held_visitor)
      next
        case b: True
        with rest have fold: "foldE (\<lambda>r. expand_read ops sch rq (r # path) (rule_preds r) (depth + 1))
            (rule_rules (hd path)) (?st\<lparr>ex_visitor := s\<rparr>) = Inr st'" by simp
        have "held (P (depth + 1)) A st'"
        proof (rule foldE_invariant [OF _ _ fold])
          show "held (P (depth + 1)) A (?st\<lparr>ex_visitor := s\<rparr>)"
            using held_visitor [OF held, where Q = "P 2"] s b d1 by (simp add: numeral_2_eq_2)
          show "held (P (depth + 1)) A s'" if "r \<in> set (rule_rules (hd path))" "held (P (depth + 1)) A s0"
            "expand_read ops sch rq (r # path) (rule_preds r) (depth + 1) s0 = Inr s'" for r s0 s'
            by (rule "1.IH"(2) [OF d3' refl refl refl inner False d sel refl _ that(1) that(3) "1.prems"(2) _ _ that(2)])
              (use b "1.prems"(4) that(1) in \<open>auto dest: rule_withinD\<close>)
        qed
        then show ?thesis using held_mono [where P = "P (depth + 1)" and Q = "P depth"] keeps(6) [of depth] by simp
      qed
    qed
  qed
next
  case (2 ops sch rq path p ps depth st)
  note run = "2.prems"(1) [unfolded expand_read.simps(2) Let_def]
  from run obtain vs s ws where d3: "assertE (depth < 3) ''depth < 3'' = Inr ()"
    and vs: "ro_values ops rq (pred_keyword p) (rule_registry sch path) (ex_visitor st) = Inr (vs, s)"
    and ws: "(if vs = [] \<and> pred_optional p then bindE (pred_default p) (\<lambda>d. Inr [d]) else Inr vs) = Inr ws"
    and fold: "foldE (\<lambda>val st.
         bindE (if pred_match p (ex_keys (push_level depth (pred_keyword p) val st) ! depth)
                then expand_read ops sch rq path ps depth (push_level depth (pred_keyword p) val st)
                else Inr (push_level depth (pred_keyword p) val st)) (\<lambda>st. pop_level depth (pred_keyword p) st))
        ws (st\<lparr>ex_visitor := s\<rparr>) = Inr st'"
    unfolding bindE_eq_Inr by (auto simp: bindE_eq_Inr)
  have P: "P depth (ex_visitor st)" using "2.prems"(5) by (simp add: held_def)
  note given = visitor_keepsD(4) [OF "2.prems"(2) P vs]
  have all: "A (pred_keyword p) v" if "v \<in> set ws" for v
  proof (cases "vs = [] \<and> pred_optional p")
    case True
    with ws that have "pred_default p = Inr v" by (auto simp: bindE_eq_Inr)
    with True visitor_keepsD(7) [OF "2.prems"(2)] "2.prems"(3) show ?thesis by simp
  next
    case False
    with ws that given show ?thesis by (auto split: if_splits)
  qed
  show ?case
  proof (rule foldE_invariant [OF _ _ fold])
    show "held (P depth) A (st\<lparr>ex_visitor := s\<rparr>)" using "2.prems"(5) given by (simp add: held_visitor)
    fix v s0 s'
    assume v: "v \<in> set ws" and s0: "held (P depth) A s0" and step:
      "bindE (if pred_match p (ex_keys (push_level depth (pred_keyword p) v s0) ! depth)
              then expand_read ops sch rq path ps depth (push_level depth (pred_keyword p) v s0)
              else Inr (push_level depth (pred_keyword p) v s0)) (\<lambda>st. pop_level depth (pred_keyword p) st) = Inr s'"
    let ?s1 = "push_level depth (pred_keyword p) v s0"
    have h1: "held (P depth) A ?s1" by (rule held_push [OF s0 all [OF v]])
    from step obtain s2 where s2: "(if pred_match p (ex_keys ?s1 ! depth) then expand_read ops sch rq path ps depth ?s1 else Inr ?s1) = Inr s2"
      and pop: "pop_level depth (pred_keyword p) s2 = Inr s'" by (auto simp: bindE_eq_Inr)
    have "held (P depth) A s2"
    proof (cases "pred_match p (ex_keys ?s1 ! depth)")
      case True
      with s2 have "expand_read ops sch rq path ps depth ?s1 = Inr s2" by simp
      then show ?thesis by (rule "2.IH" [OF d3 vs refl ws v refl True _ "2.prems"(2) _ "2.prems"(4) h1]) (use "2.prems"(3) in simp_all)
    next
      case False
      with s2 h1 show ?thesis by simp
    qed
    then show "held (P depth) A s'" using pop d3 by (auto simp: assertE_eq_Inr intro: held_pop)
  qed
qed

lemma schema_expand_read_preserves:
  assumes "schema_expand_read ops sch rq s = Inr s'" and "visitor_keeps ops rq D A P" and "schema_within D sch" and "P 0 s"
  shows "P 0 s'"
proof -
  from assms(1) obtain st where st: "foldE (\<lambda>r. expand_read ops sch rq [r] (rule_preds r) 0) (sch_rules sch) (start_expansion sch s) = Inr st"
    and s': "s' = ex_visitor st"
    by (auto simp: schema_expand_read_def bindE_eq_Inr)
  have "held (P 0) A st"
  proof (rule foldE_invariant [OF _ _ st])
    show "held (P 0) A (start_expansion sch s)" using held_start [where P = "P 0"] assms(4) by blast
    show "held (P 0) A s2" if "r \<in> set (sch_rules sch)" "held (P 0) A s1" "expand_read ops sch rq [r] (rule_preds r) 0 s1 = Inr s2" for r s1 s2
      by (rule expand_read_preserves [OF that(3) assms(2) _ _ that(2)])
        (use assms(3) that(1) in \<open>auto simp: schema_within_def dest: rule_withinD\<close>)
  qed
  then show ?thesis by (simp add: s' held_def)
qed

section \<open>What the inspector keeps\<close>

text \<open>The objects in the cache are alive, each under the key of its database; each is open, with a schema, and the schemas are all of a certain kind.\<close>

definition inspector_ok :: "('r, 'g, 'u) read_db_ops \<Rightarrow> 'c lru_ops \<Rightarrow> (schema \<Rightarrow> bool) \<Rightarrow> ('r, 'c) inspector \<Rightarrow> bool" where
  "inspector_ok R L S i \<longleftrightarrow>
     (\<forall>a r. map_of (in_heap i) a = Some r \<longrightarrow> a < in_fresh i \<and> (\<exists>sch. rd_schema R r = Inr sch \<and> S sch)) \<and>
     (\<forall>k a. lr_find L k (in_cache i) = Some a \<longrightarrow> (\<exists>r. map_of (in_heap i) a = Some r \<and> key_dict (rd_key R r) = k))"

text \<open>\<open>db_\<close> is a database of the cache; below the first level it is one that was asked for, with its index below the second.\<close>

definition pointing ::
    "('r, 'g, 'u) read_db_ops \<Rightarrow> 'c lru_ops \<Rightarrow> (string \<Rightarrow> string \<Rightarrow> bool) \<Rightarrow> nat \<Rightarrow> nat option \<Rightarrow> ('r, 'c) inspector \<Rightarrow> bool" where
  "pointing R L A d db i \<longleftrightarrow>
     (case db of
        None \<Rightarrow> d = 0
      | Some a \<Rightarrow>
          \<exists>r. lr_find L (key_dict (rd_key R r)) (in_cache i) = Some a \<and> map_of (in_heap i) a = Some r \<and>
            (1 \<le> d \<longrightarrow> within A (rd_key R r)) \<and> (2 \<le> d \<longrightarrow> within A (rd_indexKey R r)))"

text \<open>An element that a database gave for a key with such values, from a database and an index with such values.\<close>

definition delivered :: "('r, 'g, 'u) read_db_ops \<Rightarrow> (string \<Rightarrow> string \<Rightarrow> bool) \<Rightarrow> 'u list_element \<Rightarrow> bool" where
  "delivered R A el \<longleftrightarrow>
     (\<exists>k r0 g0 f r g. rd_inspect R k (r0, g0) = Inr (Some f, r, g) \<and> el = found_element R r k f \<and>
        within A k \<and> within A (rd_key R r) \<and> within A (rd_indexKey R r))"

definition visit_ok ::
    "('r, 'g, 'u) read_db_ops \<Rightarrow> 'c lru_ops \<Rightarrow> ('g \<Rightarrow> bool) \<Rightarrow> (schema \<Rightarrow> bool) \<Rightarrow> (string \<Rightarrow> string \<Rightarrow> bool) \<Rightarrow> nat \<Rightarrow>
     ('r, 'c, 'g, 'u) retrieve_state \<Rightarrow> bool" where
  "visit_ok R L Q S A d s \<longleftrightarrow>
     inspector_ok R L S (mr_inspector s) \<and> Q (mr_world s) \<and> pointing R L A d (mr_db s) (mr_inspector s) \<and> (\<forall>el \<in> set (mr_out s). delivered R A el)"

text \<open>A value that the request gives for the keyword, or the default of a predicate.\<close>

definition wanted :: "ext \<Rightarrow> (predicate \<Rightarrow> bool) \<Rightarrow> mars_request \<Rightarrow> string \<Rightarrow> string \<Rightarrow> bool" where
  "wanted e D rq n v \<longleftrightarrow>
     (\<exists>t ax vs wind. getValues e t rq n ax = Inr (vs, wind) \<and> v \<in> set vs) \<or>
     (\<exists>p. D p \<and> pred_optional p \<and> pred_keyword p = n \<and> pred_default p = Inr v)"

lemma lru_lawsD:
  assumes "lru_laws L"
  shows "lr_find L k (lr_empty L) = None"
    and "lr_find L k' (lr_access L k c) = lr_find L k' c"
    and "lr_find L k c = None \<Longrightarrow> lr_insert L k a c = (c', dead) \<Longrightarrow> lr_find L k c' = Some a"
    and "lr_find L k c = None \<Longrightarrow> lr_insert L k a c = (c', dead) \<Longrightarrow> k' \<noteq> k \<Longrightarrow> lr_find L k' c' = Some b \<Longrightarrow> lr_find L k' c = Some b"
    and "lr_find L k c = None \<Longrightarrow> lr_insert L k a c = (c', dead) \<Longrightarrow>
      b \<in> set dead \<longleftrightarrow> (\<exists>k'. k' \<noteq> k \<and> lr_find L k' c = Some b \<and> lr_find L k' c' = None)"
  using assms unfolding lru_laws_def by blast+

lemma map_of_erase_all: "map_of (fold dict_erase ks d) a = (if a \<in> set ks then None else map_of d a)"
  by (induction ks arbitrary: d) auto

lemma cached_alive:
  "inspector_ok R L S i \<Longrightarrow> lr_find L k (in_cache i) = Some a \<Longrightarrow> \<exists>r. map_of (in_heap i) a = Some r \<and> key_dict (rd_key R r) = k"
  unfolding inspector_ok_def by blast

lemma inspector_ok_new: "lru_laws L \<Longrightarrow> inspector_ok R L S (new_inspector L)"
  by (simp add: inspector_ok_def new_inspector_def lru_lawsD(1))

lemma inspector_ok_access: "lru_laws L \<Longrightarrow> inspector_ok R L S i \<Longrightarrow> inspector_ok R L S (i\<lparr>in_cache := lr_access L k (in_cache i)\<rparr>)"
  by (simp add: inspector_ok_def lru_lawsD(2))

lemma inspector_ok_put:
  assumes "inspector_ok R L S i" and "map_of (in_heap i) a = Some r" and "rd_key R r' = rd_key R r"
    and "rd_schema R r' = rd_schema R r"
  shows "inspector_ok R L S (i\<lparr>in_heap := dict_put a r' (in_heap i)\<rparr>)"
  using assms cached_alive [OF assms(1)] by (fastforce simp: inspector_ok_def)

lemma inspector_ok_insert:
  assumes laws: "lru_laws L" and ok: "inspector_ok R L S i" and new: "lr_find L (key_dict k) (in_cache i) = None"
    and ins: "insert_db L k r i = (a, i')" and key: "key_dict (rd_key R r) = key_dict k"
    and schema: "\<exists>sch. rd_schema R r = Inr sch \<and> S sch"
  shows "inspector_ok R L S i' \<and> lr_find L (key_dict k) (in_cache i') = Some a \<and> map_of (in_heap i') a = Some r"
proof -
  obtain c dead where lr: "lr_insert L (key_dict k) (in_fresh i) (in_cache i) = (c, dead)" by fastforce
  with ins have a: "a = in_fresh i" and i': "in_heap i' = fold dict_erase dead (dict_put (in_fresh i) r (in_heap i))"
    "in_fresh i' = Suc (in_fresh i)" "in_cache i' = c"
    by (auto simp: insert_db_def)
  note found = lru_lawsD(3) [OF laws new lr] and others = lru_lawsD(4) [OF laws new lr] and gone = lru_lawsD(5) [OF laws new lr]
  have old: "b < in_fresh i" if "lr_find L k' (in_cache i) = Some b" for k' b
    using ok that unfolding inspector_ok_def by blast
  then have alive: "a \<notin> set dead" using gone [of a] a by blast
  have "\<exists>r'. map_of (in_heap i') b = Some r' \<and> key_dict (rd_key R r') = k'" if "lr_find L k' c = Some b" for k' b
  proof (cases "k' = key_dict k")
    case True
    with that found have "b = a" by (simp add: a)
    with alive key True show ?thesis by (simp add: i' map_of_erase_all a)
  next
    case False
    with others that have b1: "lr_find L k' (in_cache i) = Some b" by blast
    with cached_alive [OF ok] obtain r' where "map_of (in_heap i) b = Some r'" "key_dict (rd_key R r') = k'" by blast
    moreover have "b \<notin> set dead"
    proof
      assume "b \<in> set dead"
      with gone obtain k2 where k2: "lr_find L k2 (in_cache i) = Some b" "lr_find L k2 c = None" by blast
      with cached_alive [OF ok k2(1)] calculation have "k2 = k'" by auto
      with k2(2) that show False by simp
    qed
    moreover note b = b1
    ultimately show ?thesis using b old [OF b] by (simp add: i' map_of_erase_all)
  qed
  moreover have "\<forall>b r'. map_of (in_heap i') b = Some r' \<longrightarrow> b < in_fresh i' \<and> (\<exists>sch. rd_schema R r' = Inr sch \<and> S sch)"
    using ok schema by (auto simp: i' map_of_erase_all inspector_ok_def split: if_splits intro: less_SucI)
  ultimately show ?thesis using found alive by (simp add: inspector_ok_def i' map_of_erase_all a)
qed

lemma pointing_less: "pointing R L A (Suc d) db i \<Longrightarrow> pointing R L A d db i"
  by (auto simp: pointing_def split: option.splits)

lemma pointing_deref:
  assumes "pointing R L A d (Some a) i"
  shows "\<exists>r. deref a i = Inr r"
  using assms by (auto simp: pointing_def deref_def)

lemma within_eq: "key_eq k k' \<Longrightarrow> within A k = within A k'"
  by (simp add: within_def key_eq_def)

text \<open>
  What the visitor asks of a database: it is the one of the key that it was made for, its index is the selected one, and
  its schema is one of those that the program gets (\<open>schemas_in\<close>).
\<close>

locale read_database =
  fixes R :: "('r, 'g, 'u) read_db_ops" and schemas_in :: "(schema \<Rightarrow> bool) \<Rightarrow> 'g \<Rightarrow> bool"
  assumes build_key: "rd_build R k g = Inr (r, g') \<Longrightarrow> key_dict (rd_key R r) = key_dict k \<and> (schemas_in S g \<longrightarrow> schemas_in S g')"
    and open_key: "rd_open R (r, g) = Inr (b, r', g') \<Longrightarrow> rd_key R r' = rd_key R r \<and>
      (schemas_in S g \<longrightarrow> schemas_in S g' \<and> (b \<longrightarrow> (\<exists>sch. rd_schema R r' = Inr sch \<and> S sch)))"
    and select_keys: "rd_selectIndex R k r = (b, r') \<Longrightarrow>
      rd_key R r' = rd_key R r \<and> key_dict (rd_indexKey R r') = key_dict k \<and> rd_schema R r' = rd_schema R r"
    and inspect_keys: "rd_inspect R k (r, g) = Inr (f, r', g') \<Longrightarrow> rd_key R r' = rd_key R r \<and> rd_indexKey R r' = rd_indexKey R r \<and>
      rd_schema R r' = rd_schema R r \<and> (schemas_in S g \<longrightarrow> schemas_in S g')"
begin

lemma selectDatabase_ok:
  assumes laws: "lru_laws L" and ok: "visit_ok R L (schemas_in S) S A 0 s" and k: "within A k" and run: "multi_selectDatabase R L k s = Inr (b, s')"
  shows "visit_ok R L (schemas_in S) S A (if b then 1 else 0) s'"
proof -
  note parts = ok [unfolded visit_ok_def]
  from run obtain same where same: "(case mr_db s of None \<Rightarrow> Inr False
      | Some a \<Rightarrow> bindE (deref a (mr_inspector s)) (\<lambda>r. Inr (key_eq k (rd_key R r)))) = Inr same"
    and rest: "(if same then Inr (True, s)
      else case lr_find L (key_dict k) (in_cache (mr_inspector s)) of
          Some a \<Rightarrow> Inr (True, s\<lparr>mr_inspector := (mr_inspector s)\<lparr>in_cache := lr_access L (key_dict k) (in_cache (mr_inspector s))\<rparr>, mr_db := Some a\<rparr>)
        | None \<Rightarrow> open_reader R L k s) = Inr (b, s')"
    unfolding multi_selectDatabase_def bindE_eq_Inr Let_def by blast
  show ?thesis
  proof (cases same)
    case True
    with same obtain a r where a: "mr_db s = Some a" "deref a (mr_inspector s) = Inr r" "key_eq k (rd_key R r)"
      by (auto simp: bindE_eq_Inr split: option.splits)
    with k have "within A (rd_key R r)" using within_eq by blast
    with a parts True rest show ?thesis by (auto simp: visit_ok_def pointing_def deref_def)
  next
    case new: False
    show ?thesis
    proof (cases "lr_find L (key_dict k) (in_cache (mr_inspector s))")
      case (Some a)
      with cached_alive parts obtain r where r: "map_of (in_heap (mr_inspector s)) a = Some r" "key_dict (rd_key R r) = key_dict k"
        by blast
      with k have "within A (rd_key R r)" by (simp add: within_def)
      with Some new rest r parts laws show ?thesis
        by (auto simp: visit_ok_def pointing_def inspector_ok_access lru_lawsD(2))
    next
      case None
      with new rest have "open_reader R L k s = Inr (b, s')" by simp
      then obtain r0 g0 en where r0: "rd_build R k (mr_world s) = Inr (r0, g0)"
        and go: "(if \<not> en then Inr (False, s\<lparr>mr_world := g0\<rparr>)
          else bindE (rd_open R (r0, g0)) (\<lambda>(found, r, g).
              if \<not> found then Inr (False, s\<lparr>mr_world := g\<rparr>)
              else (case insert_db L k r (mr_inspector s) of
                      (a, i) \<Rightarrow> Inr (True, s\<lparr>mr_inspector := i, mr_db := Some a, mr_world := g\<rparr>)))) = (Inr (b, s') :: (bool \<times> _) res)"
        by (auto simp: open_reader_def bindE_eq_Inr simp del: if_split_asm)
      have cases: "b = False \<and> (\<exists>g. schemas_in S g \<and> s' = s\<lparr>mr_world := g\<rparr>) \<or>
          (\<exists>r g a i. rd_open R (r0, g0) = Inr (True, r, g) \<and> insert_db L k r (mr_inspector s) = (a, i) \<and> b \<and>
             s' = s\<lparr>mr_inspector := i, mr_db := Some a, mr_world := g\<rparr>)"
      proof (cases en)
        case False
        with go parts build_key [OF r0, of S] show ?thesis by auto
      next
        case True
        with go obtain found r g where opened: "rd_open R (r0, g0) = Inr (found, r, g)"
          and rest: "(if \<not> found then Inr (False, s\<lparr>mr_world := g\<rparr>)
              else (case insert_db L k r (mr_inspector s) of
                      (a, i) \<Rightarrow> Inr (True, s\<lparr>mr_inspector := i, mr_db := Some a, mr_world := g\<rparr>))) = (Inr (b, s') :: (bool \<times> _) res)"
          by (auto simp: bindE_eq_Inr simp del: if_split_asm)
        obtain a i where "insert_db L k r (mr_inspector s) = (a, i)" by fastforce
        with opened rest parts build_key [OF r0, of S] open_key [OF opened, of S] show ?thesis by (cases found) auto
      qed
      from cases show ?thesis
      proof
        assume "b = False \<and> (\<exists>g. schemas_in S g \<and> s' = s\<lparr>mr_world := g\<rparr>)"
        with ok show ?thesis by (auto simp: visit_ok_def)
      next
        assume "\<exists>r g a i. rd_open R (r0, g0) = Inr (True, r, g) \<and> insert_db L k r (mr_inspector s) = (a, i) \<and> b \<and>
             s' = s\<lparr>mr_inspector := i, mr_db := Some a, mr_world := g\<rparr>"
        then obtain r g a i where opened: "rd_open R (r0, g0) = Inr (True, r, g)" and ins: "insert_db L k r (mr_inspector s) = (a, i)"
          and b: b and s': "s' = s\<lparr>mr_inspector := i, mr_db := Some a, mr_world := g\<rparr>" by blast
        have key: "key_dict (rd_key R r) = key_dict k" using build_key [OF r0] open_key [OF opened] by simp
        have world: "schemas_in S g" and schema: "\<exists>sch. rd_schema R r = Inr sch \<and> S sch"
          using parts build_key [OF r0, of S] open_key [OF opened, of S] by blast+
        with k key have "within A (rd_key R r)" by (simp add: within_def)
        with inspector_ok_insert [OF laws _ None ins key schema] parts b key world show ?thesis
          by (auto simp: visit_ok_def pointing_def s')
      qed
    qed
  qed
qed

lemma put_db_ok:
  assumes "visit_ok R L (schemas_in S) S A d s" and "mr_db s = Some a" and "map_of (in_heap (mr_inspector s)) a = Some r"
    and "rd_key R r' = rd_key R r" and "rd_schema R r' = rd_schema R r" and "2 \<le> d' \<longrightarrow> within A (rd_indexKey R r')" and "1 \<le> d' \<longrightarrow> 1 \<le> d"
  shows "visit_ok R L (schemas_in S) S A d' (put_db a r' s)"
  using assms inspector_ok_put [of R L S "mr_inspector s" a r r']
  by (auto simp: visit_ok_def pointing_def put_db_def)

lemma current_dbD:
  assumes "visit_ok R L (schemas_in S) S A d s" and "current_db s = Inr (a, r)"
  shows "mr_db s = Some a" "map_of (in_heap (mr_inspector s)) a = Some r" "1 \<le> d \<Longrightarrow> within A (rd_key R r)"
    "2 \<le> d \<Longrightarrow> within A (rd_indexKey R r)"
  using assms by (auto simp: visit_ok_def pointing_def current_db_def bindE_eq_Inr deref_def split: option.splits)

lemma selectIndex_ok:
  assumes ok: "visit_ok R L (schemas_in S) S A 1 s" and k: "within A k" and run: "multi_selectIndex R k s = Inr (b, s')"
  shows "visit_ok R L (schemas_in S) S A (if b then 2 else 1) s'"
proof -
  from run obtain a r where cur: "current_db s = Inr (a, r)" and go: "(case rd_selectIndex R k r of (found, r) \<Rightarrow> Inr (found, put_db a r s)) = (Inr (b, s') :: (bool \<times> _) res)"
    unfolding multi_selectIndex_def bindE_eq_Inr by auto
  from go obtain r' where sel: "rd_selectIndex R k r = (b, r')" and s': "s' = put_db a r' s"
    by (cases "rd_selectIndex R k r") auto
  have "within A (rd_indexKey R r')" using select_keys [OF sel] k by (simp add: within_def)
  then show ?thesis unfolding s'
    by (intro put_db_ok [OF ok current_dbD(1,2) [OF ok cur]]) (use select_keys [OF sel] in auto)
qed

lemma selectDatum_ok:
  assumes ok: "visit_ok R L (schemas_in S) S A 2 s" and k: "within A k" and run: "multi_selectDatum R k s = Inr (b, s')"
  shows "visit_ok R L (schemas_in S) S A 2 s'"
proof -
  from run obtain a r field r' g where cur: "current_db s = Inr (a, r)" and ins: "rd_inspect R k (r, mr_world s) = Inr (field, r', g)"
    and s': "s' = (let s1 = (put_db a r' s)\<lparr>mr_world := g\<rparr>
       in case field of None \<Rightarrow> s1 | Some f \<Rightarrow> s1\<lparr>mr_out := mr_out s1 @ [found_element R r' k f]\<rparr>)"
    by (auto simp: multi_selectDatum_def bindE_eq_Inr Let_def split: option.splits)
  note keys = inspect_keys [OF ins] and cur = current_dbD [OF ok cur]
  have put: "visit_ok R L (schemas_in S) S A 2 (put_db a r' s)"
    by (rule put_db_ok [OF ok cur(1,2)]) (use keys cur(4) in auto)
  have world: "schemas_in S g" using ok inspect_keys [OF ins, of S] by (simp add: visit_ok_def)
  show ?thesis
  proof (cases field)
    case None
    with put s' world show ?thesis by (simp add: visit_ok_def)
  next
    case (Some f)
    have "delivered R A (found_element R r' k f)"
      unfolding delivered_def using ins [unfolded Some] keys k cur(3,4) by fastforce
    with put s' Some world show ?thesis by (auto simp: visit_ok_def)
  qed
qed

lemma values_wanted:
  assumes run: "multi_values e R rq n reg s = Inr (vs, s')"
  shows "s' = s \<and> (\<forall>v \<in> set vs. wanted e D rq n v)"
proof -
  from run obtain t db ax ws wind ax' where got: "getValues e t rq n ax = Inr (ws, wind)" and filt: "axis_filter e t n ax' ws = Inr vs"
    and s': "s' = s" by (auto simp: multi_values_def bindE_eq_Inr Let_def)
  from filt obtain lvs where lvs: "mapE (\<lambda>l. bindE (toKey e t n l) (\<lambda>v. Inr (l, v))) ws = Inr lvs" and vs: "set vs \<subseteq> fst ` set lvs"
    unfolding axis_filter_def bindE_eq_Inr by (fastforce intro: that)
  have "fst ` set lvs \<subseteq> set ws" using lvs
    by (induction ws arbitrary: lvs) (fastforce simp: bindE_eq_Inr)+
  then have "set vs \<subseteq> set ws" using vs by blast
  with got show ?thesis unfolding wanted_def s' by blast
qed

lemma visitor_ok:
  assumes laws: "lru_laws L"
  shows "visitor_keeps (multi_visitor e R L) rq D (wanted e D rq) (visit_ok R L (schemas_in (schema_within D)) (schema_within D) (wanted e D rq))"
  unfolding visitor_keeps_def multi_visitor_def read_ops.simps
proof (intro conjI allI impI)
  let ?A = "wanted e D rq"
  fix k full s b s'
  assume k: "within ?A k"
  show "visit_ok R L (schemas_in (schema_within D)) (schema_within D) ?A (if b then 1 else 0) s'" if "visit_ok R L (schemas_in (schema_within D)) (schema_within D) ?A 0 s" "multi_selectDatabase R L k s = Inr (b, s')"
    by (rule selectDatabase_ok [OF laws that(1) k that(2)])
  show "visit_ok R L (schemas_in (schema_within D)) (schema_within D) ?A (if b then 2 else 1) s'" if "visit_ok R L (schemas_in (schema_within D)) (schema_within D) ?A 1 s" "multi_selectIndex R k s = Inr (b, s')"
    by (rule selectIndex_ok [OF that(1) k that(2)])
  show "visit_ok R L (schemas_in (schema_within D)) (schema_within D) ?A 2 s'" if "visit_ok R L (schemas_in (schema_within D)) (schema_within D) ?A 2 s" "multi_selectDatum R k s = Inr (b, s')"
    by (rule selectDatum_ok [OF that(1) k that(2)])
next
  fix d k reg s vs s'
  assume ok: "visit_ok R L (schemas_in (schema_within D)) (schema_within D) (wanted e D rq) d s" and run: "multi_values e R rq k reg s = Inr (vs, s')"
  from values_wanted [OF run] ok show "visit_ok R L (schemas_in (schema_within D)) (schema_within D) (wanted e D rq) d s'" by simp
  from values_wanted [OF run] show "\<forall>v \<in> set vs. wanted e D rq k v" by simp
next
  fix s sch
  assume ok: "visit_ok R L (schemas_in (schema_within D)) (schema_within D) (wanted e D rq) 1 s"
  assume "bindE (current_db s) (\<lambda>(a, r). rd_schema R r) = Inr sch"
  then obtain a r where "current_db s = Inr (a, r)" "rd_schema R r = Inr sch" by (auto simp: bindE_eq_Inr)
  with ok current_dbD(2) [OF ok] show "schema_within D sch" unfolding visit_ok_def inspector_ok_def by fastforce
next
  fix d s
  assume "visit_ok R L (schemas_in (schema_within D)) (schema_within D) (wanted e D rq) (Suc d) s"
  then show "visit_ok R L (schemas_in (schema_within D)) (schema_within D) (wanted e D rq) d s" using pointing_less by (auto simp: visit_ok_def)
next
  fix p d
  assume "D p" "pred_optional p" "pred_default p = Inr d"
  then show "wanted e D rq (pred_keyword p) d" by (auto simp: wanted_def)
qed

text \<open>What is listed was asked for, or is a default of the schema; the inspector can be used again.\<close>

lemma inspect_ok:
  assumes laws: "lru_laws L" and sch: "schema_within D sch" and world: "schemas_in (schema_within D) g"
    and ok: "inspector_ok R L (schema_within D) i" and run: "inspector_inspect e R L sch rq (i, g) = Inr (it, i', g')"
  shows "inspector_ok R L (schema_within D) i' \<and> schemas_in (schema_within D) g' \<and> (\<exists>els. it = Async els None \<and> (\<forall>el \<in> set els. delivered R (wanted e D rq) el))"
proof -
  from run obtain s where s: "schema_expand_read (multi_visitor e R L) sch rq
      \<lparr>mr_inspector = i, mr_db = None, mr_out = [], mr_world = g\<rparr> = Inr s"
    and it: "it = Async (mr_out s) None" and i': "i' = mr_inspector s" and g': "g' = mr_world s"
    by (auto simp: inspector_inspect_def bindE_eq_Inr)
  have "visit_ok R L (schemas_in (schema_within D)) (schema_within D) (wanted e D rq) 0 \<lparr>mr_inspector = i, mr_db = None, mr_out = [], mr_world = g\<rparr>"
    using ok world by (simp add: visit_ok_def pointing_def)
  with schema_expand_read_preserves [OF s visitor_ok [OF laws] sch] have "visit_ok R L (schemas_in (schema_within D)) (schema_within D) (wanted e D rq) 0 s" by blast
  then show ?thesis by (simp add: visit_ok_def it i' g')
qed

text \<open>A visitor never follows a pointer to a database that the cache has deleted.\<close>

lemma pointer_alive:
  assumes "visit_ok R L (schemas_in S) S A d s"
  shows "current_db s = Inl (AssertFailed ''db_'') \<and> mr_db s = None \<or> (\<exists>a r. current_db s = Inr (a, r))"
proof (cases "mr_db s")
  case None
  then show ?thesis by (simp add: current_db_def)
next
  case (Some a)
  with assms pointing_deref [of R L A d a "mr_inspector s"] show ?thesis
    by (auto simp: visit_ok_def current_db_def)
qed

end

section \<open>The database over the table of contents\<close>

text \<open>A \<open>DB\<close> with a \<open>TocCatalogueReader\<close>; the schema and the store are there once it is open.\<close>

record 'u toc_reader =
  tr_key :: key
  tr_ids :: control_ids
  tr_reader :: "'u cat_reader"
  tr_schema :: "schema option"
  tr_store :: "toc_store option"

definition toc_reader_build ::
    "('u :: linorder, 'd, 's) db_env \<Rightarrow> key \<Rightarrow> ('d, 's) globals \<Rightarrow> ('u toc_reader \<times> ('d, 's) globals) res" where
  "toc_reader_build X key g =
     bindE (dx_directory X key) (\<lambda>(directory, ids).
     bindE (new_handler (dx_paths X) (gl_disk g) (dx_version X) (dx_useSubToc X) directory) (\<lambda>h.
     bindE (loadIndexesAndRemap (dx_cat X) (gl_disk g) h (gl_stores g)) (\<lambda>(r, st).
       Inr (\<lparr>tr_key = key, tr_ids = ids, tr_reader = r, tr_schema = None, tr_store = None\<rparr>, g\<lparr>gl_stores := st\<rparr>))))"

definition toc_reader_enabled ::
    "('u, 'd, 's) db_env \<Rightarrow> control_id \<Rightarrow> 'u toc_reader \<times> ('d, 's) globals \<Rightarrow> bool res" where
  "toc_reader_enabled X i = (\<lambda>(r, g).
     if \<not> ids_enabled (tr_ids r) i then Inr False
     else toc_enabled (dx_paths X) (gl_disk g) (cr_handler (tr_reader r)) i)"

text \<open>\<open>DB::open\<close>: the catalogue, then the store, which is made for it and always opens.\<close>

definition toc_reader_open ::
    "('u, 'd, 's) db_env \<Rightarrow> 'u toc_reader \<times> ('d, 's) globals \<Rightarrow> (bool \<times> 'u toc_reader \<times> ('d, 's) globals) res" where
  "toc_reader_open X = (\<lambda>(r, g).
     bindE (reader_open (dx_parse X) (dx_cat X) (gl_disk g) (tr_reader r) (gl_schemas g)) (\<lambda>(sch, schemas).
       case sch of
         None \<Rightarrow> Inr (False, r, g)
       | Some _ \<Rightarrow>
           bindE (dx_storeDirectory X (tr_key r)) (\<lambda>directory.
           bindE (findRealPath (dx_paths X) (gl_disk g) directory) (\<lambda>directory.
             Inr (True, r\<lparr>tr_schema := sch, tr_store := Some (new_toc_store directory)\<rparr>, g\<lparr>gl_schemas := schemas\<rparr>)))))"

definition toc_reader_selectIndex :: "key \<Rightarrow> 'u toc_reader \<Rightarrow> bool \<times> 'u toc_reader" where
  "toc_reader_selectIndex key r =
     (case reader_selectIndex key (tr_reader r) of (found, c) \<Rightarrow> (found, r\<lparr>tr_reader := c\<rparr>))"

definition toc_reader_inspect ::
    "('u :: linorder, 'd, 's) db_env \<Rightarrow> key \<Rightarrow> 'u toc_reader \<times> ('d, 's) globals \<Rightarrow>
     ('u field option \<times> 'u toc_reader \<times> ('d, 's) globals) res" where
  "toc_reader_inspect X key = (\<lambda>(r, g).
     bindE (reader_retrieve (dx_cat X) key (tr_reader r) (gl_stores g)) (\<lambda>(field, c, st).
       Inr (field, r\<lparr>tr_reader := c\<rparr>, g\<lparr>gl_stores := st\<rparr>)))"

text \<open>\<open>axis\<close> does not throw, because it asks only those indexes for the values that have the keyword.\<close>

definition toc_reader_axis ::
    "('u :: linorder, 'd, 's) db_env \<Rightarrow> string \<Rightarrow> 'u toc_reader \<times> ('d, 's) globals \<Rightarrow> bool \<times> string list" where
  "toc_reader_axis X keyword = (\<lambda>(r, g).
     case reader_axis (dx_cat X) (gl_stores g) (tr_reader r) keyword of
       Inl err \<Rightarrow> (False, [])
     | Inr (found, s) \<Rightarrow> (found, sorted_list_of_set s))"

definition toc_read_ops :: "('u :: linorder, 'd, 's) db_env \<Rightarrow> ('u toc_reader, ('d, 's) globals, 'u) read_db_ops" where
  "toc_read_ops X =
     \<lparr>rd_build = toc_reader_build X, rd_enabled = toc_reader_enabled X IdRetrieve, rd_open = toc_reader_open X,
      rd_selectIndex = toc_reader_selectIndex, rd_inspect = toc_reader_inspect X, rd_axis = toc_reader_axis X,
      rd_key = tr_key, rd_indexKey = (\<lambda>r. cr_current (tr_reader r)),
      rd_schema = (\<lambda>r. case tr_schema r of None \<Rightarrow> Inl (AssertFailed ''schema_'') | Some s \<Rightarrow> Inr s)\<rparr>"

lemma reader_axis_total: "\<exists>x. reader_axis X st r keyword = Inr x"
proof -
  have "\<exists>x. foldE (\<lambda>n (found, s).
         let a = ib_axes (tx_base (fst (cr_indexes r ! n)))
         in if axis_has a keyword
            then bindE (axis_values (ie_dense (cx_index X)) (sx_world st) a keyword) (\<lambda>d.
                   Inr (True, s \<union> set (ds_values (ie_dense (cx_index X)) d)))
            else Inr (found, s)) ns (b, s) = Inr x" for ns b and s :: "string set"
    by (induction ns arbitrary: b s)
      (auto simp: Let_def axis_values_def axis_has_def split: option.splits)
  then show ?thesis by (simp add: reader_axis_def)
qed

lemma retrieve_loop_current:
  "retrieve_loop X key ms r st = Inr (field, r', st') \<Longrightarrow> cr_current r' = cr_current r"
proof (induction ms arbitrary: r st)
  case (Cons m ms)
  obtain idx remapKey where m: "cr_indexes r ! m = (idx, remapKey)" by fastforce
  show ?case
    using Cons.prems by (auto simp: m Let_def bindE_eq_Inr split: if_split_asm option.split_asm dest: Cons.IH)
qed simp

text \<open>The schemas of the registry and those that are parsed.\<close>

definition schemas_known :: "('u, 'd, 's) db_env \<Rightarrow> (schema \<Rightarrow> bool) \<Rightarrow> ('d, 's) globals \<Rightarrow> bool" where
  "schemas_known X S g \<longleftrightarrow> (\<forall>p sch. dx_parse X p = Inr sch \<longrightarrow> S sch) \<and> (\<forall>p sch. map_of (gl_schemas g) p = Some sch \<longrightarrow> S sch)"

interpretation toc_read: read_database "toc_read_ops X" "schemas_known X" for X :: "('u :: linorder, 'd, 's) db_env"
proof unfold_locales
  fix k g r g' S
  show "rd_build (toc_read_ops X) k g = Inr (r, g') \<Longrightarrow>
    key_dict (rd_key (toc_read_ops X) r) = key_dict k \<and> (schemas_known X S g \<longrightarrow> schemas_known X S g')"
    by (auto simp: toc_read_ops_def toc_reader_build_def bindE_eq_Inr schemas_known_def)
next
  fix r g b r' g' S
  show "rd_open (toc_read_ops X) (r, g) = Inr (b, r', g') \<Longrightarrow> rd_key (toc_read_ops X) r' = rd_key (toc_read_ops X) r \<and>
    (schemas_known X S g \<longrightarrow> schemas_known X S g' \<and> (b \<longrightarrow> (\<exists>sch. rd_schema (toc_read_ops X) r' = Inr sch \<and> S sch)))"
    by (auto simp: toc_read_ops_def toc_reader_open_def reader_open_def schema_get_def schemas_known_def bindE_eq_Inr
      split: option.split_asm if_split_asm)
next
  fix k b and r r' :: "'u toc_reader"
  show "rd_selectIndex (toc_read_ops X) k r = (b, r') \<Longrightarrow> rd_key (toc_read_ops X) r' = rd_key (toc_read_ops X) r \<and>
    key_dict (rd_indexKey (toc_read_ops X) r') = key_dict k \<and> rd_schema (toc_read_ops X) r' = rd_schema (toc_read_ops X) r"
    by (auto simp: toc_read_ops_def toc_reader_selectIndex_def reader_selectIndex_def key_eq_def Let_def split: if_splits prod.splits)
next
  fix k r g f r' g' S
  show "rd_inspect (toc_read_ops X) k (r, g) = Inr (f, r', g') \<Longrightarrow> rd_key (toc_read_ops X) r' = rd_key (toc_read_ops X) r \<and>
    rd_indexKey (toc_read_ops X) r' = rd_indexKey (toc_read_ops X) r \<and> rd_schema (toc_read_ops X) r' = rd_schema (toc_read_ops X) r \<and>
    (schemas_known X S g \<longrightarrow> schemas_known X S g')"
    by (auto simp: toc_read_ops_def toc_reader_inspect_def reader_retrieve_def schemas_known_def bindE_eq_Inr
      dest: retrieve_loop_current)
qed

section \<open>The inspector on a catalogue\<close>

text \<open>
  The inspectors of a process: one request after another, and between them the files, which others write, become what they
  like, within \<open>K\<close>.
\<close>

inductive inspected ::
    "ext \<Rightarrow> ('r, 'g, 'u) read_db_ops \<Rightarrow> 'c lru_ops \<Rightarrow> schema \<Rightarrow> ('g \<Rightarrow> bool) \<Rightarrow> ('r, 'c) inspector \<Rightarrow> 'g \<Rightarrow> bool"
  for e R L sch K where
    fresh: "K g \<Longrightarrow> inspected e R L sch K (new_inspector L) g"
  | meanwhile: "inspected e R L sch K i g \<Longrightarrow> K g' \<Longrightarrow> inspected e R L sch K i g'"
  | request: "inspected e R L sch K i g \<Longrightarrow> inspector_inspect e R L sch rq (i, g) = Inr (it, i', g') \<Longrightarrow>
      inspected e R L sch K i' g'"

lemma inspected_ok:
  assumes "inspected e (toc_read_ops X) L sch (schemas_known X (schema_within D)) i g" and "lru_laws L" and "schema_within D sch"
  shows "inspector_ok (toc_read_ops X) L (schema_within D) i \<and> schemas_known X (schema_within D) g"
  using assms
proof (induction rule: inspected.induct)
  case (fresh g)
  then show ?case by (simp add: inspector_ok_new)
next
  case (request i g rq it i' g')
  then show ?case using toc_read.inspect_ok [OF request.prems request.IH [THEN conjunct2] _ request.hyps(2)] by blast
qed simp

text \<open>
  C6: What an inspector lists for a request was asked for: however many requests it has served and whatever has become of
  the files since, every element comes from a database, an index and a key of a field in which each value is one that the
  request gives for its keyword, or the default that the schema of the program or of a database has for it; and the location
  is one that a database returned for that key. The key of the index has only such values too, so it is not one that
  was left selected by an earlier request for other values.
\<close>
theorem inspector_lists_requested:
  fixes X :: "('u :: linorder, 'd, 's) db_env"
  assumes "inspected e (toc_read_ops X) L sch (schemas_known X (schema_within D)) i g" and "lru_laws L" and "schema_within D sch"
    and "inspector_inspect e (toc_read_ops X) L sch rq (i, g) = Inr (it, i', g')"
  shows "\<exists>els. it = Async els None \<and> (\<forall>el \<in> set els. delivered (toc_read_ops X) (wanted e D rq) el)"
  using toc_read.inspect_ok [OF assms(2,3) _ _ assms(4)] inspected_ok [OF assms(1-3)] by blast

text \<open>
  C7: The inspector owns its databases through the cache: a database that the cache still has for a key has not been
  deleted, and it is the database of that key, after any number of requests that made the cache drop some of them.
\<close>
theorem cached_databases_alive:
  fixes X :: "('u :: linorder, 'd, 's) db_env"
  assumes "inspected e (toc_read_ops X) L sch (schemas_known X (schema_within D)) i g" and "lru_laws L" and "schema_within D sch"
    and "lr_find L k (in_cache i) = Some a"
  shows "\<exists>r. deref a i = Inr r \<and> key_dict (tr_key r) = k"
  using cached_alive [OF _ assms(4)] inspected_ok [OF assms(1-3)] by (fastforce simp: deref_def toc_read_ops_def)

section \<open>A reference cache\<close>

text \<open>The last used entry is the first; \<open>n\<close> entries fit beside it.\<close>

definition ref_lru :: "nat \<Rightarrow> (db_name \<times> nat) list lru_ops" where
  "ref_lru n =
     \<lparr>lr_empty = [], lr_find = (\<lambda>k c. map_of c k),
      lr_access = (\<lambda>k c. case map_of c k of None \<Rightarrow> c | Some a \<Rightarrow> (k, a) # filter (\<lambda>e. fst e \<noteq> k) c),
      lr_insert = (\<lambda>k a c.
        let c' = (k, a) # take n (filter (\<lambda>e. fst e \<noteq> k) c)
        in (c', map snd (filter (\<lambda>(k', b). k' \<noteq> k \<and> map_of c k' = Some b \<and> map_of c' k' = None) c)))\<rparr>"

lemma map_of_take: "map_of (take n xs) k = Some v \<Longrightarrow> map_of xs k = Some v"
  by (metis append_take_drop_id map_add_find_right map_of_append map_add_Some_iff)

lemma map_of_other: "k' \<noteq> k \<Longrightarrow> map_of (filter (\<lambda>e. fst e \<noteq> k) c) k' = map_of c k'"
  by (induction c) auto

lemma ref_lru_laws: "lru_laws (ref_lru n)"
  unfolding lru_laws_def
proof (intro conjI allI impI)
  fix k a c c' dead
  assume ins: "lr_insert (ref_lru n) k a c = (c', dead)"
  then have c': "c' = (k, a) # take n (filter (\<lambda>e. fst e \<noteq> k) c)"
    and dead: "dead = map snd (filter (\<lambda>(k', b). k' \<noteq> k \<and> map_of c k' = Some b \<and> map_of c' k' = None) c)"
    by (auto simp: ref_lru_def Let_def)
  show "lr_find (ref_lru n) k c' = Some a" by (simp add: ref_lru_def c')
  show "lr_find (ref_lru n) k' c = Some b" if "k' \<noteq> k" "lr_find (ref_lru n) k' c' = Some b" for k' b
    using that map_of_take [of n "filter (\<lambda>e. fst e \<noteq> k) c" k' b] by (simp add: ref_lru_def c' map_of_other)
  have find: "lr_find (ref_lru n) k' d = map_of d k'" for k' and d :: "(db_name \<times> nat) list"
    by (simp add: ref_lru_def)
  have "b \<in> set dead \<longleftrightarrow> (\<exists>k'. k' \<noteq> k \<and> map_of c k' = Some b \<and> map_of c' k' = None)" for b
  proof
    assume "b \<in> set dead"
    then show "\<exists>k'. k' \<noteq> k \<and> map_of c k' = Some b \<and> map_of c' k' = None" unfolding dead by auto
  next
    assume "\<exists>k'. k' \<noteq> k \<and> map_of c k' = Some b \<and> map_of c' k' = None"
    then obtain k' where "k' \<noteq> k" "map_of c k' = Some b" "map_of c' k' = None" by blast
    then have "(k', b) \<in> set (filter (\<lambda>(k', b). k' \<noteq> k \<and> map_of c k' = Some b \<and> map_of c' k' = None) c)"
      by (simp add: map_of_SomeD)
    then show "b \<in> set dead" unfolding dead by force
  qed
  then show "b \<in> set dead \<longleftrightarrow> (\<exists>k'. k' \<noteq> k \<and> lr_find (ref_lru n) k' c = Some b \<and> lr_find (ref_lru n) k' c' = None)" for b
    by (simp only: find)
next
  fix k k' :: db_name and c
  show "lr_find (ref_lru n) k' (lr_access (ref_lru n) k c) = lr_find (ref_lru n) k' c"
    by (auto simp: ref_lru_def map_of_other split: option.splits)
qed (simp add: ref_lru_def)

section \<open>What was archived is listed\<close>

lemma scan_same_id:
  "scan (readNext P d k flags) step n hs s = Inr (s', hs') \<Longrightarrow> hs \<noteq> [] \<Longrightarrow> hs' \<noteq> [] \<and> same_id (hd hs) (hd hs')"
proof (induction n arbitrary: hs s)
  case (Suc n)
  obtain h subs where hs: "hs = h # subs" using Suc.prems(2) by (cases hs) auto
  obtain r hs1 where r: "readNext P d k flags hs = Inr (r, hs1)" using Suc.prems(1) by (auto simp: bindE_eq_Inr)
  then have id1: "hs1 \<noteq> []" "same_id h (hd hs1)" using readNext_same_id [of h P d k flags subs] hs by (auto simp: keeps_def)
  show ?case
  proof (cases r)
    case None
    with Suc.prems(1) r id1 hs show ?thesis by simp
  next
    case (Some x)
    with Suc.prems(1) r obtain s1 where "scan (readNext P d k flags) step n hs1 s1 = Inr (s', hs')" by (auto simp: bindE_eq_Inr)
    from Suc.IH [OF this id1(1)] id1 hs show ?thesis by (auto intro: same_id_trans)
  qed
qed simp

lemma loadIndexes_same_id:
  assumes "loadIndexes n P d load h w = Inr (ls, subs, h', w')"
  shows "same_id h h'"
proof (cases "path_exists d (th_tocPath h)")
  case True
  with assms obtain h1 s0 s hs where h1: "openForRead d h = Inr h1"
    and scan: "scan (readNext P d n default_flags) (load_step P load) n [h1] s0 = Inr (s, hs)"
    and h': "h' = (close_chain hs)\<lparr>th_count := ls_count s, th_dbUID := ls_uid s\<rparr>"
    by (auto simp: loadIndexes_def bindE_eq_Inr)
  from scan_same_id [OF scan] openForRead_same_id [OF h1] show ?thesis by (simp add: h' same_id_def close_chain_def)
qed (use assms in \<open>simp add: loadIndexes_def\<close>)

lemma write_index_exists:
  assumes "writeIndexRecord n P v e unique i (h, sub) d = Inr ((h', sub'), d')" and "\<not> th_useSubToc h"
  shows "path_exists d' = path_exists d"
proof -
  from assms obtain h1 r where h1: "openForAppend n P v d h = Inr h1" and d': "d' = append_records h1 [r] d"
    by (auto simp: writeIndexRecord_def write_index_here_def bindE_eq_Inr)
  have "map_of (dk_tocs d) (th_tocPath h1) \<noteq> None"
    using openForAppend_same_id(1,3) [OF h1] by (simp add: same_id_def)
  then show ?thesis by (auto simp: d' append_records_def path_exists_def fun_eq_iff)
qed

lemma flush_object_exists:
  assumes "flush_object X p (w, d, st) = Inr (w', d', st')" and "\<not> th_useSubToc (cw_handler w)"
  shows "path_exists d' = path_exists d"
  using assms
  by (auto simp: flush_object_def on_object_def bindE_eq_Inr split: if_split_asm dest!: write_index_exists)

lemma flush_exists:
  assumes "writer_flush X (w, d, st) = Inr (w', d', st')" and "\<not> th_useSubToc (cw_handler w)"
  shows "path_exists d' = path_exists d"
proof -
  have "foldE (\<lambda>(k, p). flush_object X p) ps (w, d, st) = Inr (w', d', st') \<Longrightarrow> \<not> th_useSubToc (cw_handler w) \<Longrightarrow>
    path_exists d' = path_exists d" for ps w'
  proof (induction ps arbitrary: w d st)
    case (Cons p ps)
    obtain k q where p: "p = (k, q)" by fastforce
    with Cons.prems obtain w1 d1 st1 where 1: "flush_object X q (w, d, st) = Inr (w1, d1, st1)"
      and rest: "foldE (\<lambda>(k, p). flush_object X p) ps (w1, d1, st1) = Inr (w', d', st')"
      by (auto simp: bindE_eq_Inr)
    from Cons.IH [OF rest flush_object_handler [OF Cons.prems(2) 1]] flush_object_exists [OF 1 Cons.prems(2)] show ?case by simp
  qed simp
  with assms show ?thesis by (auto simp: writer_flush_def flushIndexes_def bindE_eq_Inr split: if_split_asm)
qed

lemma retrieve_loop_fuel: "retrieve_loop (X\<lparr>cx_fuel := m\<rparr>) key ms r st = retrieve_loop X key ms r st"
proof (induction ms arbitrary: r st)
  case (Cons i ms)
  have same: "retrieve_loop (X\<lparr>cx_fuel := m\<rparr>) key ms = retrieve_loop X key ms" by (intro ext) (simp add: Cons.IH)
  show ?case unfolding retrieve_loop.simps same by simp
qed simp

text \<open>
  What a process needs to read a database: its directory, retrieval not switched off there, a table of contents, a schema,
  and a directory for the store.
\<close>

definition readable :: "('u, 'd, 's) db_env \<Rightarrow> key \<Rightarrow> toc_handler \<Rightarrow> disk \<Rightarrow> (string, schema) dict \<Rightarrow> bool" where
  "readable X key hr d schemas \<longleftrightarrow>
     (\<exists>dir ids sch schemas' sdir sreal. dx_directory X key = Inr (dir, ids) \<and>
        new_handler (dx_paths X) d (dx_version X) (dx_useSubToc X) dir = Inr hr \<and> ids_enabled ids IdRetrieve \<and>
        toc_enabled (dx_paths X) d hr IdRetrieve = Inr True \<and> path_exists d (th_tocPath hr) \<and>
        schema_get (dx_parse X) (po_join (dx_paths X) (th_directory hr) ''schema'') schemas = Inr (sch, schemas') \<and>
        dx_storeDirectory X key = Inr sdir \<and> findRealPath (dx_paths X) d sdir = Inr sreal)"

lemma real_path_exists: "path_exists d' = path_exists d \<Longrightarrow> findRealPath P d' dir = findRealPath P d dir"
proof -
  assume same: "path_exists d' = path_exists d"
  have "real_path_loop P d' n p = real_path_loop P d n p" for n p
    by (induction n arbitrary: p) (simp_all add: same)
  then show ?thesis by (simp add: findRealPath_def del: real_path_loop.simps)
qed

lemma readable_exists: "path_exists d' = path_exists d \<Longrightarrow> readable X key hr d' schemas = readable X key hr d schemas"
proof -
  assume same: "path_exists d' = path_exists d"
  show ?thesis unfolding readable_def new_handler_def toc_enabled_def same real_path_exists [OF same] ..
qed

text \<open>The element that a visitor lists for a field.\<close>

definition field_element :: "key \<Rightarrow> key \<Rightarrow> key \<Rightarrow> 'u location \<Rightarrow> nat \<Rightarrow> 'u list_element" where
  "field_element key ikey k l ts = \<lparr>le_keyParts = [key, ikey, simplified_key k], le_location = Some l, le_timestamp = ts\<rparr>"

text \<open>With enough fuel for the table of contents a new visitor gets to the field and lists its location.\<close>

definition visitor_lists ::
    "('u :: linorder, 'd, 's) db_env \<Rightarrow> 'c lru_ops \<Rightarrow> key \<Rightarrow> key \<Rightarrow> key \<Rightarrow> 'u location \<Rightarrow> disk \<Rightarrow> toc_handler \<Rightarrow> ('d, 's) globals \<Rightarrow> bool"
where
  "visitor_lists X L key ikey k l d hr g \<longleftrightarrow>
     (\<exists>N. \<forall>m \<ge> N. \<forall>r0 st0. loadIndexesAndRemap ((dx_cat X)\<lparr>cx_fuel := m\<rparr>) d hr (gl_stores g) = Inr (r0, st0) \<longrightarrow>
        (\<exists>s1 s2 s3 ts. let R = toc_read_ops (X\<lparr>dx_cat := (dx_cat X)\<lparr>cx_fuel := m\<rparr>\<rparr>) in
           multi_selectDatabase R L key \<lparr>mr_inspector = new_inspector L, mr_db = None, mr_out = [], mr_world = g\<rparr> = Inr (True, s1) \<and>
           multi_selectIndex R ikey s1 = Inr (True, s2) \<and> multi_selectDatum R k s2 = Inr (True, s3) \<and>
           mr_out s3 = [field_element key ikey k l ts]))"

lemma selectDatum_finds:
  assumes "current_db s = Inr (a, r)" and "rd_inspect R k (r, mr_world s) = Inr (Some f, r', g)"
  shows "\<exists>s'. multi_selectDatum R k s = Inr (True, s') \<and> mr_out s' = mr_out s @ [found_element R r' k f]"
  using assms by (simp add: multi_selectDatum_def put_db_def)

lemma reader_lists:
  fixes X :: "('u :: linorder, 'd, 's) db_env"
  defines "C \<equiv> \<lambda>m. (dx_cat X)\<lparr>cx_fuel := m\<rparr>"
  assumes laws: "lru_laws L" and ready: "readable X key hr (gl_disk g) (gl_schemas g)" and ikey: "\<not> key_empty ikey"
    and load: "loadIndexesAndRemap (C m) (gl_disk g) hr (gl_stores g) = Inr (r, st1)"
    and sel: "fst (reader_selectIndex ikey r)"
    and ret: "reader_retrieve (dx_cat X) k (snd (reader_selectIndex ikey r)) st1 = Inr (Some f, r2, st2)"
  shows "\<exists>s1 s2 s3. let R = toc_read_ops (X\<lparr>dx_cat := C m\<rparr>) in
     multi_selectDatabase R L key \<lparr>mr_inspector = new_inspector L, mr_db = None, mr_out = [], mr_world = g\<rparr> = Inr (True, s1) \<and>
     multi_selectIndex R ikey s1 = Inr (True, s2) \<and> multi_selectDatum R k s2 = Inr (True, s3) \<and>
     mr_out s3 = [field_element key ikey k (fd_location f) (fd_timestamp f)]"
proof -
  let ?X = "X\<lparr>dx_cat := C m\<rparr>" and ?i0 = "new_inspector L :: ('u toc_reader, _) inspector"
  let ?R = "toc_read_ops ?X"
  obtain dir ids sch schemas' sdir sreal where dir: "dx_directory X key = Inr (dir, ids)"
    and hr: "new_handler (dx_paths X) (gl_disk g) (dx_version X) (dx_useSubToc X) dir = Inr hr" and ids: "ids_enabled ids IdRetrieve"
    and en: "toc_enabled (dx_paths X) (gl_disk g) hr IdRetrieve = Inr True" and toc: "path_exists (gl_disk g) (th_tocPath hr)"
    and sch: "schema_get (dx_parse X) (po_join (dx_paths X) (th_directory hr) ''schema'') (gl_schemas g) = Inr (sch, schemas')"
    and sdir: "dx_storeDirectory X key = Inr sdir" "findRealPath (dx_paths X) (gl_disk g) sdir = Inr sreal"
    using ready unfolding readable_def by blast
  have same: "same_id hr (cr_handler r)" and cur: "cr_current r = new_key None"
    using load by (auto simp: loadIndexesAndRemap_def bindE_eq_Inr dest: loadIndexes_same_id)
  have paths: "cx_paths (C m) = dx_paths X" by (simp add: C_def)
  let ?r0 = "\<lparr>tr_key = key, tr_ids = ids, tr_reader = r, tr_schema = None, tr_store = None\<rparr>" and ?g1 = "g\<lparr>gl_stores := st1\<rparr>"
  let ?r1 = "?r0\<lparr>tr_schema := Some sch, tr_store := Some (new_toc_store sreal)\<rparr>" and ?g2 = "?g1\<lparr>gl_schemas := schemas'\<rparr>"
  let ?r2 = "?r1\<lparr>tr_reader := snd (reader_selectIndex ikey r)\<rparr>"
  let ?r3 = "?r2\<lparr>tr_reader := r2\<rparr>"
  have 1: "rd_build ?R key g = Inr (?r0, ?g1)"
    using dir hr load by (simp add: toc_read_ops_def toc_reader_build_def paths)
  have 2: "rd_enabled ?R (?r0, ?g1) = Inr True"
    using ids en same by (simp add: toc_read_ops_def toc_reader_enabled_def paths toc_enabled_def fullControlFilePath_def same_id_def)
  have 3: "rd_open ?R (?r0, ?g1) = Inr (True, ?r1, ?g2)"
    using toc sch sdir same by (simp add: toc_read_ops_def toc_reader_open_def reader_open_def paths same_id_def C_def)
  obtain i where ins: "insert_db L key ?r1 ?i0 = (0, i)" by (cases "lr_insert L (key_dict key) (in_fresh ?i0) (in_cache ?i0)") (auto simp: insert_db_def new_inspector_def)
  have ok: "inspector_ok ?R L (\<lambda>_. True) ?i0" by (rule inspector_ok_new [OF laws])
  have new: "lr_find L (key_dict key) (in_cache ?i0) = None" by (simp add: new_inspector_def lru_lawsD(1) [OF laws])
  have alive: "map_of (in_heap i) 0 = Some ?r1"
    using inspector_ok_insert [OF laws ok new ins] by (simp add: toc_read_ops_def)
  let ?s1 = "\<lparr>mr_inspector = i, mr_db = Some 0, mr_out = [], mr_world = ?g2\<rparr>"
  have db: "multi_selectDatabase ?R L key \<lparr>mr_inspector = ?i0, mr_db = None, mr_out = [], mr_world = g\<rparr> = Inr (True, ?s1)"
    using 1 2 3 new ins by (simp add: multi_selectDatabase_def open_reader_def)
  have idx: "multi_selectIndex ?R ikey ?s1 = Inr (True, put_db 0 ?r2 ?s1)"
    using sel alive
    by (simp add: multi_selectIndex_def current_db_def deref_def toc_read_ops_def toc_reader_selectIndex_def case_prod_beta)
  have now: "current_db (put_db 0 ?r2 ?s1) = Inr (0, ?r2)" "mr_world (put_db 0 ?r2 ?s1) = ?g2" "mr_out (put_db 0 ?r2 ?s1) = []"
    by (simp_all add: current_db_def put_db_def deref_def)
  have inspect: "rd_inspect ?R k (?r2, ?g2) = Inr (Some f, ?r3, ?g2\<lparr>gl_stores := st2\<rparr>)"
    using ret by (simp add: toc_read_ops_def toc_reader_inspect_def reader_retrieve_def C_def retrieve_loop_fuel)
  then have datum: "\<exists>s3. multi_selectDatum ?R k (put_db 0 ?r2 ?s1) = Inr (True, s3) \<and> mr_out s3 = [found_element ?R ?r3 k f]"
    using selectDatum_finds [OF now(1), of ?R k f, unfolded now(2), OF inspect] unfolding now(3) by simp
  have "cr_current r2 = ikey"
  proof -
    have "cr_current r2 = cr_current (snd (reader_selectIndex ikey r))"
      using ret by (auto simp: reader_retrieve_def dest: retrieve_loop_current)
    moreover have "\<not> key_eq (new_key None) ikey" using ikey by (auto simp: key_eq_def new_key_def key_empty_def)
    ultimately show ?thesis using cur by (simp add: reader_selectIndex_def Let_def)
  qed
  then have "found_element ?R ?r3 k f = field_element key ikey k (fd_location f) (fd_timestamp f)"
    by (simp add: found_element_def field_element_def toc_read_ops_def)
  then show ?thesis using db idx datum unfolding Let_def by auto
qed

lemma session_listed:
  fixes X :: "('u :: linorder, 'd, 's) db_env"
  assumes session: "data_session X h key sch ids ikey c rs n ks (xs @ (k, data) # ys) g"
    and last: "\<forall>(j, b) \<in> set ys. key_print (cx_ext (dx_cat X)) j \<noteq> key_print (cx_ext (dx_cat X)) k"
    and laws: "lru_laws L" and ready: "readable X rkey hr (gl_disk g) schemas"
    and hr: "th_directory hr = th_directory h" "th_tocPath hr = th_tocPath h"
  shows "\<exists>db1 g1 db2 g2 db3 g3 l. db_selectIndex X ikey (fresh_db h key sch ids, g) = Inr (db1, g1) \<and>
    db_archive_all X (xs @ (k, data) # ys) (db1, g1) = Inr (db2, g2) \<and> db_flush X (db2, g2) = Inr (db3, g3) \<and>
    location_data munge (ie_uris (cx_index (dx_cat X))) (gl_bytes g3) l = Inr data \<and>
    (\<forall>gr. world_ok (sx_world (gl_stores gr)) \<and> sx_trees (gl_stores gr) = sx_trees (gl_stores g3) \<and> gl_disk gr = gl_disk g3 \<and>
       gl_schemas gr = schemas \<longrightarrow> visitor_lists X L rkey ikey k l (gl_disk g) hr gr)"
proof -
  let ?U = "ie_uris (cx_index (dx_cat X))"
  have U: "file_path_law ?U" and "data \<noteq> []" and ikey: "\<not> key_empty ikey" and subs: "\<not> th_useSubToc h"
    using session by (simp_all add: data_session_def session_start_def Let_def)
  have new: "th_cache hr = None" "key_empty (th_parentKey hr)" "th_remapKey hr = new_key None"
    using ready by (auto simp: readable_def new_handler_def bindE_eq_Inr key_empty_def new_key_def)
  from data_session_archives [OF session last new(1,2) hr new(3)] obtain db1 g1 db2 g2 s2 l w3 d' st3 where
    run: "db_selectIndex X ikey (fresh_db h key sch ids, g) = Inr (db1, g1)"
      "db_archive_all X (xs @ (k, data) # ys) (db1, g1) = Inr (db2, g2)" "gl_disk g2 = gl_disk g" "cw_handler (db_catalogue db2) = h"
    and store: "db_store db2 = Some s2" "store_ok (s2, gl_bytes g2)" "stands ?U (view (s2, gl_bytes g2)) data l"
    and fl: "writer_flush (dx_cat X) (db_catalogue db2, gl_disk g2, gl_stores g2) = Inr (w3, d', st3)"
    and finds: "\<forall>st. world_ok (sx_world st) \<and> sx_trees st = sx_trees st3 \<longrightarrow>
       reader_finds (dx_cat X) hr ikey k (gl_disk g) d' (\<lambda>m. m = l) st" by blast
  from store_flush_view [OF store(2)] obtain s3 bs3 where
    sf: "store_flush (s2, gl_bytes g2) = (Inr (), s3, bs3)" "content bs3 = view (s2, gl_bytes g2)" by auto
  have reads: "location_data munge ?U bs3 l = Inr data"
    using stands_reads [OF U _ \<open>data \<noteq> []\<close>] store(3) sf(2) by metis
  let ?g3 = "g2\<lparr>gl_disk := d', gl_stores := st3, gl_bytes := bs3\<rparr>"
  have flush: "db_flush X (db2, g2) = Inr (db2\<lparr>db_catalogue := w3, db_store := Some s3\<rparr>, ?g3)"
    using store(1) sf(1) fl by (simp add: db_flush_def flush_store_def on_store_def on_catalogue_def)
  have same: "path_exists d' = path_exists (gl_disk g)" using flush_exists [OF fl] run(3,4) subs by simp
  have "visitor_lists X L rkey ikey k l (gl_disk g) hr gr"
    if gr: "world_ok (sx_world (gl_stores gr))" "sx_trees (gl_stores gr) = sx_trees st3" "gl_disk gr = d'" "gl_schemas gr = schemas" for gr
  proof -
    have ready': "readable X rkey hr (gl_disk gr) (gl_schemas gr)" using readable_exists [OF same, of X rkey hr schemas] ready by (simp add: gr)
    obtain N where N: "\<forall>m \<ge> N. \<forall>r0 st5. loadIndexesAndRemap ((dx_cat X)\<lparr>cx_fuel := m\<rparr>) (gl_disk g) hr (gl_stores gr) = Inr (r0, st5) \<longrightarrow>
        (\<exists>r st6 r' st7 f. loadIndexesAndRemap ((dx_cat X)\<lparr>cx_fuel := m\<rparr>) d' hr (gl_stores gr) = Inr (r, st6) \<and>
           fst (reader_selectIndex ikey r) \<and>
           reader_retrieve (dx_cat X) k (snd (reader_selectIndex ikey r)) st6 = Inr (Some f, r', st7) \<and> fd_location f = l)"
      using finds gr(1,2) unfolding reader_finds_def by blast
    show ?thesis unfolding visitor_lists_def
    proof (rule exI [of _ N], intro allI impI)
      fix m r0 st0
      assume "N \<le> m" and "loadIndexesAndRemap ((dx_cat X)\<lparr>cx_fuel := m\<rparr>) (gl_disk g) hr (gl_stores gr) = Inr (r0, st0)"
      with N obtain r st6 r' st7 f where r: "loadIndexesAndRemap ((dx_cat X)\<lparr>cx_fuel := m\<rparr>) d' hr (gl_stores gr) = Inr (r, st6)"
        "fst (reader_selectIndex ikey r)" "reader_retrieve (dx_cat X) k (snd (reader_selectIndex ikey r)) st6 = Inr (Some f, r', st7)"
        "fd_location f = l" by blast
      from reader_lists [OF laws ready' ikey r(1) [folded gr(3)] r(2,3)] r(4)
      show "\<exists>s1 s2 s3 ts. let R = toc_read_ops (X\<lparr>dx_cat := (dx_cat X)\<lparr>cx_fuel := m\<rparr>\<rparr>) in
           multi_selectDatabase R L rkey \<lparr>mr_inspector = new_inspector L, mr_db = None, mr_out = [], mr_world = gr\<rparr> = Inr (True, s1) \<and>
           multi_selectIndex R ikey s1 = Inr (True, s2) \<and> multi_selectDatum R k s2 = Inr (True, s3) \<and>
           mr_out s3 = [field_element rkey ikey k l ts]"
        unfolding Let_def by blast
    qed
  qed
  then have "\<forall>gr. world_ok (sx_world (gl_stores gr)) \<and> sx_trees (gl_stores gr) = sx_trees (gl_stores ?g3) \<and> gl_disk gr = gl_disk ?g3 \<and>
      gl_schemas gr = schemas \<longrightarrow> visitor_lists X L rkey ikey k l (gl_disk g) hr gr"
    by simp
  moreover have "location_data munge ?U (gl_bytes ?g3) l = Inr data" using reads by simp
  ultimately show ?thesis using run(1,2) flush by blast
qed

text \<open>
  C5: What was archived is listed. In a new database without sub tocs an index is selected, fields with at least one byte
  are archived under keys with the same keywords, whose values joined by colons have at most 32 characters and no NUL, and the
  database is flushed: every step succeeds. A process that reads the database afterwards, with the files
  as they then are, a registry of schemas of its own and a new inspector, gets to the database, to the index and to the
  field, and the element that it lists has these three keys and a location that reads as the bytes archived last.
\<close>
theorem archived_field_listed:
  fixes X :: "('u :: linorder, 'd, 's) db_env"
  assumes session: "data_session X h key sch ids ikey c rs n ks (xs @ (k, data) # ys) g"
    and last: "\<forall>(j, b) \<in> set ys. key_print (cx_ext (dx_cat X)) j \<noteq> key_print (cx_ext (dx_cat X)) k"
    and laws: "lru_laws L" and ready: "readable X rkey hr (gl_disk g) schemas"
    and hr: "th_directory hr = th_directory h" "th_tocPath hr = th_tocPath h"
  shows "\<exists>db1 g1 db2 g2 db3 g3 l. db_selectIndex X ikey (fresh_db h key sch ids, g) = Inr (db1, g1) \<and>
    db_archive_all X (xs @ (k, data) # ys) (db1, g1) = Inr (db2, g2) \<and> db_flush X (db2, g2) = Inr (db3, g3) \<and>
    location_data munge (ie_uris (cx_index (dx_cat X))) (gl_bytes g3) l = Inr data \<and>
    (\<forall>gr. world_ok (sx_world (gl_stores gr)) \<and> sx_trees (gl_stores gr) = sx_trees (gl_stores g3) \<and> gl_disk gr = gl_disk g3 \<and>
       gl_schemas gr = schemas \<longrightarrow> visitor_lists X L rkey ikey k l (gl_disk g) hr gr)"
  by (rule session_listed [OF assms])

section \<open>A run of the inspector\<close>

text \<open>A schema whose index and field have defaults, and a request that leaves them out.\<close>

definition default_schema :: schema where
  "default_schema = \<lparr>sch_types = [], sch_rules =
     [Rule 1 [\<lparr>pred_keyword = ''class'', pred_matcher = MatchAlways\<rparr>]
       [Rule 1 [\<lparr>pred_keyword = ''type'', pred_matcher = MatchOptional ''an''\<rparr>]
          [Rule 1 [\<lparr>pred_keyword = ''step'', pred_matcher = MatchOptional ''12''\<rparr>] [] []] []] []]\<rparr>"

definition default_preds :: "predicate \<Rightarrow> bool" where
  "default_preds p \<longleftrightarrow> p \<in> {\<lparr>pred_keyword = ''class'', pred_matcher = MatchAlways\<rparr>,
     \<lparr>pred_keyword = ''type'', pred_matcher = MatchOptional ''an''\<rparr>, \<lparr>pred_keyword = ''step'', pred_matcher = MatchOptional ''12''\<rparr>}"

definition class_request :: mars_request where
  "class_request = sample_request [(''class'', [''od''])]"

lemma run_read:
  assumes "\<And>reg. lookupType reg ''class'' = Inr TDefault \<Longrightarrow> ro_values W rq ''class'' reg s0 = Inr ([''od''], s0)"
    and "\<And>full. ro_selectDatabase W run_k0 full s0 = Inr (True, s1)" and "ro_databaseSchema W s1 = Inr default_schema"
    and "\<And>reg. lookupType reg ''type'' = Inr TDefault \<Longrightarrow> ro_values W rq ''type'' reg s1 = Inr ([], s1)"
    and "\<And>full. ro_selectIndex W run_ik full s1 = Inr (True, s2)"
    and "\<And>reg. lookupType reg ''step'' = Inr TDefault \<Longrightarrow> ro_values W rq ''step'' reg s2 = Inr ([], s2)"
    and "\<And>full. ro_selectDatum W run_dk full s2 = Inr (True, s3)"
  shows "schema_expand_read W default_schema rq s0 = Inr s3"
  using assms [unfolded default_schema_def]
  by (simp add: run_key_def schema_expand_read_def default_schema_def start_expansion_def key_eq_def build_type_def
      new_key_def push_level_def set_level_def set_registry_def push_key_def pred_match_def Let_def get_key_def pop_level_def
      pop_key_def dict_erase_def database_rule_def rule_match_def start_second_def assertE_def schema_registry_def key_find_def
      pred_optional_def pred_default_def)

lemma multi_values_absent:
  assumes "mr_db s = None \<or> current_db s = Inr ar" and "rq_values_ok rq n = []" and "lookupType reg n = Inr TDefault"
  shows "multi_values e R rq n reg s = Inr ([], s)"
proof -
  from assms(1) have "\<exists>db. (case mr_db s of None \<Rightarrow> Inr None | Some a \<Rightarrow> bindE (deref a (mr_inspector s)) (\<lambda>r. Inr (Some r))) = Inr db"
    by (auto simp: current_db_def bindE_eq_Inr split: option.splits)
  then obtain db where "(case mr_db s of None \<Rightarrow> Inr None | Some a \<Rightarrow> bindE (deref a (mr_inspector s)) (\<lambda>r. Inr (Some r))) = Inr db" ..
  then show ?thesis using assms(2,3) by (simp add: multi_values_def axis_filter_def no_wind_def get_values_plain_def Let_def)
qed

lemma multi_values_first:
  assumes "mr_db s = None" and "rq_values_ok rq n = vs" and "lookupType reg n = Inr TDefault"
  shows "multi_values e R rq n reg s = Inr (vs, s)"
proof -
  have "mapE (\<lambda>l. Inr (l, l) :: (string \<times> string) res) vs = Inr (map (\<lambda>l. (l, l)) vs)" by (induction vs) auto
  moreover have "map fst (filter (\<lambda>(l, v). True) (map (\<lambda>l. (l, l)) vs)) = (vs :: string list)" by (induction vs) auto
  ultimately show ?thesis
    using assms by (simp add: multi_values_def axis_filter_def no_wind_def get_values_plain_def Let_def)
qed

definition read_handler :: toc_handler where
  "read_handler = sample_handler\<lparr>th_dbUID := None\<rparr>"

definition run_db_env :: "nat \<Rightarrow> (string, string list, ref_trees) db_env" where
  "run_db_env m = (sample_db_env (\<lambda>b. 0))\<lparr>dx_parse := (\<lambda>p. Inr default_schema), dx_cat := session_env\<lparr>cx_fuel := m\<rparr>\<rparr>"

lemma run_readable: "readable ((sample_db_env (\<lambda>b. 0))\<lparr>dx_parse := (\<lambda>p. Inr default_schema)\<rparr>) run_k0 read_handler session_disk []"
proof -
  have "findRealPath sample_paths session_disk ''/db'' = Inr ''/db''"
    by (simp add: findRealPath_def path_exists_def session_disk_def sample_paths_def)
  then show ?thesis
    by (simp add: readable_def sample_db_env_def new_handler_def read_handler_def sample_handler_def toc_enabled_def control_file_def
      controlfile_lookup_def fullControlFilePath_def path_exists_def session_disk_def sample_paths_def ids_enabled_def schema_get_def)
qed

lemma read_loads:
  "\<exists>N r0. \<forall>m \<ge> N. loadIndexesAndRemap (session_env\<lparr>cx_fuel := m\<rparr>) session_disk read_handler st = Inr (r0, st)"
proof -
  let ?load = "toc_index_of_stream sample_index_env (cx_preload session_env) (cx_garbage session_env)"
  have h: "th_cache read_handler = None" "key_empty (th_parentKey read_handler)" "th_directory read_handler = ''/db''"
    "th_tocPath read_handler = ''/db/toc''" "th_remapKey read_handler = new_key None"
    by (simp_all add: read_handler_def sample_facts)
  have views: "toc_views sample_paths session_disk (od_dict_key ''od'') (Suc 0) ''/db'' ''/db/toc'' (new_key None) = []"
    by (simp add: toc_views_records session_toc Let_def)
  have "toc_wf sample_paths session_disk (od_dict_key ''od'') (Suc 0) ''/db'' ''/db/toc''"
    by (simp add: toc_wf_records session_toc sample_init_key)
  with load_all_views [of read_handler session_disk "[sample_init ''od'']" sample_paths "Suc 0" ?load st] od_key_facts(3) views
  obtain N h' where "\<And>m. m \<ge> N \<Longrightarrow> loadIndexes m sample_paths session_disk ?load read_handler st = Inr ([], {}, h', st)"
    by (auto simp: h session_toc sample_init_key view_subTocs_def)
  then have "\<forall>m \<ge> N. loadIndexesAndRemap (session_env\<lparr>cx_fuel := m\<rparr>) session_disk read_handler st =
      Inr (\<lparr>cr_handler = h', cr_indexes = [], cr_matching = [], cr_current = new_key None\<rparr>, st)"
    by (simp add: loadIndexesAndRemap_def)
  then show ?thesis by blast
qed

lemma run_canon: "\<forall>n v. key_find run_ik n = Some v \<longrightarrow> canonicalise ref_ext run_ik n v = Inr v"
  using run_keys(3) by blast

lemma store_of_parse: "store_of (X\<lparr>dx_parse := f\<rparr>) g db = store_of X g db"
  unfolding store_of_def by (auto split: option.split)

lemma run_write_session:
  "data_session ((sample_db_env (\<lambda>b. 0))\<lparr>dx_parse := (\<lambda>p. Inr default_schema)\<rparr>) run_handler run_k0 trivial_schema 0 run_ik
     tree_32_65536_reduced [sample_init ''od''] 0 {''step''} ([] @ (run_dk, [1, 2, 3]) # []) (sample_globals\<lparr>gl_schemas := []\<rparr>)"
proof -
  have k0: "key_dict run_k0 = [(''class'', ''od'')]" by (simp add: run_key_def)
  have kds: "\<forall>(j, d) \<in> set ([] @ (run_dk, [1, 2, 3 :: 8 word]) # []). good_key ref_ext {''step''} j \<and> d \<noteq> []" using run_keys(6) by simp
  from run_data_session [OF k0 run_keys(1,2) run_canon run_keys(5,4) kds, of "\<lambda>b. 0" "[]"]
  show ?thesis by (simp add: data_session_def store_of_parse Let_def)
qed

text \<open>What the run writes, and what an inspector then lists.\<close>

lemma run_listed:
  "\<exists>db1 g1 db2 g2 db3 g3 l m gr ts s1 s2 s3.
     let X = (sample_db_env (\<lambda>b. 0))\<lparr>dx_parse := (\<lambda>p. Inr default_schema)\<rparr>; R = toc_read_ops (run_db_env m) in
     db_selectIndex X run_ik (fresh_db run_handler run_k0 trivial_schema 0, sample_globals\<lparr>gl_schemas := []\<rparr>) = Inr (db1, g1) \<and>
     db_archive_all X [(run_dk, [1, 2, 3])] (db1, g1) = Inr (db2, g2) \<and> db_flush X (db2, g2) = Inr (db3, g3) \<and>
     location_data (\<lambda>k b. Inr b) ref_uri_ops (gl_bytes g3) l = Inr [1, 2, 3] \<and> gl_disk gr = gl_disk g3 \<and> gl_schemas gr = [] \<and>
     multi_selectDatabase R (ref_lru 15) run_k0 \<lparr>mr_inspector = new_inspector (ref_lru 15), mr_db = None, mr_out = [], mr_world = gr\<rparr> =
       Inr (True, s1) \<and>
     multi_selectIndex R run_ik s1 = Inr (True, s2) \<and> multi_selectDatum R run_dk s2 = Inr (True, s3) \<and>
     mr_out s3 = [field_element run_k0 run_ik run_dk l ts]"
proof -
  let ?X = "(sample_db_env (\<lambda>b. 0))\<lparr>dx_parse := (\<lambda>p. Inr default_schema)\<rparr>"
  have last: "\<forall>(j, b) \<in> set ([] :: (key \<times> bytes) list).
      key_print (cx_ext (dx_cat ?X)) j \<noteq> key_print (cx_ext (dx_cat ?X)) run_dk" by simp
  have ready: "readable ?X run_k0 read_handler (gl_disk (sample_globals\<lparr>gl_schemas := []\<rparr>)) []" using run_readable by simp
  have h: "th_directory read_handler = th_directory run_handler" "th_tocPath read_handler = th_tocPath run_handler"
    by (simp_all add: read_handler_def run_handler_def)
  from session_listed [OF run_write_session last ref_lru_laws [of 15] ready h, of "\<lambda>k b. Inr b"] obtain db1 g1 db2 g2 db3 g3 l where
    run: "db_selectIndex ?X run_ik (fresh_db run_handler run_k0 trivial_schema 0, sample_globals\<lparr>gl_schemas := []\<rparr>) = Inr (db1, g1)"
      "db_archive_all ?X [(run_dk, [1, 2, 3])] (db1, g1) = Inr (db2, g2)" "db_flush ?X (db2, g2) = Inr (db3, g3)"
    and loc: "location_data (\<lambda>k b. Inr b) ref_uri_ops (gl_bytes g3) l = Inr [1, 2, 3]"
    and lists: "\<And>gr. world_ok (sx_world (gl_stores gr)) \<and> sx_trees (gl_stores gr) = sx_trees (gl_stores g3) \<and> gl_disk gr = gl_disk g3 \<and>
       gl_schemas gr = [] \<Longrightarrow> visitor_lists ?X (ref_lru 15) run_k0 run_ik run_dk l session_disk read_handler gr"
    by (elim exE conjE) auto
  have env: "dx_cat ?X = session_env" "?X\<lparr>dx_cat := session_env\<lparr>cx_fuel := m\<rparr>\<rparr> = run_db_env m" for m
    by (simp_all add: run_db_env_def)
  let ?gr = "g3\<lparr>gl_stores := (gl_stores g3)\<lparr>sx_world := sample_world\<rparr>, gl_schemas := []\<rparr>"
  have "visitor_lists ?X (ref_lru 15) run_k0 run_ik run_dk l session_disk read_handler ?gr"
    by (rule lists) (use sample_world_ok(1) in simp)
  then obtain N where N: "\<forall>m \<ge> N. \<forall>r0 st0. loadIndexesAndRemap (session_env\<lparr>cx_fuel := m\<rparr>) session_disk read_handler (gl_stores ?gr) = Inr (r0, st0) \<longrightarrow>
      (\<exists>s1 s2 s3 ts. let R = toc_read_ops (run_db_env m) in
         multi_selectDatabase R (ref_lru 15) run_k0 \<lparr>mr_inspector = new_inspector (ref_lru 15), mr_db = None, mr_out = [], mr_world = ?gr\<rparr> = Inr (True, s1) \<and>
         multi_selectIndex R run_ik s1 = Inr (True, s2) \<and> multi_selectDatum R run_dk s2 = Inr (True, s3) \<and>
         mr_out s3 = [field_element run_k0 run_ik run_dk l ts])"
    unfolding visitor_lists_def env by blast
  obtain M r0 where "\<forall>m \<ge> M. loadIndexesAndRemap (session_env\<lparr>cx_fuel := m\<rparr>) session_disk read_handler (gl_stores ?gr) = Inr (r0, gl_stores ?gr)"
    using read_loads [of "gl_stores ?gr"] by blast
  then have "loadIndexesAndRemap (session_env\<lparr>cx_fuel := max M N\<rparr>) session_disk read_handler (gl_stores ?gr) = Inr (r0, gl_stores ?gr)"
    by simp
  from N [rule_format, OF max.cobounded2 this] obtain s1 s2 s3 ts where
    "let R = toc_read_ops (run_db_env (max M N)) in
       multi_selectDatabase R (ref_lru 15) run_k0 \<lparr>mr_inspector = new_inspector (ref_lru 15), mr_db = None, mr_out = [], mr_world = ?gr\<rparr> = Inr (True, s1) \<and>
       multi_selectIndex R run_ik s1 = Inr (True, s2) \<and> multi_selectDatum R run_dk s2 = Inr (True, s3) \<and>
       mr_out s3 = [field_element run_k0 run_ik run_dk l ts]" by blast
  moreover have "gl_disk ?gr = gl_disk g3" "gl_schemas ?gr = []" by simp_all
  ultimately show ?thesis using run loc unfolding Let_def by blast
qed


lemma archived_field_listed_witness:
  "\<exists>db1 g1 db2 g2 db3 g3 l. 
     db_selectIndex ((sample_db_env (\<lambda>b. 0))\<lparr>dx_parse := (\<lambda>p. Inr default_schema)\<rparr>) run_ik
       (fresh_db run_handler run_k0 trivial_schema 0, sample_globals\<lparr>gl_schemas := []\<rparr>) = Inr (db1, g1) \<and>
     db_archive_all ((sample_db_env (\<lambda>b. 0))\<lparr>dx_parse := (\<lambda>p. Inr default_schema)\<rparr>) [(run_dk, [1, 2, 3])] (db1, g1) = Inr (db2, g2) \<and>
     db_flush ((sample_db_env (\<lambda>b. 0))\<lparr>dx_parse := (\<lambda>p. Inr default_schema)\<rparr>) (db2, g2) = Inr (db3, g3) \<and>
     location_data (\<lambda>k b. Inr b) ref_uri_ops (gl_bytes g3) l = Inr [1, 2, 3] \<and>
     visitor_lists ((sample_db_env (\<lambda>b. 0))\<lparr>dx_parse := (\<lambda>p. Inr default_schema)\<rparr>) (ref_lru 15) run_k0 run_ik run_dk l session_disk
       read_handler (g3\<lparr>gl_stores := (gl_stores g3)\<lparr>sx_world := sample_world\<rparr>, gl_schemas := []\<rparr>)"
proof -
  let ?X = "(sample_db_env (\<lambda>b. 0))\<lparr>dx_parse := (\<lambda>p. Inr default_schema)\<rparr>"
  have last: "\<forall>(j, b) \<in> set ([] :: (key \<times> bytes) list).
      key_print (cx_ext (dx_cat ?X)) j \<noteq> key_print (cx_ext (dx_cat ?X)) run_dk" by simp
  have ready: "readable ?X run_k0 read_handler (gl_disk (sample_globals\<lparr>gl_schemas := []\<rparr>)) []" using run_readable by simp
  have h: "th_directory read_handler = th_directory run_handler" "th_tocPath read_handler = th_tocPath run_handler"
    by (simp_all add: read_handler_def run_handler_def)
  have world: "world_ok (sx_world ((gl_stores g)\<lparr>sx_world := sample_world\<rparr>))" for g :: "(string list, ref_trees) globals"
    using sample_world_ok(1) by simp
  from archived_field_listed [OF run_write_session last ref_lru_laws [of 15] ready h, of "\<lambda>k b. Inr b"] world show ?thesis
    by (elim exE conjE) (fastforce)
qed

lemma run_inspects:
  "\<exists>m g i' g' l ts. gl_schemas g = [] \<and>
     inspector_inspect ref_ext (toc_read_ops (run_db_env m)) (ref_lru 15) default_schema class_request (new_inspector (ref_lru 15), g) =
       Inr (Async [field_element run_k0 run_ik run_dk l ts] None, i', g') \<and>
     (\<exists>k a. lr_find (ref_lru 15) k (in_cache i') = Some a)"
proof -
  let ?rq = class_request
  from run_listed obtain m gr s1 s2 s3 l ts where schemas: "gl_schemas gr = []" and
    db: "multi_selectDatabase (toc_read_ops (run_db_env m)) (ref_lru 15) run_k0
      \<lparr>mr_inspector = new_inspector (ref_lru 15), mr_db = None, mr_out = [], mr_world = gr\<rparr> = Inr (True, s1)"
    and idx: "multi_selectIndex (toc_read_ops (run_db_env m)) run_ik s1 = Inr (True, s2)"
    and datum: "multi_selectDatum (toc_read_ops (run_db_env m)) run_dk s2 = Inr (True, s3)"
    and out: "mr_out s3 = [field_element run_k0 run_ik run_dk l ts]"
    unfolding Let_def by blast
  let ?R = "toc_read_ops (run_db_env m)" and ?s0 = "\<lparr>mr_inspector = new_inspector (ref_lru 15), mr_db = None, mr_out = [], mr_world = gr\<rparr>"
  let ?K = "schemas_known (run_db_env m) (\<lambda>s. s = default_schema)"
  let ?ok = "visit_ok ?R (ref_lru 15) ?K (\<lambda>s. s = default_schema) (\<lambda>_ _. True)"
  have rq: "rq_values_ok ?rq ''class'' = [''od'']" "rq_values_ok ?rq ''type'' = []" "rq_values_ok ?rq ''step'' = []"
    by (simp_all add: class_request_def sample_request_def)
  have all: "within (\<lambda>_ _. True) k" for k by (simp add: within_def)
  have K: "?K gr" by (simp add: schemas_known_def schemas run_db_env_def)
  then have "?ok 0 ?s0" by (simp add: visit_ok_def pointing_def inspector_ok_new ref_lru_laws)
  from toc_read.selectDatabase_ok [OF ref_lru_laws this all db] have ok1: "?ok 1 s1" by simp
  from toc_read.selectIndex_ok [OF this all idx] have ok2: "?ok 2 s2" by simp
  have "\<exists>k a. lr_find (ref_lru 15) k (in_cache (mr_inspector s3)) = Some a"
    using toc_read.selectDatum_ok [OF ok2 all datum] by (auto simp: visit_ok_def pointing_def split: option.splits)
  moreover
  obtain r1 where r1: "current_db s1 = Inr r1" using idx by (auto simp: multi_selectIndex_def bindE_eq_Inr)
  obtain r2 where r2: "current_db s2 = Inr r2" using datum by (auto simp: multi_selectDatum_def bindE_eq_Inr)
  have sch: "rd_schema ?R (snd r1) = Inr default_schema"
    using toc_read.current_dbD(2) [OF ok1, of "fst r1" "snd r1"] r1 ok1 unfolding visit_ok_def inspector_ok_def by fastforce
  have "schema_expand_read (multi_visitor ref_ext ?R (ref_lru 15)) default_schema ?rq ?s0 = Inr s3"
  proof (rule run_read)
    show "ro_values (multi_visitor ref_ext ?R (ref_lru 15)) ?rq ''class'' reg ?s0 = Inr ([''od''], ?s0)" if "lookupType reg ''class'' = Inr TDefault" for reg
      using multi_values_first [OF _ rq(1) that, of ?s0] by (simp add: multi_visitor_def)
    show "ro_values (multi_visitor ref_ext ?R (ref_lru 15)) ?rq ''type'' reg s1 = Inr ([], s1)" if "lookupType reg ''type'' = Inr TDefault" for reg
      using multi_values_absent [OF disjI2 [OF r1] rq(2) that] by (simp add: multi_visitor_def)
    show "ro_values (multi_visitor ref_ext ?R (ref_lru 15)) ?rq ''step'' reg s2 = Inr ([], s2)" if "lookupType reg ''step'' = Inr TDefault" for reg
      using multi_values_absent [OF disjI2 [OF r2] rq(3) that] by (simp add: multi_visitor_def)
    show "ro_databaseSchema (multi_visitor ref_ext ?R (ref_lru 15)) s1 = Inr default_schema"
      using sch r1 by (simp add: multi_visitor_def case_prod_beta)
  qed (use db idx datum in \<open>simp_all add: multi_visitor_def\<close>)
  then have "inspector_inspect ref_ext ?R (ref_lru 15) default_schema ?rq (new_inspector (ref_lru 15), gr) =
      Inr (Async [field_element run_k0 run_ik run_dk l ts] None, mr_inspector s3, mr_world s3)"
    by (simp add: inspector_inspect_def out)
  ultimately show ?thesis using schemas by blast
qed

lemma default_schema_within: "schema_within default_preds default_schema"
  by (simp add: schema_within_def default_schema_def default_preds_def)

lemma run_inspected:
  assumes "gl_schemas g = []"
  shows "inspected ref_ext (toc_read_ops (run_db_env m)) L default_schema
    (schemas_known (run_db_env m) (schema_within default_preds)) (new_inspector L) g"
proof -
  have "schemas_known (run_db_env m) (schema_within default_preds) g"
    using assms by (simp add: schemas_known_def run_db_env_def default_schema_within)
  then show ?thesis using inspected.fresh [where K = "schemas_known (run_db_env m) (schema_within default_preds)"] by blast
qed

lemma inspector_lists_requested_witness:
  "\<exists>m g i' g' l ts. let R = toc_read_ops (run_db_env m) in
     inspector_inspect ref_ext R (ref_lru 15) default_schema class_request (new_inspector (ref_lru 15), g) =
       Inr (Async [field_element run_k0 run_ik run_dk l ts] None, i', g') \<and>
     delivered R (wanted ref_ext default_preds class_request) (field_element run_k0 run_ik run_dk l ts)"
proof -
  from run_inspects obtain m g i' g' l ts where schemas: "gl_schemas g = []"
    and run: "inspector_inspect ref_ext (toc_read_ops (run_db_env m)) (ref_lru 15) default_schema class_request (new_inspector (ref_lru 15), g) =
      Inr (Async [field_element run_k0 run_ik run_dk l ts] None, i', g')" by blast
  from inspector_lists_requested [OF run_inspected [OF schemas] ref_lru_laws default_schema_within run]
  have "delivered (toc_read_ops (run_db_env m)) (wanted ref_ext default_preds class_request) (field_element run_k0 run_ik run_dk l ts)"
    by simp
  with run show ?thesis unfolding Let_def by blast
qed

lemma cached_databases_alive_witness:
  "\<exists>m i g k a r. inspected ref_ext (toc_read_ops (run_db_env m)) (ref_lru 15) default_schema
      (schemas_known (run_db_env m) (schema_within default_preds)) i g \<and>
     lr_find (ref_lru 15) k (in_cache i) = Some a \<and> deref a i = Inr r \<and> key_dict (tr_key r) = k"
proof -
  from run_inspects obtain m g i' g' it k a where schemas: "gl_schemas g = []"
    and run: "inspector_inspect ref_ext (toc_read_ops (run_db_env m)) (ref_lru 15) default_schema class_request
      (new_inspector (ref_lru 15), g) = Inr (it, i', g')" and found: "lr_find (ref_lru 15) k (in_cache i') = Some a" by blast
  have reach: "inspected ref_ext (toc_read_ops (run_db_env m)) (ref_lru 15) default_schema
      (schemas_known (run_db_env m) (schema_within default_preds)) i' g'"
    by (rule inspected.request [OF run_inspected [OF schemas] run])
  from cached_databases_alive [OF reach ref_lru_laws default_schema_within found] reach found show ?thesis by blast
qed

end
