(* ===== verification/FDB_Wipe.thy ===== *)
theory FDB_Wipe
  imports FDB_Session
begin

text \<open>
  Wiping a database: \<open>src/fdb5/toc/TocWipeVisitor.cc\<close> with its base \<open>src/fdb5/database/WipeVisitor.h\<close>, the visitor of
  \<open>src/fdb5/api/local/WipeVisitor.cc\<close> that makes one for each database, and what they call of \<open>TocCatalogue.cc\<close>
  (\<open>visitEntries\<close>, \<open>remove\<close>, \<open>maskIndexEntry\<close>), \<open>TocStore.cc\<close> (\<open>remove\<close>) and \<open>TocHandler.cc\<close>
  (\<open>enumerateMasked\<close>). The visitor only collects sets of paths until the catalogue is complete; what it does to the
  files then is a computation whose state survives an exception, because a wipe that stops half way has
  deleted what it has deleted. The theorems say which files a wipe may delete, which it must, and when it refuses.
\<close>

section \<open>Directories\<close>

text \<open>
  What the code asks of the file system, beside the existence of a path: \<open>PathName::sameAs\<close> and \<open>PathName::isDir\<close>, the names that
  \<open>readdir\<close> gives (none when \<open>opendir\<close> fails), \<open>lstat\<close> with whether it is a directory (none when it fails), and whether
  \<open>unlink\<close> or \<open>rmdir\<close> of an existing path fails.
\<close>

record dir_ops =
  do_sameAs :: "disk \<Rightarrow> string \<Rightarrow> string \<Rightarrow> bool"
  do_isDir :: "disk \<Rightarrow> string \<Rightarrow> bool"
  do_readdir :: "disk \<Rightarrow> string \<Rightarrow> string list option"
  do_lstat :: "disk \<Rightarrow> string \<Rightarrow> bool option"
  do_fails :: "disk \<Rightarrow> string \<Rightarrow> bool"

text \<open>\<open>StdDir::children\<close>: a path comes after all its children; the depth of the directories bounds the fuel.\<close>

fun children :: "dir_ops \<Rightarrow> path_ops \<Rightarrow> disk \<Rightarrow> nat \<Rightarrow> string \<Rightarrow> string list res" where
  "children D P d 0 path = Inl (LibraryError ''fuel'')"
| "children D P d (Suc n) path =
     (case do_readdir D d path of
        None \<Rightarrow> Inl (SeriousBug ''Failed to open directory'')
      | Some names \<Rightarrow>
          foldE (\<lambda>name paths.
              if name = ''.'' \<or> name = ''..'' then Inr paths
              else
                (let p = po_join P path name in
                 case do_lstat D d p of
                   None \<Rightarrow> Inl (IOError ''lstat'')
                 | Some isDir \<Rightarrow>
                     bindE (if isDir then children D P d n p else Inr []) (\<lambda>below. Inr (paths @ below @ [p]))))
            names [])"

definition erase_path :: "string \<Rightarrow> disk \<Rightarrow> disk" where
  "erase_path path d = d\<lparr>dk_tocs := dict_erase path (dk_tocs d), dk_files := removeAll path (dk_files d)\<rparr>"

section \<open>The masked entries of a table of contents\<close>

text \<open>
  \<open>enumerateMasked\<close>: the paths and offsets of the metadata, and the data files. The URI of a piece of metadata has
  always the scheme \<open>toc\<close>.
\<close>

type_synonym 'u masked_paths = "(string \<times> nat) set \<times> 'u set"

definition masked_path :: "path_ops \<Rightarrow> disk \<Rightarrow> toc_handler \<Rightarrow> string \<Rightarrow> string res" where
  "masked_path P d h path =
     bindE (assertE (path \<noteq> []) ''entry.first.path().size() > 0'') (\<lambda>_.
       if hd path = CHR ''/'' then
         Inr (if path_exists d path then path else po_join P (th_directory h) (po_base P path))
       else Inr (po_join P (th_directory h) path))"

text \<open>What the loops do with an index of a masked sub toc, and with an index whose entry is masked.\<close>

definition add_loaded :: "('u :: linorder) toc_index loaded list \<Rightarrow> 'u masked_paths \<Rightarrow> 'u masked_paths" where
  "add_loaded ls = (\<lambda>(metadata, data).
     (metadata \<union> (\<lambda>l. (tx_path (ld_index l), 0)) ` set ls, data \<union> (\<Union>l \<in> set ls. set (toc_dataPaths (ld_index l)))))"

definition masked_record ::
    "('u :: linorder, 'd, 's) cat_env \<Rightarrow> disk \<Rightarrow> toc_record \<Rightarrow> chain \<Rightarrow> 'u masked_paths \<times> ('d, 's) stores \<Rightarrow>
     ('u masked_paths \<times> ('d, 's) stores) res" where
  "masked_record X d r hs = (\<lambda>((metadata, data), st).
     if tr_tag r = TOC_INDEX then
       bindE (read_str (tr_payload r)) (\<lambda>(path, is).
       bindE (read_num is) (\<lambda>(offset, is).
       bindE (read_str is) (\<lambda>(type, is).
         let h = hd hs; absPath = po_join (cx_paths X) (th_directory h) path
         in if (po_base (cx_paths X) absPath, offset) \<in> th_masked h \<and> path_exists d absPath then
              bindE (toc_index_of_stream (cx_index X) False (cx_garbage X) (tr_version r) (th_directory h) absPath offset is st)
                (\<lambda>(index, st). Inr ((metadata, data \<union> set (toc_dataPaths index)), st))
            else Inr ((metadata, data), st))))
     else Inr ((metadata, data), st))"

definition internal_next :: next_record where
  "internal_next hs =
     (case hs of
        [] \<Rightarrow> Inl (LibraryError ''no handler'')
      | h # subs \<Rightarrow> bindE (readNextInternal h) (\<lambda>(r, h). Inr (r, h # subs)))"

text \<open>Each unit of fuel is a sub toc that is entered.\<close>

fun enumerateMasked ::
    "('u :: linorder, 'd, 's) cat_env \<Rightarrow> disk \<Rightarrow> nat \<Rightarrow> toc_handler \<Rightarrow> 'u masked_paths \<times> ('d, 's) stores \<Rightarrow>
     (toc_handler \<times> 'u masked_paths \<times> ('d, 's) stores) res" where
  "enumerateMasked X d 0 h found = Inl (LibraryError ''fuel'')"
| "enumerateMasked X d (Suc n) h found =
     bindE (if th_enumerated h then Inr h else populateMaskedEntriesList (cx_paths X) h) (\<lambda>h.
     bindE (foldE (\<lambda>(path, offset) ((metadata, data), st).
         bindE (masked_path (cx_paths X) d h path) (\<lambda>absPath.
           if \<not> path_exists d absPath then Inr ((metadata, data), st)
           else
             (let metadata = insert (absPath, offset) metadata in
              if take 4 (po_base (cx_paths X) absPath) = ''toc.'' then
                bindE (sub_handler (readNext (cx_paths X) d (cx_fuel X) default_flags) (cx_fuel X) (cx_paths X) d
                         (th_version h) absPath (th_remapKey h)) (\<lambda>sub.
                bindE (enumerateMasked X d n sub ((metadata, data), st)) (\<lambda>(sub, found, st).
                bindE (loadIndexes (cx_fuel X) (cx_paths X) d
                         (toc_index_of_stream (cx_index X) False (cx_garbage X)) sub st) (\<lambda>(indexes, subtocs, sub, st).
                  Inr (add_loaded indexes found, st))))
              else Inr ((metadata, data), st))))
       (sorted_list_of_set (th_masked h)) found) (\<lambda>found.
     bindE (openForRead d h) (\<lambda>h.
     bindE (scan internal_next (masked_record X d) (cx_fuel X) [h] found) (\<lambda>(found, hs).
       Inr (close_chain hs, found)))))"

section \<open>The visitor\<close>

text \<open>
  The constants of a visitor: the environment of its catalogue, the directories, \<open>MarsRequest::unsetValues\<close>, the catalogue's key,
  schema and control identifiers, the configured version and sub tocs of a handler, and the arguments of the constructor.
\<close>

record ('u, 'd, 's) wipe_env =
  wx_cat :: "('u, 'd, 's) cat_env"
  wx_dirs :: dir_ops
  wx_unset :: "string \<Rightarrow> mars_request \<Rightarrow> mars_request"
  wx_key :: key
  wx_schema :: schema
  wx_ids :: control_ids
  wx_version :: nat
  wx_useSubToc :: bool
  wx_request :: mars_request
  wx_doit :: bool
  wx_porcelain :: bool
  wx_unsafe :: bool

abbreviation wx_paths :: "('u, 'd, 's) wipe_env \<Rightarrow> path_ops" where
  "wx_paths W \<equiv> cx_paths (wx_cat W)"

abbreviation wx_fuel :: "('u, 'd, 's) wipe_env \<Rightarrow> nat" where
  "wx_fuel W \<equiv> cx_fuel (wx_cat W)"

abbreviation wx_toc :: "('u, 'd, 's) wipe_env \<Rightarrow> toc_env" where
  "wx_toc W \<equiv> cx_toc (wx_cat W)"

text \<open>The members; \<open>indexRequest_\<close> has no use before \<open>visitDatabase\<close> sets it, so what it starts with does not matter.\<close>

record 'u wipe_visitor =
  wv_entry :: entry_visitor
  wv_indexRequest :: mars_request
  wv_toc :: string
  wv_schema :: string
  wv_subtocs :: "string set"
  wv_lockfiles :: "string set"
  wv_indexes :: "string set"
  wv_data :: "string set"
  wv_safe :: "string set"
  wv_residual :: "string set"
  wv_toMask :: "'u toc_index list"

definition new_wipe_visitor :: "('u, 'd, 's) wipe_env \<Rightarrow> 'u wipe_visitor" where
  "new_wipe_visitor W =
     \<lparr>wv_entry = new_visitor, wv_indexRequest = wx_request W, wv_toc = '''', wv_schema = '''', wv_subtocs = {}, wv_lockfiles = {},
      wv_indexes = {}, wv_data = {}, wv_safe = {}, wv_residual = {}, wv_toMask = []\<rparr>"

definition catalogue_enabled :: "('u, 'd, 's) wipe_env \<Rightarrow> disk \<Rightarrow> toc_handler \<Rightarrow> control_id \<Rightarrow> bool res" where
  "catalogue_enabled W d h i =
     (if \<not> ids_enabled (wx_ids W) i then Inr False else toc_enabled (wx_paths W) d h i)"

definition wipe_visitDatabase ::
    "('u, 'd, 's) wipe_env \<Rightarrow> disk \<Rightarrow> toc_handler \<Rightarrow> 'u wipe_visitor \<Rightarrow> (bool \<times> 'u wipe_visitor) res" where
  "wipe_visitDatabase W d h v =
     bindE (catalogue_enabled W d h IdWipe) (\<lambda>enabled.
     bindE (assertE enabled ''catalogue.enabled(ControlIdentifier::Wipe)'') (\<lambda>_.
       let v = v\<lparr>wv_entry := snd (visitDatabase (wx_schema W, wx_key W) (wv_entry v))\<rparr> in
     bindE (assertE (wv_subtocs v = {}) ''subtocPaths_.empty()'') (\<lambda>_.
     bindE (assertE (wv_lockfiles v = {}) ''lockfilePaths_.empty()'') (\<lambda>_.
     bindE (assertE (wv_indexes v = {}) ''indexPaths_.empty()'') (\<lambda>_.
     bindE (assertE (wv_data v = {}) ''dataPaths_.empty()'') (\<lambda>_.
     bindE (assertE (wv_safe v = {}) ''safePaths_.empty()'') (\<lambda>_.
     bindE (assertE (wv_toMask v = []) ''indexesToMask_.empty()'') (\<lambda>_.
     bindE (assertE (wv_toc v = []) ''!tocPath_.asString().size()'') (\<lambda>_.
     bindE (assertE (wv_schema v = []) ''!schemaPath_.asString().size()'') (\<lambda>_.
       Inr (True, v\<lparr>wv_indexRequest := fold (\<lambda>(k, _). wx_unset W k) (key_dict (wx_key W)) (wx_request W)\<rparr>)))))))))))"

text \<open>Whether the directory of a path is that of the catalogue.\<close>

definition in_base :: "('u, 'd, 's) wipe_env \<Rightarrow> disk \<Rightarrow> toc_handler \<Rightarrow> string \<Rightarrow> bool" where
  "in_base W d h path \<longleftrightarrow> do_sameAs (wx_dirs W) d (po_dir (wx_paths W) path) (th_directory h)"

definition wipe_visitIndex ::
    "('u :: linorder, 'd, 's) wipe_env \<Rightarrow> disk \<Rightarrow> toc_handler \<Rightarrow> 'u toc_index \<Rightarrow> 'u wipe_visitor \<Rightarrow> (bool \<times> 'u wipe_visitor) res" where
  "wipe_visitIndex W d h index v =
     bindE (match_request (ib_key (tx_base index)) (wv_indexRequest v)) (\<lambda>matches.
       let location = tx_path index;
           include = (matches \<and> in_base W d h location)
       in bindE (assertE (in_base W d h location \<or> \<not> include) ''location.dirName().sameAs(basePath) || !include'') (\<lambda>_.
            let v = (if include then v\<lparr>wv_toMask := wv_toMask v @ [index], wv_indexes := insert location (wv_indexes v)\<rparr>
                     else v\<lparr>wv_safe := insert location (wv_safe v)\<rparr>)
            in Inr (True,
                 fold (\<lambda>uri v. let path = u_path (ie_uris (cx_index (wx_cat W))) uri in
                                if include \<and> in_base W d h path then v\<lparr>wv_data := insert path (wv_data v)\<rparr>
                                else v\<lparr>wv_safe := insert path (wv_safe v)\<rparr>)
                   (toc_dataPaths index) v)))"

definition addMaskedPaths ::
    "('u :: linorder, 'd, 's) wipe_env \<Rightarrow> disk \<Rightarrow> 'u wipe_visitor \<Rightarrow> toc_handler \<Rightarrow> ('d, 's) stores \<Rightarrow>
     ('u wipe_visitor \<times> toc_handler \<times> ('d, 's) stores) res" where
  "addMaskedPaths W d v h st =
     bindE (enumerateMasked (wx_cat W) d (wx_fuel W) h (({}, {}), st)) (\<lambda>(h, (metadata, data), st).
       let own = Set.filter (in_base W d h) (fst ` metadata);
           subtocs = Set.filter (\<lambda>p. take 4 (po_base (wx_paths W) p) = ''toc.'') own;
           uris = u_path (ie_uris (cx_index (wx_cat W))) ` data
       in Inr (v\<lparr>wv_subtocs := wv_subtocs v \<union> subtocs, wv_indexes := wv_indexes v \<union> (own - subtocs),
                  wv_data := wv_data v \<union> Set.filter (in_base W d h) uris\<rparr>, h, st))"

definition addMetadataPaths ::
    "('u, 'd, 's) wipe_env \<Rightarrow> disk \<Rightarrow> 'u wipe_visitor \<Rightarrow> toc_handler \<Rightarrow> ('u wipe_visitor \<times> toc_handler) res" where
  "addMetadataPaths W d v h =
     (let v = v\<lparr>wv_schema := po_join (wx_paths W) (th_directory h) ''schema'', wv_toc := th_tocPath h\<rparr>
      in bindE (subTocPaths (wx_fuel W) (wx_paths W) d h) (\<lambda>(subtocs, h).
           Inr (v\<lparr>wv_subtocs := wv_subtocs v \<union> set subtocs,
                   wv_lockfiles := wv_lockfiles v \<union> set (lockfilePaths (wx_paths W) d h)\<rparr>, h)))"

definition ensureSafePaths :: "'u wipe_visitor \<Rightarrow> 'u wipe_visitor" where
  "ensureSafePaths v =
     v\<lparr>wv_toc := (if wv_toc v \<in> wv_safe v then '''' else wv_toc v),
       wv_schema := (if wv_schema v \<in> wv_safe v then '''' else wv_schema v),
       wv_subtocs := wv_subtocs v - wv_safe v, wv_lockfiles := wv_lockfiles v - wv_safe v,
       wv_indexes := wv_indexes v - wv_safe v, wv_data := wv_data v - wv_safe v\<rparr>"

text \<open>The paths that are to go, and the members without those that do not exist.\<close>

definition deletePaths :: "'u wipe_visitor \<Rightarrow> string set" where
  "deletePaths v =
     wv_subtocs v \<union> wv_lockfiles v \<union> wv_indexes v \<union> wv_data v \<union>
     (if wv_toc v \<noteq> [] then {wv_toc v} else {}) \<union> (if wv_schema v \<noteq> [] then {wv_schema v} else {})"

definition drop_missing :: "disk \<Rightarrow> 'u wipe_visitor \<Rightarrow> 'u wipe_visitor" where
  "drop_missing d v =
     v\<lparr>wv_subtocs := Set.filter (path_exists d) (wv_subtocs v), wv_lockfiles := Set.filter (path_exists d) (wv_lockfiles v),
       wv_indexes := Set.filter (path_exists d) (wv_indexes v), wv_data := Set.filter (path_exists d) (wv_data v),
       wv_toc := (if wv_toc v \<noteq> [] \<and> \<not> path_exists d (wv_toc v) then '''' else wv_toc v),
       wv_schema := (if wv_schema v \<noteq> [] \<and> \<not> path_exists d (wv_schema v) then '''' else wv_schema v)\<rparr>"

definition calculateResidualPaths ::
    "('u, 'd, 's) wipe_env \<Rightarrow> disk \<Rightarrow> toc_handler \<Rightarrow> 'u wipe_visitor \<Rightarrow> 'u wipe_visitor res" where
  "calculateResidualPaths W d h v =
     (let v = drop_missing d v in
      bindE (children (wx_dirs W) (wx_paths W) d (wx_fuel W) (th_directory h)) (\<lambda>allPathsVector.
      bindE (assertE (wv_residual v = {}) ''residualPaths_.empty()'') (\<lambda>_.
        let allPaths = set allPathsVector in
        if deletePaths v = allPaths then Inr v
        else if deletePaths v - allPaths \<noteq> {} then
          Inl (SeriousBug ''Path to delete should be in existing path set. Are multiple wipe commands running simultaneously?'')
        else Inr (v\<lparr>wv_residual := allPaths - deletePaths v\<rparr>))))"

definition anythingToWipe :: "'u wipe_visitor \<Rightarrow> bool" where
  "anythingToWipe v \<longleftrightarrow>
     wv_subtocs v \<noteq> {} \<or> wv_lockfiles v \<noteq> {} \<or> wv_indexes v \<noteq> {} \<or> wv_data v \<noteq> {} \<or> wv_toMask v \<noteq> [] \<or>
     wv_toc v \<noteq> [] \<or> wv_schema v \<noteq> []"

section \<open>Deleting\<close>

text \<open>What a wipe works on: the handler of the catalogue, the files, the stores of the indexes, and the lines it prints.\<close>

record ('d, 's) wiped =
  wd_handler :: toc_handler
  wd_disk :: disk
  wd_stores :: "('d, 's) stores"
  wd_out :: "string list"

type_synonym ('d, 's, 'a) wipe_step = "(('d, 's) wiped, 'a) step"

definition eachS :: "('a \<Rightarrow> ('s, unit) step) \<Rightarrow> 'a list \<Rightarrow> ('s, unit) step" where
  "eachS f xs = foldS (\<lambda>x _. f x) xs ()"

definition print_lines :: "string list \<Rightarrow> ('d, 's, unit) wipe_step" where
  "print_lines ls = (\<lambda>w. (Inr (), w\<lparr>wd_out := wd_out w @ ls\<rparr>))"

text \<open>A call that may change the handler of the catalogue, and one that may change the files too.\<close>

definition on_catalogue :: "(disk \<Rightarrow> toc_handler \<Rightarrow> ('a \<times> toc_handler) res) \<Rightarrow> ('d, 's, 'a) wipe_step" where
  "on_catalogue f = (\<lambda>w.
     case f (wd_disk w) (wd_handler w) of
       Inl e \<Rightarrow> (Inl e, w)
     | Inr (x, h) \<Rightarrow> (Inr x, w\<lparr>wd_handler := h\<rparr>))"

definition on_files :: "(toc_handler \<times> disk \<Rightarrow> (toc_handler \<times> disk) res) \<Rightarrow> ('d, 's, unit) wipe_step" where
  "on_files f = (\<lambda>w.
     case f (wd_handler w, wd_disk w) of
       Inl e \<Rightarrow> (Inl e, w)
     | Inr (h, d) \<Rightarrow> (Inr (), w\<lparr>wd_handler := h, wd_disk := d\<rparr>))"

text \<open>
  \<open>TocCatalogue::remove\<close>, and \<open>TocStore::remove\<close> once the scheme of the URI is right, which the one caller makes it. A path that is
  not there is no error for \<open>unlink\<close> and \<open>rmdir\<close> of the library.
\<close>

definition remove_path :: "('u, 'd, 's) wipe_env \<Rightarrow> string \<Rightarrow> ('d, 's, unit) wipe_step" where
  "remove_path W path = (\<lambda>w.
     let verb = (if do_isDir (wx_dirs W) (wd_disk w) path then ''rmdir: '' else ''Unlinking: '');
         w = w\<lparr>wd_out := wd_out w @ [(if wx_porcelain W then '''' else verb) @ path]\<rparr>
     in if wx_doit W \<and> path_exists (wd_disk w) path then
          (if do_fails (wx_dirs W) (wd_disk w) path then (Inl (IOError path), w)
           else (Inr (), w\<lparr>wd_disk := erase_path path (wd_disk w)\<rparr>))
        else (Inr (), w))"

definition remove_existing :: "('u, 'd, 's) wipe_env \<Rightarrow> string \<Rightarrow> ('d, 's, unit) wipe_step" where
  "remove_existing W path = (\<lambda>w. if path_exists (wd_disk w) path then remove_path W path w else (Inr (), w))"

text \<open>\<open>TocCatalogue::maskIndexEntry\<close>, with a handler of its own.\<close>

definition index_print :: "'u toc_index \<Rightarrow> string" where
  "index_print i = ''TocIndex(path='' @ tx_path i @ '',offset='' @ show_nat (tx_offset i) @ '')''"

definition mask_index :: "('u, 'd, 's) wipe_env \<Rightarrow> 'u toc_index \<Rightarrow> ('d, 's, unit) wipe_step" where
  "mask_index W i =
     bindS (print_lines [(if wx_porcelain W then '''' else ''Index to mask: '') @ index_print i]) (\<lambda>_.
       if wx_doit W then
         on_files (\<lambda>(h, d).
           bindE (new_handler (wx_paths W) d (wx_version W) (wx_useSubToc W) (th_directory h)) (\<lambda>handler.
           bindE (writeClearRecord (wx_fuel W) (wx_paths W) (wx_toc W) (tx_path i) (tx_offset i) handler d) (\<lambda>(_, d).
             Inr (h, d))))
       else retS ())"

text \<open>
  The lock before a full wipe. The identifiers are checked one by one, and \<open>control\<close> checks the owner, as \<open>wipe\<close> has just done, before
  it makes a file.
\<close>

definition assert_disabled :: "('u, 'd, 's) wipe_env \<Rightarrow> control_id \<Rightarrow> string \<Rightarrow> ('d, 's, unit) wipe_step" where
  "assert_disabled W i msg =
     on_catalogue (\<lambda>d h. bindE (catalogue_enabled W d h i) (\<lambda>e. bindE (assertE (\<not> e) msg) (\<lambda>_. Inr ((), h))))"

definition lock_catalogue :: "('u, 'd, 's) wipe_env \<Rightarrow> ('d, 's, string list) wipe_step" where
  "lock_catalogue W =
     bindS (on_files (toc_control (wx_fuel W) (wx_paths W) (wx_toc W) Disable
              (ids_add (ids_add (ids_of IdList) IdRetrieve) IdArchive))) (\<lambda>_.
     bindS (assert_disabled W IdList ''!catalogue_.enabled(ControlIdentifier::List)'') (\<lambda>_.
     bindS (assert_disabled W IdRetrieve ''!catalogue_.enabled(ControlIdentifier::Retrieve)'') (\<lambda>_.
     bindS (assert_disabled W IdArchive ''!catalogue_.enabled(ControlIdentifier::Archive)'') (\<lambda>_.
       on_catalogue (\<lambda>d h. Inr (lockfilePaths (wx_paths W) d h, h))))))"

text \<open>
  \<open>wipe\<close>: sets are gone through in the order of their paths. The sets with the one path \<open>schemaPath_\<close> or \<open>tocPath_\<close> have the empty
  path when it was cleared.
\<close>

definition wipe_order :: "bool \<Rightarrow> string \<Rightarrow> 'u wipe_visitor \<Rightarrow> string list" where
  "wipe_order wipeAll base v =
     sorted_list_of_set (wv_indexes v) @ [wv_schema v] @ sorted_list_of_set (wv_subtocs v) @ [wv_toc v] @
     sorted_list_of_set (wv_lockfiles v) @ (if wipeAll then [base] else [])"

definition wipe :: "('u, 'd, 's) wipe_env \<Rightarrow> bool \<Rightarrow> 'u wipe_visitor \<Rightarrow> ('d, 's, unit) wipe_step" where
  "wipe W wipeAll v =
     bindS (liftS (assertE (anythingToWipe v) ''anythingToWipe()'')) (\<lambda>_.
     bindS (on_catalogue (\<lambda>d h. bindE (checkUID (wx_fuel W) (wx_paths W) (wx_toc W) d h) (\<lambda>h. Inr ((), h)))) (\<lambda>_.
     bindS (if wipeAll \<and> wx_doit W then lock_catalogue W else retS []) (\<lambda>locks.
       let v = v\<lparr>wv_lockfiles := wv_lockfiles v \<union> set locks\<rparr> in
     bindS (if wipeAll then retS () else eachS (mask_index W) (wv_toMask v)) (\<lambda>_.
     bindS (eachS (remove_existing W) (sorted_list_of_set (wv_residual v))) (\<lambda>_.
     bindS (eachS (remove_path W) (sorted_list_of_set (wv_data v))) (\<lambda>_.
       (\<lambda>w. eachS (remove_existing W) (wipe_order wipeAll (th_directory (wd_handler w)) v) w)))))))"

text \<open>The report, which a wipe prints for people.\<close>

definition report_paths :: "string \<Rightarrow> string \<Rightarrow> string list \<Rightarrow> string list" where
  "report_paths title none ps = [title] @ (if ps = [] then [none] else map (\<lambda>p. ''    '' @ p) ps) @ ['''']"

definition report_lines :: "'u wipe_visitor \<Rightarrow> string \<Rightarrow> string list" where
  "report_lines v owner =
     [''FDB owner: '' @ owner, ''''] @
     report_paths ''Toc files to delete:'' '' - NONE -'' (filter (\<lambda>p. p \<noteq> []) [wv_toc v] @ sorted_list_of_set (wv_subtocs v)) @
     report_paths ''Control files to delete:'' '' - NONE -'' (filter (\<lambda>p. p \<noteq> []) [wv_schema v] @ sorted_list_of_set (wv_lockfiles v)) @
     report_paths ''Index files to delete: '' '' - NONE -'' (sorted_list_of_set (wv_indexes v)) @
     report_paths ''Data files to delete: '' '' - NONE -'' (sorted_list_of_set (wv_data v)) @
     report_paths ''Protected files (explicitly untouched):'' '' - NONE - '' (sorted_list_of_set (wv_safe v)) @
     (if wv_safe v = {} then []
      else [''Indexes to mask:''] @
           (if wv_toMask v = [] then ['' - NONE - '']
            else map (\<lambda>i. ''    ('' @ tx_path i @ '':'' @ show_nat (tx_offset i) @ '')'') (wv_toMask v)))"

definition report :: "('u, 'd, 's) wipe_env \<Rightarrow> 'u wipe_visitor \<Rightarrow> ('d, 's, unit) wipe_step" where
  "report W v =
     bindS (liftS (assertE (anythingToWipe v) ''anythingToWipe()'')) (\<lambda>_.
     bindS (on_catalogue (dbUID (wx_fuel W) (wx_paths W))) (\<lambda>uid.
       print_lines (report_lines v (te_userName (wx_toc W) uid))))"

definition collect_metadata ::
    "('u :: linorder, 'd, 's) wipe_env \<Rightarrow> 'u wipe_visitor \<Rightarrow> ('d, 's, 'u wipe_visitor) wipe_step" where
  "collect_metadata W v = (\<lambda>w.
     case bindE (addMaskedPaths W (wd_disk w) v (wd_handler w) (wd_stores w)) (\<lambda>(v, h, st).
          bindE (addMetadataPaths W (wd_disk w) v h) (\<lambda>(v, h). Inr (v, h, st))) of
       Inl e \<Rightarrow> (Inl e, w)
     | Inr (v, h, st) \<Rightarrow> (Inr v, w\<lparr>wd_handler := h, wd_stores := st\<rparr>))"

definition forget_metadata :: "'u wipe_visitor \<Rightarrow> 'u wipe_visitor" where
  "forget_metadata v = v\<lparr>wv_subtocs := {}, wv_lockfiles := {}, wv_toc := '''', wv_schema := ''''\<rparr>"

definition refuse_unclean :: "('u, 'd, 's) wipe_env \<Rightarrow> 'u wipe_visitor \<Rightarrow> ('d, 's, unit) wipe_step" where
  "refuse_unclean W v =
     bindS (print_lines ([''Unexpected files present in directory: ''] @
              map (\<lambda>p. ''    '' @ p) (sorted_list_of_set (wv_residual v)) @ [''''])) (\<lambda>_.
       if wx_unsafe W then retS ()
       else bindS (print_lines [''Full wipe will not proceed without --unsafe-wipe-all'']) (\<lambda>_.
              if wx_doit W then failS (LibraryError ''Cannot fully wipe unclean TocDB'') else retS ()))"

definition wipe_catalogueComplete ::
    "('u :: linorder, 'd, 's) wipe_env \<Rightarrow> 'u wipe_visitor \<Rightarrow> ('d, 's, unit) wipe_step" where
  "wipe_catalogueComplete W v =
     bindS (liftS (catalogueComplete (wx_schema W, wx_key W) (wv_entry v))) (\<lambda>entry.
       let wipeAll = (wv_safe v = {}) in
     bindS (if wipeAll then collect_metadata W (v\<lparr>wv_entry := entry\<rparr>)
            else retS (forget_metadata (v\<lparr>wv_entry := entry\<rparr>))) (\<lambda>v.
       let v = ensureSafePaths v in
       if \<not> anythingToWipe v then retS ()
       else
         bindS (if wipeAll then (\<lambda>w. (calculateResidualPaths W (wd_disk w) (wd_handler w) v, w)) else retS v) (\<lambda>v.
         bindS (if wx_porcelain W then retS () else report W v) (\<lambda>_.
         bindS (if wipeAll \<and> wv_residual v \<noteq> {} then refuse_unclean W v else retS ()) (\<lambda>_.
           if wx_doit W \<or> wx_porcelain W then wipe W wipeAll v else retS ())))))"

section \<open>The visitor of the local client\<close>

text \<open>\<open>api/local/WipeVisitor.cc\<close>: its base, and \<open>internalVisitor_\<close>.\<close>

record 'u local_wipe =
  lw_entry :: entry_visitor
  lw_internal :: "'u wipe_visitor option"

definition local_internal :: "'u local_wipe \<Rightarrow> 'u wipe_visitor res" where
  "local_internal l =
     (case lw_internal l of None \<Rightarrow> Inl (AssertFailed ''internalVisitor_'') | Some v \<Rightarrow> Inr v)"

definition local_visitDatabase ::
    "('u, 'd, 's) wipe_env \<Rightarrow> disk \<Rightarrow> toc_handler \<Rightarrow> 'u local_wipe \<Rightarrow> (bool \<times> 'u local_wipe) res" where
  "local_visitDatabase W d h l =
     bindE (catalogue_enabled W d h IdWipe) (\<lambda>enabled.
       if \<not> enabled then Inr (False, l)
       else
         (let l = l\<lparr>lw_entry := snd (visitDatabase (wx_schema W, wx_key W) (lw_entry l))\<rparr>
          in bindE (assertE (lw_internal l = None) ''!internalVisitor_'') (\<lambda>_.
             bindE (wipe_visitDatabase W d h (new_wipe_visitor W)) (\<lambda>(_, v).
               Inr (True, l\<lparr>lw_internal := Some v\<rparr>)))))"

definition local_visitIndexes :: "'u local_wipe \<Rightarrow> bool res" where
  "local_visitIndexes l = bindE (local_internal l) (\<lambda>_. Inr True)"

definition local_visitIndex ::
    "('u :: linorder, 'd, 's) wipe_env \<Rightarrow> disk \<Rightarrow> toc_handler \<Rightarrow> 'u toc_index \<Rightarrow> 'u local_wipe \<Rightarrow> 'u local_wipe res" where
  "local_visitIndex W d h index l =
     bindE (local_internal l) (\<lambda>v.
     bindE (wipe_visitIndex W d h index v) (\<lambda>(_, v). Inr (l\<lparr>lw_internal := Some v\<rparr>)))"

definition local_catalogueComplete ::
    "('u :: linorder, 'd, 's) wipe_env \<Rightarrow> 'u local_wipe \<Rightarrow> ('d, 's, 'u local_wipe) wipe_step" where
  "local_catalogueComplete W l =
     bindS (liftS (local_internal l)) (\<lambda>v.
     bindS (wipe_catalogueComplete W v) (\<lambda>_. retS (l\<lparr>lw_internal := None\<rparr>)))"

text \<open>\<open>TocCatalogue::visitEntries\<close> with this visitor, which does not visit entries.\<close>

definition wipe_visitEntries ::
    "('u :: linorder, 'd, 's) wipe_env \<Rightarrow> 'u toc_index list \<Rightarrow> 'u local_wipe \<Rightarrow> ('d, 's, 'u local_wipe) wipe_step" where
  "wipe_visitEntries W all l = (\<lambda>w.
     let d = wd_disk w; h = wd_handler w in
     bindS (liftS (bindE (local_visitDatabase W d h l) (\<lambda>(explore, l).
       if \<not> explore then Inr l
       else bindE (local_visitIndexes l) (\<lambda>indexes.
              if indexes then foldE (local_visitIndex W d h) all l else Inr l))))
       (local_catalogueComplete W) w)"

text \<open>
  A database that \<open>EntryVisitMechanism::visit\<close> finds at a path: it is opened by \<open>DB::buildReader\<close> of the directory, without control
  identifiers of the roots, and visited. What the visitor works on is made from the files and stores, and given back to them.
\<close>

definition new_local_wipe :: "'u local_wipe" where
  "new_local_wipe = \<lparr>lw_entry = new_visitor, lw_internal = None\<rparr>"

definition open_wiped ::
    "(string \<Rightarrow> schema res) \<Rightarrow> ('u :: linorder, 'd, 's) wipe_env \<Rightarrow> string \<Rightarrow> disk \<Rightarrow> (string, schema) dict \<times> ('d, 's) stores \<Rightarrow>
     (('u, 'd, 's) wipe_env \<times> 'u cat_reader \<times> (string, schema) dict \<times> ('d, 's) stores) res" where
  "open_wiped parse W path d = (\<lambda>(schemas, st).
     bindE (new_handler (wx_paths W) d (wx_version W) (wx_useSubToc W) path) (\<lambda>h.
     bindE (databaseKey (wx_fuel W) (wx_paths W) d h) (\<lambda>(key, h).
     bindE (loadIndexesAndRemap (wx_cat W) d h st) (\<lambda>(r, st).
     bindE (reader_open parse (wx_cat W) d r schemas) (\<lambda>(s, schemas).
       case s of
         None \<Rightarrow> Inl (AssertFailed ''db->open()'')
       | Some s \<Rightarrow> Inr (W\<lparr>wx_key := key, wx_schema := s, wx_ids := ids_of IdNone\<rparr>, r, schemas, st))))))"

record ('d, 's) visited =
  vd_disk :: disk
  vd_stores :: "('d, 's) stores"
  vd_schemas :: "(string, schema) dict"
  vd_out :: "string list"

definition wipe_database ::
    "(string \<Rightarrow> schema res) \<Rightarrow> ('u :: linorder, 'd, 's) wipe_env \<Rightarrow> string \<Rightarrow> 'u local_wipe \<Rightarrow>
     (('d, 's) visited, 'u local_wipe) step" where
  "wipe_database parse W uri l = (\<lambda>g.
     if \<not> path_exists (vd_disk g) uri then (Inr l, g)
     else
       (let path = po_real (wx_paths W) (if do_isDir (wx_dirs W) (vd_disk g) uri then uri else po_dir (wx_paths W) uri) in
        case open_wiped parse W path (vd_disk g) (vd_schemas g, vd_stores g) of
          Inl e \<Rightarrow> (Inl e, g)
        | Inr (W, r, schemas, st) \<Rightarrow>
            (let (result, w) = wipe_visitEntries W (reader_indexes r False) l
                   \<lparr>wd_handler = cr_handler r, wd_disk = vd_disk g, wd_stores = st, wd_out = vd_out g\<rparr>
             in (result, \<lparr>vd_disk = wd_disk w, vd_stores = wd_stores w, vd_schemas = schemas, vd_out = wd_out w\<rparr>))))"

text \<open>\<open>visit\<close> over the locations that \<open>Manager::visitableLocations\<close> gives; an exception of any kind comes through.\<close>

definition wipe_visit ::
    "(string \<Rightarrow> schema res) \<Rightarrow> ('u :: linorder, 'd, 's) wipe_env \<Rightarrow> string list \<Rightarrow> (('d, 's) visited, 'u local_wipe) step" where
  "wipe_visit parse W uris = foldS (wipe_database parse W) uris new_local_wipe"

section \<open>What a step may do\<close>

text \<open>
  A relation \<open>R\<close> between the state before and after a step, whether it ends with a result or an exception, for the states in which \<open>I\<close>
  holds, and \<open>I\<close> stays. The locale \<open>step_relation\<close> is the contract of such a relation; its lemmas follow the combinators.
\<close>

definition obeys :: "('w \<Rightarrow> bool) \<Rightarrow> ('w \<Rightarrow> 'w \<Rightarrow> bool) \<Rightarrow> ('w, 'a) step \<Rightarrow> bool" where
  "obeys I R m \<longleftrightarrow> (\<forall>w r w'. I w \<longrightarrow> m w = (r, w') \<longrightarrow> I w' \<and> R w w')"

lemma obeysI: "(\<And>w r w'. I w \<Longrightarrow> m w = (r, w') \<Longrightarrow> I w' \<and> R w w') \<Longrightarrow> obeys I R m"
  by (auto simp: obeys_def)

lemma obeysD: "obeys I R m \<Longrightarrow> I w \<Longrightarrow> m w = (r, w') \<Longrightarrow> I w' \<and> R w w'"
  by (auto simp: obeys_def)

locale step_relation =
  fixes I :: "'w \<Rightarrow> bool" and R :: "'w \<Rightarrow> 'w \<Rightarrow> bool"
  assumes same: "R w w"
    and after: "R w w1 \<Longrightarrow> R w1 w2 \<Longrightarrow> R w w2"
begin

lemma pure: "obeys I R (retS x)" "obeys I R (failS e)" "obeys I R (liftS r)" "obeys I R (\<lambda>w. (f w, w))"
  by (auto simp: obeys_def same)

lemma bind_result:
  assumes m: "obeys I R m" and f: "\<And>x w w'. I w \<Longrightarrow> m w = (Inr x, w') \<Longrightarrow> obeys I R (f x)"
  shows "obeys I R (bindS m f)"
proof (rule obeysI)
  fix w r w'
  assume I: "I w" and run: "bindS m f w = (r, w')"
  show "I w' \<and> R w w'"
  proof (cases "m w")
    case (Pair q w1)
    with m I have w1: "I w1 \<and> R w w1" by (blast dest: obeysD)
    show ?thesis
    proof (cases q)
      case (Inl e)
      with run Pair w1 show ?thesis by simp
    next
      case (Inr x)
      with run Pair have "f x w1 = (r, w')" by simp
      with f [OF I, of x w1] Pair Inr w1 have "I w' \<and> R w1 w'" by (blast dest: obeysD)
      with w1 show ?thesis by (blast intro: after)
    qed
  qed
qed

lemma bind: "obeys I R m \<Longrightarrow> (\<And>x. obeys I R (f x)) \<Longrightarrow> obeys I R (bindS m f)"
  by (rule bind_result)

lemma fold: "(\<And>x y. x \<in> set xs \<Longrightarrow> obeys I R (f x y)) \<Longrightarrow> obeys I R (foldS f xs s)"
proof (induction xs arbitrary: s)
  case (Cons x xs)
  then show ?case by (auto intro!: bind)
qed (simp add: pure)

lemma each: "(\<And>x. x \<in> set xs \<Longrightarrow> obeys I R (f x)) \<Longrightarrow> obeys I R (eachS f xs)"
  unfolding eachS_def by (rule fold) blast

end

text \<open>What the steps of a wipe do to its state, with the set \<open>A\<close> of the paths that may go.\<close>

definition paths_stay :: "disk \<Rightarrow> disk \<Rightarrow> bool" where
  "paths_stay d d' \<longleftrightarrow> (\<forall>q. path_exists d q \<longrightarrow> path_exists d' q)"

lemma paths_stay_refl [simp]: "paths_stay d d"
  by (simp add: paths_stay_def)

lemma paths_stay_trans: "paths_stay a b \<Longrightarrow> paths_stay b c \<Longrightarrow> paths_stay a c"
  by (simp add: paths_stay_def)

lemma path_exists_erase: "path_exists (erase_path p d) q \<longleftrightarrow> q \<noteq> p \<and> path_exists d q"
  by (auto simp: path_exists_def erase_path_def)

lemma append_paths_stay: "paths_stay d (append_records h rs d)"
  by (auto simp: paths_stay_def path_exists_def append_records_def)

lemma checkUID_same_id: "checkUID n P v d h = Inr h' \<Longrightarrow> same_id h h'"
  using dbUID_same_id by (auto simp: checkUID_def bindE_eq_Inr split: if_splits)

lemma createControlFile_grows:
  "createControlFile n P v name (h, d) = Inr (h', d') \<Longrightarrow> same_id h h' \<and> paths_stay d d'"
  by (auto simp: createControlFile_def bindE_eq_Inr Let_def path_exists_def paths_stay_def dest: checkUID_same_id)

lemma disable_grows:
  assumes "toc_control n P v Disable ids (h, d) = Inr (h', d')"
  shows "same_id h h' \<and> paths_stay d d'"
proof -
  obtain ids where "foldE (control_step n P v Disable) ids (h, d) = Inr (h', d')"
    using assms by (auto simp: toc_control_def bindE_eq_Inr split: option.splits)
  then have "case (h', d') of (h', d') \<Rightarrow> same_id h h' \<and> paths_stay d d'"
    by (rule foldE_invariant [rotated 2])
      (auto simp: control_step_def bindE_eq_Inr dest!: createControlFile_grows intro: same_id_trans paths_stay_trans)
  then show ?thesis by simp
qed

lemma scan_head_id:
  assumes nx: "\<And>hs r hs'. nxt hs = Inr (r, hs') \<Longrightarrow> hs \<noteq> [] \<Longrightarrow> hs' \<noteq> [] \<and> same_id (hd hs) (hd hs')"
  shows "scan nxt step n hs s = Inr (s', hs') \<Longrightarrow> hs \<noteq> [] \<Longrightarrow> hs' \<noteq> [] \<and> same_id (hd hs) (hd hs')"
proof (induction n arbitrary: hs s)
  case (Suc n)
  obtain r hs1 where r: "nxt hs = Inr (r, hs1)"
    using Suc.prems(1) by (auto simp: bindE_eq_Inr)
  from nx [OF r Suc.prems(2)] have id1: "hs1 \<noteq> []" "same_id (hd hs) (hd hs1)" by auto
  show ?case
  proof (cases r)
    case None
    with Suc.prems(1) r id1 show ?thesis by auto
  next
    case (Some x)
    with Suc.prems(1) r obtain s1 where "scan nxt step n hs1 s1 = Inr (s', hs')" by (auto simp: bindE_eq_Inr)
    from Suc.IH [OF this id1(1)] id1 show ?thesis by (auto intro: same_id_trans)
  qed
qed simp

lemma readNext_chain:
  "readNext P d n flags hs = Inr (r, hs') \<Longrightarrow> hs \<noteq> [] \<Longrightarrow> hs' \<noteq> [] \<and> same_id (hd hs) (hd hs')"
  using readNext_same_id [of "hd hs" P d n flags "tl hs"] by (auto simp: keeps_def)

lemma internal_next_chain:
  "internal_next hs = Inr (r, hs') \<Longrightarrow> hs \<noteq> [] \<Longrightarrow> hs' \<noteq> [] \<and> same_id (hd hs) (hd hs')"
  by (cases hs) (auto simp: internal_next_def bindE_eq_Inr dest: internal_same_id)

lemma scan_readNext_same_id:
  "scan (readNext P d k flags) step n [h] s = Inr (s', hs') \<Longrightarrow> same_id h (hd hs')"
  using scan_head_id [OF readNext_chain] by fastforce

lemma scan_internal_same_id: "scan internal_next step n [h] s = Inr (s', hs') \<Longrightarrow> same_id h (hd hs')"
  using scan_head_id [OF internal_next_chain] by fastforce

lemma subTocPaths_same_id:
  assumes "subTocPaths n P d h = Inr (ps, h')"
  shows "same_id h h'"
proof -
  obtain h1 where h1: "openForRead d h = Inr h1"
    using assms by (auto simp: subTocPaths_def bindE_eq_Inr)
  with assms obtain hs where "scan (readNext P d n (default_flags\<lparr>rf_hideSubTocEntries := False\<rparr>))
              (\<lambda>r hs paths.
                 if tr_tag r = TOC_SUB_TOC then
                   bindE (assertE (tl hs \<noteq> []) ''subTocRead_'') (\<lambda>_. Inr (paths @ [currentTocPath hs]))
                 else if tr_tag r = TOC_CLEAR then
                   Inl (AssertFailed ''r->header_.tag_ != TocRecord::TOC_CLEAR'')
                 else Inr paths) n [h1] [] = Inr (ps, hs)" and "h' = hd hs"
    unfolding subTocPaths_def by (auto simp: bindE_eq_Inr close_chain_def)
  with openForRead_same_id [OF h1] show ?thesis by (auto dest: scan_readNext_same_id intro: same_id_trans)
qed

lemma enumerateMasked_same_id:
  assumes "enumerateMasked X d n h found = Inr (h', found')"
  shows "same_id h h'"
proof -
  obtain m where n: "n = Suc m" using assms by (cases n) auto
  obtain h1 where h1: "(if th_enumerated h then Inr h else populateMaskedEntriesList (cx_paths X) h) = Inr h1"
    using assms by (auto simp: n bindE_eq_Inr)
  then have id1: "same_id h h1" by (auto dest: populate_same_id split: if_splits)
  from assms h1 obtain h2 found2 hs where h2: "openForRead d h1 = Inr h2"
    and sc: "scan internal_next (masked_record X d) (cx_fuel X) [h2] found2 = Inr (found', hs)" and h': "h' = hd hs"
    unfolding n enumerateMasked.simps(2) h1 bindE.simps(2) by (fastforce simp only: bindE_eq_Inr close_chain_def sum.inject prod.inject prod.case split_paired_all)
  show ?thesis
    unfolding h' using id1 openForRead_same_id [OF h2] scan_internal_same_id [OF sc] by (blast intro: same_id_trans)
qed

locale quiet_relation = step_relation I R for I :: "('d, 's) wiped \<Rightarrow> bool" and R :: "('d, 's) wiped \<Rightarrow> ('d, 's) wiped \<Rightarrow> bool" +
  assumes printing: "I w \<Longrightarrow> I (w\<lparr>wd_out := out\<rparr>) \<and> R w (w\<lparr>wd_out := out\<rparr>)"
    and reading: "I w \<Longrightarrow> same_id (wd_handler w) h \<Longrightarrow>
      I (w\<lparr>wd_handler := h, wd_stores := st\<rparr>) \<and> R w (w\<lparr>wd_handler := h, wd_stores := st\<rparr>)"
begin

lemma print: "obeys I R (print_lines ls)"
  by (auto simp: obeys_def print_lines_def printing)

lemma handler: "I w \<Longrightarrow> same_id (wd_handler w) h \<Longrightarrow> I (w\<lparr>wd_handler := h\<rparr>) \<and> R w (w\<lparr>wd_handler := h\<rparr>)"
  using reading [of w h "wd_stores w"] by simp

lemma catalogue:
  assumes "\<And>d h x h'. f d h = Inr (x, h') \<Longrightarrow> same_id h h'"
  shows "obeys I R (on_catalogue f)"
proof (rule obeysI)
  fix w w' :: "('d, 's) wiped" and r
  assume "I w" and "on_catalogue f w = (r, w')"
  then show "I w' \<and> R w w'"
    by (auto simp: on_catalogue_def same split: sum.splits dest!: assms dest: handler)
qed

lemma disabled: "obeys I R (assert_disabled W i msg)"
  unfolding assert_disabled_def by (rule catalogue) (auto simp: bindE_eq_Inr)

lemma print_report: "obeys I R (report W v)"
  unfolding report_def by (intro bind pure catalogue print) (auto dest: dbUID_same_id)

lemma refuse: "obeys I R (refuse_unclean W v)"
  unfolding refuse_unclean_def by (auto intro!: bind print pure)

lemma collect: "obeys I R (collect_metadata W v)"
proof (rule obeysI)
  fix w w' :: "('d, 's) wiped" and r
  assume I: "I w" and run: "collect_metadata W v w = (r, w')"
  show "I w' \<and> R w w'"
  proof (cases "w' = w")
    case False
    with run have "\<exists>h st. same_id (wd_handler w) h \<and> w' = w\<lparr>wd_handler := h, wd_stores := st\<rparr>"
      by (auto simp: collect_metadata_def addMaskedPaths_def addMetadataPaths_def Let_def bindE_eq_Inr
          split: sum.splits dest!: enumerateMasked_same_id subTocPaths_same_id intro: same_id_trans)
    with I show ?thesis using reading by auto
  qed (simp add: same I)
qed

end

locale wipe_relation = quiet_relation I R for I :: "('d, 's) wiped \<Rightarrow> bool" and R :: "('d, 's) wiped \<Rightarrow> ('d, 's) wiped \<Rightarrow> bool" +
  fixes W :: "('u :: linorder, 'd, 's) wipe_env" and A :: "string set"
  assumes adding: "I w \<Longrightarrow> wx_doit W \<Longrightarrow> paths_stay (wd_disk w) d \<Longrightarrow> I (w\<lparr>wd_disk := d\<rparr>) \<and> R w (w\<lparr>wd_disk := d\<rparr>)"
    and removing: "I w \<Longrightarrow> wx_doit W \<Longrightarrow> p \<in> A \<Longrightarrow>
      I (w\<lparr>wd_disk := erase_path p (wd_disk w)\<rparr>) \<and> R w (w\<lparr>wd_disk := erase_path p (wd_disk w)\<rparr>)"
begin

lemma files:
  assumes "\<And>h d h' d'. f (h, d) = Inr (h', d') \<Longrightarrow> same_id h h' \<and> paths_stay d d'" and "wx_doit W"
  shows "obeys I R (on_files f)"
proof (rule obeysI)
  fix w w' :: "('d, 's) wiped" and r
  assume I: "I w" and run: "on_files f w = (r, w')"
  show "I w' \<and> R w w'"
  proof (cases "f (wd_handler w, wd_disk w)")
    case (Inl e)
    with run I show ?thesis by (simp add: on_files_def same)
  next
    case (Inr y)
    obtain h d where y: "y = (h, d)" by fastforce
    from assms(1) [OF Inr [unfolded y]] have 1: "same_id (wd_handler w) h" and 2: "paths_stay (wd_disk w) d" by auto
    let ?w = "w\<lparr>wd_handler := h\<rparr>"
    have "I ?w \<and> R w ?w" by (rule handler [OF I 1])
    moreover have "paths_stay (wd_disk ?w) d" by (simp add: 2)
    ultimately have "I (?w\<lparr>wd_disk := d\<rparr>) \<and> R w (?w\<lparr>wd_disk := d\<rparr>)"
      using adding [of ?w d] assms(2) by (blast intro: after)
    with run Inr y show ?thesis by (simp add: on_files_def)
  qed
qed

lemma mask: "obeys I R (mask_index W i)"
  unfolding mask_index_def
proof (rule bind [OF print])
  fix u
  show "obeys I R (if wx_doit W then on_files (\<lambda>(h, d).
           bindE (new_handler (wx_paths W) d (wx_version W) (wx_useSubToc W) (th_directory h)) (\<lambda>handler.
           bindE (writeClearRecord (wx_fuel W) (wx_paths W) (wx_toc W) (tx_path i) (tx_offset i) handler d) (\<lambda>(_, d).
             Inr (h, d)))) else retS ())"
    by (auto simp: pure writeClearRecord_def appendBlock_def bindE_eq_Inr append_paths_stay intro!: files split: if_splits)
qed

lemma lock: "wx_doit W \<Longrightarrow> obeys I R (lock_catalogue W)"
  unfolding lock_catalogue_def
  by (intro bind files catalogue disabled) (auto dest: disable_grows)

lemma lock_result:
  assumes "I w" and "wx_doit W" and run: "lock_catalogue W w = (Inr ls, w')"
  shows "I w' \<and> ls = lockfilePaths (wx_paths W) (wd_disk w') (wd_handler w')"
  using obeysD [OF lock [OF assms(2)] assms(1) run] run
  by (auto simp: lock_catalogue_def bindS_eq_Inr on_catalogue_def)

lemma remove_at:
  assumes I: "I w" and p: "wx_doit W \<Longrightarrow> p \<in> A" and run: "remove_path W p w = (r, w')"
  shows "I w' \<and> R w w'"
proof (cases "wx_doit W \<and> path_exists (wd_disk w) p \<and> \<not> do_fails (wx_dirs W) (wd_disk w) p")
  case False
  with run I show ?thesis by (auto simp: remove_path_def Let_def printing split: if_splits)
next
  case True
  with run obtain out where w': "w' = (w\<lparr>wd_out := out\<rparr>)\<lparr>wd_disk := erase_path p (wd_disk (w\<lparr>wd_out := out\<rparr>))\<rparr>"
    by (auto simp: remove_path_def Let_def)
  have "I (w\<lparr>wd_out := out\<rparr>) \<and> R w (w\<lparr>wd_out := out\<rparr>)" by (rule printing [OF I])
  with removing [of "w\<lparr>wd_out := out\<rparr>" p] True p show ?thesis unfolding w' by (blast intro: after)
qed

lemma remove: "(wx_doit W \<Longrightarrow> p \<in> A) \<Longrightarrow> obeys I R (remove_path W p)"
  by (rule obeysI) (rule remove_at)

lemma remove_if: "(wx_doit W \<Longrightarrow> p \<in> A) \<Longrightarrow> obeys I R (remove_existing W p)"
  by (rule obeysI) (auto simp: remove_existing_def same split: if_splits dest: remove_at)

text \<open>What a wipe may delete, beside the locks it has made and the directory itself.\<close>

lemma wiping:
  assumes residual: "wx_doit W \<Longrightarrow> set (sorted_list_of_set (wv_residual v)) \<subseteq> A"
    and data: "wx_doit W \<Longrightarrow> set (sorted_list_of_set (wv_data v)) \<subseteq> A"
    and locks: "\<And>w. I w \<Longrightarrow> wx_doit W \<Longrightarrow> wipeAll \<Longrightarrow> set (lockfilePaths (wx_paths W) (wd_disk w) (wd_handler w)) \<subseteq> A"
    and rest: "\<And>w ls. I w \<Longrightarrow> wx_doit W \<Longrightarrow> set ls \<subseteq> (if wipeAll then A else {}) \<Longrightarrow>
      set (wipe_order wipeAll (th_directory (wd_handler w)) (v\<lparr>wv_lockfiles := wv_lockfiles v \<union> set ls\<rparr>)) \<subseteq> A"
  shows "obeys I R (wipe W wipeAll v)"
  unfolding wipe_def Let_def
proof (rule bind [OF pure(3)], rule bind, goal_cases)
  case 1
  show ?case by (rule catalogue) (auto simp: bindE_eq_Inr dest: checkUID_same_id)
next
  case 2
  show ?case
  proof (rule bind_result)
    show "obeys I R (if wipeAll \<and> wx_doit W then lock_catalogue W else retS [])"
      by (auto intro: lock pure)
    fix ls w w'
    assume I: "I w" and ls: "(if wipeAll \<and> wx_doit W then lock_catalogue W else retS []) w = (Inr ls, w')"
    let ?v = "v\<lparr>wv_lockfiles := wv_lockfiles v \<union> set ls\<rparr>"
    have ls_A: "set ls \<subseteq> (if wipeAll then A else {})" if "wx_doit W"
    proof (cases wipeAll)
      case True
      with ls that have "lock_catalogue W w = (Inr ls, w')" by simp
      from lock_result [OF I that this] locks True that show ?thesis by auto
    next
      case False
      with ls that show ?thesis by simp
    qed
    show "obeys I R (bindS (if wipeAll then retS () else eachS (mask_index W) (wv_toMask ?v)) (\<lambda>_.
       bindS (eachS (remove_existing W) (sorted_list_of_set (wv_residual ?v))) (\<lambda>_.
       bindS (eachS (remove_path W) (sorted_list_of_set (wv_data ?v))) (\<lambda>_.
       (\<lambda>w. eachS (remove_existing W) (wipe_order wipeAll (th_directory (wd_handler w)) ?v) w)))))"
    proof (intro bind each)
      show "obeys I R (if wipeAll then retS () else eachS (mask_index W) (wv_toMask ?v))"
        by (auto intro: pure each mask)
      show "obeys I R (\<lambda>w. eachS (remove_existing W) (wipe_order wipeAll (th_directory (wd_handler w)) ?v) w)"
      proof (rule obeysI)
        fix w w2 :: "('d, 's) wiped" and r
        assume I: "I w" and run: "eachS (remove_existing W) (wipe_order wipeAll (th_directory (wd_handler w)) ?v) w = (r, w2)"
        have "obeys I R (eachS (remove_existing W) (wipe_order wipeAll (th_directory (wd_handler w)) ?v))"
          by (rule each, rule remove_if) (use rest [OF I, of ls] ls_A in blast)
        from obeysD [OF this I run] show "I w2 \<and> R w w2" .
      qed
    qed (use residual data in \<open>auto intro!: remove remove_if\<close>)
  qed
qed

end

section \<open>What the steps before the deletion leave alone\<close>

definition untouched :: "('d, 's) wiped \<Rightarrow> ('d, 's) wiped \<Rightarrow> bool" where
  "untouched w w' \<longleftrightarrow> wd_disk w' = wd_disk w \<and> same_id (wd_handler w) (wd_handler w')"

interpretation quiet: quiet_relation "\<lambda>_. True" untouched
  by unfold_locales (auto simp: untouched_def intro: same_id_trans)

text \<open>The two relations of a wipe: only some paths go, and the directory of the catalogue stays the same.\<close>

definition in_directory :: "string \<Rightarrow> ('d, 's) wiped \<Rightarrow> bool" where
  "in_directory B w \<longleftrightarrow> th_directory (wd_handler w) = B"

definition only_deletes :: "string set \<Rightarrow> ('d, 's) wiped \<Rightarrow> ('d, 's) wiped \<Rightarrow> bool" where
  "only_deletes A w w' \<longleftrightarrow> (\<forall>q. path_exists (wd_disk w) q \<longrightarrow> path_exists (wd_disk w') q \<or> q \<in> A)"

interpretation deleting: wipe_relation "in_directory B" "only_deletes A" W A for A B W
  by unfold_locales
    (auto simp: in_directory_def only_deletes_def paths_stay_def path_exists_erase same_id_def)

text \<open>Without \<open>doit\<close> no file changes.\<close>

definition dry :: "('u, 'd, 's) wipe_env \<Rightarrow> ('d, 's) wiped \<Rightarrow> ('d, 's) wiped \<Rightarrow> bool" where
  "dry W w w' \<longleftrightarrow> (\<not> wx_doit W \<longrightarrow> wd_disk w' = wd_disk w)"

interpretation dry_run: wipe_relation "\<lambda>_. True" "dry W" W UNIV for W
  by unfold_locales (auto simp: dry_def)

lemma obeys_everywhere: "obeys (\<lambda>_. True) R m \<Longrightarrow> m w = (r, w') \<Longrightarrow> R w w'"
  by (auto simp: obeys_def)

section \<open>The sets of paths\<close>

definition finite_sets :: "'u wipe_visitor \<Rightarrow> bool" where
  "finite_sets v \<longleftrightarrow>
     finite (wv_subtocs v) \<and> finite (wv_lockfiles v) \<and> finite (wv_indexes v) \<and> finite (wv_data v) \<and> finite (wv_residual v)"

definition masked_finite :: "'u masked_paths \<Rightarrow> bool" where
  "masked_finite m \<longleftrightarrow> finite (fst m) \<and> finite (snd m)"

lemma add_loaded_finite: "masked_finite m \<Longrightarrow> masked_finite (add_loaded ls m)"
  by (cases m) (auto simp: masked_finite_def add_loaded_def)

lemma scan_invariant:
  assumes step: "\<And>r hs s s'. Q s \<Longrightarrow> f r hs s = Inr s' \<Longrightarrow> Q s'"
  shows "Q s \<Longrightarrow> scan nxt f n hs s = Inr (s', hs') \<Longrightarrow> Q s'"
proof (induction n arbitrary: hs s)
  case (Suc n)
  then obtain r hs1 where r: "nxt hs = Inr (r, hs1)" by (auto simp: bindE_eq_Inr)
  show ?case
  proof (cases r)
    case None
    with Suc.prems r show ?thesis by simp
  next
    case (Some x)
    with Suc.prems(2) r obtain s1 where s1: "f x hs1 s = Inr s1" and rest: "scan nxt f n hs1 s1 = Inr (s', hs')"
      by (auto simp: bindE_eq_Inr)
    show ?thesis by (rule Suc.IH [OF step [OF Suc.prems(1) s1] rest])
  qed
qed simp

lemma masked_record_finite:
  assumes "masked_finite (fst s)" and "masked_record X d r hs s = Inr s'"
  shows "masked_finite (fst s')"
proof -
  obtain metadata data st where s: "s = ((metadata, data), st)" by (cases s) auto
  from assms show ?thesis
    by (auto simp: s masked_record_def masked_finite_def bindE_eq_Inr Let_def split: if_splits)
qed

lemma enumerateMasked_finite:
  "enumerateMasked X d n h found = Inr (h', found') \<Longrightarrow> masked_finite (fst found) \<Longrightarrow> masked_finite (fst found')"
proof (induction n arbitrary: h h' found found')
  case (Suc n)
  let ?entry = "\<lambda>h. \<lambda>(path, offset) ((metadata, data), st).
         bindE (masked_path (cx_paths X) d h path) (\<lambda>absPath.
           if \<not> path_exists d absPath then Inr ((metadata, data), st)
           else
             (let metadata = insert (absPath, offset) metadata in
              if take 4 (po_base (cx_paths X) absPath) = ''toc.'' then
                bindE (sub_handler (readNext (cx_paths X) d (cx_fuel X) default_flags) (cx_fuel X) (cx_paths X) d
                         (th_version h) absPath (th_remapKey h)) (\<lambda>sub.
                bindE (enumerateMasked X d n sub ((metadata, data), st)) (\<lambda>(sub, found, st).
                bindE (loadIndexes (cx_fuel X) (cx_paths X) d
                         (toc_index_of_stream (cx_index X) False (cx_garbage X)) sub st) (\<lambda>(indexes, subtocs, sub, st).
                  Inr (add_loaded indexes found, st))))
              else Inr ((metadata, data), st)))"
  obtain h1 where h1: "(if th_enumerated h then Inr h else populateMaskedEntriesList (cx_paths X) h) = Inr h1"
    using Suc.prems(1) by (auto simp: bindE_eq_Inr)
  from Suc.prems(1) h1 obtain h2 found2 hs
    where entries: "foldE (?entry h1) (sorted_list_of_set (th_masked h1)) found = Inr found2"
      and sc: "scan internal_next (masked_record X d) (cx_fuel X) [h2] found2 = Inr (found', hs)"
    unfolding enumerateMasked.simps(2) h1 bindE.simps(2)
    by (fastforce simp only: bindE_eq_Inr sum.inject prod.inject prod.case split_paired_all)
  have "masked_finite (fst s')" if s: "masked_finite (fst s)" and e: "?entry h1 x s = Inr s'" for x s s'
  proof -
    obtain path offset where x: "x = (path, offset)" by fastforce
    obtain metadata data st where s': "s = ((metadata, data), st)" by (cases s) auto
    have ins: "masked_finite (insert m metadata, data)" for m
      using s by (simp add: s' masked_finite_def)
    show ?thesis
      using e s unfolding x s'
      by (auto simp: bindE_eq_Inr Let_def ins split: if_splits intro!: add_loaded_finite dest!: Suc.IH)
  qed
  then have "masked_finite (fst found2)"
    by (rule foldE_invariant [where P = "\<lambda>s. masked_finite (fst s)", OF _ Suc.prems(2) entries])
  then show ?case
    by (rule scan_invariant [where Q = "\<lambda>s. masked_finite (fst s)", OF _ _ sc, rotated]) (rule masked_record_finite)
qed simp

lemma collect_finite:
  assumes "collect_metadata W v w = (Inr v', w')" and "finite_sets v"
  shows "finite_sets v' \<and> wv_safe v' = wv_safe v \<and> wv_residual v' = wv_residual v \<and> wv_toMask v' = wv_toMask v \<and>
    wv_toc v' = th_tocPath (wd_handler w)"
proof -
  from assms obtain v1 h st where v1: "addMaskedPaths W (wd_disk w) v (wd_handler w) (wd_stores w) = Inr (v1, h, st)"
    and v': "addMetadataPaths W (wd_disk w) v1 h = Inr (v', wd_handler w')"
    by (auto simp: collect_metadata_def bindE_eq_Inr split: sum.splits)
  from v1 obtain metadata data where m: "enumerateMasked (wx_cat W) (wd_disk w) (wx_fuel W) (wd_handler w) (({}, {}), wd_stores w) = Inr (h, (metadata, data), st)"
    by (auto simp: addMaskedPaths_def bindE_eq_Inr Let_def)
  from enumerateMasked_finite [OF m] have fin: "finite metadata" "finite data" by (auto simp: masked_finite_def)
  from enumerateMasked_same_id [OF m] have toc: "th_tocPath h = th_tocPath (wd_handler w)" by (simp add: same_id_def)
  have "finite_sets v1 \<and> wv_safe v1 = wv_safe v \<and> wv_residual v1 = wv_residual v \<and> wv_toMask v1 = wv_toMask v"
    using v1 m fin assms(2) by (auto simp: addMaskedPaths_def Let_def finite_sets_def)
  with v' toc show ?thesis
    by (auto simp: addMetadataPaths_def Let_def bindE_eq_Inr finite_sets_def)
qed

text \<open>What is known of the sets when the deletion of a whole database starts.\<close>

definition full_plan :: "('u :: linorder, 'd, 's) wipe_env \<Rightarrow> ('d, 's) wiped \<Rightarrow> 'u wipe_visitor \<Rightarrow> 'u wipe_visitor \<Rightarrow> bool" where
  "full_plan W w v0 v \<longleftrightarrow>
     finite_sets v \<and> (wv_residual v = {} \<or> wx_unsafe W \<or> \<not> wx_doit W) \<and>
     (\<exists>ps. children (wx_dirs W) (wx_paths W) (wd_disk w) (wx_fuel W) (th_directory (wd_handler w)) = Inr ps \<and>
       deletePaths v \<subseteq> set ps \<and> wv_residual v = set ps - deletePaths v) \<and>
     (\<exists>entry v1 w1. collect_metadata W (v0\<lparr>wv_entry := entry\<rparr>) w = (Inr v1, w1) \<and>
       deletePaths v = {q \<in> deletePaths v1. path_exists (wd_disk w) q})"

lemma residual_plan:
  assumes "calculateResidualPaths W d h v = Inr v'" and "finite_sets v"
  obtains ps where "children (wx_dirs W) (wx_paths W) d (wx_fuel W) (th_directory h) = Inr ps"
    and "finite_sets v'" and "deletePaths v' \<subseteq> set ps" and "wv_residual v' = set ps - deletePaths v'"
    and "deletePaths v' = {q \<in> deletePaths v. path_exists d q}"
proof -
  let ?v = "drop_missing d v"
  obtain ps where ps: "children (wx_dirs W) (wx_paths W) d (wx_fuel W) (th_directory h) = Inr ps"
    using assms(1) by (auto simp: calculateResidualPaths_def Let_def bindE_eq_Inr)
  have empty: "wv_residual ?v = {}"
    using assms(1) ps by (auto simp: calculateResidualPaths_def Let_def bindE_eq_Inr assertE_eq_Inr)
  have fin: "finite_sets ?v" using assms(2) by (simp add: finite_sets_def drop_missing_def)
  have v': "(deletePaths ?v = set ps \<and> v' = ?v) \<or> (deletePaths ?v \<subseteq> set ps \<and> v' = ?v\<lparr>wv_residual := set ps - deletePaths ?v\<rparr>)"
    using assms(1) ps by (auto simp: calculateResidualPaths_def Let_def bindE_eq_Inr split: if_splits)
  have keep: "deletePaths (x\<lparr>wv_residual := r\<rparr>) = deletePaths x" for x :: "'a wipe_visitor" and r
    by (simp add: deletePaths_def)
  have drop: "deletePaths ?v = {q \<in> deletePaths v. path_exists d q}"
    by (auto simp: deletePaths_def drop_missing_def)
  have "finite_sets v' \<and> deletePaths v' \<subseteq> set ps \<and> wv_residual v' = set ps - deletePaths v' \<and> deletePaths v' = deletePaths ?v"
    using v'
  proof
    assume "deletePaths ?v = set ps \<and> v' = ?v"
    with fin empty show ?thesis by simp
  next
    assume "deletePaths ?v \<subseteq> set ps \<and> v' = ?v\<lparr>wv_residual := set ps - deletePaths ?v\<rparr>"
    with fin show ?thesis by (simp add: keep finite_sets_def)
  qed
  note this [unfolded drop]
  with ps that show thesis by blast
qed

lemma ensure_nothing_safe: "wv_safe v = {} \<Longrightarrow> ensureSafePaths v = v"
  by (simp add: ensureSafePaths_def)

lemma ensure_finite: "finite_sets v \<Longrightarrow> finite_sets (ensureSafePaths v)"
  by (simp add: finite_sets_def ensureSafePaths_def)

lemma quiet_report:
  "(if b then retS () else report W v) w = (r, w') \<Longrightarrow> untouched w w'"
  using quiet.print_report [of W v] by (cases b) (auto simp: untouched_def obeys_def)

lemma quiet_refuse:
  "(if b then refuse_unclean W v else retS ()) w = (r, w') \<Longrightarrow> untouched w w'"
  using quiet.refuse [of W v] by (cases b) (auto simp: untouched_def obeys_def)

lemma refuse_result:
  "refuse_unclean W v w = (Inr x, w') \<Longrightarrow> wx_unsafe W \<or> \<not> wx_doit W"
  by (auto simp: refuse_unclean_def bindS_eq_Inr split: if_splits)

lemma untouched_trans: "untouched a b \<Longrightarrow> untouched b c \<Longrightarrow> untouched a c"
  by (rule quiet.after)

lemma bindS_cases:
  assumes "bindS m f w = (r, w')"
  obtains (fails) e where "m w = (Inl e, w')" and "r = Inl e"
  | (goes) x w1 where "m w = (Inr x, w1)" and "f x w1 = (r, w')"
  using assms by (auto simp: bindS_def split: prod.splits sum.splits)

lemma full_run:
  assumes run: "wipe_catalogueComplete W v w = (r, w')"
    and safe: "wv_safe v = {}" and fin: "finite_sets v" and toc: "th_tocPath (wd_handler w) \<noteq> []"
  obtains (nothing) "untouched w w'" and "r = Inr () \<Longrightarrow> \<not> wx_doit W"
  | (deletes) v2 w3 where "untouched w w3" and "full_plan W w v v2" and "wipe W True v2 w3 = (r, w')"
proof -
  from run show thesis
    unfolding wipe_catalogueComplete_def Let_def safe
  proof (cases rule: bindS_cases)
    case (fails e)
    then show thesis using quiet.same [of w] by (intro that(1)) auto
  next
    case (goes entry w0)
    then have w0: "w0 = w" by simp
    from goes(2) [unfolded w0] have step: "bindS (collect_metadata W (v\<lparr>wv_entry := entry\<rparr>)) (\<lambda>v.
       if \<not> anythingToWipe (ensureSafePaths v) then retS ()
       else
         bindS (\<lambda>w. (calculateResidualPaths W (wd_disk w) (wd_handler w) (ensureSafePaths v), w)) (\<lambda>v.
         bindS (if wx_porcelain W then retS () else report W v) (\<lambda>_.
         bindS (if wv_residual v \<noteq> {} then refuse_unclean W v else retS ()) (\<lambda>_.
           if wx_doit W \<or> wx_porcelain W then wipe W True v else retS ())))) w = (r, w')"
      by (simp only: refl if_True simp_thms)
    from step show thesis
    proof (cases rule: bindS_cases)
      case (fails e)
      from obeys_everywhere [OF quiet.collect fails(1)] fails(2) show thesis by (intro that(1)) auto
    next
      case (goes v1 w1)
      note collected = goes(1)
      note u1 = obeys_everywhere [OF quiet.collect goes(1)]
      have "finite_sets (v\<lparr>wv_entry := entry\<rparr>)" using fin by (simp add: finite_sets_def)
      from collect_finite [OF goes(1) this] have v1: "finite_sets v1" "wv_safe v1 = {}" "wv_toc v1 \<noteq> []"
        using safe toc by auto
      then have some: "ensureSafePaths v1 = v1" "anythingToWipe v1"
        by (auto simp: ensure_nothing_safe anythingToWipe_def)
      from goes(2) have "bindS (\<lambda>w. (calculateResidualPaths W (wd_disk w) (wd_handler w) v1, w)) (\<lambda>v.
         bindS (if wx_porcelain W then retS () else report W v) (\<lambda>_.
         bindS (if wv_residual v \<noteq> {} then refuse_unclean W v else retS ()) (\<lambda>_.
           if wx_doit W \<or> wx_porcelain W then wipe W True v else retS ()))) w1 = (r, w')" by (simp add: some)
      then show thesis
      proof (cases rule: bindS_cases)
        case (fails e)
        with u1 show thesis by (intro that(1)) auto
      next
        case (goes v2 w1')
        then have w1': "w1' = w1" and res: "calculateResidualPaths W (wd_disk w1) (wd_handler w1) v1 = Inr v2" by auto
        have same: "wd_disk w1 = wd_disk w" "th_directory (wd_handler w1) = th_directory (wd_handler w)"
          using u1 by (auto simp: untouched_def same_id_def)
        from residual_plan [OF res v1(1)] obtain ps
          where "children (wx_dirs W) (wx_paths W) (wd_disk w1) (wx_fuel W) (th_directory (wd_handler w1)) = Inr ps"
            and "finite_sets v2" "deletePaths v2 \<subseteq> set ps" "wv_residual v2 = set ps - deletePaths v2"
              "deletePaths v2 = {q \<in> deletePaths v1. path_exists (wd_disk w1) q}" .
        note ps = this(1) [unfolded same] and v2 = this(2-4) this(5) [unfolded same]
        from goes(2) [unfolded w1'] show thesis
        proof (cases rule: bindS_cases)
          case (fails e)
          from untouched_trans [OF u1 quiet_report [OF fails(1)]] fails(2) show thesis by (intro that(1)) auto
        next
          case (goes x w2)
          note u2 = untouched_trans [OF u1 quiet_report [OF goes(1)]]
          from goes(2) show thesis
          proof (cases rule: bindS_cases)
            case (fails e)
            from untouched_trans [OF u2 quiet_refuse [OF fails(1)]] fails(2) show thesis by (intro that(1)) auto
          next
            case (goes y w3)
            note u3 = untouched_trans [OF u2 quiet_refuse [OF goes(1)]]
            have clean: "wv_residual v2 = {} \<or> wx_unsafe W \<or> \<not> wx_doit W"
              using goes(1) refuse_result by (auto split: if_splits)
            show thesis
            proof (cases "wx_doit W \<or> wx_porcelain W")
              case True
              with goes(2) have "wipe W True v2 w3 = (r, w')" by simp
              moreover have "full_plan W w v v2"
                unfolding full_plan_def using clean v2 ps collected by blast
              ultimately show thesis using u3 by (intro that(2))
            next
              case False
              with goes(2) u3 show thesis by (intro that(1)) auto
            qed
          qed
        qed
      qed
    qed
  qed
qed

lemma partial_run:
  assumes run: "wipe_catalogueComplete W v w = (r, w')" and safe: "wv_safe v \<noteq> {}" and fin: "finite_sets v"
  obtains (nothing) "untouched w w'" and "\<And>u. r = Inr u \<Longrightarrow> \<not> wx_doit W \<or> wv_indexes v \<union> wv_data v - wv_safe v = {}"
  | (deletes) v2 w3 where "untouched w w3" and "wipe W False v2 w3 = (r, w')" and "finite_sets v2" and "wv_residual v2 = wv_residual v"
      and "wv_data v2 = wv_data v - wv_safe v" and "wv_indexes v2 = wv_indexes v - wv_safe v"
      and "wv_toc v2 = []" and "wv_schema v2 = []" and "wv_subtocs v2 = {}" and "wv_lockfiles v2 = {}"
proof -
  from run show thesis
    unfolding wipe_catalogueComplete_def Let_def
  proof (cases rule: bindS_cases)
    case (fails e)
    then show thesis by (intro that(1)) (auto simp: quiet.same)
  next
    case (goes entry w0)
    then have w0: "w0 = w" by simp
    let ?v = "ensureSafePaths (forget_metadata (v\<lparr>wv_entry := entry\<rparr>))"
    have v: "finite_sets ?v" "wv_residual ?v = wv_residual v" "wv_data ?v = wv_data v - wv_safe v"
      "wv_indexes ?v = wv_indexes v - wv_safe v" "wv_toc ?v = []" "wv_schema ?v = []" "wv_subtocs ?v = {}" "wv_lockfiles ?v = {}"
      using fin by (auto simp: ensureSafePaths_def forget_metadata_def finite_sets_def)
    from goes(2) have step: "(if \<not> anythingToWipe ?v then retS ()
       else bindS (if wx_porcelain W then retS () else report W ?v) (\<lambda>_.
              if wx_doit W \<or> wx_porcelain W then wipe W False ?v else retS ())) w = (r, w')"
      by (simp add: w0 safe bindS_def cong: if_cong)
    show thesis
    proof (cases "anythingToWipe ?v")
      case False
      then have "wv_indexes v \<union> wv_data v - wv_safe v = {}" using v(3,4) by (auto simp: anythingToWipe_def)
      with False step show thesis by (intro that(1)) (auto simp: quiet.same)
    next
      case True
      with step have "bindS (if wx_porcelain W then retS () else report W ?v) (\<lambda>_.
              if wx_doit W \<or> wx_porcelain W then wipe W False ?v else retS ()) w = (r, w')" by simp
      then show thesis
      proof (cases rule: bindS_cases)
        case (fails e)
        from quiet_report [OF fails(1)] fails(2) show thesis by (intro that(1)) auto
      next
        case (goes x w1)
        note u1 = quiet_report [OF goes(1)]
        show thesis
        proof (cases "wx_doit W \<or> wx_porcelain W")
          case True
          with goes(2) have "wipe W False ?v w1 = (r, w')" by simp
          then show thesis by (intro that(2) [OF u1]) (use v in auto)
        next
          case False
          with goes(2) u1 show thesis by (intro that(1)) auto
        qed
      qed
    qed
  qed
qed

section \<open>What the visit collects\<close>

definition index_request :: "('u, 'd, 's) wipe_env \<Rightarrow> mars_request" where
  "index_request W = fold (\<lambda>(k, _). wx_unset W k) (key_dict (wx_key W)) (wx_request W)"

definition included :: "('u, 'd, 's) wipe_env \<Rightarrow> ('d, 's) wiped \<Rightarrow> 'u toc_index \<Rightarrow> bool" where
  "included W w i \<longleftrightarrow>
     match_request (ib_key (tx_base i)) (index_request W) = Inr True \<and> in_base W (wd_disk w) (wd_handler w) (tx_path i)"

definition data_files :: "('u :: linorder, 'd, 's) wipe_env \<Rightarrow> 'u toc_index \<Rightarrow> string set" where
  "data_files W i = u_path (ie_uris (cx_index (wx_cat W))) ` set (toc_dataPaths i)"

text \<open>The files that an index keeps, and those it gives up.\<close>

definition kept_paths :: "('u :: linorder, 'd, 's) wipe_env \<Rightarrow> ('d, 's) wiped \<Rightarrow> 'u toc_index \<Rightarrow> string set" where
  "kept_paths W w i =
     (if included W w i then {p \<in> data_files W i. \<not> in_base W (wd_disk w) (wd_handler w) p} else insert (tx_path i) (data_files W i))"

definition given_paths :: "('u :: linorder, 'd, 's) wipe_env \<Rightarrow> ('d, 's) wiped \<Rightarrow> 'u toc_index \<Rightarrow> string set" where
  "given_paths W w i =
     (if included W w i then insert (tx_path i) {p \<in> data_files W i. in_base W (wd_disk w) (wd_handler w) p} else {})"

definition no_metadata :: "'u wipe_visitor \<Rightarrow> bool" where
  "no_metadata v \<longleftrightarrow> wv_subtocs v = {} \<and> wv_lockfiles v = {} \<and> wv_toc v = [] \<and> wv_schema v = []"

definition collected :: "'u wipe_visitor \<Rightarrow> string set \<Rightarrow> string set \<Rightarrow> 'u wipe_visitor \<Rightarrow> bool" where
  "collected v kept given v' \<longleftrightarrow>
     wv_indexRequest v' = wv_indexRequest v \<and> wv_residual v' = wv_residual v \<and>
     (no_metadata v \<longrightarrow> no_metadata v') \<and> (finite_sets v \<longrightarrow> finite_sets v') \<and>
     wv_safe v' = wv_safe v \<union> kept \<and> wv_indexes v' \<union> wv_data v' = wv_indexes v \<union> wv_data v \<union> given"

lemma collected_trans: "collected a k g b \<Longrightarrow> collected b k' g' c \<Longrightarrow> collected a (k \<union> k') (g \<union> g') c"
  by (auto simp: collected_def)

lemma collect_data:
  "collected v {p \<in> f ` set us. \<not> b p} {p \<in> f ` set us. b p}
     (fold (\<lambda>uri v. let path = f uri in if b path then v\<lparr>wv_data := insert path (wv_data v)\<rparr>
                     else v\<lparr>wv_safe := insert path (wv_safe v)\<rparr>) us v)"
proof (induction us arbitrary: v)
  case (Cons u us)
  let ?v = "if b (f u) then v\<lparr>wv_data := insert (f u) (wv_data v)\<rparr> else v\<lparr>wv_safe := insert (f u) (wv_safe v)\<rparr>"
  have "collected v {p \<in> {f u}. \<not> b p} {p \<in> {f u}. b p} ?v"
    by (auto simp: collected_def finite_sets_def no_metadata_def)
  from collected_trans [OF this Cons.IH [of ?v]]
  have "collected v ({p \<in> {f u}. \<not> b p} \<union> {p \<in> f ` set us. \<not> b p}) ({p \<in> {f u}. b p} \<union> {p \<in> f ` set us. b p})
     (fold (\<lambda>uri v. let path = f uri in if b path then v\<lparr>wv_data := insert path (wv_data v)\<rparr>
                     else v\<lparr>wv_safe := insert path (wv_safe v)\<rparr>) us ?v)" .
  moreover have "{p \<in> {f u}. \<not> b p} \<union> {p \<in> f ` set us. \<not> b p} = {p \<in> f ` set (u # us). \<not> b p}"
    and "{p \<in> {f u}. b p} \<union> {p \<in> f ` set us. b p} = {p \<in> f ` set (u # us). b p}" by auto
  ultimately show ?case by (simp add: Let_def)
qed (simp add: collected_def)

lemma visitIndex_collects:
  assumes run: "wipe_visitIndex W (wd_disk w) (wd_handler w) i v = Inr (b, v')" and rq: "wv_indexRequest v = index_request W"
  shows "collected v (kept_paths W w i) (given_paths W w i) v'"
proof -
  let ?in = "in_base W (wd_disk w) (wd_handler w)" and ?f = "u_path (ie_uris (cx_index (wx_cat W)))"
  obtain m where m: "match_request (ib_key (tx_base i)) (index_request W) = Inr m"
    using run by (auto simp: wipe_visitIndex_def rq bindE_eq_Inr)
  have inc: "m \<and> ?in (tx_path i) \<longleftrightarrow> included W w i" by (simp add: included_def m)
  let ?v = "if included W w i then v\<lparr>wv_toMask := wv_toMask v @ [i], wv_indexes := insert (tx_path i) (wv_indexes v)\<rparr>
            else v\<lparr>wv_safe := insert (tx_path i) (wv_safe v)\<rparr>"
  have v': "v' = fold (\<lambda>uri v. let path = ?f uri in if included W w i \<and> ?in path then v\<lparr>wv_data := insert path (wv_data v)\<rparr>
                else v\<lparr>wv_safe := insert path (wv_safe v)\<rparr>) (toc_dataPaths i) ?v"
    using run unfolding wipe_visitIndex_def rq m bindE.simps Let_def inc
    by (cases "included W w i") (simp_all add: assertE_def split: if_splits)
  have first: "collected v (if included W w i then {} else {tx_path i}) (if included W w i then {tx_path i} else {}) ?v"
    by (auto simp: collected_def finite_sets_def no_metadata_def)
  have "collected ?v {p \<in> data_files W i. \<not> (included W w i \<and> ?in p)} {p \<in> data_files W i. included W w i \<and> ?in p} v'"
    unfolding v' data_files_def by (rule collect_data)
  note both = collected_trans [OF first this]
  have "(if included W w i then {} else {tx_path i}) \<union> {p \<in> data_files W i. \<not> (included W w i \<and> ?in p)} = kept_paths W w i"
    and "(if included W w i then {tx_path i} else {}) \<union> {p \<in> data_files W i. included W w i \<and> ?in p} = given_paths W w i"
    by (auto simp: kept_paths_def given_paths_def)
  with both show ?thesis by simp
qed

lemma local_visitIndex_some:
  "lw_internal l = Some v \<Longrightarrow>
     local_visitIndex W d h i l = bindE (wipe_visitIndex W d h i v) (\<lambda>(_, v). Inr (l\<lparr>lw_internal := Some v\<rparr>))"
  by (simp add: local_visitIndex_def local_internal_def)

lemma visitIndexes_collect:
  assumes "foldE (local_visitIndex W (wd_disk w) (wd_handler w)) all l = Inr l'"
    and "lw_internal l = Some v" and "wv_indexRequest v = index_request W"
  shows "\<exists>v'. lw_internal l' = Some v' \<and> collected v (\<Union>i \<in> set all. kept_paths W w i) (\<Union>i \<in> set all. given_paths W w i) v'"
  using assms
proof (induction all arbitrary: l v)
  case (Cons i all)
  obtain b v1 where v1: "wipe_visitIndex W (wd_disk w) (wd_handler w) i v = Inr (b, v1)"
    and rest: "foldE (local_visitIndex W (wd_disk w) (wd_handler w)) all (l\<lparr>lw_internal := Some v1\<rparr>) = Inr l'"
    using Cons.prems(1) by (auto simp: local_visitIndex_some [OF Cons.prems(2)] bindE_eq_Inr)
  note c1 = visitIndex_collects [OF v1 Cons.prems(3)]
  then have "wv_indexRequest v1 = index_request W" using Cons.prems(3) by (simp add: collected_def)
  from Cons.IH [OF rest _ this] obtain v' where v': "lw_internal l' = Some v'"
    and c2: "collected v1 (\<Union>i \<in> set all. kept_paths W w i) (\<Union>i \<in> set all. given_paths W w i) v'" by auto
  from collected_trans [OF c1 c2] v' show ?case by auto
qed (auto simp: collected_def)

text \<open>The whole visit: an exception before anything is done, or the end of the catalogue with the sets.\<close>

lemma visit_run:
  assumes run: "wipe_visitEntries W all new_local_wipe w = (r, w')"
  obtains (fails) e where "r = Inl e" and "w' = w"
  | (ends) v r0 where "wipe_catalogueComplete W v w = (r0, w')" and "\<And>l. r = Inr l \<Longrightarrow> r0 = Inr ()"
      and "finite_sets v" and "wv_residual v = {}" and "no_metadata v" and "wv_safe v = (\<Union>i \<in> set all. kept_paths W w i)"
      and "wv_indexes v \<union> wv_data v = (\<Union>i \<in> set all. given_paths W w i)"
      and "catalogue_enabled W (wd_disk w) (wd_handler w) IdWipe = Inr True"
proof -
  let ?d = "wd_disk w" and ?h = "wd_handler w"
  have "bindS (liftS (bindE (local_visitDatabase W ?d ?h new_local_wipe) (\<lambda>(explore, l).
       if \<not> explore then Inr l
       else bindE (local_visitIndexes l) (\<lambda>indexes.
              if indexes then foldE (local_visitIndex W ?d ?h) all l else Inr l))))
       (local_catalogueComplete W) w = (r, w')"
    using run unfolding wipe_visitEntries_def Let_def .
  then show thesis
  proof (cases rule: bindS_cases)
    case (fails e)
    then show thesis by (intro that(1)) auto
  next
    case (goes l w1)
    then have w1: "w1 = w" by simp
    obtain explore l0 where l0: "local_visitDatabase W ?d ?h new_local_wipe = Inr (explore, l0)"
      and l: "(if \<not> explore then Inr l0
       else bindE (local_visitIndexes l0) (\<lambda>indexes.
              if indexes then foldE (local_visitIndex W ?d ?h) all l0 else Inr l0)) = Inr l"
      using goes(1) by (auto simp: bindE_eq_Inr)
    show thesis
    proof (cases explore)
      case False
      with l0 l have "lw_internal l = None"
        by (auto simp: local_visitDatabase_def new_local_wipe_def bindE_eq_Inr Let_def split: if_splits)
      with goes(2) have "r = Inl (AssertFailed ''internalVisitor_'')" and "w' = w"
        by (auto simp: local_catalogueComplete_def local_internal_def w1 bindS_def)
      then show thesis by (rule that(1))
    next
      case True
      with l0 obtain v0 where v0: "lw_internal l0 = Some v0" "wv_indexRequest v0 = index_request W"
        "finite_sets v0" "wv_residual v0 = {}" "no_metadata v0" "wv_safe v0 = {}" "wv_indexes v0 = {}" "wv_data v0 = {}"
        and enabled: "catalogue_enabled W ?d ?h IdWipe = Inr True"
        by (auto simp: local_visitDatabase_def wipe_visitDatabase_def new_local_wipe_def new_wipe_visitor_def bindE_eq_Inr Let_def
            assertE_eq_Inr index_request_def finite_sets_def no_metadata_def split: if_splits)
      from l v0(1) True have "foldE (local_visitIndex W ?d ?h) all l0 = Inr l"
        by (simp add: local_visitIndexes_def local_internal_def)
      from visitIndexes_collect [OF this v0(1,2)] obtain v where v: "lw_internal l = Some v"
        and c: "collected v0 (\<Union>i \<in> set all. kept_paths W w i) (\<Union>i \<in> set all. given_paths W w i) v" by blast
      have sets: "finite_sets v" "wv_residual v = {}" "no_metadata v" "wv_safe v = (\<Union>i \<in> set all. kept_paths W w i)"
        "wv_indexes v \<union> wv_data v = (\<Union>i \<in> set all. given_paths W w i)"
        using c v0 by (auto simp: collected_def)
      from goes(2) v have "bindS (wipe_catalogueComplete W v) (\<lambda>_. retS (l\<lparr>lw_internal := None\<rparr>)) w = (r, w')"
        by (simp add: w1 local_catalogueComplete_def local_internal_def)
      then obtain r0 where "wipe_catalogueComplete W v w = (r0, w')" and "\<And>l. r = Inr l \<Longrightarrow> r0 = Inr ()"
        by (cases rule: bindS_cases) auto
      then show thesis using sets enabled by (rule that(2))
    qed
  qed
qed

section \<open>What a wipe deletes\<close>

text \<open>Nothing but what indexes that match give up, or the files of the directory when everything matches.\<close>

lemma partial_deletes:
  assumes run: "wipe_catalogueComplete W v w = (r, w')" and safe: "wv_safe v \<noteq> {}" and fin: "finite_sets v"
    and residual: "wv_residual v = {}"
  shows "only_deletes (insert '''' (wv_indexes v \<union> wv_data v - wv_safe v)) w w'"
  using run safe fin
proof (cases rule: partial_run)
  case nothing
  then show ?thesis by (simp add: untouched_def only_deletes_def)
next
  case (deletes v2 w3)
  let ?A = "insert '''' (wv_indexes v \<union> wv_data v - wv_safe v)"
  have "obeys (in_directory (th_directory (wd_handler w3))) (only_deletes ?A) (wipe W False v2)"
  proof (rule deleting.wiping, goal_cases)
    case 1
    then show ?case by (simp add: deletes(4) residual)
  next
    case 2
    then show ?case using deletes(3) by (auto simp: deletes(5) finite_sets_def)
  next
    case (4 w ls)
    then show ?case using deletes(3) by (auto simp: wipe_order_def deletes(6-10) finite_sets_def)
  qed simp
  from obeysD [OF this _ deletes(2)] have "only_deletes ?A w3 w'" by (simp add: in_directory_def)
  with deletes(1) show ?thesis by (simp add: untouched_def only_deletes_def)
qed

text \<open>The names of the control files that a full wipe may delete.\<close>

definition lock_paths :: "path_ops \<Rightarrow> toc_handler \<Rightarrow> string set" where
  "lock_paths P h = fullControlFilePath P h ` {''retrieve.lock'', ''archive.lock'', ''list.lock'', ''wipe.lock''}"

lemma lockfilePaths_lock: "set (lockfilePaths P d h) \<subseteq> lock_paths P h"
  by (auto simp: lockfilePaths_def lock_paths_def)

lemma full_deletes:
  fixes W :: "('u :: linorder, 'd, 's) wipe_env"
  assumes run: "wipe W True v w = (r, w')" and fin: "finite_sets v"
  shows "only_deletes (insert '''' (deletePaths v \<union> wv_residual v \<union> insert (th_directory (wd_handler w)) (lock_paths (wx_paths W) (wd_handler w)))) w w'"
    (is "only_deletes ?A w w'")
proof -
  let ?B = "th_directory (wd_handler w)"
  have locks: "lock_paths (wx_paths W) x = lock_paths (wx_paths W) (wd_handler w)" if "th_directory x = ?B" for x
    using that by (simp add: lock_paths_def fullControlFilePath_def)
  have "obeys (in_directory ?B) (only_deletes ?A) (wipe W True v)"
  proof (rule deleting.wiping, goal_cases)
    case 1
    then show ?case using fin by (auto simp: finite_sets_def)
  next
    case 2
    then show ?case using fin by (auto simp: finite_sets_def deletePaths_def)
  next
    case (3 x)
    then show ?case using lockfilePaths_lock [of "wx_paths W" "wd_disk x" "wd_handler x"] locks [of "wd_handler x"]
      by (auto simp: in_directory_def)
  next
    case (4 x ls)
    then show ?case using fin by (auto simp: wipe_order_def finite_sets_def deletePaths_def in_directory_def)
  qed
  from obeysD [OF this _ run] show ?thesis by (simp add: in_directory_def)
qed

lemma only_deletes_untouched:
  "untouched a b \<Longrightarrow> only_deletes A b c \<Longrightarrow> only_deletes A a c"
  by (simp add: only_deletes_def untouched_def)

text \<open>Removing several paths, when it comes to its end.\<close>

definition shrinks :: "('d, 's) wiped \<Rightarrow> ('d, 's) wiped \<Rightarrow> bool" where
  "shrinks w w' \<longleftrightarrow> (\<forall>q. path_exists (wd_disk w') q \<longrightarrow> path_exists (wd_disk w) q) \<and> wd_handler w' = wd_handler w"

lemma remove_done:
  assumes "remove_path W p w = (Inr u, w') \<or> remove_existing W p w = (Inr u, w')" and "wx_doit W"
  shows "\<not> path_exists (wd_disk w') p \<and> shrinks w w'"
  using assms by (auto simp: remove_existing_def remove_path_def shrinks_def Let_def path_exists_erase split: if_splits)

lemma each_done:
  assumes each: "\<And>p w w' u. f p w = (Inr u, w') \<Longrightarrow> \<not> path_exists (wd_disk w') p \<and> shrinks w w'"
  shows "eachS f ps w = (Inr u, w') \<Longrightarrow> (\<forall>p \<in> set ps. \<not> path_exists (wd_disk w') p) \<and> shrinks w w'"
proof (induction ps arbitrary: w)
  case (Cons p ps)
  then obtain w1 where w1: "f p w = (Inr (), w1)" and rest: "eachS f ps w1 = (Inr u, w')"
    by (auto simp: eachS_def bindS_eq_Inr)
  from each [OF w1] Cons.IH [OF rest] show ?case by (auto simp: shrinks_def)
qed (simp add: eachS_def shrinks_def)

lemma full_stages:
  fixes W :: "('u :: linorder, 'd, 's) wipe_env"
  assumes run: "wipe W True v w = (Inr u, w')" and doit: "wx_doit W"
  obtains a w1 ls w2 b w3 c w4 where
    "on_catalogue (\<lambda>d h. bindE (checkUID (wx_fuel W) (wx_paths W) (wx_toc W) d h) (\<lambda>h. Inr ((), h))) w = (Inr a, w1)"
    and "lock_catalogue W w1 = (Inr ls, w2)"
    and "eachS (remove_existing W) (sorted_list_of_set (wv_residual v)) w2 = (Inr b, w3)"
    and "eachS (remove_path W) (sorted_list_of_set (wv_data v)) w3 = (Inr c, w4)"
    and "eachS (remove_existing W) (wipe_order True (th_directory (wd_handler w4)) (v\<lparr>wv_lockfiles := wv_lockfiles v \<union> set ls\<rparr>)) w4 = (Inr u, w')"
proof -
  have upd: "wv_residual (v\<lparr>wv_lockfiles := x\<rparr>) = wv_residual v" "wv_data (v\<lparr>wv_lockfiles := x\<rparr>) = wv_data v" for x by simp_all
  have lock: "(if True \<and> wx_doit W then lock_catalogue W else retS []) = lock_catalogue W" using doit by simp
  show thesis
    using run unfolding wipe_def lock Let_def bindS_eq_Inr upd
    by (elim exE conjE) (clarsimp simp only: stepS_simps prod.inject if_True, rule that)
qed

lemma partial_stages:
  fixes W :: "('u :: linorder, 'd, 's) wipe_env"
  assumes run: "wipe W False v w = (Inr u, w')"
  obtains b w2 c w3 w4 where
    "eachS (remove_existing W) (sorted_list_of_set (wv_residual v)) w2 = (Inr b, w3)"
    and "eachS (remove_path W) (sorted_list_of_set (wv_data v)) w3 = (Inr c, w4)"
    and "eachS (remove_existing W) (wipe_order False (th_directory (wd_handler w4)) (v\<lparr>wv_lockfiles := wv_lockfiles v \<union> set []\<rparr>)) w4 = (Inr u, w')"
proof -
  have upd: "wv_residual (v\<lparr>wv_lockfiles := x\<rparr>) = wv_residual v" "wv_data (v\<lparr>wv_lockfiles := x\<rparr>) = wv_data v" for x by simp_all
  have lock: "(if False \<and> wx_doit W then lock_catalogue W else retS []) = retS []" by simp
  show thesis
    using run unfolding wipe_def lock Let_def bindS_eq_Inr upd
    by (elim exE conjE) (clarsimp simp only: stepS_simps prod.inject sum.inject if_False, rule that)
qed

lemma removed_paths:
  fixes W :: "('u, 'd, 's) wipe_env"
  assumes "wx_doit W"
  shows "eachS (remove_existing W) ps a = (Inr x, b) \<Longrightarrow> (\<forall>p \<in> set ps. \<not> path_exists (wd_disk b) p) \<and> shrinks a b"
    and "eachS (remove_path W) ps a = (Inr x, b) \<Longrightarrow> (\<forall>p \<in> set ps. \<not> path_exists (wd_disk b) p) \<and> shrinks a b"
proof -
  show "(\<forall>p \<in> set ps. \<not> path_exists (wd_disk b) p) \<and> shrinks a b" if "eachS (remove_existing W) ps a = (Inr x, b)"
    by (rule each_done [OF _ that]) (rule remove_done [OF disjI2 assms])
  show "(\<forall>p \<in> set ps. \<not> path_exists (wd_disk b) p) \<and> shrinks a b" if "eachS (remove_path W) ps a = (Inr x, b)"
    by (rule each_done [OF _ that]) (rule remove_done [OF disjI1 assms])
qed

lemma partial_clears:
  fixes W :: "('u :: linorder, 'd, 's) wipe_env"
  assumes run: "wipe W False v w = (Inr u, w')" and doit: "wx_doit W" and fin: "finite_sets v"
    and q: "q \<in> wv_indexes v \<union> wv_data v"
  shows "\<not> path_exists (wd_disk w') q"
proof -
  obtain b w2 c w3 w4 where "eachS (remove_existing W) (sorted_list_of_set (wv_residual v)) w2 = (Inr b, w3)"
    and w4: "eachS (remove_path W) (sorted_list_of_set (wv_data v)) w3 = (Inr c, w4)"
    and last: "eachS (remove_existing W) (wipe_order False (th_directory (wd_handler w4)) (v\<lparr>wv_lockfiles := wv_lockfiles v \<union> set []\<rparr>)) w4 = (Inr u, w')"
    by (rule partial_stages [OF run]) blast
  note cleared = removed_paths(2) [OF doit w4] removed_paths(1) [OF doit last]
  have "q \<in> set (sorted_list_of_set (wv_data v)) \<union>
      set (wipe_order False (th_directory (wd_handler w4)) (v\<lparr>wv_lockfiles := wv_lockfiles v \<union> set []\<rparr>))"
    using q fin by (auto simp: finite_sets_def wipe_order_def)
  with cleared show ?thesis unfolding shrinks_def by blast
qed

lemma full_clears:
  fixes W :: "('u :: linorder, 'd, 's) wipe_env"
  assumes run: "wipe W True v w = (Inr u, w')" and doit: "wx_doit W" and fin: "finite_sets v"
    and q: "q \<in> deletePaths v \<or> q \<in> wv_residual v \<or> q = th_directory (wd_handler w)"
  shows "\<not> path_exists (wd_disk w') q"
proof -
  obtain a w1 ls w2 b w3 c w4 where w1: "on_catalogue (\<lambda>d h. bindE (checkUID (wx_fuel W) (wx_paths W) (wx_toc W) d h) (\<lambda>h. Inr ((), h))) w = (Inr a, w1)"
    and w2: "lock_catalogue W w1 = (Inr ls, w2)"
    and w3: "eachS (remove_existing W) (sorted_list_of_set (wv_residual v)) w2 = (Inr b, w3)"
    and w4: "eachS (remove_path W) (sorted_list_of_set (wv_data v)) w3 = (Inr c, w4)"
    and last: "eachS (remove_existing W) (wipe_order True (th_directory (wd_handler w4)) (v\<lparr>wv_lockfiles := wv_lockfiles v \<union> set ls\<rparr>)) w4 = (Inr u, w')"
    by (rule full_stages [OF run doit]) blast
  have lk: "obeys (in_directory (th_directory (wd_handler w))) (only_deletes {}) (lock_catalogue W)"
    and uid: "obeys (in_directory (th_directory (wd_handler w))) (only_deletes {}) (on_catalogue (\<lambda>d h. bindE (checkUID (wx_fuel W) (wx_paths W) (wx_toc W) d h) (\<lambda>h. Inr ((), h))))"
    by (rule deleting.lock [OF doit], rule deleting.catalogue) (auto simp: bindE_eq_Inr dest: checkUID_same_id)
  have "in_directory (th_directory (wd_handler w)) w1" using obeysD [OF uid _ w1] by (simp add: in_directory_def)
  then have dir: "th_directory (wd_handler w2) = th_directory (wd_handler w)"
    using obeysD [OF lk _ w2] by (simp add: in_directory_def)
  note cleared = removed_paths(1) [OF doit w3] removed_paths(2) [OF doit w4] removed_paths(1) [OF doit last]
  then have "q \<in> set (sorted_list_of_set (wv_residual v)) \<union> set (sorted_list_of_set (wv_data v)) \<union>
      set (wipe_order True (th_directory (wd_handler w4)) (v\<lparr>wv_lockfiles := wv_lockfiles v \<union> set ls\<rparr>))"
    using q fin dir by (auto simp: finite_sets_def deletePaths_def wipe_order_def shrinks_def split: if_splits)
  with cleared show ?thesis unfolding shrinks_def by blast
qed

section \<open>Refusals\<close>

text \<open>
  The paths a database knows of: what its indexes give up, and what the metadata and the masked entries name. It does not
  depend on what the visit has collected.
\<close>

definition expected :: "('u :: linorder, 'd, 's) wipe_env \<Rightarrow> 'u toc_index list \<Rightarrow> ('d, 's) wiped \<Rightarrow> string \<Rightarrow> bool" where
  "expected W all w q \<longleftrightarrow>
     (\<exists>i \<in> set all. q \<in> given_paths W w i) \<or>
     (\<exists>v w'. collect_metadata W (new_wipe_visitor W) w = (Inr v, w') \<and> q \<in> deletePaths v)"

lemma collect_additive:
  fixes W :: "('u :: linorder, 'd, 's) wipe_env"
  assumes run: "collect_metadata W v w = (Inr v1, w1)" and "no_metadata v"
  shows "\<exists>v0. collect_metadata W (new_wipe_visitor W) w = (Inr v0, w1) \<and> deletePaths v1 = wv_indexes v \<union> wv_data v \<union> deletePaths v0"
proof -
  let ?P = "wx_paths W"
  obtain h metadata data st where m: "enumerateMasked (wx_cat W) (wd_disk w) (wx_fuel W) (wd_handler w) (({}, {}), wd_stores w) = Inr (h, (metadata, data), st)"
    using run by (auto simp: collect_metadata_def addMaskedPaths_def bindE_eq_Inr Let_def split: sum.splits)
  then obtain subtocs h1 where sub: "subTocPaths (wx_fuel W) ?P (wd_disk w) h = Inr (subtocs, h1)"
    using run by (auto simp: collect_metadata_def addMaskedPaths_def addMetadataPaths_def bindE_eq_Inr Let_def split: sum.splits)
  define own where "own = Set.filter (in_base W (wd_disk w) h) (fst ` metadata)"
  define tocs where "tocs = Set.filter (\<lambda>p. take 4 (po_base ?P p) = ''toc.'') own"
  define uris where "uris = Set.filter (in_base W (wd_disk w) h) (u_path (ie_uris (cx_index (wx_cat W))) ` data)"
  define upd where "upd u = u\<lparr>wv_subtocs := wv_subtocs u \<union> tocs \<union> set subtocs, wv_indexes := wv_indexes u \<union> (own - tocs),
      wv_data := wv_data u \<union> uris, wv_schema := po_join ?P (th_directory h) ''schema'', wv_toc := th_tocPath h,
      wv_lockfiles := wv_lockfiles u \<union> set (lockfilePaths ?P (wd_disk w) h1)\<rparr>" for u :: "'u wipe_visitor"
  have eq: "collect_metadata W u w = (Inr (upd u), w\<lparr>wd_handler := h1, wd_stores := st\<rparr>)" for u :: "'u wipe_visitor"
    by (simp add: collect_metadata_def addMaskedPaths_def addMetadataPaths_def m sub Let_def own_def tocs_def uris_def upd_def)
  define rest where "rest = tocs \<union> set subtocs \<union> set (lockfilePaths ?P (wd_disk w) h1) \<union> (own - tocs) \<union> uris \<union>
      (if th_tocPath h \<noteq> [] then {th_tocPath h} else {}) \<union>
      (if po_join ?P (th_directory h) ''schema'' \<noteq> [] then {po_join ?P (th_directory h) ''schema''} else {})"
  have paths: "deletePaths (upd u) = wv_indexes u \<union> wv_data u \<union> rest" if "wv_subtocs u = {}" "wv_lockfiles u = {}" for u :: "'u wipe_visitor"
  proof -
    have "wv_toc (upd u) = th_tocPath h" "wv_schema (upd u) = po_join ?P (th_directory h) ''schema''"
      "wv_subtocs (upd u) = tocs \<union> set subtocs" "wv_lockfiles (upd u) = set (lockfilePaths ?P (wd_disk w) h1)"
      "wv_indexes (upd u) = wv_indexes u \<union> (own - tocs)" "wv_data (upd u) = wv_data u \<union> uris"
      by (simp_all add: upd_def that)
    then show ?thesis unfolding deletePaths_def rest_def by (simp only: Un_ac)
  qed
  have new: "wv_subtocs (new_wipe_visitor W) = {}" "wv_indexes (new_wipe_visitor W) = {}" "wv_data (new_wipe_visitor W) = {}"
      "wv_lockfiles (new_wipe_visitor W) = {}"
    by (simp_all add: new_wipe_visitor_def)
  have v1: "v1 = upd v" and w1: "w1 = w\<lparr>wd_handler := h1, wd_stores := st\<rparr>" using run by (simp_all add: eq)
  have "deletePaths v1 = wv_indexes v \<union> wv_data v \<union> deletePaths (upd (new_wipe_visitor W))"
    using assms(2) by (simp only: v1 paths new no_metadata_def Un_empty_left)
  then show ?thesis unfolding w1 using eq [of "new_wipe_visitor W"] by blast
qed

lemma plan_expected:
  assumes plan: "full_plan W w v v2" and "no_metadata v" and "wv_indexes v \<union> wv_data v = (\<Union>i \<in> set all. given_paths W w i)"
  shows "deletePaths v2 = {q. expected W all w q \<and> path_exists (wd_disk w) q}"
proof -
  obtain entry v1 w1 where v1: "collect_metadata W (v\<lparr>wv_entry := entry\<rparr>) w = (Inr v1, w1)"
    and v2: "deletePaths v2 = {q \<in> deletePaths v1. path_exists (wd_disk w) q}"
    using plan unfolding full_plan_def by blast
  have "no_metadata (v\<lparr>wv_entry := entry\<rparr>)" using assms(2) by (simp add: no_metadata_def)
  from collect_additive [OF v1 this] obtain v0 where v0: "collect_metadata W (new_wipe_visitor W) w = (Inr v0, w1)"
    and d: "deletePaths v1 = wv_indexes v \<union> wv_data v \<union> deletePaths v0" by auto
  have "expected W all w q \<longleftrightarrow> q \<in> deletePaths v1" for q
    using v0 d assms(3) by (auto simp: expected_def)
  with v2 show ?thesis by auto
qed

text \<open>The stages of a full wipe up to the residual paths; nothing is deleted before them.\<close>

lemma full_start:
  fixes W :: "('u :: linorder, 'd, 's) wipe_env"
  assumes run: "wipe W True v w = (r, w')"
  obtains (fails) e where "r = Inl e" and "only_deletes {} w w'"
  | (goes) w2 rest where "only_deletes {} w w2" and "bindS (eachS (remove_existing W) (sorted_list_of_set (wv_residual v))) rest w2 = (r, w')"
proof -
  let ?B = "in_directory (th_directory (wd_handler w))"
  have uid: "obeys ?B (only_deletes {}) (on_catalogue (\<lambda>d h. bindE (checkUID (wx_fuel W) (wx_paths W) (wx_toc W) d h) (\<lambda>h. Inr ((), h))))"
    by (rule deleting.catalogue) (auto simp: bindE_eq_Inr dest: checkUID_same_id)
  have lock: "obeys ?B (only_deletes {}) (if True \<and> wx_doit W then lock_catalogue W else retS [])"
    by (auto intro: deleting.lock deleting.pure)
  have B: "?B w" by (simp add: in_directory_def)
  from run show thesis
    unfolding wipe_def Let_def
  proof (cases rule: bindS_cases)
    case (fails e)
    then have "w' = w" by simp
    then have "only_deletes {} w w'" by (simp add: only_deletes_def)
    with fails(2) show thesis by (rule that(1))
  next
    case (goes x w0)
    then have "w0 = w" by simp
    from goes(2) [unfolded this] show thesis
    proof (cases rule: bindS_cases)
      case (fails e)
      with obeysD [OF uid B fails(1)] show thesis by (intro that(1)) auto
    next
      case (goes x w1)
      note u1 = obeysD [OF uid B goes(1)]
      from goes(2) show thesis
      proof (cases rule: bindS_cases)
        case (fails e)
        from obeysD [OF lock conjunct1 [OF u1] fails(1)] u1 have "only_deletes {} w w'" by (auto simp: only_deletes_def)
        with fails(2) show thesis by (rule that(1))
      next
        case (goes ls w2)
        from obeysD [OF lock conjunct1 [OF u1] goes(1)] u1 have u2: "only_deletes {} w w2" by (auto simp: only_deletes_def)
        from goes(2) obtain rest where "bindS (eachS (remove_existing W) (sorted_list_of_set (wv_residual v))) rest w2 = (r, w')"
          by (auto simp: bindS_def)
        with u2 show thesis by (rule that(2))
      qed
    qed
  qed
qed

text \<open>A path that cannot be removed while another one stands that is to go later stops the loop.\<close>

lemma eachS_append: "eachS f (xs @ ys) = bindS (eachS f xs) (\<lambda>_. eachS f ys)"
proof (induction xs)
  case Nil
  show ?case by (simp add: eachS_def bindS_def retS_def)
next
  case (Cons x xs)
  have "eachS f (a # as) w = bindS (f a) (\<lambda>_. eachS f as) w" for a as w
    by (simp add: eachS_def)
  then have step: "eachS f (a # as) = bindS (f a) (\<lambda>_. eachS f as)" for a as by (rule ext)
  show ?case unfolding append_Cons step Cons.IH
    by (rule ext) (auto simp: bindS_def split: prod.splits sum.splits)
qed

lemma each_blocked:
  fixes W :: "('u :: linorder, 'd, 's) wipe_env"
  assumes run: "eachS (remove_existing W) (xs @ p # ys) w = (r, w')" and doit: "wx_doit W"
    and p: "p \<notin> set xs" "path_exists (wd_disk w) p" and q: "q \<notin> set xs" "path_exists (wd_disk w) q"
    and stuck: "\<And>d. path_exists d q \<Longrightarrow> do_fails (wx_dirs W) d p"
  shows "\<exists>e. r = Inl e \<and> only_deletes (set xs) w w'"
proof -
  have xs: "obeys (in_directory (th_directory (wd_handler w))) (only_deletes (set xs)) (eachS (remove_existing W) xs)"
    by (rule deleting.each, rule deleting.remove_if)
  have B: "in_directory (th_directory (wd_handler w)) w" by (simp add: in_directory_def)
  from run [unfolded eachS_append] show ?thesis
  proof (cases rule: bindS_cases)
    case (fails e)
    with obeysD [OF xs B fails(1)] show ?thesis by simp
  next
    case (goes x w2)
    from obeysD [OF xs B goes(1)] have del: "only_deletes (set xs) w w2" by simp
    with p q have there: "path_exists (wd_disk w2) p" "path_exists (wd_disk w2) q" by (auto simp: only_deletes_def)
    have "\<exists>out e. remove_existing W p w2 = (Inl e, w2\<lparr>wd_out := out\<rparr>)"
      using there stuck [OF there(2)] doit by (auto simp: remove_existing_def remove_path_def Let_def)
    then obtain out e where "remove_existing W p w2 = (Inl e, w2\<lparr>wd_out := out\<rparr>)" by blast
    with goes(2) have "r = Inl e \<and> w' = w2\<lparr>wd_out := out\<rparr>" by (simp add: eachS_def bindS_def)
    with del show ?thesis by (auto simp: only_deletes_def)
  qed
qed

section \<open>Concrete inputs\<close>

text \<open>
  A database with two indexes that share a data file; the request is for one of them. Directories are those of the disk, and no removal
  fails.
\<close>

definition sample_dir_ops :: dir_ops where
  "sample_dir_ops = \<lparr>do_sameAs = (\<lambda>d p q. p = q), do_isDir = (\<lambda>d p. p = ''/db''),
     do_readdir = (\<lambda>d p. if p = ''/db'' then Some [''toc'', ''i'', ''j'', ''a.data'', ''b.data''] else None),
     do_lstat = (\<lambda>d p. if path_exists d p then Some (p = ''/db'') else None), do_fails = (\<lambda>d p. False)\<rparr>"

definition wiping :: "bool \<Rightarrow> (string, string list, ref_trees) wipe_env" where
  "wiping doit = \<lparr>wx_cat = session_env, wx_dirs = sample_dir_ops,
     wx_unset = (\<lambda>k rq. rq\<lparr>rq_params := filter (\<lambda>p. p \<noteq> k) (rq_params rq), rq_has := (\<lambda>p. p \<noteq> k \<and> rq_has rq p)\<rparr>),
     wx_key = od_dict_key ''od'', wx_schema = sample_schema, wx_ids = ids_of IdNone, wx_version = 2, wx_useSubToc = False,
     wx_request = sample_request [(''class'', [''od'']), (''type'', [''fc''])], wx_doit = doit, wx_porcelain = True, wx_unsafe = False\<rparr>"

definition wipe_index :: "string \<Rightarrow> string \<Rightarrow> string list \<Rightarrow> string toc_index" where
  "wipe_index path type uris =
     (let i = new_toc_index sample_index_env 0 (key_of_list [(''type'', type)] None) path 0 True ''BTreeIndex''
      in i\<lparr>tx_files := (tx_files i)\<lparr>us_paths := zip [0..<length uris] uris\<rparr>\<rparr>)"

definition wipe_listing :: "string toc_index list" where
  "wipe_listing = [wipe_index ''/db/i'' ''fc'' [''/db/a.data'', ''/db/b.data''], wipe_index ''/db/j'' ''an'' [''/db/b.data'']]"

definition wipe_start :: "(string list, ref_trees) wiped" where
  "wipe_start = \<lparr>wd_handler = sample_handler,
     wd_disk = session_disk\<lparr>dk_files := [''/db'', ''/db/i'', ''/db/j'', ''/db/a.data'', ''/db/b.data'']\<rparr>,
     wd_stores = session_stores, wd_out = []\<rparr>"

lemma wiping_members [simp]:
  "wx_cat (wiping b) = session_env" "wx_dirs (wiping b) = sample_dir_ops" "wx_key (wiping b) = od_dict_key ''od''"
  "wx_ids (wiping b) = ids_of IdNone" "wx_doit (wiping b) = b" "wx_porcelain (wiping b)" "\<not> wx_unsafe (wiping b)"
  "wx_version (wiping b) = 2" "\<not> wx_useSubToc (wiping b)"
  by (simp_all add: wiping_def)

lemma wiping_request:
  "rq_params (index_request (wiping b)) = [''type'']" "rq_values (index_request (wiping b)) ''type'' = Inr [''fc'']"
  by (simp_all add: index_request_def wiping_def od_dict_key_def sample_request_def)

lemma wipe_index_members:
  "tx_path (wipe_index p t us) = p" "toc_dataPaths (wipe_index p t us) = us" "tx_offset (wipe_index p t us) = 0"
  "ib_key (tx_base (wipe_index p t us)) = key_of_list [(''type'', t)] None"
  by (simp_all add: wipe_index_def new_toc_index_def toc_dataPaths_def uri_paths_def new_base_def Let_def)

lemma wipe_index_match:
  "match_request (key_of_list [(''type'', t)] None) (index_request (wiping b)) = Inr (t = ''fc'')"
  by (simp add: match_request_def wiping_request key_of_list_def dict_emplace_def key_find_def)

lemma wipe_in_base: "in_base (wiping b) d sample_handler p \<longleftrightarrow> po_dir sample_paths p = ''/db''"
  by (simp add: in_base_def sample_dir_ops_def sample_handler_def)

lemma wipe_paths:
  "(\<Union>i \<in> set wipe_listing. kept_paths (wiping b) wipe_start i) = {''/db/j'', ''/db/b.data''}"
  "(\<Union>i \<in> set wipe_listing. given_paths (wiping b) wipe_start i) = {''/db/i'', ''/db/a.data'', ''/db/b.data''}"
  by (auto simp: wipe_listing_def kept_paths_def given_paths_def included_def data_files_def wipe_index_members wipe_index_match
      wipe_start_def wipe_in_base ref_uri_ops_def sample_paths_def)

lemma wipe_start_members:
  "wd_handler wipe_start = sample_handler" "po_dir sample_paths ''/db/i'' = ''/db''" "po_dir sample_paths ''/db/j'' = ''/db''"
  "po_dir sample_paths ''/db/a.data'' = ''/db''" "po_dir sample_paths ''/db/b.data'' = ''/db''"
  "u_path ref_uri_ops = (\<lambda>u. u)" "catalogue_enabled (wiping b) (wd_disk wipe_start) sample_handler IdWipe = Inr True"
  by (simp_all add: wipe_start_def sample_paths_def ref_uri_ops_def)
    (simp add: catalogue_enabled_def ids_enabled_def ids_of_def toc_enabled_def control_file_def controlfile_lookup_def
      fullControlFilePath_def sample_handler_def path_exists_def session_disk_def sample_paths_def)

text \<open>What the visitor has collected at the end of the listing.\<close>

definition wipe_collected :: "bool \<Rightarrow> string wipe_visitor" where
  "wipe_collected b = (new_wipe_visitor (wiping b))\<lparr>wv_entry := \<lparr>ev_catalogue = Some (sample_schema, od_dict_key ''od''), ev_index = None\<rparr>,
     wv_indexRequest := index_request (wiping b), wv_indexes := {''/db/i''}, wv_data := {''/db/a.data'', ''/db/b.data''},
     wv_safe := {''/db/j'', ''/db/b.data''}, wv_toMask := [hd wipe_listing]\<rparr>"

lemma wipe_sample_visit:
  "wipe_visitEntries (wiping b) wipe_listing new_local_wipe wipe_start =
     local_catalogueComplete (wiping b) \<lparr>lw_entry = \<lparr>ev_catalogue = Some (sample_schema, od_dict_key ''od''), ev_index = None\<rparr>,
       lw_internal = Some (wipe_collected b)\<rparr> wipe_start"
proof -
  let ?d = "wd_disk wipe_start" and ?c = "\<lparr>ev_catalogue = Some (sample_schema, od_dict_key ''od''), ev_index = None\<rparr>"
  let ?v = "(new_wipe_visitor (wiping b))\<lparr>wv_entry := ?c, wv_indexRequest := index_request (wiping b)\<rparr>"
  have schema: "wx_schema (wiping b) = sample_schema" by (simp add: wiping_def)
  have db: "local_visitDatabase (wiping b) ?d sample_handler new_local_wipe = Inr (True, \<lparr>lw_entry = ?c, lw_internal = Some ?v\<rparr>)"
    by (simp add: local_visitDatabase_def wipe_visitDatabase_def wipe_start_members new_local_wipe_def new_wipe_visitor_def
        visitDatabase_def new_visitor_def schema assertE_def index_request_def)
  have fold: "foldE (local_visitIndex (wiping b) ?d sample_handler) wipe_listing \<lparr>lw_entry = ?c, lw_internal = Some ?v\<rparr> =
      Inr \<lparr>lw_entry = ?c, lw_internal = Some (wipe_collected b)\<rparr>"
    by (simp add: wipe_listing_def local_visitIndex_def local_internal_def wipe_visitIndex_def wipe_index_members wipe_index_match
        wipe_in_base wipe_start_members assertE_def wipe_collected_def new_wipe_visitor_def Let_def insert_commute)
  show ?thesis
    unfolding wipe_visitEntries_def Let_def wipe_start_members(1) db
    by (simp add: local_visitIndexes_def local_internal_def fold bindS_def)
qed

lemma each_returns:
  "(\<And>p w. \<exists>w'. f p w = (Inr (), w')) \<Longrightarrow> \<exists>w'. eachS f ps w = (Inr (), w')"
proof (induction ps arbitrary: w)
  case (Cons p ps)
  obtain w1 where "f p w = (Inr (), w1)" using Cons.prems by blast
  with Cons.IH [OF Cons.prems, of w1] show ?case by (auto simp: eachS_def bindS_def)
qed (simp add: eachS_def)

lemma each_removes:
  assumes "\<And>d p. \<not> do_fails (wx_dirs W) d p"
  shows "\<exists>w'. eachS (remove_path W) ps w = (Inr (), w')" and "\<exists>w'. eachS (remove_existing W) ps w = (Inr (), w')"
  using assms by (auto intro!: each_returns simp: remove_existing_def remove_path_def Let_def)

lemma wipe_sample_run: "\<exists>l w'. wipe_visitEntries (wiping True) wipe_listing new_local_wipe wipe_start = (Inr l, w')"
proof -
  let ?W = "wiping True" and ?d = "wd_disk wipe_start"
  let ?v = "ensureSafePaths (forget_metadata ((wipe_collected True)\<lparr>wv_entry := new_visitor\<rparr>))"
  have v: "wv_safe ?v \<noteq> {}" "wv_residual ?v = {}" "wv_indexes ?v = {''/db/i''}" "wv_data ?v = {''/db/a.data''}" "wv_subtocs ?v = {}"
    "wv_lockfiles ?v = {}" "wv_toc ?v = []" "wv_schema ?v = []" "wv_toMask ?v = [hd wipe_listing]"
    by (auto simp: ensureSafePaths_def forget_metadata_def wipe_collected_def new_wipe_visitor_def)
  have uid: "on_catalogue (\<lambda>d h. bindE (checkUID (wx_fuel ?W) (wx_paths ?W) (wx_toc ?W) d h) (\<lambda>h. Inr ((), h))) w = (Inr (), w)"
    for w :: "(string list, ref_trees) wiped"
    by (simp add: on_catalogue_def checkUID_def sample_env_def)
  have handler: "new_handler sample_paths ?d 2 False ''/db'' = Inr (sample_handler\<lparr>th_dbUID := None\<rparr>)"
    by (simp add: new_handler_def findRealPath_def path_exists_def wipe_start_def session_disk_def sample_handler_def sample_paths_def)
  let ?h = "sample_handler\<lparr>th_dbUID := None\<rparr>"
  let ?r = "make_record sample_paths sample_env 2 TOC_CLEAR [IStr ''i'', INum 0]"
  have toc: "map_of (dk_tocs ?d) (th_tocPath ?h) \<noteq> None" "th_cache ?h = None"
    by (simp_all add: wipe_start_def session_disk_def sample_handler_def)
  have block: "writeClearRecord 3 sample_paths sample_env ''/db/i'' 0 ?h ?d = Inr (?h, append_records ?h [?r] ?d)"
    unfolding writeClearRecord_def clear_record_def
    by (subst appendBlock_aligned [OF sample_round_law]) (use toc in \<open>auto simp: openForAppend_def checkUID_def sample_env_def sample_handler_def sample_paths_def\<close>)
  have "\<exists>w1. mask_index ?W (hd wipe_listing) wipe_start = (Inr (), w1)"
    using handler
    by (simp add: mask_index_def print_lines_def bindS_def on_files_def wipe_start_members sample_facts wipe_listing_def
        wipe_index_members block)
  then obtain w1 where w1: "mask_index ?W (hd wipe_listing) wipe_start = (Inr (), w1)" by blast
  have masks: "eachS (mask_index ?W) [hd wipe_listing] wipe_start = (Inr (), w1)"
    by (simp add: eachS_def bindS_def w1)
  obtain w2 where w2: "eachS (remove_path ?W) [''/db/a.data''] w1 = (Inr (), w2)"
    using each_removes [of "wiping True" "[''/db/a.data'']" w1] by (auto simp: sample_dir_ops_def)
  obtain w3 where w3: "eachS (remove_existing ?W) (wipe_order False (th_directory (wd_handler w2)) (?v\<lparr>wv_lockfiles := wv_lockfiles ?v \<union> set []\<rparr>)) w2 = (Inr (), w3)"
    using each_removes [of "wiping True"] by (fastforce simp: sample_dir_ops_def)
  have "anythingToWipe ?v" by (simp add: anythingToWipe_def v)
  then have "wipe ?W False ?v wipe_start = (Inr (), w3)"
    unfolding wipe_def Let_def using uid masks w2 w3
    by (simp add: bindS_def v assertE_def eachS_def [of "remove_existing ?W" "[]"])
  moreover have "catalogueComplete (wx_schema ?W, wx_key ?W) (wv_entry (wipe_collected True)) = Inr new_visitor"
    by (simp add: catalogueComplete_def wipe_collected_def assertE_def new_visitor_def wiping_def)
  moreover have "wv_safe (wipe_collected True) \<noteq> {}" by (simp add: wipe_collected_def)
  ultimately have "wipe_catalogueComplete ?W (wipe_collected True) wipe_start = (Inr (), w3)"
    using \<open>anythingToWipe ?v\<close> by (simp add: wipe_catalogueComplete_def bindS_def Let_def)
  then show ?thesis
    unfolding wipe_sample_visit by (simp add: local_catalogueComplete_def local_internal_def bindS_def)
qed

section \<open>A wipe of some indexes\<close>

text \<open>
  C40: Wiping some of the indexes of a database deletes exactly what only they use. An index is given up when its key matches the request,
  less the keywords of the database, and its file is in the directory of the database: it gives up its own file and those of its data
  files that are in that directory, and keeps the others; any other index keeps its file and all its data files. When some index of the
  listing keeps a path, the visit of the database by the wipe visitor of the client deletes no path (but the empty one) that some index
  keeps or that none gives up, however it ends: neither data shared with an index that stays, nor an index file in which one stays, nor the
  table of contents, the schema or a control file, which only an index that names them could give up. When it returns, and is not a dry run, every path that was given up and is not
  kept is gone.
\<close>
theorem partial_wipe_exact:
  fixes W :: "('u :: linorder, 'd, 's) wipe_env"
  assumes run: "wipe_visitEntries W all new_local_wipe w = (r, w')"
    and some: "(\<Union>i \<in> set all. kept_paths W w i) \<noteq> {}"
  shows "(\<forall>q. path_exists (wd_disk w) q \<and> \<not> path_exists (wd_disk w') q \<longrightarrow>
            q = '''' \<or> q \<in> (\<Union>i \<in> set all. given_paths W w i) - (\<Union>i \<in> set all. kept_paths W w i)) \<and>
         (\<forall>l q. r = Inr l \<and> wx_doit W \<and> q \<in> (\<Union>i \<in> set all. given_paths W w i) - (\<Union>i \<in> set all. kept_paths W w i) \<longrightarrow>
            \<not> path_exists (wd_disk w') q)"
  using run
proof (cases rule: visit_run)
  case (fails e)
  then show ?thesis by simp
next
  case (ends v r0)
  from some ends(6) have safe: "wv_safe v \<noteq> {}" by simp
  have deleted: "only_deletes (insert '''' (wv_indexes v \<union> wv_data v - wv_safe v)) w w'"
    using ends(1) safe ends(3,4) by (rule partial_deletes)
  have gone: "\<not> path_exists (wd_disk w') q"
    if "r0 = Inr ()" and doit: "wx_doit W" and q: "q \<in> wv_indexes v \<union> wv_data v - wv_safe v" for q
    using ends(1) safe ends(3)
  proof (cases rule: partial_run)
    case nothing
    with that show ?thesis by auto
  next
    case (deletes v2 w3)
    from partial_clears [OF _ doit deletes(3), of w3 "()" w' q] deletes(2,5,6) that show ?thesis by auto
  qed
  show ?thesis
    using deleted gone ends(2) by (auto simp: only_deletes_def ends(6,7))
qed

lemma partial_wipe_exact_witness:
  "\<exists>l w'. wipe_visitEntries (wiping True) wipe_listing new_local_wipe wipe_start = (Inr l, w') \<and>
     (\<forall>q \<in> {''/db/i'', ''/db/a.data''}. path_exists (wd_disk wipe_start) q \<and> \<not> path_exists (wd_disk w') q) \<and>
     (\<forall>q \<in> {''/db/j'', ''/db/b.data'', ''/db/toc'', ''/db''}. path_exists (wd_disk w') q)"
proof -
  obtain l w' where run: "wipe_visitEntries (wiping True) wipe_listing new_local_wipe wipe_start = (Inr l, w')"
    using wipe_sample_run by blast
  define gone kept where "gone = {''/db/i'', ''/db/a.data''}" and "kept = {''/db/j'', ''/db/b.data'', ''/db/toc'', ''/db''}"
  have there: "path_exists (wd_disk wipe_start) q" if "q \<in> gone \<union> kept" for q
    using that by (auto simp: path_exists_def wipe_start_def session_disk_def gone_def kept_def)
  have some: "(\<Union>i \<in> set wipe_listing. kept_paths (wiping True) wipe_start i) \<noteq> {}" by (simp add: wipe_paths)
  have less: "{''/db/i'', ''/db/a.data'', ''/db/b.data''} - {''/db/j'', ''/db/b.data''} = gone" by (auto simp: gone_def)
  have apart: "q \<noteq> []" "q \<notin> gone" if "q \<in> kept" for q using that by (auto simp: gone_def kept_def)
  note exact = partial_wipe_exact [OF run some, unfolded wipe_paths less]
  have "\<not> path_exists (wd_disk w') q" if "q \<in> gone" for q
    using conjunct2 [OF exact] that by (metis wiping_members(5))
  moreover have "path_exists (wd_disk w') q" if "q \<in> kept" for q
    using conjunct1 [OF exact] apart [OF that] there [of q] that by blast
  ultimately show ?thesis unfolding gone_def [symmetric] kept_def [symmetric] using run there by blast
qed

section \<open>A wipe of the whole database\<close>

lemma full_planD:
  assumes "full_plan W w v0 v" and "children (wx_dirs W) (wx_paths W) (wd_disk w) (wx_fuel W) (th_directory (wd_handler w)) = Inr ps"
  shows "finite_sets v" "wv_residual v = set ps - deletePaths v" "deletePaths v \<subseteq> set ps"
    "wv_residual v = {} \<or> wx_unsafe W \<or> \<not> wx_doit W"
proof -
  obtain qs where "children (wx_dirs W) (wx_paths W) (wd_disk w) (wx_fuel W) (th_directory (wd_handler w)) = Inr qs"
    and qs: "deletePaths v \<subseteq> set qs" "wv_residual v = set qs - deletePaths v"
    using assms(1) unfolding full_plan_def by blast
  with assms(2) have "qs = ps" by simp
  with qs show "wv_residual v = set ps - deletePaths v" "deletePaths v \<subseteq> set ps" by simp_all
  show "finite_sets v" "wv_residual v = {} \<or> wx_unsafe W \<or> \<not> wx_doit W"
    using assms(1) unfolding full_plan_def by blast+
qed

text \<open>
  When no index keeps a path the whole directory goes. Once the wipe has returned, nothing of what \<open>children\<close> listed of
  the directory is left, nor is the directory.
\<close>

theorem full_wipe_clears:
  fixes W :: "('u :: linorder, 'd, 's) wipe_env"
  assumes run: "wipe_visitEntries W all new_local_wipe w = (Inr l, w')" and doit: "wx_doit W"
    and none: "(\<Union>i \<in> set all. kept_paths W w i) = {}" and toc: "th_tocPath (wd_handler w) \<noteq> []"
    and children: "children (wx_dirs W) (wx_paths W) (wd_disk w) (wx_fuel W) (th_directory (wd_handler w)) = Inr ps"
    and q: "q \<in> insert (th_directory (wd_handler w)) (set ps)"
  shows "\<not> path_exists (wd_disk w') q"
  using run
proof (cases rule: visit_run)
  case (ends v r0)
  from ends(2) have r0: "r0 = Inr ()" by simp
  have safe: "wv_safe v = {}" using none ends(6) by simp
  show ?thesis
    using ends(1) safe ends(3) toc
  proof (cases rule: full_run)
    case nothing
    with r0 doit show ?thesis by simp
  next
    case (deletes v2 w3)
    have dir: "th_directory (wd_handler w3) = th_directory (wd_handler w)"
      using deletes(1) by (simp add: untouched_def same_id_def)
    note plan = full_planD [OF deletes(2) children]
    with q have "q \<in> deletePaths v2 \<or> q \<in> wv_residual v2 \<or> q = th_directory (wd_handler w3)" by (auto simp: dir)
    with deletes(3) doit plan(1) show ?thesis unfolding r0 by (intro full_clears)
  qed
qed simp

text \<open>
  Without the option for unsafe wipes a whole database is only wiped when the directory holds nothing but what the database knows
  of: if any path of it is gone afterwards, every path that \<open>children\<close> listed was expected.
\<close>

theorem unclean_directory_refused:
  fixes W :: "('u :: linorder, 'd, 's) wipe_env"
  assumes run: "wipe_visitEntries W all new_local_wipe w = (r, w')" and unsafe: "\<not> wx_unsafe W"
    and none: "(\<Union>i \<in> set all. kept_paths W w i) = {}" and toc: "th_tocPath (wd_handler w) \<noteq> []"
    and children: "children (wx_dirs W) (wx_paths W) (wd_disk w) (wx_fuel W) (th_directory (wd_handler w)) = Inr ps"
    and q: "q \<in> set ps" "\<not> expected W all w q"
  shows "wd_disk w' = wd_disk w \<and> (\<forall>l. r = Inr l \<longrightarrow> \<not> wx_doit W)"
  using run
proof (cases rule: visit_run)
  case (fails e)
  then show ?thesis by simp
next
  case (ends v r0)
  have safe: "wv_safe v = {}" using none ends(6) by simp
  show ?thesis
    using ends(1) safe ends(3) toc
  proof (cases rule: full_run)
    case nothing
    with ends(2) show ?thesis by (auto simp: untouched_def)
  next
    case (deletes v2 w3)
    from plan_expected [OF deletes(2) ends(5,7)] have paths: "deletePaths v2 = {q. expected W all w q \<and> path_exists (wd_disk w) q}" .
    have "wv_residual v2 = set ps - deletePaths v2" and dirty: "wv_residual v2 = {} \<or> wx_unsafe W \<or> \<not> wx_doit W"
      using full_planD [OF deletes(2) children] by blast+
    then have "q \<in> wv_residual v2" using q paths by simp
    with dirty unsafe have dry: "\<not> wx_doit W" by blast
    have "obeys (\<lambda>_. True) (dry W) (wipe W True v2)"
      by (rule dry_run.wiping) (simp_all add: dry)
    from obeys_everywhere [OF this deletes(3)] deletes(1) dry show ?thesis by (auto simp: dry_def untouched_def)
  qed
qed

text \<open>
  With that option the remaining paths go first, in the order of their names. A directory comes before what is in it, cannot be
  removed while it is not empty, and stops the wipe with an exception before anything the database knows of is deleted: what is gone
  are remaining paths that come before it.
\<close>

theorem unsafe_wipe_stops:
  fixes W :: "('u :: linorder, 'd, 's) wipe_env"
  assumes run: "wipe_visitEntries W all new_local_wipe w = (r, w')" and doit: "wx_doit W"
    and none: "(\<Union>i \<in> set all. kept_paths W w i) = {}" and toc: "th_tocPath (wd_handler w) \<noteq> []"
    and children: "children (wx_dirs W) (wx_paths W) (wd_disk w) (wx_fuel W) (th_directory (wd_handler w)) = Inr ps"
    and p: "p \<in> set ps" "\<not> expected W all w p" "path_exists (wd_disk w) p"
    and q: "q \<in> set ps" "\<not> expected W all w q" "path_exists (wd_disk w) q" and order: "p < q"
    and stuck: "\<And>d. path_exists d q \<Longrightarrow> do_fails (wx_dirs W) d p"
  shows "\<exists>e. r = Inl e \<and> only_deletes {x \<in> set ps. \<not> expected W all w x \<or> \<not> path_exists (wd_disk w) x} w w'"
  using run
proof (cases rule: visit_run)
  case (fails e)
  then show ?thesis by (simp add: only_deletes_def)
next
  case (ends v r0)
  have safe: "wv_safe v = {}" using none ends(6) by simp
  let ?A = "{x \<in> set ps. \<not> expected W all w x \<or> \<not> path_exists (wd_disk w) x}"
  have "\<exists>e. r0 = Inl e \<and> only_deletes ?A w w'"
    using ends(1) safe ends(3) toc
  proof (cases rule: full_run)
    case nothing
    then show ?thesis using doit by (cases r0) (auto simp: untouched_def only_deletes_def)
  next
    case (deletes v2 w3)
    from plan_expected [OF deletes(2) ends(5,7)] have paths: "deletePaths v2 = {q. expected W all w q \<and> path_exists (wd_disk w) q}" .
    have fin: "finite_sets v2" and residual: "wv_residual v2 = ?A"
      using full_planD [OF deletes(2) children] paths by auto
    have same: "path_exists (wd_disk w3) x \<longleftrightarrow> path_exists (wd_disk w) x" for x using deletes(1) by (simp add: untouched_def)
    from deletes(3) show ?thesis
    proof (cases rule: full_start)
      case (fails e)
      then show ?thesis by (auto simp: only_deletes_def same)
    next
      case (goes w4 rest)
      have "finite ?A" using fin residual by (simp add: finite_sets_def)
      then obtain xs ys where split: "sorted_list_of_set (wv_residual v2) = xs @ p # ys" and sets: "set xs \<union> insert p (set ys) = ?A"
        using p by (metis (mono_tags, lifting) residual mem_Collect_eq set_sorted_list_of_set split_list set_append list.simps(15))
      have "sorted (xs @ p # ys)" "distinct (xs @ p # ys)" unfolding split [symmetric] by simp_all
      then have notin: "p \<notin> set xs" "q \<notin> set xs" using order by (auto simp: sorted_append)
      have there: "path_exists (wd_disk w4) p" "path_exists (wd_disk w4) q"
        using goes(1) p(3) q(3) by (auto simp: only_deletes_def same)
      from goes(2) obtain r1 w5 where r1: "eachS (remove_existing W) (xs @ p # ys) w4 = (r1, w5)" and r0: "\<And>e. r1 = Inl e \<Longrightarrow> r0 = Inl e \<and> w' = w5"
        unfolding split by (cases rule: bindS_cases) (auto simp: bindS_def)
      from each_blocked [OF r1 doit notin(1) there(1) notin(2) there(2) stuck] r0
      obtain e where "r0 = Inl e" and "only_deletes (set xs) w4 w'" by blast
      with goes(1) sets show ?thesis by (auto simp: only_deletes_def same)
    qed
  qed
  with ends(2) show ?thesis by (cases r) auto
qed

text \<open>
  A database whose wipe is locked: the visitor of the client is refused, but \<open>visitEntries\<close> completes the catalogue all the
  same, and the assertion that there is an inner visitor fails.
\<close>

theorem locked_wipe_throws:
  assumes "catalogue_enabled W (wd_disk w) (wd_handler w) IdWipe = Inr False"
  shows "wipe_visitEntries W all new_local_wipe w = (Inl (AssertFailed ''internalVisitor_''), w)"
  by (simp add: wipe_visitEntries_def local_visitDatabase_def assms local_catalogueComplete_def local_internal_def new_local_wipe_def
      bindS_def)

end
