(* ===== verification/Spec2Isabelle.thy ===== *)
theory Spec2Isabelle
  imports FDB_Expand FDB_SchemaParser FDB_RootManager FDB_Retrieve FDB_Wipe
begin

text \<open>
  A verification library for FDB, the store of meteorological fields under \<open>src/fdb5\<close>. A field is
  archived under a key, a map of keywords to values. The schema splits the key into three levels:
  the first names a database, which is a directory with a table of contents (the file \<open>toc\<close>), the second
  an index of the database, the third the field in the index. Writing goes down these levels through the
  rules of the schema to the catalogue writer, which puts the location of the field into an index, flushes
  the index into a B-tree file, and appends a record of it to the table of contents. Reading loads the
  records that no later record masks, newest first, and looks the key up in the indexes.

  Conventions. A C++ class is a record, an enumeration or a family of subclasses a datatype, an operation a
  function from the state to a sum: \<open>Inl\<close> holds the exception that is thrown (the datatype \<open>error\<close> has one
  constructor for each class of exception), \<open>Inr\<close> the result with the new state. Where the code goes on after
  an exception, the operation is a \<open>step\<close>, which gives back the state in either case. An ordered map or set is an association list in the order of its keys (\<open>dict\<close>), a
  stream is a list of typed items. Library code that is not in the repository is a parameter: the functions of
  eckit and metkit in the record \<open>ext\<close>, the sets, URIs, paths and B-trees of eckit in the records \<open>dense\<close>,
  \<open>uri_ops\<close>, \<open>path_ops\<close> and \<open>btree_lib\<close>, with what is documented of them as the predicates \<open>dense_laws\<close>,
  \<open>uri_laws\<close>, \<open>round_law\<close> and \<open>btree_laws\<close>; each has a reference instance that satisfies them, on which the witnesses run.

  The theories, in the order of the calls:
    \<^item> \<open>FDB_Prelude\<close>: results and errors, ordered dictionaries, streams, the locales \<open>assignments\<close> and \<open>codec\<close>.
    \<^item> \<open>FDB_External\<close>: the parameters that stand for library functions on values, and a reference instance.
    \<^item> \<open>FDB_Types\<close> (\<open>types/\<close>): the types of values, their registry; normalising a value and making keys of it.
    \<^item> \<open>FDB_Key\<close> (\<open>database/Key.cc\<close>): keys, their stream and text.
    \<^item> \<open>FDB_Matcher\<close> and \<open>FDB_Rules\<close> (\<open>rules/\<close>): predicates, rules, the schema; which rule and which key a
      request or a text selects on each level. \<open>FDB_Expand\<close>: the expansions over the visitors of archiving
      and retrieving, refined to the list of leaves. \<open>FDB_SchemaParser\<close>: the parser of schemas.
    \<^item> \<open>FDB_Control\<close> (\<open>api/helpers/ControlIterator.cc\<close>): the sets of identifiers at their 16 bits.
    \<^item> \<open>FDB_Axis\<close> and \<open>FDB_UriStore\<close> (\<open>database/IndexAxis.cc\<close>, \<open>AxisRegistry.cc\<close>, \<open>UriStore.cc\<close>): the members of an
      index, over an explicit store of the sets that axes share. \<open>FDB_Field\<close>: locations of fields.
    \<^item> \<open>FDB_Index\<close> (\<open>database/Index.cc\<close>, \<open>toc/TocIndex.cc\<close>, \<open>toc/BTreeIndex.cc\<close>): the index over a B-tree file; the
      locale \<open>index_map\<close> is its contract, interpreted on the index.
    \<^item> \<open>FDB_Toc\<close> (\<open>toc/TocHandler.cc\<close>): the table of contents. \<open>toc_views\<close> specifies the records that are
      visible; the chain of handlers that the code reads with is refined to it.
    \<^item> \<open>FDB_Catalogue\<close> (\<open>toc/TocCatalogue*.cc\<close>, \<open>database/EntryVisitMechanism.cc\<close>): reader, writer, control files,
      mounting, reconsolidation. Opening the writer on a URI always fails (\<open>open_writer_uri_fails\<close>): it reads the key of the
      database first, and the cached file that this leaves contradicts an assertion of \<open>writeInitRecord\<close>.
    \<^item> \<open>FDB_Roots\<close> and \<open>FDB_RootManager\<close> (\<open>toc/FileSpace.cc\<close>, \<open>toc/RootManager.cc\<close>): the directory of a database, the
      file of versions that the processes share, and the search for databases.
    \<^item> \<open>FDB_Session\<close>: writing an index, flushing the catalogue and retrieving.
    \<^item> \<open>FDB_Store\<close> (\<open>toc/TocStore.cc\<close>, \<open>io/\<close>): the data files with their buffers, and the handles that read them.
    \<^item> \<open>FDB_Archive\<close> (\<open>database/DB.cc\<close>, \<open>Archiver.cc\<close>): a database of a catalogue and a store, the archiver with
      its pool of databases and its visitor; the locale \<open>database\<close> is what the archiver asks of a database.
    \<^item> \<open>FDB_Iterator\<close> (\<open>api/helpers/APIIterator.h\<close>, \<open>ListIterator.h\<close>): the iterators of the client interface and the
      listing without duplicates; the locale \<open>iterator\<close> is their contract.
    \<^item> \<open>FDB_Config\<close> (\<open>config/Config.cc\<close>) and \<open>FDB_Client\<close> (\<open>api/\<close>): the configuration, and the FDBs as trees of
      leaves, choices and distributions.
    \<^item> \<open>FDB_Retrieve\<close> (\<open>database/MultiRetrieveVisitor.cc\<close>, \<open>Inspector.cc\<close>): the visitor that lists the fields of a request and
      the inspector with its cache of open databases; the locale \<open>read_database\<close> is what it asks of a database, interpreted
      on the one over the table of contents; what a session archives, the visitor of another process lists.
    \<^item> \<open>FDB_Wipe\<close> (\<open>toc/TocWipeVisitor.cc\<close>, \<open>api/local/WipeVisitor.cc\<close>): the visitor that collects the paths of a database to
      delete and those to keep, and the deletion, whose state survives an exception. The locale \<open>step_relation\<close> is the contract
      of a relation between the states before and after a step; the locales that extend it follow the code, and their three
      interpretations say what changes no file, what only deletes given paths, and what a dry run leaves alone. A wipe of some
      indexes deletes exactly what only they use; a wipe of all of them leaves nothing, and refuses a directory with other files.

  Fuel. The reader of the table of contents recurses through sub tocs and does not end on one that
  contains itself, so it takes a number of calls it may make; the theorems about it hold for every number
  from some bound on, and the bound is shown to exist for every well-formed file. The iteration over control
  identifiers takes 17 turns, which is enough for the 16 bits. Loops over the fields of a stream take the
  length of the stream.

  Not modelled: the remote protocol and the threads around it (\<open>remote/\<close>, \<open>api/RemoteFDB.cc\<close>), the C
  interface, the command line tools, the visitors that purge and move a database, decoding of GRIB messages, the Rados, Lustre and LSM bindings, which are calls of
  libraries; printing and logging; advisory locks on files.
\<close>

end
